(* ===== verification/Prelude.thy ===== *)
theory Prelude
  imports Main "HOL-Library.Word" "HOL-Library.Monad_Syntax"
begin

text \<open>
  What every component of the development shares.

  The machine integers of the sources are words of their width (\<open>unsigned char\<close>,
  \<open>unsigned short\<close>, \<open>unsigned int\<close>, \<open>unsigned long long\<close> on the 32-bit target), so that
  \<open>+\<close>, \<open>-\<close> and \<open>*\<close> wrap as the compiled code does. A pointer into an array of list elements
  is the index of the element, with \<^const>\<open>None\<close> for \<open>nullptr\<close>. The flat memory a component
  writes through raw addresses is a function from 32-bit addresses to bytes.

  An access the C++ leaves undefined (an array index past the end, a \<open>nullptr\<close> dereference) is
  the value \<^const>\<open>None\<close> of an \<open>option\<close>: \<open>arr_get\<close> and \<open>arr_set\<close> are the checked array
  accesses, and the \<open>do\<close> blocks of the components propagate the fault.
\<close>

unbundle bit_operations_syntax

subsection \<open>Machine types\<close>

type_synonym u8 = "8 word"
type_synonym u16 = "16 word"
type_synonym u32 = "32 word"
type_synonym u64 = "64 word"
type_synonym ptr = "nat option"
type_synonym memory = "u32 \<Rightarrow> u8"

named_theorems word_nat "word comparisons and operations read as natural numbers"
named_theorems arr_simps "checked array accesses"
named_theorems chain_simps "linked lists inside element arrays"

subsection \<open>Checked array accesses\<close>

definition arr_get :: "'a list \<Rightarrow> nat \<Rightarrow> 'a option" where
  "arr_get xs i = (if i < length xs then Some (xs ! i) else None)"

definition arr_set :: "'a list \<Rightarrow> nat \<Rightarrow> 'a \<Rightarrow> 'a list option" where
  "arr_set xs i v = (if i < length xs then Some (xs[i := v]) else None)"

text \<open>A \<open>for\<close> loop whose body may fault.\<close>

primrec for_each :: "('i \<Rightarrow> 's \<Rightarrow> 's option) \<Rightarrow> 'i list \<Rightarrow> 's \<Rightarrow> 's option" where
  "for_each f [] s = Some s"
| "for_each f (i # is) s = do { s \<leftarrow> f i s; for_each f is s }"

subsection \<open>Bytes and their composition into wider integers\<close>

definition u16_be :: "u8 \<Rightarrow> u8 \<Rightarrow> u16" where
  "u16_be hi lo = push_bit 8 (ucast hi) + ucast lo"

definition u32_be :: "u8 \<Rightarrow> u8 \<Rightarrow> u8 \<Rightarrow> u8 \<Rightarrow> u32" where
  "u32_be b3 b2 b1 b0 =
     push_bit 24 (ucast b3) + push_bit 16 (ucast b2) + push_bit 8 (ucast b1) + ucast b0"

definition byte_at :: "nat \<Rightarrow> 'a::len word \<Rightarrow> u8" where
  "byte_at n w = ucast (drop_bit (8 * n) w)"

subsection \<open>Blocks of flat memory\<close>

definition store_bytes :: "memory \<Rightarrow> u32 \<Rightarrow> u8 list \<Rightarrow> memory" where
  "store_bytes m a bs =
     (\<lambda>x. let k = unat (x - a) in if k < length bs then bs ! k else m x)"

definition load_bytes :: "memory \<Rightarrow> u32 \<Rightarrow> nat \<Rightarrow> u8 list" where
  "load_bytes m a n = map (\<lambda>k. m (a + of_nat k)) [0..<n]"

lemma arr_get_Some [arr_simps]: "arr_get xs i = Some v \<longleftrightarrow> i < length xs \<and> v = xs ! i"
  by (auto simp: arr_get_def)

lemma arr_get_None [arr_simps]: "arr_get xs i = None \<longleftrightarrow> length xs \<le> i"
  by (auto simp: arr_get_def)

lemma arr_get_in [simp]: "i < length xs \<Longrightarrow> arr_get xs i = Some (xs ! i)"
  by (simp add: arr_get_def)

lemma arr_set_Some [arr_simps]: "arr_set xs i v = Some ys \<longleftrightarrow> i < length xs \<and> ys = xs[i := v]"
  by (auto simp: arr_set_def)

lemma arr_set_None [arr_simps]: "arr_set xs i v = None \<longleftrightarrow> length xs \<le> i"
  by (auto simp: arr_set_def)

lemma arr_set_in [simp]: "i < length xs \<Longrightarrow> arr_set xs i v = Some (xs[i := v])"
  by (simp add: arr_set_def)

subsection \<open>Loops whose body may fault\<close>

lemma for_each_append: "for_each f (is @ js) s = do { s \<leftarrow> for_each f is s; for_each f js s }"
  by (induction "is" arbitrary: s) (auto split: Option.bind_splits)

lemma for_each_invariant:
  assumes "for_each f is s = Some s'" "\<And>i s s'. f i s = Some s' \<Longrightarrow> h s' = h s"
  shows "h s' = h s"
  using assms(1) by (induction "is" arbitrary: s) (auto split: Option.bind_splits dest: assms(2))

lemma for_each_fold:
  assumes "\<And>j s. j \<in> set is \<Longrightarrow> f j s = Some (g j s)"
  shows "for_each f is s = Some (fold g is s)"
  using assms by (induction "is" arbitrary: s) auto

subsection \<open>Words as numbers\<close>

lemma unat_u8_lt [simp]: "unat (b :: u8) < 256"
  using unsigned_less [of b, where ?'a = nat] by simp

lemma unat_u16_lt [simp]: "unat (h :: u16) < 65536"
  using unsigned_less [of h, where ?'a = nat] by simp

lemma unat_u32_lt [simp]: "unat (w :: u32) < 4294967296"
  using unsigned_less [of w, where ?'a = nat] by simp

lemma unat_add_no_wrap:
  fixes a b :: u32
  assumes "unat a + unat b < 4294967296"
  shows "unat (a + b) = unat a + unat b"
  using assms by (simp add: unat_word_ariths)

lemma unat_sub_no_wrap:
  fixes a b :: "'a::len word"
  assumes "unat b \<le> unat a"
  shows "unat (a - b) = unat a - unat b"
  using assms by (simp add: unat_sub word_le_nat_alt)

lemma unat_ucast_u8_u16 [simp]: "unat (ucast (b :: u8) :: u16) = unat b"
  by (simp add: unsigned_ucast_eq take_bit_nat_eq_self order_less_le_trans [OF unat_u8_lt])

lemma unat_ucast_u8_u32 [simp]: "unat (ucast (b :: u8) :: u32) = unat b"
  by (simp add: unsigned_ucast_eq take_bit_nat_eq_self order_less_le_trans [OF unat_u8_lt])

lemma unat_ucast_u16_u32 [simp]: "unat (ucast (b :: u16) :: u32) = unat b"
  by (simp add: unsigned_ucast_eq take_bit_nat_eq_self order_less_le_trans [OF unat_u16_lt])

lemma unat_of_nat_u32: "n < 4294967296 \<Longrightarrow> unat (of_nat n :: u32) = n"
  by (simp add: unat_of_nat)

lemma unat_of_nat_u8 [simp]: "n < 256 \<Longrightarrow> unat (of_nat n :: u8) = n"
  by (simp add: unat_of_nat)

lemmas word_as_nat = word_less_nat_alt word_le_nat_alt

declare word_as_nat [word_nat] unat_of_nat [word_nat]

subsection \<open>Byte composition is invertible\<close>

lemma byte_at_numeral_simps:
  "byte_at 0 w = ucast w"
  "byte_at 1 w = ucast (drop_bit 8 w)"
  "byte_at 2 w = ucast (drop_bit 16 w)"
  "byte_at 3 w = ucast (drop_bit 24 w)"
  by (simp_all add: byte_at_def)

lemma push8_plus_low:
  fixes hi lo :: u8
  shows "unat (u16_be hi lo) = unat hi * 256 + unat lo"
proof -
  have "unat hi * 256 + unat lo < 65536"
    using unat_u8_lt [of hi] unat_u8_lt [of lo] by linarith
  then show ?thesis
    by (simp add: u16_be_def push_bit_eq_mult unat_word_ariths)
qed

lemma unat_byte_at: "unat (byte_at n w) = unat w div 2 ^ (8 * n) mod 256"
  by (simp add: byte_at_def unsigned_ucast_eq take_bit_eq_mod unsigned_drop_bit_eq)
     (simp add: drop_bit_eq_div)

lemma u16_be_bytes [simp]: "u16_be (byte_at 1 w) (byte_at 0 w) = (w :: u16)"
proof -
  have "unat (u16_be (byte_at 1 w) (byte_at 0 w)) = unat w div 256 mod 256 * 256 + unat w mod 256"
    by (simp add: push8_plus_low unat_byte_at)
  also have "\<dots> = unat w"
    using unat_u16_lt [of w] div_mult_mod_eq [of "unat w" 256]
    by (simp add: less_mult_imp_div_less)
  finally show ?thesis by (simp add: word_unat_eq_iff)
qed

lemma unat_u32_be:
  fixes b0 b1 b2 b3 :: u8
  shows "unat (u32_be b3 b2 b1 b0) =
    unat b3 * 16777216 + unat b2 * 65536 + unat b1 * 256 + unat b0"
proof -
  have "unat b3 * 16777216 + unat b2 * 65536 + unat b1 * 256 + unat b0 < 4294967296"
    using unat_u8_lt [of b0] unat_u8_lt [of b1] unat_u8_lt [of b2] unat_u8_lt [of b3] by linarith
  then show ?thesis
    by (simp add: u32_be_def push_bit_eq_mult unat_word_ariths)
qed

lemma nat_base_256:
  fixes x :: nat
  shows "x div 16777216 * 16777216 + x div 65536 mod 256 * 65536 +
    x div 256 mod 256 * 256 + x mod 256 = x"
proof -
  have eq: "x div 65536 = x div 256 div 256" "x div 16777216 = x div 256 div 256 div 256"
    by (simp_all add: div_mult2_eq [symmetric])
  show ?thesis unfolding eq
    using div_mult_mod_eq [of x 256] div_mult_mod_eq [of "x div 256" 256]
      div_mult_mod_eq [of "x div 256 div 256" 256] by linarith
qed

lemma u32_be_bytes [simp]:
  "u32_be (byte_at 3 w) (byte_at 2 w) (byte_at 1 w) (byte_at 0 w) = (w :: u32)"
proof -
  have "unat w div 16777216 < 256"
    using unat_u32_lt [of w] by (simp add: less_mult_imp_div_less)
  then have "unat (u32_be (byte_at 3 w) (byte_at 2 w) (byte_at 1 w) (byte_at 0 w)) = unat w"
    using nat_base_256 [of "unat w"] by (simp add: unat_u32_be unat_byte_at)
  then show ?thesis by (simp add: word_unat_eq_iff)
qed

subsection \<open>Blocks of flat memory\<close>

lemma store_bytes_Nil [simp]: "store_bytes m a [] = m"
  by (rule ext) (simp add: store_bytes_def)

lemma store_bytes_inside:
  assumes "k < length bs" "length bs \<le> 4294967296"
  shows "store_bytes m a bs (a + of_nat k) = bs ! k"
  using assms by (simp add: store_bytes_def unat_of_nat_u32)

lemma store_bytes_outside:
  assumes "length bs \<le> unat (x - a)"
  shows "store_bytes m a bs x = m x"
  using assms by (simp add: store_bytes_def Let_def)

lemma length_load_bytes [simp]: "length (load_bytes m a n) = n"
  by (simp add: load_bytes_def)

lemma load_bytes_nth [simp]: "k < n \<Longrightarrow> load_bytes m a n ! k = m (a + of_nat k)"
  by (simp add: load_bytes_def)

lemma store_bytes_append:
  assumes "length xs + length ys \<le> 4294967296"
  shows "store_bytes (store_bytes m a xs) (a + of_nat (length xs)) ys = store_bytes m a (xs @ ys)"
proof
  fix x
  define k where "k = unat (x - a)"
  have n: "length xs < 4294967296 \<or> ys = []" using assms by (cases ys) auto
  show "store_bytes (store_bytes m a xs) (a + of_nat (length xs)) ys x = store_bytes m a (xs @ ys) x"
  proof (cases "ys = []")
    case True
    then show ?thesis by simp
  next
    case False
    with n have len: "unat (of_nat (length xs) :: u32) = length xs" by (simp add: unat_of_nat_u32)
    have diff: "x - (a + of_nat (length xs)) = (x - a) - of_nat (length xs)" by simp
    show ?thesis
    proof (cases "k < length xs")
      case True
      then have "unat ((x - a) - of_nat (length xs)) = 4294967296 + k - length xs"
        using len by (simp add: unat_sub_if_size word_size k_def word_le_nat_alt)
      moreover have "\<not> 4294967296 + k - length xs < length ys" using assms by linarith
      ultimately show ?thesis
        using True by (simp add: store_bytes_def Let_def diff nth_append k_def [symmetric])
    next
      case False
      then have "unat ((x - a) - of_nat (length xs)) = k - length xs"
        using len by (simp add: unat_sub_no_wrap k_def)
      with False show ?thesis
        by (auto simp: store_bytes_def Let_def diff nth_append k_def [symmetric])
    qed
  qed
qed

lemma store_bytes_changes:
  assumes "store_bytes m (a + of_nat k) bs x \<noteq> m x" "k + length bs \<le> 4294967296"
  shows "k \<le> unat (x - a)" "unat (x - a) < k + length bs"
proof -
  have lt: "unat (x - (a + of_nat k)) < length bs"
    using assms(1) by (auto simp: store_bytes_def Let_def split: if_splits)
  then have "unat (x - (a + of_nat k)) + k < 4294967296" using assms(2) by linarith
  moreover have "x - a = (x - (a + of_nat k)) + of_nat k" by simp
  ultimately have "unat (x - a) = unat (x - (a + of_nat k)) + k"
    using unat_add_no_wrap [of "x - (a + of_nat k)" "of_nat k"] lt by (simp add: unat_of_nat_u32)
  with lt show "k \<le> unat (x - a)" "unat (x - a) < k + length bs" by simp_all
qed

text \<open>Adjacent blocks may be written in either order.\<close>

lemma store_bytes_append_rev:
  assumes "length xs + length ys \<le> 4294967296"
  shows "store_bytes (store_bytes m (a + of_nat (length xs)) ys) a xs = store_bytes m a (xs @ ys)"
proof
  fix x
  show "store_bytes (store_bytes m (a + of_nat (length xs)) ys) a xs x = store_bytes m a (xs @ ys) x"
  proof (cases "unat (x - a) < length xs")
    case True
    then show ?thesis by (simp add: store_bytes_def nth_append)
  next
    case False
    then have "store_bytes (store_bytes m (a + of_nat (length xs)) ys) a xs x =
        store_bytes m (a + of_nat (length xs)) ys x"
      by (simp add: store_bytes_def)
    also have "\<dots> = store_bytes (store_bytes m a xs) (a + of_nat (length xs)) ys x"
      using False by (simp add: store_bytes_def Let_def)
    finally show ?thesis by (simp add: store_bytes_append [OF assms])
  qed
qed

lemma load_store_bytes:
  assumes "length bs \<le> 4294967296"
  shows "load_bytes (store_bytes m a bs) a (length bs) = bs"
  using assms by (intro nth_equalityI) (simp_all add: store_bytes_inside)

text \<open>\<open>stored m a bs\<close>: the bytes \<open>bs\<close> are in memory from address \<open>a\<close> on.\<close>

definition stored :: "memory \<Rightarrow> u32 \<Rightarrow> u8 list \<Rightarrow> bool" where
  "stored m a bs \<longleftrightarrow> load_bytes m a (length bs) = bs"

lemma load_bytes_Suc: "load_bytes m a (Suc n) = m a # load_bytes m (a + 1) n"
proof -
  have "load_bytes m a (Suc n) = map (\<lambda>k. m (a + of_nat k)) (0 # map Suc [0..<n])"
    by (simp add: load_bytes_def upt_conv_Cons map_Suc_upt del: upt_Suc)
  then show ?thesis by (simp add: load_bytes_def add_ac)
qed

lemma stored_simps [simp]:
  "stored m a []"
  "stored m a (b # bs) \<longleftrightarrow> m a = b \<and> stored m (a + 1) bs"
  by (auto simp: stored_def load_bytes_Suc) (simp add: load_bytes_def)

lemma stored_append:
  "stored m a (xs @ ys) \<longleftrightarrow> stored m a xs \<and> stored m (a + of_nat (length xs)) ys"
  by (induction xs arbitrary: a) (auto simp: add_ac)

lemma stored_load: "stored m a bs \<Longrightarrow> n = length bs \<Longrightarrow> load_bytes m a n = bs"
  by (simp add: stored_def)

lemma stored_store: "length bs \<le> 4294967296 \<Longrightarrow> stored (store_bytes m a bs) a bs"
  by (simp add: stored_def load_store_bytes)

lemma stored_unchanged:
  assumes "stored m a xs" "\<And>k. k < length xs \<Longrightarrow> m' (a + of_nat k) = m (a + of_nat k)"
  shows "stored m' a xs"
proof -
  have "load_bytes m' a (length xs) = load_bytes m a (length xs)"
    using assms(2) by (simp add: load_bytes_def)
  with assms(1) show ?thesis by (simp add: stored_def)
qed

lemma stored_extend:
  assumes "stored m a xs" "length xs + length bs \<le> 4294967296"
  shows "stored (store_bytes m (a + of_nat (length xs)) bs) a (xs @ bs)"
proof -
  let ?m' = "store_bytes m (a + of_nat (length xs)) bs"
  have same: "?m' (a + of_nat k) = m (a + of_nat k)" if "k < length xs" for k
  proof (rule ccontr)
    assume "?m' (a + of_nat k) \<noteq> m (a + of_nat k)"
    from store_bytes_changes(1) [OF this assms(2)] that assms(2) show False
      by (simp add: unat_of_nat_u32)
  qed
  have "stored ?m' a xs" using stored_unchanged [OF assms(1) same] by simp
  moreover have "stored ?m' (a + of_nat (length xs)) bs" using stored_store assms(2) by simp
  ultimately show ?thesis by (simp add: stored_append)
qed

declare u16_be_bytes [simplified, simp] u32_be_bytes [simplified, simp]

text \<open>Little-endian encodings, the order in which the buffers shared with tasks hold integers.\<close>

definition le16 :: "u16 \<Rightarrow> u8 list" where
  "le16 w = [byte_at 0 w, byte_at 1 w]"

definition le32 :: "u32 \<Rightarrow> u8 list" where
  "le32 w = [byte_at 0 w, byte_at 1 w, byte_at 2 w, byte_at 3 w]"

lemma length_le [simp]: "length (le16 h) = 2" "length (le32 w) = 4"
  by (simp_all add: le16_def le32_def)

lemma stored_le16: "stored m a (le16 h) \<Longrightarrow> u16_be (m (a + 1)) (m a) = h"
  by (auto simp: le16_def)

lemma stored_le32: "stored m a (le32 w) \<Longrightarrow> u32_be (m (a + 3)) (m (a + 2)) (m (a + 1)) (m a) = w"
  by (auto simp: le32_def add.assoc)

lemma le16_low: "[byte_at 0 w, byte_at 1 w] = le16 (ucast (w :: u32))"
proof -
  have split: "x mod 65536 = 256 * (x div 256 mod 256) + x mod 256" for x :: nat
    using mod_mult2_eq [of x 256 256] by simp
  show ?thesis
    by (simp add: le16_def word_unat_eq_iff unat_byte_at unsigned_ucast_eq take_bit_eq_mod split)
qed

lemma low16_sub: "(ucast (ucast (L :: u16) - 8 :: u32) :: u16) = L - 8"
  by transfer (simp add: take_bit_eq_mod mod_mod_cancel mod_diff_left_eq)

lemma unat_of_nat_u16 [simp]: "n < 65536 \<Longrightarrow> unat (of_nat n :: u16) = n"
  by (simp add: unat_of_nat)

subsection \<open>Disjoint regions of memory\<close>

definition apart :: "u32 \<Rightarrow> nat \<Rightarrow> u32 \<Rightarrow> nat \<Rightarrow> bool" where
  "apart a n b k \<longleftrightarrow> (\<forall>i < n. \<forall>j < k. a + of_nat i \<noteq> b + of_nat j)"

lemma load_apart:
  assumes "apart a n b k" "length bs \<le> k" "i + l \<le> n" "length bs \<le> 4294967296"
  shows "load_bytes (store_bytes m b bs) (a + of_nat i) l = load_bytes m (a + of_nat i) l"
proof (rule nth_equalityI)
  fix j assume j: "j < length (load_bytes (store_bytes m b bs) (a + of_nat i) l)"
  have "\<not> unat (a + of_nat i + of_nat j - b) < length bs"
  proof
    assume u: "unat (a + of_nat i + of_nat j - b) < length bs"
    have "a + of_nat (i + j) = b + of_nat (unat (a + of_nat i + of_nat j - b))" by (simp add: algebra_simps)
    moreover have "i + j < n" "unat (a + of_nat i + of_nat j - b) < k" using j u assms(2,3) by simp_all
    ultimately show False using assms(1) unfolding apart_def by blast
  qed
  then show "load_bytes (store_bytes m b bs) (a + of_nat i) l ! j = load_bytes m (a + of_nat i) l ! j"
    using j by (simp add: store_bytes_outside)
qed simp

lemma load_split: "k \<le> n \<Longrightarrow> take k (load_bytes m a n) = load_bytes m a k \<and> drop k (load_bytes m a n) = load_bytes m (a + of_nat k) (n - k)"
  by (auto intro!: nth_equalityI simp: algebra_simps)

lemma apart_intervals:
  assumes "unat a + n \<le> unat b" "unat b + k \<le> 4294967296"
  shows "apart a n b k"
proof -
  have "a + of_nat i \<noteq> b + of_nat j" if "i < n" "j < k" for i j
  proof
    assume eq: "a + of_nat i = b + of_nat j"
    have "unat (a + of_nat i) = unat a + i" "unat (b + of_nat j) = unat b + j"
      using that assms by (simp_all add: unat_word_ariths unat_of_nat_u32)
    then show False using eq that assms by simp
  qed
  then show ?thesis by (simp add: apart_def)
qed

end
