(* ===== verification/Linked_Lists.thy ===== *)
theory Linked_Lists
  imports Prelude
begin

text \<open>
  The element types of \<open>cpp_lib/list.h\<close> and the way the kernel uses them: a component owns a
  fixed array of elements, threads an active list (doubly linked) and a list of unused elements
  (linked through \<open>next\<close> only) through it, and moves elements between the two. The array is a
  HOL list of elements and a pointer is an index into it.

  \<open>list_pool\<close> is the shape invariant all these components share: the active list and the unused list
  together hold every element of the array exactly once. \<open>dl_push_front\<close> and \<open>dl_unlink\<close> are
  the two pointer manipulations, written out statement by statement; their lemmas say what they
  do to the abstract list of indices and are what the component theories use.
\<close>

record 'a LinkedListElement =
  ll_value :: 'a
  ll_next :: ptr

record 'a DoublyLinkedListElement =
  dl_value :: 'a
  dl_next :: ptr
  dl_prev :: ptr

type_synonym 'a dl_array = "'a DoublyLinkedListElement list"

definition set_next :: "'a dl_array \<Rightarrow> nat \<Rightarrow> ptr \<Rightarrow> 'a dl_array" where
  "set_next es i p = es[i := (es ! i)\<lparr>dl_next := p\<rparr>]"

definition set_prev :: "'a dl_array \<Rightarrow> nat \<Rightarrow> ptr \<Rightarrow> 'a dl_array" where
  "set_prev es i p = es[i := (es ! i)\<lparr>dl_prev := p\<rparr>]"

definition set_value :: "'a dl_array \<Rightarrow> nat \<Rightarrow> 'a \<Rightarrow> 'a dl_array" where
  "set_value es i v = es[i := (es ! i)\<lparr>dl_value := v\<rparr>]"

text \<open>Inserting element \<open>i\<close> before the head, and taking element \<open>i\<close> out of its list.\<close>

definition dl_push_front :: "'a dl_array \<Rightarrow> ptr \<Rightarrow> nat \<Rightarrow> 'a dl_array \<times> ptr" where
  "dl_push_front es head i =
     (let es = set_next es i head;
          es = set_prev es i None;
          es = (case head of None \<Rightarrow> es | Some h \<Rightarrow> set_prev es h (Some i))
      in (es, Some i))"

definition dl_unlink :: "'a dl_array \<Rightarrow> ptr \<Rightarrow> nat \<Rightarrow> 'a dl_array \<times> ptr" where
  "dl_unlink es head i =
     (let nx = dl_next (es ! i);
          pv = dl_prev (es ! i);
          (es, head) = (case pv of Some p \<Rightarrow> (set_next es p nx, head) | None \<Rightarrow> (es, nx));
          es = (case nx of Some n \<Rightarrow> set_prev es n pv | None \<Rightarrow> es)
      in (es, head))"

subsection \<open>Segments of pointer chains\<close>

definition nxt :: "'a dl_array \<Rightarrow> nat \<Rightarrow> ptr" where
  "nxt es i = dl_next (es ! i)"

definition prv :: "'a dl_array \<Rightarrow> nat \<Rightarrow> ptr" where
  "prv es i = dl_prev (es ! i)"

fun hd_ptr :: "nat list \<Rightarrow> ptr \<Rightarrow> ptr" where
  "hd_ptr [] q = q"
| "hd_ptr (i # is) q = Some i"

fun last_ptr :: "ptr \<Rightarrow> nat list \<Rightarrow> ptr" where
  "last_ptr q [] = q"
| "last_ptr q (i # is) = last_ptr (Some i) is"

text \<open>\<open>seg nx p is q\<close>: following \<open>nx\<close> from \<open>p\<close> visits \<open>is\<close> and arrives at \<open>q\<close>;
  \<open>dseg\<close> also records the back pointers, \<open>pr\<close> being the one of the first element.\<close>

primrec seg :: "(nat \<Rightarrow> ptr) \<Rightarrow> ptr \<Rightarrow> nat list \<Rightarrow> ptr \<Rightarrow> bool" where
  "seg nx p [] q \<longleftrightarrow> p = q"
| "seg nx p (i # is) q \<longleftrightarrow> p = Some i \<and> seg nx (nx i) is q"

primrec dseg :: "(nat \<Rightarrow> ptr) \<Rightarrow> (nat \<Rightarrow> ptr) \<Rightarrow> ptr \<Rightarrow> ptr \<Rightarrow> nat list \<Rightarrow> ptr \<Rightarrow> bool" where
  "dseg nx pv pr p [] q \<longleftrightarrow> p = q"
| "dseg nx pv pr p (i # is) q \<longleftrightarrow> p = Some i \<and> pv i = pr \<and> dseg nx pv (Some i) (nx i) is q"

definition dlist :: "'a dl_array \<Rightarrow> ptr \<Rightarrow> nat list \<Rightarrow> bool" where
  "dlist es head is \<longleftrightarrow>
     dseg (nxt es) (prv es) None head is None \<and> distinct is \<and> set is \<subseteq> {..<length es}"

definition list_pool :: "'a dl_array \<Rightarrow> ptr \<Rightarrow> nat list \<Rightarrow> ptr \<Rightarrow> nat list \<Rightarrow> bool" where
  "list_pool es head act free fr \<longleftrightarrow>
     dlist es head act \<and> seg (nxt es) free fr None \<and>
     distinct (act @ fr) \<and> set (act @ fr) = {..<length es}"

subsection \<open>Field updates\<close>

lemma length_set_fields [simp]:
  "length (set_next es i p) = length es"
  "length (set_prev es i p) = length es"
  "length (set_value es i v) = length es"
  by (simp_all add: set_next_def set_prev_def set_value_def)

lemma list_update_field: "f v = f (es ! i) \<Longrightarrow> f (es[i := v] ! j) = f (es ! j)"
  by (cases "i < length es") (simp_all add: nth_list_update list_update_beyond)

lemma map_update_field: "f v = f (es ! i) \<Longrightarrow> map f (es[i := v]) = map f es"
  by (simp add: list_eq_iff_nth_eq list_update_field)

lemma nxt_updates [simp]:
  "i < length es \<Longrightarrow> nxt (set_next es i p) = (nxt es)(i := p)"
  "nxt (set_prev es i p) = nxt es"
  "nxt (set_value es i v) = nxt es"
  by (auto simp: nxt_def set_next_def set_prev_def set_value_def list_update_field)

lemma prv_updates [simp]:
  "i < length es \<Longrightarrow> prv (set_prev es i p) = (prv es)(i := p)"
  "prv (set_next es i p) = prv es"
  "prv (set_value es i v) = prv es"
  by (auto simp: prv_def set_next_def set_prev_def set_value_def list_update_field)

lemma values_updates [simp]:
  "map dl_value (set_next es i p) = map dl_value es"
  "map dl_value (set_prev es i p) = map dl_value es"
  "map dl_value (set_value es i v) = (map dl_value es)[i := v]"
    apply (simp_all only: set_next_def set_prev_def set_value_def)
    apply (simp_all add: map_update_field del: map_update)
  apply (simp add: map_update)
  done

lemma dl_value_updates [simp]:
  "dl_value (set_next es i p ! j) = dl_value (es ! j)"
  "dl_value (set_prev es i p ! j) = dl_value (es ! j)"
  by (simp_all add: set_next_def set_prev_def list_update_field)

subsection \<open>Segments under append and update\<close>

lemma hd_ptr_append: "hd_ptr (is @ js) q = hd_ptr is (hd_ptr js q)"
  by (cases "is") auto

lemma last_ptr_append [simp]: "last_ptr q (is @ [i]) = Some i"
  by (induction "is" arbitrary: q) auto

lemma last_ptr_last: "is \<noteq> [] \<Longrightarrow> last_ptr q is = Some (last is)"
  by (induction "is" arbitrary: q) auto

lemma last_ptr_append2: "last_ptr q (is @ js) = last_ptr (last_ptr q is) js"
  by (induction "is" arbitrary: q) auto

lemma seg_append: "seg nx p (is @ js) q \<longleftrightarrow> (\<exists>r. seg nx p is r \<and> seg nx r js q)"
  by (induction "is" arbitrary: p) auto

lemma seg_upd [simp]: "i \<notin> set is \<Longrightarrow> seg (nx(i := v)) p is q \<longleftrightarrow> seg nx p is q"
  by (induction "is" arbitrary: p) auto

lemma seg_cong: "(\<And>i. i \<in> set is \<Longrightarrow> nx' i = nx i) \<Longrightarrow> seg nx p is q \<longleftrightarrow> seg nx' p is q"
  by (induction "is" arbitrary: p) auto

lemma seg_upt:
  assumes "m < n" "\<And>i. m \<le> i \<Longrightarrow> i < n \<Longrightarrow> nx i = (if Suc i < n then Some (Suc i) else None)"
  shows "seg nx (Some m) [m..<n] None"
  using assms
proof (induction "n - m" arbitrary: m)
  case 0
  then show ?case by simp
next
  case (Suc d)
  show ?case
  proof (cases "Suc m < n")
    case True
    with Suc have "seg nx (Some (Suc m)) [Suc m..<n] None" by simp
    with True Suc.prems show ?thesis by (simp add: upt_conv_Cons [of m n])
  next
    case False
    with Suc.prems show ?thesis by (simp add: upt_conv_Cons [of m n])
  qed
qed

lemma seg_None_iff: "seg nx None is None \<longleftrightarrow> is = []"
  by (cases "is") auto

lemma seg_head: "seg nx p is q \<Longrightarrow> p = hd_ptr is q"
  by (cases "is") auto

lemma dseg_seg: "dseg nx pv pr p is q \<Longrightarrow> seg nx p is q"
  by (induction "is" arbitrary: pr p) auto

lemma dseg_head: "dseg nx pv pr p is q \<Longrightarrow> p = hd_ptr is q"
  by (cases "is") auto

lemma dseg_append:
  "dseg nx pv pr p (is @ js) q \<longleftrightarrow>
     dseg nx pv pr p is (hd_ptr js q) \<and> dseg nx pv (last_ptr pr is) (hd_ptr js q) js q"
proof (induction "is" arbitrary: pr p)
  case Nil
  then show ?case by (cases js) auto
next
  case (Cons i "is")
  then show ?case by auto
qed

lemma dseg_upd [simp]:
  "i \<notin> set is \<Longrightarrow> dseg (nx(i := v)) pv pr p is q \<longleftrightarrow> dseg nx pv pr p is q"
  "i \<notin> set is \<Longrightarrow> dseg nx (pv(i := v)) pr p is q \<longleftrightarrow> dseg nx pv pr p is q"
  by (induction "is" arbitrary: pr p) auto

text \<open>Redirecting the last forward pointer of a segment, and the first back pointer.\<close>

lemma dseg_retarget_next:
  assumes "dseg nx pv pr p (is @ [l]) q" "l \<notin> set is"
  shows "dseg (nx(l := r)) pv pr p (is @ [l]) r"
  using assms by (auto simp: dseg_append)

lemma dseg_retarget_prev:
  assumes "dseg nx pv pr p (j # is) q" "j \<notin> set is"
  shows "dseg nx (pv(j := r)) r p (j # is) q"
  using assms by auto

subsection \<open>Pushing an element in front\<close>

lemma dl_push_front_frame [simp]:
  "length (fst (dl_push_front es head i)) = length es"
  "map dl_value (fst (dl_push_front es head i)) = map dl_value es"
  "snd (dl_push_front es head i) = Some i"
  by (simp_all add: dl_push_front_def Let_def split: option.splits)

lemma dl_push_front_value [simp]: "dl_value (fst (dl_push_front es head i) ! j) = dl_value (es ! j)"
  by (simp add: dl_push_front_def Let_def split: option.splits)

lemma dl_push_front_nxt:
  "i < length es \<Longrightarrow> nxt (fst (dl_push_front es head i)) = (nxt es)(i := head)"
  by (simp add: dl_push_front_def Let_def split: option.splits)

lemma dl_push_front_prv:
  "i < length es \<Longrightarrow> prv (fst (dl_push_front es None i)) = (prv es)(i := None)"
  "i < length es \<Longrightarrow> h < length es \<Longrightarrow>
     prv (fst (dl_push_front es (Some h) i)) = (prv es)(i := None, h := Some i)"
  by (simp_all add: dl_push_front_def)

lemma dlist_push_front:
  assumes "dlist es head is" "i \<notin> set is" "i < length es"
  shows "dlist (fst (dl_push_front es head i)) (Some i) (i # is)"
proof (cases "is")
  case Nil
  with assms show ?thesis by (simp add: dlist_def dl_push_front_nxt dl_push_front_prv)
next
  case (Cons h hs)
  with assms have "head = Some h" "h < length es" by (auto simp: dlist_def)
  with assms Cons show ?thesis by (auto simp: dlist_def dl_push_front_nxt dl_push_front_prv)
qed

subsection \<open>Unlinking an element\<close>

lemma dl_unlink_frame [simp]:
  "length (fst (dl_unlink es head i)) = length es"
  "map dl_value (fst (dl_unlink es head i)) = map dl_value es"
  by (simp_all add: dl_unlink_def Let_def split: option.splits)

lemma dl_unlink_value [simp]: "dl_value (fst (dl_unlink es head i) ! j) = dl_value (es ! j)"
  by (simp add: dl_unlink_def Let_def split: option.splits)

lemma dlist_split:
  assumes "dlist es head (is @ i # js)"
  shows "nxt es i = hd_ptr js None" "prv es i = last_ptr None is"
    "dseg (nxt es) (prv es) None head is (Some i)"
    "dseg (nxt es) (prv es) (Some i) (hd_ptr js None) js None"
    "head = hd_ptr is (Some i)"
  using assms dseg_head by (auto simp: dlist_def dseg_append)

lemmas dl_unlink_unfold = dl_unlink_def Let_def nxt_def [symmetric] prv_def [symmetric]

lemma dl_unlink_head:
  assumes "dlist es head (is @ i # js)"
  shows "snd (dl_unlink es head i) = hd_ptr (is @ js) None"
proof (cases "is" rule: rev_cases)
  case Nil
  with dlist_split [OF assms] show ?thesis
    by (simp add: dl_unlink_unfold split: option.splits)
next
  case (snoc ks l)
  with dlist_split [OF assms] show ?thesis
    by (cases ks) (auto simp: dl_unlink_unfold split: option.splits)
qed

lemma dl_unlink_nxt:
  assumes "dlist es head (is @ i # js)"
  shows "nxt (fst (dl_unlink es head i)) =
      (case last_ptr None is of None \<Rightarrow> nxt es | Some l \<Rightarrow> (nxt es)(l := hd_ptr js None))"
proof (cases "is" rule: rev_cases)
  case Nil
  with dlist_split [OF assms] show ?thesis
    by (simp add: dl_unlink_unfold split: option.splits)
next
  case (snoc ks l)
  then have "l < length es" using assms by (simp add: dlist_def)
  with snoc dlist_split [OF assms] show ?thesis
    by (simp add: dl_unlink_unfold split: option.splits)
qed

lemma dl_unlink_prv:
  assumes "dlist es head (is @ i # js)"
  shows "prv (fst (dl_unlink es head i)) =
      (case js of [] \<Rightarrow> prv es | j # _ \<Rightarrow> (prv es)(j := last_ptr None is))"
proof (cases js)
  case Nil
  with dlist_split [OF assms] show ?thesis
    by (auto simp: dl_unlink_unfold split: option.splits)
next
  case (Cons j ks)
  then have "j < length es" using assms by (simp add: dlist_def)
  with Cons dlist_split [OF assms] show ?thesis
    by (auto simp: dl_unlink_unfold split: option.splits)
qed

text \<open>Two adjacent segments with the element between them left out, in terms of the pointer
  functions alone.\<close>

lemma dseg_bridge:
  assumes is_seg: "dseg nx pv None h is (Some i)" and js_seg: "dseg nx pv (Some i) (hd_ptr js None) js None"
    and dist: "distinct (is @ js)"
    and nx': "nx' = (case last_ptr None is of None \<Rightarrow> nx | Some l \<Rightarrow> nx(l := hd_ptr js None))"
    and pv': "pv' = (case js of [] \<Rightarrow> pv | j # _ \<Rightarrow> pv(j := last_ptr None is))"
  shows "dseg nx' pv' None (hd_ptr (is @ js) None) (is @ js) None"
proof -
  have "dseg nx' pv None (hd_ptr (is @ js) None) is (hd_ptr js None)"
  proof (cases "is" rule: rev_cases)
    case (snoc ks l)
    then have "hd_ptr (is @ js) None = h" using dseg_head [OF is_seg] by (cases ks) auto
    then show ?thesis
      using dseg_retarget_next [of nx pv None h ks l "Some i" "hd_ptr js None"] is_seg dist snoc
      by (simp add: nx')
  qed simp
  then have 1: "dseg nx' pv' None (hd_ptr (is @ js) None) is (hd_ptr js None)"
    using dist by (cases js) (auto simp: pv')
  have "dseg nx pv' (last_ptr None is) (hd_ptr js None) js None"
    using js_seg dist by (cases js) (auto simp: pv')
  then have "dseg nx' pv' (last_ptr None is) (hd_ptr js None) js None"
    using dist by (cases "is" rule: rev_cases) (simp_all add: nx')
  with 1 show ?thesis by (simp add: dseg_append)
qed

lemma dlist_unlink:
  assumes "dlist es head (is @ i # js)"
  shows "dlist (fst (dl_unlink es head i)) (snd (dl_unlink es head i)) (is @ js)"
  using dseg_bridge [OF dlist_split(3,4) [OF assms] _ dl_unlink_nxt [OF assms] dl_unlink_prv [OF assms]]
    assms by (auto simp: dlist_def dl_unlink_head [OF assms])

text \<open>The list predicates depend on the pointers and the length of the array only.\<close>

lemma dlist_cong:
  assumes "nxt es' = nxt es" "prv es' = prv es" "length es' = length es"
  shows "dlist es' head is = dlist es head is"
  using assms by (simp add: dlist_def)

lemma dlist_push_back:
  assumes "dlist es head is" "is \<noteq> []" "last is = l" "i \<notin> set is" "i < length es"
  shows "dlist (set_next (set_prev (set_next es l (Some i)) i (Some l)) i None) head (is @ [i])"
proof -
  obtain ks where ks: "is = ks @ [l]" using assms(2,3) by (cases "is" rule: rev_cases) auto
  have l: "l < length es" "l \<notin> set ks" "l \<noteq> i" using assms by (auto simp: dlist_def ks)
  have "dseg ((nxt es)(l := Some i)) (prv es) None head (ks @ [l]) (Some i)"
    using dseg_retarget_next [of "nxt es" "prv es" None head ks l None "Some i"] assms l
    by (simp add: dlist_def ks)
  then have "dseg ((nxt es)(l := Some i, i := None)) ((prv es)(i := Some l)) None head
      ((ks @ [l]) @ [i]) None"
    using assms(4) by (subst dseg_append) (simp add: ks)
  with assms l show ?thesis by (simp add: dlist_def ks)
qed

subsection \<open>Moving elements between the active and the unused list\<close>

lemma pool_lists:
  assumes "list_pool es head act free fr"
  shows "head = hd_ptr act None" "free = hd_ptr fr None" "distinct act" "distinct fr"
    "set act \<inter> set fr = {}" "length act + length fr = length es"
    "\<And>i. i \<in> set act \<Longrightarrow> i < length es" "\<And>i. i \<in> set fr \<Longrightarrow> i < length es"
proof -
  show "head = hd_ptr act None" "free = hd_ptr fr None"
    using assms dseg_head seg_head by (auto simp: list_pool_def dlist_def)
  show "distinct act" "distinct fr" "set act \<inter> set fr = {}"
    using assms by (auto simp: list_pool_def)
  have "card (set (act @ fr)) = length (act @ fr)"
    using assms by (intro distinct_card) (simp add: list_pool_def)
  then show "length act + length fr = length es"
    using assms by (simp add: list_pool_def)
  have "set act \<union> set fr = {..<length es}" using assms by (simp add: list_pool_def)
  then show "\<And>i. i \<in> set act \<Longrightarrow> i < length es" "\<And>i. i \<in> set fr \<Longrightarrow> i < length es"
    by auto
qed

lemma pool_activate:
  assumes "list_pool es head act (Some i) fr"
    and es': "length es' = length es" "nxt es' = nxt es" "prv es' = prv es"
  shows "list_pool (fst (dl_push_front es' head i)) (Some i) (i # act) (nxt es i) (tl fr)"
    and "hd fr = i" and "fr \<noteq> []"
proof -
  have fr: "fr \<noteq> []" "hd fr = i"
    using assms(1) by (cases fr; auto simp: list_pool_def)+
  then show "hd fr = i" "fr \<noteq> []" by auto
  obtain fr' where fr': "fr = i # fr'" using fr by (cases fr) auto
  have act: "dlist es' head act" using assms by (simp add: list_pool_def dlist_def)
  have i: "i < length es'" "i \<notin> set act" "i \<notin> set fr'"
    using assms fr' by (auto simp: list_pool_def)
  have "dlist (fst (dl_push_front es' head i)) (Some i) (i # act)"
    using dlist_push_front [OF act i(2,1)] .
  moreover have "seg (nxt (fst (dl_push_front es' head i))) (nxt es i) fr' None"
    using assms i fr' by (auto simp: list_pool_def dl_push_front_nxt)
  ultimately show "list_pool (fst (dl_push_front es' head i)) (Some i) (i # act) (nxt es i) (tl fr)"
    using assms(1) fr' es' by (auto simp: list_pool_def)
qed

lemma pool_release:
  assumes "list_pool es head (is @ i # js) free fr" "dl_unlink es head i = (es', head')"
  shows "list_pool (set_next es' i free) head' (is @ js) (Some i) (i # fr)"
proof -
  have d: "dlist es head (is @ i # js)" and fr: "seg (nxt es) free fr None"
    and dist: "distinct ((is @ i # js) @ fr)" and all: "set ((is @ i # js) @ fr) = {..<length es}"
    using assms(1) by (auto simp: list_pool_def)
  have es': "es' = fst (dl_unlink es head i)" "head' = snd (dl_unlink es head i)"
    using assms(2) by auto
  have len: "length es' = length es" by (simp add: es')
  have i: "i < length es'" using all len by auto
  have act: "dlist es' head' (is @ js)" using dlist_unlink [OF d] by (simp add: es')
  then have "dlist (set_next es' i free) head' (is @ js)"
    using i dist by (auto simp: dlist_def)
  moreover have "seg (nxt es') free fr None"
    using fr dist by (cases "is" rule: rev_cases) (auto simp: es' dl_unlink_nxt [OF d])
  then have "seg (nxt (set_next es' i free)) (Some i) (i # fr) None"
    using i dist by auto
  ultimately show ?thesis using dist all len by (auto simp: list_pool_def)
qed

end
