(* ===== verification/Kernel_Types.thy ===== *)
theory Kernel_Types
  imports Linked_Lists
begin

text \<open>
  Constants and data types that several components share: the sizes fixed by
  \<open>cpu_core/cpu_core.h\<close>, \<open>network_management_task/socket_manager.h\<close> and
  \<open>network_management_task/network_stack_handler.h\<close> (the build without \<open>E2E_TESTING\<close>), and the
  packet types of \<open>network_stack_handler.h\<close>. A received IPv4 packet lives in an array of packet
  elements; \<open>nextFragment\<close> is therefore an index into that array, and the data buffer
  \<open>pData\<close> points to is the list of its bytes.
\<close>

abbreviation (input) NUM_POSSIBLE_TASKS :: nat where "NUM_POSSIBLE_TASKS \<equiv> 50"
abbreviation (input) MAX_NUM_SOCKETS_PER_TASK :: nat where "MAX_NUM_SOCKETS_PER_TASK \<equiv> 10"
abbreviation (input) NUM_UDP_PORTS :: nat where "NUM_UDP_PORTS \<equiv> 9000"
abbreviation (input) MAX_NUM_TRANSMISSION_REQUESTS :: nat where
  "MAX_NUM_TRANSMISSION_REQUESTS \<equiv> 15"
abbreviation (input) RX_BUFFER_SIZE :: nat where "RX_BUFFER_SIZE \<equiv> 2048"

datatype PacketType = NotForThisMachine | ARPReply | ARPRequest | IPv4PacketType | UnknownType

record IPv4Packet =
  sourceIP :: u32
  destIP :: u32
  dataSize :: u32
  protocol :: u8
  moreFragments :: bool
  fragmentOffset :: u32
  identification :: u32
  nextFragment :: ptr
  createdTime :: u32
  pData :: "u8 list"

record ARPEntry =
  arp_IP :: u32
  lastUsed :: int
  lastRequested :: int
  lastAnswered :: int
  arp_MAC :: "u8 list"

datatype IPv4PacketProgress = WaitingOnARPReply | ARPTableFull | SendingFragment | Done

text \<open>The fragments of a datagram, and the bytes they carry together.\<close>

definition fragment_chain :: "IPv4Packet list \<Rightarrow> nat \<Rightarrow> nat list \<Rightarrow> bool" where
  "fragment_chain pool p is \<longleftrightarrow>
     seg (\<lambda>i. nextFragment (pool ! i)) (Some p) is None \<and> distinct is \<and> set is \<subseteq> {..<length pool}"

definition fragment_bytes :: "IPv4Packet list \<Rightarrow> nat \<Rightarrow> u8 list" where
  "fragment_bytes pool i = take (unat (dataSize (pool ! i))) (pData (pool ! i))"

definition datagram :: "IPv4Packet list \<Rightarrow> nat list \<Rightarrow> u8 list" where
  "datagram pool is = concat (map (fragment_bytes pool) is)"

definition packet_ok :: "IPv4Packet \<Rightarrow> bool" where
  "packet_ok pk \<longleftrightarrow> length (pData pk) = RX_BUFFER_SIZE \<and> unat (dataSize pk) \<le> RX_BUFFER_SIZE"

lemma length_fragment_bytes:
  "packet_ok (pool ! i) \<Longrightarrow> length (fragment_bytes pool i) = unat (dataSize (pool ! i))"
  by (simp add: packet_ok_def fragment_bytes_def)

lemma datagram_Cons [simp]: "datagram pool (i # is) = fragment_bytes pool i @ datagram pool is"
  by (simp add: datagram_def)

lemma datagram_Nil [simp]: "datagram pool [] = []"
  by (simp add: datagram_def)

end
