(* ===== verification/Socket_Manager.thy ===== *)
theory Socket_Manager
  imports Kernel_Types
begin

text \<open>
  \<open>network_management_task/socket_manager.h\<close> and \<open>socket_manager.cpp\<close>: the table of sockets per
  task, the table of UDP ports, and the list of transmission requests. User and kernel buffers are
  blocks of flat memory named by their 32-bit address (0 is \<open>nullptr\<close>). An array access out of
  range is the fault \<^const>\<open>None\<close>.
\<close>

abbreviation (input) RECEIVE_BUFFER_HEADER_SIZE :: nat where "RECEIVE_BUFFER_HEADER_SIZE \<equiv> 8"
abbreviation (input) SEND_BUFFER_HEADER_SIZE :: nat where "SEND_BUFFER_HEADER_SIZE \<equiv> 8"
abbreviation (input) UDP_HEADER_SIZE :: nat where "UDP_HEADER_SIZE \<equiv> 8"

record SocketDesc =
  sd_isActive :: u32
  sd_udpPort :: u16
  sd_receiveBuffer :: u32
  sd_receiveBufferSize :: u32
  sd_sendBuffer :: u32
  sd_sendBufferSize :: u32
  sd_sendBufferIdentification :: u16
  sd_sendBufferFragmentOffset :: u32
  sd_sendBufferIndicatorWhenFinished :: u32

record OutgoingUDPPacket =
  out_sourcePort :: u16
  out_destinationPort :: u16
  out_destinationIP :: u32
  out_data :: u32
  out_dataLen :: u32
  out_identification :: u16
  out_fragmentOffset :: u32

record UDPPortState =
  ps_isActive :: u32
  ps_taskID :: u8
  ps_socketID :: u8

record TransmissionRequest =
  tr_udpPort :: u16

record SocketManager =
  socketDescs :: "SocketDesc list list"
  udpPortStates :: "UDPPortState list"
  transmissionRequestListElements :: "TransmissionRequest dl_array"
  transmissionRequestsHead :: ptr
  transmissionRequestsTail :: ptr
  unusedTransmissionRequestsHead :: ptr

subsection \<open>Construction\<close>

text \<open>The object is built in raw memory: the constructor assigns the fields below and leaves what
  the other fields held.\<close>

definition SocketManager_new :: "SocketManager \<Rightarrow> SocketManager" where
  "SocketManager_new raw =
     raw\<lparr>socketDescs := map (map (\<lambda>d. d\<lparr>sd_isActive := 0\<rparr>)) (socketDescs raw),
       udpPortStates :=
         map (\<lambda>p. p\<lparr>ps_isActive := 0, ps_socketID := 0, ps_taskID := 0\<rparr>) (udpPortStates raw),
       transmissionRequestsHead := None,
       transmissionRequestsTail := None,
       unusedTransmissionRequestsHead := Some 0,
       transmissionRequestListElements :=
         map (\<lambda>i. (transmissionRequestListElements raw ! i)
                \<lparr>dl_next := (if i < MAX_NUM_TRANSMISSION_REQUESTS - 1 then Some (i + 1) else None)\<rparr>)
           [0..<MAX_NUM_TRANSMISSION_REQUESTS]\<rparr>"

subsection \<open>Opening, closing and configuring sockets\<close>

definition get_socket :: "SocketManager \<Rightarrow> u8 \<Rightarrow> u8 \<Rightarrow> SocketDesc option" where
  "get_socket sm taskID socketID =
     do { row \<leftarrow> arr_get (socketDescs sm) (unat taskID); arr_get row (unat socketID) }"

definition set_socket :: "SocketManager \<Rightarrow> u8 \<Rightarrow> u8 \<Rightarrow> SocketDesc \<Rightarrow> SocketManager option" where
  "set_socket sm taskID socketID d =
     do { row \<leftarrow> arr_get (socketDescs sm) (unat taskID);
          row' \<leftarrow> arr_set row (unat socketID) d;
          descs \<leftarrow> arr_set (socketDescs sm) (unat taskID) row';
          Some (sm\<lparr>socketDescs := descs\<rparr>) }"

definition set_port :: "SocketManager \<Rightarrow> u16 \<Rightarrow> UDPPortState \<Rightarrow> SocketManager option" where
  "set_port sm udpPort st =
     do { ports \<leftarrow> arr_set (udpPortStates sm) (unat udpPort) st;
          Some (sm\<lparr>udpPortStates := ports\<rparr>) }"

definition closeSocket :: "SocketManager \<Rightarrow> u8 \<Rightarrow> u8 \<Rightarrow> SocketManager option" where
  "closeSocket sm taskID socketID =
     (if MAX_NUM_SOCKETS_PER_TASK \<le> unat socketID then Some sm
      else do {
        d \<leftarrow> get_socket sm taskID socketID;
        if sd_isActive d = 1 then do {
          st \<leftarrow> arr_get (udpPortStates sm) (unat (sd_udpPort d));
          sm \<leftarrow> set_port sm (sd_udpPort d) (st\<lparr>ps_isActive := 0\<rparr>);
          set_socket sm taskID socketID (d\<lparr>sd_isActive := 0\<rparr>)
        } else Some sm
      })"

primrec closeSockets_loop :: "SocketManager \<Rightarrow> u8 \<Rightarrow> nat list \<Rightarrow> SocketManager option" where
  "closeSockets_loop sm taskID [] = Some sm"
| "closeSockets_loop sm taskID (i # is) =
     do { sm \<leftarrow> closeSocket sm taskID (of_nat i); closeSockets_loop sm taskID is }"

definition closeAllSocketsForTask :: "SocketManager \<Rightarrow> u8 \<Rightarrow> SocketManager option" where
  "closeAllSocketsForTask sm taskID = closeSockets_loop sm taskID [0..<MAX_NUM_SOCKETS_PER_TASK]"

definition openSocket :: "SocketManager \<Rightarrow> u8 \<Rightarrow> u16 \<Rightarrow> (int \<times> SocketManager) option" where
  "openSocket sm taskID udpPort =
     (if NUM_UDP_PORTS \<le> unat udpPort then Some (-1, sm)
      else do {
        st \<leftarrow> arr_get (udpPortStates sm) (unat udpPort);
        if ps_isActive st = 1 then Some (-1, sm)
        else do {
          row \<leftarrow> arr_get (socketDescs sm) (unat taskID);
          case find (\<lambda>i. sd_isActive (row ! i) = 0) [0..<MAX_NUM_SOCKETS_PER_TASK] of
            None \<Rightarrow> Some (-1, sm)
          | Some i \<Rightarrow> do {
              sm \<leftarrow> set_socket sm taskID (of_nat i)
                \<lparr>sd_isActive = 1, sd_udpPort = udpPort,
                 sd_receiveBuffer = 0, sd_receiveBufferSize = 0,
                 sd_sendBuffer = 0, sd_sendBufferSize = 0,
                 sd_sendBufferIdentification = 0, sd_sendBufferFragmentOffset = 0,
                 sd_sendBufferIndicatorWhenFinished = 0\<rparr>;
              sm \<leftarrow> set_port sm udpPort
                \<lparr>ps_isActive = 1, ps_taskID = taskID, ps_socketID = of_nat i\<rparr>;
              Some (int i, sm)
            }
        }
      })"

definition setReceiveBuffer ::
  "SocketManager \<Rightarrow> u8 \<Rightarrow> u8 \<Rightarrow> u32 \<Rightarrow> u32 \<Rightarrow> (int \<times> SocketManager) option" where
  "setReceiveBuffer sm taskID socketID newBuffer newBufferSize =
     (if MAX_NUM_SOCKETS_PER_TASK \<le> unat socketID then Some (-1, sm)
      else if newBufferSize < 16 \<and> (newBufferSize \<noteq> 0 \<or> newBuffer \<noteq> 0) then Some (-1, sm)
      else do {
        d \<leftarrow> get_socket sm taskID socketID;
        if sd_isActive d = 0 then Some (-1, sm)
        else do {
          sm \<leftarrow> set_socket sm taskID socketID
            (d\<lparr>sd_receiveBuffer := newBuffer, sd_receiveBufferSize := newBufferSize\<rparr>);
          Some (0, sm)
        }
      })"

definition setSendBuffer ::
  "SocketManager \<Rightarrow> u8 \<Rightarrow> u8 \<Rightarrow> u32 \<Rightarrow> u32 \<Rightarrow> u32 \<Rightarrow> (int \<times> SocketManager) option" where
  "setSendBuffer sm taskID socketID newBuffer newBufferSize indicatorWhenFinished =
     (if MAX_NUM_SOCKETS_PER_TASK \<le> unat socketID then Some (-1, sm)
      else if newBufferSize < 16 \<and>
        (newBufferSize \<noteq> 0 \<or> newBuffer \<noteq> 0 \<or> indicatorWhenFinished \<noteq> 0) then Some (-1, sm)
      else do {
        d \<leftarrow> get_socket sm taskID socketID;
        if sd_isActive d = 0 then Some (-1, sm)
        else if newBufferSize = 0 \<and> newBuffer = 0 \<and> indicatorWhenFinished = 0 then do {
          sm \<leftarrow> set_socket sm taskID socketID
            (d\<lparr>sd_sendBuffer := 0, sd_sendBufferSize := 0, sd_sendBufferIdentification := 0,
               sd_sendBufferFragmentOffset := 0, sd_sendBufferIndicatorWhenFinished := 0\<rparr>);
          Some (0, sm)
        }
        else case unusedTransmissionRequestsHead sm of
          None \<Rightarrow> Some (-1, sm)
        | Some i \<Rightarrow> do {
            e \<leftarrow> arr_get (transmissionRequestListElements sm) i;
            let unused = dl_next e;
                es = set_value (transmissionRequestListElements sm) i
                       \<lparr>tr_udpPort = sd_udpPort d\<rparr>;
                tail = (case transmissionRequestsHead sm of
                          Some _ \<Rightarrow> transmissionRequestsTail sm | None \<Rightarrow> Some i);
                (es, head) = dl_push_front es (transmissionRequestsHead sm) i;
                sm = sm\<lparr>transmissionRequestListElements := es, transmissionRequestsHead := head,
                        transmissionRequestsTail := tail,
                        unusedTransmissionRequestsHead := unused\<rparr>
            in do {
              sm \<leftarrow> set_socket sm taskID socketID
                (d\<lparr>sd_sendBuffer := newBuffer, sd_sendBufferSize := newBufferSize,
                   sd_sendBufferIdentification := 0, sd_sendBufferFragmentOffset := 0,
                   sd_sendBufferIndicatorWhenFinished := indicatorWhenFinished\<rparr>);
              Some (0, sm)
            }
          }
      })"

subsection \<open>Delivering a received packet\<close>

text \<open>The copying loop of \<open>handleReceivedPacket\<close> over the fragments of a datagram. \<open>Aborted\<close> is
  the early \<open>return\<close> inside the loop; running out of fuel is a fault, and \<open>Suc (length pool)\<close>
  rounds are enough for every chain without a cycle (\<open>copyFragments_fits\<close> below).\<close>

datatype copy_result = Aborted memory | Copied memory u16

fun copyFragments ::
  "nat \<Rightarrow> IPv4Packet list \<Rightarrow> nat \<Rightarrow> ptr \<Rightarrow> u16 \<Rightarrow> u16 \<Rightarrow> u32 \<Rightarrow> memory \<Rightarrow> copy_result option" where
  "copyFragments 0 pool packet current accumulated udpLength receiveBuffer m = None"
| "copyFragments (Suc fuel) pool packet current accumulated udpLength receiveBuffer m =
     (case current of
        None \<Rightarrow> Some (Copied m accumulated)
      | Some c \<Rightarrow> do {
          pk \<leftarrow> arr_get pool c;
          if ucast accumulated + dataSize pk > ucast udpLength then Some (Aborted m)
          else if length (pData pk) < unat (dataSize pk) then None
          else
            let bytes = take (unat (dataSize pk)) (pData pk);
                m' = (if c = packet
                      then store_bytes m (receiveBuffer + 8) (drop UDP_HEADER_SIZE bytes)
                      else store_bytes m (receiveBuffer + 8 + (ucast accumulated - 8)) bytes)
            in copyFragments fuel pool packet (nextFragment pk)
                 (accumulated + ucast (dataSize pk)) udpLength receiveBuffer m'
        })"

definition handleReceivedPacket ::
  "SocketManager \<Rightarrow> memory \<Rightarrow> IPv4Packet list \<Rightarrow> nat \<Rightarrow> (SocketManager \<times> memory) option" where
  "handleReceivedPacket sm m pool packet = do {
     pk \<leftarrow> arr_get pool packet;
     if protocol pk \<noteq> 17 then Some (sm, m)
     else if dataSize pk < 8 then Some (sm, m)
     else do {
       b2 \<leftarrow> arr_get (pData pk) 2;
       b3 \<leftarrow> arr_get (pData pk) 3;
       let destinationPort = u16_be b2 b3 in do {
       st \<leftarrow> arr_get (udpPortStates sm) (unat destinationPort);
       if ps_isActive st = 0 then Some (sm, m)
       else do {
         d \<leftarrow> get_socket sm (ps_taskID st) (ps_socketID st);
         b4 \<leftarrow> arr_get (pData pk) 4;
         b5 \<leftarrow> arr_get (pData pk) 5;
         let udpLength = u16_be b4 b5;
             payload = (ucast udpLength - 8 :: u32);
             buffer = sd_receiveBuffer d in
         if payload + 16 > sd_receiveBufferSize d then Some (sm, m)
         else do {
           r \<leftarrow> copyFragments (Suc (length pool)) pool packet (Some packet) 0 udpLength buffer m;
           case r of
             Aborted m \<Rightarrow> Some (sm, m)
           | Copied m accumulated \<Rightarrow>
               if accumulated \<noteq> udpLength then Some (sm, m)
               else do {
                 b0 \<leftarrow> arr_get (pData pk) 0;
                 b1 \<leftarrow> arr_get (pData pk) 1;
                 let sourcePort = u16_be b0 b1;
                     m = store_bytes m buffer
                       [byte_at 0 (sourceIP pk), byte_at 1 (sourceIP pk),
                        byte_at 2 (sourceIP pk), byte_at 3 (sourceIP pk),
                        byte_at 0 sourcePort, byte_at 1 sourcePort,
                        byte_at 0 payload, byte_at 1 payload];
                     m = store_bytes m (buffer + 8 + payload)
                           (replicate RECEIVE_BUFFER_HEADER_SIZE 0)
                 in do {
                   sm \<leftarrow> set_socket sm (ps_taskID st) (ps_socketID st)
                     (d\<lparr>sd_receiveBuffer := buffer + (8 + payload),
                        sd_receiveBufferSize := sd_receiveBufferSize d - (8 + payload)\<rparr>);
                   Some (sm, m)
                 }
               }
         }
       }}
     }
   }"

subsection \<open>Transmission requests\<close>

definition request_socket :: "SocketManager \<Rightarrow> u16 \<Rightarrow> (u8 \<times> u8 \<times> SocketDesc) option option" where
  "request_socket sm udpPort = do {
     st \<leftarrow> arr_get (udpPortStates sm) (unat udpPort);
     if ps_isActive st = 0 then Some None
     else do {
       d \<leftarrow> get_socket sm (ps_taskID st) (ps_socketID st);
       Some (Some (ps_taskID st, ps_socketID st, d))
     }
   }"

definition emptyUDPPacket :: OutgoingUDPPacket where
  "emptyUDPPacket = \<lparr>out_sourcePort = 0, out_destinationPort = 0, out_destinationIP = 0,
     out_data = 0, out_dataLen = 0, out_identification = 0, out_fragmentOffset = 0\<rparr>"

definition getTop :: "SocketManager \<Rightarrow> memory \<Rightarrow> u16 \<Rightarrow> OutgoingUDPPacket option" where
  "getTop sm m udpPort = do {
     r \<leftarrow> request_socket sm udpPort;
     case r of
       None \<Rightarrow> Some emptyUDPPacket
     | Some (t, s, d) \<Rightarrow>
         if sd_sendBufferSize d < 16 then Some emptyUDPPacket
         else
           let h = sd_sendBuffer d;
               udpLength = u16_be (m (h + 7)) (m (h + 6)) in
           if udpLength < 8 \<or> sd_sendBufferSize d < 8 + ucast udpLength
           then Some emptyUDPPacket
           else Some
             \<lparr>out_sourcePort = udpPort,
              out_destinationPort = u16_be (m (h + 5)) (m (h + 4)),
              out_destinationIP = u32_be (m (h + 3)) (m (h + 2)) (m (h + 1)) (m h),
              out_data = h + 8,
              out_dataLen = ucast udpLength,
              out_identification = sd_sendBufferIdentification d,
              out_fragmentOffset = sd_sendBufferFragmentOffset d\<rparr>
   }"

definition updateTop :: "SocketManager \<Rightarrow> u16 \<Rightarrow> u32 \<Rightarrow> u16 \<Rightarrow> SocketManager option" where
  "updateTop sm udpPort newFragmentOffset newIdentification = do {
     r \<leftarrow> request_socket sm udpPort;
     case r of
       None \<Rightarrow> Some sm
     | Some (t, s, d) \<Rightarrow>
         if sd_sendBufferSize d = 0 then Some sm
         else set_socket sm t s
           (d\<lparr>sd_sendBufferFragmentOffset := newFragmentOffset,
              sd_sendBufferIdentification := newIdentification\<rparr>)
   }"

definition removeTop :: "SocketManager \<Rightarrow> memory \<Rightarrow> u16 \<Rightarrow> (bool \<times> SocketManager) option" where
  "removeTop sm m udpPort = do {
     r \<leftarrow> request_socket sm udpPort;
     case r of
       None \<Rightarrow> Some (True, sm)
     | Some (t, s, d) \<Rightarrow>
         if sd_sendBufferSize d < 32 then Some (True, sm)
         else
           let h = sd_sendBuffer d;
               udpLength = u16_be (m (h + 7)) (m (h + 6)) in
           if udpLength < 8 \<or> sd_sendBufferSize d < 24 + ucast udpLength
           then Some (True, sm)
           else do {
             sm \<leftarrow> set_socket sm t s
               (d\<lparr>sd_sendBuffer := h + (8 + ucast udpLength),
                  sd_sendBufferSize := sd_sendBufferSize d - (8 + ucast udpLength),
                  sd_sendBufferIdentification := 0,
                  sd_sendBufferFragmentOffset := 0\<rparr>);
             Some (False, sm)
           }
   }"

definition indicateAsFinished :: "SocketManager \<Rightarrow> memory \<Rightarrow> u16 \<Rightarrow> (SocketManager \<times> memory) option"
  where
  "indicateAsFinished sm m udpPort = do {
     r \<leftarrow> request_socket sm udpPort;
     case r of
       None \<Rightarrow> Some (sm, m)
     | Some (t, s, d) \<Rightarrow>
         let m = (if sd_sendBufferIndicatorWhenFinished d \<noteq> 0
                  then store_bytes m (sd_sendBufferIndicatorWhenFinished d) [1, 0, 0, 0] else m)
         in do {
           sm \<leftarrow> set_socket sm t s
             (d\<lparr>sd_sendBufferIndicatorWhenFinished := 0, sd_sendBuffer := 0,
                sd_sendBufferSize := 0\<rparr>);
           Some (sm, m)
         }
   }"

text \<open>An iterator is the pointer to the current list element.\<close>

definition getTransmissionRequestsIterator :: "SocketManager \<Rightarrow> ptr" where
  "getTransmissionRequestsIterator sm = transmissionRequestsHead sm"

definition isFinished :: "ptr \<Rightarrow> bool" where
  "isFinished it \<longleftrightarrow> it = None"

definition goToNext :: "SocketManager \<Rightarrow> ptr \<Rightarrow> ptr option" where
  "goToNext sm it =
     (case it of
        None \<Rightarrow> Some None
      | Some i \<Rightarrow> do { e \<leftarrow> arr_get (transmissionRequestListElements sm) i; Some (dl_next e) })"

definition current_request :: "SocketManager \<Rightarrow> ptr \<Rightarrow> u16 option" where
  "current_request sm it =
     (case it of
        None \<Rightarrow> None
      | Some i \<Rightarrow> do {
          e \<leftarrow> arr_get (transmissionRequestListElements sm) i; Some (tr_udpPort (dl_value e)) })"

definition remove_request :: "SocketManager \<Rightarrow> ptr \<Rightarrow> (SocketManager \<times> ptr) option" where
  "remove_request sm it =
     (case it of
        None \<Rightarrow> Some (sm, it)
      | Some i \<Rightarrow> do {
          e \<leftarrow> arr_get (transmissionRequestListElements sm) i;
          let it' = dl_next e;
              tail = (case dl_next e of
                        Some _ \<Rightarrow> transmissionRequestsTail sm | None \<Rightarrow> dl_prev e);
              (es, head) =
                dl_unlink (transmissionRequestListElements sm) (transmissionRequestsHead sm) i;
              es = set_next es i (unusedTransmissionRequestsHead sm)
          in Some (sm\<lparr>transmissionRequestListElements := es, transmissionRequestsHead := head,
                      transmissionRequestsTail := tail,
                      unusedTransmissionRequestsHead := Some i\<rparr>, it')
        })"

definition relocateToEnd :: "SocketManager \<Rightarrow> ptr \<Rightarrow> (SocketManager \<times> ptr) option" where
  "relocateToEnd sm it =
     (case it of
        None \<Rightarrow> Some (sm, it)
      | Some i \<Rightarrow> do {
          e \<leftarrow> arr_get (transmissionRequestListElements sm) i;
          case dl_next e of
            None \<Rightarrow> Some (sm, it)
          | Some n \<Rightarrow> (
              let es = set_prev (transmissionRequestListElements sm) n (dl_prev e);
                  (es, head) = (case dl_prev e of
                                  Some p \<Rightarrow> (set_next es p (Some n), transmissionRequestsHead sm)
                                | None \<Rightarrow> (es, Some n))
              in case transmissionRequestsTail sm of
                   None \<Rightarrow> None
                 | Some t \<Rightarrow>
                     let es = set_next es t (Some i);
                         es = set_prev es i (Some t);
                         es = set_next es i None
                     in Some (sm\<lparr>transmissionRequestListElements := es,
                                transmissionRequestsHead := head,
                                transmissionRequestsTail := Some i\<rparr>, Some n))
        })"

subsection \<open>The state invariant\<close>

text \<open>\<open>sock\<close> and \<open>port\<close> read the two tables. The port table and the socket table agree: an
  active port names an active socket that is bound to it and the other way round. The transmission
  requests form a doubly linked list whose elements, together with the unused ones, are the whole
  array, and each names a port of the table.\<close>

definition sock :: "SocketManager \<Rightarrow> nat \<Rightarrow> nat \<Rightarrow> SocketDesc" where
  "sock sm t s = socketDescs sm ! t ! s"

definition port :: "SocketManager \<Rightarrow> nat \<Rightarrow> UDPPortState" where
  "port sm p = udpPortStates sm ! p"

definition sm_shape :: "SocketManager \<Rightarrow> bool" where
  "sm_shape sm \<longleftrightarrow>
     length (socketDescs sm) = NUM_POSSIBLE_TASKS \<and>
     (\<forall>t < NUM_POSSIBLE_TASKS. length (socketDescs sm ! t) = MAX_NUM_SOCKETS_PER_TASK) \<and>
     length (udpPortStates sm) = NUM_UDP_PORTS \<and>
     length (transmissionRequestListElements sm) = MAX_NUM_TRANSMISSION_REQUESTS"

definition socket_bound :: "(nat \<Rightarrow> nat \<Rightarrow> SocketDesc) \<Rightarrow> (nat \<Rightarrow> UDPPortState) \<Rightarrow> nat \<Rightarrow> nat \<Rightarrow> bool"
  where
  "socket_bound S P t s \<longleftrightarrow>
     (let p = unat (sd_udpPort (S t s)) in
      sd_isActive (S t s) = 1 \<and> p < NUM_UDP_PORTS \<and> ps_isActive (P p) = 1 \<and>
      unat (ps_taskID (P p)) = t \<and> unat (ps_socketID (P p)) = s)"

definition port_bound :: "(nat \<Rightarrow> nat \<Rightarrow> SocketDesc) \<Rightarrow> (nat \<Rightarrow> UDPPortState) \<Rightarrow> nat \<Rightarrow> bool" where
  "port_bound S P p \<longleftrightarrow>
     (let t = unat (ps_taskID (P p)); s = unat (ps_socketID (P p)) in
      ps_isActive (P p) = 1 \<and> t < NUM_POSSIBLE_TASKS \<and> s < MAX_NUM_SOCKETS_PER_TASK \<and>
      sd_isActive (S t s) = 1 \<and> unat (sd_udpPort (S t s)) = p)"

definition ports_agree :: "(nat \<Rightarrow> nat \<Rightarrow> SocketDesc) \<Rightarrow> (nat \<Rightarrow> UDPPortState) \<Rightarrow> bool" where
  "ports_agree S P \<longleftrightarrow>
     (\<forall>t < NUM_POSSIBLE_TASKS. \<forall>s < MAX_NUM_SOCKETS_PER_TASK.
        sd_isActive (S t s) = 0 \<or> socket_bound S P t s) \<and>
     (\<forall>p < NUM_UDP_PORTS. ps_isActive (P p) = 0 \<or> port_bound S P p)"

definition requests_are :: "SocketManager \<Rightarrow> nat list \<Rightarrow> nat list \<Rightarrow> bool" where
  "requests_are sm act fr \<longleftrightarrow>
     list_pool (transmissionRequestListElements sm) (transmissionRequestsHead sm) act
       (unusedTransmissionRequestsHead sm) fr \<and>
     transmissionRequestsTail sm = last_ptr None act \<and>
     (\<forall>i \<in> set act.
        unat (tr_udpPort (dl_value (transmissionRequestListElements sm ! i))) < NUM_UDP_PORTS)"

definition sm_inv :: "SocketManager \<Rightarrow> bool" where
  "sm_inv sm \<longleftrightarrow>
     sm_shape sm \<and> ports_agree (sock sm) (port sm) \<and> (\<exists>act fr. requests_are sm act fr)"

text \<open>The abstract view of the two tables: which socket of which task owns a port.\<close>

definition port_owner :: "SocketManager \<Rightarrow> nat \<Rightarrow> (nat \<times> nat) option" where
  "port_owner sm p =
     (if p < NUM_UDP_PORTS \<and> ps_isActive (port sm p) = 1
      then Some (unat (ps_taskID (port sm p)), unat (ps_socketID (port sm p))) else None)"

subsection \<open>The tables as functions\<close>

lemma row_length: "sm_shape sm \<Longrightarrow> t < 50 \<Longrightarrow> length (socketDescs sm ! t) = 10"
  by (simp add: sm_shape_def)

lemma get_socket_in:
  assumes "sm_shape sm" "unat t < 50" "unat s < 10"
  shows "get_socket sm t s = Some (sock sm (unat t) (unat s))"
  using assms row_length [OF assms(1,2)]
  by (simp add: get_socket_def sock_def sm_shape_def)

definition put_sock :: "SocketManager \<Rightarrow> nat \<Rightarrow> nat \<Rightarrow> SocketDesc \<Rightarrow> SocketManager" where
  "put_sock sm t s d = sm\<lparr>socketDescs := (socketDescs sm)[t := (socketDescs sm ! t)[s := d]]\<rparr>"

definition put_port :: "SocketManager \<Rightarrow> nat \<Rightarrow> UDPPortState \<Rightarrow> SocketManager" where
  "put_port sm p st = sm\<lparr>udpPortStates := (udpPortStates sm)[p := st]\<rparr>"

lemma set_socket_in:
  assumes "sm_shape sm" "unat t < 50" "unat s < 10"
  shows "set_socket sm t s d = Some (put_sock sm (unat t) (unat s) d)"
  using assms row_length [OF assms(1,2)]
  by (simp add: set_socket_def put_sock_def sm_shape_def)

lemma set_port_in:
  assumes "sm_shape sm" "unat p < 9000"
  shows "set_port sm p st = Some (put_port sm (unat p) st)"
  using assms by (simp add: set_port_def put_port_def sm_shape_def)

lemma put_shape [simp]:
  "sm_shape sm \<Longrightarrow> t < 50 \<Longrightarrow> sm_shape (put_sock sm t s d)"
  "sm_shape sm \<Longrightarrow> sm_shape (put_port sm p st)"
  by (auto simp: sm_shape_def put_sock_def put_port_def nth_list_update)

lemma put_sock_tables [simp]:
  "sm_shape sm \<Longrightarrow> t < 50 \<Longrightarrow> s < 10 \<Longrightarrow> sock (put_sock sm t s d) = (sock sm)(t := (sock sm t)(s := d))"
  "port (put_sock sm t s d) = port sm"
  using row_length [of sm t]
  by (auto simp: put_sock_def sock_def port_def fun_eq_iff sm_shape_def nth_list_update)

lemma put_port_tables [simp]:
  "sm_shape sm \<Longrightarrow> p < 9000 \<Longrightarrow> port (put_port sm p st) = (port sm)(p := st)"
  "sock (put_port sm p st) = sock sm"
  by (auto simp: put_port_def sock_def port_def fun_eq_iff sm_shape_def nth_list_update)

lemma put_requests [simp]:
  "requests_are (put_sock sm t s d) act fr = requests_are sm act fr"
  "requests_are (put_port sm p st) act fr = requests_are sm act fr"
  by (simp_all add: requests_are_def put_sock_def put_port_def)

subsection \<open>The tables stay in agreement\<close>

lemma ports_agree_socketD:
  assumes "ports_agree S P" "t < 50" "s < 10" "sd_isActive (S t s) \<noteq> 0"
  shows "sd_isActive (S t s) = 1" "unat (sd_udpPort (S t s)) < 9000"
    "ps_isActive (P (unat (sd_udpPort (S t s)))) = 1"
    "unat (ps_taskID (P (unat (sd_udpPort (S t s))))) = t"
    "unat (ps_socketID (P (unat (sd_udpPort (S t s))))) = s"
proof -
  have "socket_bound S P t s" using assms unfolding ports_agree_def by blast
  then show "sd_isActive (S t s) = 1" "unat (sd_udpPort (S t s)) < 9000"
    "ps_isActive (P (unat (sd_udpPort (S t s)))) = 1"
    "unat (ps_taskID (P (unat (sd_udpPort (S t s))))) = t"
    "unat (ps_socketID (P (unat (sd_udpPort (S t s))))) = s"
    by (simp_all add: socket_bound_def Let_def)
qed

lemma ports_agree_portD:
  assumes "ports_agree S P" "p < 9000" "ps_isActive (P p) \<noteq> 0"
  shows "ps_isActive (P p) = 1" "unat (ps_taskID (P p)) < 50" "unat (ps_socketID (P p)) < 10"
    "sd_isActive (S (unat (ps_taskID (P p))) (unat (ps_socketID (P p)))) = 1"
    "unat (sd_udpPort (S (unat (ps_taskID (P p))) (unat (ps_socketID (P p))))) = p"
proof -
  have "port_bound S P p" using assms unfolding ports_agree_def by blast
  then show "ps_isActive (P p) = 1" "unat (ps_taskID (P p)) < 50" "unat (ps_socketID (P p)) < 10"
    "sd_isActive (S (unat (ps_taskID (P p))) (unat (ps_socketID (P p)))) = 1"
    "unat (sd_udpPort (S (unat (ps_taskID (P p))) (unat (ps_socketID (P p))))) = p"
    by (simp_all add: port_bound_def Let_def)
qed

lemma ports_agreeI:
  assumes "\<And>t s. t < 50 \<Longrightarrow> s < 10 \<Longrightarrow> sd_isActive (S t s) \<noteq> 0 \<Longrightarrow> socket_bound S P t s"
    and "\<And>p. p < 9000 \<Longrightarrow> ps_isActive (P p) \<noteq> 0 \<Longrightarrow> port_bound S P p"
  shows "ports_agree S P"
  using assms by (auto simp: ports_agree_def)

lemmas bound_defs = socket_bound_def port_bound_def Let_def

lemma ports_agree_close:
  assumes agree: "ports_agree S P" and ts: "t < 50" "s < 10" "sd_isActive (S t s) = 1"
    and p: "p = unat (sd_udpPort (S t s))"
  shows "ports_agree (S(t := (S t)(s := (S t s)\<lparr>sd_isActive := 0\<rparr>)))
    (P(p := (P p)\<lparr>ps_isActive := 0\<rparr>))"
proof -
  have own: "p < 9000" "unat (ps_taskID (P p)) = t" "unat (ps_socketID (P p)) = s"
    using ports_agree_socketD [OF agree ts(1,2)] ts(3) p by simp_all
  show ?thesis
  proof (rule ports_agreeI, goal_cases)
    case (1 t' s')
    then show ?case
      using ports_agree_socketD [OF agree 1(1,2)] own by (auto simp: bound_defs split: if_splits)
  next
    case (2 p')
    then show ?case
      using ports_agree_portD [OF agree 2(1)] p by (auto simp: bound_defs split: if_splits)
  qed
qed

lemma ports_agree_open:
  assumes agree: "ports_agree S P"
    and ts: "unat t < 50" "unat s < 10" "sd_isActive (S (unat t) (unat s)) = 0"
    and p: "unat p < 9000" "ps_isActive (P (unat p)) \<noteq> 1"
    and d: "sd_isActive d = 1" "sd_udpPort d = p"
    and st: "ps_isActive st = 1" "ps_taskID st = t" "ps_socketID st = s"
  shows "ports_agree (S(unat t := (S (unat t))(unat s := d))) (P(unat p := st))"
proof (rule ports_agreeI, goal_cases)
  case (1 t' s')
  show ?case
  proof (cases "t' = unat t \<and> s' = unat s")
    case True
    then show ?thesis using p d st by (simp add: bound_defs)
  next
    case False
    then have "sd_isActive (S t' s') \<noteq> 0" using 1(3) by (auto split: if_splits)
    from ports_agree_socketD [OF agree 1(1,2) this] False p show ?thesis
      by (auto simp: bound_defs)
  qed
next
  case (2 p')
  show ?case
  proof (cases "p' = unat p")
    case True
    then show ?thesis using ts d st by (simp add: bound_defs)
  next
    case False
    then have "ps_isActive (P p') \<noteq> 0" using 2(2) by simp
    from ports_agree_portD [OF agree 2(1) this] False ts show ?thesis
      by (auto simp: bound_defs)
  qed
qed

lemma ports_agree_modify:
  assumes agree: "ports_agree S P"
    and "sd_isActive d = sd_isActive (S t s)" "sd_udpPort d = sd_udpPort (S t s)"
  shows "ports_agree (S(t := (S t)(s := d))) P"
proof (rule ports_agreeI, goal_cases)
  case (1 t' s')
  then have "sd_isActive (S t' s') \<noteq> 0" using assms by (auto split: if_splits)
  from ports_agree_socketD [OF agree 1(1,2) this] assms(2,3) show ?case
    by (auto simp: bound_defs)
next
  case (2 p')
  from ports_agree_portD [OF agree 2] assms(2,3) show ?case
    by (auto simp: bound_defs)
qed

subsection \<open>Operations on the tables keep the invariant\<close>

lemma sm_invD:
  assumes "sm_inv sm"
  shows "sm_shape sm" "ports_agree (sock sm) (port sm)" "\<exists>act fr. requests_are sm act fr"
  using assms by (auto simp: sm_inv_def)

lemma port_owner_Some:
  assumes "sm_inv sm" "port_owner sm p = Some (t, s)"
  shows "p < 9000" "t < 50" "s < 10" "sd_isActive (sock sm t s) = 1"
    "unat (sd_udpPort (sock sm t s)) = p"
  using assms ports_agree_portD [OF sm_invD(2) [OF assms(1)], of p]
  by (auto simp: port_owner_def split: if_splits)

lemma port_owner_socket:
  assumes "sm_inv sm" "t < 50" "s < 10" "sd_isActive (sock sm t s) \<noteq> 0"
  shows "port_owner sm (unat (sd_udpPort (sock sm t s))) = Some (t, s)"
  using ports_agree_socketD [OF sm_invD(2) [OF assms(1)] assms(2-4)]
  by (simp add: port_owner_def)

lemma sm_inv_put_close:
  assumes inv: "sm_inv sm" and ts: "t < 50" "s < 10" and act: "sd_isActive (sock sm t s) = 1"
    and p: "p = unat (sd_udpPort (sock sm t s))"
  shows "sm_inv (put_sock (put_port sm p ((port sm p)\<lparr>ps_isActive := 0\<rparr>)) t s
    ((sock sm t s)\<lparr>sd_isActive := 0\<rparr>))"
    and "port_owner (put_sock (put_port sm p ((port sm p)\<lparr>ps_isActive := 0\<rparr>)) t s
      ((sock sm t s)\<lparr>sd_isActive := 0\<rparr>)) = (port_owner sm)(p := None)"
proof -
  note i = sm_invD [OF inv]
  have "p < 9000" using ports_agree_socketD(2) [OF i(2) ts] act p by simp
  then show "sm_inv (put_sock (put_port sm p ((port sm p)\<lparr>ps_isActive := 0\<rparr>)) t s
      ((sock sm t s)\<lparr>sd_isActive := 0\<rparr>))"
    using i ts ports_agree_close [OF i(2) ts act p] by (simp add: sm_inv_def)
  show "port_owner (put_sock (put_port sm p ((port sm p)\<lparr>ps_isActive := 0\<rparr>)) t s
      ((sock sm t s)\<lparr>sd_isActive := 0\<rparr>)) = (port_owner sm)(p := None)"
    using i \<open>p < 9000\<close> by (auto simp: port_owner_def fun_eq_iff)
qed

lemma sm_inv_put_modify:
  assumes inv: "sm_inv sm" and ts: "t < 50" "s < 10"
    and d: "sd_isActive d = sd_isActive (sock sm t s)" "sd_udpPort d = sd_udpPort (sock sm t s)"
  shows "sm_inv (put_sock sm t s d)" and "port_owner (put_sock sm t s d) = port_owner sm"
  using sm_invD [OF inv] ts ports_agree_modify [OF sm_invD(2) [OF inv] d]
  by (auto simp: sm_inv_def port_owner_def fun_eq_iff)

lemma closeSocket_cases:
  assumes inv: "sm_inv sm" and t: "unat t < 50"
  obtains
    (ignored) "closeSocket sm t s = Some sm" "unat s < 10 \<Longrightarrow> sd_isActive (sock sm (unat t) (unat s)) = 0"
  | (closed) p where "unat s < 10" "sd_isActive (sock sm (unat t) (unat s)) = 1"
      "p = unat (sd_udpPort (sock sm (unat t) (unat s)))"
      "closeSocket sm t s = Some (put_sock (put_port sm p ((port sm p)\<lparr>ps_isActive := 0\<rparr>))
         (unat t) (unat s) ((sock sm (unat t) (unat s))\<lparr>sd_isActive := 0\<rparr>))"
proof (cases "unat s < 10 \<and> sd_isActive (sock sm (unat t) (unat s)) \<noteq> 0")
  case True
  note i = sm_invD [OF inv]
  let ?d = "sock sm (unat t) (unat s)"
  have b: "sd_isActive ?d = 1" "unat (sd_udpPort ?d) < 9000"
    using ports_agree_socketD [OF i(2) t] True by auto
  have "arr_get (udpPortStates sm) (unat (sd_udpPort ?d)) = Some (port sm (unat (sd_udpPort ?d)))"
    using i(1) b(2) by (simp add: port_def sm_shape_def)
  with i(1) t b True show ?thesis
    by (intro closed) (simp_all add: closeSocket_def get_socket_in set_port_in set_socket_in)
next
  case False
  then have "sd_isActive (sock sm (unat t) (unat s)) = 0 \<or> 10 \<le> unat s" by auto
  then show ?thesis
    using sm_invD(1) [OF inv] t
    by (intro ignored) (auto simp: closeSocket_def get_socket_in)
qed

lemma closeSocket_spec:
  assumes inv: "sm_inv sm" and t: "unat t < 50"
  obtains sm' where "closeSocket sm t s = Some sm'" "sm_inv sm'"
    "port_owner sm' =
       (\<lambda>p. if port_owner sm p = Some (unat t, unat s) then None else port_owner sm p)"
proof (rule closeSocket_cases [OF inv t, where s = s], goal_cases)
  case ignored: 1
  have none: "port_owner sm p \<noteq> Some (unat t, unat s)" for p
    using port_owner_Some(3,4) [OF inv, of p "unat t" "unat s"] ignored(3) by auto
  show ?thesis by (rule that [OF ignored(2) inv]) (simp add: none)
next
  case closed: (2 p)
  have "port_owner sm q = Some (unat t, unat s) \<longleftrightarrow> q = p" for q
    using port_owner_Some(5) [OF inv, of q "unat t" "unat s"]
      port_owner_socket [OF inv t closed(2)] closed(3,4) by auto
  then have "(port_owner sm)(p := None) =
      (\<lambda>p. if port_owner sm p = Some (unat t, unat s) then None else port_owner sm p)"
    by (auto simp: fun_eq_iff)
  with sm_inv_put_close(2) [OF inv t closed(2-4)] show ?thesis
    by (intro that [OF closed(5) sm_inv_put_close(1) [OF inv t closed(2-4)]]) simp
qed

lemma closeSockets_loop_spec:
  assumes "sm_inv sm" "unat t < 50" "\<forall>i \<in> set is. i < 10"
  shows "\<exists>sm'. closeSockets_loop sm t is = Some sm' \<and> sm_inv sm' \<and>
    port_owner sm' = (\<lambda>p. if \<exists>i \<in> set is. port_owner sm p = Some (unat t, i) then None
                          else port_owner sm p)"
  using assms
proof (induction "is" arbitrary: sm)
  case Nil
  then show ?case by simp
next
  case (Cons i "is")
  obtain sm1 where sm1: "closeSocket sm t (of_nat i) = Some sm1" "sm_inv sm1"
    "port_owner sm1 = (\<lambda>p. if port_owner sm p = Some (unat t, unat (of_nat i :: u8)) then None
       else port_owner sm p)"
    using closeSocket_spec [OF Cons.prems(1,2)] by blast
  obtain sm2 where sm2: "closeSockets_loop sm1 t is = Some sm2" "sm_inv sm2"
    "port_owner sm2 = (\<lambda>p. if \<exists>i \<in> set is. port_owner sm1 p = Some (unat t, i) then None
       else port_owner sm1 p)"
    using Cons.IH [OF sm1(2)] Cons.prems by auto
  have "unat (of_nat i :: u8) = i" using Cons.prems(3) by simp
  with sm1 sm2 show ?case by (auto simp: fun_eq_iff)
qed

lemma closeAllSocketsForTask_spec:
  assumes inv: "sm_inv sm" and t: "unat t < 50"
  obtains sm' where "closeAllSocketsForTask sm t = Some sm'" "sm_inv sm'"
    "port_owner sm' = (\<lambda>p. case port_owner sm p of None \<Rightarrow> None
       | Some (t', s) \<Rightarrow> if t' = unat t then None else Some (t', s))"
proof -
  obtain sm' where sm': "closeSockets_loop sm t [0..<10] = Some sm'" "sm_inv sm'"
    "port_owner sm' = (\<lambda>p. if \<exists>i \<in> set [0..<10]. port_owner sm p = Some (unat t, i) then None
       else port_owner sm p)"
    using closeSockets_loop_spec [OF inv t, of "[0..<10]"] by auto
  have "port_owner sm' p = (case port_owner sm p of None \<Rightarrow> None
       | Some (t', s) \<Rightarrow> if t' = unat t then None else Some (t', s))" for p
    using sm'(3) port_owner_Some(3) [OF inv, of p] by (auto split: option.splits)
  with sm' show ?thesis by (intro that) (auto simp: closeAllSocketsForTask_def)
qed

lemma find_upt_Some:
  "find P [0..<n] = Some i \<Longrightarrow> i < n \<and> P i \<and> (\<forall>j < i. \<not> P j)"
  by (auto simp: find_Some_iff)

lemma find_upt_None: "find P [0..<n] = None \<longleftrightarrow> (\<forall>i < n. \<not> P i)"
  by (auto simp: find_None_iff)

lemma openSocket_refused:
  assumes inv: "sm_inv sm" and t: "unat t < 50"
    and no: "9000 \<le> unat p \<or> port_owner sm (unat p) \<noteq> None \<or>
      (\<forall>s < 10. sd_isActive (sock sm (unat t) s) \<noteq> 0)"
  shows "openSocket sm t p = Some (-1, sm)"
proof (cases "unat p < 9000 \<and> ps_isActive (port sm (unat p)) \<noteq> 1")
  case True
  note shape = sm_invD(1) [OF inv]
  have "find (\<lambda>i. sd_isActive (socketDescs sm ! unat t ! i) = 0) [0..<10] = None"
    using no True by (auto simp: find_None_iff sock_def port_owner_def)
  with True shape t show ?thesis
    by (simp add: openSocket_def sm_shape_def port_def)
next
  case False
  with sm_invD(1) [OF inv] show ?thesis
    by (auto simp: openSocket_def sm_shape_def port_def)
qed

lemma openSocket_granted:
  assumes inv: "sm_inv sm" and t: "unat t < 50" and p: "unat p < 9000"
    and free: "port_owner sm (unat p) = None"
    and slot: "i < 10" "sd_isActive (sock sm (unat t) i) = 0"
      "\<forall>j < i. sd_isActive (sock sm (unat t) j) \<noteq> 0"
  obtains sm' where "openSocket sm t p = Some (int i, sm')" "sm_inv sm'"
    "port_owner sm' = (port_owner sm)(unat p \<mapsto> (unat t, i))"
    "sd_receiveBufferSize (sock sm' (unat t) i) = 0"
    "\<And>act fr. requests_are sm' act fr = requests_are sm act fr"
proof -
  note shape = sm_invD(1) [OF inv]
  let ?d = "\<lparr>sd_isActive = 1, sd_udpPort = p, sd_receiveBuffer = 0, sd_receiveBufferSize = 0,
     sd_sendBuffer = 0, sd_sendBufferSize = 0, sd_sendBufferIdentification = 0,
     sd_sendBufferFragmentOffset = 0, sd_sendBufferIndicatorWhenFinished = 0\<rparr> :: SocketDesc"
  let ?st = "\<lparr>ps_isActive = 1, ps_taskID = t, ps_socketID = of_nat i\<rparr> :: UDPPortState"
  let ?sm' = "put_port (put_sock sm (unat t) i ?d) (unat p) ?st"
  have i: "unat (of_nat i :: u8) = i" using slot by simp
  have "find (\<lambda>i. sd_isActive (socketDescs sm ! unat t ! i) = 0) [0..<10] = Some i"
    using slot by (auto simp: find_Some_iff sock_def)
  moreover have inactive: "ps_isActive (port sm (unat p)) \<noteq> 1"
    using free p by (auto simp: port_owner_def split: if_splits)
  ultimately have op: "openSocket sm t p = Some (int i, ?sm')"
    using shape t p slot i
    by (simp add: openSocket_def set_socket_in set_port_in port_def sm_shape_def [of sm])
  have "ports_agree (sock ?sm') (port ?sm')"
    using ports_agree_open [OF sm_invD(2) [OF inv] t, of "of_nat i" p ?d ?st] shape t p slot i inactive
    by simp
  then have "sm_inv ?sm'" using sm_invD [OF inv] t by (simp add: sm_inv_def)
  moreover have "port_owner ?sm' = (port_owner sm)(unat p \<mapsto> (unat t, i))"
    using shape t p slot i by (auto simp: port_owner_def fun_eq_iff)
  moreover have "sd_receiveBufferSize (sock ?sm' (unat t) i) = 0"
    using shape t slot by simp
  moreover have "requests_are ?sm' act fr = requests_are sm act fr" for act fr by simp
  ultimately show ?thesis using op by (intro that)
qed

lemma setReceiveBuffer_spec:
  assumes inv: "sm_inv sm" and t: "unat t < 50"
  shows "\<exists>sm'. sm_inv sm' \<and> port_owner sm' = port_owner sm \<and>
    (if unat s < 10 \<and> (16 \<le> unat bsize \<or> bsize = 0 \<and> buf = 0) \<and>
        sd_isActive (sock sm (unat t) (unat s)) = 1
     then setReceiveBuffer sm t s buf bsize = Some (0, sm') \<and>
       sock sm' = (sock sm)(unat t := (sock sm (unat t))(unat s := (sock sm (unat t) (unat s))
         \<lparr>sd_receiveBuffer := buf, sd_receiveBufferSize := bsize\<rparr>))
     else sm' = sm \<and> setReceiveBuffer sm t s buf bsize = Some (-1, sm))"
proof (cases "unat s < 10 \<and> (16 \<le> unat bsize \<or> bsize = 0 \<and> buf = 0) \<and>
    sd_isActive (sock sm (unat t) (unat s)) = 1")
  case True
  let ?sm' = "put_sock sm (unat t) (unat s) ((sock sm (unat t) (unat s))
    \<lparr>sd_receiveBuffer := buf, sd_receiveBufferSize := bsize\<rparr>)"
  have "setReceiveBuffer sm t s buf bsize = Some (0, ?sm')"
    using True sm_invD(1) [OF inv] t
    by (auto simp: setReceiveBuffer_def get_socket_in set_socket_in word_less_nat_alt)
  with True show ?thesis
    using sm_inv_put_modify [OF inv t, of "unat s"] sm_invD(1) [OF inv] t
    by (intro exI [of _ ?sm']) simp
next
  case False
  have "sd_isActive (sock sm (unat t) (unat s)) \<noteq> 1 \<Longrightarrow> unat s < 10 \<Longrightarrow>
      sd_isActive (sock sm (unat t) (unat s)) = 0"
    using ports_agree_socketD(1) [OF sm_invD(2) [OF inv] t] by blast
  with False have "setReceiveBuffer sm t s buf bsize = Some (-1, sm)"
    using sm_invD(1) [OF inv] t
    by (auto simp: setReceiveBuffer_def get_socket_in word_less_nat_alt not_le)
  with False inv show ?thesis by (intro exI [of _ sm]) simp
qed

end
