(* ===== verification/Socket_Transmission.thy ===== *)
theory Socket_Transmission
  imports Socket_Manager
begin

text \<open>
  The transmission side of \<open>socket_manager.cpp\<close>: the list of transmission requests as an abstract
  list of port numbers that \<open>setSendBuffer\<close> pushes to the front, \<open>remove\<close> takes out of and
  \<open>relocateToEnd\<close> rotates, and the format of the send buffer that \<open>getTop\<close> and \<open>removeTop\<close>
  read.
\<close>

text \<open>The requests in list order, each with its port.\<close>

definition request_ports :: "SocketManager \<Rightarrow> nat list \<Rightarrow> u16 list" where
  "request_ports sm act = map (\<lambda>i. tr_udpPort (dl_value (transmissionRequestListElements sm ! i))) act"

lemma request_ports_append [simp]:
  "request_ports sm (is @ js) = request_ports sm is @ request_ports sm js"
  "request_ports sm [] = []"
  by (simp_all add: request_ports_def)

lemma request_ports_put [simp]:
  "request_ports (put_sock sm t s d) act = request_ports sm act"
  by (simp add: request_ports_def put_sock_def)

lemma request_ports_cong:
  assumes "map dl_value (transmissionRequestListElements sm') =
      map dl_value (transmissionRequestListElements sm)"
    "set act \<subseteq> {..<length (transmissionRequestListElements sm)}"
  shows "request_ports sm' act = request_ports sm act"
proof -
  have "dl_value (transmissionRequestListElements sm' ! i) = dl_value (transmissionRequestListElements sm ! i)"
    if "i < length (transmissionRequestListElements sm)" for i
    using that map_eq_imp_length_eq [OF assms(1)] nth_map [of i _ dl_value] assms(1) by metis
  with assms(2) show ?thesis by (auto simp: request_ports_def)
qed

subsection \<open>Construction\<close>

lemma SocketManager_new_requests:
  "sm_shape raw \<Longrightarrow> requests_are (SocketManager_new raw) [] [0..<15]"
proof -
  assume "sm_shape raw"
  have "seg (nxt (transmissionRequestListElements (SocketManager_new raw))) (Some 0) [0..<15] None"
    by (rule seg_upt) (auto simp: nxt_def SocketManager_new_def)
  then show ?thesis
    by (auto simp: requests_are_def list_pool_def dlist_def SocketManager_new_def)
qed

lemma SocketManager_new_inv:
  assumes "sm_shape raw"
  shows "sm_inv (SocketManager_new raw)" "port_owner (SocketManager_new raw) = (\<lambda>_. None)"
proof -
  have shape: "sm_shape (SocketManager_new raw)"
    using assms by (simp add: sm_shape_def SocketManager_new_def)
  have s: "sd_isActive (sock (SocketManager_new raw) t s) = 0" if "t < 50" "s < 10" for t s
    using assms that row_length [OF assms that(1)]
    by (simp add: sock_def SocketManager_new_def sm_shape_def)
  have p: "ps_isActive (port (SocketManager_new raw) p) = 0" if "p < 9000" for p
    using assms that by (simp add: port_def SocketManager_new_def sm_shape_def)
  have "ports_agree (sock (SocketManager_new raw)) (port (SocketManager_new raw))"
    by (rule ports_agreeI) (simp_all add: s p)
  with shape SocketManager_new_requests [OF assms] show "sm_inv (SocketManager_new raw)"
    by (auto simp: sm_inv_def)
  show "port_owner (SocketManager_new raw) = (\<lambda>_. None)"
    by (auto simp: port_owner_def p fun_eq_iff)
qed

subsection \<open>Changing the list of requests\<close>

lemma sm_inv_requests:
  assumes "sm_inv sm" "requests_are sm' act fr" "socketDescs sm' = socketDescs sm"
    "udpPortStates sm' = udpPortStates sm"
    "length (transmissionRequestListElements sm') = length (transmissionRequestListElements sm)"
  shows "sm_inv sm'" "port_owner sm' = port_owner sm" "sock sm' = sock sm" "port sm' = port sm"
proof -
  show t: "sock sm' = sock sm" "port sm' = port sm"
    using assms by (simp_all add: sock_def port_def fun_eq_iff)
  show "port_owner sm' = port_owner sm" by (simp add: port_owner_def t fun_eq_iff)
  show "sm_inv sm'" using assms by (auto simp: sm_inv_def sm_shape_def t)
qed

lemma requests_are_lists:
  assumes "requests_are sm act fr"
  shows "transmissionRequestsHead sm = hd_ptr act None" "transmissionRequestsTail sm = last_ptr None act"
    "unusedTransmissionRequestsHead sm = hd_ptr fr None"
    "\<And>i. i \<in> set act \<Longrightarrow> i < length (transmissionRequestListElements sm)"
    "\<And>i. i \<in> set fr \<Longrightarrow> i < length (transmissionRequestListElements sm)"
  using assms pool_lists by (auto simp: requests_are_def)

text \<open>An operation that relinks the elements and keeps their values: the invariant and the ports
  of the requests follow from the shape of the new lists.\<close>

lemma relink_requests:
  assumes inv: "sm_inv sm" and req: "requests_are sm act fr"
    and pool: "list_pool es' h' act' f' fr'" and act': "set act' \<subseteq> set act"
    and val: "map dl_value es' = map dl_value (transmissionRequestListElements sm)"
    and sm': "sm' = sm\<lparr>transmissionRequestListElements := es', transmissionRequestsHead := h',
      transmissionRequestsTail := last_ptr None act', unusedTransmissionRequestsHead := f'\<rparr>"
  shows "sm_inv sm'" "requests_are sm' act' fr'" "request_ports sm' act' = request_ports sm act'"
    "port_owner sm' = port_owner sm" "sock sm' = sock sm"
proof -
  have "set act' \<subseteq> {..<length (transmissionRequestListElements sm)}"
    using act' requests_are_lists(4) [OF req] by auto
  from request_ports_cong [OF _ this, of sm'] val
  show ports: "request_ports sm' act' = request_ports sm act'" by (simp add: sm')
  then have "tr_udpPort (dl_value (es' ! k)) =
      tr_udpPort (dl_value (transmissionRequestListElements sm ! k))" if "k \<in> set act'" for k
    using that by (simp add: request_ports_def sm')
  with req pool act' show req': "requests_are sm' act' fr'"
    by (auto simp: requests_are_def sm')
  have "length (transmissionRequestListElements sm') = length (transmissionRequestListElements sm)"
    using map_eq_imp_length_eq [OF val] by (simp add: sm')
  from sm_inv_requests [OF inv req' _ _ this]
  show "sm_inv sm'" "port_owner sm' = port_owner sm" "sock sm' = sock sm" by (simp_all add: sm')
qed

lemma remove_request_spec:
  assumes inv: "sm_inv sm" and req: "requests_are sm (is @ i # js) fr"
  obtains sm' where "remove_request sm (Some i) = Some (sm', hd_ptr js None)" "sm_inv sm'"
    "requests_are sm' (is @ js) (i # fr)" "request_ports sm' (is @ js) = request_ports sm (is @ js)"
    "port_owner sm' = port_owner sm" "sock sm' = sock sm"
proof -
  let ?es = "transmissionRequestListElements sm"
  obtain es' head' where u: "dl_unlink ?es (transmissionRequestsHead sm) i = (es', head')"
    by (cases "dl_unlink ?es (transmissionRequestsHead sm) i")
  have es': "es' = fst (dl_unlink ?es (transmissionRequestsHead sm) i)" using u by simp
  have pool: "list_pool ?es (transmissionRequestsHead sm) (is @ i # js)
      (unusedTransmissionRequestsHead sm) fr" using req by (simp add: requests_are_def)
  then have d: "dlist ?es (transmissionRequestsHead sm) (is @ i # js)" by (simp add: list_pool_def)
  have i: "i < length ?es" using requests_are_lists(4) [OF req] by simp
  let ?sm' = "sm\<lparr>transmissionRequestListElements := set_next es' i (unusedTransmissionRequestsHead sm),
    transmissionRequestsHead := head', transmissionRequestsTail := last_ptr None (is @ js),
    unusedTransmissionRequestsHead := Some i\<rparr>"
  have tail: "(case nxt ?es i of Some _ \<Rightarrow> transmissionRequestsTail sm | None \<Rightarrow> prv ?es i) =
      last_ptr None (is @ js)"
    using dlist_split(1,2) [OF d] requests_are_lists(2) [OF req]
    by (cases js) (simp_all add: last_ptr_append2)
  have op: "remove_request sm (Some i) = Some (?sm', hd_ptr js None)"
    using i u tail dlist_split(1) [OF d]
    by (cases js) (simp_all add: remove_request_def nxt_def prv_def)
  show thesis
    by (rule that [OF op relink_requests [OF inv req pool_release [OF pool u] _ _ refl]])
      (auto simp: es')
qed

lemma relocateToEnd_elements:
  assumes d: "dlist es head (is @ i # j # js)"
    and es1: "es1 = (case prv es i of Some p \<Rightarrow> set_next (set_prev es j (prv es i)) p (Some j)
                     | None \<Rightarrow> set_prev es j (prv es i))"
    and l: "l = last (j # js)"
    and es2: "es2 = set_next (set_prev (set_next es1 l (Some i)) i (Some l)) i None"
  shows "dlist es2 (hd_ptr (is @ j # js) None) (is @ j # js @ [i])"
    "map dl_value es2 = map dl_value es"
    "\<And>k. k \<notin> set (is @ i # j # js) \<Longrightarrow> nxt es2 k = nxt es k"
proof -
  let ?u = "fst (dl_unlink es head i)"
  have dist: "distinct (is @ i # j # js)" and sub: "set (is @ i # j # js) \<subseteq> {..<length es}"
    using d by (auto simp: dlist_def)
  have l_in: "l \<in> set (j # js)" using l last_in_set [of "j # js"] by simp
  with dist sub have j: "j < length es" and i: "i < length es" and l': "l < length es" "l \<noteq> i"
    by auto
  note split = dlist_split(1,2) [OF d]
  have len: "length es1 = length es" by (simp add: es1 split: option.splits)
  have nxt1: "nxt es1 = nxt ?u" and prv1: "prv es1 = prv ?u"
    using dl_unlink_nxt [OF d] dl_unlink_prv [OF d] split j sub
    by (cases "is" rule: rev_cases; simp add: es1)+
  have "dlist es1 (hd_ptr (is @ j # js) None) (is @ j # js)"
    using dlist_unlink [OF d] dl_unlink_head [OF d] dlist_cong [OF nxt1 prv1] len by simp
  from dlist_push_back [OF this, of l i]
  show "dlist es2 (hd_ptr (is @ j # js) None) (is @ j # js @ [i])"
    using dist i len l es2 by simp
  show "map dl_value es2 = map dl_value es" by (simp add: es2 es1 split: option.splits)
  fix k assume "k \<notin> set (is @ i # j # js)"
  with l_in show "nxt es2 k = nxt es k"
    using i l' len dl_unlink_nxt [OF d]
    by (cases "is" rule: rev_cases) (auto simp: es2 nxt1)
qed

lemma relocateToEnd_spec:
  assumes inv: "sm_inv sm" and req: "requests_are sm (is @ i # js) fr" and js: "js \<noteq> []"
  obtains sm' where "relocateToEnd sm (Some i) = Some (sm', Some (hd js))" "sm_inv sm'"
    "requests_are sm' (is @ js @ [i]) fr"
    "request_ports sm' (is @ js @ [i]) = request_ports sm (is @ js @ [i])"
    "port_owner sm' = port_owner sm" "sock sm' = sock sm"
proof -
  obtain j ks where jks: "js = j # ks" using js by (cases js) auto
  let ?es = "transmissionRequestListElements sm"
  let ?l = "last (j # ks)"
  let ?es1 = "case prv ?es i of Some p \<Rightarrow> set_next (set_prev ?es j (prv ?es i)) p (Some j)
                     | None \<Rightarrow> set_prev ?es j (prv ?es i)"
  let ?es2 = "set_next (set_prev (set_next ?es1 ?l (Some i)) i (Some ?l)) i None"
  have pool: "list_pool ?es (transmissionRequestsHead sm) (is @ i # j # ks)
      (unusedTransmissionRequestsHead sm) fr" using req by (simp add: requests_are_def jks)
  then have d: "dlist ?es (transmissionRequestsHead sm) (is @ i # j # ks)" by (simp add: list_pool_def)
  have i: "i < length ?es" using requests_are_lists(4) [OF req] by simp
  note e = relocateToEnd_elements [OF d refl refl refl]
  have tail: "transmissionRequestsTail sm = Some ?l"
    using requests_are_lists(2) [OF req] last_ptr_last [of "is @ i # js" None] by (simp add: jks)
  have head: "(case prv ?es i of Some p \<Rightarrow> transmissionRequestsHead sm | None \<Rightarrow> Some j) =
      hd_ptr (is @ j # ks) None"
    using dlist_split(2,5) [OF d] by (cases "is" rule: rev_cases) (auto simp: hd_ptr_append)
  have len: "length ?es2 = length ?es" by (simp split: option.splits)
  have fr: "nxt ?es2 k = nxt ?es k" if "k \<in> set fr" for k
    by (rule e(3)) (use that pool in \<open>auto simp: list_pool_def\<close>)
  have "seg (nxt ?es2) (unusedTransmissionRequestsHead sm) fr None"
    using pool seg_cong [OF fr] by (simp add: list_pool_def)
  then have pool': "list_pool ?es2 (hd_ptr (is @ j # ks) None) (is @ js @ [i])
      (unusedTransmissionRequestsHead sm) fr"
    using e(1) pool len by (auto simp: list_pool_def jks)
  let ?sm' = "sm\<lparr>transmissionRequestListElements := ?es2,
    transmissionRequestsHead := hd_ptr (is @ j # ks) None,
    transmissionRequestsTail := last_ptr None (is @ js @ [i]),
    unusedTransmissionRequestsHead := unusedTransmissionRequestsHead sm\<rparr>"
  have "last_ptr None (is @ js @ [i]) = Some i" by (simp add: last_ptr_last)
  then have op: "relocateToEnd sm (Some i) = Some (?sm', Some (hd js))"
    using i tail head dlist_split(1) [OF d]
    by (simp add: relocateToEnd_def nxt_def [symmetric] prv_def [symmetric] jks Let_def
        split: option.splits)
  show thesis by (rule that [OF op relink_requests [OF inv req pool' _ e(2) refl]]) auto
qed

text \<open>\<open>setSendBuffer\<close>: on an active socket it either clears the send buffer, or files a request in
  front of the list, which fails only when all fifteen elements are in use.\<close>

lemma setSendBuffer_rejected:
  assumes inv: "sm_inv sm" and t: "unat t < 50"
    and no: "10 \<le> unat s \<or> sd_isActive (sock sm (unat t) (unat s)) = 0 \<or>
      unat bsize < 16 \<and> (bsize \<noteq> 0 \<or> buf \<noteq> 0 \<or> ind \<noteq> 0)"
  shows "setSendBuffer sm t s buf bsize ind = Some (-1, sm)"
  using no sm_invD(1) [OF inv] t
  by (cases "unat s < 10") (auto simp: setSendBuffer_def get_socket_in word_less_nat_alt)

lemma setSendBuffer_cleared:
  assumes inv: "sm_inv sm" and ts: "unat t < 50" "unat s < 10"
    and act: "sd_isActive (sock sm (unat t) (unat s)) \<noteq> 0" and req: "requests_are sm act fr"
  obtains sm' where "setSendBuffer sm t s 0 0 0 = Some (0, sm')" "sm_inv sm'"
    "requests_are sm' act fr" "port_owner sm' = port_owner sm"
    "sd_sendBufferSize (sock sm' (unat t) (unat s)) = 0"
proof -
  note shape = sm_invD(1) [OF inv]
  let ?d = "(sock sm (unat t) (unat s))\<lparr>sd_sendBuffer := 0, sd_sendBufferSize := 0,
    sd_sendBufferIdentification := 0, sd_sendBufferFragmentOffset := 0,
    sd_sendBufferIndicatorWhenFinished := 0\<rparr>"
  have "setSendBuffer sm t s 0 0 0 = Some (0, put_sock sm (unat t) (unat s) ?d)"
    using shape ts act by (simp add: setSendBuffer_def get_socket_in set_socket_in)
  from that [OF this] sm_inv_put_modify [OF inv ts, of ?d] req shape ts show thesis by simp
qed

lemma setSendBuffer_full:
  assumes inv: "sm_inv sm" and t: "unat t < 50" and full: "requests_are sm act []"
    and big: "16 \<le> unat bsize"
  shows "setSendBuffer sm t s buf bsize ind = Some (-1, sm)"
proof (cases "unat s < 10")
  case True
  have "bsize \<noteq> 0" using big by auto
  with True show ?thesis
    using requests_are_lists(3) [OF full] sm_invD(1) [OF inv] t big
    by (auto simp: setSendBuffer_def get_socket_in)
qed (simp add: setSendBuffer_def)

lemma file_request:
  assumes inv: "sm_inv sm" and req: "requests_are sm act (i # fr)" and p: "unat p < 9000"
    and es': "es' = fst (dl_push_front (set_value (transmissionRequestListElements sm) i \<lparr>tr_udpPort = p\<rparr>)
        (transmissionRequestsHead sm) i)"
    and sm': "sm' = sm\<lparr>transmissionRequestListElements := es', transmissionRequestsHead := Some i,
      transmissionRequestsTail := last_ptr None (i # act),
      unusedTransmissionRequestsHead := nxt (transmissionRequestListElements sm) i\<rparr>"
  shows "sm_inv sm'" "requests_are sm' (i # act) fr"
    "request_ports sm' (i # act) = p # request_ports sm act"
    "port_owner sm' = port_owner sm" "sock sm' = sock sm"
proof -
  let ?es = "transmissionRequestListElements sm"
  have pool: "list_pool ?es (transmissionRequestsHead sm) act (Some i) (i # fr)"
    using req requests_are_lists(3) [OF req] by (simp add: requests_are_def)
  have i: "i < length ?es" "i \<notin> set act" using pool by (auto simp: list_pool_def)
  have act: "k < length ?es" if "k \<in> set act" for k using requests_are_lists(4) [OF req that] .
  have vals: "map dl_value es' = (map dl_value ?es)[i := \<lparr>tr_udpPort = p\<rparr>]" by (simp add: es')
  have len: "length es' = length ?es" by (simp add: es')
  have nth: "dl_value (es' ! k) = (if k = i then \<lparr>tr_udpPort = p\<rparr> else dl_value (?es ! k))"
    if "k < length ?es" for k
    using that len arg_cong [OF vals, of "\<lambda>xs. xs ! k"] by (simp add: nth_list_update)
  show ports: "request_ports sm' (i # act) = p # request_ports sm act"
    using i act nth by (auto simp: request_ports_def sm')
  show req': "requests_are sm' (i # act) fr"
    using pool_activate(1) [OF pool, of "set_value ?es i \<lparr>tr_udpPort = p\<rparr>"] req p i act nth
    by (auto simp: requests_are_def sm' es' [symmetric])
  have "length (transmissionRequestListElements sm') = length ?es" by (simp add: sm' len)
  from sm_inv_requests [OF inv req' _ _ this]
  show "sm_inv sm'" "port_owner sm' = port_owner sm" "sock sm' = sock sm" by (simp_all add: sm')
qed

lemma setSendBuffer_filed:
  assumes inv: "sm_inv sm" and ts: "unat t < 50" "unat s < 10"
    and active: "sd_isActive (sock sm (unat t) (unat s)) \<noteq> 0"
    and req: "requests_are sm act (i # fr)" and big: "16 \<le> unat bsize"
  obtains sm' where "setSendBuffer sm t s buf bsize ind = Some (0, sm')" "sm_inv sm'"
    "requests_are sm' (i # act) fr" "port_owner sm' = port_owner sm"
    "request_ports sm' (i # act) = sd_udpPort (sock sm (unat t) (unat s)) # request_ports sm act"
    "sd_sendBuffer (sock sm' (unat t) (unat s)) = buf"
    "sd_sendBufferSize (sock sm' (unat t) (unat s)) = bsize"
proof -
  let ?d = "sock sm (unat t) (unat s)"
  let ?es = "transmissionRequestListElements sm"
  let ?es' = "fst (dl_push_front (set_value ?es i \<lparr>tr_udpPort = sd_udpPort ?d\<rparr>)
    (transmissionRequestsHead sm) i)"
  let ?sm1 = "sm\<lparr>transmissionRequestListElements := ?es', transmissionRequestsHead := Some i,
      transmissionRequestsTail := last_ptr None (i # act), unusedTransmissionRequestsHead := nxt ?es i\<rparr>"
  let ?d' = "?d\<lparr>sd_sendBuffer := buf, sd_sendBufferSize := bsize, sd_sendBufferIdentification := 0,
    sd_sendBufferFragmentOffset := 0, sd_sendBufferIndicatorWhenFinished := ind\<rparr>"
  have p: "unat (sd_udpPort ?d) < 9000"
    using ports_agree_socketD(2) [OF sm_invD(2) [OF inv] ts active] .
  note f = file_request [OF inv req p refl refl]
  have i: "i < length ?es" using requests_are_lists(5) [OF req] by simp
  have tail: "(case transmissionRequestsHead sm of Some _ \<Rightarrow> transmissionRequestsTail sm | None \<Rightarrow> Some i)
      = last_ptr None (i # act)"
    using requests_are_lists(1,2) [OF req] by (cases act) simp_all
  have "bsize \<noteq> 0" using big by auto
  then have "setSendBuffer sm t s buf bsize ind = Some (0, put_sock ?sm1 (unat t) (unat s) ?d')"
    using requests_are_lists(3) [OF req] sm_invD(1) [OF inv] sm_invD(1) [OF f(1)] ts active big i tail
    by (simp add: setSendBuffer_def get_socket_in set_socket_in word_less_nat_alt nxt_def
        split_beta Let_def)
  from that [OF this] sm_inv_put_modify [OF f(1) ts, of ?d'] f sm_invD(1) [OF f(1)] ts
  show thesis by simp
qed

subsection \<open>The send buffer\<close>

text \<open>The format tasks write: destination IP, destination port and length in little-endian order,
  eight zero bytes where the kernel puts the UDP header, then the payload; frames follow each other
  without gaps. \<open>drain_requests\<close> repeats \<open>getTop\<close> and \<open>removeTop\<close> as the network management task
  does.\<close>

type_synonym send_packet = "u32 \<times> u16 \<times> u8 list"

definition send_frame :: "send_packet \<Rightarrow> u8 list" where
  "send_frame pkt = (case pkt of (ip, prt, payload) \<Rightarrow>
     le32 ip @ le16 prt @ le16 (of_nat (8 + length payload)) @ replicate 8 0 @ payload)"

definition frame_fits :: "send_packet \<Rightarrow> bool" where
  "frame_fits pkt \<longleftrightarrow> length (snd (snd pkt)) + 8 < 65536"

definition send_stream :: "send_packet list \<Rightarrow> u8 list" where
  "send_stream pkts = concat (map send_frame pkts)"

primrec drain_requests :: "nat \<Rightarrow> SocketManager \<Rightarrow> memory \<Rightarrow> u16 \<Rightarrow> OutgoingUDPPacket list option"
  where
  "drain_requests 0 sm m p = None"
| "drain_requests (Suc n) sm m p = do {
     top \<leftarrow> getTop sm m p;
     (finished, sm') \<leftarrow> removeTop sm m p;
     if finished then Some [top] else do { rest \<leftarrow> drain_requests n sm' m p; Some (top # rest) }
   }"

definition packet_view :: "memory \<Rightarrow> OutgoingUDPPacket \<Rightarrow> send_packet" where
  "packet_view m u = (out_destinationIP u, out_destinationPort u,
     load_bytes m (out_data u + 8) (unat (out_dataLen u) - 8))"

lemma length_send_frame: "length (send_frame (ip, prt, payload)) = 16 + length payload"
  by (simp add: send_frame_def)

lemma length_send_frame_ge: "16 \<le> length (send_frame pkt)"
  by (cases pkt) (simp add: length_send_frame)

text \<open>What the kernel reads back from a frame.\<close>

lemma send_frame_fields:
  assumes "stored m h (send_frame (ip, prt, payload))" "length payload + 8 < 65536"
  shows "u32_be (m (h + 3)) (m (h + 2)) (m (h + 1)) (m h) = ip"
    "u16_be (m (h + 5)) (m (h + 4)) = prt"
    "u16_be (m (h + 7)) (m (h + 6)) = of_nat (8 + length payload)"
    "load_bytes m (h + 16) (length payload) = payload"
proof -
  have s: "stored m h (le32 ip)" "stored m (h + 4) (le16 prt)"
    "stored m (h + 6) (le16 (of_nat (8 + length payload)))" "stored m (h + 16) payload"
    using assms(1) by (simp_all add: send_frame_def stored_append add.assoc)
  show "u32_be (m (h + 3)) (m (h + 2)) (m (h + 1)) (m h) = ip" using stored_le32 [OF s(1)] .
  show "u16_be (m (h + 5)) (m (h + 4)) = prt" using stored_le16 [OF s(2)] by (simp add: add.assoc)
  show "u16_be (m (h + 7)) (m (h + 6)) = of_nat (8 + length payload)"
    using stored_le16 [OF s(3)] by (simp add: add.assoc)
  show "load_bytes m (h + 16) (length payload) = payload" using s(4) by (simp add: stored_def)
qed

lemma request_socket_owner:
  assumes inv: "sm_inv sm" and own: "port_owner sm (unat p) = Some (t, s)"
  shows "request_socket sm p =
    Some (Some (ps_taskID (port sm (unat p)), ps_socketID (port sm (unat p)), sock sm t s))"
    "unat (ps_taskID (port sm (unat p))) = t" "unat (ps_socketID (port sm (unat p))) = s"
proof -
  have o: "unat p < 9000" "ps_isActive (port sm (unat p)) = 1"
    "unat (ps_taskID (port sm (unat p))) = t" "unat (ps_socketID (port sm (unat p))) = s"
    using own by (auto simp: port_owner_def split: if_splits)
  have ts: "t < 50" "s < 10" using port_owner_Some [OF inv own] by auto
  show "unat (ps_taskID (port sm (unat p))) = t" "unat (ps_socketID (port sm (unat p))) = s"
    using o by auto
  have "arr_get (udpPortStates sm) (unat p) = Some (port sm (unat p))"
    using o sm_invD(1) [OF inv] by (simp add: sm_shape_def port_def)
  with o ts sm_invD(1) [OF inv]
  show "request_socket sm p =
    Some (Some (ps_taskID (port sm (unat p)), ps_socketID (port sm (unat p)), sock sm t s))"
    by (simp add: request_socket_def get_socket_in)
qed

lemma getTop_frame:
  assumes inv: "sm_inv sm" and own: "port_owner sm (unat p) = Some (t, s)"
    and st: "stored m (sd_sendBuffer (sock sm t s)) (send_frame pkt)" and fits: "frame_fits pkt"
    and len: "length (send_frame pkt) \<le> unat (sd_sendBufferSize (sock sm t s))"
  shows "\<exists>top. getTop sm m p = Some top \<and> packet_view m top = pkt \<and> out_sourcePort top = p"
proof -
  obtain ip prt payload where pkt: "pkt = (ip, prt, payload)" by (cases pkt)
  have small: "length payload + 8 < 65536" using fits by (simp add: frame_fits_def pkt)
  note f = send_frame_fields [OF st [unfolded pkt] small]
  have l: "16 + length payload \<le> unat (sd_sendBufferSize (sock sm t s))"
    using len by (simp add: pkt length_send_frame)
  have u: "unat (8 + word_of_nat (length payload) :: u16) = 8 + length payload"
    using small unat_of_nat_u16 [of "8 + length payload"] by simp
  have ul: "unat (8 + ucast (8 + word_of_nat (length payload) :: u16) :: u32) = 16 + length payload"
    using u small by (simp add: unat_add_no_wrap)
  show ?thesis
    using f l u ul unfolding getTop_def request_socket_owner(1) [OF inv own]
    by (simp add: word_less_nat_alt Let_def packet_view_def pkt add.assoc)
qed

lemma removeTop_last:
  assumes inv: "sm_inv sm" and own: "port_owner sm (unat p) = Some (t, s)"
    and st: "stored m (sd_sendBuffer (sock sm t s)) (send_frame pkt)" and fits: "frame_fits pkt"
    and len: "unat (sd_sendBufferSize (sock sm t s)) < length (send_frame pkt) + 16"
  shows "removeTop sm m p = Some (True, sm)"
proof -
  obtain ip prt payload where pkt: "pkt = (ip, prt, payload)" by (cases pkt)
  have small: "length payload + 8 < 65536" using fits by (simp add: frame_fits_def pkt)
  note f = send_frame_fields [OF st [unfolded pkt] small]
  have u: "unat (8 + word_of_nat (length payload) :: u16) = 8 + length payload"
    using small unat_of_nat_u16 [of "8 + length payload"] by simp
  have ul: "unat (24 + ucast (8 + word_of_nat (length payload) :: u16) :: u32) = 32 + length payload"
    using u small by (simp add: unat_add_no_wrap)
  show ?thesis
    using f len u ul unfolding removeTop_def request_socket_owner(1) [OF inv own]
    by (simp add: word_less_nat_alt Let_def pkt length_send_frame)
qed

lemma removeTop_more:
  assumes inv: "sm_inv sm" and own: "port_owner sm (unat p) = Some (t, s)"
    and st: "stored m (sd_sendBuffer (sock sm t s)) (send_frame pkt)" and fits: "frame_fits pkt"
    and len: "length (send_frame pkt) + 16 \<le> unat (sd_sendBufferSize (sock sm t s))"
  obtains sm' where "removeTop sm m p = Some (False, sm')" "sm_inv sm'"
    "port_owner sm' = port_owner sm"
    "sd_sendBuffer (sock sm' t s) =
       sd_sendBuffer (sock sm t s) + of_nat (length (send_frame pkt))"
    "unat (sd_sendBufferSize (sock sm' t s)) =
       unat (sd_sendBufferSize (sock sm t s)) - length (send_frame pkt)"
proof -
  obtain ip prt payload where pkt: "pkt = (ip, prt, payload)" by (cases pkt)
  let ?d = "sock sm t s" and ?l = "8 + ucast (of_nat (8 + length payload) :: u16) :: u32"
  have small: "length payload + 8 < 65536" using fits by (simp add: frame_fits_def pkt)
  note f = send_frame_fields [OF st [unfolded pkt] small]
  note own' = request_socket_owner [OF inv own] and ts = port_owner_Some(2,3) [OF inv own]
  have u: "unat (of_nat (8 + length payload) :: u16) = 8 + length payload"
    using small unat_of_nat_u16 [of "8 + length payload"] by simp
  have ul: "unat (24 + ucast (of_nat (8 + length payload) :: u16) :: u32) = 32 + length payload"
    "unat ?l = 16 + length payload"
    using u small by (simp_all add: unat_add_no_wrap del: of_nat_add)
  have l: "32 + length payload \<le> unat (sd_sendBufferSize ?d)"
    using len by (simp add: pkt length_send_frame)
  let ?d' = "?d\<lparr>sd_sendBuffer := sd_sendBuffer ?d + ?l, sd_sendBufferSize := sd_sendBufferSize ?d - ?l,
    sd_sendBufferIdentification := 0, sd_sendBufferFragmentOffset := 0\<rparr>"
  have lw: "?l = of_nat (16 + length payload)"
    using ul(2) small by (simp add: word_unat_eq_iff unat_of_nat_u32 del: of_nat_add)
  have "removeTop sm m p = Some (False, put_sock sm t s ?d')"
    using f l u ul own'(2,3) ts sm_invD(1) [OF inv] unfolding removeTop_def own'(1)
    by (simp add: word_less_nat_alt Let_def set_socket_in del: of_nat_add)
  moreover have "unat (sd_sendBufferSize ?d - ?l) = unat (sd_sendBufferSize ?d) - (16 + length payload)"
    using l ul by (simp add: unat_sub_no_wrap del: of_nat_add)
  ultimately show thesis
    using that [of "put_sock sm t s ?d'"] sm_inv_put_modify [OF inv ts, of ?d'] sm_invD(1) [OF inv] ts lw
    by (simp add: pkt length_send_frame del: of_nat_add)
qed

lemma drain_requests_stream:
  assumes "sm_inv sm" "port_owner sm (unat p) = Some (t, s)" "pkts \<noteq> []"
    "\<forall>pkt \<in> set pkts. frame_fits pkt"
    "stored m (sd_sendBuffer (sock sm t s)) (send_stream pkts)"
    "unat (sd_sendBufferSize (sock sm t s)) = length (send_stream pkts)"
  shows "\<exists>tops. drain_requests (length pkts) sm m p = Some tops \<and> map (packet_view m) tops = pkts"
  using assms
proof (induction pkts arbitrary: sm)
  case (Cons pkt pkts)
  let ?d = "sock sm t s"
  have st: "stored m (sd_sendBuffer ?d) (send_frame pkt)"
    "stored m (sd_sendBuffer ?d + of_nat (length (send_frame pkt))) (send_stream pkts)"
    and fits: "frame_fits pkt"
    and len: "unat (sd_sendBufferSize ?d) = length (send_frame pkt) + length (send_stream pkts)"
    using Cons.prems by (simp_all add: send_stream_def stored_append)
  obtain top where top: "getTop sm m p = Some top" "packet_view m top = pkt"
    using getTop_frame [OF Cons.prems(1,2) st(1) fits] len by auto
  show ?case
  proof (cases pkts)
    case Nil
    then have "removeTop sm m p = Some (True, sm)"
      using removeTop_last [OF Cons.prems(1,2) st(1) fits] len by (simp add: send_stream_def)
    with top Nil show ?thesis by simp
  next
    case (Cons pkt2 pkts2)
    then have "16 \<le> length (send_stream pkts)"
      using length_send_frame_ge [of pkt2] by (simp add: send_stream_def)
    with len obtain sm' where sm': "removeTop sm m p = Some (False, sm')" "sm_inv sm'"
      "port_owner sm' = port_owner sm"
      "sd_sendBuffer (sock sm' t s) = sd_sendBuffer ?d + of_nat (length (send_frame pkt))"
      "unat (sd_sendBufferSize (sock sm' t s)) = unat (sd_sendBufferSize ?d) - length (send_frame pkt)"
      using removeTop_more [OF Cons.prems(1,2) st(1) fits] by auto
    have "\<exists>tops. drain_requests (length pkts) sm' m p = Some tops \<and> map (packet_view m) tops = pkts"
      using Cons.IH [OF sm'(2)] Cons.prems sm' st len Cons by simp
    with top sm'(1) show ?thesis by auto
  qed
qed simp

end
