(* ===== verification/Socket_Delivery.thy ===== *)
theory Socket_Delivery
  imports Socket_Transmission
begin

text \<open>
  \<open>SocketManager::handleReceivedPacket\<close>: what it writes to the receive buffer of the socket that
  owns the destination port, for every chain of fragments. A delivered packet is a frame (source
  IP, source port, payload length in little-endian order, the payload) followed by an all-zero header;
  a rejected one leaves the header bytes alone; nothing outside the buffer is ever written.
\<close>

abbreviation pool_ok :: "IPv4Packet list \<Rightarrow> nat list \<Rightarrow> bool" where
  "pool_ok pool is \<equiv> \<forall>i \<in> set is. packet_ok (pool ! i)"

subsection \<open>The copying loop\<close>

lemma fragment_step:
  assumes ok: "packet_ok (pool ! i)" and L: "unat (acc :: u16) \<le> unat (L :: u16)"
  shows "ucast acc + dataSize (pool ! i) > (ucast L :: u32) \<longleftrightarrow>
      unat L < unat acc + length (fragment_bytes pool i)"
    "unat acc + length (fragment_bytes pool i) \<le> unat L \<Longrightarrow>
       unat (acc + ucast (dataSize (pool ! i))) = unat acc + length (fragment_bytes pool i)"
proof -
  have d: "unat (dataSize (pool ! i)) \<le> 2048" "length (fragment_bytes pool i) = unat (dataSize (pool ! i))"
    using ok length_fragment_bytes [OF ok] by (auto simp: packet_ok_def)
  have "unat acc + unat (dataSize (pool ! i)) < 4294967296"
    using d unat_u16_lt [of acc] by linarith
  then show "ucast acc + dataSize (pool ! i) > (ucast L :: u32) \<longleftrightarrow>
      unat L < unat acc + length (fragment_bytes pool i)"
    by (simp add: word_less_nat_alt unat_add_no_wrap d)
  assume "unat acc + length (fragment_bytes pool i) \<le> unat L"
  with d have "unat acc + unat (dataSize (pool ! i)) < 65536" using unat_u16_lt [of L] by linarith
  with d show "unat (acc + ucast (dataSize (pool ! i))) = unat acc + length (fragment_bytes pool i)"
    by (simp add: unat_word_ariths unsigned_ucast_eq take_bit_nat_eq_self)
qed

lemma copyFragments_rest:
  assumes "seg (\<lambda>i. nextFragment (pool ! i)) cur is None" "packet \<notin> set is"
    "set is \<subseteq> {..<length pool}" "pool_ok pool is"
    "unat acc \<le> unat L" "length is < fuel"
  shows "if unat acc + length (datagram pool is) \<le> unat L
    then copyFragments fuel pool packet cur acc L buf m =
      Some (Copied (store_bytes m (buf + of_nat (unat acc)) (datagram pool is))
        (of_nat (unat acc + length (datagram pool is))))
    else \<exists>k. unat acc + k \<le> unat L \<and> k \<le> length (datagram pool is) \<and>
      copyFragments fuel pool packet cur acc L buf m =
      Some (Aborted (store_bytes m (buf + of_nat (unat acc)) (take k (datagram pool is))))"
  using assms
proof (induction "is" arbitrary: cur acc m fuel)
  case Nil
  then obtain f where "fuel = Suc f" by (cases fuel) auto
  with Nil show ?case by simp
next
  case (Cons i "is")
  then obtain f where f: "fuel = Suc f" "length is < f" by (cases fuel) auto
  let ?b = "fragment_bytes pool i" and ?n = "unat acc"
  have i: "i < length pool" "cur = Some i" "packet_ok (pool ! i)" "i \<noteq> packet"
    "seg (\<lambda>i. nextFragment (pool ! i)) (nextFragment (pool ! i)) is None"
    using Cons.prems by auto
  note fs = fragment_step [OF i(3) Cons.prems(5)]
  have lenb: "length ?b = unat (dataSize (pool ! i))" using length_fragment_bytes [OF i(3)] .
  have dat: "\<not> length (pData (pool ! i)) < unat (dataSize (pool ! i))"
    using i(3) by (simp add: packet_ok_def)
  show ?case
  proof (cases "?n + length ?b \<le> unat L")
    case False
    then have "copyFragments fuel pool packet cur acc L buf m = Some (Aborted m)"
      using f i fs(1) by simp
    moreover have "\<not> ?n + length (datagram pool (i # is)) \<le> unat L" using False by simp
    ultimately show ?thesis using Cons.prems(5) by (auto intro: exI [of _ 0])
  next
    case True
    let ?acc = "acc + ucast (dataSize (pool ! i))"
    let ?m = "store_bytes m (buf + of_nat ?n) ?b"
    have acc: "unat ?acc = ?n + length ?b" using fs(2) True by simp
    have addr: "buf + 8 + (ucast acc - 8) = buf + of_nat ?n" by simp
    have step: "copyFragments fuel pool packet cur acc L buf m =
        copyFragments f pool packet (nextFragment (pool ! i)) ?acc L buf ?m"
      using True f i fs(1) dat addr by (simp add: Let_def fragment_bytes_def)
    have app: "store_bytes ?m (buf + of_nat (unat ?acc)) bs = store_bytes m (buf + of_nat ?n) (?b @ bs)"
      if "unat ?acc + length bs \<le> unat L" for bs
    proof -
      have "length ?b + length bs \<le> 4294967296" using that acc unat_u16_lt [of L] by linarith
      from store_bytes_append [OF this, of m "buf + of_nat ?n"] show ?thesis
        by (simp add: acc add.assoc)
    qed
    have IH: "if unat ?acc + length (datagram pool is) \<le> unat L
      then copyFragments f pool packet (nextFragment (pool ! i)) ?acc L buf ?m =
        Some (Copied (store_bytes ?m (buf + of_nat (unat ?acc)) (datagram pool is))
          (of_nat (unat ?acc + length (datagram pool is))))
      else \<exists>k. unat ?acc + k \<le> unat L \<and> k \<le> length (datagram pool is) \<and>
        copyFragments f pool packet (nextFragment (pool ! i)) ?acc L buf ?m =
        Some (Aborted (store_bytes ?m (buf + of_nat (unat ?acc)) (take k (datagram pool is))))"
      using Cons.IH [OF i(5), of ?acc f ?m] Cons.prems True acc f by simp
    show ?thesis
    proof (cases "unat ?acc + length (datagram pool is) \<le> unat L")
      case True
      with IH step app show ?thesis by (simp add: acc add.assoc)
    next
      case False
      with IH obtain k where k: "unat ?acc + k \<le> unat L" "k \<le> length (datagram pool is)"
        "copyFragments f pool packet (nextFragment (pool ! i)) ?acc L buf ?m =
        Some (Aborted (store_bytes ?m (buf + of_nat (unat ?acc)) (take k (datagram pool is))))"
        by auto
      have "store_bytes ?m (buf + of_nat (unat ?acc)) (take k (datagram pool is)) =
          store_bytes m (buf + of_nat ?n) (take (length ?b + k) (datagram pool (i # is)))"
        using app [of "take k (datagram pool is)"] k by simp
      with k step False acc show ?thesis by (auto intro!: exI [of _ "length ?b + k"])
    qed
  qed
qed

lemma copyFragments_fits:
  assumes chain: "fragment_chain pool packet (packet # is)" and ok: "pool_ok pool (packet # is)"
    and hdr: "8 \<le> unat (dataSize (pool ! packet))"
  shows "if length (datagram pool (packet # is)) \<le> unat L
    then copyFragments (Suc (length pool)) pool packet (Some packet) 0 L buf m =
      Some (Copied (store_bytes m (buf + 8) (drop 8 (datagram pool (packet # is))))
        (of_nat (length (datagram pool (packet # is)))))
    else \<exists>k. 8 + k \<le> max 8 (unat L) \<and>
      copyFragments (Suc (length pool)) pool packet (Some packet) 0 L buf m =
      Some (Aborted (store_bytes m (buf + 8) (take k (drop 8 (datagram pool (packet # is))))))"
proof -
  let ?b = "fragment_bytes pool packet" and ?pk = "pool ! packet"
  have p: "packet < length pool" "packet_ok ?pk" "packet \<notin> set is" "set is \<subseteq> {..<length pool}"
    "seg (\<lambda>i. nextFragment (pool ! i)) (nextFragment ?pk) is None"
    and dist: "distinct (packet # is)"
    using chain ok by (auto simp: fragment_chain_def)
  have "length (packet # is) \<le> length pool"
    using dist card_mono [of "{..<length pool}" "set (packet # is)"] p distinct_card [OF dist] by simp
  then have fuel: "length is < length pool" by simp
  have lenb: "length ?b = unat (dataSize ?pk)" using length_fragment_bytes [OF p(2)] .
  have fs: "dataSize ?pk > (ucast L :: u32) \<longleftrightarrow> unat L < length ?b"
    "length ?b \<le> unat L \<Longrightarrow> unat (ucast (dataSize ?pk) :: u16) = length ?b"
    using fragment_step [OF p(2), of 0 L] by simp_all
  show ?thesis
  proof (cases "length ?b \<le> unat L")
    case False
    then have "copyFragments (Suc (length pool)) pool packet (Some packet) 0 L buf m = Some (Aborted m)"
      using p fs(1) by simp
    with False show ?thesis by (auto intro!: exI [of _ 0])
  next
    case True
    let ?acc = "ucast (dataSize ?pk) :: u16"
    let ?m = "store_bytes m (buf + 8) (drop 8 ?b)"
    have acc: "unat ?acc = length ?b" "8 \<le> length ?b" using True fs(2) hdr lenb by simp_all
    have step: "copyFragments (Suc (length pool)) pool packet (Some packet) 0 L buf m =
        copyFragments (length pool) pool packet (nextFragment ?pk) ?acc L buf ?m"
      using True p fs(1) by (simp add: Let_def fragment_bytes_def packet_ok_def)
    have base: "buf + 8 + of_nat (length (drop 8 ?b)) = buf + of_nat (unat ?acc)"
      using acc by (simp add: of_nat_diff)
    have app: "store_bytes ?m (buf + of_nat (unat ?acc)) bs = store_bytes m (buf + 8) (drop 8 ?b @ bs)"
      if "length ?b + length bs \<le> unat L" for bs
    proof -
      have "length (drop 8 ?b) + length bs \<le> 4294967296"
        using that unat_u16_lt [of L] by (simp del: unat_u16_lt)
      from store_bytes_append [OF this, of m "buf + 8"] show ?thesis unfolding base .
    qed
    have rest: "if unat ?acc + length (datagram pool is) \<le> unat L
      then copyFragments (length pool) pool packet (nextFragment ?pk) ?acc L buf ?m =
        Some (Copied (store_bytes ?m (buf + of_nat (unat ?acc)) (datagram pool is))
          (of_nat (unat ?acc + length (datagram pool is))))
      else \<exists>k. unat ?acc + k \<le> unat L \<and> k \<le> length (datagram pool is) \<and>
        copyFragments (length pool) pool packet (nextFragment ?pk) ?acc L buf ?m =
        Some (Aborted (store_bytes ?m (buf + of_nat (unat ?acc)) (take k (datagram pool is))))"
      by (rule copyFragments_rest [OF p(5,3,4) _ _ fuel]) (use True acc ok in simp_all)
    have drop8: "drop 8 (?b @ bs) = drop 8 ?b @ bs" for bs using acc by simp
    show ?thesis
    proof (cases "length ?b + length (datagram pool is) \<le> unat L")
      case True
      with rest step acc app [OF True] show ?thesis by (simp add: drop8)
    next
      case False
      with rest acc obtain k where k: "length ?b + k \<le> unat L" "k \<le> length (datagram pool is)"
        "copyFragments (length pool) pool packet (nextFragment ?pk) ?acc L buf ?m =
          Some (Aborted (store_bytes ?m (buf + of_nat (unat ?acc)) (take k (datagram pool is))))"
        by auto
      with step app [of "take k (datagram pool is)"] acc False show ?thesis
        by (auto simp: drop8 intro!: exI [of _ "length ?b - 8 + k"])
    qed
  qed
qed

subsection \<open>The packet as a whole\<close>

text \<open>The UDP header fields of a datagram.\<close>

definition udp_sourcePort :: "u8 list \<Rightarrow> u16" where
  "udp_sourcePort bs = u16_be (bs ! 0) (bs ! 1)"

definition udp_destinationPort :: "u8 list \<Rightarrow> u16" where
  "udp_destinationPort bs = u16_be (bs ! 2) (bs ! 3)"

definition udp_length :: "u8 list \<Rightarrow> u16" where
  "udp_length bs = u16_be (bs ! 4) (bs ! 5)"

definition receive_frame :: "u32 \<Rightarrow> u16 \<Rightarrow> u8 list \<Rightarrow> u8 list" where
  "receive_frame ip prt payload = le32 ip @ le16 prt @ le16 (of_nat (length payload)) @ payload"

text \<open>A UDP packet in the pool: a well-formed chain of fragments of protocol 17 whose first fragment
  holds the UDP header.\<close>

definition udp_packet :: "IPv4Packet list \<Rightarrow> nat \<Rightarrow> nat list \<Rightarrow> bool" where
  "udp_packet pool packet is \<longleftrightarrow>
     fragment_chain pool packet (packet # is) \<and> pool_ok pool (packet # is) \<and>
     protocol (pool ! packet) = 17 \<and> 8 \<le> unat (dataSize (pool ! packet))"

lemma udp_packet_header:
  assumes "udp_packet pool packet is" and "k < 8"
  shows "arr_get (pData (pool ! packet)) k = Some (datagram pool (packet # is) ! k)"
  using assms
  by (auto simp: udp_packet_def packet_ok_def fragment_bytes_def nth_append)

lemma udp_packet_length: "udp_packet pool packet is \<Longrightarrow> 8 \<le> length (datagram pool (packet # is))"
  by (simp add: udp_packet_def length_fragment_bytes)

lemma udp_packet_pool: "udp_packet pool packet is \<Longrightarrow> packet < length pool"
  by (simp add: udp_packet_def fragment_chain_def)

text \<open>The function with its guards passed: what is left is the buffer check, the copying loop and
  the header.\<close>

lemma handleReceivedPacket_guarded:
  assumes udp: "udp_packet pool packet is" and inv: "sm_inv sm" and D: "D = datagram pool (packet # is)"
    and own: "port_owner sm (unat (udp_destinationPort D)) = Some (t, s)"
    and L: "L = udp_length D" and d: "d = sock sm t s"
  shows "handleReceivedPacket sm m pool packet =
    (if unat (sd_receiveBufferSize d) < unat L + 8 then Some (sm, m)
     else case copyFragments (Suc (length pool)) pool packet (Some packet) 0 L (sd_receiveBuffer d) m of
       None \<Rightarrow> None
     | Some (Aborted m) \<Rightarrow> Some (sm, m)
     | Some (Copied m accumulated) \<Rightarrow>
         if accumulated \<noteq> L then Some (sm, m)
         else Some (put_sock sm t s
             (d\<lparr>sd_receiveBuffer := sd_receiveBuffer d + ucast L,
                sd_receiveBufferSize := sd_receiveBufferSize d - ucast L\<rparr>),
           store_bytes (store_bytes m (sd_receiveBuffer d)
               (le32 (sourceIP (pool ! packet)) @ le16 (udp_sourcePort D) @ le16 (L - 8)))
             (sd_receiveBuffer d + ucast L) (replicate 8 0)))"
proof -
  let ?q = "udp_destinationPort D"
  let ?st = "port sm (unat ?q)"
  note hd = udp_packet_header [OF udp, folded D]
  have shape: "sm_shape sm" using sm_invD(1) [OF inv] .
  have o: "unat ?q < 9000" "ps_isActive ?st = 1" "unat (ps_taskID ?st) = t" "unat (ps_socketID ?st) = s"
    using own by (auto simp: port_owner_def split: if_splits)
  have ts: "t < 50" "s < 10" using port_owner_Some [OF inv own] by auto
  have bytes: "arr_get (pData (pool ! packet)) 0 = Some (D ! 0)"
    "arr_get (pData (pool ! packet)) (Suc 0) = Some (D ! Suc 0)"
    "arr_get (pData (pool ! packet)) 2 = Some (D ! 2)" "arr_get (pData (pool ! packet)) 3 = Some (D ! 3)"
    "arr_get (pData (pool ! packet)) 4 = Some (D ! 4)" "arr_get (pData (pool ! packet)) 5 = Some (D ! 5)"
    using hd [of 0] hd [of 1] hd [of 2] hd [of 3] hd [of 4] hd [of 5] by simp_all
  have st: "arr_get (udpPortStates sm) (unat ?q) = Some ?st"
    using o shape by (simp add: sm_shape_def port_def)
  have q: "u16_be (D ! 2) (D ! 3) = ?q" "u16_be (D ! 4) (D ! 5) = L"
    "u16_be (D ! 0) (D ! Suc 0) = udp_sourcePort D"
    by (simp_all add: udp_destinationPort_def L udp_length_def udp_sourcePort_def)
  have "unat L + 8 < 4294967296" using unat_u16_lt [of L] by linarith
  then have "unat (ucast L + 8 :: u32) = unat L + 8" by (simp add: unat_add_no_wrap)
  then have size: "x < 8 + ucast L \<longleftrightarrow> unat x < unat L + 8" for x :: u32
    by (simp add: word_less_nat_alt add.commute)
  have guards: "protocol (pool ! packet) = 17" "\<not> dataSize (pool ! packet) < 8" "packet < length pool"
    using udp udp_packet_pool [OF udp] by (simp_all add: udp_packet_def word_less_nat_alt)
  have hdr: "le32 ip @ le16 prt @ le16 (L - 8) = [byte_at 0 ip, byte_at 1 ip, byte_at 2 ip, byte_at 3 ip,
      byte_at 0 prt, byte_at 1 prt, byte_at 0 (ucast L - 8 :: u32), byte_at 1 (ucast L - 8 :: u32)]"
    for ip prt
    using le16_low [of "ucast L - 8 :: u32"] unfolding low16_sub by (simp add: le32_def le16_def)
  show ?thesis
    using guards bytes st o ts shape d
    by (simp add: handleReceivedPacket_def q size get_socket_in set_socket_in Let_def hdr
        del: copyFragments.simps split: option.splits copy_result.splits)
qed

lemma handleReceivedPacket_delivered:
  assumes udp: "udp_packet pool packet is" and inv: "sm_inv sm"
    and D: "D = datagram pool (packet # is)"
    and own: "port_owner sm (unat (udp_destinationPort D)) = Some (t, s)"
    and whole: "length D = unat (udp_length D)"
    and room: "length D + 8 \<le> unat (sd_receiveBufferSize (sock sm t s))"
    and d': "d' = (sock sm t s)
      \<lparr>sd_receiveBuffer := sd_receiveBuffer (sock sm t s) + of_nat (length D),
       sd_receiveBufferSize := sd_receiveBufferSize (sock sm t s) - of_nat (length D)\<rparr>"
  shows "handleReceivedPacket sm m pool packet = Some (put_sock sm t s d',
    store_bytes m (sd_receiveBuffer (sock sm t s))
      (receive_frame (sourceIP (pool ! packet)) (udp_sourcePort D) (drop 8 D) @ replicate 8 0))"
proof -
  let ?L = "udp_length D" and ?d = "sock sm t s" and ?a = "sd_receiveBuffer (sock sm t s)"
  let ?h = "le32 (sourceIP (pool ! packet)) @ le16 (udp_sourcePort D) @ le16 (?L - 8)"
  have len: "8 \<le> length D" using udp_packet_length [OF udp] by (simp add: D)
  have lt: "length D < 65536" using whole unat_u16_lt [of ?L] by simp
  have cp: "copyFragments (Suc (length pool)) pool packet (Some packet) 0 ?L ?a m =
      Some (Copied (store_bytes m (?a + 8) (drop 8 D)) ?L)"
    using copyFragments_fits [of pool packet "is" ?L ?a m] udp whole
    by (simp add: udp_packet_def D [symmetric] del: datagram_Cons copyFragments.simps)
  have "store_bytes (store_bytes m (?a + of_nat (length ?h)) (drop 8 D)) ?a ?h =
      store_bytes m ?a (?h @ drop 8 D)"
    by (rule store_bytes_append_rev) (use lt in simp)
  then have m1: "store_bytes (store_bytes m (?a + 8) (drop 8 D)) ?a ?h = store_bytes m ?a (?h @ drop 8 D)"
    by simp
  have "length (?h @ drop 8 D) = length D" using len by simp
  then have m2: "store_bytes (store_bytes m ?a (?h @ drop 8 D)) (?a + of_nat (length D)) (replicate 8 0) =
      store_bytes m ?a ((?h @ drop 8 D) @ replicate 8 0)"
    using store_bytes_append [of "?h @ drop 8 D" "replicate 8 0" m ?a] lt by simp
  have frame: "receive_frame (sourceIP (pool ! packet)) (udp_sourcePort D) (drop 8 D) = ?h @ drop 8 D"
    using whole len by (simp add: receive_frame_def)
  have "\<not> unat (sd_receiveBufferSize ?d) < unat ?L + 8" using room whole by simp
  moreover have "ucast ?L = (of_nat (length D) :: u32)" using whole by simp
  ultimately show ?thesis
    using handleReceivedPacket_guarded [OF udp inv D own refl refl, of m] cp m1 m2 frame
    by (simp add: d' del: copyFragments.simps)
qed

text \<open>A packet that does not fill its length field exactly, or that the buffer has no room for, leaves
  the state and the first eight bytes of the buffer, where the task looks for the next packet, as
  they were.\<close>

lemma handleReceivedPacket_rejected:
  assumes udp: "udp_packet pool packet is" and inv: "sm_inv sm"
    and D: "D = datagram pool (packet # is)"
    and own: "port_owner sm (unat (udp_destinationPort D)) = Some (t, s)"
    and no: "length D \<noteq> unat (udp_length D) \<or> unat (sd_receiveBufferSize (sock sm t s)) < length D + 8"
  obtains m' where "handleReceivedPacket sm m pool packet = Some (sm, m')"
    "\<And>x. m' x \<noteq> m x \<Longrightarrow> 8 \<le> unat (x - sd_receiveBuffer (sock sm t s)) \<and>
      unat (x - sd_receiveBuffer (sock sm t s)) + 8 < unat (sd_receiveBufferSize (sock sm t s))"
proof -
  let ?L = "udp_length D" and ?d = "sock sm t s" and ?a = "sd_receiveBuffer (sock sm t s)"
  note g = handleReceivedPacket_guarded [OF udp inv D own refl refl, of m]
  have lt: "unat ?L < 65536" by simp
  have len: "8 \<le> length D" using udp_packet_length [OF udp] by (simp add: D)
  show thesis
  proof (cases "unat (sd_receiveBufferSize ?d) < unat ?L + 8")
    case True
    with g show ?thesis by (intro that [of m]) simp_all
  next
    case room: False
    have within: "8 \<le> unat (x - ?a) \<and> unat (x - ?a) + 8 < unat (sd_receiveBufferSize ?d)"
      if "store_bytes m (?a + 8) bs x \<noteq> m x" "8 + length bs \<le> max 8 (unat ?L)" for x bs
    proof -
      have bs: "8 + length bs \<le> unat ?L" using that by (cases bs) auto
      with store_bytes_changes [of m ?a 8 bs x] that(1) lt room show ?thesis by simp
    qed
    show ?thesis
    proof (cases "length D \<le> unat ?L")
      case True
      have "length D \<noteq> unat ?L" using no room by auto
      moreover have "length D < 65536" using True lt by linarith
      then have "unat (of_nat (length D) :: u16) = length D" by simp
      ultimately have "of_nat (length D) \<noteq> ?L" by auto
      with g room True copyFragments_fits [of pool packet "is" ?L ?a m] udp
      have "handleReceivedPacket sm m pool packet = Some (sm, store_bytes m (?a + 8) (drop 8 D))"
        by (simp add: udp_packet_def D [symmetric] del: datagram_Cons copyFragments.simps)
      with within [of "drop 8 D"] True len show ?thesis by (intro that) auto
    next
      case False
      with copyFragments_fits [of pool packet "is" ?L ?a m] udp
      obtain k where k: "8 + k \<le> max 8 (unat ?L)"
        "copyFragments (Suc (length pool)) pool packet (Some packet) 0 ?L ?a m =
          Some (Aborted (store_bytes m (?a + 8) (take k (drop 8 D))))"
        by (auto simp: udp_packet_def D [symmetric] simp del: datagram_Cons copyFragments.simps)
      then have "handleReceivedPacket sm m pool packet =
          Some (sm, store_bytes m (?a + 8) (take k (drop 8 D)))"
        using g room by (simp del: copyFragments.simps)
      with within [of "take k (drop 8 D)"] k(1) show ?thesis by (intro that) auto
    qed
  qed
qed

lemma handleReceivedPacket_unowned:
  assumes udp: "udp_packet pool packet is" and inv: "sm_inv sm"
    and D: "D = datagram pool (packet # is)" and q: "unat (udp_destinationPort D) < 9000"
    and own: "port_owner sm (unat (udp_destinationPort D)) = None"
  shows "handleReceivedPacket sm m pool packet = Some (sm, m)"
proof -
  have "ps_isActive (port sm (unat (udp_destinationPort D))) = 0"
    using own q ports_agree_portD(1) [OF sm_invD(2) [OF inv] q]
    by (auto simp: port_owner_def split: if_splits)
  then show ?thesis
    using udp udp_packet_pool [OF udp] udp_packet_header [OF udp, of 2] udp_packet_header [OF udp, of 3]
      sm_invD(1) [OF inv] q
    by (simp add: handleReceivedPacket_def D [symmetric] udp_packet_def word_less_nat_alt Let_def
        udp_destinationPort_def sm_shape_def port_def del: datagram_Cons)
qed

text \<open>The port table has 9000 entries but the port of a packet has sixteen bits.\<close>

lemma handleReceivedPacket_faults:
  assumes udp: "udp_packet pool packet is" and inv: "sm_inv sm"
    and D: "D = datagram pool (packet # is)" and q: "9000 \<le> unat (udp_destinationPort D)"
  shows "handleReceivedPacket sm m pool packet = None"
  using udp udp_packet_pool [OF udp] udp_packet_header [OF udp, of 2] udp_packet_header [OF udp, of 3]
    sm_invD(1) [OF inv] q
  by (simp add: handleReceivedPacket_def D [symmetric] udp_packet_def word_less_nat_alt Let_def
      udp_destinationPort_def sm_shape_def arr_get_def [of "udpPortStates sm"] del: datagram_Cons)

subsection \<open>The receive buffer as a stream of packets\<close>

definition receive_stream :: "(u32 \<times> u16 \<times> u8 list) list \<Rightarrow> u8 list" where
  "receive_stream pkts = concat (map (\<lambda>(ip, prt, payload). receive_frame ip prt payload) pkts)"

text \<open>The buffer that starts at \<open>base\<close> holds the packets \<open>pkts\<close> and the socket writes behind them.\<close>

definition received :: "SocketManager \<Rightarrow> memory \<Rightarrow> nat \<Rightarrow> nat \<Rightarrow> u32 \<Rightarrow> (u32 \<times> u16 \<times> u8 list) list \<Rightarrow> bool"
  where
  "received sm m t s base pkts \<longleftrightarrow>
     stored m base (receive_stream pkts) \<and>
     sd_receiveBuffer (sock sm t s) = base + of_nat (length (receive_stream pkts)) \<and>
     length (receive_stream pkts) + unat (sd_receiveBufferSize (sock sm t s)) \<le> 4294967296"

lemma length_receive_frame: "length (receive_frame ip prt payload) = 8 + length payload"
  by (simp add: receive_frame_def)

lemma received_delivered:
  assumes udp: "udp_packet pool packet is" and inv: "sm_inv sm"
    and D: "D = datagram pool (packet # is)"
    and own: "port_owner sm (unat (udp_destinationPort D)) = Some (t, s)"
    and whole: "length D = unat (udp_length D)"
    and room: "length D + 8 \<le> unat (sd_receiveBufferSize (sock sm t s))"
    and rec: "received sm m t s base pkts"
  obtains sm' m' where "handleReceivedPacket sm m pool packet = Some (sm', m')" "sm_inv sm'"
    "port_owner sm' = port_owner sm"
    "received sm' m' t s base (pkts @ [(sourceIP (pool ! packet), udp_sourcePort D, drop 8 D)])"
    "stored m' (sd_receiveBuffer (sock sm' t s)) (replicate 8 0)"
    "unat (sd_receiveBufferSize (sock sm' t s)) = unat (sd_receiveBufferSize (sock sm t s)) - length D"
proof -
  let ?d = "sock sm t s"
  let ?d' = "?d\<lparr>sd_receiveBuffer := sd_receiveBuffer ?d + of_nat (length D),
       sd_receiveBufferSize := sd_receiveBufferSize ?d - of_nat (length D)\<rparr>"
  let ?f = "receive_frame (sourceIP (pool ! packet)) (udp_sourcePort D) (drop 8 D)"
  let ?m' = "store_bytes m (sd_receiveBuffer ?d) (?f @ replicate 8 0)"
  let ?xs = "receive_stream pkts"
  let ?pkts = "pkts @ [(sourceIP (pool ! packet), udp_sourcePort D, drop 8 D)]"
  note op = handleReceivedPacket_delivered [OF udp inv D own whole room refl, of m]
  note ts = port_owner_Some(2,3) [OF inv own] and shape = sm_invD(1) [OF inv]
  have len: "length ?f = length D"
    using udp_packet_length [OF udp] by (simp add: D [symmetric] length_receive_frame del: datagram_Cons)
  have Dsmall: "length D < 65536" using whole unat_u16_lt [of "udp_length D"] by simp
  have total: "length ?xs + length (?f @ replicate 8 0) \<le> 4294967296"
    using rec room len by (simp add: received_def)
  have all: "stored ?m' base (?xs @ ?f @ replicate 8 0)"
    using stored_extend [OF _ total, of m base] rec by (simp add: received_def)
  have buf: "sd_receiveBuffer ?d + of_nat (length D) = base + of_nat (length (?xs @ ?f))"
    using rec len by (simp add: received_def)
  have stream: "receive_stream ?pkts = ?xs @ ?f" by (simp add: receive_stream_def)
  have size: "unat (sd_receiveBufferSize ?d - of_nat (length D)) =
      unat (sd_receiveBufferSize ?d) - length D"
    using room Dsmall by (simp add: unat_sub_no_wrap unat_of_nat_u32)
  have sock': "sock (put_sock sm t s ?d') t s = ?d'" using shape ts by simp
  have "received (put_sock sm t s ?d') ?m' t s base ?pkts"
    using all buf rec size room len sock' stream
    by (simp add: received_def stored_append)
  moreover have "stored ?m' (sd_receiveBuffer (sock (put_sock sm t s ?d') t s)) (replicate 8 0)"
    using all buf sock' by (simp add: stored_append add.assoc)
  ultimately show thesis
    using that [OF op] sm_inv_put_modify [OF inv ts, of ?d'] size sock' by simp
qed

text \<open>The effect of any packet to a port in range on memory.\<close>

lemma handleReceivedPacket_safe:
  assumes "udp_packet pool packet is" "sm_inv sm" "D = datagram pool (packet # is)"
    and "unat (udp_destinationPort D) < 9000"
  shows "\<exists>sm' m'. handleReceivedPacket sm m pool packet = Some (sm', m') \<and> sm_inv sm' \<and>
    port_owner sm' = port_owner sm \<and>
    (\<forall>x. m' x = m x \<or> (\<exists>t s. port_owner sm (unat (udp_destinationPort D)) = Some (t, s) \<and>
       unat (x - sd_receiveBuffer (sock sm t s)) < unat (sd_receiveBufferSize (sock sm t s)) \<and>
       (8 \<le> unat (x - sd_receiveBuffer (sock sm t s)) \<or> length D = unat (udp_length D))))"
proof (cases "port_owner sm (unat (udp_destinationPort D))")
  case None
  then show ?thesis using handleReceivedPacket_unowned [OF assms(1-4)] assms(2) by auto
next
  case (Some ts)
  obtain t s where ts: "ts = (t, s)" by (cases ts)
  let ?d = "sock sm t s"
  show ?thesis
  proof (cases "length D = unat (udp_length D) \<and> length D + 8 \<le> unat (sd_receiveBufferSize ?d)")
    case True
    let ?bs = "receive_frame (sourceIP (pool ! packet)) (udp_sourcePort D) (drop 8 D) @ replicate 8 0"
    note op = handleReceivedPacket_delivered [OF assms(1-3) _ _ _ refl, of t s m]
    have len: "length ?bs = length D + 8"
      using udp_packet_length [OF assms(1)] by (simp add: assms(3) length_receive_frame)
    have "unat (x - sd_receiveBuffer ?d) < unat (sd_receiveBufferSize ?d)"
      if "store_bytes m (sd_receiveBuffer ?d) ?bs x \<noteq> m x" for x
      using that len True by (auto simp: store_bytes_def Let_def split: if_splits)
    with op True Some ts sm_inv_put_modify [OF assms(2) port_owner_Some(2,3) [OF assms(2) Some [unfolded ts]]]
    show ?thesis by auto
  next
    case False
    obtain m' where "handleReceivedPacket sm m pool packet = Some (sm, m')"
      "\<And>x. m' x \<noteq> m x \<Longrightarrow> 8 \<le> unat (x - sd_receiveBuffer ?d) \<and>
        unat (x - sd_receiveBuffer ?d) + 8 < unat (sd_receiveBufferSize ?d)"
      by (rule handleReceivedPacket_rejected [OF assms(1-3) Some [unfolded ts], of m]) (use False that in auto)
    with Some ts assms(2) show ?thesis by fastforce
  qed
qed

end
