(* ===== verification/Paging.thy ===== *)
theory Paging
  imports Kernel_Types
begin

text \<open>
  \<open>paging/paging.h\<close>, \<open>paging.cpp\<close>, \<open>paging_structures.cpp\<close> and
  \<open>cpu_core/current_paging_structure.cpp\<close>: page directories and page tables as arrays of 32-bit
  entries, the encoding of entries, and the translation of virtual addresses. \<open>mmu_walk\<close> is the
  two-level page walk of the 32-bit processor over physical memory; the software translation goes
  through the recursive mapping that entry 1023 of every page directory sets up.

  \<open>getPDE\<close> and \<open>getPTE\<close> return a local struct that stays uninitialised when the index is out of
  the range they check: that value is \<^const>\<open>None\<close>.
\<close>

subsection \<open>Entries\<close>

record PDE =
  pageTablePhysicalAddr :: u32
  pde_kernelPrivilegeOnly :: bool
  pdeIsValid :: bool

record PTE =
  pagePhysicalAddr :: u32
  pte_kernelPrivilegeOnly :: bool
  pteIsValid :: bool

record PageDirectory =
  pageDirectoryEntries :: "u32 list"
  helperTableEntries :: "u32 list"

type_synonym PageTable = "u32 list"

definition flag_bits :: "bool \<Rightarrow> bool \<Rightarrow> u32" where
  "flag_bits kernelOnly valid =
     push_bit 2 (if kernelOnly then 0 else 1) + push_bit 1 1 + (if valid then 1 else 0)"

definition changePDE :: "PageDirectory \<Rightarrow> u32 \<Rightarrow> PDE \<Rightarrow> PageDirectory" where
  "changePDE pd pdeIndex newPDE =
     (if 1023 \<le> pdeIndex then pd
      else if pageTablePhysicalAddr newPDE AND 0xFFF \<noteq> 0 then pd
      else let bits = pageTablePhysicalAddr newPDE OR
                 flag_bits (pde_kernelPrivilegeOnly newPDE) (pdeIsValid newPDE)
           in pd\<lparr>pageDirectoryEntries := (pageDirectoryEntries pd)[unat pdeIndex := bits],
                 helperTableEntries := (helperTableEntries pd)[unat pdeIndex := bits]\<rparr>)"

definition decode_PDE :: "u32 \<Rightarrow> PDE" where
  "decode_PDE bits = \<lparr>pageTablePhysicalAddr = bits AND 0xFFFFF000,
     pde_kernelPrivilegeOnly = (bits AND 4 = 0), pdeIsValid = (bits AND 1 \<noteq> 0)\<rparr>"

definition getPDE :: "PageDirectory \<Rightarrow> u32 \<Rightarrow> PDE option" where
  "getPDE pd pdeIndex =
     (if 1023 \<le> pdeIndex then None
      else do { bits \<leftarrow> arr_get (pageDirectoryEntries pd) (unat pdeIndex); Some (decode_PDE bits) })"

definition PageTable_new :: PageTable where
  "PageTable_new = replicate 1024 2"

definition changePTE :: "PageTable \<Rightarrow> u32 \<Rightarrow> PTE \<Rightarrow> PageTable" where
  "changePTE pt pteIndex newPTE =
     (if 1024 \<le> pteIndex then pt
      else if pagePhysicalAddr newPTE AND 0xFFF \<noteq> 0 then pt
      else pt[unat pteIndex := pagePhysicalAddr newPTE OR
             flag_bits (pte_kernelPrivilegeOnly newPTE) (pteIsValid newPTE)])"

definition decode_PTE :: "u32 \<Rightarrow> PTE" where
  "decode_PTE bits = \<lparr>pagePhysicalAddr = bits AND 0xFFFFF000,
     pte_kernelPrivilegeOnly = (bits AND 4 = 0), pteIsValid = (bits AND 1 \<noteq> 0)\<rparr>"

definition getPTE :: "PageTable \<Rightarrow> u32 \<Rightarrow> PTE option" where
  "getPTE pt pteIndex =
     (if 1023 \<le> pteIndex then None
      else do { bits \<leftarrow> arr_get pt (unat pteIndex); Some (decode_PTE bits) })"

definition PageDirectory_new :: "u32 \<Rightarrow> PageDirectory" where
  "PageDirectory_new physicalPageDirectoryAddr =
     (let last = (physicalPageDirectoryAddr + 0x1000) OR 3 in
      \<lparr>pageDirectoryEntries = replicate 1023 2 @ [last],
       helperTableEntries = replicate 1023 2 @ [last]\<rparr>)"

subsection \<open>Address translation\<close>

definition pd_index :: "u32 \<Rightarrow> u32" where
  "pd_index va = drop_bit 22 (va AND 0xFFC00000)"

definition pt_index :: "u32 \<Rightarrow> u32" where
  "pt_index va = drop_bit 12 (va AND 0x003FF000)"

definition page_offset :: "u32 \<Rightarrow> u32" where
  "page_offset va = va AND 0xFFF"

text \<open>The page walk of the processor: physical memory \<open>pm\<close> is read one 32-bit word at a time.\<close>

definition mmu_walk :: "(u32 \<Rightarrow> u32) \<Rightarrow> u32 \<Rightarrow> u32 \<Rightarrow> u32 option" where
  "mmu_walk pm cr3 va =
     (let pde = pm ((cr3 AND 0xFFFFF000) + 4 * pd_index va) in
      if pde AND 1 = 0 then None
      else let pte = pm ((pde AND 0xFFFFF000) + 4 * pt_index va) in
      if pte AND 1 = 0 then None
      else Some ((pte AND 0xFFFFF000) + page_offset va))"

definition mmu_read :: "(u32 \<Rightarrow> u32) \<Rightarrow> u32 \<Rightarrow> u32 \<Rightarrow> u32 option" where
  "mmu_read pm cr3 va = map_option pm (mmu_walk pm cr3 va)"

text \<open>The software translation. It reads entry \<open>pageTableIndex\<close> of the page table that the recursive
  mapping shows at \<open>0xFFC00000 + pageDirectoryIndex * 0x1000\<close>; the \<open>getPTE\<close> it calls leaves its
  result undefined for index 1023.\<close>

definition translateVirtualToPhysicalAddress ::
  "u32 \<Rightarrow> (u32 \<Rightarrow> u32 option) \<Rightarrow> u32 \<Rightarrow> u32 option" where
  "translateVirtualToPhysicalAddress cr0 vread va =
     (if cr0 AND 0x80000000 = 0 then Some va
      else
        let table = 0xFFC00000 + pd_index va * 0x1000 in
        if 1023 \<le> pt_index va then None
        else do {
          bits \<leftarrow> vread (table + 4 * pt_index va);
          Some (pagePhysicalAddr (decode_PTE bits) + page_offset va)
        })"

text \<open>\<open>CurrentPagingStructure\<close>: the same window, read for single entries.\<close>

definition CurrentPagingStructure_getPDE :: "(u32 \<Rightarrow> u32 option) \<Rightarrow> u32 \<Rightarrow> PDE option" where
  "CurrentPagingStructure_getPDE vread pdeIndex =
     (if 1023 \<le> pdeIndex then None
      else do {
        bits \<leftarrow> vread (0xFFFFF000 + 4 * pdeIndex);
        let helperPTE = decode_PTE bits in
        Some \<lparr>pageTablePhysicalAddr = pagePhysicalAddr helperPTE,
              pde_kernelPrivilegeOnly = pte_kernelPrivilegeOnly helperPTE,
              pdeIsValid = pteIsValid helperPTE\<rparr> })"

definition CurrentPagingStructure_getPTE :: "(u32 \<Rightarrow> u32 option) \<Rightarrow> u32 \<Rightarrow> u32 \<Rightarrow> PTE option" where
  "CurrentPagingStructure_getPTE vread pdeIndex pteIndex =
     (if 1023 \<le> pteIndex then None
      else do {
        bits \<leftarrow> vread ((0xFFC00000 + pdeIndex * 0x1000) + 4 * pteIndex);
        Some (decode_PTE bits) })"

subsection \<open>The kernel's own structures\<close>

text \<open>\<open>PagingStructures\<close>: one directory and 1023 tables laid out behind each other from the address
  of the object, mapping every page below \<open>LAST_ACCESSIBLE_ADDRESS\<close> to itself.\<close>

record PagingStructures =
  pageDirectory :: PageDirectory
  pageTables :: "PageTable list"

definition page_table_addr :: "u32 \<Rightarrow> nat \<Rightarrow> u32" where
  "page_table_addr base i = base + 8192 + of_nat i * 4096"

definition identity_table :: "nat \<Rightarrow> PageTable" where
  "identity_table i =
     fold (\<lambda>j pt. changePTE pt (of_nat j)
             \<lparr>pagePhysicalAddr = of_nat i * (0x1000 * 1024) + of_nat j * 0x1000,
              pte_kernelPrivilegeOnly = True, pteIsValid = True\<rparr>)
       [0..<1024] PageTable_new"

definition PagingStructures_new :: "u32 \<Rightarrow> PagingStructures" where
  "PagingStructures_new base =
     \<lparr>pageDirectory =
        fold (\<lambda>i pd. changePDE pd (of_nat i)
                \<lparr>pageTablePhysicalAddr = page_table_addr base i,
                 pde_kernelPrivilegeOnly = True, pdeIsValid = True\<rparr>)
          [0..<1023] (PageDirectory_new base),
      pageTables = map identity_table [0..<1023]\<rparr>"

definition getPageTable :: "PagingStructures \<Rightarrow> nat \<Rightarrow> PageTable option" where
  "getPageTable ps i = (if i < 1023 then Some (pageTables ps ! i) else None)"

subsection \<open>Encoding and decoding of entries\<close>

lemma flag_bits_cases:
  "flag_bits True True = 3" "flag_bits True False = 2" "flag_bits False True = 7" "flag_bits False False = 6"
  by (simp_all add: flag_bits_def push_bit_eq_mult)

lemma and_FFF: "(a :: u32) AND 0xFFF = take_bit 12 a"
proof -
  have "(0xFFF :: u32) = mask 12" by (simp add: mask_eq_exp_minus_1)
  then show ?thesis by (simp add: take_bit_eq_mask)
qed

lemma and_FFFFF000: "(a :: u32) AND 0xFFFFF000 = push_bit 12 (drop_bit 12 a)"
proof -
  have "(0xFFFFF000 :: u32) = NOT (mask 12)" by (simp add: mask_eq_exp_minus_1)
  then show ?thesis by (auto simp: bit_eq_iff bit_simps)
qed

lemma pd_index_drop: "pd_index va = drop_bit 22 va"
proof -
  have "(0xFFC00000 :: u32) = NOT (mask 22)" by (simp add: mask_eq_exp_minus_1)
  moreover have "drop_bit 22 (va AND NOT (mask 22)) = drop_bit 22 va"
    by (auto simp: bit_eq_iff bit_simps dest: bit_imp_le_length)
  ultimately show ?thesis by (simp only: pd_index_def)
qed

lemma pt_index_take: "pt_index va = take_bit 10 (drop_bit 12 va)"
proof -
  have "(0x003FF000 :: u32) = push_bit 12 (mask 10)" by (simp add: mask_eq_exp_minus_1)
  moreover have "drop_bit 12 (va AND push_bit 12 (mask 10)) = take_bit 10 (drop_bit 12 va)"
    by (auto simp: bit_eq_iff bit_simps)
  ultimately show ?thesis by (simp only: pt_index_def)
qed

lemma unat_indices:
  "unat (pd_index va) = unat va div 4194304" "unat (pt_index va) = unat va div 4096 mod 1024"
  "unat (page_offset va) = unat va mod 4096"
  by (simp_all add: pd_index_drop pt_index_take page_offset_def and_FFF unsigned_take_bit_eq
      unsigned_drop_bit_eq) (simp_all add: take_bit_eq_mod drop_bit_eq_div)

lemma aligned_high: "take_bit 12 (a :: u32) = 0 \<Longrightarrow> push_bit 12 (drop_bit 12 a) = a"
  using bits_ident [of 12 a] by simp

lemma aligned_and: "take_bit 12 (a :: u32) = 0 \<Longrightarrow> w AND 0xFFF = w \<Longrightarrow> a AND w = 0"
proof -
  assume a: "take_bit 12 a = 0" and w: "w AND 0xFFF = w"
  have "a AND (w AND 0xFFF) = (a AND 0xFFF) AND w" by (simp only: and.assoc and.commute and.left_commute)
  also have "\<dots> = 0" by (simp add: and_FFF a)
  finally show "a AND w = 0" by (simp only: w)
qed

lemma entry_fields:
  assumes "take_bit 12 (a :: u32) = 0"
  shows "(a OR flag_bits k v) AND 0xFFFFF000 = a" "((a OR flag_bits k v) AND 4 = 0) = k"
    "((a OR flag_bits k v) AND 1 \<noteq> 0) = v"
proof -
  have bits: "a AND 4 = 0" "a AND 1 = 0" using aligned_and [OF assms] by simp_all
  show "(a OR flag_bits k v) AND 0xFFFFF000 = a"
    using aligned_high [OF assms]
    by (cases k; cases v) (simp_all add: flag_bits_cases and_FFFFF000 bit.conj_disj_distrib2)
  show "((a OR flag_bits k v) AND 4 = 0) = k" "((a OR flag_bits k v) AND 1 \<noteq> 0) = v"
    by (cases k; cases v; simp add: flag_bits_cases bit.conj_disj_distrib2 bits)+
qed

lemma decode_encode:
  assumes "take_bit 12 (a :: u32) = 0"
  shows "decode_PTE (a OR flag_bits k v) =
      \<lparr>pagePhysicalAddr = a, pte_kernelPrivilegeOnly = k, pteIsValid = v\<rparr>"
    "decode_PDE (a OR flag_bits k v) =
      \<lparr>pageTablePhysicalAddr = a, pde_kernelPrivilegeOnly = k, pdeIsValid = v\<rparr>"
  using entry_fields [OF assms] by (simp_all add: decode_PTE_def decode_PDE_def)

definition pd_wf :: "PageDirectory \<Rightarrow> bool" where
  "pd_wf pd \<longleftrightarrow> length (pageDirectoryEntries pd) = 1024 \<and>
     helperTableEntries pd = pageDirectoryEntries pd"

lemma getPTE_changePTE:
  assumes "length pt = 1024" "pagePhysicalAddr e AND 0xFFF = 0" "i < 1023"
  shows "getPTE (changePTE pt i e) j = (if i = j then Some e else getPTE pt j)"
  using assms decode_encode(1) [of "pagePhysicalAddr e"]
  by (auto simp: getPTE_def changePTE_def and_FFF word_less_nat_alt word_le_nat_alt nth_list_update
      word_unat_eq_iff arr_get_def)

lemma changePTE_length [simp]: "length (changePTE pt i e) = length pt"
  by (simp add: changePTE_def)

lemma changePDE_wf: "pd_wf pd \<Longrightarrow> pd_wf (changePDE pd i e)"
  by (simp add: pd_wf_def changePDE_def Let_def)

lemma getPDE_changePDE:
  assumes "pd_wf pd" "pageTablePhysicalAddr e AND 0xFFF = 0" "i < 1023"
  shows "getPDE (changePDE pd i e) j = (if i = j then Some e else getPDE pd j)"
  using assms decode_encode(2) [of "pageTablePhysicalAddr e"]
  by (auto simp: getPDE_def changePDE_def and_FFF word_less_nat_alt word_le_nat_alt nth_list_update
      word_unat_eq_iff arr_get_def pd_wf_def Let_def)

lemma PageDirectory_new_wf: "pd_wf (PageDirectory_new a)"
  by (simp add: PageDirectory_new_def pd_wf_def Let_def)

subsection \<open>The recursive mapping\<close>

text \<open>What \<open>PageDirectory\<close> arranges: the last entry of the directory is the helper table, which
  repeats the address and the access bits of all entries of the directory (the page allocator keeps
  its own two bits in the directory only).\<close>

definition recursive_map :: "(u32 \<Rightarrow> u32) \<Rightarrow> u32 \<Rightarrow> bool" where
  "recursive_map pm cr3 \<longleftrightarrow>
     (let dir = cr3 AND 0xFFFFF000; last = pm (dir + 4 * 1023); helper = last AND 0xFFFFF000 in
      last AND 1 \<noteq> 0 \<and> (\<forall>i < 1024.
        decode_PTE (pm (helper + 4 * of_nat i)) = decode_PTE (pm (dir + 4 * of_nat i))))"

lemma decode_PTE_eqD:
  assumes "decode_PTE x = decode_PTE y"
  shows "x AND 0xFFFFF000 = y AND 0xFFFFF000" "(x AND 1 = 0) = (y AND 1 = 0)" "(x AND 4 = 0) = (y AND 4 = 0)"
  using assms by (simp_all add: decode_PTE_def)

lemma window_indices:
  assumes "i < 1024" "j < 1024"
  shows "pd_index (0xFFC00000 + of_nat i * 0x1000 + 4 * of_nat j) = 1023"
    "pt_index (0xFFC00000 + of_nat i * 0x1000 + 4 * of_nat j) = of_nat i"
    "page_offset (0xFFC00000 + of_nat i * 0x1000 + 4 * of_nat j) = 4 * of_nat j"
proof -
  let ?va = "0xFFC00000 + of_nat i * 0x1000 + 4 * of_nat j :: u32"
  have "?va = of_nat (4290772992 + i * 4096 + 4 * j)" by simp
  then have va: "unat ?va = 4290772992 + i * 4096 + 4 * j"
    using assms by (simp only: unat_of_nat_u32)
  have 1: "unat ?va div 4194304 = 1023" unfolding va by (rule div_nat_eqI) (use assms in simp_all)
  have "unat ?va div 4096 = 1023 * 1024 + i" unfolding va by (rule div_nat_eqI) (use assms in simp_all)
  then have 2: "unat ?va div 4096 mod 1024 = i" using assms by (simp only: mod_mult_self3) simp
  have "unat ?va = (1047552 + i) * 4096 + 4 * j" unfolding va by simp
  then have 3: "unat ?va mod 4096 = 4 * j" using assms by (simp only: mod_mult_self3) simp
  have "unat (of_nat i :: u32) = i" "unat (4 * of_nat j :: u32) = 4 * j"
    using assms unat_of_nat_u32 [of i] unat_of_nat_u32 [of "4 * j"] by simp_all
  with 1 2 3 show "pd_index ?va = 1023" "pt_index ?va = of_nat i" "page_offset ?va = 4 * of_nat j"
    by (simp_all only: word_unat_eq_iff unat_indices) simp
qed

lemma window_read:
  assumes "recursive_map pm cr3" "i < 1024" "j < 1024"
  shows "mmu_read pm cr3 (0xFFC00000 + of_nat i * 0x1000 + 4 * of_nat j) =
    (let pde = pm ((cr3 AND 0xFFFFF000) + 4 * of_nat i) in
     if pde AND 1 = 0 then None else Some (pm ((pde AND 0xFFFFF000) + 4 * of_nat j)))"
proof -
  let ?dir = "cr3 AND 0xFFFFF000"
  let ?helper = "pm (?dir + 4 * 1023) AND 0xFFFFF000"
  have "pm (?dir + 4 * 1023) AND 1 \<noteq> 0"
    "decode_PTE (pm (?helper + 4 * of_nat i)) = decode_PTE (pm (?dir + 4 * of_nat i))"
    using assms(1,2) by (simp_all add: recursive_map_def Let_def)
  with decode_PTE_eqD [OF this(2)] window_indices [OF assms(2,3)] show ?thesis
    by (simp add: mmu_read_def mmu_walk_def Let_def)
qed

lemma indices_as_nat:
  obtains i j where "pd_index va = of_nat i" "pt_index va = of_nat j" "i < 1024" "j < 1024"
    "i = unat (pd_index va)" "j = unat (pt_index va)"
proof -
  have "unat (pd_index va) < 1024" "unat (pt_index va) < 1024"
    using unat_u32_lt [of va] by (auto simp: unat_indices less_mult_imp_div_less)
  then show thesis
    using that [of "unat (pd_index va)" "unat (pt_index va)"] by simp
qed

lemma translate_sound:
  assumes rm: "recursive_map pm cr3" and walk: "mmu_walk pm cr3 va = Some pa"
    and idx: "pt_index va < 1023" and paging: "cr0 AND 0x80000000 \<noteq> 0"
  shows "translateVirtualToPhysicalAddress cr0 (mmu_read pm cr3) va = Some pa"
proof -
  obtain i j where ij: "pd_index va = of_nat i" "pt_index va = of_nat j" "i < 1024" "j < 1024"
    by (rule indices_as_nat)
  have "\<not> 1023 \<le> pt_index va" using idx by simp
  moreover have "pm ((cr3 AND 0xFFFFF000) + 4 * of_nat i) AND 1 \<noteq> 0"
    and pa: "pa = (pm ((pm ((cr3 AND 0xFFFFF000) + 4 * of_nat i) AND 0xFFFFF000) + 4 * of_nat j)
        AND 0xFFFFF000) + page_offset va"
    using walk ij by (auto simp: mmu_walk_def Let_def split: if_splits)
  then have "mmu_read pm cr3 (0xFFC00000 + of_nat i * 0x1000 + 4 * of_nat j) =
      Some (pm ((pm ((cr3 AND 0xFFFFF000) + 4 * of_nat i) AND 0xFFFFF000) + 4 * of_nat j))"
    using window_read [OF rm ij(3,4)] by (simp add: Let_def)
  ultimately show ?thesis
    using paging pa ij(1,2) by (simp add: translateVirtualToPhysicalAddress_def Let_def decode_PTE_def)
qed

text \<open>The last page of every 4MB block is where the software translation has no defined result.\<close>

lemma translate_undefined:
  assumes "pt_index va = 1023" "cr0 AND 0x80000000 \<noteq> 0"
  shows "translateVirtualToPhysicalAddress cr0 vread va = None"
  using assms by (simp add: translateVirtualToPhysicalAddress_def Let_def)

lemma CurrentPagingStructure_getPDE_mmu:
  assumes rm: "recursive_map pm cr3" and i: "i < 1023"
  shows "CurrentPagingStructure_getPDE (mmu_read pm cr3) (of_nat i) =
    Some (decode_PDE (pm ((cr3 AND 0xFFFFF000) + 4 * of_nat i)))"
proof -
  let ?dir = "cr3 AND 0xFFFFF000"
  let ?bits = "pm ((pm (?dir + 4 * 1023) AND 0xFFFFF000) + 4 * of_nat i)"
  have last: "pm (?dir + 4 * 1023) AND 1 \<noteq> 0"
    and eq: "decode_PTE ?bits = decode_PTE (pm (?dir + 4 * of_nat i))"
    using rm i by (simp_all add: recursive_map_def Let_def)
  have "mmu_read pm cr3 (0xFFC00000 + of_nat 1023 * 0x1000 + 4 * of_nat i) = Some ?bits"
    using window_read [OF rm, of 1023 i] last i by (simp add: Let_def)
  moreover have "\<not> 1023 \<le> (of_nat i :: u32)" using i by (simp add: word_le_nat_alt unat_of_nat_u32)
  ultimately show ?thesis
    using decode_PTE_eqD [OF eq]
    by (simp add: CurrentPagingStructure_getPDE_def decode_PTE_def decode_PDE_def Let_def)
qed

lemma CurrentPagingStructure_getPTE_mmu:
  assumes rm: "recursive_map pm cr3" and ij: "i < 1024" "j < 1023"
    and pde: "pm ((cr3 AND 0xFFFFF000) + 4 * of_nat i) AND 1 \<noteq> 0"
  shows "CurrentPagingStructure_getPTE (mmu_read pm cr3) (of_nat i) (of_nat j) =
    Some (decode_PTE (pm ((pm ((cr3 AND 0xFFFFF000) + 4 * of_nat i) AND 0xFFFFF000) + 4 * of_nat j)))"
proof -
  have "\<not> 1023 \<le> (of_nat j :: u32)" using ij by (simp add: word_le_nat_alt unat_of_nat_u32)
  with window_read [OF rm, of i j] ij pde show ?thesis
    by (simp add: CurrentPagingStructure_getPTE_def Let_def)
qed

subsection \<open>The identity mapping\<close>

text \<open>Array \<open>es\<close> of 32-bit words is in physical memory at \<open>a\<close>.\<close>

definition holds_words :: "(u32 \<Rightarrow> u32) \<Rightarrow> u32 \<Rightarrow> u32 list \<Rightarrow> bool" where
  "holds_words pm a es \<longleftrightarrow> (\<forall>i < length es. pm (a + 4 * of_nat i) = es ! i)"

definition structures_at :: "(u32 \<Rightarrow> u32) \<Rightarrow> u32 \<Rightarrow> PagingStructures \<Rightarrow> bool" where
  "structures_at pm base ps \<longleftrightarrow>
     holds_words pm base (pageDirectoryEntries (pageDirectory ps)) \<and>
     holds_words pm (base + 0x1000) (helperTableEntries (pageDirectory ps)) \<and>
     (\<forall>i < 1023. holds_words pm (page_table_addr base i) (pageTables ps ! i))"

lemma fold_changePTE:
  assumes "n \<le> 1024" "length pt = 1024" "\<And>j. j < n \<Longrightarrow> take_bit 12 (pagePhysicalAddr (f j)) = 0"
  shows "length (fold (\<lambda>j pt. changePTE pt (of_nat j) (f j)) [0..<n] pt) = 1024 \<and>
    (\<forall>k < 1024. fold (\<lambda>j pt. changePTE pt (of_nat j) (f j)) [0..<n] pt ! k =
      (if k < n then pagePhysicalAddr (f k) OR flag_bits (pte_kernelPrivilegeOnly (f k)) (pteIsValid (f k))
       else pt ! k))"
  using assms
proof (induction n)
  case (Suc n)
  then have n: "unat (of_nat n :: u32) = n" "\<not> 1024 \<le> (of_nat n :: u32)"
    by (simp_all add: unat_of_nat_u32 word_le_nat_alt)
  have "take_bit 12 (pagePhysicalAddr (f n)) = 0" using Suc.prems by simp
  with Suc n show ?case
    by (auto simp: changePTE_def and_FFF nth_list_update less_Suc_eq)
qed simp

lemma fold_changePDE:
  assumes "n \<le> 1023" "pd_wf pd" "\<And>j. j < n \<Longrightarrow> take_bit 12 (pageTablePhysicalAddr (f j)) = 0"
  shows "pd_wf (fold (\<lambda>j pd. changePDE pd (of_nat j) (f j)) [0..<n] pd) \<and>
    (\<forall>k < 1024. pageDirectoryEntries (fold (\<lambda>j pd. changePDE pd (of_nat j) (f j)) [0..<n] pd) ! k =
      (if k < n then pageTablePhysicalAddr (f k) OR flag_bits (pde_kernelPrivilegeOnly (f k)) (pdeIsValid (f k))
       else pageDirectoryEntries pd ! k))"
  using assms
proof (induction n)
  case (Suc n)
  then have n: "unat (of_nat n :: u32) = n" "\<not> 1023 \<le> (of_nat n :: u32)"
    by (simp_all add: unat_of_nat_u32 word_le_nat_alt)
  have "take_bit 12 (pageTablePhysicalAddr (f n)) = 0" using Suc.prems by simp
  with Suc n show ?case
    by (auto simp: changePDE_def and_FFF nth_list_update less_Suc_eq Let_def pd_wf_def)
qed simp

lemma page_multiple_aligned: "take_bit 12 (of_nat (4096 * k) :: u32) = 0"
proof -
  have "take_bit 12 (of_nat (4096 * k) :: u32) = of_nat (take_bit 12 (4096 * k))"
    by (simp only: take_bit_of_nat)
  then show ?thesis by (simp add: take_bit_eq_mod)
qed

lemma identity_table_entry:
  assumes "j < 1024"
  shows "identity_table i ! j = of_nat (4194304 * i + 4096 * j) OR 3" "length (identity_table i) = 1024"
    "take_bit 12 (of_nat (4194304 * i + 4096 * j) :: u32) = 0"
proof -
  let ?f = "\<lambda>j. \<lparr>pagePhysicalAddr = of_nat i * (0x1000 * 1024) + of_nat j * 0x1000,
              pte_kernelPrivilegeOnly = True, pteIsValid = True\<rparr> :: PTE"
  have eq: "pagePhysicalAddr (?f j) = of_nat (4096 * (1024 * i + j))" for j by simp
  have al: "take_bit 12 (pagePhysicalAddr (?f j)) = 0" for j
    unfolding eq by (rule page_multiple_aligned)
  note f = fold_changePTE [of 1024 PageTable_new ?f, OF _ _ al]
  show "identity_table i ! j = of_nat (4194304 * i + 4096 * j) OR 3" "length (identity_table i) = 1024"
    using f assms by (simp_all add: identity_table_def PageTable_new_def flag_bits_cases mult.commute)
  have "4194304 * i + 4096 * j = 4096 * (1024 * i + j)" by simp
  then show "take_bit 12 (of_nat (4194304 * i + 4096 * j) :: u32) = 0"
    by (simp only: page_multiple_aligned)
qed

lemma aligned_page_number:
  assumes "take_bit 12 (a :: u32) = 0"
  shows "a = of_nat (4096 * (unat a div 4096))"
proof -
  have "unat (take_bit 12 a) = unat a mod 4096"
    by (simp add: unsigned_take_bit_eq) (simp add: take_bit_eq_mod)
  with assms have "4096 * (unat a div 4096) = unat a"
    using mult_div_mod_eq [of 4096 "unat a"] by simp
  then show ?thesis by (simp del: of_nat_mult)
qed

lemma page_table_addr_aligned:
  assumes "take_bit 12 base = 0"
  shows "take_bit 12 (page_table_addr base i) = 0"
proof -
  have "page_table_addr base i = of_nat (4096 * (unat base div 4096)) + of_nat (4096 * (2 + i))"
    by (subst aligned_page_number [OF assms]) (simp add: page_table_addr_def)
  also have "\<dots> = of_nat (4096 * (unat base div 4096 + 2 + i))" by (simp add: algebra_simps)
  finally show ?thesis by (simp only: page_multiple_aligned)
qed

lemma PagingStructures_new_directory:
  assumes "take_bit 12 base = 0" "i < 1023"
  shows "pageDirectoryEntries (pageDirectory (PagingStructures_new base)) ! i = page_table_addr base i OR 3"
    "pd_wf (pageDirectory (PagingStructures_new base))"
  using fold_changePDE [of 1023 "PageDirectory_new base"
      "\<lambda>i. \<lparr>pageTablePhysicalAddr = page_table_addr base i, pde_kernelPrivilegeOnly = True, pdeIsValid = True\<rparr>"]
    PageDirectory_new_wf page_table_addr_aligned [OF assms(1)] assms(2)
  by (simp_all add: PagingStructures_new_def flag_bits_cases)

lemma entry3_fields:
  assumes "take_bit 12 (a :: u32) = 0"
  shows "(a OR 3) AND 0xFFFFF000 = a" "(a OR 3) AND 1 \<noteq> 0"
  using entry_fields [OF assms, of True True] by (simp_all add: flag_bits_cases)

lemma page_number_split:
  "unat (va :: u32) = 4194304 * unat (pd_index va) + 4096 * unat (pt_index va) + unat (page_offset va)"
proof -
  have "unat va div 4194304 = unat va div 4096 div 1024" by (simp add: div_mult2_eq [symmetric])
  then show ?thesis
    unfolding unat_indices
    using div_mult_mod_eq [of "unat va" 4096] div_mult_mod_eq [of "unat va div 4096" 1024] by linarith
qed

lemma identity_mapping:
  assumes at: "structures_at pm base (PagingStructures_new base)" and al: "take_bit 12 base = 0"
    and low: "unat va < 4290772992"
  shows "mmu_walk pm base va = Some va"
proof -
  obtain i j where ij: "pd_index va = of_nat i" "pt_index va = of_nat j" "j < 1024"
    "i = unat (pd_index va)" "j = unat (pt_index va)"
    by (rule indices_as_nat)
  have i: "i < 1023" using low by (simp add: ij(4) unat_indices less_mult_imp_div_less)
  note dir = PagingStructures_new_directory [OF al i] and tab = identity_table_entry [OF ij(3), of i]
  have base: "base AND 0xFFFFF000 = base" using aligned_high [OF al] by (simp add: and_FFFFF000)
  have pde: "pm (base + 4 * of_nat i) = page_table_addr base i OR 3"
    using at dir i by (simp add: structures_at_def holds_words_def pd_wf_def)
  have "pageTables (PagingStructures_new base) ! i = identity_table i"
    using i by (simp add: PagingStructures_new_def)
  then have pte: "pm (page_table_addr base i + 4 * of_nat j) = of_nat (4194304 * i + 4096 * j) OR 3"
    using at i ij(3) tab by (simp add: structures_at_def holds_words_def)
  have "va = of_nat (unat va)" by simp
  also have "unat va = 4194304 * i + 4096 * j + unat (page_offset va)"
    using page_number_split [of va] ij(4,5) by simp
  finally have va: "of_nat (4194304 * i + 4096 * j) + page_offset va = va" by (simp add: add_ac)
  show ?thesis
    unfolding mmu_walk_def ij(1,2) base Let_def pde
    using entry3_fields [OF page_table_addr_aligned [OF al]] entry3_fields [OF tab(3)] va
    by (simp del: of_nat_add of_nat_mult add: pte)
qed

end
