(* ===== verification/Page_Allocator.thy ===== *)
theory Page_Allocator
  imports Paging
begin

text \<open>
  \<open>paging/page_allocator.h\<close> and \<open>page_allocator.cpp\<close>: the allocator of contiguous pages. It keeps a
  two-bit code in every page table entry (0 is free, adjacent regions have different codes) and a
  summary of each table in the directory entry. The state is the \<open>PagingStructures\<close> object that
  its accessor hands out; \<open>getPageTable\<close> returns \<open>nullptr\<close> from index 1023 on, and using that
  pointer, or reading the directory past its 1024 entries, is a fault.

  Page \<open>p\<close> is entry \<open>p mod 1024\<close> of table \<open>p div 1024\<close>.
\<close>

abbreviation (input) CODE_BITS :: u32 where "CODE_BITS \<equiv> 0x600"
abbreviation (input) NUM_PAGES :: nat where "NUM_PAGES \<equiv> 1047552"

subsection \<open>The operations\<close>

definition entry_free :: "u32 \<Rightarrow> bool" where
  "entry_free e \<longleftrightarrow> e AND CODE_BITS = 0"

definition entry_code :: "u32 \<Rightarrow> u32" where
  "entry_code e = drop_bit 9 e AND 3"

definition clear_code :: "u32 \<Rightarrow> u32" where
  "clear_code e = e AND NOT CODE_BITS"

definition or_code :: "u32 \<Rightarrow> u32 \<Rightarrow> u32" where
  "or_code code e = e OR push_bit 9 code"

definition put_table :: "nat \<Rightarrow> PageTable \<Rightarrow> PagingStructures \<Rightarrow> PagingStructures" where
  "put_table i pt st = st\<lparr>pageTables := (pageTables st)[i := pt]\<rparr>"

definition set_pde_code :: "nat \<Rightarrow> u32 \<Rightarrow> PagingStructures \<Rightarrow> PagingStructures" where
  "set_pde_code i code st =
     (let pd = pageDirectory st; es = pageDirectoryEntries pd in
      st\<lparr>pageDirectory := pd\<lparr>pageDirectoryEntries := es[i := or_code code (clear_code (es ! i))]\<rparr>\<rparr>)"

definition PageAllocator_new :: "PagingStructures \<Rightarrow> PagingStructures" where
  "PageAllocator_new st =
     (let pd = pageDirectory st; es = pageDirectoryEntries pd in
      st\<lparr>pageTables := map (map clear_code) (pageTables st),
         pageDirectory := pd\<lparr>pageDirectoryEntries := map clear_code (take 1023 es) @ drop 1023 es\<rparr>\<rparr>)"

definition checkPageTableFullyAllocated :: "PageTable \<Rightarrow> bool" where
  "checkPageTableFullyAllocated pt \<longleftrightarrow> list_all (\<lambda>i. \<not> entry_free (pt ! i)) [0..<1024]"

definition checkPageTableFullyNotAllocated :: "PageTable \<Rightarrow> bool" where
  "checkPageTableFullyNotAllocated pt \<longleftrightarrow> list_all (\<lambda>i. entry_free (pt ! i)) [0..<1024]"

definition numFreeAtBegin :: "PageTable option \<Rightarrow> nat" where
  "numFreeAtBegin pPageTable =
     (case pPageTable of None \<Rightarrow> 0 | Some pt \<Rightarrow> length (takeWhile (\<lambda>i. entry_free (pt ! i)) [0..<1024]))"

definition numFreeAtEnd :: "PageTable option \<Rightarrow> nat" where
  "numFreeAtEnd pPageTable =
     (case pPageTable of None \<Rightarrow> 0
      | Some pt \<Rightarrow> length (takeWhile (\<lambda>i. entry_free (pt ! i)) (rev [0..<1024])))"

definition scan_entry :: "PageTable \<Rightarrow> nat \<Rightarrow> nat \<times> nat \<Rightarrow> nat \<times> nat" where
  "scan_entry pt i = (\<lambda>(retVal, currentCounter).
     if entry_free (pt ! i) then (retVal, currentCounter + 1) else (max currentCounter retVal, 0))"

definition findMaxFreeSpaceStartingFromTable :: "PagingStructures \<Rightarrow> nat \<Rightarrow> nat" where
  "findMaxFreeSpaceStartingFromTable st i =
     (if 1023 \<le> i then 0
      else
        let (retVal, currentCounter) = fold (scan_entry (pageTables st ! i)) [0..<1024] (0, 0) in
        if currentCounter = 0 then retVal
        else
          let next = numFreeAtBegin (getPageTable st (i + 1));
              currentCounter = currentCounter + next;
              currentCounter = (if next = 1024
                then currentCounter + numFreeAtBegin (getPageTable st (i + 2)) else currentCounter)
          in max currentCounter retVal)"

text \<open>The inner loop over the following directory entries, one round of the search loop of
  \<open>allocateContiguousPages\<close>, and the loop; its result is the table to start from, or an index
  from 1023 on.\<close>

primrec scan_free_tables :: "u32 list \<Rightarrow> nat \<Rightarrow> nat \<Rightarrow> nat \<Rightarrow> nat option" where
  "scan_free_tables es i j 0 = Some j"
| "scan_free_tables es i j (Suc n) = do {
     e \<leftarrow> arr_get es (i + j + 1);
     if \<not> entry_free e then Some j else scan_free_tables es i (j + 1) n }"

datatype search_result = Break | Continue nat

definition search_step :: "PagingStructures \<Rightarrow> nat \<Rightarrow> nat \<Rightarrow> nat \<Rightarrow> search_result option" where
  "search_step st M R i = do {
     e \<leftarrow> arr_get (pageDirectoryEntries (pageDirectory st)) i;
     if entry_code e \<noteq> 2 then
       let remaining = (if entry_code e = 0 \<and> M \<noteq> 0 then M - 1 else M) in do {
       j \<leftarrow> scan_free_tables (pageDirectoryEntries (pageDirectory st)) i 0 remaining;
       if j \<noteq> remaining then Some (Continue (i + j + 1))
       else if M = 0 then
         Some (if R \<le> findMaxFreeSpaceStartingFromTable st i then Break else Continue (i + 1))
       else
         let found = (if entry_code e \<noteq> 0 then numFreeAtEnd (getPageTable st i) else 0);
             next = numFreeAtBegin (getPageTable st (i + j + 1));
             found = found + next +
               (if next = 1024 then numFreeAtBegin (getPageTable st (i + j + 2)) else 0)
         in Some (if R \<le> found then Break else Continue (i + j + 1)) }
     else Some (Continue (i + 1)) }"

lemma search_step_progress: "search_step st M R i = Some (Continue k) \<Longrightarrow> i < k"
  by (auto simp: search_step_def Let_def split: Option.bind_splits if_splits)

function search_table :: "PagingStructures \<Rightarrow> nat \<Rightarrow> nat \<Rightarrow> nat \<Rightarrow> nat option" where
  "search_table st M R i =
     (if 1023 \<le> i then Some i
      else do {
        r \<leftarrow> search_step st M R i;
        case r of Break \<Rightarrow> Some i | Continue k \<Rightarrow> search_table st M R k })"
  by pat_completeness auto
termination
  by (relation "measure (\<lambda>(st, M, R, i). 1023 - i)") (auto dest: search_step_progress)

declare search_table.simps [simp del]

primrec first_fit :: "PageTable \<Rightarrow> nat \<Rightarrow> nat list \<Rightarrow> nat \<Rightarrow> nat \<Rightarrow> nat" where
  "first_fit pt R [] lastj counter = lastj"
| "first_fit pt R (j # js) lastj counter =
     (if entry_free (pt ! j)
      then (if R \<le> counter + 1 then lastj else first_fit pt R js lastj (counter + 1))
      else first_fit pt R js (j + 1) 0)"

definition behind_last_allocated :: "PageTable \<Rightarrow> nat" where
  "behind_last_allocated pt =
     (case find (\<lambda>j. \<not> entry_free (pt ! j)) (rev [0..<1024]) of None \<Rightarrow> 0 | Some j \<Rightarrow> j + 1)"

definition mark_entries :: "u32 \<Rightarrow> nat \<Rightarrow> nat \<Rightarrow> PageTable \<Rightarrow> PageTable" where
  "mark_entries code pteBegin pteEnd pt = fold (\<lambda>j pt. pt[j := or_code code (pt ! j)]) [pteBegin..<pteEnd + 1] pt"

definition allocatePageRange :: "PagingStructures \<Rightarrow> u32 \<Rightarrow> u32 \<Rightarrow> PagingStructures option" where
  "allocatePageRange st firstPageIndex lastPageIndex =
     (let firstPDE = unat firstPageIndex div 1024; firstPTE = unat firstPageIndex mod 1024;
          lastPDE = unat lastPageIndex div 1024; lastPTE = unat lastPageIndex mod 1024 in
      for_each (\<lambda>i st. do {
          pt \<leftarrow> getPageTable st i;
          let pteBegin = (if i = firstPDE then firstPTE else 0);
              pteEnd = (if i = lastPDE then lastPTE else 1023);
              pt = mark_entries 1 pteBegin pteEnd pt;
              st = put_table i pt st in
          Some (if checkPageTableFullyAllocated pt then set_pde_code i 2 st else set_pde_code i 1 st) })
        [firstPDE..<min lastPDE 1023 + 1] st)"

definition neighbour_code :: "PagingStructures \<Rightarrow> nat \<Rightarrow> u32 option" where
  "neighbour_code st p = do {
     pt \<leftarrow> getPageTable st (p div 1024);
     e \<leftarrow> arr_get pt (p mod 1024);
     Some (entry_code e) }"

definition choose_code :: "u32 \<Rightarrow> u32 \<Rightarrow> u32" where
  "choose_code pre post =
     (if pre = post then (if pre = 1 then 2 else 1)
      else if pre = 0 then (if post = 1 then 2 else 1)
      else if post = 0 then (if pre = 1 then 2 else 1)
      else (1 + 2 + 3) - (pre + post))"

definition allocatePagesStartingAtIndex ::
  "PagingStructures \<Rightarrow> nat \<Rightarrow> nat \<Rightarrow> PagingStructures option" where
  "allocatePagesStartingAtIndex st startingPageIndex numPages =
     (if numPages = 0 then Some st
      else let endingPageIndex = startingPageIndex + numPages - 1 in do {
        pre \<leftarrow> (if 0 < startingPageIndex then neighbour_code st (startingPageIndex - 1) else Some 1);
        post \<leftarrow> (if endingPageIndex < NUM_PAGES - 1 then neighbour_code st (endingPageIndex + 1) else Some 1);
        let code = choose_code pre post;
            firstPDE = startingPageIndex div 1024; firstPTE = startingPageIndex mod 1024;
            lastPDE = endingPageIndex div 1024; lastPTE = endingPageIndex mod 1024 in
        for_each (\<lambda>i st. do {
            pt \<leftarrow> getPageTable st i;
            let pteBegin = (if i = firstPDE then firstPTE else 0);
                pteEnd = (if i = lastPDE then lastPTE else 1023);
                pt = mark_entries code pteBegin pteEnd pt;
                st = put_table i pt st in
            Some (if pteBegin = 0 \<and> pteEnd = 1023 then set_pde_code i 2 st
                  else if checkPageTableFullyAllocated pt then set_pde_code i 2 st
                  else set_pde_code i 1 st) })
          [firstPDE..<lastPDE + 1] st })"

definition allocateContiguousPages :: "PagingStructures \<Rightarrow> u32 \<Rightarrow> (u32 \<times> PagingStructures) option" where
  "allocateContiguousPages st numPages =
     (let n = unat numPages in
      if n = 0 then Some (0xFFC00000, st)
      else
        let M = (if n < 2 * 1023 then 0 else (n - 1023) div 1024);
            R = n - M * 1024 in do {
        i \<leftarrow> search_table st M R 0;
        if 1023 \<le> i then Some (0xFFC00000, st)
        else
          let pt = pageTables st ! i;
              found = i * 1024 + (if M = 0 then first_fit pt R [0..<1024] 0 0 else behind_last_allocated pt)
          in do {
            st \<leftarrow> allocatePagesStartingAtIndex st found n;
            Some (of_nat found * 0x1000, st) } })"

text \<open>One table of the loop of \<open>freeContiguousPages\<close>; the second component says whether the loop goes
  on.\<close>

definition free_in_table :: "u32 \<Rightarrow> nat \<Rightarrow> nat \<Rightarrow> PagingStructures \<Rightarrow> PagingStructures \<times> bool" where
  "free_in_table pageCode i pteBegin st =
     (let pt = pageTables st ! i;
          j = pteBegin + length (takeWhile (\<lambda>j. entry_code (pt ! j) = pageCode) [pteBegin..<1024]);
          pt = fold (\<lambda>j pt. pt[j := clear_code (pt ! j)]) [pteBegin..<j] pt;
          st = put_table i pt st;
          st = (if pteBegin = 0 \<and> j = 1024 then set_pde_code i 0 st
                else if pteBegin = j then st
                else if checkPageTableFullyNotAllocated pt then set_pde_code i 0 st
                else set_pde_code i 1 st)
      in (st, j = 1024))"

fun free_loop :: "u32 \<Rightarrow> nat \<Rightarrow> nat \<Rightarrow> nat list \<Rightarrow> PagingStructures \<Rightarrow> PagingStructures" where
  "free_loop pageCode firstPDE firstPTE [] st = st"
| "free_loop pageCode firstPDE firstPTE (i # is) st =
     (case free_in_table pageCode i (if i = firstPDE then firstPTE else 0) st of
        (st, continue) \<Rightarrow> if continue then free_loop pageCode firstPDE firstPTE is st else st)"

definition freeContiguousPages :: "PagingStructures \<Rightarrow> u32 \<Rightarrow> PagingStructures" where
  "freeContiguousPages st virtualMemoryPointer =
     (let page = unat virtualMemoryPointer div 4096;
          firstPDE = page div 1024; firstPTE = page mod 1024 in
      if 1023 \<le> firstPDE then st
      else
        let pageCode = entry_code (pageTables st ! firstPDE ! firstPTE) in
        free_loop pageCode firstPDE firstPTE [firstPDE..<1023] st)"

subsection \<open>The codes of entries\<close>

lemma entry_code_take: "entry_code e = take_bit 2 (drop_bit 9 e)"
proof -
  have "(3 :: u32) = mask 2" by (simp add: mask_eq_exp_minus_1)
  then show ?thesis by (simp add: entry_code_def take_bit_eq_mask)
qed

lemma code_bits_mask: "(CODE_BITS :: u32) = push_bit 9 (mask 2)"
  by (simp add: mask_eq_exp_minus_1)

lemma code_mask_bits: "e AND push_bit 9 (mask 2) = push_bit 9 (take_bit 2 (drop_bit 9 (e :: u32)))"
  by (auto simp: bit_eq_iff bit_simps)

lemma push9_zero: "push_bit 9 (take_bit 2 (x :: u32)) = 0 \<longleftrightarrow> take_bit 2 x = 0"
proof
  assume "push_bit 9 (take_bit 2 x) = 0"
  then have "drop_bit 9 (push_bit 9 (take_bit 2 x)) = 0" by simp
  moreover have "drop_bit 9 (push_bit 9 (take_bit 2 x)) = take_bit 2 x"
    by (auto simp: bit_eq_iff bit_simps)
  ultimately show "take_bit 2 x = 0" by simp
qed simp

lemma entry_free_code [simp]: "entry_free e \<longleftrightarrow> entry_code e = 0"
  unfolding entry_free_def code_bits_mask code_mask_bits push9_zero entry_code_take ..

lemma entry_code_clear [simp]: "entry_code (clear_code e) = 0"
  unfolding clear_code_def entry_code_take code_bits_mask
  by (auto simp: bit_eq_iff bit_simps)

lemma entry_code_or: "take_bit 2 c = c \<Longrightarrow> entry_code (or_code c e) = entry_code e OR c"
proof -
  assume c: "take_bit 2 c = c"
  have "take_bit 2 (drop_bit 9 (e OR push_bit 9 c)) = take_bit 2 (drop_bit 9 e) OR take_bit 2 c"
    by (auto simp: bit_eq_iff bit_simps)
  with c show ?thesis by (simp add: or_code_def entry_code_take)
qed

lemma entry_code_lt4: "entry_code e < 4"
proof -
  have "unat (take_bit 2 (drop_bit 9 e)) < 4"
    by (simp add: unsigned_take_bit_eq) (simp add: take_bit_eq_mod)
  then show ?thesis by (simp add: entry_code_take word_less_nat_alt)
qed

lemma take2_lt4: "(c :: u32) < 4 \<Longrightarrow> take_bit 2 c = c"
  by (simp add: word_unat_eq_iff unsigned_take_bit_eq word_less_nat_alt)
    (simp add: take_bit_eq_mod)

lemma disjoint_low:
  assumes "take_bit n (x :: u32) = 0" "take_bit n w = w"
  shows "x AND w = 0"
proof -
  have "x AND w = x AND (w AND mask n)" using assms(2) by (simp add: take_bit_eq_mask)
  also have "\<dots> = (x AND mask n) AND w" by (simp only: and.assoc and.commute and.left_commute)
  finally show ?thesis using assms(1) by (simp add: take_bit_eq_mask)
qed

text \<open>The code bits are not among the bits the processor or the translation read.\<close>

lemma decode_code [simp]: "decode_PTE (clear_code e) = decode_PTE e" "c < 4 \<Longrightarrow> decode_PTE (or_code c e) = decode_PTE e"
proof -
  have "NOT CODE_BITS AND 0xFFFFF000 = (0xFFFFF000 :: u32)" "NOT CODE_BITS AND 4 = (4 :: u32)"
    "NOT CODE_BITS AND 1 = (1 :: u32)" by simp_all
  then show "decode_PTE (clear_code e) = decode_PTE e"
    by (simp only: decode_PTE_def clear_code_def and.assoc)
  assume "c < 4"
  then have c: "take_bit 2 c = c" by (rule take2_lt4)
  have high: "(0xFFFFF000 :: u32) = NOT (mask 12)" by (simp add: mask_eq_exp_minus_1)
  have "push_bit 9 (take_bit 2 c) AND NOT (mask 12) = 0" by (auto simp: bit_eq_iff bit_simps)
  moreover have "take_bit 9 (push_bit 9 c) = 0" by (simp add: take_bit_push_bit)
  from disjoint_low [OF this] have "push_bit 9 c AND 4 = 0" "push_bit 9 c AND 1 = 0" by simp_all
  ultimately have "push_bit 9 c AND 0xFFFFF000 = 0" "push_bit 9 c AND 4 = 0" "push_bit 9 c AND 1 = 0"
    by (simp_all only: c high)
  then show "decode_PTE (or_code c e) = decode_PTE e"
    by (simp add: decode_PTE_def or_code_def bit.conj_disj_distrib2)
qed

subsection \<open>The state invariant\<close>

definition table_summary :: "PageTable \<Rightarrow> u32" where
  "table_summary pt =
     (if \<forall>j < 1024. entry_code (pt ! j) = 0 then 0
      else if \<forall>j < 1024. entry_code (pt ! j) \<noteq> 0 then 2 else 1)"

definition pde_code :: "PagingStructures \<Rightarrow> nat \<Rightarrow> u32" where
  "pde_code st i = entry_code (pageDirectoryEntries (pageDirectory st) ! i)"

definition pa_shape :: "PagingStructures \<Rightarrow> bool" where
  "pa_shape st \<longleftrightarrow>
     length (pageTables st) = 1023 \<and> (\<forall>i < 1023. length (pageTables st ! i) = 1024) \<and>
     length (pageDirectoryEntries (pageDirectory st)) = 1024"

definition pa_inv :: "PagingStructures \<Rightarrow> bool" where
  "pa_inv st \<longleftrightarrow> pa_shape st \<and> (\<forall>i < 1023. pde_code st i = table_summary (pageTables st ! i))"

text \<open>The abstract state: the code of every page.\<close>

definition page_code :: "PagingStructures \<Rightarrow> nat \<Rightarrow> u32" where
  "page_code st p = entry_code (pageTables st ! (p div 1024) ! (p mod 1024))"

definition free_run :: "PagingStructures \<Rightarrow> nat \<Rightarrow> nat \<Rightarrow> bool" where
  "free_run st a b \<longleftrightarrow> b \<le> NUM_PAGES \<and> (\<forall>p. a \<le> p \<longrightarrow> p < b \<longrightarrow> page_code st p = 0)"

lemma page_of: "j < 1024 \<Longrightarrow> page_code st (i * 1024 + j) = entry_code (pageTables st ! i ! j)"
  by (simp add: page_code_def)

lemma page_split:
  assumes "p < NUM_PAGES"
  obtains i j where "p = i * 1024 + j" "j < 1024" "i < 1023" "i = p div 1024" "j = p mod 1024"
  using that [of "p div 1024" "p mod 1024"] assms by (simp add: less_mult_imp_div_less)

lemma update_table_shape:
  assumes "pa_shape st" "i < 1023" "length pt = 1024"
  shows "pa_shape (set_pde_code i c (put_table i pt st))"
  using assms by (auto simp: pa_shape_def set_pde_code_def put_table_def Let_def nth_list_update)

lemma update_table_tables:
  assumes "pa_shape st" "i < 1023"
  shows "pageTables (set_pde_code i c (put_table i pt st)) = (pageTables st)[i := pt]"
  by (simp add: set_pde_code_def put_table_def Let_def)

lemma or_zero_code: "take_bit 2 c = c \<Longrightarrow> entry_code (or_code c (clear_code e)) = c"
  by (simp add: entry_code_or)

lemma update_table_pde:
  assumes "pa_shape st" "i < 1023" "c < 4"
  shows "pde_code (set_pde_code i c (put_table i pt st)) k = (if k = i then c else pde_code st k)"
  using assms or_zero_code [OF take2_lt4 [OF assms(3)]]
  by (auto simp: pde_code_def set_pde_code_def put_table_def Let_def nth_list_update pa_shape_def)

lemma table_summary_lt: "table_summary pt < 4"
  by (simp add: table_summary_def)

lemma update_table_inv:
  assumes "pa_inv st" "i < 1023" "length pt = 1024" "c = table_summary pt"
  shows "pa_inv (set_pde_code i c (put_table i pt st))"
    "page_code (set_pde_code i c (put_table i pt st)) p =
       (if p div 1024 = i then entry_code (pt ! (p mod 1024)) else page_code st p)"
proof -
  have shape: "pa_shape st" using assms(1) by (simp add: pa_inv_def)
  have "c < 4" using assms(4) table_summary_lt by simp
  note u = update_table_pde [OF shape assms(2) this] update_table_tables [OF shape assms(2)]
  show "pa_inv (set_pde_code i c (put_table i pt st))"
    unfolding pa_inv_def u
    using assms update_table_shape [OF shape assms(2,3)] shape
    by (auto simp: pa_inv_def nth_list_update pa_shape_def)
  show "page_code (set_pde_code i c (put_table i pt st)) p =
       (if p div 1024 = i then entry_code (pt ! (p mod 1024)) else page_code st p)"
    using shape assms(2) by (auto simp: page_code_def u nth_list_update pa_shape_def)
qed

subsection \<open>Marking and clearing entries of a table\<close>

lemma fold_update_range:
  assumes "e \<le> length xs"
  shows "fold (\<lambda>j xs. xs[j := f (xs ! j)]) [b..<e] xs ! k =
      (if b \<le> k \<and> k < e then f (xs ! k) else xs ! k)"
    "length (fold (\<lambda>j xs. xs[j := f (xs ! j)]) [b..<e] xs) = length xs"
proof -
  have "fold (\<lambda>j xs. xs[j := f (xs ! j)]) [b..<e] xs ! k = (if b \<le> k \<and> k < e then f (xs ! k) else xs ! k) \<and>
      length (fold (\<lambda>j xs. xs[j := f (xs ! j)]) [b..<e] xs) = length xs"
    if "e \<le> length xs" for k
    using that
  proof (induction e arbitrary: k)
    case (Suc e)
    have ih: "length (fold (\<lambda>j xs. xs[j := f (xs ! j)]) [b..<e] xs) = length xs"
      "\<And>k. fold (\<lambda>j xs. xs[j := f (xs ! j)]) [b..<e] xs ! k = (if b \<le> k \<and> k < e then f (xs ! k) else xs ! k)"
      using Suc by auto
    show ?case using Suc.prems ih by (cases "b \<le> e") (auto simp: nth_list_update less_Suc_eq)
  qed simp
  with assms show "fold (\<lambda>j xs. xs[j := f (xs ! j)]) [b..<e] xs ! k =
      (if b \<le> k \<and> k < e then f (xs ! k) else xs ! k)"
    "length (fold (\<lambda>j xs. xs[j := f (xs ! j)]) [b..<e] xs) = length xs" by auto
qed

lemma mark_entries_nth:
  assumes "length pt = 1024" "e < 1024"
  shows "mark_entries c b e pt ! j = (if b \<le> j \<and> j \<le> e then or_code c (pt ! j) else pt ! j)"
    "length (mark_entries c b e pt) = 1024"
  using fold_update_range [of "e + 1" pt "or_code c" b] assms by (auto simp: mark_entries_def)

lemma checkPageTableFullyAllocated_iff:
  "checkPageTableFullyAllocated pt \<longleftrightarrow> (\<forall>j < 1024. entry_code (pt ! j) \<noteq> 0)"
  by (auto simp: checkPageTableFullyAllocated_def list_all_iff)

lemma checkPageTableFullyNotAllocated_iff:
  "checkPageTableFullyNotAllocated pt \<longleftrightarrow> (\<forall>j < 1024. entry_code (pt ! j) = 0)"
  by (auto simp: checkPageTableFullyNotAllocated_def list_all_iff)

subsection \<open>Allocating a run of free pages\<close>

text \<open>The range of entries a table gets in either allocation loop.\<close>

lemma table_range:
  assumes "a \<le> e" "a div 1024 \<le> i" "i \<le> e div 1024" "j < 1024"
  shows "(if i = a div 1024 then a mod 1024 else 0) \<le> j \<and> j \<le> (if i = e div 1024 then e mod 1024 else 1023)
    \<longleftrightarrow> a \<le> i * 1024 + j \<and> i * 1024 + j \<le> (e :: nat)"
proof -
  have lo: "(if i = a div 1024 then a mod 1024 else 0) \<le> j \<longleftrightarrow> a \<le> i * 1024 + j"
  proof (cases "i = a div 1024")
    case False
    then have "(a div 1024 + 1) * 1024 \<le> i * 1024" using assms(2) by (intro mult_right_mono) auto
    moreover have "a < 1024 + 1024 * (a div 1024)" by (rule dividend_less_times_div) simp
    ultimately have "a \<le> i * 1024" by (simp add: add_mult_distrib mult.commute)
    with False show ?thesis by simp
  qed (use div_mult_mod_eq [of a 1024] in \<open>simp; linarith\<close>)
  have hi: "j \<le> (if i = e div 1024 then e mod 1024 else 1023) \<longleftrightarrow> i * 1024 + j \<le> e"
  proof (cases "i = e div 1024")
    case False
    then have "(i + 1) * 1024 \<le> e div 1024 * 1024" using assms(3) by (intro mult_right_mono) auto
    also have "\<dots> \<le> e" by (rule div_times_less_eq_dividend)
    finally have "i * 1024 + j \<le> e" using assms(4) by simp
    with False assms(4) show ?thesis by simp
  qed (use div_mult_mod_eq [of e 1024] in \<open>simp; linarith\<close>)
  from lo hi show ?thesis by blast
qed

lemma or_nonzero: "(c :: u32) \<noteq> 0 \<Longrightarrow> x OR c \<noteq> 0"
  by (simp add: or_eq_0_iff)

lemma marked_summary:
  assumes pt: "length pt = 1024" and be: "b \<le> e" "e < 1024" and c: "c \<noteq> 0" "c < 4"
    and pt': "pt' = mark_entries c b e pt"
  shows "table_summary pt' = (if b = 0 \<and> e = 1023 \<or> checkPageTableFullyAllocated pt' then 2 else 1)"
proof -
  have nz: "entry_code (pt' ! j) \<noteq> 0" if "b \<le> j" "j \<le> e" for j
    using that entry_code_or [OF take2_lt4 [OF c(2)]] or_nonzero [OF c(1)]
    by (simp add: pt' mark_entries_nth [OF pt be(2)])
  have "\<not> (\<forall>j < 1024. entry_code (pt' ! j) = 0)"
    using nz [of b] be order_le_less_trans by blast
  then show ?thesis using nz by (auto simp: table_summary_def checkPageTableFullyAllocated_iff)
qed

lemma mark_step:
  assumes inv: "pa_inv st" and ae: "a \<le> e" "e < NUM_PAGES"
    and i: "a div 1024 \<le> i" "i \<le> e div 1024" and c: "c \<noteq> 0" "c < 4"
    and b: "b = (if i = a div 1024 then a mod 1024 else 0)"
    and l: "l = (if i = e div 1024 then e mod 1024 else 1023)"
    and pt': "pt' = mark_entries c b l (pageTables st ! i)"
    and st': "st' = set_pde_code i (if b = 0 \<and> l = 1023 \<or> checkPageTableFullyAllocated pt' then 2 else 1)
      (put_table i pt' st)"
  shows "i < 1023" "pa_inv st'"
    "\<And>p. p < NUM_PAGES \<Longrightarrow> page_code st' p =
       (if p div 1024 = i \<and> a \<le> p \<and> p \<le> e then page_code st p OR c else page_code st p)"
proof -
  show i': "i < 1023" using i(2) ae(2) by (simp add: less_mult_imp_div_less order_le_less_trans)
  have len: "length (pageTables st ! i) = 1024" using inv i' by (simp add: pa_inv_def pa_shape_def)
  have l': "l < 1024" by (simp add: l)
  have "b \<le> l"
  proof (cases "i = a div 1024 \<and> i = e div 1024")
    case True
    then have "a mod 1024 \<le> e mod 1024"
      using ae(1) div_mult_mod_eq [of a 1024] div_mult_mod_eq [of e 1024] by (metis nat_add_left_cancel_le)
    with True show ?thesis by (simp add: b l)
  next
    case False
    have "a mod 1024 \<le> 1023" using mod_less_divisor [of 1024 a] by linarith
    with False show ?thesis by (auto simp: b l)
  qed
  note sum = marked_summary [OF len this l' c pt']
  have len': "length pt' = 1024" by (simp add: pt' mark_entries_nth [OF len l'])
  note u = update_table_inv [OF inv i' len' sum [symmetric]]
  show "pa_inv st'" using u(1) by (simp add: st')
  fix p assume "p < NUM_PAGES"
  have "entry_code (pt' ! (p mod 1024)) =
      (if a \<le> p \<and> p \<le> e then page_code st p OR c else page_code st p)" if "p div 1024 = i"
  proof -
    have "(b \<le> p mod 1024 \<and> p mod 1024 \<le> l) \<longleftrightarrow> (a \<le> p \<and> p \<le> e)"
      using table_range [OF ae(1) i, of "p mod 1024"] that div_mult_mod_eq [of p 1024] by (simp add: b l)
    then show ?thesis
      using that by (simp add: pt' mark_entries_nth [OF len l'] entry_code_or [OF take2_lt4 [OF c(2)]] page_code_def)
  qed
  then show "page_code st' p =
      (if p div 1024 = i \<and> a \<le> p \<and> p \<le> e then page_code st p OR c else page_code st p)"
    by (simp add: st' u(2))
qed

text \<open>The loop both allocation functions run over the tables of a range of pages.\<close>

lemma mark_loop:
  assumes inv: "pa_inv st" and ae: "a \<le> e" "e < NUM_PAGES" and c: "c \<noteq> 0" "c < 4"
    and body: "\<And>i st. a div 1024 \<le> i \<Longrightarrow> i \<le> e div 1024 \<Longrightarrow> pa_inv st \<Longrightarrow> \<exists>st'. f i st = Some st' \<and> pa_inv st' \<and>
      (\<forall>p < NUM_PAGES. page_code st' p =
        (if p div 1024 = i \<and> a \<le> p \<and> p \<le> e then page_code st p OR c else page_code st p))"
    and n: "a div 1024 \<le> n" "n \<le> e div 1024 + 1"
  shows "\<exists>st'. for_each f [a div 1024..<n] st = Some st' \<and> pa_inv st' \<and>
    (\<forall>p < NUM_PAGES. page_code st' p =
      (if p div 1024 < n \<and> a \<le> p \<and> p \<le> e then page_code st p OR c else page_code st p))"
  using n
proof (induction n)
  case (Suc n)
  show ?case
  proof (cases "a div 1024 \<le> n")
    case True
    with Suc obtain st1 where st1: "for_each f [a div 1024..<n] st = Some st1" "pa_inv st1"
      "\<forall>p < NUM_PAGES. page_code st1 p =
        (if p div 1024 < n \<and> a \<le> p \<and> p \<le> e then page_code st p OR c else page_code st p)" by auto
    obtain st2 where st2: "f n st1 = Some st2" "pa_inv st2"
      "\<forall>p < NUM_PAGES. page_code st2 p =
        (if p div 1024 = n \<and> a \<le> p \<and> p \<le> e then page_code st1 p OR c else page_code st1 p)"
      using body [OF True _ st1(2)] Suc.prems by auto
    have "for_each f [a div 1024..<Suc n] st = Some st2"
      using True st1(1) st2(1) by (simp add: for_each_append)
    moreover have "\<forall>p < NUM_PAGES. page_code st2 p =
        (if p div 1024 < Suc n \<and> a \<le> p \<and> p \<le> e then page_code st p OR c else page_code st p)"
      using st1(3) st2(3) by (auto simp: less_Suc_eq)
    ultimately show ?thesis using st2(2) by blast
  next
    case False
    with Suc.prems have "Suc n = a div 1024" by simp
    moreover have "a div 1024 \<le> p div 1024" if "a \<le> p" for p using that by (rule div_le_mono)
    ultimately show ?thesis using inv by (auto simp: not_less [symmetric])
  qed
next
  case 0
  then show ?case using inv by auto
qed

lemma code_cases:
  fixes c :: u32
  assumes "c < 4"
  shows "c = 0 \<or> c = 1 \<or> c = 2 \<or> c = 3"
proof -
  have "unat c = 0 \<or> unat c = 1 \<or> unat c = 2 \<or> unat c = 3"
    using assms by (auto simp: word_less_nat_alt)
  then show ?thesis by (auto simp: word_unat_eq_iff)
qed

lemma choose_code_ok:
  assumes "pre < 4" "post < 4"
  shows "choose_code pre post \<noteq> 0" "choose_code pre post < 4" "choose_code pre post \<noteq> pre"
    "choose_code pre post \<noteq> post"
  using code_cases [OF assms(1)] code_cases [OF assms(2)] by (auto simp: choose_code_def)

lemma page_code_lt4: "page_code st p < 4"
  by (simp add: page_code_def entry_code_lt4)

lemma neighbour_code_in:
  assumes "pa_inv st" "p < NUM_PAGES"
  shows "neighbour_code st p = Some (page_code st p)"
  using assms
  by (simp add: neighbour_code_def getPageTable_def page_code_def pa_inv_def pa_shape_def less_mult_imp_div_less)

lemma summary_branches:
  "(if A then set_pde_code i 2 st else if B then set_pde_code i 2 st else set_pde_code i 1 st) =
    set_pde_code i (if A \<or> B then 2 else 1) st"
  "(if B then set_pde_code i 2 st else set_pde_code i 1 st) = set_pde_code i (if B then 2 else 1) st"
  by simp_all

lemma allocatePagesStartingAtIndex_spec:
  assumes inv: "pa_inv st" and n: "0 < n" and run: "free_run st s (s + n)"
  obtains st' c where "allocatePagesStartingAtIndex st s n = Some st'" "pa_inv st'" "c \<noteq> 0"
    "\<And>p. p < NUM_PAGES \<Longrightarrow> page_code st' p = (if s \<le> p \<and> p < s + n then c else page_code st p)"
    "0 < s \<Longrightarrow> page_code st (s - 1) \<noteq> c" "s + n < NUM_PAGES \<Longrightarrow> page_code st (s + n) \<noteq> c"
proof -
  define e where "e = s + n - 1"
  define pre_code where "pre_code = (if 0 < s then page_code st (s - 1) else 1)"
  define post_code where "post_code = (if e < NUM_PAGES - 1 then page_code st (e + 1) else 1)"
  define c where "c = choose_code pre_code post_code"
  have bound: "s + n \<le> NUM_PAGES" using run by (simp add: free_run_def)
  have lt: "pre_code < 4" "post_code < 4" using page_code_lt4 by (auto simp: pre_code_def post_code_def)
  note c = choose_code_ok [OF lt, folded c_def]
  have pre: "(if 0 < s then neighbour_code st (s - 1) else Some 1) = Some pre_code"
    and post: "(if e < NUM_PAGES - 1 then neighbour_code st (e + 1) else Some 1) = Some post_code"
    using neighbour_code_in [OF inv] bound n by (auto simp: pre_code_def post_code_def e_def)
  let ?f = "\<lambda>i st. do {
      pt \<leftarrow> getPageTable st i;
      let pteBegin = (if i = s div 1024 then s mod 1024 else 0);
          pteEnd = (if i = e div 1024 then e mod 1024 else 1023);
          pt = mark_entries c pteBegin pteEnd pt;
          st = put_table i pt st in
      Some (if pteBegin = 0 \<and> pteEnd = 1023 then set_pde_code i 2 st
            else if checkPageTableFullyAllocated pt then set_pde_code i 2 st
            else set_pde_code i 1 st) }"
  have se: "s \<le> e" "e < NUM_PAGES" "s + n = e + 1" using n bound by (auto simp: e_def)
  have "\<exists>st'. ?f i st = Some st' \<and> pa_inv st' \<and>
      (\<forall>p < NUM_PAGES. page_code st' p =
        (if p div 1024 = i \<and> s \<le> p \<and> p \<le> e then page_code st p OR c else page_code st p))"
    if "s div 1024 \<le> i" "i \<le> e div 1024" "pa_inv st" for i st
  proof -
    note m = mark_step [OF that(3) se(1,2) that(1,2) c(1,2) refl refl refl refl]
    show ?thesis
      unfolding Let_def summary_branches(1) getPageTable_def if_P [OF m(1)] bind.bind_lunit
      by (intro exI conjI allI impI, rule refl, rule m(2), rule m(3))
  qed
  moreover have "s div 1024 \<le> e div 1024 + 1" using div_le_mono [OF se(1), of 1024] by simp
  ultimately
  obtain st' where st': "for_each ?f [s div 1024..<e div 1024 + 1] st = Some st'" "pa_inv st'"
    "\<forall>p < NUM_PAGES. page_code st' p =
      (if p div 1024 < e div 1024 + 1 \<and> s \<le> p \<and> p \<le> e then page_code st p OR c else page_code st p)"
    using mark_loop [OF inv se(1,2) c(1,2), of ?f "e div 1024 + 1"] by blast
  have "page_code st' p = (if s \<le> p \<and> p < s + n then c else page_code st p)" if "p < NUM_PAGES" for p
  proof (cases "s \<le> p \<and> p < s + n")
    case True
    then have "p \<le> e" "page_code st p = 0" using run se(3) by (auto simp: free_run_def)
    moreover have "p div 1024 < e div 1024 + 1" using div_le_mono [OF \<open>p \<le> e\<close>, of 1024] by linarith
    ultimately show ?thesis using st'(3) that True by simp
  next
    case False
    then have "\<not> (s \<le> p \<and> p \<le> e)" using se(3) by auto
    with st'(3) that False show ?thesis by auto
  qed
  moreover have "n \<noteq> 0" using n by simp
  then have "allocatePagesStartingAtIndex st s n = Some st'"
    using st'(1) unfolding allocatePagesStartingAtIndex_def Let_def e_def [symmetric] pre post c_def
    by (simp only: if_False bind.bind_lunit)
  moreover have "page_code st (s - 1) \<noteq> c" if "0 < s" using c(3) that by (simp add: pre_code_def)
  moreover have "page_code st (s + n) \<noteq> c" if "s + n < NUM_PAGES"
  proof -
    have "e < NUM_PAGES - 1" using se(3) that by simp
    with c(4) se(3) show ?thesis by (simp add: post_code_def)
  qed
  ultimately show thesis using that [of st' c] st'(2) c(1) by blast
qed

lemma allocatePageRange_spec:
  assumes inv: "pa_inv st" and fl: "unat f \<le> unat l" "unat l < NUM_PAGES"
  obtains st' where "allocatePageRange st f l = Some st'" "pa_inv st'"
    "\<And>p. p < NUM_PAGES \<Longrightarrow> page_code st' p =
       (if unat f \<le> p \<and> p \<le> unat l then page_code st p OR 1 else page_code st p)"
proof -
  let ?f = "\<lambda>i st. do {
      pt \<leftarrow> getPageTable st i;
      let pteBegin = (if i = unat f div 1024 then unat f mod 1024 else 0);
          pteEnd = (if i = unat l div 1024 then unat l mod 1024 else 1023);
          pt = mark_entries 1 pteBegin pteEnd pt;
          st = put_table i pt st in
      Some (if checkPageTableFullyAllocated pt then set_pde_code i 2 st else set_pde_code i 1 st) }"
  have "\<exists>st'. ?f i st = Some st' \<and> pa_inv st' \<and>
      (\<forall>p < NUM_PAGES. page_code st' p =
        (if p div 1024 = i \<and> unat f \<le> p \<and> p \<le> unat l then page_code st p OR 1 else page_code st p))"
    if i: "unat f div 1024 \<le> i" "i \<le> unat l div 1024" and inv: "pa_inv st" for i st
  proof -
    let ?b = "if i = unat f div 1024 then unat f mod 1024 else 0"
    let ?e = "if i = unat l div 1024 then unat l mod 1024 else 1023"
    let ?pt = "mark_entries 1 ?b ?e (pageTables st ! i)"
    have one: "(1 :: u32) \<noteq> 0" "(1 :: u32) < 4" by simp_all
    note m = mark_step [OF inv fl i one refl refl refl refl]
    have len: "length (pageTables st ! i) = 1024" using inv m(1) by (simp add: pa_inv_def pa_shape_def)
    have "checkPageTableFullyAllocated ?pt" if "?b = 0 \<and> ?e = 1023"
      using mark_entries_nth [OF len, of 1023 1 0] that or_nonzero [of 1]
      by (simp add: checkPageTableFullyAllocated_iff entry_code_or)
    then have "(?b = 0 \<and> ?e = 1023 \<or> checkPageTableFullyAllocated ?pt) = checkPageTableFullyAllocated ?pt"
      by blast
    note m' = m [unfolded this]
    show ?thesis
      unfolding Let_def summary_branches(2) getPageTable_def if_P [OF m'(1)] bind.bind_lunit
      using m'(2,3) by simp
  qed
  from mark_loop [OF inv fl _ _ this, of "unat l div 1024 + 1"]
  obtain st' where st': "for_each ?f [unat f div 1024..<unat l div 1024 + 1] st = Some st'" "pa_inv st'"
    "\<forall>p < NUM_PAGES. page_code st' p =
      (if p div 1024 < unat l div 1024 + 1 \<and> unat f \<le> p \<and> p \<le> unat l then page_code st p OR 1 else page_code st p)"
    using fl div_le_mono [of "unat f" "unat l" 1024] by auto
  have "unat l div 1024 < 1023" using fl(2) by (simp add: less_mult_imp_div_less)
  then have "min (unat l div 1024) 1023 = unat l div 1024" by simp
  then have "allocatePageRange st f l = Some st'"
    using st'(1) by (simp only: allocatePageRange_def Let_def)
  with st' show thesis
    by (intro that) (auto simp: less_Suc_eq_le div_le_mono)
qed

subsection \<open>The search\<close>

lemma scan_free_tables_all:
  "scan_free_tables es i j n = Some k \<Longrightarrow>
     (\<forall>l. j \<le> l \<longrightarrow> l < k \<longrightarrow> i + l + 1 < length es \<and> entry_code (es ! (i + l + 1)) = 0)"
proof (induction n arbitrary: j)
  case (Suc n)
  then have len: "i + j + 1 < length es"
    by (auto simp: arr_get_def split: if_splits)
  show ?case
  proof (cases "entry_code (es ! (i + j + 1)) = 0")
    case True
    with Suc.prems len have "scan_free_tables es i (j + 1) n = Some k" by simp
    from Suc.IH [OF this] True len show ?thesis by (metis Suc_eq_plus1 Suc_leI order_le_less)
  next
    case False
    with Suc.prems len have "k = j" by simp
    then show ?thesis by auto
  qed
qed auto

lemma search_table_found:
  "search_table st M R i = Some k \<Longrightarrow> k < 1023 \<Longrightarrow> search_step st M R k = Some Break"
proof (induction st M R i rule: search_table.induct)
  case (1 st M R i)
  then show ?case
    by (cases "search_step st M R i")
      (auto simp: search_table.simps [of st M R i]
        split: search_result.splits if_splits)
qed

text \<open>What a table found by the search satisfies.\<close>

lemma search_step_Break:
  assumes "search_step st M R i = Some Break" "i < 1023" "pa_shape st"
    and j: "j = (if pde_code st i = 0 \<and> M \<noteq> 0 then M - 1 else M)"
    and nb: "nb = numFreeAtBegin (getPageTable st (i + j + 1))"
  shows "pde_code st i \<noteq> 2"
    "scan_free_tables (pageDirectoryEntries (pageDirectory st)) i 0 j = Some j"
    "M = 0 \<Longrightarrow> R \<le> findMaxFreeSpaceStartingFromTable st i"
    "M \<noteq> 0 \<Longrightarrow> R \<le> (if pde_code st i \<noteq> 0 then numFreeAtEnd (getPageTable st i) else 0) + nb +
         (if nb = 1024 then numFreeAtBegin (getPageTable st (i + j + 2)) else 0)"
  using assms
  by (auto simp: search_step_def Let_def pde_code_def pa_shape_def
      split: Option.bind_splits if_splits)

lemma free_run_append: "free_run st a b \<Longrightarrow> free_run st b c \<Longrightarrow> free_run st a c"
  by (force simp: free_run_def)

lemma free_run_shorten: "free_run st a b \<Longrightarrow> c \<le> b \<Longrightarrow> free_run st a c"
  by (auto simp: free_run_def)

lemma free_run_table:
  assumes "i < 1023" "k \<le> 1024" "\<And>j. l \<le> j \<Longrightarrow> j < k \<Longrightarrow> entry_code (pageTables st ! i ! j) = 0"
  shows "free_run st (i * 1024 + l) (i * 1024 + k)"
proof -
  have "i * 1024 + 1024 \<le> NUM_PAGES" using assms(1) by simp
  moreover have "page_code st p = 0" if "i * 1024 + l \<le> p" "p < i * 1024 + k" for p
    using page_of [of "p - i * 1024" st i] assms(2) assms(3) [of "p - i * 1024"] that by simp
  ultimately show ?thesis using assms(2) by (simp add: free_run_def)
qed

lemma takeWhile_nth_P: "k < length (takeWhile P xs) \<Longrightarrow> P (xs ! k)"
  using takeWhile_nth [of k P xs] nth_mem [of k "takeWhile P xs"] set_takeWhileD [of "xs ! k" P xs]
  by fastforce

lemma numFreeAtBegin_le: "numFreeAtBegin pt \<le> 1024"
  using length_takeWhile_le [of _ "[0..<1024]"] by (auto simp: numFreeAtBegin_def split: option.splits)

lemma numFreeAtBegin_run:
  assumes "n = numFreeAtBegin (getPageTable st i)" "0 < n"
  shows "free_run st (i * 1024) (i * 1024 + n)" "i < 1023"
proof -
  show i: "i < 1023" using assms by (auto simp: numFreeAtBegin_def getPageTable_def split: if_splits)
  have n: "n = length (takeWhile (\<lambda>j. entry_code (pageTables st ! i ! j) = 0) [0..<1024])"
    using assms i by (simp add: numFreeAtBegin_def getPageTable_def)
  have "entry_code (pageTables st ! i ! j) = 0" if "j < n" for j
    using takeWhile_nth_P [of j _ "[0..<1024]"] that n numFreeAtBegin_le [of "getPageTable st i"] assms(1)
    by fastforce
  with free_run_table [OF i, of n 0 st] numFreeAtBegin_le [of "getPageTable st i"] assms(1)
  show "free_run st (i * 1024) (i * 1024 + n)" by simp
qed

lemma numFreeAtEnd_run:
  assumes "n = numFreeAtEnd (getPageTable st i)" "i < 1023"
  shows "n \<le> 1024" "\<And>j. 1024 - n \<le> j \<Longrightarrow> j < 1024 \<Longrightarrow> entry_code (pageTables st ! i ! j) = 0"
proof -
  let ?P = "\<lambda>j. entry_code (pageTables st ! i ! j) = 0"
  have n: "n = length (takeWhile ?P (rev [0..<1024]))"
    using assms by (simp add: numFreeAtEnd_def getPageTable_def)
  show n': "n \<le> 1024" using length_takeWhile_le [of ?P "rev [0..<1024]"] n by simp
  fix j assume j: "1024 - n \<le> j" "j < 1024"
  have "1023 - j < n" using j n' by linarith
  then have "?P (rev [0..<1024] ! (1023 - j))" using takeWhile_nth_P [of "1023 - j" ?P "rev [0..<1024]"] n by simp
  moreover have "rev [0..<1024] ! (1023 - j) = j" using j by (simp add: rev_nth)
  ultimately show "?P j" by simp
qed

lemma behind_last_allocated_bounds:
  "behind_last_allocated pt \<le> 1024"
  "behind_last_allocated pt \<le> j \<Longrightarrow> j < 1024 \<Longrightarrow> entry_code (pt ! j) = 0"
  "0 < behind_last_allocated pt \<Longrightarrow> entry_code (pt ! (behind_last_allocated pt - 1)) \<noteq> 0"
proof -
  let ?P = "\<lambda>j. \<not> entry_free (pt ! j)" and ?xs = "rev [0..<1024]"
  have "behind_last_allocated pt \<le> 1024 \<and>
    (\<forall>j. behind_last_allocated pt \<le> j \<longrightarrow> j < 1024 \<longrightarrow> entry_code (pt ! j) = 0) \<and>
    (0 < behind_last_allocated pt \<longrightarrow> entry_code (pt ! (behind_last_allocated pt - 1)) \<noteq> 0)"
  proof (cases "find ?P ?xs")
    case None
    then have "behind_last_allocated pt = 0" unfolding behind_last_allocated_def by (simp only: option.case)
    moreover have "\<forall>j < 1024. entry_code (pt ! j) = 0" using None by (auto simp: find_None_iff)
    ultimately show ?thesis by simp
  next
    case (Some k)
    then obtain l where l: "l < 1024" "?P k" "k = ?xs ! l" "\<forall>m < l. \<not> ?P (?xs ! m)"
      by (auto simp: find_Some_iff)
    have k: "k = 1023 - l" using l by (simp add: rev_nth)
    have "entry_code (pt ! j) = 0" if "k + 1 \<le> j" "j < 1024" for j
    proof -
      have "1023 - j < l" "?xs ! (1023 - j) = j" using that k l(1) by (simp_all add: rev_nth)
      with l(4) show ?thesis by force
    qed
    moreover have "behind_last_allocated pt = k + 1" using Some by (simp add: behind_last_allocated_def)
    ultimately show ?thesis using l k by auto
  qed
  then show "behind_last_allocated pt \<le> 1024"
    "behind_last_allocated pt \<le> j \<Longrightarrow> j < 1024 \<Longrightarrow> entry_code (pt ! j) = 0"
    "0 < behind_last_allocated pt \<Longrightarrow> entry_code (pt ! (behind_last_allocated pt - 1)) \<noteq> 0" by auto
qed

lemma numFreeAtEnd_behind:
  assumes "i < 1023"
  shows "numFreeAtEnd (getPageTable st i) \<le> 1024 - behind_last_allocated (pageTables st ! i)"
proof (rule ccontr)
  let ?n = "numFreeAtEnd (getPageTable st i)" and ?b = "behind_last_allocated (pageTables st ! i)"
  assume a: "\<not> ?n \<le> 1024 - ?b"
  have b: "?b \<le> 1024" "?n \<le> 1024" using behind_last_allocated_bounds(1) numFreeAtEnd_run(1) [OF refl assms] by auto
  then have "0 < ?b" "1024 - ?n \<le> ?b - 1" "?b - 1 < 1024" using a by auto
  with behind_last_allocated_bounds(3) numFreeAtEnd_run(2) [OF refl assms] show False by blast
qed

text \<open>The two passes over a table, one that measures the longest run and one that finds the first
  run of the wanted length, agree.\<close>

lemma first_fit_scan:
  assumes "m \<le> n" "lastj + counter = m" "counter < R" "retVal < R"
    "\<And>j. lastj \<le> j \<Longrightarrow> j < m \<Longrightarrow> entry_code (pt ! j) = 0"
    and l: "l = first_fit pt R [m..<n] lastj counter"
    and s: "(retVal', counter') = fold (scan_entry pt) [m..<n] (retVal, counter)"
  shows "l + R \<le> n \<and> (\<forall>j. l \<le> j \<longrightarrow> j < l + R \<longrightarrow> entry_code (pt ! j) = 0) \<or>
    l + counter' = n \<and> retVal' < R \<and> (\<forall>j. l \<le> j \<longrightarrow> j < n \<longrightarrow> entry_code (pt ! j) = 0)"
  using assms
proof (induction "n - m" arbitrary: m lastj counter retVal)
  case 0
  then show ?case by auto
next
  case (Suc d)
  then have m: "[m..<n] = m # [Suc m..<n]" by (simp add: upt_conv_Cons)
  show ?case
  proof (cases "entry_code (pt ! m) = 0")
    case True
    have free: "entry_code (pt ! j) = 0" if "lastj \<le> j" "j < Suc m" for j
      using Suc.prems(5) [of j] that True by (cases "j = m") auto
    show ?thesis
    proof (cases "R \<le> counter + 1")
      case fits: True
      then have "l = lastj" "l + R = Suc m" using Suc.prems m True by auto
      with free Suc.hyps(2) show ?thesis by auto
    next
      case False
      with Suc.prems m True free Suc.hyps(2) show ?thesis
        by (intro Suc.hyps(1) [of "Suc m" lastj "counter + 1" retVal]) (auto simp: scan_entry_def)
    qed
  next
    case False
    with Suc.prems m Suc.hyps(2) show ?thesis
      by (intro Suc.hyps(1) [of "Suc m" "Suc m" 0 "max counter retVal"]) (auto simp: scan_entry_def)
  qed
qed

text \<open>A run that starts in one table and goes on in the following two.\<close>

lemma free_run_tables:
  assumes start: "free_run st a (i * 1024)"
    and nb: "nb = numFreeAtBegin (getPageTable st i)" and k: "k = i + 1"
  shows "free_run st a (i * 1024 + nb + (if nb = 1024 then numFreeAtBegin (getPageTable st k) else 0))"
proof -
  let ?n2 = "numFreeAtBegin (getPageTable st (i + 1))"
  have 1: "free_run st a (i * 1024 + nb)"
    using start numFreeAtBegin_run(1) [OF nb] free_run_append by (cases "nb = 0") auto
  show ?thesis
  proof (cases "nb = 1024 \<and> ?n2 \<noteq> 0")
    case True
    then have "free_run st ((i + 1) * 1024) ((i + 1) * 1024 + ?n2)" using numFreeAtBegin_run(1) [OF refl] by blast
    with True 1 free_run_append [of st a "(i + 1) * 1024"] show ?thesis by (simp add: add_ac k)
  qed (use 1 k in auto)
qed

lemma small_region_free:
  assumes i: "i < 1023" and R: "0 < R" "R \<le> findMaxFreeSpaceStartingFromTable st i"
    and s: "s = i * 1024 + first_fit (pageTables st ! i) R [0..<1024] 0 0"
  shows "free_run st s (s + R)"
proof -
  let ?pt = "pageTables st ! i" and ?l = "first_fit (pageTables st ! i) R [0..<1024] 0 0"
  let ?nb = "numFreeAtBegin (getPageTable st (i + 1))"
  obtain retVal counter where rc: "(retVal, counter) = fold (scan_entry ?pt) [0..<1024] (0, 0)"
    by (metis surj_pair)
  consider (inside) "?l + R \<le> 1024" "\<forall>j. ?l \<le> j \<longrightarrow> j < ?l + R \<longrightarrow> entry_code (?pt ! j) = 0"
    | (trailing) "?l + counter = 1024" "retVal < R" "\<forall>j. ?l \<le> j \<longrightarrow> j < 1024 \<longrightarrow> entry_code (?pt ! j) = 0"
    using first_fit_scan [OF _ _ _ _ _ refl rc, of 0 R] R(1) by auto
  then show ?thesis
  proof cases
    case inside
    then show ?thesis using free_run_table [OF i inside(1), of ?l st] by (simp add: s add.assoc)
  next
    case trailing
    have "free_run st s ((i + 1) * 1024)"
      using free_run_table [OF i order_refl, of ?l st] trailing(3) by (simp add: s add_ac)
    from free_run_tables [OF this refl, of "i + 2"]
    have run: "free_run st s ((i + 1) * 1024 + ?nb +
        (if ?nb = 1024 then numFreeAtBegin (getPageTable st (i + 2)) else 0))" by simp
    have "R \<le> counter + ?nb + (if ?nb = 1024 then numFreeAtBegin (getPageTable st (i + 2)) else 0)"
      using R(2) trailing(2) i rc [symmetric]
      by (auto simp: findMaxFreeSpaceStartingFromTable_def Let_def split: if_splits)
    with trailing(1) show ?thesis by (intro free_run_shorten [OF run]) (simp add: s)
  qed
qed

lemma code_zero_run:
  assumes "pa_inv st" "pde_code st i = 0" "i < 1023"
  shows "free_run st (i * 1024) ((i + 1) * 1024)"
proof -
  have "entry_code (pageTables st ! i ! j) = 0" if "j < 1024" for j
    using assms that by (auto simp: pa_inv_def table_summary_def split: if_splits)
  then show ?thesis using free_run_table [OF assms(3) order_refl, of 0 st] by (simp add: add.commute)
qed

lemma code_zero_runs:
  assumes "pa_inv st" "\<forall>l < j. pde_code st (i + l) = 0" "i + j \<le> 1023"
  shows "free_run st (i * 1024) ((i + j) * 1024)"
  using assms(2,3)
proof (induction j)
  case 0
  then show ?case by (simp add: free_run_def)
next
  case (Suc j)
  then have "free_run st (i * 1024) ((i + j) * 1024)" by simp
  moreover have "free_run st ((i + j) * 1024) ((i + j + 1) * 1024)"
    using code_zero_run [OF assms(1), of "i + j"] Suc.prems by simp
  ultimately show ?case using free_run_append by fastforce
qed

lemma big_region_free:
  assumes inv: "pa_inv st" and brk: "search_step st M R i = Some Break" and i: "i < 1023"
    and M: "0 < M" and R: "1023 < R"
    and s: "s = i * 1024 + behind_last_allocated (pageTables st ! i)"
  shows "free_run st s (s + M * 1024 + R)"
proof -
  let ?b = "behind_last_allocated (pageTables st ! i)"
  define j where "j = (if pde_code st i = 0 \<and> M \<noteq> 0 then M - 1 else M)"
  let ?nb = "numFreeAtBegin (getPageTable st (i + j + 1))"
  let ?n2 = "if ?nb = 1024 then numFreeAtBegin (getPageTable st (i + j + 2)) else 0"
  let ?es = "pageDirectoryEntries (pageDirectory st)"
  have shape: "pa_shape st" using inv by (simp add: pa_inv_def)
  note b = search_step_Break [OF brk i shape j_def refl]
  have found: "R \<le> (if pde_code st i \<noteq> 0 then numFreeAtEnd (getPageTable st i) else 0) + ?nb + ?n2"
    using b(4) M by blast
  have end0: "pde_code st i \<noteq> 0 \<Longrightarrow> numFreeAtEnd (getPageTable st i) < 1024"
  proof (rule ccontr)
    assume c: "pde_code st i \<noteq> 0" "\<not> numFreeAtEnd (getPageTable st i) < 1024"
    with numFreeAtEnd_run [OF refl i, of st] have "\<forall>j < 1024. entry_code (pageTables st ! i ! j) = 0" by simp
    with inv i have "pde_code st i = 0" by (simp add: pa_inv_def table_summary_def)
    with c(1) show False by simp
  qed
  have nb: "0 < ?nb"
  proof (rule ccontr)
    assume "\<not> 0 < ?nb"
    then show False using found end0 R by (auto split: if_splits)
  qed
  then have le: "i + j + 1 < 1023" using numFreeAtBegin_run(2) [OF refl] by blast
  have codes: "\<forall>l < j. pde_code st (i + 1 + l) = 0"
    using scan_free_tables_all [OF b(2)] by (auto simp: pde_code_def)
  have first: "free_run st s ((i + 1) * 1024)"
    using free_run_table [OF i order_refl, of ?b st] behind_last_allocated_bounds(2) by (simp add: s add_ac)
  have "free_run st ((i + 1) * 1024) ((i + 1 + j) * 1024)"
    using code_zero_runs [OF inv codes] le by simp
  from free_run_append [OF first this] have "free_run st s ((i + j + 1) * 1024)" by (simp add: add_ac)
  from free_run_tables [OF this refl, of "i + j + 2"]
  have run: "free_run st s ((i + j + 1) * 1024 + ?nb + ?n2)" by simp
  have "s + M * 1024 + R \<le> (i + j + 1) * 1024 + ?nb + ?n2"
  proof (cases "pde_code st i = 0")
    case True
    then have "\<forall>j < 1024. entry_code (pageTables st ! i ! j) = 0"
      using inv i by (auto simp: pa_inv_def table_summary_def split: if_splits)
    then have "?b = 0" using behind_last_allocated_bounds(1,3) [of "pageTables st ! i"] by fastforce
    with True found M s show ?thesis by (cases M) (auto simp: j_def)
  next
    case False
    with found s numFreeAtEnd_behind [OF i, of st] behind_last_allocated_bounds(1) [of "pageTables st ! i"]
    show ?thesis by (auto simp: j_def)
  qed
  then show ?thesis by (rule free_run_shorten [OF run])
qed

lemma scan_free_tables_total:
  assumes "i + j + n < length es"
  shows "\<exists>k. scan_free_tables es i j n = Some k"
  using assms by (induction n arbitrary: j) auto

lemma search_step_total:
  assumes "pa_shape st" "i < 1023" "M \<le> 1"
  shows "\<exists>r. search_step st M R i = Some r"
proof -
  let ?es = "pageDirectoryEntries (pageDirectory st)"
  let ?rem = "if entry_code (?es ! i) = 0 \<and> M \<noteq> 0 then M - 1 else M"
  have "?rem \<le> 1" using assms(3) by simp
  then have "i + 0 + ?rem < length ?es" using assms(1,2) unfolding pa_shape_def by linarith
  from scan_free_tables_total [OF this] obtain j where "scan_free_tables ?es i 0 ?rem = Some j" by blast
  with assms show ?thesis
    by (simp add: search_step_def pa_shape_def Let_def del: scan_free_tables.simps)
qed

lemma search_table_total:
  "pa_shape st \<Longrightarrow> M \<le> 1 \<Longrightarrow> \<exists>k. search_table st M R i = Some k"
proof (induction st M R i rule: search_table.induct)
  case (1 st M R i)
  show ?case
  proof (cases "1023 \<le> i")
    case False
    then obtain r where r: "search_step st M R i = Some r" using search_step_total 1 by (meson not_le)
    with 1 False show ?thesis by (cases r) (auto simp: search_table.simps [of st M R i])
  qed (simp add: search_table.simps [of st M R i])
qed

text \<open>The split of a request into whole tables and remaining pages.\<close>

lemma request_split:
  fixes n :: nat
  assumes "0 < n" "n < 2047 \<or> n mod 1024 \<noteq> 1023"
    and M: "M = (if n < 2 * 1023 then 0 else (n - 1023) div 1024)" and R: "R = n - M * 1024"
  shows "M * 1024 + R = n" "M = 0 \<Longrightarrow> 0 < R" "0 < M \<Longrightarrow> 1023 < R" "n < 3071 \<Longrightarrow> M \<le> 1"
proof -
  have dm: "(n - 1023) div 1024 * 1024 + (n - 1023) mod 1024 = n - 1023" by simp
  show eq: "M * 1024 + R = n" using dm by (auto simp: M R)
  show "M = 0 \<Longrightarrow> 0 < R" using eq assms(1) by simp
  show "n < 3071 \<Longrightarrow> M \<le> 1" by (auto simp: M)
  assume m: "0 < M"
  then have n: "2046 \<le> n" "1024 \<le> n - 1023" and M': "M = (n - 1023) div 1024"
    by (auto simp: M split: if_splits)
  have "(n - 1023) mod 1024 \<noteq> 0"
  proof
    assume "(n - 1023) mod 1024 = 0"
    then obtain q where "n - 1023 = 1024 * q" by auto
    then have "n = 1023 + 1024 * q" using n by linarith
    then have "n mod 1024 = 1023" by simp
    with assms(2) n show False by auto
  qed
  with dm n M' R show "1023 < R" by linarith
qed

definition region_start :: "PagingStructures \<Rightarrow> nat \<Rightarrow> nat \<Rightarrow> nat \<Rightarrow> nat" where
  "region_start st M R i = i * 1024 + (if M = 0 then first_fit (pageTables st ! i) R [0..<1024] 0 0
      else behind_last_allocated (pageTables st ! i))"

lemma allocateContiguousPages_unfold:
  assumes "n = unat np" "0 < n" "M = (if n < 2 * 1023 then 0 else (n - 1023) div 1024)" "R = n - M * 1024"
  shows "allocateContiguousPages st np = do {
      i \<leftarrow> search_table st M R 0;
      if 1023 \<le> i then Some (0xFFC00000, st)
      else do {
        st' \<leftarrow> allocatePagesStartingAtIndex st (region_start st M R i) n;
        Some (of_nat (region_start st M R i) * 0x1000, st') } }"
  unfolding allocateContiguousPages_def Let_def assms(1) [symmetric] assms(3) [symmetric] assms(4) [symmetric]
    region_start_def [symmetric]
  using assms(2) by simp

lemma region_start_free:
  assumes inv: "pa_inv st" and n: "M * 1024 + R = n" "M = 0 \<Longrightarrow> 0 < R" "0 < M \<Longrightarrow> 1023 < R"
    and i: "search_table st M R 0 = Some i" "i < 1023"
  shows "free_run st (region_start st M R i) (region_start st M R i + n)"
proof -
  have brk: "search_step st M R i = Some Break" by (rule search_table_found [OF i])
  show ?thesis
  proof (cases "M = 0")
    case True
    then have "R \<le> findMaxFreeSpaceStartingFromTable st i"
      using search_step_Break(3) [OF brk i(2)] inv by (auto simp: pa_inv_def)
    from small_region_free [OF i(2) n(2) [OF True] this] True n(1) show ?thesis
      by (simp add: region_start_def)
  next
    case False
    then show ?thesis
      using big_region_free [OF inv brk i(2) _ n(3)] n(1) by (simp add: region_start_def add.assoc)
  qed
qed

text \<open>Soundness of an allocation: it either reports failure (address \<open>0xFFC00000\<close>) and changes nothing,
  or marks a run of the requested length that was free.\<close>

lemma allocateContiguousPages_region:
  assumes inv: "pa_inv st" and np: "n = unat np" "0 < n" "n < 2047 \<or> n mod 1024 \<noteq> 1023"
    and res: "allocateContiguousPages st np = Some (addr, st')"
  shows "addr = 0xFFC00000 \<and> st' = st \<or>
    (\<exists>s. free_run st s (s + n) \<and> allocatePagesStartingAtIndex st s n = Some st' \<and> addr = of_nat s * 0x1000)"
proof -
  define M where "M = (if n < 2 * 1023 then 0 else (n - 1023) div 1024)"
  define R where "R = n - M * 1024"
  note split = request_split [OF np(2,3) M_def R_def] and unf = allocateContiguousPages_unfold [OF np(1,2) M_def R_def]
  obtain i where i: "search_table st M R 0 = Some i" using res unf by (cases "search_table st M R 0") auto
  show ?thesis
  proof (cases "1023 \<le> i")
    case False
    then have "free_run st (region_start st M R i) (region_start st M R i + n)"
      using region_start_free [OF inv split(1-3) i] by simp
    with False res unf i show ?thesis by (auto split: Option.bind_splits)
  qed (use res unf i in simp)
qed

lemma allocateContiguousPages_total:
  assumes inv: "pa_inv st" and np: "n = unat np" "0 < n" "n < 3071" "n \<noteq> 2047"
  shows "\<exists>addr st'. allocateContiguousPages st np = Some (addr, st')"
proof -
  define M where "M = (if n < 2 * 1023 then 0 else (n - 1023) div 1024)"
  define R where "R = n - M * 1024"
  have nm: "n < 2047 \<or> n mod 1024 \<noteq> 1023"
  proof (cases "n < 2047")
    case False
    then have "n mod 1024 = n - 2048" using np by (intro mod_nat_eqI) auto
    then show ?thesis using np by linarith
  qed simp
  note split = request_split [OF np(2) nm M_def R_def] and unf = allocateContiguousPages_unfold [OF np(1,2) M_def R_def]
  obtain i where i: "search_table st M R 0 = Some i"
    using search_table_total [of st M R 0] inv split(4) [OF np(3)] by (auto simp: pa_inv_def)
  show ?thesis
  proof (cases "1023 \<le> i")
    case False
    then obtain st' where "allocatePagesStartingAtIndex st (region_start st M R i) n = Some st'"
      using region_start_free [OF inv split(1-3) i] allocatePagesStartingAtIndex_spec [OF inv np(2)]
      by (metis not_le)
    with unf i False show ?thesis by simp
  qed (use unf i in simp)
qed

subsection \<open>Freeing\<close>

lemma put_table_same: "pa_shape st \<Longrightarrow> i < 1023 \<Longrightarrow> put_table i (pageTables st ! i) st = st"
  by (simp add: put_table_def)

lemma takeWhile_upt_end:
  assumes "b \<le> n" "k = b + length (takeWhile P [b..<n])"
  shows "k \<le> n" "\<And>j. b \<le> j \<Longrightarrow> j < k \<Longrightarrow> P j" "k < n \<Longrightarrow> \<not> P k"
proof -
  show k: "k \<le> n" using length_takeWhile_le [of P "[b..<n]"] assms by simp
  fix j assume j: "b \<le> j" "j < k"
  then have "P ([b..<n] ! (j - b))" using takeWhile_nth_P [of "j - b" P "[b..<n]"] assms(2) by simp
  moreover have "[b..<n] ! (j - b) = j" using j k by simp
  ultimately show "P j" by simp
next
  assume "k < n"
  then have "length (takeWhile P [b..<n]) < length [b..<n]" using assms by simp
  then have "\<not> P ([b..<n] ! length (takeWhile P [b..<n]))" by (rule nth_length_takeWhile)
  with assms \<open>k < n\<close> show "\<not> P k" by simp
qed

lemma free_in_table_spec:
  assumes inv: "pa_inv st" and i: "i < 1023" and b: "b < 1024"
    and res: "free_in_table c i b st = (st', cont)"
  obtains k where "b \<le> k" "k \<le> 1024" "\<And>j. b \<le> j \<Longrightarrow> j < k \<Longrightarrow> page_code st (i * 1024 + j) = c"
    "k < 1024 \<Longrightarrow> page_code st (i * 1024 + k) \<noteq> c" "pa_inv st'" "cont = (k = 1024)"
    "\<And>p. page_code st' p = (if i * 1024 + b \<le> p \<and> p < i * 1024 + k then 0 else page_code st p)"
proof -
  let ?pt = "pageTables st ! i"
  define k where "k = b + length (takeWhile (\<lambda>j. entry_code (?pt ! j) = c) [b..<1024])"
  define pt' where "pt' = fold (\<lambda>j pt. pt[j := clear_code (pt ! j)]) [b..<k] ?pt"
  note k = takeWhile_upt_end [OF less_imp_le [OF b] k_def]
  have shape: "pa_shape st" and len: "length ?pt = 1024" using inv i by (auto simp: pa_inv_def pa_shape_def)
  have pt': "pt' ! j = (if b \<le> j \<and> j < k then clear_code (?pt ! j) else ?pt ! j)" "length pt' = 1024" for j
    using fold_update_range [of k ?pt clear_code b] k(1) len by (simp_all add: pt'_def)
  define summary where "summary = (if b = 0 \<and> k = 1024 then 0
      else if checkPageTableFullyNotAllocated pt' then 0 else 1 :: u32)"
  have same: "put_table i pt' st = st" if "b = k"
    using that put_table_same [OF shape i] by (simp add: pt'_def)
  have "free_in_table c i b st = (if b = 0 \<and> k = 1024 then set_pde_code i 0 (put_table i pt' st)
      else if b = k then put_table i pt' st
      else if checkPageTableFullyNotAllocated pt' then set_pde_code i 0 (put_table i pt' st)
      else set_pde_code i 1 (put_table i pt' st), k = 1024)"
    unfolding free_in_table_def Let_def k_def [symmetric] pt'_def [symmetric] ..
  with res b same have st': "st' = (if b = k then st else set_pde_code i summary (put_table i pt' st))"
    "cont = (k = 1024)"
    by (auto simp: summary_def split: if_splits)
  have bk: "b \<le> k" by (simp add: k_def)
  have sum: "summary = table_summary pt'" if "b \<noteq> k"
  proof (cases "\<forall>j < 1024. entry_code (pt' ! j) = 0")
    case True
    then show ?thesis by (simp add: summary_def table_summary_def checkPageTableFullyNotAllocated_iff)
  next
    case False
    have "\<not> (b = 0 \<and> k = 1024)" using False pt'(1) by auto
    moreover have "\<not> (\<forall>j < 1024. entry_code (pt' ! j) \<noteq> 0)"
      using that bk b pt'(1) [of b] by (auto intro!: exI [of _ b])
    ultimately show ?thesis
      using False by (auto simp: summary_def table_summary_def checkPageTableFullyNotAllocated_iff)
  qed
  have inv': "pa_inv st'" using st'(1) inv update_table_inv(1) [OF inv i pt'(2) sum] by simp
  have codes: "page_code st' p = (if i * 1024 + b \<le> p \<and> p < i * 1024 + k then 0 else page_code st p)" for p
  proof (cases "b = k")
    case False
    have "(p div 1024 = i \<and> b \<le> p mod 1024 \<and> p mod 1024 < k) = (i * 1024 + b \<le> p \<and> p < i * 1024 + k)"
    proof
      assume "p div 1024 = i \<and> b \<le> p mod 1024 \<and> p mod 1024 < k"
      then show "i * 1024 + b \<le> p \<and> p < i * 1024 + k" using div_mult_mod_eq [of p 1024] by auto
    next
      assume a: "i * 1024 + b \<le> p \<and> p < i * 1024 + k"
      then have "p div 1024 = i" using k(1) by (intro div_nat_eqI) auto
      with a show "p div 1024 = i \<and> b \<le> p mod 1024 \<and> p mod 1024 < k" using div_mult_mod_eq [of p 1024] by auto
    qed
    then show ?thesis
      using False st'(1) update_table_inv(2) [OF inv i pt'(2) sum, of p] pt'(1) [of "p mod 1024"]
      by (auto simp: page_code_def)
  qed (use st'(1) in auto)
  have run: "page_code st (i * 1024 + j) = c" if "b \<le> j" "j < k" for j
    using that k(1,2) page_of [of j st i] by simp
  have stop: "page_code st (i * 1024 + k) \<noteq> c" if "k < 1024"
    using that k(3) page_of [of k st i] by simp
  show thesis by (rule that [OF bk k(1) run stop inv' st'(2) codes])
qed

text \<open>The pages \<open>s..e-1\<close> are the maximal run with code \<open>c\<close> that starts at \<open>s\<close>.\<close>

definition code_run :: "PagingStructures \<Rightarrow> nat \<Rightarrow> nat \<Rightarrow> u32 \<Rightarrow> bool" where
  "code_run st s e c \<longleftrightarrow> s \<le> e \<and> e \<le> NUM_PAGES \<and>
     (\<forall>p. s \<le> p \<longrightarrow> p < e \<longrightarrow> page_code st p = c) \<and> (e < NUM_PAGES \<longrightarrow> page_code st e \<noteq> c)"

lemma free_loop_spec:
  assumes "pa_inv st" "f \<le> i" "i \<le> 1023" "t < 1024" "b = (if i = f then t else 0)" "i < 1023 \<or> b = 0"
  shows "\<exists>e. code_run st (i * 1024 + b) e c \<and> pa_inv (free_loop c f t [i..<1023] st) \<and>
    (\<forall>p. page_code (free_loop c f t [i..<1023] st) p =
      (if i * 1024 + b \<le> p \<and> p < e then 0 else page_code st p))"
  using assms
proof (induction "1023 - i" arbitrary: i st b)
  case 0
  then show ?case by (intro exI [of _ NUM_PAGES]) (auto simp: code_run_def)
next
  case (Suc d)
  then have i: "i < 1023" and b: "b < 1024" and upt: "[i..<1023] = i # [Suc i..<1023]"
    by (auto simp: upt_conv_Cons)
  have d: "d = 1023 - Suc i" using Suc.hyps(2) by simp
  obtain st1 cont where res: "free_in_table c i b st = (st1, cont)" by (metis surj_pair)
  obtain k where k: "b \<le> k" "k \<le> 1024" "\<And>j. b \<le> j \<Longrightarrow> j < k \<Longrightarrow> page_code st (i * 1024 + j) = c"
    "k < 1024 \<Longrightarrow> page_code st (i * 1024 + k) \<noteq> c" "pa_inv st1" "cont = (k = 1024)"
    "\<And>p. page_code st1 p = (if i * 1024 + b \<le> p \<and> p < i * 1024 + k then 0 else page_code st p)"
    by (rule free_in_table_spec [OF Suc.prems(1) i b res]) (rule that)
  have here: "page_code st p = c" if "i * 1024 + b \<le> p" "p < i * 1024 + k" for p
    using k(3) [of "p - i * 1024"] that by simp
  have loop: "free_loop c f t [i..<1023] st = (if k = 1024 then free_loop c f t [Suc i..<1023] st1 else st1)"
    using res Suc.prems(5) k(6) upt by simp
  show ?case
  proof (cases "k = 1024")
    case False
    then have "code_run st (i * 1024 + b) (i * 1024 + k) c"
      using k(1,2,4) here i by (auto simp: code_run_def)
    with False k(5,7) loop show ?thesis by auto
  next
    case True
    obtain e where e: "code_run st1 (Suc i * 1024 + 0) e c" "pa_inv (free_loop c f t [Suc i..<1023] st1)"
      "\<forall>p. page_code (free_loop c f t [Suc i..<1023] st1) p =
        (if Suc i * 1024 + 0 \<le> p \<and> p < e then 0 else page_code st1 p)"
      using Suc.hyps(1) [OF d k(5), of 0] Suc.prems(2,4) i by auto
    have later: "page_code st1 p = page_code st p" if "Suc i * 1024 \<le> p" for p
      using k(7) [of p] that True by simp
    have e': "Suc i * 1024 \<le> e" "e \<le> NUM_PAGES" "\<And>p. Suc i * 1024 \<le> p \<Longrightarrow> p < e \<Longrightarrow> page_code st1 p = c"
      "e < NUM_PAGES \<Longrightarrow> page_code st1 e \<noteq> c"
      using e(1) by (auto simp: code_run_def)
    have "page_code st p = c" if "i * 1024 + b \<le> p" "p < e" for p
      using here [of p] e'(3) [of p] later [of p] that True by (cases "p < Suc i * 1024") auto
    then have run: "code_run st (i * 1024 + b) e c"
      using e'(1,2,4) later [OF e'(1)] b by (auto simp: code_run_def)
    have "page_code (free_loop c f t [Suc i..<1023] st1) p =
        (if i * 1024 + b \<le> p \<and> p < e then 0 else page_code st p)" for p
      using e(3) k(7) [of p] True b e'(1) by (cases "p < Suc i * 1024") auto
    with run e(2) True loop show ?thesis by (intro exI [of _ e]) simp
  qed
qed

lemma freeContiguousPages_spec:
  assumes inv: "pa_inv st" and s: "s < NUM_PAGES" "addr = of_nat s * 0x1000"
  obtains e where "code_run st s e (page_code st s)" "pa_inv (freeContiguousPages st addr)"
    "\<And>p. page_code (freeContiguousPages st addr) p = (if s \<le> p \<and> p < e then 0 else page_code st p)"
proof -
  have "of_nat s * 0x1000 = (of_nat (s * 4096) :: u32)" by simp
  moreover have "unat (of_nat (s * 4096) :: u32) = s * 4096" by (rule unat_of_nat_u32) (use s in simp)
  ultimately have "unat addr = s * 4096" by (simp only: s(2))
  then have page: "unat addr div 4096 = s" by simp
  have i: "s div 1024 < 1023" using s(1) by (simp add: less_mult_imp_div_less)
  have eq: "freeContiguousPages st addr =
      free_loop (page_code st s) (s div 1024) (s mod 1024) [s div 1024..<1023] st"
    using i by (simp add: freeContiguousPages_def Let_def page page_code_def)
  have "\<exists>e. code_run st (s div 1024 * 1024 + s mod 1024) e (page_code st s) \<and>
      pa_inv (freeContiguousPages st addr) \<and>
      (\<forall>p. page_code (freeContiguousPages st addr) p =
        (if s div 1024 * 1024 + s mod 1024 \<le> p \<and> p < e then 0 else page_code st p))"
    unfolding eq by (rule free_loop_spec [OF inv]) (use i in auto)
  then show thesis using that by (auto simp: div_mult_mod_eq)
qed

subsection \<open>Regions\<close>

text \<open>A live region: its pages have one code, and the pages next to it have another. This is what
  makes \<open>freeContiguousPages\<close> find the end of a region from its first page. \<open>allocated\<close> is the set
  of pages in use.\<close>

definition region :: "PagingStructures \<Rightarrow> nat \<Rightarrow> nat \<Rightarrow> bool" where
  "region st s n \<longleftrightarrow> 0 < n \<and> s + n \<le> NUM_PAGES \<and>
     (\<exists>c. c \<noteq> 0 \<and> (\<forall>p. s \<le> p \<longrightarrow> p < s + n \<longrightarrow> page_code st p = c) \<and>
       (0 < s \<longrightarrow> page_code st (s - 1) \<noteq> c) \<and> (s + n < NUM_PAGES \<longrightarrow> page_code st (s + n) \<noteq> c))"

definition allocated :: "PagingStructures \<Rightarrow> nat set" where
  "allocated st = {p. p < NUM_PAGES \<and> page_code st p \<noteq> 0}"

lemma region_allocated: "region st s n \<Longrightarrow> {s..<s + n} \<subseteq> allocated st"
  by (auto simp: region_def allocated_def)

lemma allocated_region:
  assumes inv: "pa_inv st" and n: "0 < n" and run: "free_run st s (s + n)"
  obtains st' where "allocatePagesStartingAtIndex st s n = Some st'" "pa_inv st'" "region st' s n"
    "allocated st' = allocated st \<union> {s..<s + n}" "\<And>a k. region st a k \<Longrightarrow> region st' a k"
proof -
  obtain st' c where st': "allocatePagesStartingAtIndex st s n = Some st'" "pa_inv st'" and c: "c \<noteq> 0"
    and codes: "\<And>p. p < NUM_PAGES \<Longrightarrow> page_code st' p = (if s \<le> p \<and> p < s + n then c else page_code st p)"
    and nbr: "0 < s \<Longrightarrow> page_code st (s - 1) \<noteq> c" "s + n < NUM_PAGES \<Longrightarrow> page_code st (s + n) \<noteq> c"
    using allocatePagesStartingAtIndex_spec [OF inv n run] by blast
  have bound: "s + n \<le> NUM_PAGES" and free: "\<And>p. s \<le> p \<Longrightarrow> p < s + n \<Longrightarrow> page_code st p = 0"
    using run by (auto simp: free_run_def)
  have "region st' s n" using n bound c codes nbr by (auto simp: region_def intro!: exI [of _ c])
  moreover have "allocated st' = allocated st \<union> {s..<s + n}"
    using codes bound c free by (auto simp: allocated_def split: if_splits)
  moreover have "region st' a k" if reg: "region st a k" for a k
  proof -
    obtain d where d: "0 < k" "a + k \<le> NUM_PAGES" "d \<noteq> 0" "\<And>p. a \<le> p \<Longrightarrow> p < a + k \<Longrightarrow> page_code st p = d"
      "0 < a \<Longrightarrow> page_code st (a - 1) \<noteq> d" "a + k < NUM_PAGES \<Longrightarrow> page_code st (a + k) \<noteq> d"
      using reg by (auto simp: region_def)
    have out: "\<not> (s \<le> p \<and> p < s + n)" if "a \<le> p" "p < a + k" for p using free d(3,4) that by blast
    have "page_code st' (a - 1) \<noteq> d" if "0 < a"
    proof (cases "s \<le> a - 1 \<and> a - 1 < s + n")
      case True
      then have "s + n = a" using out [of a] d(1) that by auto
      then show ?thesis using nbr(2) codes [of "a - 1"] d(1,2) d(4) [of a] that True by auto
    qed (use codes [of "a - 1"] d that in auto)
    moreover have "page_code st' (a + k) \<noteq> d" if "a + k < NUM_PAGES"
    proof (cases "s \<le> a + k \<and> a + k < s + n")
      case True
      have "a \<le> a + k - 1" "a + k - 1 < a + k" using d(1) by linarith+
      from out [OF this] True have "s = a + k" by linarith
      then show ?thesis using nbr(1) codes [OF that] d(1) d(4) [of "a + k - 1"] True by auto
    qed (use codes d that in auto)
    ultimately show ?thesis using d codes out by (auto simp: region_def intro!: exI [of _ d])
  qed
  ultimately show thesis using that st' by blast
qed

lemma free_region:
  assumes inv: "pa_inv st" and reg: "region st s n" and addr: "addr = of_nat s * 0x1000"
  shows "pa_inv (freeContiguousPages st addr)" "allocated (freeContiguousPages st addr) = allocated st - {s..<s + n}"
    "page_code (freeContiguousPages st addr) p = (if s \<le> p \<and> p < s + n then 0 else page_code st p)"
    "region st a k \<Longrightarrow> {a..<a + k} \<inter> {s..<s + n} = {} \<Longrightarrow> region (freeContiguousPages st addr) a k"
proof -
  let ?st' = "freeContiguousPages st addr"
  obtain c where c: "0 < n" "s + n \<le> NUM_PAGES" "c \<noteq> 0" "\<And>p. s \<le> p \<Longrightarrow> p < s + n \<Longrightarrow> page_code st p = c"
    "s + n < NUM_PAGES \<Longrightarrow> page_code st (s + n) \<noteq> c"
    using reg by (auto simp: region_def)
  have s: "s < NUM_PAGES" using c by simp
  obtain e where e: "code_run st s e (page_code st s)" "pa_inv ?st'"
    "\<And>p. page_code ?st' p = (if s \<le> p \<and> p < e then 0 else page_code st p)"
    using freeContiguousPages_spec [OF inv s addr] by blast
  have cs: "page_code st s = c" using c(1,4) by simp
  have "e = s + n"
  proof (rule antisym)
    show "e \<le> s + n"
    proof (rule ccontr)
      assume "\<not> e \<le> s + n"
      then have "page_code st (s + n) = c" "s + n < NUM_PAGES" using e(1) cs by (auto simp: code_run_def)
      with c(5) show False by simp
    qed
    show "s + n \<le> e"
    proof (rule ccontr)
      assume "\<not> s + n \<le> e"
      then show False using e(1) c cs by (auto simp: code_run_def)
    qed
  qed
  with e show "pa_inv ?st'" and codes: "page_code ?st' p = (if s \<le> p \<and> p < s + n then 0 else page_code st p)" for p
    by auto
  show "allocated ?st' = allocated st - {s..<s + n}" by (auto simp: allocated_def codes)
  assume "region st a k" "{a..<a + k} \<inter> {s..<s + n} = {}"
  then show "region ?st' a k" unfolding region_def codes by auto
qed

text \<open>Allocating and freeing again restores the code of every page.\<close>

lemma allocate_free_roundtrip:
  assumes inv: "pa_inv st" and n: "0 < n" and run: "free_run st s (s + n)"
    and st': "allocatePagesStartingAtIndex st s n = Some st'" and p: "p < NUM_PAGES"
  shows "page_code (freeContiguousPages st' (of_nat s * 0x1000)) p = page_code st p"
proof -
  obtain st1 c where s1: "allocatePagesStartingAtIndex st s n = Some st1" "pa_inv st1"
    "\<And>p. p < NUM_PAGES \<Longrightarrow> page_code st1 p = (if s \<le> p \<and> p < s + n then c else page_code st p)"
    by (rule allocatePagesStartingAtIndex_spec [OF inv n run]) (rule that)
  obtain st2 where s2: "allocatePagesStartingAtIndex st s n = Some st2" "region st2 s n"
    by (rule allocated_region [OF inv n run]) (rule that)
  have eq: "st1 = st'" "st2 = st'" using s1(1) s2(1) st' by simp_all
  have free: "page_code st p = 0" if "s \<le> p" "p < s + n" using run that by (simp add: free_run_def)
  have "pa_inv st'" "region st' s n" using s1(2) s2(2) by (simp_all only: eq)
  from free_region(3) [OF this refl, of p] s1(3) [OF p] free show ?thesis
    by (cases "s \<le> p \<and> p < s + n") (simp_all add: eq)
qed

end
