(* ===== verification/Page_Completeness.thy ===== *)
theory Page_Completeness
  imports Page_Allocator
begin

text \<open>
  The search of \<open>allocateContiguousPages\<close> is complete: it reports failure only when no run of free
  pages of the requested length exists. The requests covered are those the kernel can make safely
  (below 3071 pages and not 2047, see \<open>Page_Regions\<close>).
\<close>

subsection \<open>Lower bounds for the counters\<close>

lemma numFreeAtBegin_ge:
  assumes "i < 1023" "r \<le> 1024" "free_run st (i * 1024) (i * 1024 + r)"
  shows "r \<le> numFreeAtBegin (getPageTable st i)"
proof -
  let ?P = "\<lambda>j. entry_code (pageTables st ! i ! j) = 0"
  have "?P j" if "j < r" for j
    using assms that page_of [of j st i] by (simp add: free_run_def)
  then have all: "takeWhile ?P [0..<r] = [0..<r]" by (auto simp: takeWhile_eq_all_conv)
  have "[0..<1024] = [0..<r] @ [r..<1024]" using assms(2) upt_add_eq_append [of 0 r "1024 - r"] by simp
  then have "r \<le> length (takeWhile ?P [0..<1024])"
    using all by (simp add: takeWhile_append)
  with assms(1) show ?thesis by (simp add: numFreeAtBegin_def getPageTable_def)
qed

lemma free_run_sub: "free_run st a b \<Longrightarrow> a \<le> c \<Longrightarrow> d \<le> b \<Longrightarrow> free_run st c d"
  by (auto simp: free_run_def)

lemma begin_two_tables:
  assumes run: "free_run st (i * 1024) (i * 1024 + r)" and r: "r \<le> 2048"
    and nb: "nb = numFreeAtBegin (getPageTable st i)" and k: "k = i + 1"
  shows "r \<le> nb + (if nb = 1024 then numFreeAtBegin (getPageTable st k) else 0)"
proof (cases "r = 0")
  case False
  have end_of: "i * 1024 + r \<le> NUM_PAGES" using run by (simp add: free_run_def)
  then have i: "i < 1023" using False by simp
  show ?thesis
  proof (cases "r \<le> 1024")
    case True
    then show ?thesis using numFreeAtBegin_ge [OF i True run] nb by simp
  next
    case big: False
    have "free_run st (i * 1024) (i * 1024 + 1024)" by (rule free_run_sub [OF run]) (use big in auto)
    then have full: "nb = 1024"
      using numFreeAtBegin_ge [OF i, of 1024 st] numFreeAtBegin_le [of "getPageTable st i"] nb by simp
    have "k < 1023" using end_of big k by simp
    moreover have "free_run st (k * 1024) (k * 1024 + (r - 1024))"
      by (rule free_run_sub [OF run]) (use big k in auto)
    ultimately have "r - 1024 \<le> numFreeAtBegin (getPageTable st k)"
      using numFreeAtBegin_ge [of k "r - 1024"] r by simp
    with full show ?thesis by simp
  qed
qed simp

lemma numFreeAtEnd_ge:
  assumes "i < 1023" "b \<le> 1024" "\<And>j. b \<le> j \<Longrightarrow> j < 1024 \<Longrightarrow> entry_code (pageTables st ! i ! j) = 0"
  shows "1024 - b \<le> numFreeAtEnd (getPageTable st i)"
proof -
  let ?P = "\<lambda>j. entry_code (pageTables st ! i ! j) = 0"
  have all: "takeWhile ?P (rev [b..<1024]) = rev [b..<1024]" using assms(3) by (auto simp: takeWhile_eq_all_conv)
  have "rev [0..<1024] = rev [b..<1024] @ rev [0..<b]"
    using assms(2) upt_add_eq_append [of 0 b "1024 - b"] by (simp flip: rev_append)
  then have "1024 - b \<le> length (takeWhile ?P (rev [0..<1024]))" using all by (simp add: takeWhile_append)
  with assms(1) show ?thesis by (simp add: numFreeAtEnd_def getPageTable_def)
qed

lemma scan_covers:
  assumes "fold (scan_entry pt) [0..<m] (0, 0) = (retVal, counter)"
    and "a \<le> b" "b \<le> m" "\<And>j. a \<le> j \<Longrightarrow> j < b \<Longrightarrow> entry_code (pt ! j) = 0"
  shows "b - a \<le> max retVal counter \<and> (b = m \<longrightarrow> b - a \<le> counter)"
  using assms
proof (induction m arbitrary: retVal counter b)
  case (Suc m)
  obtain rv ct where rc: "fold (scan_entry pt) [0..<m] (0, 0) = (rv, ct)" by fastforce
  have fin: "(retVal, counter) = (if entry_code (pt ! m) = 0 then (rv, ct + 1) else (max ct rv, 0))"
  proof -
    have "scan_entry pt m (rv, ct) = (retVal, counter)" using Suc.prems(1) rc by simp
    then show ?thesis by (auto simp: scan_entry_def)
  qed
  show ?case
  proof (cases "b = Suc m")
    case True
    show ?thesis
    proof (cases "a = b")
      case False
      then have "a \<le> m" using Suc.prems(2) True by simp
      with Suc.IH [OF rc, of m] Suc.prems(4) True have "m - a \<le> ct" by simp
      moreover have "entry_code (pt ! m) = 0" using Suc.prems(4) \<open>a \<le> m\<close> True by simp
      ultimately show ?thesis using fin True by auto
    qed simp
  next
    case False
    with Suc.prems have "b \<le> m" by simp
    with Suc.IH [OF rc, of b] Suc.prems have "b - a \<le> max rv ct" by simp
    with fin False show ?thesis by (auto split: if_splits)
  qed
qed simp

lemma findMaxFreeSpace_ge:
  assumes run: "free_run st (i * 1024 + b) (i * 1024 + b + n)" and b: "b < 1024" and n: "0 < n" "n \<le> 2048"
  shows "n \<le> findMaxFreeSpaceStartingFromTable st i"
proof -
  have end_of: "i * 1024 + b + n \<le> NUM_PAGES" using run by (simp add: free_run_def)
  then have i: "i < 1023" using n by simp
  obtain rv ct where rc: "fold (scan_entry (pageTables st ! i)) [0..<1024] (0, 0) = (rv, ct)" by fastforce
  have free: "entry_code (pageTables st ! i ! j) = 0" if "b \<le> j" "j < min (b + n) 1024" for j
    using run that page_of [of j st i] by (simp add: free_run_def)
  note cover = scan_covers [OF rc, of b "min (b + n) 1024"]
  let ?nb = "numFreeAtBegin (getPageTable st (i + 1))"
  let ?third = "if ?nb = 1024 then numFreeAtBegin (getPageTable st (i + 2)) else 0"
  have fm: "findMaxFreeSpaceStartingFromTable st i = (if ct = 0 then rv else max (ct + ?nb + ?third) rv)"
    using i rc by (simp add: findMaxFreeSpaceStartingFromTable_def Let_def)
  show ?thesis
  proof (cases "b + n \<le> 1024")
    case True
    then have "n \<le> max rv ct" using cover free by auto
    then show ?thesis using fm by (auto simp: max_def split: if_splits)
  next
    case False
    then have ct: "1024 - b \<le> ct" using cover b free by simp
    have "free_run st ((i + 1) * 1024) ((i + 1) * 1024 + (n - (1024 - b)))"
      by (rule free_run_sub [OF run]) (use False b in auto)
    from begin_two_tables [OF this _ refl, of "i + 2"] have "n - (1024 - b) \<le> ?nb + ?third" using n by simp
    then show ?thesis using fm ct b by (auto simp: max_def)
  qed
qed

subsection \<open>One round of the search\<close>

definition two_tables :: "PagingStructures \<Rightarrow> nat \<Rightarrow> nat" where
  "two_tables st i =
     (let nb = numFreeAtBegin (getPageTable st i)
      in nb + (if nb = 1024 then numFreeAtBegin (getPageTable st (i + 1)) else 0))"

lemma two_tables_ge: "free_run st (i * 1024) (i * 1024 + r) \<Longrightarrow> r \<le> 2048 \<Longrightarrow> r \<le> two_tables st i"
  using begin_two_tables [OF _ _ refl refl, of st i r] by (simp add: two_tables_def Let_def)

lemma search_step_small:
  assumes "pa_shape st" "i < 1023"
  shows "search_step st 0 R i =
    Some (if pde_code st i \<noteq> 2 \<and> R \<le> findMaxFreeSpaceStartingFromTable st i then Break else Continue (i + 1))"
  using assms by (simp add: search_step_def pde_code_def pa_shape_def)

lemma search_step_large:
  assumes "pa_shape st" "i < 1023"
  shows "search_step st 1 R i = Some
    (if pde_code st i = 2 then Continue (i + 1)
     else if pde_code st i = 0 then (if R \<le> two_tables st (i + 1) then Break else Continue (i + 1))
     else if pde_code st (i + 1) \<noteq> 0 then Continue (i + 1)
     else if R \<le> numFreeAtEnd (getPageTable st i) + two_tables st (i + 2) then Break else Continue (i + 2))"
  using assms by (simp add: search_step_def pde_code_def pa_shape_def two_tables_def Let_def add.assoc)

lemma free_page_table:
  assumes "pa_inv st" "i < 1023" "b < 1024" "page_code st (i * 1024 + b) = 0"
  shows "pde_code st i \<noteq> 2"
  using assms page_of [of b st i] by (auto simp: pa_inv_def table_summary_def)

lemma free_table:
  assumes "pa_inv st" "free_run st (i * 1024) (i * 1024 + 1024)"
  shows "pde_code st i = 0"
proof -
  have "i < 1023" using assms(2) by (simp add: free_run_def)
  moreover have "entry_code (pageTables st ! i ! j) = 0" if "j < 1024" for j
    using assms(2) that page_of [OF that, of st i] by (simp add: free_run_def)
  ultimately show ?thesis using assms(1) by (simp add: pa_inv_def table_summary_def)
qed

lemma search_step_small_complete:
  assumes inv: "pa_inv st" and run: "free_run st (i * 1024 + b) (i * 1024 + b + n)" "b < 1024" "0 < n" "n \<le> 2048"
  shows "search_step st 0 n i = Some Break"
proof -
  have "i < 1023" "page_code st (i * 1024 + b) = 0" using run by (auto simp: free_run_def)
  then show ?thesis
    using search_step_small [of st i n] inv findMaxFreeSpace_ge [OF run] free_page_table [OF inv _ run(2)]
    by (simp add: pa_inv_def)
qed

lemma search_step_large_complete:
  assumes inv: "pa_inv st" and run: "free_run st (i * 1024 + b) (i * 1024 + b + n)" "b < 1024"
    and n: "2048 \<le> n" "n \<le> 3072"
  shows "search_step st 1 (n - 1024) i = Some Break"
    and "0 < i \<Longrightarrow> search_step st 1 (n - 1024) (i - 1) \<noteq> Some (Continue (i + 1))"
proof -
  have shape: "pa_shape st" and i: "i < 1023" "page_code st (i * 1024 + b) = 0"
    using inv run n by (auto simp: pa_inv_def free_run_def)
  have not2: "pde_code st i \<noteq> 2" using free_page_table [OF inv i(1) run(2) i(2)] .
  have next_free: "pde_code st (i + 1) = 0"
    by (rule free_table [OF inv], rule free_run_sub [OF run(1)]) (use run(2) n in auto)
  have "free_run st ((i + 1) * 1024) ((i + 1) * 1024 + (n - 1024))"
    by (rule free_run_sub [OF run(1)]) (use run(2) n in auto)
  from two_tables_ge [OF this] have one: "n - 1024 \<le> two_tables st (i + 1)" using n by simp
  have "free_run st ((i + 2) * 1024) ((i + 2) * 1024 + (n - (2048 - b)))"
    by (rule free_run_sub [OF run(1)]) (use run(2) n in auto)
  from two_tables_ge [OF this] have two: "n - (2048 - b) \<le> two_tables st (i + 2)" using n run(2) by simp
  have "entry_code (pageTables st ! i ! j) = 0" if "b \<le> j" "j < 1024" for j
    using run that n page_of [of j st i] by (simp add: free_run_def)
  from numFreeAtEnd_ge [OF i(1) _ this] have "1024 - b \<le> numFreeAtEnd (getPageTable st i)" using run(2) by simp
  with two n run(2) have "n - 1024 \<le> numFreeAtEnd (getPageTable st i) + two_tables st (i + 2)" by linarith
  then show "search_step st 1 (n - 1024) i = Some Break"
    unfolding search_step_large [OF shape i(1)] using not2 next_free one by simp
  assume "0 < i"
  then have eq: "i - 1 < 1023" "i - 1 + 1 = i" "i - 1 + 2 = i + 1" using i by auto
  show "search_step st 1 (n - 1024) (i - 1) \<noteq> Some (Continue (i + 1))"
    unfolding search_step_large [OF shape eq(1)] eq(2,3) using one \<open>0 < i\<close> by auto
qed

subsection \<open>The whole search\<close>

lemma request_remainder: "(n :: nat) < 3071 \<Longrightarrow> n \<noteq> 2047 \<Longrightarrow> n < 2047 \<or> n mod 1024 \<noteq> 1023"
proof (cases "n < 2047")
  case False
  assume n: "n < 3071" "n \<noteq> 2047"
  then have "n mod 1024 = n - 2048" using False by (intro mod_nat_eqI) auto
  with n False show ?thesis by auto
qed simp

lemma page_number_address: "s < NUM_PAGES \<Longrightarrow> of_nat s * 0x1000 \<noteq> (0xFFC00000 :: u32)"
proof
  assume s: "s < NUM_PAGES" and eq: "of_nat s * 0x1000 = (0xFFC00000 :: u32)"
  have "of_nat s * 0x1000 = (of_nat (s * 4096) :: u32)" by simp
  moreover have "unat (of_nat (s * 4096) :: u32) = s * 4096" by (rule unat_of_nat_u32) (use s in simp)
  ultimately have "s * 4096 = unat (0xFFC00000 :: u32)" by (simp only: eq)
  with s show False by simp
qed

lemma search_complete:
  assumes "pa_shape st" "M \<le> 1" "i \<le> t" "t < 1023"
    and "search_step st M R t = Some Break" "\<And>k. k < t \<Longrightarrow> search_step st M R k \<noteq> Some (Continue (t + 1))"
  shows "\<exists>k \<le> t. search_table st M R i = Some k"
  using assms(3)
proof (induction "t - i" arbitrary: i rule: less_induct)
  case less
  show ?case
  proof (cases "i = t")
    case True
    then show ?thesis using assms(4,5) by (intro exI [of _ t]) (simp add: search_table.simps [of st M R t])
  next
    case False
    then have it: "i < t" "i < 1023" using less.prems assms(4) by auto
    obtain r where r: "search_step st M R i = Some r" using search_step_total [OF assms(1) it(2) assms(2)] by blast
    show ?thesis
    proof (cases r)
      case Break
      then show ?thesis using r it by (intro exI [of _ i]) (auto simp: search_table.simps [of st M R i])
    next
      case (Continue k)
      have "k = i + 1 \<or> k = i + 2"
        using r Continue search_step_small [OF assms(1) it(2), of R] search_step_large [OF assms(1) it(2), of R] assms(2)
        by (cases "M = 0") (auto split: if_splits simp: le_Suc_eq)
      moreover have "k \<noteq> t + 1" using assms(6) [OF it(1)] r Continue by auto
      ultimately have "i < k" "k \<le> t" using it by auto
      moreover have "\<exists>l \<le> t. search_table st M R k = Some l"
        by (rule less.hyps) (use \<open>i < k\<close> \<open>k \<le> t\<close> in auto)
      then obtain l where "l \<le> t" "search_table st M R k = Some l" by blast
      ultimately show ?thesis using r Continue it by (auto simp: search_table.simps [of st M R i])
    qed
  qed
qed

lemma allocateContiguousPages_complete:
  assumes inv: "pa_inv st" and np: "n = unat np" "0 < n" "n < 3071" "n \<noteq> 2047"
    and run: "free_run st s (s + n)" and res: "allocateContiguousPages st np = Some (addr, st')"
  shows "addr \<noteq> 0xFFC00000"
proof -
  define M where "M = (if n < 2 * 1023 then 0 else (n - 1023) div 1024)"
  define R where "R = n - M * 1024"
  define t where "t = s div 1024"
  define b where "b = s mod 1024"
  have s: "s = t * 1024 + b" "b < 1024" by (simp_all add: t_def b_def)
  have t: "t < 1023" using run np(2) by (simp add: free_run_def t_def less_mult_imp_div_less)
  have shape: "pa_shape st" using inv by (simp add: pa_inv_def)
  have nm: "n < 2047 \<or> n mod 1024 \<noteq> 1023" using np(3,4) by (rule request_remainder)
  note run' = run [unfolded s(1)]
  have "\<exists>k \<le> t. search_table st M R 0 = Some k"
  proof (cases "n \<le> 2046")
    case True
    then have M: "M = 0" "R = n" by (auto simp: M_def R_def)
    have n: "n \<le> 2048" using True by simp
    show ?thesis
    proof (rule search_complete [OF shape])
      show "search_step st M R t = Some Break"
        unfolding M by (rule search_step_small_complete [OF inv run' s(2) np(2) n])
      show "search_step st M R k \<noteq> Some (Continue (t + 1))" if "k < t" for k
      proof -
        have k: "k < 1023" using that t by simp
        show ?thesis unfolding M search_step_small [OF shape k] using that by simp
      qed
    qed (use M t in simp_all)
  next
    case False
    have "(n - 1023) div 1024 = 1" by (rule div_nat_eqI) (use False np in auto)
    then have M: "M = 1" "R = n - 1024" using False by (auto simp: M_def R_def)
    have big: "2048 \<le> n" "n \<le> 3072" using False np by auto
    show ?thesis
    proof (rule search_complete [OF shape])
      show "search_step st M R t = Some Break" using search_step_large_complete(1) [OF inv run' s(2) big] M by simp
      show "search_step st M R k \<noteq> Some (Continue (t + 1))" if "k < t" for k
      proof (cases "k = t - 1")
        case True
        then show ?thesis using search_step_large_complete(2) [OF inv run' s(2) big] M that by simp
      next
        case False
        have k: "k < 1023" using that t by simp
        show ?thesis unfolding M(1) search_step_large [OF shape k] using False that by auto
      qed
    qed (use M t in auto)
  qed
  then obtain k where k: "k < 1023" "search_table st M R 0 = Some k" using t by (meson le_less_trans)
  let ?r = "region_start st M R k"
  have "allocateContiguousPages st np =
      do { st' \<leftarrow> allocatePagesStartingAtIndex st ?r n; Some (of_nat ?r * 0x1000, st') }"
    unfolding allocateContiguousPages_unfold [OF np(1,2) M_def R_def] using k by simp
  with res have "addr = of_nat ?r * 0x1000" by (cases "allocatePagesStartingAtIndex st ?r n") simp_all
  moreover have "free_run st (region_start st M R k) (region_start st M R k + n)"
    by (rule region_start_free [OF inv request_split(1-3) [OF np(2) nm M_def R_def] k(2,1)])
  then have "region_start st M R k < NUM_PAGES" using np(2) by (simp add: free_run_def)
  ultimately show ?thesis using page_number_address by simp
qed

end
