(* ===== verification/Page_Regions.thy ===== *)
theory Page_Regions
  imports Page_Completeness "HOL-Library.Disjoint_Sets"
begin

text \<open>
  The contract of the page allocator towards the tasks that own memory: an interface of regions,
  with the laws the allocator promises, and the allocator of \<open>page_allocator.cpp\<close> as its instance.
  \<open>pages_reachable\<close> is the step relation of a kernel that allocates and frees regions in any order.
\<close>

abbreviation (input) ALLOCATION_FAILED :: u32 where "ALLOCATION_FAILED \<equiv> 0xFFC00000"

definition page_address :: "nat \<Rightarrow> u32" where
  "page_address s = of_nat s * 0x1000"

definition served_size :: "u32 \<Rightarrow> bool" where
  "served_size n \<longleftrightarrow> 0 < unat n \<and> unat n < 3071 \<and> unat n \<noteq> 2047"

definition pages_of :: "nat \<times> nat \<Rightarrow> nat set" where
  "pages_of r = {fst r..<fst r + snd r}"

locale region_allocator =
  fixes inv :: "'s \<Rightarrow> bool"
    and live :: "'s \<Rightarrow> nat \<Rightarrow> nat \<Rightarrow> bool"
    and used :: "'s \<Rightarrow> nat set"
    and alloc :: "'s \<Rightarrow> u32 \<Rightarrow> (u32 \<times> 's) option"
    and free :: "'s \<Rightarrow> u32 \<Rightarrow> 's"
    and served :: "u32 \<Rightarrow> bool"
    and addr_of :: "nat \<Rightarrow> u32"
    and failed :: u32
    and bound :: nat
  assumes live_pos: "live st s n \<Longrightarrow> 0 < n"
    and live_used: "live st s n \<Longrightarrow> {s..<s + n} \<subseteq> used st"
    and alloc_total: "inv st \<Longrightarrow> served np \<Longrightarrow> \<exists>a st'. alloc st np = Some (a, st')"
    and alloc_fresh: "inv st \<Longrightarrow> served np \<Longrightarrow> alloc st np = Some (a, st') \<Longrightarrow> a \<noteq> failed \<Longrightarrow>
      \<exists>s. a = addr_of s \<and> inv st' \<and> live st' s (unat np) \<and> {s..<s + unat np} \<inter> used st = {} \<and>
        used st' = used st \<union> {s..<s + unat np} \<and> (\<forall>t k. live st t k \<longrightarrow> live st' t k)"
    and alloc_complete: "inv st \<Longrightarrow> served np \<Longrightarrow> s + unat np \<le> bound \<Longrightarrow> {s..<s + unat np} \<inter> used st = {} \<Longrightarrow>
      alloc st np = Some (a, st') \<Longrightarrow> a \<noteq> failed"
    and alloc_failed: "inv st \<Longrightarrow> served np \<Longrightarrow> alloc st np = Some (failed, st') \<Longrightarrow> st' = st"
    and free_inv: "inv st \<Longrightarrow> live st s n \<Longrightarrow> inv (free st (addr_of s))"
    and free_used: "inv st \<Longrightarrow> live st s n \<Longrightarrow> used (free st (addr_of s)) = used st - {s..<s + n}"
    and free_live: "inv st \<Longrightarrow> live st s n \<Longrightarrow> live st t k \<Longrightarrow> {t..<t + k} \<inter> {s..<s + n} = {} \<Longrightarrow>
      live (free st (addr_of s)) t k"
begin

text \<open>The bookkeeping an owner of several regions may rely on: \<open>L\<close> is the set of its regions and
  \<open>base\<close> the pages others had in use before.\<close>

definition owns :: "nat set \<Rightarrow> 's \<Rightarrow> (nat \<times> nat) set \<Rightarrow> bool" where
  "owns base st L \<longleftrightarrow> inv st \<and> (\<forall>(s, n) \<in> L. live st s n) \<and> disjoint_family_on pages_of L \<and>
     used st = base \<union> (\<Union>r \<in> L. pages_of r) \<and> base \<inter> (\<Union>r \<in> L. pages_of r) = {}"

lemma owns_alloc:
  assumes own: "owns base st L" and np: "served np" and res: "alloc st np = Some (a, st')" "a \<noteq> failed"
  shows "\<exists>s. a = addr_of s \<and> (s, unat np) \<notin> L \<and> owns base st' (insert (s, unat np) L) \<and> live st' s (unat np)"
proof -
  have inv: "inv st" using own by (simp add: owns_def)
  obtain s where s: "a = addr_of s" "inv st'" "live st' s (unat np)" "{s..<s + unat np} \<inter> used st = {}"
    "used st' = used st \<union> {s..<s + unat np}" "\<forall>t k. live st t k \<longrightarrow> live st' t k"
    using alloc_fresh [OF inv np res] by (elim exE conjE) (rule that)
  let ?r = "(s, unat np)"
  have dis: "pages_of ?r \<inter> pages_of r = {}" if "r \<in> L" for r
  proof -
    have "pages_of r \<subseteq> used st" using own that by (auto simp: owns_def)
    moreover have "pages_of ?r = {s..<s + unat np}" by (simp add: pages_of_def)
    ultimately show ?thesis using s(4) by blast
  qed
  have ne: "pages_of ?r \<noteq> {}" using live_pos [OF s(3)] by (simp add: pages_of_def)
  have new: "?r \<notin> L" using dis [of ?r] ne by blast
  then have "disjoint_family_on pages_of (insert ?r L)"
    using own dis unfolding owns_def disjoint_family_on_insert [OF new] by blast
  moreover have new_pages: "pages_of ?r = {s..<s + unat np}" by (simp add: pages_of_def)
  moreover have "used st = base \<union> (\<Union>r \<in> L. pages_of r)" "base \<inter> (\<Union>r \<in> L. pages_of r) = {}"
    using own by (simp_all add: owns_def)
  then have "used st' = base \<union> (\<Union>r \<in> insert ?r L. pages_of r)"
    "base \<inter> (\<Union>r \<in> insert ?r L. pages_of r) = {}"
    using s(4,5) unfolding new_pages [symmetric] by (auto simp: Int_commute)
  moreover have "\<forall>(t, k) \<in> insert ?r L. live st' t k" using own s(3,6) by (auto simp: owns_def)
  ultimately have "owns base st' (insert ?r L)" using s(2) by (simp add: owns_def)
  with s(1,3) new show ?thesis by (intro exI [of _ s]) simp
qed

lemma owns_free:
  assumes own: "owns base st L" and r: "(s, n) \<in> L"
  shows "owns base (free st (addr_of s)) (L - {(s, n)})"
proof -
  let ?r = "(s, n)"
  have inv: "inv st" and live: "live st s n" and fam: "disjoint_family_on pages_of L"
    and used: "used st = base \<union> (\<Union>r \<in> L. pages_of r)" and base: "base \<inter> (\<Union>r \<in> L. pages_of r) = {}"
    using own r by (auto simp: owns_def)
  have dis: "pages_of q \<inter> pages_of ?r = {}" if "q \<in> L - {?r}" for q
    using fam that r by (auto simp: disjoint_family_on_def)
  then have U: "(\<Union>q \<in> L. pages_of q) - pages_of ?r = (\<Union>q \<in> L - {?r}. pages_of q)" by blast
  have "used (free st (addr_of s)) = (base \<union> (\<Union>r \<in> L. pages_of r)) - pages_of ?r"
    using free_used [OF inv live] used by (simp add: pages_of_def)
  also have "\<dots> = base \<union> (\<Union>q \<in> L - {?r}. pages_of q)" using U base r by blast
  finally have "used (free st (addr_of s)) = base \<union> (\<Union>q \<in> L - {?r}. pages_of q)" .
  moreover have "live (free st (addr_of s)) t k" if "(t, k) \<in> L - {?r}" for t k
    using free_live [OF inv live, of t k] own that dis [OF that] by (auto simp: owns_def pages_of_def)
  moreover have "disjoint_family_on pages_of (L - {?r})"
    using fam by (rule disjoint_family_on_mono [rotated]) blast
  ultimately show ?thesis using free_inv [OF inv live] base by (auto simp: owns_def)
qed

end

lemma served_remainder: "served_size np \<Longrightarrow> unat np < 2047 \<or> unat np mod 1024 \<noteq> 1023"
  by (rule request_remainder) (simp_all add: served_size_def)

lemma page_address_valid: "s < NUM_PAGES \<Longrightarrow> page_address s \<noteq> ALLOCATION_FAILED"
  using page_number_address by (simp add: page_address_def)

interpretation kernel_pages: region_allocator pa_inv region allocated allocateContiguousPages
  freeContiguousPages served_size page_address ALLOCATION_FAILED NUM_PAGES
proof (unfold_locales, goal_cases)
  case (1 st s n)
  then show ?case by (simp add: region_def)
next
  case (2 st s n)
  then show ?case by (rule region_allocated)
next
  case (3 st np)
  then show ?case using allocateContiguousPages_total [OF _ refl] by (auto simp: served_size_def)
next
  case (4 st np a st')
  obtain s where s: "free_run st s (s + unat np)" "allocatePagesStartingAtIndex st s (unat np) = Some st'"
    "a = page_address s"
    using allocateContiguousPages_region [OF 4(1) refl _ served_remainder [OF 4(2)] 4(3)] 4(2,4)
    by (auto simp: served_size_def page_address_def)
  obtain st1 where st1: "allocatePagesStartingAtIndex st s (unat np) = Some st1" "pa_inv st1"
    "region st1 s (unat np)" "allocated st1 = allocated st \<union> {s..<s + unat np}"
    "\<And>a k. region st a k \<Longrightarrow> region st1 a k"
    by (rule allocated_region [OF 4(1) _ s(1)]) (use 4(2) that in \<open>auto simp: served_size_def\<close>)
  have "{s..<s + unat np} \<inter> allocated st = {}" using s(1) by (auto simp: free_run_def allocated_def)
  with s st1 show ?case by auto
next
  case (5 st np s a st')
  have "free_run st s (s + unat np)" using 5(3,4) by (auto simp: free_run_def allocated_def)
  from allocateContiguousPages_complete [OF 5(1) refl _ _ _ this 5(5)] 5(2) show ?case
    by (simp add: served_size_def)
next
  case (6 st np st')
  then show ?case
    using allocateContiguousPages_region [OF 6(1) refl _ served_remainder [OF 6(2)] 6(3)] page_address_valid
    by (auto simp: served_size_def page_address_def free_run_def)
next
  case (7 st s n)
  then show ?case using free_region(1) [OF _ _ page_address_def] by blast
next
  case (8 st s n)
  then show ?case using free_region(2) [OF _ _ page_address_def] by blast
next
  case (9 st s n t k)
  then show ?case using free_region(4) [OF _ _ page_address_def] by blast
qed

subsection \<open>Any interleaving of allocations and frees\<close>

inductive pages_reachable :: "PagingStructures \<Rightarrow> PagingStructures \<Rightarrow> (nat \<times> nat) set \<Rightarrow> bool"
  for st0 where
  start: "pages_reachable st0 st0 {}"
| allocate: "pages_reachable st0 st L \<Longrightarrow> served_size np \<Longrightarrow>
    allocateContiguousPages st np = Some (page_address s, st') \<Longrightarrow> s < NUM_PAGES \<Longrightarrow>
    pages_reachable st0 st' (insert (s, unat np) L)"
| release: "pages_reachable st0 st L \<Longrightarrow> (s, n) \<in> L \<Longrightarrow>
    pages_reachable st0 (freeContiguousPages st (page_address s)) (L - {(s, n)})"

lemma page_address_inj:
  assumes "s < NUM_PAGES" "t < NUM_PAGES" "page_address s = page_address t"
  shows "s = t"
proof -
  have "unat (of_nat (s * 4096) :: u32) = s * 4096" "unat (of_nat (t * 4096) :: u32) = t * 4096"
    by (rule unat_of_nat_u32; use assms in simp)+
  moreover have "(of_nat (s * 4096) :: u32) = of_nat (t * 4096)"
    using assms(3) by (simp add: page_address_def)
  ultimately have "s * 4096 = t * 4096" by metis
  then show ?thesis by simp
qed

lemma pages_reachable_owns:
  assumes "pages_reachable st0 st L" "pa_inv st0"
  shows "kernel_pages.owns (allocated st0) st L"
  using assms
proof (induction rule: pages_reachable.induct)
  case start
  then show ?case by (simp add: kernel_pages.owns_def disjoint_family_on_def)
next
  case (allocate st L np s st')
  then have own: "kernel_pages.owns (allocated st0) st L" by simp
  obtain t where t: "page_address s = page_address t"
    "kernel_pages.owns (allocated st0) st' (insert (t, unat np) L)" "region st' t (unat np)"
    using kernel_pages.owns_alloc [OF own allocate(2,3) page_address_valid [OF allocate(4)]] by blast
  have "t < NUM_PAGES" using t(3) by (simp add: region_def)
  with page_address_inj [OF allocate(4) _ t(1)] t(2) show ?case by simp
next
  case (release st L s n)
  then show ?case using kernel_pages.owns_free by blast
qed

end
