(* ===== verification/Cpu_Core.thy ===== *)
theory Cpu_Core
  imports Socket_Delivery Page_Regions
begin

text \<open>
  \<open>cpu_core/cpu_core.h\<close> and \<open>cpu_core.cpp\<close>: the list of task descriptors, the round robin task
  switch, and the life cycle of tasks (\<open>setToRunningState\<close> and the destructors), with the socket
  manager and the page allocator they call. \<open>tss_esp0\<close> is the field of \<open>Tss\<close> the task switch sets,
  \<open>cr3\<close> the register that \<open>CurrentPagingStructure::swapPageDirectory\<close> exchanges. A task object
  is a record with the fields of \<open>Task\<close> and of its two subclasses; the pointer \<open>pTask\<close> of a
  descriptor is the number of the object.
\<close>

record TaskDescriptor =
  td_pTask :: ptr
  td_taskEsp :: u32
  td_kernelEspStackBegin :: u32
  td_pageDirectoryPhysicalAddr :: u32

record CpuCore =
  tss_esp0 :: u32
  cr3 :: u32
  core_isRunning :: bool
  timerCounter :: u32
  taskDescriptorListElements :: "TaskDescriptor dl_array"
  unusedtaskDescriptorElementsListHead :: ptr
  activeTasksListHead :: ptr
  currentTask :: ptr
  taskSwitchingPaused :: bool
  kernelPageDirectoryPhysicalAddr :: u32

datatype TaskKind =
    UserTask (taskSpaceBeginVirtualAddr: u32) (pTask8MBRegion: u32)
  | KernelTask (kernelStackSpaceBegin: u32)

record Task =
  taskID :: int
  task_isRunning :: bool
  updatedKernelStack :: u32
  task_kind :: TaskKind

datatype SetToRunningStateResponse =
  SUCCESS | TASK_ALREADY_RUNNING | TASK_NOT_PROPERLY_INITIALIZED | TOO_MANY_TASKS

abbreviation (input) MAIN_KERNEL_STACK :: u32 where "MAIN_KERNEL_STACK \<equiv> 0x10FFFC"
abbreviation (input) KERNEL_STACK_SIZE :: u32 where "KERNEL_STACK_SIZE \<equiv> 0x10000"
abbreviation (input) USER_STACK_SIZE :: u32 where "USER_STACK_SIZE \<equiv> 0x10000"
abbreviation (input) USER_TASK_KERNEL_STACK_OFFSET :: u32 where "USER_TASK_KERNEL_STACK_OFFSET \<equiv> 0x13FFC"
abbreviation (input) USER_TASK_USER_STACK_OFFSET :: u32 where "USER_TASK_USER_STACK_OFFSET \<equiv> 0x23FFC"
abbreviation (input) USER_TASK_PROCESS_ENTRY_OFFSET :: u32 where "USER_TASK_PROCESS_ENTRY_OFFSET \<equiv> 0x24000"

definition blank_descriptor :: TaskDescriptor where
  "blank_descriptor = \<lparr>td_pTask = None, td_taskEsp = 0, td_kernelEspStackBegin = 0,
     td_pageDirectoryPhysicalAddr = 0\<rparr>"

text \<open>The constructor. The \<open>prev\<close> pointers of the elements are left as they are in memory.\<close>

definition CpuCore_new :: "u32 \<Rightarrow> u32 \<Rightarrow> TaskDescriptor dl_array \<Rightarrow> CpuCore" where
  "CpuCore_new cr3_value kernelPageDirectory raw =
     \<lparr>tss_esp0 = MAIN_KERNEL_STACK, cr3 = cr3_value, core_isRunning = False, timerCounter = 0,
      taskDescriptorListElements =
        map (\<lambda>i. \<lparr>dl_value = blank_descriptor,
                dl_next = (if i = NUM_POSSIBLE_TASKS - 1 then None else Some (i + 1)),
                dl_prev = dl_prev (raw ! i)\<rparr>) [0..<NUM_POSSIBLE_TASKS],
      unusedtaskDescriptorElementsListHead = Some 0, activeTasksListHead = None, currentTask = None,
      taskSwitchingPaused = False, kernelPageDirectoryPhysicalAddr = kernelPageDirectory\<rparr>"

definition CpuCore_bind :: "CpuCore \<Rightarrow> CpuCore" where
  "CpuCore_bind core =
     core\<lparr>tss_esp0 := 0, cr3 := kernelPageDirectoryPhysicalAddr core, core_isRunning := True\<rparr>"

subsection \<open>The task switch\<close>

definition yieldTaskSwitch :: "CpuCore \<Rightarrow> u32 \<Rightarrow> (CpuCore \<times> u32) option" where
  "yieldTaskSwitch core esp =
     (if taskSwitchingPaused core then Some (core, esp)
      else case activeTasksListHead core of
        None \<Rightarrow> Some (core, esp)
      | Some head \<Rightarrow> do {
          nextTask \<leftarrow> (case currentTask core of
              None \<Rightarrow> Some head
            | Some c \<Rightarrow> do {
                e \<leftarrow> arr_get (taskDescriptorListElements core) c;
                Some (case dl_next e of None \<Rightarrow> head | Some n \<Rightarrow> n) });
          if currentTask core = Some nextTask then Some (core, esp)
          else do {
            let es = taskDescriptorListElements core;
            let es = (case currentTask core of None \<Rightarrow> es
                      | Some c \<Rightarrow> set_value es c ((dl_value (es ! c))\<lparr>td_taskEsp := esp\<rparr>));
            e \<leftarrow> arr_get es nextTask;
            let new = dl_value e;
            let es = (case currentTask core of None \<Rightarrow> es
                      | Some c \<Rightarrow> set_value es c
                          ((dl_value (es ! c))\<lparr>td_pageDirectoryPhysicalAddr := cr3 core\<rparr>));
            Some (core\<lparr>currentTask := Some nextTask, taskDescriptorListElements := es,
                       tss_esp0 := td_kernelEspStackBegin new,
                       cr3 := td_pageDirectoryPhysicalAddr new\<rparr>,
                  td_taskEsp new)
          }
        })"

text \<open>The timer callback counts and then raises the yield interrupt.\<close>

definition TimerCallback_run :: "CpuCore \<Rightarrow> u32 \<Rightarrow> (CpuCore \<times> u32) option" where
  "TimerCallback_run core esp = yieldTaskSwitch (core\<lparr>timerCounter := timerCounter core + 1\<rparr>) esp"

definition withTaskSwitchingPaused :: "(CpuCore \<Rightarrow> CpuCore option) \<Rightarrow> CpuCore \<Rightarrow> CpuCore option" where
  "withTaskSwitchingPaused run core = do {
     core \<leftarrow> run (core\<lparr>taskSwitchingPaused := True\<rparr>);
     Some (core\<lparr>taskSwitchingPaused := False\<rparr>) }"

definition getCurrentTask :: "CpuCore \<Rightarrow> ptr option" where
  "getCurrentTask core = do {
     c \<leftarrow> currentTask core;
     e \<leftarrow> arr_get (taskDescriptorListElements core) c;
     Some (td_pTask (dl_value e)) }"

subsection \<open>Starting and ending tasks\<close>

text \<open>The last part of both \<open>setToRunningState\<close> methods: take an unused descriptor, fill it, put it in
  front of the active list.\<close>

definition activate_task ::
  "CpuCore \<Rightarrow> TaskDescriptor \<Rightarrow> Task \<Rightarrow> (SetToRunningStateResponse \<times> CpuCore \<times> Task) option" where
  "activate_task core desc task =
     (case unusedtaskDescriptorElementsListHead core of
        None \<Rightarrow> Some (TOO_MANY_TASKS, core, task)
      | Some i \<Rightarrow> do {
          e \<leftarrow> arr_get (taskDescriptorListElements core) i;
          let es = set_value (taskDescriptorListElements core) i desc;
          let (es, head) = dl_push_front es (activeTasksListHead core) i;
          Some (SUCCESS,
                core\<lparr>taskDescriptorListElements := es, activeTasksListHead := head,
                     unusedtaskDescriptorElementsListHead := dl_next e\<rparr>,
                task\<lparr>taskID := int i, task_isRunning := True\<rparr>)
        })"

definition UserTask_setToRunningState ::
  "(u32 \<Rightarrow> u32) \<Rightarrow> CpuCore \<Rightarrow> nat \<Rightarrow> Task \<Rightarrow> (SetToRunningStateResponse \<times> CpuCore \<times> Task) option" where
  "UserTask_setToRunningState getPhysicalAddr core self task =
     (let begin = taskSpaceBeginVirtualAddr (task_kind task); area = pTask8MBRegion (task_kind task) in
      if task_isRunning task then Some (TASK_ALREADY_RUNNING, core, task)
      else if area = 0 then Some (TASK_NOT_PROPERLY_INITIALIZED, core, task)
      else activate_task core
        \<lparr>td_pTask = Some self, td_taskEsp = (updatedKernelStack task - area) + begin,
         td_kernelEspStackBegin = begin + USER_TASK_KERNEL_STACK_OFFSET,
         td_pageDirectoryPhysicalAddr = getPhysicalAddr area\<rparr> task)"

definition KernelTask_setToRunningState ::
  "CpuCore \<Rightarrow> nat \<Rightarrow> Task \<Rightarrow> (SetToRunningStateResponse \<times> CpuCore \<times> Task) option" where
  "KernelTask_setToRunningState core self task =
     (let stack = kernelStackSpaceBegin (task_kind task) in
      if task_isRunning task then Some (TASK_ALREADY_RUNNING, core, task)
      else if stack = 0 then Some (TASK_NOT_PROPERLY_INITIALIZED, core, task)
      else activate_task core
        \<lparr>td_pTask = Some self, td_taskEsp = updatedKernelStack task,
         td_kernelEspStackBegin = stack + KERNEL_STACK_SIZE - 4,
         td_pageDirectoryPhysicalAddr = cr3 core\<rparr> task)"

text \<open>Both destructors: leave the active list, close the sockets, free the memory.\<close>

definition deactivate_task :: "CpuCore \<Rightarrow> int \<Rightarrow> CpuCore option" where
  "deactivate_task core tid = do {
     let i = nat tid;
     e \<leftarrow> arr_get (taskDescriptorListElements core) i;
     let (es, head) = dl_unlink (taskDescriptorListElements core) (activeTasksListHead core) i;
     let es = set_next es i (unusedtaskDescriptorElementsListHead core);
     Some (core\<lparr>taskDescriptorListElements := es, activeTasksListHead := head,
                unusedtaskDescriptorElementsListHead := Some i\<rparr>) }"

definition task_memory :: "Task \<Rightarrow> u32" where
  "task_memory task = (case task_kind task of UserTask _ mem8 \<Rightarrow> mem8 | KernelTask stack \<Rightarrow> stack)"

definition destroy_task ::
  "CpuCore \<Rightarrow> SocketManager \<Rightarrow> PagingStructures \<Rightarrow> Task \<Rightarrow> (CpuCore \<times> SocketManager \<times> PagingStructures) option"
  where
  "destroy_task core sm pages task = do {
     core \<leftarrow> (if task_isRunning task then deactivate_task core (taskID task) else Some core);
     sm \<leftarrow> (if taskID task \<noteq> -1 then closeAllSocketsForTask sm (of_int (taskID task)) else Some sm);
     let pages = (if task_memory task \<noteq> 0 then freeContiguousPages pages (task_memory task) else pages);
     Some (core, sm, pages) }"

text \<open>Memory of new tasks (\<open>raw\<close> is what the uninitialised field \<open>updatedKernelStack\<close> holds). The user
  task constructor also builds the page tables of the task, see
  \<open>User_Task\<close>.\<close>

definition UserTask_region ::
  "CpuCore \<Rightarrow> PagingStructures \<Rightarrow> u32 \<Rightarrow> (u32 \<times> PagingStructures) option" where
  "UserTask_region core pages begin =
     (if core_isRunning core \<and> cr3 core = kernelPageDirectoryPhysicalAddr core \<and> begin mod (4096 * 1024) = 0
      then allocateContiguousPages pages (1024 * 2) else Some (0, pages))"

definition KernelTask_new :: "u32 \<Rightarrow> CpuCore \<Rightarrow> PagingStructures \<Rightarrow> (Task \<times> PagingStructures) option" where
  "KernelTask_new raw core pages = do {
     (stack, pages) \<leftarrow>
       (if \<not> core_isRunning core \<or> cr3 core = kernelPageDirectoryPhysicalAddr core
        then allocateContiguousPages pages 16 else Some (0, pages));
     Some (\<lparr>taskID = -1, task_isRunning = False, updatedKernelStack = raw, task_kind = KernelTask stack\<rparr>, pages) }"

subsection \<open>The state invariant\<close>

definition desc :: "CpuCore \<Rightarrow> nat \<Rightarrow> TaskDescriptor" where
  "desc core i = dl_value (taskDescriptorListElements core ! i)"

definition tasks_are :: "CpuCore \<Rightarrow> nat list \<Rightarrow> nat list \<Rightarrow> bool" where
  "tasks_are core act fr \<longleftrightarrow>
     length (taskDescriptorListElements core) = NUM_POSSIBLE_TASKS \<and>
     list_pool (taskDescriptorListElements core) (activeTasksListHead core) act
       (unusedtaskDescriptorElementsListHead core) fr"

definition core_inv :: "CpuCore \<Rightarrow> bool" where
  "core_inv core \<longleftrightarrow> (\<exists>act fr. tasks_are core act fr \<and>
     (case currentTask core of None \<Rightarrow> True | Some c \<Rightarrow> c \<in> set act))"

lemma tasks_are_lists:
  assumes "tasks_are core act fr"
  shows "activeTasksListHead core = hd_ptr act None" "unusedtaskDescriptorElementsListHead core = hd_ptr fr None"
    "distinct act" "set act \<inter> set fr = {}" "length act + length fr = 50"
    "\<And>i. i \<in> set act \<Longrightarrow> i < length (taskDescriptorListElements core)"
    "\<And>i. i \<in> set fr \<Longrightarrow> i < length (taskDescriptorListElements core)"
    "\<And>i. i \<in> set act \<Longrightarrow> i < 50"
  using assms pool_lists [of "taskDescriptorListElements core"] unfolding tasks_are_def by metis+

lemma active_next:
  assumes "tasks_are core act fr" "k < length act"
  shows "nxt (taskDescriptorListElements core) (act ! k) =
    (if Suc k < length act then Some (act ! Suc k) else None)"
proof -
  have d: "dlist (taskDescriptorListElements core) (activeTasksListHead core)
      (take k act @ act ! k # drop (Suc k) act)"
    using assms by (simp add: tasks_are_def list_pool_def id_take_nth_drop [symmetric])
  have "hd_ptr (drop (Suc k) act) None = (if Suc k < length act then Some (act ! Suc k) else None)"
    by (cases "Suc k < length act") (simp_all add: Cons_nth_drop_Suc [symmetric])
  with dlist_split(1) [OF d] show ?thesis by simp
qed

lemma CpuCore_new_tasks: "tasks_are (CpuCore_new c k raw) [] [0..<50]"
proof -
  have "seg (nxt (taskDescriptorListElements (CpuCore_new c k raw))) (Some 0) [0..<50] None"
    by (rule seg_upt) (auto simp: nxt_def CpuCore_new_def)
  then show ?thesis by (auto simp: tasks_are_def list_pool_def dlist_def CpuCore_new_def)
qed

lemma set_value_tasks:
  assumes "tasks_are core act fr"
  shows "tasks_are (core\<lparr>taskDescriptorListElements := set_value (taskDescriptorListElements core) i v\<rparr>) act fr"
  using assms by (auto simp: tasks_are_def list_pool_def dlist_def)

subsection \<open>Round robin\<close>

text \<open>The switch away from the task at position \<open>k\<close> of the active list.\<close>

definition switched :: "CpuCore \<Rightarrow> nat \<Rightarrow> nat \<Rightarrow> u32 \<Rightarrow> CpuCore" where
  "switched core c n esp =
     core\<lparr>currentTask := Some n,
          taskDescriptorListElements := set_value (taskDescriptorListElements core) c
            ((desc core c)\<lparr>td_taskEsp := esp, td_pageDirectoryPhysicalAddr := cr3 core\<rparr>),
          tss_esp0 := td_kernelEspStackBegin (desc core n),
          cr3 := td_pageDirectoryPhysicalAddr (desc core n)\<rparr>"

lemma set_value_twice: "c < length es \<Longrightarrow> set_value (set_value es c v) c w = set_value es c w"
  by (simp add: set_value_def)

lemma set_value_nth: "c < length es \<Longrightarrow> dl_value (set_value es c v ! j) = (if j = c then v else dl_value (es ! j))"
  by (simp add: set_value_def nth_list_update)

lemma yield_switches:
  assumes t: "tasks_are core act fr" and k: "k < length act" "currentTask core = Some (act ! k)"
    and n: "n = act ! (Suc k mod length act)" and many: "1 < length act"
    and go: "\<not> taskSwitchingPaused core"
  shows "yieldTaskSwitch core esp = Some (switched core (act ! k) n esp, td_taskEsp (desc core n))"
proof -
  let ?es = "taskDescriptorListElements core" and ?c = "act ! k"
  note l = tasks_are_lists [OF t]
  have c: "?c < length ?es" using l(6) k by simp
  have "Suc k mod length act < length act" by (rule mod_less_divisor) (use many in linarith)
  then have n': "n < length ?es" "n \<noteq> ?c"
    using l(6) n nth_eq_iff_index_eq [OF l(3), of "Suc k mod length act" k] k many
    by (auto simp: mod_Suc split: if_splits)
  have head: "activeTasksListHead core = Some (act ! 0)" using l(1) many by (cases act) auto
  have nx: "(case dl_next (?es ! ?c) of None \<Rightarrow> act ! 0 | Some n \<Rightarrow> n) = n"
    using active_next [OF t k(1)] k(1) n by (auto simp: nxt_def mod_Suc)
  show ?thesis
    using c n' go head k(2) nx
    by (simp add: yieldTaskSwitch_def switched_def desc_def set_value_nth set_value_twice Let_def)
qed

lemma yield_alone:
  assumes t: "tasks_are core act fr" and "currentTask core = Some (act ! 0)" "length act = 1"
  shows "yieldTaskSwitch core esp = Some (core, esp)"
proof -
  have "act ! 0 < length (taskDescriptorListElements core)" "activeTasksListHead core = Some (act ! 0)"
    using tasks_are_lists(1,6) [OF t] assms(3) by (cases act; auto)+
  moreover have "dl_next (taskDescriptorListElements core ! (act ! 0)) = None"
    using active_next [OF t, of 0] assms(3) by (simp add: nxt_def)
  ultimately show ?thesis using assms(2) by (simp add: yieldTaskSwitch_def)
qed

lemma switched_tasks: "tasks_are core act fr \<Longrightarrow> tasks_are (switched core c n esp) act fr"
  using set_value_tasks [of core act fr] by (simp add: switched_def tasks_are_def)

lemma switched_fields [simp]:
  "currentTask (switched core c n esp) = Some n" "taskSwitchingPaused (switched core c n esp) = taskSwitchingPaused core"
  "cr3 (switched core c n esp) = td_pageDirectoryPhysicalAddr (desc core n)"
  by (simp_all add: switched_def)

lemma switched_desc:
  "c < length (taskDescriptorListElements core) \<Longrightarrow> desc (switched core c n esp) j =
     (if j = c then (desc core c)\<lparr>td_taskEsp := esp, td_pageDirectoryPhysicalAddr := cr3 core\<rparr> else desc core j)"
  by (simp add: switched_def desc_def set_value_nth)

text \<open>A run of task switches; \<open>esps j\<close> is the stack pointer of the interrupted task at switch \<open>j\<close>, and the
  result carries the stack pointer that the last switch loads.\<close>

fun yields :: "(nat \<Rightarrow> u32) \<Rightarrow> nat \<Rightarrow> CpuCore \<Rightarrow> (CpuCore \<times> u32) option" where
  "yields esps 0 core = Some (core, esps 0)"
| "yields esps (Suc j) core = do { (core, _) \<leftarrow> yields esps j core; yieldTaskSwitch core (esps j) }"

lemma yields_rotate:
  assumes t: "tasks_are core act fr" and k: "k < length act" "currentTask core = Some (act ! k)"
    and many: "1 < length act" and go: "\<not> taskSwitchingPaused core"
  shows "\<exists>core' esp. yields esps j core = Some (core', esp) \<and> tasks_are core' act fr \<and>
    currentTask core' = Some (act ! ((k + j) mod length act)) \<and> \<not> taskSwitchingPaused core' \<and>
    (0 < j \<longrightarrow> j \<le> length act \<longrightarrow>
      td_taskEsp (desc core' (act ! k)) = esps 0 \<and> td_pageDirectoryPhysicalAddr (desc core' (act ! k)) = cr3 core \<and>
      (j = length act \<longrightarrow> esp = esps 0 \<and> cr3 core' = cr3 core))"
proof (induction j)
  case 0
  then show ?case using t k go by simp
next
  case (Suc j)
  let ?n = "length act" and ?c = "act ! k"
  obtain core1 esp1 where c1: "yields esps j core = Some (core1, esp1)" "tasks_are core1 act fr"
    "currentTask core1 = Some (act ! ((k + j) mod ?n))" "\<not> taskSwitchingPaused core1"
    and saved: "0 < j \<Longrightarrow> j \<le> ?n \<Longrightarrow> td_taskEsp (desc core1 ?c) = esps 0 \<and>
      td_pageDirectoryPhysicalAddr (desc core1 ?c) = cr3 core"
    using Suc.IH by auto
  have kj: "(k + j) mod ?n < ?n" by (rule mod_less_divisor) (use many in linarith)
  let ?cur = "act ! ((k + j) mod ?n)" and ?nx = "act ! ((k + Suc j) mod ?n)"
  have nx: "?nx = act ! (Suc ((k + j) mod ?n) mod ?n)" by (simp add: mod_Suc_eq)
  let ?core' = "switched core1 ?cur ?nx (esps j)"
  have y: "yieldTaskSwitch core1 (esps j) = Some (?core', td_taskEsp (desc core1 ?nx))"
    by (rule yield_switches [OF c1(2) kj c1(3) nx many c1(4)])
  have len: "?cur < length (taskDescriptorListElements core1)" using tasks_are_lists(6) [OF c1(2)] kj by simp
  note d = switched_desc [OF len, of ?nx "esps j"]
  have dist: "distinct act" using tasks_are_lists(3) [OF t] .
  have cur: "?cur = ?c \<longleftrightarrow> j = 0" if "j < ?n"
  proof -
    have "?cur = ?c \<longleftrightarrow> (k + j) mod ?n = k" using nth_eq_iff_index_eq [OF dist kj k(1)] .
    also have "\<dots> \<longleftrightarrow> j = 0"
    proof
      assume "(k + j) mod ?n = k"
      then show "j = 0" using that k(1) by (cases "k + j < ?n") (auto simp: le_mod_geq)
    qed (use k in simp)
    finally show ?thesis .
  qed
  have "td_taskEsp (desc ?core' ?c) = esps 0 \<and> td_pageDirectoryPhysicalAddr (desc ?core' ?c) = cr3 core"
    if "Suc j \<le> ?n"
  proof (cases "j = 0")
    case True
    then show ?thesis using c1(1) d [of ?c] k(1) by auto
  next
    case False
    then show ?thesis using saved d [of ?c] cur that by auto
  qed
  moreover have "td_taskEsp (desc core1 ?nx) = esps 0 \<and> cr3 ?core' = cr3 core" if "Suc j = ?n"
  proof -
    have "(k + Suc j) mod ?n = k" using that k(1) by simp
    then show ?thesis using saved that many by simp
  qed
  ultimately show ?case
    by (intro exI [of _ ?core'] exI [of _ "td_taskEsp (desc core1 ?nx)"] conjI impI)
      (use c1 y switched_tasks [OF c1(2)] in simp_all)
qed

subsection \<open>The life cycle of tasks\<close>

lemma activate_task_spec:
  assumes t: "tasks_are core act fr"
  shows "fr = [] \<Longrightarrow> activate_task core d task = Some (TOO_MANY_TASKS, core, task)"
    and "fr = i # fr' \<Longrightarrow> \<exists>core'. activate_task core d task =
      Some (SUCCESS, core', task\<lparr>taskID := int i, task_isRunning := True\<rparr>) \<and>
      tasks_are core' (i # act) fr' \<and> desc core' i = d \<and> (\<forall>j. j \<noteq> i \<longrightarrow> desc core' j = desc core j) \<and>
      currentTask core' = currentTask core \<and> cr3 core' = cr3 core"
proof -
  let ?es = "taskDescriptorListElements core"
  note l = tasks_are_lists [OF t]
  show "fr = [] \<Longrightarrow> activate_task core d task = Some (TOO_MANY_TASKS, core, task)"
    using l(2) by (simp add: activate_task_def)
  assume fr: "fr = i # fr'"
  then have free: "unusedtaskDescriptorElementsListHead core = Some i" and i: "i < length ?es" using l(2,7) by auto
  obtain es' head where p: "dl_push_front (set_value ?es i d) (activeTasksListHead core) i = (es', head)"
    by (cases "dl_push_front (set_value ?es i d) (activeTasksListHead core) i")
  have head: "head = Some i" and len: "length es' = length ?es"
    and val: "dl_value (es' ! j) = (if j = i then d else dl_value (?es ! j))" for j
    using dl_push_front_frame(1,3) [of "set_value ?es i d" "activeTasksListHead core" i]
      dl_push_front_value [of "set_value ?es i d" "activeTasksListHead core" i] p i
    by (auto simp: set_value_nth)
  have "list_pool ?es (activeTasksListHead core) act (Some i) fr"
    using t free by (simp add: tasks_are_def)
  from pool_activate(1) [OF this, of "set_value ?es i d"] have
    "list_pool es' (Some i) (i # act) (nxt ?es i) fr'" using p fr by simp
  then show "\<exists>core'. activate_task core d task =
      Some (SUCCESS, core', task\<lparr>taskID := int i, task_isRunning := True\<rparr>) \<and>
      tasks_are core' (i # act) fr' \<and> desc core' i = d \<and> (\<forall>j. j \<noteq> i \<longrightarrow> desc core' j = desc core j) \<and>
      currentTask core' = currentTask core \<and> cr3 core' = cr3 core"
    using free i p head len val t
    by (simp add: activate_task_def tasks_are_def desc_def nxt_def)
qed

lemma deactivate_task_spec:
  assumes t: "tasks_are core (is @ i # js) fr"
  shows "\<exists>core'. deactivate_task core (int i) = Some core' \<and> tasks_are core' (is @ js) (i # fr) \<and>
    (\<forall>j. desc core' j = desc core j) \<and> currentTask core' = currentTask core \<and> cr3 core' = cr3 core"
proof -
  let ?es = "taskDescriptorListElements core"
  have i: "i < length ?es" using tasks_are_lists(6) [OF t, of i] by simp
  obtain es' head' where u: "dl_unlink ?es (activeTasksListHead core) i = (es', head')"
    by (cases "dl_unlink ?es (activeTasksListHead core) i")
  have "list_pool (set_next es' i (unusedtaskDescriptorElementsListHead core)) head' (is @ js) (Some i) (i # fr)"
    using t by (intro pool_release [OF _ u]) (simp add: tasks_are_def)
  moreover have "length es' = length ?es" "\<And>j. dl_value (es' ! j) = dl_value (?es ! j)"
    using dl_unlink_frame(1) [of ?es "activeTasksListHead core" i] dl_unlink_value [of ?es "activeTasksListHead core" i] u
    by auto
  ultimately show ?thesis using i u t by (simp add: deactivate_task_def tasks_are_def desc_def)
qed

end
