(* ===== verification/Kernel_Mapping.thy ===== *)
theory Kernel_Mapping
  imports Page_Regions
begin

text \<open>
  The page allocator keeps its codes inside the entries the processor reads. \<open>mapping\<close> is what the
  processor sees of the structures, and no operation of the allocator changes it. The kernel's identity
  mapping therefore holds in every state the allocator reaches, and so does the window through which
  \<open>CurrentPagingStructure\<close> reads the entries.
\<close>

definition mapping :: "PagingStructures \<Rightarrow> PTE list list \<times> PTE list \<times> u32 list" where
  "mapping st = (map (map decode_PTE) (pageTables st), map decode_PTE (pageDirectoryEntries (pageDirectory st)),
     helperTableEntries (pageDirectory st))"

lemma map_update_same: "f v = f (xs ! i) \<Longrightarrow> map f (xs[i := v]) = map f xs"
  by (cases "i < length xs") (simp_all add: map_update list_update_same_conv list_update_beyond)

lemma fold_update_same:
  assumes "\<And>e. f (g e) = f e"
  shows "map f (fold (\<lambda>j pt. pt[j := g (pt ! j)]) js pt) = map f pt"
  by (induction js arbitrary: pt) (simp_all add: map_update_same assms)

lemma mapping_put_table:
  "map decode_PTE pt = map decode_PTE (pageTables st ! i) \<Longrightarrow> mapping (put_table i pt st) = mapping st"
  by (simp add: mapping_def put_table_def map_update_same)

lemma mapping_pde_code: "c < 4 \<Longrightarrow> mapping (set_pde_code i c st) = mapping st"
  by (simp add: mapping_def set_pde_code_def Let_def map_update_same)

lemma mark_entries_decode: "c < 4 \<Longrightarrow> map decode_PTE (mark_entries c b e pt) = map decode_PTE pt"
  unfolding mark_entries_def by (rule fold_update_same) simp

lemmas mapping_kept = mapping_put_table mapping_pde_code mark_entries_decode

lemma mapping_allocatePageRange:
  assumes "allocatePageRange st a b = Some st'"
  shows "mapping st' = mapping st"
  using assms unfolding allocatePageRange_def Let_def
  by (rule for_each_invariant) (auto simp: getPageTable_def mapping_kept split: Option.bind_splits if_splits)

lemma table_marked:
  assumes "c < 4" "getPageTable st i = Some pt"
    "(if A then set_pde_code i 2 (put_table i (mark_entries c b e pt) st)
      else if B then set_pde_code i 2 (put_table i (mark_entries c b e pt) st)
      else set_pde_code i 1 (put_table i (mark_entries c b e pt) st)) = st'"
  shows "mapping st' = mapping st"
  using assms by (auto simp: mapping_kept getPageTable_def split: if_splits)

lemma mapping_allocateAt:
  assumes "allocatePagesStartingAtIndex st s n = Some st'"
  shows "mapping st' = mapping st"
proof (cases "n = 0")
  case False
  have code: "neighbour_code st p = Some c \<Longrightarrow> c < 4" for p c
    by (auto simp: neighbour_code_def entry_code_lt4 split: Option.bind_splits)
  have code': "(if b then neighbour_code st p else Some 1) = Some c \<Longrightarrow> c < 4" for b p c
    by (auto dest: code split: if_splits)
  show ?thesis
    using assms False unfolding allocatePagesStartingAtIndex_def Let_def
    apply (simp only: if_False Option.bind_eq_Some_conv)
    apply (elim exE conjE)
    apply (drule code')+
    apply (erule for_each_invariant)
    apply (simp only: Option.bind_eq_Some_conv option.inject)
    apply (elim exE conjE)
    apply (erule (1) table_marked [rotated])
    apply (erule (1) choose_code_ok)
    done
qed (use assms in \<open>simp add: allocatePagesStartingAtIndex_def\<close>)

lemma mapping_allocate:
  assumes "allocateContiguousPages st np = Some (a, st')"
  shows "mapping st' = mapping st"
  using assms mapping_allocateAt
  by (auto simp: allocateContiguousPages_def Let_def split: Option.bind_splits if_splits)

lemma mapping_free_in_table: "mapping (fst (free_in_table c i b st)) = mapping st"
proof -
  have "map decode_PTE (fold (\<lambda>j pt. pt[j := clear_code (pt ! j)]) js pt) = map decode_PTE pt" for js pt
    by (rule fold_update_same) simp
  then show ?thesis by (simp add: free_in_table_def Let_def mapping_put_table mapping_pde_code)
qed

lemma mapping_free: "mapping (freeContiguousPages st a) = mapping st"
proof -
  have "mapping (free_loop c f p is st) = mapping st" for c f p "is" st
  proof (induction c f p "is" st rule: free_loop.induct)
    case (2 c f p i "is" st)
    let ?r = "free_in_table c i (if i = f then p else 0) st"
    obtain st' cont where r: "?r = (st', cont)" by (cases ?r)
    then have "mapping st' = mapping st" by (metis fst_conv mapping_free_in_table)
    with 2 r show ?case by simp
  qed simp
  then show ?thesis by (simp add: freeContiguousPages_def Let_def)
qed

lemma mapping_new: "mapping (PageAllocator_new st) = mapping st"
  by (simp add: mapping_def PageAllocator_new_def Let_def o_def flip: take_map drop_map)

text \<open>The structures as the allocator leaves them, starting from the boot state.\<close>

definition kernel_map :: "u32 \<Rightarrow> PagingStructures \<Rightarrow> bool" where
  "kernel_map base ps \<longleftrightarrow> mapping ps = mapping (PagingStructures_new base)"

lemmas kernel_map_steps = mapping_allocatePageRange mapping_allocate mapping_free mapping_new

lemma kernel_map_reachable: "pages_reachable st0 st L \<Longrightarrow> kernel_map base st0 \<Longrightarrow> kernel_map base st"
  by (induction rule: pages_reachable.induct) (auto simp: kernel_map_def mapping_free dest: mapping_allocate)

text \<open>What such structures hold.\<close>

definition identity_PTE :: "nat \<Rightarrow> PTE" where
  "identity_PTE p = \<lparr>pagePhysicalAddr = of_nat (4096 * p), pte_kernelPrivilegeOnly = True, pteIsValid = True\<rparr>"

lemma decode_3: "take_bit 12 (a :: u32) = 0 \<Longrightarrow> decode_PTE (a OR 3) = \<lparr>pagePhysicalAddr = a, pte_kernelPrivilegeOnly = True, pteIsValid = True\<rparr>"
  using decode_encode(1) [of a True True] by (simp add: flag_bits_cases)

lemma kernel_map_tables:
  assumes "kernel_map base ps" "i < 1023" "j < 1024"
  shows "decode_PTE (pageTables ps ! i ! j) = identity_PTE (1024 * i + j)"
    "length (pageTables ps) = 1023" "length (pageTables ps ! i) = 1024"
proof -
  have eq: "map (map decode_PTE) (pageTables ps) = map (map decode_PTE) (map identity_table [0..<1023])"
    using assms(1) by (simp add: kernel_map_def mapping_def PagingStructures_new_def)
  show len: "length (pageTables ps) = 1023" using arg_cong [OF eq, of length] by simp
  have row: "map decode_PTE (pageTables ps ! i) = map decode_PTE (identity_table i)"
    using arg_cong [OF eq, of "\<lambda>xs. xs ! i"] len assms(2) by simp
  show n: "length (pageTables ps ! i) = 1024"
    using arg_cong [OF row, of length] identity_table_entry(2) [of 0 i] by simp
  have "decode_PTE (pageTables ps ! i ! j) = decode_PTE (identity_table i ! j)"
    using arg_cong [OF row, of "\<lambda>xs. xs ! j"] n identity_table_entry(2) [of 0 i] assms(3) by simp
  also have "\<dots> = identity_PTE (1024 * i + j)"
  proof -
    have "4194304 * i + 4096 * j = 4096 * (1024 * i + j)" by simp
    then show ?thesis
      using decode_3 [OF identity_table_entry(3) [OF assms(3), of i]] identity_table_entry(1) [OF assms(3), of i]
      by (simp only: identity_PTE_def)
  qed
  finally show "decode_PTE (pageTables ps ! i ! j) = identity_PTE (1024 * i + j)" .
qed

lemma new_directory_last:
  assumes "take_bit 12 base = 0"
  shows "pageDirectoryEntries (pageDirectory (PagingStructures_new base)) ! 1023 = (base + 0x1000) OR 3"
  using fold_changePDE [of 1023 "PageDirectory_new base"
      "\<lambda>i. \<lparr>pageTablePhysicalAddr = page_table_addr base i, pde_kernelPrivilegeOnly = True, pdeIsValid = True\<rparr>"]
    PageDirectory_new_wf page_table_addr_aligned [OF assms]
  by (simp add: PagingStructures_new_def) (simp add: PageDirectory_new_def Let_def nth_append)

lemma kernel_map_directory:
  assumes "kernel_map base ps" "take_bit 12 base = 0"
  shows "length (pageDirectoryEntries (pageDirectory ps)) = 1024" "length (helperTableEntries (pageDirectory ps)) = 1024"
    "i < 1024 \<Longrightarrow> decode_PTE (helperTableEntries (pageDirectory ps) ! i) = decode_PTE (pageDirectoryEntries (pageDirectory ps) ! i)"
    "i < 1023 \<Longrightarrow> decode_PTE (pageDirectoryEntries (pageDirectory ps) ! i) =
      \<lparr>pagePhysicalAddr = page_table_addr base i, pte_kernelPrivilegeOnly = True, pteIsValid = True\<rparr>"
    "decode_PTE (pageDirectoryEntries (pageDirectory ps) ! 1023) =
      \<lparr>pagePhysicalAddr = base + 0x1000, pte_kernelPrivilegeOnly = True, pteIsValid = True\<rparr>"
proof -
  let ?new = "pageDirectory (PagingStructures_new base)"
  have eq: "map decode_PTE (pageDirectoryEntries (pageDirectory ps)) = map decode_PTE (pageDirectoryEntries ?new)"
    and helper: "helperTableEntries (pageDirectory ps) = helperTableEntries ?new"
    using assms(1) by (simp_all add: kernel_map_def mapping_def)
  note dir = PagingStructures_new_directory [OF assms(2)]
  have wf: "length (pageDirectoryEntries ?new) = 1024" "helperTableEntries ?new = pageDirectoryEntries ?new"
    using dir(2) [of 0] by (simp_all add: pd_wf_def)
  show len: "length (pageDirectoryEntries (pageDirectory ps)) = 1024"
    using arg_cong [OF eq, of length] wf by simp
  show "length (helperTableEntries (pageDirectory ps)) = 1024" using wf helper by simp
  have nth: "decode_PTE (pageDirectoryEntries (pageDirectory ps) ! k) = decode_PTE (pageDirectoryEntries ?new ! k)" if "k < 1024" for k
    using arg_cong [OF eq, of "\<lambda>xs. xs ! k"] len wf that by simp
  show "i < 1024 \<Longrightarrow> decode_PTE (helperTableEntries (pageDirectory ps) ! i) = decode_PTE (pageDirectoryEntries (pageDirectory ps) ! i)"
    using nth helper wf by simp
  show "i < 1023 \<Longrightarrow> decode_PTE (pageDirectoryEntries (pageDirectory ps) ! i) =
      \<lparr>pagePhysicalAddr = page_table_addr base i, pte_kernelPrivilegeOnly = True, pteIsValid = True\<rparr>"
    using nth [of i] dir(1) [of i] decode_3 [OF page_table_addr_aligned [OF assms(2)]] by simp
  have "take_bit 12 (base + 0x1000) = 0"
    using aligned_page_number [OF assms(2)] page_multiple_aligned [of "unat base div 4096 + 1"] by (simp add: algebra_simps)
  then show "decode_PTE (pageDirectoryEntries (pageDirectory ps) ! 1023) =
      \<lparr>pagePhysicalAddr = base + 0x1000, pte_kernelPrivilegeOnly = True, pteIsValid = True\<rparr>"
    using nth [of 1023] new_directory_last [OF assms(2)] decode_3 by simp
qed

subsection \<open>What the processor and the window read\<close>

definition kernel_memory :: "(u32 \<Rightarrow> u32) \<Rightarrow> u32 \<Rightarrow> PagingStructures \<Rightarrow> bool" where
  "kernel_memory pm base ps \<longleftrightarrow> structures_at pm base ps \<and> kernel_map base ps \<and> take_bit 12 base = 0"

lemma aligned_self: "take_bit 12 (a :: u32) = 0 \<Longrightarrow> a AND 0xFFFFF000 = a"
  by (simp add: and_FFFFF000 aligned_high)

lemma decode_PTE_fields:
  assumes "decode_PTE e = \<lparr>pagePhysicalAddr = a, pte_kernelPrivilegeOnly = k, pteIsValid = v\<rparr>"
  shows "e AND 0xFFFFF000 = a" "(e AND 4 = 0) = k" "(e AND 1 \<noteq> 0) = v"
  using assms by (simp_all add: decode_PTE_def)

lemma kernel_memory_words:
  assumes "kernel_memory pm base ps"
  shows "base AND 0xFFFFF000 = base" "i < 1024 \<Longrightarrow> pm (base + 4 * of_nat i) = pageDirectoryEntries (pageDirectory ps) ! i"
    "i < 1024 \<Longrightarrow> pm (base + 0x1000 + 4 * of_nat i) = helperTableEntries (pageDirectory ps) ! i"
    "i < 1023 \<Longrightarrow> j < 1024 \<Longrightarrow> pm (page_table_addr base i + 4 * of_nat j) = pageTables ps ! i ! j"
  using assms kernel_map_directory(1,2) [of base ps] kernel_map_tables(3) [of base ps i j] aligned_self [of base]
  by (simp_all add: kernel_memory_def structures_at_def holds_words_def)

lemma kernel_memory_entries:
  assumes "kernel_memory pm base ps"
  shows "i < 1023 \<Longrightarrow> decode_PTE (pm (base + 4 * of_nat i)) =
      \<lparr>pagePhysicalAddr = page_table_addr base i, pte_kernelPrivilegeOnly = True, pteIsValid = True\<rparr>"
    "decode_PTE (pm (base + 4 * 1023)) =
      \<lparr>pagePhysicalAddr = base + 0x1000, pte_kernelPrivilegeOnly = True, pteIsValid = True\<rparr>"
    "i < 1023 \<Longrightarrow> j < 1024 \<Longrightarrow> decode_PTE (pm (page_table_addr base i + 4 * of_nat j)) = identity_PTE (1024 * i + j)"
  using assms kernel_memory_words(2) [OF assms, of i] kernel_memory_words(2) [OF assms, of 1023]
    kernel_memory_words(4) [OF assms, of i j] kernel_map_directory(4,5) [of base ps] kernel_map_tables(1) [of base ps i j]
  by (simp_all add: kernel_memory_def)

lemma kernel_recursive:
  assumes "kernel_memory pm base ps"
  shows "recursive_map pm base"
  using kernel_memory_words [OF assms] decode_PTE_fields [OF kernel_memory_entries(2) [OF assms]]
    kernel_map_directory(3) [of base ps] assms
  by (simp add: recursive_map_def Let_def kernel_memory_def)

lemma kernel_getPTE:
  assumes "kernel_memory pm base ps" "i < 1023" "j < 1023"
  shows "CurrentPagingStructure_getPTE (mmu_read pm base) (of_nat i) (of_nat j) = Some (identity_PTE (1024 * i + j))"
  using CurrentPagingStructure_getPTE_mmu [OF kernel_recursive [OF assms(1)], of i j] assms(2,3)
    kernel_memory_words(1) [OF assms(1)] decode_PTE_fields [OF kernel_memory_entries(1) [OF assms(1,2)]]
    kernel_memory_entries(3) [OF assms(1,2), of j]
  by simp

lemma kernel_getPDE:
  assumes "kernel_memory pm base ps" "i < 1023"
  shows "CurrentPagingStructure_getPDE (mmu_read pm base) (of_nat i) =
    Some \<lparr>pageTablePhysicalAddr = page_table_addr base i, pde_kernelPrivilegeOnly = True, pdeIsValid = True\<rparr>"
  using CurrentPagingStructure_getPDE_mmu [OF kernel_recursive [OF assms(1)] assms(2)]
    kernel_memory_words(1) [OF assms(1)] decode_PTE_fields [OF kernel_memory_entries(1) [OF assms]]
  by (simp add: decode_PDE_def)

lemma kernel_walk:
  assumes "kernel_memory pm base ps" "unat va < 4290772992"
  shows "mmu_walk pm base va = Some va"
proof -
  obtain i j where ij: "pd_index va = of_nat i" "pt_index va = of_nat j" "j < 1024"
    "i = unat (pd_index va)" "j = unat (pt_index va)"
    by (rule indices_as_nat)
  have i: "i < 1023" using assms(2) by (simp add: ij(4) unat_indices less_mult_imp_div_less)
  note pde = decode_PTE_fields [OF kernel_memory_entries(1) [OF assms(1) i]]
    and pte = decode_PTE_fields [OF kernel_memory_entries(3) [OF assms(1) i ij(3), unfolded identity_PTE_def]]
  have "va = of_nat (unat va)" by simp
  also have "unat va = 4096 * (1024 * i + j) + unat (page_offset va)"
    using page_number_split [of va] ij(4,5) by simp
  finally have va: "of_nat (4096 * (1024 * i + j)) + page_offset va = va" by (simp add: add_ac)
  show ?thesis
    unfolding mmu_walk_def ij(1,2) kernel_memory_words(1) [OF assms(1)] Let_def
    using pde pte va by (simp del: of_nat_add of_nat_mult)
qed

lemma kernel_translate:
  assumes "kernel_memory pm base ps" "unat va < 4290772992" "pt_index va < 1023" "cr0 AND 0x80000000 \<noteq> 0"
  shows "translateVirtualToPhysicalAddress cr0 (mmu_read pm base) va = Some va"
  by (rule translate_sound [OF kernel_recursive [OF assms(1)] kernel_walk [OF assms(1,2)] assms(3,4)])

subsection \<open>A memory that holds the structures\<close>

definition structure_words :: "PagingStructures \<Rightarrow> u32 list" where
  "structure_words ps = pageDirectoryEntries (pageDirectory ps) @ helperTableEntries (pageDirectory ps) @
     concat (pageTables ps)"

definition memory_of :: "PagingStructures \<Rightarrow> u32 \<Rightarrow> u32 \<Rightarrow> u32" where
  "memory_of ps base a = structure_words ps ! (unat (a - base) div 4)"

lemma nth_concat_uniform:
  assumes "i < length xss" "\<And>xs. xs \<in> set xss \<Longrightarrow> length xs = n" "j < n"
  shows "concat xss ! (i * n + j) = xss ! i ! j"
  using assms
proof (induction xss arbitrary: i)
  case (Cons xs xss)
  then show ?case by (cases i) (auto simp: nth_append)
qed simp

lemma memory_of_word:
  assumes "k < 1073741824"
  shows "memory_of ps base (base + 4 * of_nat k) = structure_words ps ! k"
proof -
  have "unat (4 * of_nat k :: u32) = 4 * k"
    using unat_of_nat_u32 [of "4 * k"] assms by simp
  then show ?thesis by (simp add: memory_of_def)
qed

lemma memory_of_holds:
  assumes km: "kernel_map base ps" and al: "take_bit 12 base = 0"
  shows "structures_at (memory_of ps base) base ps"
proof -
  have len: "length (pageDirectoryEntries (pageDirectory ps)) = 1024"
    "length (helperTableEntries (pageDirectory ps)) = 1024" "length (pageTables ps) = 1023"
    "\<And>xs. xs \<in> set (pageTables ps) \<Longrightarrow> length xs = 1024"
    using kernel_map_directory(1,2) [OF km al] kernel_map_tables(2) [OF km, of 0 0] kernel_map_tables(3) [OF km, of _ 0]
    by (auto simp: in_set_conv_nth)
  note word = memory_of_word [of _ ps base]
  have dir: "memory_of ps base (base + 4 * of_nat i) = pageDirectoryEntries (pageDirectory ps) ! i" if "i < 1024" for i
    using word [of i] that len by (simp add: structure_words_def nth_append)
  have helper: "memory_of ps base (base + 0x1000 + 4 * of_nat i) = helperTableEntries (pageDirectory ps) ! i"
    if "i < 1024" for i
  proof -
    have "base + 0x1000 + 4 * of_nat i = base + 4 * of_nat (1024 + i)" by simp
    with word [of "1024 + i"] that len show ?thesis by (simp only: structure_words_def nth_append) simp
  qed
  have tables: "memory_of ps base (page_table_addr base t + 4 * of_nat i) = pageTables ps ! t ! i"
    if "t < 1023" "i < 1024" for t i
  proof -
    have "page_table_addr base t + 4 * of_nat i = base + 4 * of_nat (1024 + (1024 + (t * 1024 + i)))"
      by (simp add: page_table_addr_def algebra_simps)
    moreover have "concat (pageTables ps) ! (t * 1024 + i) = pageTables ps ! t ! i"
      by (rule nth_concat_uniform) (use that len in auto)
    moreover have "1024 + (1024 + (t * 1024 + i)) < 1073741824" using that by linarith
    ultimately show ?thesis
      using word [of "1024 + (1024 + (t * 1024 + i))"] len by (simp only: structure_words_def nth_append) simp
  qed
  have "length (pageTables ps ! t) = 1024" if "t < 1023" for t using len(3,4) that by simp
  then show ?thesis
    using dir helper tables len by (simp add: structures_at_def holds_words_def)
qed

end
