(* ===== verification/User_Task.thy ===== *)
theory User_Task
  imports Cpu_Core Kernel_Mapping
begin

text \<open>
  The address space of a user task: the part of the \<open>UserTask\<close> constructor (\<open>cpu_core.cpp\<close>) that builds the
  task's page directory and two page tables at the begin of its 8MB region, and what the processor makes
  of them. The entries are copied through the window of the kernel's directory (\<open>vread\<close>).

  \<open>getPTE\<close> leaves its result uninitialised for the last entry of a table; \<open>raw p\<close> is what the local variable
  happens to hold when page \<open>p\<close> is asked for.
\<close>

subsection \<open>The constructor\<close>

definition kernel_PTE :: "(u32 \<Rightarrow> PTE) \<Rightarrow> (u32 \<Rightarrow> u32 option) \<Rightarrow> u32 \<Rightarrow> PTE option" where
  "kernel_PTE raw vread page =
     (if 1023 \<le> page mod 1024 then Some (raw page)
      else CurrentPagingStructure_getPTE vread (page div 1024) (page mod 1024))"

text \<open>\<open>getPhysicalAddr\<close> of a page directory or a page table; paging is enabled.\<close>

definition physical_addr :: "(u32 \<Rightarrow> PTE) \<Rightarrow> (u32 \<Rightarrow> u32 option) \<Rightarrow> u32 \<Rightarrow> u32 option" where
  "physical_addr raw vread a =
     (if 1023 \<le> pt_index a then Some (pagePhysicalAddr (raw (a div 4096)) + page_offset a)
      else translateVirtualToPhysicalAddress 0x80000000 vread a)"

definition copy_PDE :: "(u32 \<Rightarrow> u32 option) \<Rightarrow> nat \<Rightarrow> PageDirectory \<Rightarrow> PageDirectory option" where
  "copy_PDE vread i pd = do {
     pde \<leftarrow> CurrentPagingStructure_getPDE vread (of_nat i);
     Some (if pdeIsValid pde
           then changePDE pd (of_nat i)
             \<lparr>pageTablePhysicalAddr = pageTablePhysicalAddr pde,
              pde_kernelPrivilegeOnly = pde_kernelPrivilegeOnly pde, pdeIsValid = True\<rparr>
           else pd) }"

definition map_page ::
  "(u32 \<Rightarrow> PTE) \<Rightarrow> (u32 \<Rightarrow> u32 option) \<Rightarrow> u32 \<Rightarrow> bool \<Rightarrow> nat \<Rightarrow> PageTable \<Rightarrow> PageTable option" where
  "map_page raw vread firstPage kernelPrivilegeOnly i pt = do {
     pte \<leftarrow> kernel_PTE raw vread (firstPage + of_nat i);
     Some (changePTE pt (of_nat i)
       \<lparr>pagePhysicalAddr = pagePhysicalAddr pte, pte_kernelPrivilegeOnly = kernelPrivilegeOnly, pteIsValid = True\<rparr>) }"

text \<open>The page directory is at the begin of the region, its helper table and the two page tables follow; then
  come the kernel stack (16 pages) and the space of the task.\<close>

definition UserTask_tables ::
  "(u32 \<Rightarrow> PTE) \<Rightarrow> (u32 \<Rightarrow> u32 option) \<Rightarrow> u32 \<Rightarrow> u32 \<Rightarrow> (PageDirectory \<times> PageTable \<times> PageTable) option" where
  "UserTask_tables raw vread begin area = do {
     let taskFirstPdeIndex = begin div (1024 * 4096);
     let taskSecondPdeIndex = taskFirstPdeIndex + 1;
     let taskRegionPageIndex = area div 4096;
     directory \<leftarrow> physical_addr raw vread area;
     pd \<leftarrow> for_each (copy_PDE vread) [0..<1023] (PageDirectory_new directory);
     pt1 \<leftarrow> for_each (map_page raw vread taskRegionPageIndex True) [0..<4] PageTable_new;
     pt1 \<leftarrow> for_each (map_page raw vread taskRegionPageIndex True) [4..<20] pt1;
     pt1 \<leftarrow> for_each (map_page raw vread taskRegionPageIndex False) [20..<1024] pt1;
     table1 \<leftarrow> physical_addr raw vread (area + 0x2000);
     let pd = changePDE pd taskFirstPdeIndex
       \<lparr>pageTablePhysicalAddr = table1, pde_kernelPrivilegeOnly = False, pdeIsValid = True\<rparr>;
     pt2 \<leftarrow> for_each (map_page raw vread (taskRegionPageIndex + 1024) False) [0..<1024] PageTable_new;
     table2 \<leftarrow> physical_addr raw vread (area + 0x3000);
     let pd = changePDE pd taskSecondPdeIndex
       \<lparr>pageTablePhysicalAddr = table2, pde_kernelPrivilegeOnly = False, pdeIsValid = True\<rparr>;
     Some (pd, pt1, pt2) }"

definition UserTask_new ::
  "(u32 \<Rightarrow> PTE) \<Rightarrow> u32 \<Rightarrow> (u32 \<Rightarrow> u32 option) \<Rightarrow> CpuCore \<Rightarrow> PagingStructures \<Rightarrow> u32 \<Rightarrow>
   (Task \<times> (PageDirectory \<times> PageTable \<times> PageTable) option \<times> PagingStructures) option" where
  "UserTask_new raw rawStack vread core pages begin = do {
     (area, pages) \<leftarrow> UserTask_region core pages begin;
     let task = \<lparr>taskID = -1, task_isRunning = False, updatedKernelStack = rawStack, task_kind = UserTask begin area\<rparr>;
     if area = 0 then Some (task, None, pages)
     else do {
       tables \<leftarrow> UserTask_tables raw vread begin area;
       Some (task, Some tables, pages) } }"

text \<open>The three structures in memory, and the page walk for an access with user privilege.\<close>

definition tables_at :: "(u32 \<Rightarrow> u32) \<Rightarrow> u32 \<Rightarrow> PageDirectory \<times> PageTable \<times> PageTable \<Rightarrow> bool" where
  "tables_at pm area = (\<lambda>(pd, pt1, pt2). holds_words pm area (pageDirectoryEntries pd) \<and>
     holds_words pm (area + 0x1000) (helperTableEntries pd) \<and> holds_words pm (area + 0x2000) pt1 \<and>
     holds_words pm (area + 0x3000) pt2)"

definition user_walk :: "(u32 \<Rightarrow> u32) \<Rightarrow> u32 \<Rightarrow> u32 \<Rightarrow> u32 option" where
  "user_walk pm directory va =
     (let pde = pm ((directory AND 0xFFFFF000) + 4 * pd_index va) in
      if pde AND 1 = 0 \<or> pde AND 4 = 0 then None
      else let pte = pm ((pde AND 0xFFFFF000) + 4 * pt_index va) in
      if pte AND 1 = 0 \<or> pte AND 4 = 0 then None
      else Some ((pte AND 0xFFFFF000) + page_offset va))"

subsection \<open>The entries the constructor writes\<close>

lemma fold_changePTE_any:
  assumes "n \<le> 1024" "length pt = 1024"
  shows "length (fold (\<lambda>j pt. changePTE pt (of_nat j) (f j)) [0..<n] pt) = 1024 \<and>
    (\<forall>k < 1024. fold (\<lambda>j pt. changePTE pt (of_nat j) (f j)) [0..<n] pt ! k =
      (if k < n \<and> take_bit 12 (pagePhysicalAddr (f k)) = 0
       then pagePhysicalAddr (f k) OR flag_bits (pte_kernelPrivilegeOnly (f k)) (pteIsValid (f k))
       else pt ! k))"
  using assms
proof (induction n)
  case (Suc n)
  then have n: "unat (of_nat n :: u32) = n" "\<not> 1024 \<le> (of_nat n :: u32)"
    by (simp_all add: unat_of_nat_u32 word_le_nat_alt)
  show ?case using Suc n by (auto simp: changePTE_def and_FFF nth_list_update less_Suc_eq)
qed simp

lemma upt_split: "a \<le> b \<Longrightarrow> b \<le> c \<Longrightarrow> [a..<c] = [a..<b] @ [b..<c]"
  by (metis le_add_diff_inverse upt_add_eq_append)

definition task_page :: "(u32 \<Rightarrow> PTE) \<Rightarrow> nat \<Rightarrow> PTE" where
  "task_page raw p = (if p mod 1024 = 1023 then raw (of_nat p) else identity_PTE p)"

lemma unat_page:
  assumes "p < 1047552"
  shows "unat (of_nat p :: u32) = p" "unat (of_nat p div 1024 :: u32) = p div 1024" "unat (of_nat p mod 1024 :: u32) = p mod 1024"
  using assms by (simp_all add: unat_of_nat_u32 unat_div unat_mod)

lemma kernel_PTE_page:
  assumes "kernel_memory pm base ps" "p < 1047552"
  shows "kernel_PTE raw (mmu_read pm base) (of_nat p) = Some (task_page raw p)"
proof (cases "p mod 1024 = 1023")
  case True
  then show ?thesis using unat_page [OF assms(2)] by (simp add: kernel_PTE_def task_page_def word_le_nat_alt)
next
  case False
  have ij: "p div 1024 < 1023" "p mod 1024 < 1023" using assms(2) False by auto
  have "of_nat p div 1024 = (of_nat (p div 1024) :: u32)" "of_nat p mod 1024 = (of_nat (p mod 1024) :: u32)"
    using unat_page [OF assms(2)] ij by (simp_all add: word_unat_eq_iff unat_of_nat_u32)
  moreover have "\<not> 1023 \<le> (of_nat p mod 1024 :: u32)" using unat_page [OF assms(2)] ij by (simp add: word_le_nat_alt)
  ultimately show ?thesis
    using kernel_getPTE [OF assms(1) ij] False by (simp add: kernel_PTE_def task_page_def)
qed

text \<open>One loop of the constructor, from a table whose entries from \<open>a\<close> on are not yet written.\<close>

lemma map_pages:
  assumes "kernel_memory pm base ps" "p + 1024 \<le> 1047552" "b \<le> 1024"
  shows "for_each (map_page raw (mmu_read pm base) (of_nat p) k) [a..<b] pt =
    Some (fold (\<lambda>j pt. changePTE pt (of_nat j)
      \<lparr>pagePhysicalAddr = pagePhysicalAddr (task_page raw (p + j)), pte_kernelPrivilegeOnly = k, pteIsValid = True\<rparr>) [a..<b] pt)"
proof (rule for_each_fold)
  fix j s assume j: "j \<in> set [a..<b]"
  have "of_nat p + of_nat j = (of_nat (p + j) :: u32)" by simp
  then show "map_page raw (mmu_read pm base) (of_nat p) k j s = Some (changePTE s (of_nat j)
      \<lparr>pagePhysicalAddr = pagePhysicalAddr (task_page raw (p + j)), pte_kernelPrivilegeOnly = k, pteIsValid = True\<rparr>)"
    using kernel_PTE_page [OF assms(1), of "p + j" raw] assms(2,3) j by (simp only: map_page_def) simp
qed

definition task_entry :: "(u32 \<Rightarrow> PTE) \<Rightarrow> nat \<Rightarrow> bool \<Rightarrow> u32" where
  "task_entry raw p k = (let a = pagePhysicalAddr (task_page raw p) in if take_bit 12 a = 0 then a OR flag_bits k True else 2)"

lemma task_tables_written:
  assumes "kernel_memory pm base ps" "p + 2048 \<le> 1047552"
  obtains pt1 pt2 where
    "(do { pt1 \<leftarrow> for_each (map_page raw (mmu_read pm base) (of_nat p) True) [0..<4] PageTable_new;
           pt1 \<leftarrow> for_each (map_page raw (mmu_read pm base) (of_nat p) True) [4..<20] pt1;
           for_each (map_page raw (mmu_read pm base) (of_nat p) False) [20..<1024] pt1 }) = Some pt1"
    "for_each (map_page raw (mmu_read pm base) (of_nat p + 1024) False) [0..<1024] PageTable_new = Some pt2"
    "length pt1 = 1024" "length pt2 = 1024" "\<And>j. j < 1024 \<Longrightarrow> pt1 ! j = task_entry raw (p + j) (j < 20)"
    "\<And>j. j < 1024 \<Longrightarrow> pt2 ! j = task_entry raw (p + 1024 + j) False"
proof -
  let ?e = "\<lambda>q k j. \<lparr>pagePhysicalAddr = pagePhysicalAddr (task_page raw (q + j)), pte_kernelPrivilegeOnly = k, pteIsValid = True\<rparr>"
  let ?f = "\<lambda>q k j pt. changePTE pt (of_nat j) (?e q (k j) j)"
  have part: "for_each (map_page raw (mmu_read pm base) (of_nat p) k) [a..<b] pt = Some (fold (?f p (\<lambda>j. j < 20)) [a..<b] pt)"
    if "b \<le> 1024" "\<And>j. a \<le> j \<Longrightarrow> j < b \<Longrightarrow> k = (j < 20)" for a b k pt
  proof -
    have "fold (?f p (\<lambda>_. k)) [a..<b] pt = fold (?f p (\<lambda>j. j < 20)) [a..<b] pt"
      by (rule fold_cong) (use that(2) in auto)
    with map_pages [OF assms(1) _ that(1)] assms(2) show ?thesis by simp
  qed
  let ?pt1 = "fold (?f p (\<lambda>j. j < 20)) [0..<1024] PageTable_new"
  have all: "[0..<1024] = [0..<4] @ [4..<20] @ [20..<1024]" using upt_split [of 0 4 1024] upt_split [of 4 20 1024] by simp
  have 1: "(do { pt1 \<leftarrow> for_each (map_page raw (mmu_read pm base) (of_nat p) True) [0..<4] PageTable_new;
           pt1 \<leftarrow> for_each (map_page raw (mmu_read pm base) (of_nat p) True) [4..<20] pt1;
           for_each (map_page raw (mmu_read pm base) (of_nat p) False) [20..<1024] pt1 }) = Some ?pt1"
    using part [of 4 0 True] part [of 20 4 True] part [of 1024 20 False] by (simp add: all del: upt_rec_numeral)
  let ?pt2 = "fold (?f (p + 1024) (\<lambda>_. False)) [0..<1024] PageTable_new"
  have "of_nat p + 1024 = (of_nat (p + 1024) :: u32)" by simp
  then have 2: "for_each (map_page raw (mmu_read pm base) (of_nat p + 1024) False) [0..<1024] PageTable_new = Some ?pt2"
    using map_pages [OF assms(1), of "p + 1024" 1024 raw False 0 PageTable_new] assms(2) by simp
  note e = fold_changePTE_any [of 1024 PageTable_new "\<lambda>j. ?e p (j < 20) j"]
    fold_changePTE_any [of 1024 PageTable_new "\<lambda>j. ?e (p + 1024) False j"]
  show thesis
    by (rule that [OF 1 2]) (use e in \<open>auto simp: PageTable_new_def task_entry_def Let_def simp del: upt_rec_numeral\<close>)
qed

lemma task_directory_copied:
  assumes km: "kernel_memory pm base ps" and al: "take_bit 12 base = 0"
  obtains pd where "for_each (copy_PDE (mmu_read pm base)) [0..<1023] (PageDirectory_new area) = Some pd" "pd_wf pd"
    "\<And>i. i < 1023 \<Longrightarrow> pageDirectoryEntries pd ! i = page_table_addr base i OR 3"
    "pageDirectoryEntries pd ! 1023 = (area + 0x1000) OR 3"
proof -
  let ?e = "\<lambda>i. \<lparr>pageTablePhysicalAddr = page_table_addr base i, pde_kernelPrivilegeOnly = True, pdeIsValid = True\<rparr>"
  let ?pd = "fold (\<lambda>i pd. changePDE pd (of_nat i) (?e i)) [0..<1023] (PageDirectory_new area)"
  have 1: "for_each (copy_PDE (mmu_read pm base)) [0..<1023] (PageDirectory_new area) = Some ?pd"
    by (rule for_each_fold) (simp add: copy_PDE_def kernel_getPDE [OF km])
  note f = fold_changePDE [of 1023 "PageDirectory_new area" ?e, OF _ PageDirectory_new_wf]
  have "pd_wf ?pd" "\<And>i. i < 1023 \<Longrightarrow> pageDirectoryEntries ?pd ! i = page_table_addr base i OR 3"
    using f page_table_addr_aligned [OF al] by (simp_all add: flag_bits_cases del: upt_rec_numeral)
  moreover have "pageDirectoryEntries ?pd ! 1023 = (area + 0x1000) OR 3"
    using f page_table_addr_aligned [OF al] by (simp del: upt_rec_numeral) (simp add: PageDirectory_new_def Let_def nth_append)
  ultimately show thesis using 1 that by blast
qed

lemma changePDE_nth:
  assumes "pd_wf pd" "take_bit 12 a = 0" "k < 1024"
  shows "pageDirectoryEntries (changePDE pd i \<lparr>pageTablePhysicalAddr = a, pde_kernelPrivilegeOnly = False, pdeIsValid = True\<rparr>) ! k =
    (if k = unat i \<and> k < 1023 then a OR 7 else pageDirectoryEntries pd ! k)"
  using assms by (auto simp: changePDE_def and_FFF flag_bits_cases Let_def pd_wf_def nth_list_update word_le_nat_alt)

text \<open>The region of a task, and the condition that \<open>getPhysicalAddr\<close> is defined for its three structures.\<close>

definition task_region :: "u32 \<Rightarrow> nat \<Rightarrow> bool" where
  "task_region area p \<longleftrightarrow> area = of_nat (4096 * p) \<and> p + 2048 \<le> 1047552 \<and>
     p mod 1024 \<noteq> 1023 \<and> (p + 2) mod 1024 \<noteq> 1023 \<and> (p + 3) mod 1024 \<noteq> 1023"

lemma page_number_unat:
  assumes "p < 1047552"
  shows "unat (of_nat (4096 * p) :: u32) = 4096 * p" "of_nat (4096 * p) div 4096 = (of_nat p :: u32)"
proof -
  show 1: "unat (of_nat (4096 * p) :: u32) = 4096 * p" by (rule unat_of_nat_u32) (use assms in simp)
  show "of_nat (4096 * p) div 4096 = (of_nat p :: u32)"
    using assms by (simp add: word_unat_eq_iff unat_div 1 unat_of_nat_u32 del: of_nat_mult)
qed

lemma physical_addr_page:
  assumes "kernel_memory pm base ps" "p < 1047552" "p mod 1024 \<noteq> 1023"
  shows "physical_addr raw (mmu_read pm base) (of_nat (4096 * p)) = Some (of_nat (4096 * p))"
proof -
  have u: "unat (of_nat (4096 * p) :: u32) = 4096 * p" by (rule page_number_unat [OF assms(2)])
  have "unat (pt_index (of_nat (4096 * p))) = p mod 1024" using u by (simp only: unat_indices) simp
  moreover have "p mod 1024 < 1023" using assms(3) mod_less_divisor [of 1024 p] by linarith
  ultimately have "pt_index (of_nat (4096 * p)) < 1023" by (simp add: word_less_nat_alt)
  with kernel_translate [OF assms(1), of "of_nat (4096 * p)" "0x80000000"] u assms(2)
  show ?thesis by (simp add: physical_addr_def linorder_not_le [symmetric] del: of_nat_mult)
qed

lemma UserTask_tables_written:
  assumes km: "kernel_memory pm base ps" and r: "task_region area p" and f: "begin = of_nat (4194304 * f)" "f < 1024"
  obtains pd pt1 pt2 where "UserTask_tables raw (mmu_read pm base) begin area = Some (pd, pt1, pt2)"
    "pd_wf pd" "length pt1 = 1024" "length pt2 = 1024"
    "\<And>i. i < 1024 \<Longrightarrow> pageDirectoryEntries pd ! i =
       (if i = f + 1 \<and> i < 1023 then (area + 0x3000) OR 7 else if i = f \<and> i < 1023 then (area + 0x2000) OR 7
        else if i < 1023 then page_table_addr base i OR 3 else (area + 0x1000) OR 3)"
    "\<And>j. j < 1024 \<Longrightarrow> pt1 ! j = task_entry raw (p + j) (j < 20)"
    "\<And>j. j < 1024 \<Longrightarrow> pt2 ! j = task_entry raw (p + 1024 + j) False"
proof -
  have al: "take_bit 12 base = 0" using km by (simp add: kernel_memory_def)
  have p: "p + 2048 \<le> 1047552" "area = of_nat (4096 * p)" using r by (auto simp: task_region_def)
  have area2: "area + 0x2000 = of_nat (4096 * (p + 2))" "area + 0x3000 = of_nat (4096 * (p + 3))" by (simp_all add: p(2))
  have phys: "physical_addr raw (mmu_read pm base) area = Some area"
    "physical_addr raw (mmu_read pm base) (area + 0x2000) = Some (area + 0x2000)"
    "physical_addr raw (mmu_read pm base) (area + 0x3000) = Some (area + 0x3000)"
    unfolding area2 unfolding p(2) by (rule physical_addr_page [OF km]; use r in \<open>simp add: task_region_def\<close>)+
  have "unat (of_nat (4194304 * f) :: u32) = 4194304 * f" by (rule unat_of_nat_u32) (use f(2) in simp)
  then have first: "begin div 4194304 = of_nat f" using f by (simp add: word_unat_eq_iff unat_div unat_of_nat_u32 del: of_nat_mult)
  have second: "unat (of_nat f :: u32) = f" "unat (of_nat f + 1 :: u32) = f + 1"
    using f(2) unat_of_nat_u32 [of f] unat_of_nat_u32 [of "f + 1"] by (simp_all add: add.commute)
  have page: "area div 4096 = of_nat p" using page_number_unat(2) [of p] p by simp
  obtain pd where pd: "for_each (copy_PDE (mmu_read pm base)) [0..<1023] (PageDirectory_new area) = Some pd" "pd_wf pd"
    "\<And>i. i < 1023 \<Longrightarrow> pageDirectoryEntries pd ! i = page_table_addr base i OR 3"
    "pageDirectoryEntries pd ! 1023 = (area + 0x1000) OR 3"
    by (rule task_directory_copied [OF km al, of area]) blast
  obtain pt1 pt2 where t: "(do { pt1 \<leftarrow> for_each (map_page raw (mmu_read pm base) (of_nat p) True) [0..<4] PageTable_new;
           pt1 \<leftarrow> for_each (map_page raw (mmu_read pm base) (of_nat p) True) [4..<20] pt1;
           for_each (map_page raw (mmu_read pm base) (of_nat p) False) [20..<1024] pt1 }) = Some pt1"
    "for_each (map_page raw (mmu_read pm base) (of_nat p + 1024) False) [0..<1024] PageTable_new = Some pt2"
    "length pt1 = 1024" "length pt2 = 1024" "\<And>j. j < 1024 \<Longrightarrow> pt1 ! j = task_entry raw (p + j) (j < 20)"
    "\<And>j. j < 1024 \<Longrightarrow> pt2 ! j = task_entry raw (p + 1024 + j) False"
    by (rule task_tables_written [OF km p(1)]) blast
  let ?d = "\<lambda>a. \<lparr>pageTablePhysicalAddr = a, pde_kernelPrivilegeOnly = False, pdeIsValid = True\<rparr>"
  let ?pd1 = "changePDE pd (of_nat f) (?d (area + 0x2000))"
  let ?pd2 = "changePDE ?pd1 (of_nat f + 1) (?d (area + 0x3000))"
  obtain q1 q2 where q: "for_each (map_page raw (mmu_read pm base) (of_nat p) True) [0..<4] PageTable_new = Some q1"
    "for_each (map_page raw (mmu_read pm base) (of_nat p) True) [4..<20] q1 = Some q2"
    "for_each (map_page raw (mmu_read pm base) (of_nat p) False) [20..<1024] q2 = Some pt1"
    using t(1) by (auto simp: Option.bind_eq_Some_conv simp del: upt_rec_numeral)
  have res: "UserTask_tables raw (mmu_read pm base) begin area = Some (?pd2, pt1, pt2)"
    using phys first page pd(1) q t(2) by (simp add: UserTask_tables_def Let_def del: upt_rec_numeral)
  have wf: "pd_wf ?pd1" "pd_wf ?pd2" by (simp_all add: changePDE_wf pd(2))
  have als: "take_bit 12 (area + 0x2000) = 0" "take_bit 12 (area + 0x3000) = 0" unfolding area2 by (rule page_multiple_aligned)+
  have entries: "pageDirectoryEntries ?pd2 ! i =
       (if i = f + 1 \<and> i < 1023 then (area + 0x3000) OR 7 else if i = f \<and> i < 1023 then (area + 0x2000) OR 7
        else if i < 1023 then page_table_addr base i OR 3 else (area + 0x1000) OR 3)" if "i < 1024" for i
    using that pd(3,4) second less_Suc_eq [of i 1023]
    by (auto simp: changePDE_nth [OF wf(1) als(2)] changePDE_nth [OF pd(2) als(1)])
  show thesis by (rule that [OF res wf(2) t(3,4) entries t(5,6)])
qed

subsection \<open>What the processor makes of them\<close>

lemma entry7_fields:
  assumes "take_bit 12 (a :: u32) = 0"
  shows "(a OR 7) AND 0xFFFFF000 = a" "(a OR 7) AND 1 \<noteq> 0" "(a OR 7) AND 4 \<noteq> 0"
  using entry_fields [OF assms, of False True] by (simp_all add: flag_bits_cases)

lemma task_entry_fields:
  "task_entry raw q k AND 1 \<noteq> 0 \<longleftrightarrow> take_bit 12 (pagePhysicalAddr (task_page raw q)) = 0"
  "take_bit 12 (pagePhysicalAddr (task_page raw q)) = 0 \<Longrightarrow> (task_entry raw q k AND 4 = 0) = k"
  "take_bit 12 (pagePhysicalAddr (task_page raw q)) = 0 \<Longrightarrow> task_entry raw q k AND 0xFFFFF000 = pagePhysicalAddr (task_page raw q)"
  using entry_fields [of "pagePhysicalAddr (task_page raw q)" k True] by (simp_all add: task_entry_def Let_def)

text \<open>The pages of a task's space: page \<open>q\<close> of the space is page \<open>p + q\<close> of the kernel, except where the
  uninitialised entry was copied.\<close>

definition space_page :: "(u32 \<Rightarrow> PTE) \<Rightarrow> nat \<Rightarrow> nat \<Rightarrow> u32 \<Rightarrow> u32 option" where
  "space_page raw p q off =
     (let a = pagePhysicalAddr (task_page raw (p + q)) in if take_bit 12 a = 0 then Some (a + off) else None)"

lemma space_page_identity:
  assumes "(p + q) mod 1024 \<noteq> 1023"
  shows "space_page raw p q off = Some (of_nat (4096 * (p + q)) + off)"
  using assms page_multiple_aligned [of "p + q"] by (simp add: space_page_def task_page_def identity_PTE_def del: of_nat_mult)

lemma space_offset:
  assumes f: "begin = of_nat (4194304 * f)" "f + 2 \<le> 1023"
  shows "unat (va - begin) < 8388608 \<longleftrightarrow> unat (pd_index va) = f \<or> unat (pd_index va) = f + 1"
    "unat (pd_index va) = f \<or> unat (pd_index va) = f + 1 \<Longrightarrow>
      unat (va - begin) = 4194304 * (unat (pd_index va) - f) + 4096 * unat (pt_index va) + unat (page_offset va)"
proof -
  have u: "unat begin = 4194304 * f" unfolding f(1) by (rule unat_of_nat_u32) (use f(2) in simp)
  let ?i = "unat (pd_index va)"
  have small: "4096 * unat (pt_index va) + unat (page_offset va) < 4194304"
  proof -
    have "unat (pt_index va) < 1024" "unat (page_offset va) < 4096" by (simp_all add: unat_indices)
    then show ?thesis by linarith
  qed
  have split: "unat va = 4194304 * ?i + (4096 * unat (pt_index va) + unat (page_offset va))"
    using page_number_split [of va] by simp
  have no_wrap: "unat (va - begin) = 4194304 * (?i - f) + (4096 * unat (pt_index va) + unat (page_offset va))" if "f \<le> ?i"
  proof -
    have "4194304 * f \<le> 4194304 * ?i" using that by simp
    then have "unat begin \<le> unat va" unfolding u split by simp
    then have "unat (va - begin) = unat va - unat begin" by (rule unat_sub_no_wrap)
    then show ?thesis using that by (simp add: u split right_diff_distrib)
  qed
  then show "?i = f \<or> ?i = f + 1 \<Longrightarrow>
      unat (va - begin) = 4194304 * (?i - f) + 4096 * unat (pt_index va) + unat (page_offset va)" by auto
  show "unat (va - begin) < 8388608 \<longleftrightarrow> ?i = f \<or> ?i = f + 1"
  proof (cases "f \<le> ?i")
    case True
    then have "unat (va - begin) < 8388608 \<longleftrightarrow> ?i - f < 2" using no_wrap small by linarith
    with True show ?thesis by auto
  next
    case False
    then have lt: "unat va < unat begin" using split small u by linarith
    have "unat (begin - va) = unat begin - unat va" using lt by (intro unat_sub_no_wrap) simp
    then have d: "unat (begin - va) \<le> 4194304 * 1021" "0 < unat (begin - va)" using u f(2) lt by auto
    have "(unat (va - begin) + unat (begin - va)) mod 4294967296 = 0"
      using unat_word_ariths(1) [of "va - begin" "begin - va"] by simp
    moreover have "(unat (va - begin) + unat (begin - va)) mod 4294967296 = unat (va - begin) + unat (begin - va)"
      if "unat (va - begin) < 8388608" by (rule mod_less) (use d that in linarith)
    ultimately have "\<not> unat (va - begin) < 8388608" using d by linarith
    with False show ?thesis by auto
  qed
qed

lemma task_walks:
  assumes km: "kernel_memory pm base ps" and r: "task_region area p" and f: "begin = of_nat (4194304 * f)" "f + 2 \<le> 1023"
    and t: "UserTask_tables raw (mmu_read pm base) begin area = Some tables" and at: "tables_at pm' area tables"
  shows "user_walk pm' area va = (let k = unat (va - begin) in
      if k < 0x14000 \<or> 0x800000 \<le> k then None else space_page raw p (k div 4096) (page_offset va))" (is ?user)
    "unat (va - begin) < 0x800000 \<Longrightarrow> mmu_walk pm' area va = space_page raw p (unat (va - begin) div 4096) (page_offset va)"
    "structures_at pm' base ps' \<Longrightarrow> kernel_map base ps' \<Longrightarrow> 0x800000 \<le> unat (va - begin) \<Longrightarrow>
      unat va < 0xFFC00000 \<Longrightarrow> mmu_walk pm' area va = Some va"
proof -
  obtain pd pt1 pt2 where T: "UserTask_tables raw (mmu_read pm base) begin area = Some (pd, pt1, pt2)"
    "pd_wf pd" "length pt1 = 1024" "length pt2 = 1024"
    "\<And>i. i < 1024 \<Longrightarrow> pageDirectoryEntries pd ! i =
       (if i = f + 1 \<and> i < 1023 then (area + 0x3000) OR 7 else if i = f \<and> i < 1023 then (area + 0x2000) OR 7
        else if i < 1023 then page_table_addr base i OR 3 else (area + 0x1000) OR 3)"
    "\<And>j. j < 1024 \<Longrightarrow> pt1 ! j = task_entry raw (p + j) (j < 20)"
    "\<And>j. j < 1024 \<Longrightarrow> pt2 ! j = task_entry raw (p + 1024 + j) False"
    by (rule UserTask_tables_written [OF km r f(1)]) (use f(2) in auto)
  then have tables: "tables = (pd, pt1, pt2)" using t by simp
  obtain i j where ij: "pd_index va = of_nat i" "pt_index va = of_nat j" "i < 1024" "j < 1024"
    "i = unat (pd_index va)" "j = unat (pt_index va)" by (rule indices_as_nat)
  have area: "take_bit 12 area = 0" "take_bit 12 (area + 0x2000) = 0" "take_bit 12 (area + 0x3000) = 0" "take_bit 12 (area + 0x1000) = 0"
  proof -
    have "area = of_nat (4096 * p)" "area + 0x1000 = of_nat (4096 * (p + 1))" "area + 0x2000 = of_nat (4096 * (p + 2))"
      "area + 0x3000 = of_nat (4096 * (p + 3))" using r by (simp_all add: task_region_def)
    then show "take_bit 12 area = 0" "take_bit 12 (area + 0x2000) = 0" "take_bit 12 (area + 0x3000) = 0" "take_bit 12 (area + 0x1000) = 0"
      by (simp_all only: page_multiple_aligned)
  qed
  have pde: "pm' (area + 4 * of_nat i) = pageDirectoryEntries pd ! i"
    and pte: "pm' (area + 0x2000 + 4 * of_nat j) = pt1 ! j" "pm' (area + 0x3000 + 4 * of_nat j) = pt2 ! j"
    using at T(2,3,4) ij(3,4) by (simp_all add: tables tables_at_def holds_words_def pd_wf_def)
  note off = space_offset [OF f, of va, folded ij(5)]
  have small: "unat (page_offset va) < 4096" by (simp add: unat_indices)
  let ?q = "1024 * (i - f) + j"
  have q: "unat (va - begin) div 4096 = ?q" if "i = f \<or> i = f + 1"
    by (rule div_nat_eqI) (use off(2) that ij(6) small in auto)
  have inside: "unat (va - begin) < 0x14000 \<longleftrightarrow> ?q < 20" if "i = f \<or> i = f + 1"
    using off(2) [OF that] ij(6) small by auto
  note e7 = entry7_fields [OF area(2)] entry7_fields [OF area(3)]
  have first: "i = f \<Longrightarrow> pageDirectoryEntries pd ! i = (area + 0x2000) OR 7"
    and second: "i = f + 1 \<Longrightarrow> pageDirectoryEntries pd ! i = (area + 0x3000) OR 7" using T(5) [OF ij(3)] f(2) by auto
  have task: "task_entry raw (p + ?q) (i = f \<and> ?q < 20) = (if i = f then pt1 ! j else pt2 ! j)" if "i = f \<or> i = f + 1"
    using that T(6,7) [OF ij(4)] by (auto simp: add.assoc)
  have kernel: "pageDirectoryEntries pd ! i AND 4 = 0" if "i \<noteq> f" "i \<noteq> f + 1"
    using T(5) [OF ij(3)] that entry_fields(2) [OF page_table_addr_aligned, of base i True True]
      entry_fields(2) [OF area(4), of True True] km by (simp add: flag_bits_cases kernel_memory_def)
  show ?user
  proof (cases "i = f \<or> i = f + 1")
    case True
    then show ?thesis
      using q [OF True] inside [OF True] task [OF True] off(1) first second e7 task_entry_fields [of raw "p + ?q" "i = f \<and> ?q < 20"]
      unfolding user_walk_def ij(1,2) aligned_self [OF area(1)] Let_def pde
      by (auto simp: pte space_page_def Let_def)
  qed (use kernel off(1) in \<open>simp add: user_walk_def ij(1,2) aligned_self [OF area(1)] Let_def pde\<close>)
  show "mmu_walk pm' area va = space_page raw p (unat (va - begin) div 4096) (page_offset va)" if "unat (va - begin) < 0x800000"
  proof -
    have True: "i = f \<or> i = f + 1" using off(1) that by simp
    then show ?thesis
      using q [OF True] task [OF True] first second e7 task_entry_fields [of raw "p + ?q" "i = f \<and> ?q < 20"]
      unfolding mmu_walk_def ij(1,2) aligned_self [OF area(1)] Let_def pde
      by (auto simp: pte space_page_def Let_def)
  qed
  show "mmu_walk pm' area va = Some va" if "structures_at pm' base ps'" "kernel_map base ps'" "0x800000 \<le> unat (va - begin)" "unat va < 0xFFC00000"
  proof -
    have km': "kernel_memory pm' base ps'" using that km by (simp add: kernel_memory_def)
    have "i < 1023" using that(4) by (simp add: ij(5) unat_indices less_mult_imp_div_less)
    then have "pageDirectoryEntries pd ! i = page_table_addr base i OR 3" using T(5) [OF ij(3)] off(1) that(3) by auto
    moreover note decode_PTE_fields [OF kernel_memory_entries(1) [OF km' \<open>i < 1023\<close>]] entry3_fields [OF page_table_addr_aligned, of base i]
    ultimately have "mmu_walk pm' area va = mmu_walk pm' base va"
      unfolding mmu_walk_def ij(1,2) aligned_self [OF area(1)] kernel_memory_words(1) [OF km'] Let_def pde
      using km by (simp add: kernel_memory_def)
    also have "\<dots> = Some va" by (rule kernel_walk [OF km']) (use that(4) in simp)
    finally show ?thesis .
  qed
qed

end
