(* ===== verification/Cpp_Lib.thy ===== *)
theory Cpp_Lib
  imports Prelude "HOL-Library.Signed_Division"
begin

text \<open>
  \<open>cpp_lib/mem.cpp\<close> and \<open>cpp_lib/string.cpp\<close>: copying, clearing and comparing memory four bytes at a
  time, and numbers as strings. \<open>copyDwords\<close> and \<open>clearDwords\<close> stand for the assembly routines
  \<open>memoryCopyDwords\<close> and \<open>clearDwords\<close>. A C string is the list of its characters without the
  terminating zero byte.
\<close>

subsection \<open>Memory\<close>

text \<open>The first loop of the three functions: single bytes up to an address that is a multiple of four.\<close>

fun copy_head :: "memory \<Rightarrow> u32 \<Rightarrow> u32 \<Rightarrow> nat \<Rightarrow> memory \<times> u32 \<times> u32 \<times> nat" where
  "copy_head m from to 0 = (m, from, to, 0)"
| "copy_head m from to (Suc n) =
     (if unat from mod 4 \<noteq> 0 then copy_head (m(to := m from)) (from + 1) (to + 1) n else (m, from, to, Suc n))"

primrec copyDwords :: "nat \<Rightarrow> memory \<Rightarrow> u32 \<Rightarrow> u32 \<Rightarrow> memory" where
  "copyDwords 0 m from to = m"
| "copyDwords (Suc n) m from to = copyDwords n (store_bytes m to (load_bytes m from 4)) (from + 4) (to + 4)"

definition memCopy :: "memory \<Rightarrow> u32 \<Rightarrow> u32 \<Rightarrow> nat \<Rightarrow> memory" where
  "memCopy m from to numBytes =
     (if numBytes = 0 then m
      else
        let (m, from, to, numBytes) = copy_head m from to numBytes;
            numDwords = numBytes div 4;
            m = copyDwords numDwords m from to
        in fold (\<lambda>i m. m(to + of_nat i := m (from + of_nat i))) [numDwords * 4..<numBytes] m)"

fun clear_head :: "memory \<Rightarrow> u32 \<Rightarrow> nat \<Rightarrow> memory \<times> u32 \<times> nat" where
  "clear_head m addr 0 = (m, addr, 0)"
| "clear_head m addr (Suc n) = (if unat addr mod 4 \<noteq> 0 then clear_head (m(addr := 0)) (addr + 1) n else (m, addr, Suc n))"

primrec clearDwords :: "nat \<Rightarrow> memory \<Rightarrow> u32 \<Rightarrow> memory" where
  "clearDwords 0 m addr = m"
| "clearDwords (Suc n) m addr = clearDwords n (store_bytes m addr [0, 0, 0, 0]) (addr + 4)"

definition memClear :: "memory \<Rightarrow> u32 \<Rightarrow> nat \<Rightarrow> memory" where
  "memClear m addr numBytes =
     (if numBytes = 0 then m
      else
        let (m, addr, numBytes) = clear_head m addr numBytes;
            numDwords = numBytes div 4;
            m = clearDwords numDwords m addr
        in fold (\<lambda>i m. m(addr + of_nat i := 0)) [numDwords * 4..<numBytes] m)"

text \<open>\<open>Inl\<close> is a \<open>return\<close> from within the loop; a difference of two bytes is an \<open>int\<close>, of two words the bits of one.\<close>

fun compare_head :: "memory \<Rightarrow> u32 \<Rightarrow> u32 \<Rightarrow> nat \<Rightarrow> int + (u32 \<times> u32 \<times> nat)" where
  "compare_head m a b 0 = Inr (a, b, 0)"
| "compare_head m a b (Suc n) =
     (if unat a mod 4 \<noteq> 0 then
        if m a \<noteq> m b then Inl (uint (m a) - uint (m b)) else compare_head m (a + 1) (b + 1) n
      else Inr (a, b, Suc n))"

definition load_dword :: "memory \<Rightarrow> u32 \<Rightarrow> u32" where
  "load_dword m a = u32_be (m (a + 3)) (m (a + 2)) (m (a + 1)) (m a)"

primrec compareDwords :: "nat \<Rightarrow> memory \<Rightarrow> u32 \<Rightarrow> u32 \<Rightarrow> int option" where
  "compareDwords 0 m a b = None"
| "compareDwords (Suc n) m a b =
     (if load_dword m a \<noteq> load_dword m b then Some (sint (load_dword m a - load_dword m b))
      else compareDwords n m (a + 4) (b + 4))"

definition compare_tail :: "memory \<Rightarrow> u32 \<Rightarrow> u32 \<Rightarrow> nat list \<Rightarrow> int" where
  "compare_tail m a b is =
     (case find (\<lambda>i. m (a + of_nat i) \<noteq> m (b + of_nat i)) is of
        None \<Rightarrow> 0 | Some i \<Rightarrow> uint (m (a + of_nat i)) - uint (m (b + of_nat i)))"

definition memCompare :: "memory \<Rightarrow> u32 \<Rightarrow> u32 \<Rightarrow> nat \<Rightarrow> int" where
  "memCompare m addr1 addr2 numBytes =
     (if numBytes = 0 then 0
      else case compare_head m addr1 addr2 numBytes of
        Inl r \<Rightarrow> r
      | Inr (addr1, addr2, numBytes) \<Rightarrow>
          (case compareDwords (numBytes div 4) m addr1 addr2 of
             Some r \<Rightarrow> r
           | None \<Rightarrow> compare_tail m addr1 addr2 [numBytes div 4 * 4..<numBytes]))"

subsection \<open>Strings\<close>

text \<open>\<open>reverse\<close> swaps characters from both ends.\<close>

function reverse_loop :: "nat \<Rightarrow> int \<Rightarrow> 'a list \<Rightarrow> 'a list" where
  "reverse_loop i j s =
     (if int i < j then reverse_loop (i + 1) (j - 1) (s[i := s ! nat j, nat j := s ! i]) else s)"
  by pat_completeness auto
termination by (relation "measure (\<lambda>(i, j, _). nat (j - int i))") auto

declare reverse_loop.simps [simp del]

definition reverse :: "'a list \<Rightarrow> 'a list" where
  "reverse s = reverse_loop 0 (int (length s) - 1) s"

text \<open>The digits of a number, least significant first; \<open>char_of\<close> adds to the code of the character \<open>0\<close>. The \<open>int\<close>
  division of C truncates towards zero.\<close>

function decimal_loop :: "int \<Rightarrow> string" where
  "decimal_loop n = char_of (n smod 10 + 48) # (if n sdiv 10 > 0 then decimal_loop (n sdiv 10) else [])"
  by pat_completeness auto
termination
proof (relation "measure nat")
  fix n :: int
  assume "0 < n sdiv 10"
  then have "0 < n" by (cases "0 < n") (auto simp: signed_divide_int_def zero_less_mult_iff sgn_if split: if_splits)
  then show "(n sdiv 10, n) \<in> measure nat" by (simp add: signed_divide_int_def)
qed simp

declare decimal_loop.simps [simp del]

text \<open>The negation of the smallest \<open>int\<close> is that number again.\<close>

definition negate_int :: "int \<Rightarrow> int" where
  "negate_int n = (if n = - 2147483648 then n else - n)"

definition intToDecimalString :: "int \<Rightarrow> string" where
  "intToDecimalString n =
     (let sign = n;
          n = (if sign < 0 then negate_int n else n);
          str = decimal_loop n;
          str = (if sign < 0 then str @ ''-'' else str)
      in reverse str)"

fun unsigned_loop :: "nat \<Rightarrow> string" where
  "unsigned_loop n = char_of (n mod 10 + 48) # (if n div 10 > 0 then unsigned_loop (n div 10) else [])"

declare unsigned_loop.simps [simp del]

definition unsignedIntToDecimalString :: "u32 \<Rightarrow> string" where
  "unsignedIntToDecimalString n = reverse (unsigned_loop (unat n))"

fun hexadecimal_loop :: "nat \<Rightarrow> string" where
  "hexadecimal_loop n =
     (if n mod 16 \<ge> 10 then char_of (n mod 16 - 10 + 65) else char_of (n mod 16 + 48)) #
     (if n div 16 > 0 then hexadecimal_loop (n div 16) else [])"

declare hexadecimal_loop.simps [simp del]

definition intToHexadecimalString :: "u32 \<Rightarrow> string" where
  "intToHexadecimalString n = reverse (hexadecimal_loop (unat n))"

subsection \<open>Memory functions against their specification\<close>

definition block_copy :: "memory \<Rightarrow> u32 \<Rightarrow> u32 \<Rightarrow> nat \<Rightarrow> memory" where
  "block_copy m from to n = store_bytes m to (load_bytes m from n)"

lemma apart_prefix: "apart a n b k \<Longrightarrow> n' \<le> n \<Longrightarrow> k' \<le> k \<Longrightarrow> apart a n' b k'"
  by (simp add: apart_def)

lemma apart_shift:
  assumes "apart a (k + n) b (k + n)"
  shows "apart (a + of_nat k) n (b + of_nat k) n"
proof -
  have "a + of_nat k + of_nat i \<noteq> b + of_nat k + of_nat j" if "i < n" "j < n" for i j
  proof -
    have "a + of_nat (k + i) \<noteq> b + of_nat (k + j)" using assms that unfolding apart_def by (metis nat_add_left_cancel_less)
    then show ?thesis by (simp add: add.assoc)
  qed
  then show ?thesis by (simp add: apart_def)
qed

lemma block_copy_0 [simp]: "block_copy m from to 0 = m"
  by (simp add: block_copy_def load_bytes_def)

lemma load_bytes_append: "load_bytes m a (n + k) = load_bytes m a n @ load_bytes m (a + of_nat n) k"
  using load_split [of n "n + k" m a] by (metis add_diff_cancel_left' append_take_drop_id le_add1)

lemma block_copy_add:
  assumes "apart from (a + b) to (a + b)" "a + b \<le> 4294967296"
  shows "block_copy (block_copy m from to a) (from + of_nat a) (to + of_nat a) b = block_copy m from to (a + b)"
proof -
  have "load_bytes (store_bytes m to (load_bytes m from a)) (from + of_nat a) b = load_bytes m (from + of_nat a) b"
    using load_apart [OF assms(1), of "load_bytes m from a" a b] assms(2) by simp
  then show ?thesis
    using store_bytes_append [of "load_bytes m from a" "load_bytes m (from + of_nat a) b" m to] assms(2)
    by (simp add: block_copy_def load_bytes_append)
qed

lemma block_copy_1: "m(to := m from) = block_copy m from to 1"
proof
  fix x
  have "unat (x - to) < 1 \<longleftrightarrow> x = to" by (simp add: unat_eq_zero)
  then show "(m(to := m from)) x = block_copy m from to 1 x"
    by (simp add: block_copy_def store_bytes_def load_bytes_def Let_def del: less_one)
qed

lemma copy_head_spec:
  assumes "apart from n to n" "n \<le> 4294967296"
  shows "\<exists>k \<le> n. copy_head m from to n = (block_copy m from to k, from + of_nat k, to + of_nat k, n - k)"
  using assms
proof (induction m "from" to n rule: copy_head.induct)
  case (2 m "from" to n)
  show ?case
  proof (cases "unat from mod 4 \<noteq> 0")
    case True
    have "apart (from + 1) n (to + 1) n" using apart_shift [of "from" 1 n to] 2(2) by simp
    moreover have "n \<le> 4294967296" using 2(3) by simp
    ultimately obtain k where k: "k \<le> n"
      "copy_head (m(to := m from)) (from + 1) (to + 1) n =
         (block_copy (m(to := m from)) (from + 1) (to + 1) k, from + 1 + of_nat k, to + 1 + of_nat k, n - k)"
      using 2(1) [OF True] by blast
    have "block_copy (m(to := m from)) (from + 1) (to + 1) k = block_copy m from to (Suc k)"
      using block_copy_add [of "from" 1 k to m] apart_prefix [OF 2(2), of "Suc k" "Suc k"] k(1) 2(3) by (simp add: block_copy_1)
    then show ?thesis using True k by (intro exI [of _ "Suc k"]) (simp add: algebra_simps)
  qed (auto intro: exI [of _ 0])
qed simp

lemma copyDwords_spec:
  "apart from (4 * d) to (4 * d) \<Longrightarrow> 4 * d \<le> 4294967296 \<Longrightarrow> copyDwords d m from to = block_copy m from to (4 * d)"
proof (induction d arbitrary: m "from" to)
  case (Suc d)
  have "apart (from + of_nat 4) (4 * d) (to + of_nat 4) (4 * d)" using Suc.prems(1) by (intro apart_shift) simp
  then have ap: "apart (from + 4) (4 * d) (to + 4) (4 * d)" by simp
  have "copyDwords (Suc d) m from to = block_copy (block_copy m from to 4) (from + 4) (to + 4) (4 * d)"
    using Suc.IH [OF ap] Suc.prems(2) by (simp add: block_copy_def)
  also have "\<dots> = block_copy m from to (4 + 4 * d)"
    using block_copy_add [of "from" 4 "4 * d" to m] Suc.prems by simp
  finally show ?case by simp
qed simp

lemma copy_tail_spec:
  assumes "apart from n to n" "n \<le> 4294967296" "i \<le> n"
  shows "fold (\<lambda>i m. m(to + of_nat i := m (from + of_nat i))) [i..<n] (block_copy m from to i) = block_copy m from to n"
  using assms(3)
proof (induction "n - i" arbitrary: i)
  case (Suc k)
  then have i: "i < n" by simp
  have "(block_copy m from to i)(to + of_nat i := block_copy m from to i (from + of_nat i)) = block_copy m from to (Suc i)"
    using block_copy_add [of "from" i 1 to m] apart_prefix [OF assms(1), of "Suc i" "Suc i"] i assms(2)
    by (simp add: block_copy_1)
  then show ?case using Suc(1) [of "Suc i"] Suc(2) i by (simp add: upt_conv_Cons)
qed simp

lemma memCopy_spec:
  assumes "apart from n to n" "n \<le> 4294967296"
  shows "memCopy m from to n = store_bytes m to (load_bytes m from n)"
proof (cases "n = 0")
  case True
  then show ?thesis by (simp add: memCopy_def load_bytes_def)
next
  case False
  obtain k where k: "k \<le> n" "copy_head m from to n = (block_copy m from to k, from + of_nat k, to + of_nat k, n - k)"
    using copy_head_spec [OF assms] by blast
  define r where "r = n - k"
  have n: "n = k + r" using k(1) by (simp add: r_def)
  let ?m = "block_copy m from to k" and ?f = "from + of_nat k" and ?t = "to + of_nat k"
  have ap: "apart ?f r ?t r" using assms(1) unfolding n by (rule apart_shift)
  have "copyDwords (r div 4) ?m ?f ?t = block_copy ?m ?f ?t (r div 4 * 4)"
    using copyDwords_spec [OF apart_prefix [OF ap], of "r div 4"] n assms(2) by (simp add: mult.commute)
  moreover have "r div 4 * 4 \<le> r" by simp
  ultimately have "memCopy m from to n = block_copy ?m ?f ?t r"
    using False copy_tail_spec [OF ap, of "r div 4 * 4" ?m] k(2) n assms(2) by (simp add: memCopy_def Let_def r_def [symmetric])
  then show ?thesis using block_copy_add [of "from" k r to m] assms n by (simp add: block_copy_def)
qed

text \<open>Clearing.\<close>

lemma store_replicate_add:
  "a + b \<le> 4294967296 \<Longrightarrow>
    store_bytes (store_bytes m to (replicate a 0)) (to + of_nat a) (replicate b 0) = store_bytes m to (replicate (a + b) 0)"
  using store_bytes_append [of "replicate a 0" "replicate b 0" m to] by (simp add: replicate_add)

lemma store_one: "m(to := v) = store_bytes m to [v]"
proof
  fix x
  have "unat (x - to) < 1 \<longleftrightarrow> x = to" by (simp add: unat_eq_zero)
  then show "(m(to := v)) x = store_bytes m to [v] x" by (simp add: store_bytes_def Let_def del: less_one)
qed

lemma clear_head_spec:
  assumes "n \<le> 4294967296"
  shows "\<exists>k \<le> n. clear_head m to n = (store_bytes m to (replicate k 0), to + of_nat k, n - k)"
  using assms
proof (induction m to n rule: clear_head.induct)
  case (2 m to n)
  show ?case
  proof (cases "unat to mod 4 \<noteq> 0")
    case True
    have "n \<le> 4294967296" using 2(2) by simp
    with 2(1) [OF True] obtain k where k: "k \<le> n"
      "clear_head (m(to := 0)) (to + 1) n = (store_bytes (m(to := 0)) (to + 1) (replicate k 0), to + 1 + of_nat k, n - k)" by blast
    have "store_bytes (m(to := 0)) (to + 1) (replicate k 0) = store_bytes m to (replicate (Suc k) 0)"
      using store_replicate_add [of 1 k m to] k(1) 2(2) by (simp add: store_one)
    then show ?thesis using True k by (intro exI [of _ "Suc k"]) (simp add: algebra_simps)
  qed (auto intro: exI [of _ 0])
qed simp

lemma clearDwords_spec: "4 * d \<le> 4294967296 \<Longrightarrow> clearDwords d m to = store_bytes m to (replicate (4 * d) 0)"
proof (induction d arbitrary: m to)
  case (Suc d)
  have four: "[0, 0, 0, 0] = replicate 4 (0 :: u8)" by (simp add: eval_nat_numeral)
  have "clearDwords (Suc d) m to = store_bytes (store_bytes m to (replicate 4 0)) (to + 4) (replicate (4 * d) 0)"
    using Suc.IH Suc.prems by (simp add: four del: replicate_Suc)
  also have "\<dots> = store_bytes m to (replicate (4 + 4 * d) 0)"
    using store_replicate_add [of 4 "4 * d" m to] Suc.prems by simp
  finally show ?case by simp
qed simp

lemma clear_tail_spec:
  assumes "n \<le> 4294967296" "i \<le> n"
  shows "fold (\<lambda>i m. m(to + of_nat i := 0)) [i..<n] (store_bytes m to (replicate i 0)) = store_bytes m to (replicate n 0)"
  using assms(2)
proof (induction "n - i" arbitrary: i)
  case (Suc k)
  then have i: "i < n" by simp
  have "(store_bytes m to (replicate i 0))(to + of_nat i := 0) = store_bytes m to (replicate (Suc i) 0)"
    using store_replicate_add [of i 1 m to] i assms(1) unfolding store_one
    by (simp add: replicate_Suc [of 0] del: replicate_Suc)
  then show ?case using Suc(1) [of "Suc i"] Suc(2) i by (simp add: upt_conv_Cons)
qed simp

lemma memClear_spec:
  assumes "n \<le> 4294967296"
  shows "memClear m to n = store_bytes m to (replicate n 0)"
proof (cases "n = 0")
  case False
  obtain k where k: "k \<le> n" "clear_head m to n = (store_bytes m to (replicate k 0), to + of_nat k, n - k)"
    using clear_head_spec [OF assms] by blast
  define r where "r = n - k"
  let ?m = "store_bytes m to (replicate k 0)" and ?t = "to + of_nat k"
  have n: "n = k + r" using k(1) by (simp add: r_def)
  have "clearDwords (r div 4) ?m ?t = store_bytes ?m ?t (replicate (r div 4 * 4) 0)"
    using clearDwords_spec [of "r div 4"] n assms by (simp add: mult.commute)
  then have "memClear m to n = store_bytes ?m ?t (replicate r 0)"
    using False clear_tail_spec [of r "r div 4 * 4" ?t ?m] k(2) n assms by (simp add: memClear_def Let_def r_def [symmetric])
  then show ?thesis using store_replicate_add [of k r m to] assms n by simp
qed (simp add: memClear_def)

text \<open>Comparing.\<close>

definition same_bytes :: "memory \<Rightarrow> u32 \<Rightarrow> u32 \<Rightarrow> nat \<Rightarrow> bool" where
  "same_bytes m a b n \<longleftrightarrow> load_bytes m a n = load_bytes m b n"

lemma same_bytes_add: "same_bytes m a b (n + k) \<longleftrightarrow> same_bytes m a b n \<and> same_bytes m (a + of_nat n) (b + of_nat n) k"
  by (simp add: same_bytes_def load_bytes_append)

lemma same_bytes_1: "same_bytes m a b 1 \<longleftrightarrow> m a = m b"
  by (simp add: same_bytes_def load_bytes_def)

lemma same_bytes_0 [simp]: "same_bytes m a b 0"
  by (simp add: same_bytes_def load_bytes_def)

lemma compare_head_spec:
  "case compare_head m a b n of
     Inl r \<Rightarrow> r \<noteq> 0 \<and> \<not> same_bytes m a b n
   | Inr (a', b', n') \<Rightarrow> \<exists>k \<le> n. a' = a + of_nat k \<and> b' = b + of_nat k \<and> n' = n - k \<and> same_bytes m a b k"
proof (induction m a b n rule: compare_head.induct)
  case (2 m a b n)
  have suc: "same_bytes m a b (Suc k) \<longleftrightarrow> m a = m b \<and> same_bytes m (a + 1) (b + 1) k" for k
    using same_bytes_add [of m a b 1 k] same_bytes_1 by simp
  show ?case
  proof (cases "unat a mod 4 \<noteq> 0 \<and> m a = m b")
    case True
    with 2 show ?thesis
      by (auto simp: suc algebra_simps split: sum.splits intro: exI [of _ "Suc _"])
  next
    case False
    then show ?thesis by (auto simp: suc intro: exI [of _ 0] dest: unsigned_word_eqI)
  qed
qed auto

lemma load_dword_inject: "load_dword m a = load_dword m b \<longleftrightarrow> same_bytes m a b 4"
proof -
  have four: "same_bytes m a b 4 \<longleftrightarrow> m a = m b \<and> m (a + 1) = m (b + 1) \<and> m (a + 2) = m (b + 2) \<and> m (a + 3) = m (b + 3)"
    by (simp add: same_bytes_def load_bytes_def eval_nat_numeral)
  have horner: "unat (load_dword m x) = ((unat (m (x + 3)) * 256 + unat (m (x + 2))) * 256 + unat (m (x + 1))) * 256 + unat (m x)" for x
    by (simp add: load_dword_def unat_u32_be algebra_simps)
  have digit: "a * 256 + x = b * 256 + y \<longleftrightarrow> a = b \<and> x = y" if "x < 256" "y < 256" for a b x y :: nat
  proof
    assume eq: "a * 256 + x = b * 256 + y"
    then have "(a * 256 + x) div 256 = (b * 256 + y) div 256" "(a * 256 + x) mod 256 = (b * 256 + y) mod 256" by simp_all
    then show "a = b \<and> x = y" using that by simp
  qed simp
  have "load_dword m a = load_dword m b \<longleftrightarrow> unat (load_dword m a) = unat (load_dword m b)" by (simp add: word_unat_eq_iff)
  then show ?thesis unfolding four horner digit [OF unat_u8_lt unat_u8_lt] by (auto simp: word_unat_eq_iff)
qed

lemma compareDwords_spec:
  "case compareDwords d m a b of None \<Rightarrow> same_bytes m a b (4 * d) | Some r \<Rightarrow> r \<noteq> 0 \<and> \<not> same_bytes m a b (4 * d)"
proof (induction d arbitrary: a b)
  case (Suc d)
  have suc: "same_bytes m a b (4 * Suc d) \<longleftrightarrow> same_bytes m a b 4 \<and> same_bytes m (a + 4) (b + 4) (4 * d)"
    using same_bytes_add [of m a b 4 "4 * d"] by simp
  have "sint (load_dword m a - load_dword m b) \<noteq> 0" if "load_dword m a \<noteq> load_dword m b" using that
    by (metis right_minus_eq signed_0 signed_word_eqI)
  with Suc [of "a + 4" "b + 4"] suc load_dword_inject [of m a b] show ?case by (auto split: option.splits)
qed simp

lemma compare_tail_spec: "compare_tail m a b is = 0 \<longleftrightarrow> (\<forall>i \<in> set is. m (a + of_nat i) = m (b + of_nat i))"
  by (auto simp: compare_tail_def find_None_iff find_Some_iff split: option.splits dest: unsigned_word_eqI)

lemma all_less_split: "q \<le> r \<Longrightarrow> (\<forall>i < r. P i) \<longleftrightarrow> (\<forall>i < q. P i) \<and> (\<forall>i \<in> set [q..<r]. P i)" for q r :: nat
  by (auto simp: not_less)

lemma memCompare_spec: "memCompare m a b n = 0 \<longleftrightarrow> load_bytes m a n = load_bytes m b n"
proof (cases "n = 0")
  case False
  show ?thesis
  proof (cases "compare_head m a b n")
    case (Inl r)
    then show ?thesis using compare_head_spec [of m a b n] False by (simp add: memCompare_def same_bytes_def)
  next
    case (Inr t)
    then obtain k where k: "k \<le> n" "t = (a + of_nat k, b + of_nat k, n - k)" "same_bytes m a b k"
      using compare_head_spec [of m a b n] by (cases t) auto
    define r where "r = n - k"
    let ?a = "a + of_nat k" and ?b = "b + of_nat k"
    have n: "same_bytes m a b n \<longleftrightarrow> same_bytes m ?a ?b r"
      using same_bytes_add [of m a b k r] k(1,3) by (simp add: r_def)
    have r: "same_bytes m ?a ?b r \<longleftrightarrow> same_bytes m ?a ?b (4 * (r div 4)) \<and> (\<forall>i \<in> set [r div 4 * 4..<r]. m (?a + of_nat i) = m (?b + of_nat i))"
      using all_less_split [of "4 * (r div 4)" r] by (simp add: same_bytes_def list_eq_iff_nth_eq mult.commute)
    show ?thesis
      using compareDwords_spec [of m ?a ?b "r div 4"] Inr k(2) False n r compare_tail_spec [of m ?a ?b "[r div 4 * 4..<r]"]
      by (simp add: memCompare_def same_bytes_def [symmetric] r_def [symmetric] split: option.splits)
  qed
qed (simp add: memCompare_def load_bytes_def)

text \<open>C39. The memory functions, which work on four bytes at a time from the first address that is a multiple of
  four on, do what their simple counterparts do byte by byte: for regions that do not overlap \<open>memCopy\<close>
  stores the bytes of the source, \<open>memClear\<close> stores zeros, and \<open>memCompare\<close> returns 0 exactly for
  equal contents.\<close>

theorem mem_functions_correct:
  assumes "apart from n to n" "n \<le> 4294967296"
  shows "memCopy m from to n = store_bytes m to (load_bytes m from n) \<and> memClear m to n = store_bytes m to (replicate n 0) \<and>
    (memCompare m from to n = 0 \<longleftrightarrow> load_bytes m from n = load_bytes m to n)"
  using memCopy_spec [OF assms] memClear_spec [OF assms(2)] memCompare_spec by simp

lemma mem_functions_correct_witness:
  "memCopy (\<lambda>_. 7) 4097 8192 100 = store_bytes (\<lambda>_. 7) 8192 (load_bytes (\<lambda>_. 7) 4097 100)"
  using mem_functions_correct [of 4097 100 8192 "\<lambda>_. 7"] apart_intervals [of 4097 100 8192 100] by simp

subsection \<open>Numbers as strings\<close>

lemma reverse_loop_spec:
  "length a = i \<Longrightarrow> length b = i \<Longrightarrow> j = int (length (a @ mid @ b)) - 1 - int i \<Longrightarrow>
    reverse_loop i j (a @ mid @ b) = a @ rev mid @ b"
proof (induction "length mid" arbitrary: i j a b mid rule: less_induct)
  case less
  show ?case
  proof (cases "length mid \<le> 1")
    case True
    then have "rev mid = mid" by (cases mid rule: rev_cases) auto
    moreover have "\<not> int i < j" using less.prems True by simp
    ultimately show ?thesis by (simp add: reverse_loop.simps)
  next
    case False
    then obtain x mid' y where mid: "mid = x # mid' @ [y]"
      by (cases mid; cases "tl mid" rule: rev_cases) auto
    define s where "s = a @ mid @ b"
    have j: "int i < j" "nat j = i + 1 + length mid'" using less.prems by (simp_all add: mid)
    have "s[i := s ! nat j, nat j := s ! i] = (a @ [y]) @ mid' @ ([x] @ b)"
      using less.prems(1) by (simp add: s_def mid j(2) nth_append list_update_append)
    then have "reverse_loop i j s = reverse_loop (i + 1) (j - 1) ((a @ [y]) @ mid' @ ([x] @ b))"
      using j(1) by (subst reverse_loop.simps) simp
    also have "\<dots> = (a @ [y]) @ rev mid' @ ([x] @ b)"
      by (rule less.hyps) (use less.prems in \<open>simp_all add: mid\<close>)
    finally show ?thesis by (simp add: s_def mid)
  qed
qed

lemma reverse_rev: "reverse s = rev s"
  using reverse_loop_spec [of "[]" 0 "[]" "int (length s) - 1" s] by (simp add: reverse_def)

text \<open>Reading a number back: the value of decimal digits, with a sign.\<close>

definition decimal_value :: "string \<Rightarrow> int" where
  "decimal_value s = fold (\<lambda>c v. 10 * v + (of_char c - 48)) s 0"

definition read_int :: "string \<Rightarrow> int" where
  "read_int s = (case s of c # cs \<Rightarrow> if c = CHR ''-'' then - decimal_value cs else decimal_value s | [] \<Rightarrow> 0)"

definition hexadecimal_value :: "string \<Rightarrow> nat" where
  "hexadecimal_value s = fold (\<lambda>c v. 16 * v + (if of_char c < (58 :: nat) then of_char c - 48 else of_char c - 55)) s 0"

lemma decimal_value_snoc: "decimal_value (s @ [c]) = 10 * decimal_value s + (of_char c - 48)"
  by (simp add: decimal_value_def)

lemma decimal_loop_value: "0 \<le> n \<Longrightarrow> decimal_value (rev (decimal_loop n)) = n \<and> CHR ''-'' \<notin> set (decimal_loop n)"
proof (induction n rule: decimal_loop.induct)
  case (1 n)
  have pos: "n sdiv 10 = n div 10" "n smod 10 = n mod 10" using 1(2) by (simp_all add: signed_divide_int_def signed_modulo_int_def sgn_if)
  have code: "of_char (char_of (n mod 10 + 48) :: char) = n mod 10 + 48" by (simp add: of_char_of)
  have sign: "char_of (n mod 10 + 48) \<noteq> CHR ''-''"
  proof
    assume "char_of (n mod 10 + 48) = CHR ''-''"
    then have "n mod 10 + 48 = of_char (CHR ''-'')" using code by simp
    then show False using pos_mod_sign [of 10 n] by simp
  qed
  show ?case
  proof (cases "n div 10 > 0")
    case True
    then show ?thesis using 1(1) pos code sign by (subst (1 2) decimal_loop.simps) (simp add: decimal_value_snoc)
  next
    case False
    then have "n div 10 = 0" using 1(2) by (simp add: pos_imp_zdiv_nonneg_iff)
    then have "n mod 10 = n" by simp
    then show ?thesis using False pos code sign by (subst (1 2) decimal_loop.simps) (simp add: decimal_value_def)
  qed
qed

lemma unsigned_loop_decimal: "unsigned_loop n = decimal_loop (int n)"
proof (induction n rule: unsigned_loop.induct)
  case (1 n)
  have "char_of (n mod 10 + 48) = (char_of (int n mod 10 + 48) :: char)"
    by (metis char_of_nat of_nat_add of_nat_mod of_nat_numeral)
  moreover have "int n sdiv 10 = int (n div 10)" "int n smod 10 = int n mod 10"
    by (cases "n = 0"; simp add: signed_divide_int_def signed_modulo_int_def zdiv_int)+
  ultimately show ?case using 1 by (subst unsigned_loop.simps, subst decimal_loop.simps) simp
qed

lemma hexadecimal_loop_value: "hexadecimal_value (rev (hexadecimal_loop n)) = n"
proof (induction n rule: hexadecimal_loop.induct)
  case (1 n)
  let ?c = "if n mod 16 \<ge> 10 then char_of (n mod 16 - 10 + 65) else char_of (n mod 16 + 48) :: char"
  have less: "n mod 16 < 16" by simp
  then have code: "(if of_char ?c < (58 :: nat) then of_char ?c - 48 else of_char ?c - 55) = n mod 16"
    by (simp add: of_char_of)
  have snoc: "hexadecimal_value (s @ [?c]) = 16 * hexadecimal_value s + n mod 16" for s
    using code by (simp add: hexadecimal_value_def del: of_char_of)
  have nil: "hexadecimal_value [] = 0" by (simp add: hexadecimal_value_def)
  have "hexadecimal_value (rev (hexadecimal_loop n)) =
      16 * hexadecimal_value (if n div 16 > 0 then rev (hexadecimal_loop (n div 16)) else []) + n mod 16"
    unfolding hexadecimal_loop.simps [of n] using snoc by simp
  then show ?case using 1 nil by simp
qed

text \<open>Numbers read back from the strings that are printed for them: signed decimal numbers except the
  smallest, unsigned decimal numbers and hexadecimal numbers.\<close>

theorem number_strings_roundtrip:
  assumes "- 2147483648 < n" "n < 2147483648"
  shows "read_int (intToDecimalString n) = n \<and> read_int (unsignedIntToDecimalString u) = uint u \<and>
    hexadecimal_value (intToHexadecimalString u) = unat u"
proof -
  have nonneg: "read_int (rev (decimal_loop k)) = k" if "0 \<le> k" for k
    using decimal_loop_value [OF that] by (auto simp: read_int_def decimal_value_def split: list.splits)
  have "read_int (intToDecimalString n) = n"
  proof (cases "n < 0")
    case True
    then have "intToDecimalString n = CHR ''-'' # rev (decimal_loop (- n))"
      using assms(1) by (simp add: intToDecimalString_def reverse_rev negate_int_def)
    then show ?thesis using decimal_loop_value [of "- n"] True by (simp add: read_int_def)
  next
    case False
    then show ?thesis using nonneg by (simp add: intToDecimalString_def reverse_rev)
  qed
  moreover have "read_int (unsignedIntToDecimalString u) = uint u"
    using nonneg [of "int (unat u)"] by (simp add: unsignedIntToDecimalString_def reverse_rev unsigned_loop_decimal)
  ultimately show ?thesis by (simp add: intToHexadecimalString_def reverse_rev hexadecimal_loop_value)
qed

lemma number_strings_roundtrip_witness:
  "read_int (intToDecimalString (- 305)) = - 305 \<and> hexadecimal_value (intToHexadecimalString 0xBEEF) = 0xBEEF"
  using number_strings_roundtrip [of "- 305" "0xBEEF"] by simp

text \<open>The smallest \<open>int\<close> is its own negation, so that its last digit is taken from a negative remainder and
  it is printed as \<open>-(\<close>.\<close>

theorem smallest_int_string: "intToDecimalString (- 2147483648) = ''-(''"
  by (simp add: intToDecimalString_def negate_int_def decimal_loop.simps reverse_rev signed_divide_int_def
      signed_modulo_int_def char_of_def)

end
