(* ===== verification/Interrupts.thy ===== *)
theory Interrupts
  imports Cpp_Lib
begin

text \<open>
  \<open>cpu_core/interrupt_handler_manager.cpp\<close> with the assembly routines it calls, and \<open>tss.cpp\<close>: the
  interrupt descriptor table, the table of handlers the interrupt stubs call through, the segment
  descriptors of both, and the stack a new task resumes from.

  \<open>stub n\<close> is the address of the assembly stub of interrupt \<open>n\<close> (\<open>exc0\<close> to \<open>exc31\<close>, \<open>irq0\<close> to \<open>irq15\<close>, \<open>custom0\<close>
  to \<open>custom7\<close> and \<open>custom32\<close>). A handler is a value of any type: the theory of its users says which.
\<close>

abbreviation (input) IDT_ENTRIES :: nat where "IDT_ENTRIES \<equiv> 256"
abbreviation (input) CUSTOM7 :: nat where "CUSTOM7 \<equiv> 55"
abbreviation (input) CUSTOM32 :: nat where "CUSTOM32 \<equiv> 80"

record IdtGate =
  low_offset :: u16
  sel :: u16
  always0 :: u8
  gate_flags :: u8
  high_offset :: u16

text \<open>The loop of the constructor writes 257 elements: the last one of the list is the memory behind the
  array, which belongs to the member that \<open>CpuCore\<close> constructs next.\<close>

record 'h InterruptHandlerManager =
  idt :: "IdtGate list"
  interruptHandlers :: "(u32 \<times> 'h) list"

definition setIdtGate :: "nat \<Rightarrow> u32 \<Rightarrow> bool \<Rightarrow> 'h InterruptHandlerManager \<Rightarrow> 'h InterruptHandlerManager option" where
  "setIdtGate n handler allowUserPrivilege mgr = do {
     gates \<leftarrow> arr_set (idt mgr) n
       \<lparr>low_offset = ucast (handler AND 0xFFFF), sel = 8, always0 = 0,
        gate_flags = (if allowUserPrivilege then 0xEE else 0x8E),
        high_offset = ucast (drop_bit 16 handler AND 0xFFFF)\<rparr>;
     Some (mgr\<lparr>idt := gates\<rparr>) }"

definition InterruptHandlerManager_new ::
  "(nat \<Rightarrow> u32) \<Rightarrow> 'h \<Rightarrow> 'h InterruptHandlerManager \<Rightarrow> 'h InterruptHandlerManager option" where
  "InterruptHandlerManager_new stub voidHandler raw = do {
     handlers \<leftarrow> for_each (\<lambda>i hs. arr_set hs i (0, voidHandler)) [0..<IDT_ENTRIES + 1] (interruptHandlers raw);
     let mgr = raw\<lparr>interruptHandlers := handlers\<rparr>;
     mgr \<leftarrow> for_each (\<lambda>n. setIdtGate n (stub n) False) [0..<32] mgr;
     mgr \<leftarrow> for_each (\<lambda>n. setIdtGate n (stub n) True) [32..<48] mgr;
     mgr \<leftarrow> for_each (\<lambda>n. setIdtGate n (stub n) True) [48..<56] mgr;
     setIdtGate 80 (stub 80) False mgr }"

definition setInterruptHandler :: "nat \<Rightarrow> 'h \<Rightarrow> 'h InterruptHandlerManager \<Rightarrow> 'h InterruptHandlerManager option" where
  "setInterruptHandler intType newHandler mgr =
     (if intType > CUSTOM7 \<and> intType \<noteq> CUSTOM32 then Some mgr
      else do {
        e \<leftarrow> arr_get (interruptHandlers mgr) intType;
        hs \<leftarrow> arr_set (interruptHandlers mgr) intType (fst e, newHandler);
        Some (mgr\<lparr>interruptHandlers := hs\<rparr>) })"

definition setInterruptHandlerParam :: "nat \<Rightarrow> u32 \<Rightarrow> 'h InterruptHandlerManager \<Rightarrow> 'h InterruptHandlerManager option" where
  "setInterruptHandlerParam intType handlerParam mgr =
     (if intType > CUSTOM7 \<and> intType \<noteq> CUSTOM32 then Some mgr
      else do {
        e \<leftarrow> arr_get (interruptHandlers mgr) intType;
        hs \<leftarrow> arr_set (interruptHandlers mgr) intType (handlerParam, snd e);
        Some (mgr\<lparr>interruptHandlers := hs\<rparr>) })"

subsection \<open>The first stack of a task\<close>

text \<open>The processor state the assembly routines push besides their arguments: the flags and the eight registers
  of \<open>pusha\<close> in the order they are pushed.\<close>

record cpu_state =
  eflags :: u32
  pusha_registers :: "u32 list"

definition store_dword :: "memory \<Rightarrow> u32 \<Rightarrow> u32 \<Rightarrow> memory" where
  "store_dword m a w = store_bytes m a (le32 w)"

definition push_dword :: "u32 \<Rightarrow> memory \<times> u32 \<Rightarrow> memory \<times> u32" where
  "push_dword w = (\<lambda>(m, esp). (store_dword m (esp - 4) w, esp - 4))"

definition createIntStackForUserPriv ::
  "u32 \<Rightarrow> cpu_state \<Rightarrow> memory \<Rightarrow> u32 \<Rightarrow> u32 \<Rightarrow> u32 \<Rightarrow> u32 \<Rightarrow> memory \<times> u32" where
  "createIntStackForUserPriv handlerReturn cpu m kernelStack userStack processEntry intNumber =
     fold push_dword
       ([0x23, userStack, eflags cpu, 0x1B, processEntry, 0, intNumber] @ pusha_registers cpu @
        [0x23, 0, 0, handlerReturn]) (m, kernelStack)"

definition createIntStackForKernelPriv ::
  "u32 \<Rightarrow> cpu_state \<Rightarrow> memory \<Rightarrow> u32 \<Rightarrow> u32 \<Rightarrow> u32 \<Rightarrow> memory \<times> u32" where
  "createIntStackForKernelPriv handlerReturn cpu m kernelStack processEntry intNumber =
     fold push_dword
       ([eflags cpu, 8, processEntry, 0, intNumber] @ pusha_registers cpu @ [0x10, 0, 0, handlerReturn])
       (m, kernelStack)"

definition buildIntHandlerStackForUserPriv ::
  "u32 \<Rightarrow> cpu_state \<Rightarrow> memory \<Rightarrow> nat \<Rightarrow> u32 \<Rightarrow> u32 \<Rightarrow> u32 \<Rightarrow> memory \<times> u32" where
  "buildIntHandlerStackForUserPriv handlerReturn cpu m intType kernelStack userStack processEntry =
     (if intType > CUSTOM7 \<and> intType \<noteq> CUSTOM32 then (m, 0)
      else createIntStackForUserPriv handlerReturn cpu m kernelStack userStack processEntry (of_nat intType))"

definition buildIntHandlerStackForKernelPriv ::
  "u32 \<Rightarrow> cpu_state \<Rightarrow> memory \<Rightarrow> nat \<Rightarrow> u32 \<Rightarrow> u32 \<Rightarrow> memory \<times> u32" where
  "buildIntHandlerStackForKernelPriv handlerReturn cpu m intType kernelStack processEntry =
     (if intType > CUSTOM7 \<and> intType \<noteq> CUSTOM32 then (m, 0)
      else createIntStackForKernelPriv handlerReturn cpu m kernelStack processEntry (of_nat intType))"

subsection \<open>Descriptors and devices\<close>

record GdtEntry =
  limit_low :: u16
  base_low :: u16
  base_middle :: u8
  gdt_access :: u8
  granularity :: u8
  base_high :: u8

text \<open>The same statements in \<open>InterruptHandlerManager::bind\<close> (entry 6, the handler table) and \<open>Tss::bind\<close> (entry 5).\<close>

definition set_descriptor :: "u32 \<Rightarrow> u32 \<Rightarrow> GdtEntry \<Rightarrow> GdtEntry" where
  "set_descriptor base limit e =
     e\<lparr>base_low := ucast (base AND 0xFFFF), base_middle := ucast (drop_bit 16 base AND 0xFF),
       base_high := ucast (drop_bit 24 base AND 0xFF), limit_low := ucast (limit AND 0xFFFF),
       granularity := granularity e OR ucast (drop_bit 16 limit AND 0x0F)\<rparr>"

text \<open>The bytes sent to the two interrupt controllers, in order.\<close>

definition pic_remap :: "(u16 \<times> u8) list" where
  "pic_remap = [(0x20, 0x11), (0xA0, 0x11), (0x21, 0x20), (0xA1, 0x28), (0x21, 0x04), (0xA1, 0x02),
     (0x21, 0x01), (0xA1, 0x01), (0x21, 0), (0xA1, 0)]"

definition InterruptHandlerManager_bind :: "u32 \<Rightarrow> GdtEntry list \<Rightarrow> (GdtEntry list \<times> (u16 \<times> u8) list) option" where
  "InterruptHandlerManager_bind handlersAddr gdt = do {
     e \<leftarrow> arr_get gdt 6;
     gdt \<leftarrow> arr_set gdt 6 (set_descriptor handlersAddr (8 * 256) e);
     Some (gdt, pic_remap) }"

text \<open>\<open>Tss::bind\<close> clears the whole entry before it sets \<open>ss0\<close>, the stack pointer of the constructor included.\<close>

record TssEntry =
  tss_words :: "u32 list"

definition Tss_new :: "u32 \<Rightarrow> TssEntry \<Rightarrow> TssEntry" where
  "Tss_new firstEsp0Value raw = raw\<lparr>tss_words := (tss_words raw)[1 := firstEsp0Value]\<rparr>"

definition Tss_setEsp0 :: "u32 \<Rightarrow> TssEntry \<Rightarrow> TssEntry" where
  "Tss_setEsp0 newEsp0 tss = tss\<lparr>tss_words := (tss_words tss)[1 := newEsp0]\<rparr>"

definition Tss_bind :: "u32 \<Rightarrow> u32 \<Rightarrow> GdtEntry list \<Rightarrow> TssEntry \<Rightarrow> (GdtEntry list \<times> TssEntry) option" where
  "Tss_bind tssAddr ssValue gdt tss = do {
     let tss = tss\<lparr>tss_words := map (\<lambda>_. 0) (tss_words tss)\<rparr>;
     let tss = tss\<lparr>tss_words := (tss_words tss)[2 := ssValue]\<rparr>;
     e \<leftarrow> arr_get gdt 5;
     gdt \<leftarrow> arr_set gdt 5 (set_descriptor tssAddr 104 e);
     Some (gdt, tss) }"

subsection \<open>The gates\<close>

definition gate_address :: "IdtGate \<Rightarrow> u32" where
  "gate_address g = ucast (low_offset g) OR push_bit 16 (ucast (high_offset g))"

definition user_callable :: "IdtGate \<Rightarrow> bool" where
  "user_callable g \<longleftrightarrow> gate_flags g AND 0x60 = 0x60"

definition new_gate :: "u32 \<Rightarrow> bool \<Rightarrow> IdtGate" where
  "new_gate handler allow = \<lparr>low_offset = ucast (handler AND 0xFFFF), sel = 8, always0 = 0,
     gate_flags = (if allow then 0xEE else 0x8E), high_offset = ucast (drop_bit 16 handler AND 0xFFFF)\<rparr>"

lemma gate_address_new: "gate_address (new_gate h a) = h"
proof -
  have m: "(0xFFFF :: u32) = mask 16" by (simp add: mask_eq_exp_minus_1)
  show ?thesis unfolding gate_address_def new_gate_def m
    by (auto simp: bit_eq_iff bit_simps dest: bit_imp_le_length) 
qed

lemma user_callable_new: "user_callable (new_gate h a) = a"
  by (simp add: user_callable_def new_gate_def)

lemma setIdtGates:
  assumes "b \<le> length (idt mgr)"
  shows "\<exists>mgr'. for_each (\<lambda>n. setIdtGate n (stub n) allow) [a..<b] mgr = Some mgr' \<and>
    interruptHandlers mgr' = interruptHandlers mgr \<and> length (idt mgr') = length (idt mgr) \<and>
    (\<forall>n. idt mgr' ! n = (if a \<le> n \<and> n < b then new_gate (stub n) allow else idt mgr ! n))"
  using assms
proof (induction "b - a" arbitrary: a mgr)
  case (Suc k)
  let ?mgr = "mgr\<lparr>idt := (idt mgr)[a := new_gate (stub a) allow]\<rparr>"
  have ab: "a < b" "[a..<b] = a # [Suc a..<b]" using Suc.hyps(2) by (simp_all add: upt_rec)
  have step: "setIdtGate a (stub a) allow mgr = Some ?mgr"
    using Suc.prems ab(1) by (simp add: setIdtGate_def new_gate_def)
  have "k = b - Suc a" "b \<le> length (idt ?mgr)" using Suc.hyps(2) Suc.prems by simp_all
  from Suc.hyps(1) [OF this] obtain mgr' where
    "for_each (\<lambda>n. setIdtGate n (stub n) allow) [Suc a..<b] ?mgr = Some mgr'"
    "interruptHandlers mgr' = interruptHandlers ?mgr" "length (idt mgr') = length (idt ?mgr)"
    "\<forall>n. idt mgr' ! n = (if Suc a \<le> n \<and> n < b then new_gate (stub n) allow else idt ?mgr ! n)" by blast
  with step ab Suc.prems show ?case by (auto simp: nth_list_update)
qed auto

lemma handlers_cleared:
  "k \<le> length hs \<Longrightarrow> for_each (\<lambda>i hs. arr_set hs i v) [0..<k] hs = Some (replicate k v @ drop k hs)"
proof (induction k)
  case (Suc k)
  then have "(replicate k v @ drop k hs)[k := v] = replicate (Suc k) v @ drop (Suc k) hs"
    by (simp add: list_update_append replicate_append_same Cons_nth_drop_Suc [symmetric])
  with Suc show ?case by (simp add: for_each_append)
qed simp

lemma gates_after_construction:
  assumes "length (idt raw) = 256" "length (interruptHandlers raw) = 257"
  obtains mgr where "InterruptHandlerManager_new stub void raw = Some mgr" "interruptHandlers mgr = replicate 257 (0, void)"
    "length (idt mgr) = 256"
    "\<And>n. n < 56 \<or> n = 80 \<Longrightarrow> idt mgr ! n = new_gate (stub n) (32 \<le> n \<and> n < 56)"
    "\<And>n. \<not> (n < 56 \<or> n = 80) \<Longrightarrow> idt mgr ! n = idt raw ! n"
proof -
  let ?g = "\<lambda>allow. for_each (\<lambda>n. setIdtGate n (stub n) allow)"
  let ?m0 = "raw\<lparr>interruptHandlers := replicate 257 (0, void)\<rparr>"
  have hs: "for_each (\<lambda>i hs. arr_set hs i (0, void)) [0..<257] (interruptHandlers raw) = Some (replicate 257 (0, void))"
    using handlers_cleared [of 257 "interruptHandlers raw" "(0, void)"] assms(2) by (simp del: upt_rec_numeral)
  obtain m1 where m1: "?g False [0..<32] ?m0 = Some m1" "interruptHandlers m1 = interruptHandlers ?m0" "length (idt m1) = 256"
    "\<forall>n. idt m1 ! n = (if n < 32 then new_gate (stub n) False else idt raw ! n)"
    using setIdtGates [of 32 ?m0 stub False 0] assms(1) by auto
  obtain m2 where m2: "?g True [32..<48] m1 = Some m2" "interruptHandlers m2 = interruptHandlers m1" "length (idt m2) = 256"
    "\<forall>n. idt m2 ! n = (if 32 \<le> n \<and> n < 48 then new_gate (stub n) True else idt m1 ! n)"
    using setIdtGates [of 48 m1 stub True 32] m1(3) by auto
  obtain m3 where m3: "?g True [48..<56] m2 = Some m3" "interruptHandlers m3 = interruptHandlers m2" "length (idt m3) = 256"
    "\<forall>n. idt m3 ! n = (if 48 \<le> n \<and> n < 56 then new_gate (stub n) True else idt m2 ! n)"
    using setIdtGates [of 56 m2 stub True 48] m2(3) by auto
  let ?m4 = "m3\<lparr>idt := (idt m3)[80 := new_gate (stub 80) False]\<rparr>"
  have "setIdtGate 80 (stub 80) False m3 = Some ?m4" using m3(3) by (simp add: setIdtGate_def new_gate_def)
  then have "InterruptHandlerManager_new stub void raw = Some ?m4"
    using hs m1(1) m2(1) m3(1) by (simp add: InterruptHandlerManager_new_def del: upt_rec_numeral)
  moreover have "idt ?m4 ! n = (if n < 56 \<or> n = 80 then new_gate (stub n) (32 \<le> n \<and> n < 56) else idt raw ! n)" for n
    using m1(4) m2(4) m3(3,4) by (auto simp: nth_list_update)
  ultimately show thesis using that [of ?m4] m1(2) m2(2) m3(2,3) by simp
qed

subsection \<open>Pushing\<close>

lemma length_dwords: "length (concat (map le32 ws)) = 4 * length ws"
  by (induction ws) simp_all

lemma push_dwords:
  "4 * length ws \<le> 4294967296 \<Longrightarrow> fold push_dword ws (m, esp) =
    (store_bytes m (esp - of_nat (4 * length ws)) (concat (map le32 (rev ws))), esp - of_nat (4 * length ws))"
proof (induction ws arbitrary: m esp)
  case (Cons w ws)
  let ?a = "esp - of_nat (4 * length (w # ws))" and ?R = "concat (map le32 (rev ws))"
  have len: "length ?R = 4 * length ws" by (simp add: length_dwords)
  have a: "?a + of_nat (length ?R) = esp - 4" "esp - 4 - of_nat (4 * length ws) = ?a" by (simp_all add: len algebra_simps)
  have "fold push_dword (w # ws) (m, esp) = fold push_dword ws (store_bytes m (esp - 4) (le32 w), esp - 4)"
    by (simp add: push_dword_def store_dword_def)
  also have "\<dots> = (store_bytes (store_bytes m (?a + of_nat (length ?R)) (le32 w)) ?a ?R, ?a)"
    unfolding a(1) using Cons.IH [of "store_bytes m (esp - 4) (le32 w)" "esp - 4", unfolded a(2)] Cons.prems by simp
  also have "\<dots> = (store_bytes m ?a (?R @ le32 w), ?a)"
    using store_bytes_append_rev [of ?R "le32 w" m ?a] Cons.prems len by simp
  finally show ?case by simp
qed simp

end
