(* ===== verification/Syscalls.thy ===== *)
theory Syscalls
  imports User_Task Interrupts
begin

text \<open>
  The system calls of \<open>cpu_core.cpp\<close>, the handler table the \<open>CpuCore\<close> constructor fills, and the methods of
  \<open>UserTask\<close> and \<open>KernelTask\<close> that check addresses and prepare the first stack of a task.

  A handler runs with the page directory of the calling task. \<open>task_addr\<close> is the kernel address of a virtual
  address there (\<open>User_Task\<close> proves it of the page tables); memory is indexed by kernel addresses. The
  structs of arguments are read and written at the offsets the 32-bit compiler gives their fields.
\<close>

subsection \<open>Address checks\<close>

definition addrSpaceIsUserAccessible :: "u32 \<Rightarrow> u32 \<Rightarrow> u32 \<Rightarrow> bool" where
  "addrSpaceIsUserAccessible begin userAddr numBytes =
     (if userAddr < begin + USER_TASK_KERNEL_STACK_OFFSET + 4 \<or> userAddr + numBytes > begin + 0x800000 then False
      else True)"

definition convertContigUserAddrBlockToContigKernelAddrBlock :: "u32 \<Rightarrow> u32 \<Rightarrow> u32 \<Rightarrow> u32 \<Rightarrow> bool \<times> u32" where
  "convertContigUserAddrBlockToContigKernelAddrBlock begin area userAddr numBytes =
     (if userAddr < begin + USER_TASK_KERNEL_STACK_OFFSET + 4 \<or> userAddr + numBytes > begin + 0x800000 then (False, 0)
      else (True, userAddr + (area - begin)))"

text \<open>The first test of every handler: kernel tasks are trusted.\<close>

definition args_accessible :: "Task \<Rightarrow> u32 \<Rightarrow> u32 \<Rightarrow> bool" where
  "args_accessible task eax numBytes =
     (case task_kind task of KernelTask _ \<Rightarrow> True | UserTask begin _ \<Rightarrow> addrSpaceIsUserAccessible begin eax numBytes)"

definition current_task :: "Task list \<Rightarrow> CpuCore \<Rightarrow> Task option" where
  "current_task tasks core = do { pTask \<leftarrow> getCurrentTask core; i \<leftarrow> pTask; arr_get tasks i }"

subsection \<open>Memory as the task sees it\<close>

definition task_addr :: "Task \<Rightarrow> u32 \<Rightarrow> u32" where
  "task_addr task v =
     (case task_kind task of KernelTask _ \<Rightarrow> v
      | UserTask begin area \<Rightarrow> if v - begin < 0x800000 then area + (v - begin) else v)"

definition task_view :: "Task \<Rightarrow> memory \<Rightarrow> memory" where
  "task_view task m = (\<lambda>v. m (task_addr task v))"

definition task_store :: "Task \<Rightarrow> memory \<Rightarrow> u32 \<Rightarrow> u8 list \<Rightarrow> memory" where
  "task_store task m v bs = fold (\<lambda>i m. m(task_addr task (v + of_nat i) := bs ! i)) [0..<length bs] m"

definition load_word :: "memory \<Rightarrow> u32 \<Rightarrow> u16" where
  "load_word m a = u16_be (m (a + 1)) (m a)"

subsection \<open>The handlers\<close>

definition openSocketSyscallHandler ::
  "Task list \<Rightarrow> CpuCore \<Rightarrow> SocketManager \<Rightarrow> memory \<Rightarrow> u32 \<Rightarrow> (SocketManager \<times> memory) option" where
  "openSocketSyscallHandler tasks core sm m eax = do {
     task \<leftarrow> current_task tasks core;
     if \<not> args_accessible task eax 8 then Some (sm, m)
     else do {
       let udpPort = load_word (task_view task m) eax;
       (socketID, sm) \<leftarrow> openSocket sm (of_int (taskID task)) udpPort;
       Some (sm, task_store task m (eax + 4) (le32 (of_int socketID))) } }"

definition setReceiveBufferSyscallHandler ::
  "Task list \<Rightarrow> CpuCore \<Rightarrow> SocketManager \<Rightarrow> memory \<Rightarrow> u32 \<Rightarrow> (SocketManager \<times> memory) option" where
  "setReceiveBufferSyscallHandler tasks core sm m eax = do {
     task \<leftarrow> current_task tasks core;
     if \<not> args_accessible task eax 16 then Some (sm, m)
     else do {
       let view = task_view task m;
       let socketID = view eax;
       let buffer = load_dword view (eax + 4);
       let bufferSize = load_dword view (eax + 8);
       let tid = of_int (taskID task);
       (success, sm) \<leftarrow>
         (case task_kind task of
            KernelTask _ \<Rightarrow> setReceiveBuffer sm tid socketID buffer bufferSize
          | UserTask begin area \<Rightarrow>
              if buffer = 0 \<and> bufferSize = 0 then setReceiveBuffer sm tid socketID 0 0
              else case convertContigUserAddrBlockToContigKernelAddrBlock begin area buffer bufferSize of
                (False, _) \<Rightarrow> Some (-1, sm)
              | (True, kernelAddr) \<Rightarrow> setReceiveBuffer sm tid socketID kernelAddr bufferSize);
       Some (sm, task_store task m (eax + 12) (le32 (of_int success))) } }"

definition setSendBufferSyscallHandler ::
  "Task list \<Rightarrow> CpuCore \<Rightarrow> SocketManager \<Rightarrow> memory \<Rightarrow> u32 \<Rightarrow> (SocketManager \<times> memory) option" where
  "setSendBufferSyscallHandler tasks core sm m eax = do {
     task \<leftarrow> current_task tasks core;
     if \<not> args_accessible task eax 20 then Some (sm, m)
     else do {
       let view = task_view task m;
       let socketID = view eax;
       let buffer = load_dword view (eax + 4);
       let bufferSize = load_dword view (eax + 8);
       let indicator = load_dword view (eax + 12);
       let tid = of_int (taskID task);
       (success, sm) \<leftarrow>
         (case task_kind task of
            KernelTask _ \<Rightarrow> setSendBuffer sm tid socketID buffer bufferSize indicator
          | UserTask begin area \<Rightarrow>
              if buffer = 0 \<and> bufferSize = 0 \<and> indicator = 0 then setSendBuffer sm tid socketID 0 0 0
              else
                let block = convertContigUserAddrBlockToContigKernelAddrBlock begin area buffer bufferSize;
                    block2 = convertContigUserAddrBlockToContigKernelAddrBlock begin area indicator 4 in
                if \<not> fst block \<or> \<not> fst block2 then Some (-1, sm)
                else setSendBuffer sm tid socketID (snd block) bufferSize (snd block2));
       Some (sm, task_store task m (eax + 16) (le32 (of_int success))) } }"

definition closeSocketSyscallHandler ::
  "Task list \<Rightarrow> CpuCore \<Rightarrow> SocketManager \<Rightarrow> memory \<Rightarrow> u32 \<Rightarrow> (SocketManager \<times> memory) option" where
  "closeSocketSyscallHandler tasks core sm m eax = do {
     task \<leftarrow> current_task tasks core;
     if \<not> args_accessible task eax 1 then Some (sm, m)
     else do {
       sm \<leftarrow> closeSocket sm (of_int (taskID task)) (task_view task m eax);
       Some (sm, m) } }"

text \<open>What is printed, if anything: the characters up to the terminating zero.\<close>

definition printToScreenSyscallHandler :: "Task list \<Rightarrow> CpuCore \<Rightarrow> memory \<Rightarrow> u32 \<Rightarrow> u8 list option option" where
  "printToScreenSyscallHandler tasks core m eax = do {
     task \<leftarrow> current_task tasks core;
     if \<not> args_accessible task eax 8 then Some None
     else do {
       let view = task_view task m;
       let str = load_dword view eax;
       let stringSize = load_dword view (eax + 4);
       if \<not> args_accessible task str (stringSize + 1) then Some None
       else if view (str + stringSize) \<noteq> 0 then Some None
       else Some (Some (takeWhile (\<lambda>c. c \<noteq> 0) (load_bytes view str (Suc (unat stringSize))))) } }"

definition getTimerCounterSyscallHandler :: "Task list \<Rightarrow> CpuCore \<Rightarrow> memory \<Rightarrow> u32 \<Rightarrow> memory option" where
  "getTimerCounterSyscallHandler tasks core m eax = do {
     task \<leftarrow> current_task tasks core;
     if \<not> args_accessible task eax 4 then Some m
     else Some (task_store task m eax (le32 (timerCounter core))) }"

subsection \<open>The handler table\<close>

datatype IsrHandler =
    voidHandler | genericException | generalProtectionFault | pageFault | yieldTaskSwitchInt
  | openSocketSyscall | setReceiveBufferSyscall | setSendBufferSyscall | closeSocketSyscall
  | printToScreenSyscall | getTimerCounterSyscall | timerInterrupt

definition register_handler ::
  "u32 \<Rightarrow> nat \<Rightarrow> IsrHandler \<Rightarrow> IsrHandler InterruptHandlerManager \<Rightarrow> IsrHandler InterruptHandlerManager option" where
  "register_handler param intType handler mgr = do {
     mgr \<leftarrow> setInterruptHandlerParam intType param mgr;
     setInterruptHandler intType handler mgr }"

definition CpuCore_register_handlers ::
  "u32 \<Rightarrow> IsrHandler InterruptHandlerManager \<Rightarrow> IsrHandler InterruptHandlerManager option" where
  "CpuCore_register_handlers this mgr = do {
     mgr \<leftarrow> for_each (\<lambda>intType mgr. if intType \<noteq> 13 \<and> intType \<noteq> 14
         then register_handler this intType genericException mgr else Some mgr) [0..<32] mgr;
     mgr \<leftarrow> register_handler this 13 generalProtectionFault mgr;
     mgr \<leftarrow> register_handler this 14 pageFault mgr;
     mgr \<leftarrow> register_handler this 49 yieldTaskSwitchInt mgr;
     mgr \<leftarrow> register_handler this 50 openSocketSyscall mgr;
     mgr \<leftarrow> register_handler this 51 setReceiveBufferSyscall mgr;
     mgr \<leftarrow> register_handler this 52 setSendBufferSyscall mgr;
     mgr \<leftarrow> register_handler this 53 closeSocketSyscall mgr;
     mgr \<leftarrow> register_handler this 54 printToScreenSyscall mgr;
     register_handler this 55 getTimerCounterSyscall mgr }"

subsection \<open>Preparing a task\<close>

record TaskArguments =
  ta_args :: "u32 list"
  numArgs :: u32

abbreviation (input) MAX_TASK_ARGS :: u32 where "MAX_TASK_ARGS \<equiv> 5"

text \<open>The loop of \<open>setTaskArguments\<close> and \<open>setProcessCode\<close>: the arguments from the last to the first, then a zero
  as the return address.\<close>

definition write_arguments :: "TaskArguments \<Rightarrow> memory \<Rightarrow> u32 \<Rightarrow> (memory \<times> u32) option" where
  "write_arguments taskArgs m stack = do {
     (m, stack) \<leftarrow> for_each (\<lambda>i (m, stack). do {
         arg \<leftarrow> arr_get (ta_args taskArgs) (unat (numArgs taskArgs) - 1 - i);
         Some (store_dword m stack arg, stack - 4) }) [0..<unat (numArgs taskArgs)] (m, stack);
     Some (store_dword m stack 0, stack) }"

definition setTaskArguments ::
  "u32 \<Rightarrow> cpu_state \<Rightarrow> memory \<Rightarrow> Task \<Rightarrow> TaskArguments \<Rightarrow> (memory \<times> Task) option" where
  "setTaskArguments handlerReturn cpu m task taskArgs =
     (let begin = taskSpaceBeginVirtualAddr (task_kind task); area = pTask8MBRegion (task_kind task) in
      if numArgs taskArgs > MAX_TASK_ARGS then Some (m, task)
      else if area = 0 then Some (m, task)
      else do {
        (m, userEspStackBegin) \<leftarrow> write_arguments taskArgs m (area + USER_TASK_USER_STACK_OFFSET);
        let virtualUserEspStackBegin = (userEspStackBegin - area) + begin;
        let virtualProcessEntry = begin + 0x4000 + KERNEL_STACK_SIZE + USER_STACK_SIZE;
        let (m, top) = buildIntHandlerStackForUserPriv handlerReturn cpu m 32
          (area + USER_TASK_KERNEL_STACK_OFFSET) virtualUserEspStackBegin virtualProcessEntry;
        Some (m, task\<lparr>updatedKernelStack := top\<rparr>) })"

definition setProcessCode ::
  "u32 \<Rightarrow> cpu_state \<Rightarrow> memory \<Rightarrow> Task \<Rightarrow> u32 \<Rightarrow> TaskArguments \<Rightarrow> (memory \<times> Task) option" where
  "setProcessCode handlerReturn cpu m task processCode taskArgs =
     (let stack = kernelStackSpaceBegin (task_kind task) in
      if numArgs taskArgs > MAX_TASK_ARGS then Some (m, task)
      else if stack = 0 then Some (m, task)
      else do {
        (m, kernelEspStackBegin) \<leftarrow> write_arguments taskArgs m (stack + KERNEL_STACK_SIZE - 4);
        let (m, top) = buildIntHandlerStackForKernelPriv handlerReturn cpu m 32 kernelEspStackBegin processCode;
        Some (m, task\<lparr>updatedKernelStack := top\<rparr>) })"

definition setData :: "memory \<Rightarrow> Task \<Rightarrow> u32 \<Rightarrow> u32 \<Rightarrow> u32 \<Rightarrow> bool \<times> memory" where
  "setData m task userAddr data numBytes =
     (let begin = taskSpaceBeginVirtualAddr (task_kind task); area = pTask8MBRegion (task_kind task) in
      if userAddr < begin + USER_TASK_PROCESS_ENTRY_OFFSET \<or> userAddr + numBytes > begin + 0x800000 then (False, m)
      else if area = 0 then (False, m)
      else (True, memCopy m data (userAddr + (area - begin)) (unat numBytes)))"

subsection \<open>The registered handlers\<close>

definition registered :: "u32 \<Rightarrow> nat \<Rightarrow> u32 \<times> IsrHandler" where
  "registered this n =
     (if n < 32 then (this, if n = 13 then generalProtectionFault else if n = 14 then pageFault else genericException)
      else if 49 \<le> n \<and> n \<le> 55 then
        (this, [yieldTaskSwitchInt, openSocketSyscall, setReceiveBufferSyscall, setSendBufferSyscall, closeSocketSyscall,
                printToScreenSyscall, getTimerCounterSyscall] ! (n - 49))
      else (0, voidHandler))"

lemma register_handler_in:
  assumes "n < 56" "length (interruptHandlers mgr) = 257"
  shows "register_handler p n h mgr = Some (mgr\<lparr>interruptHandlers := (interruptHandlers mgr)[n := (p, h)]\<rparr>)"
  using assms by (simp add: register_handler_def setInterruptHandlerParam_def setInterruptHandler_def)

lemma register_exceptions:
  assumes "length (interruptHandlers mgr) = 257" "k \<le> 32"
  shows "\<exists>hs. for_each (\<lambda>intType mgr. if intType \<noteq> 13 \<and> intType \<noteq> 14
         then register_handler this intType genericException mgr else Some mgr) [0..<k] mgr = Some (mgr\<lparr>interruptHandlers := hs\<rparr>) \<and>
    length hs = 257 \<and> (\<forall>n. hs ! n = (if n < k \<and> n \<noteq> 13 \<and> n \<noteq> 14 then (this, genericException) else interruptHandlers mgr ! n))"
  using assms(2)
proof (induction k)
  case (Suc k)
  then obtain hs where hs: "for_each (\<lambda>intType mgr. if intType \<noteq> 13 \<and> intType \<noteq> 14
         then register_handler this intType genericException mgr else Some mgr) [0..<k] mgr = Some (mgr\<lparr>interruptHandlers := hs\<rparr>)"
    "length hs = 257" "\<forall>n. hs ! n = (if n < k \<and> n \<noteq> 13 \<and> n \<noteq> 14 then (this, genericException) else interruptHandlers mgr ! n)"
    by auto
  show ?case
  proof (cases "k \<noteq> 13 \<and> k \<noteq> 14")
    case True
    with hs Suc.prems show ?thesis
      by (intro exI [of _ "hs[k := (this, genericException)]"])
        (auto simp: for_each_append register_handler_in nth_list_update less_Suc_eq)
  next
    case False
    with hs Suc.prems show ?thesis by (intro exI [of _ hs]) (auto simp: for_each_append less_Suc_eq)
  qed
qed (auto intro: exI [of _ "interruptHandlers mgr"] simp: assms(1))

lemma handlers_registered:
  assumes "interruptHandlers mgr = replicate 257 (0, voidHandler)"
  shows "\<exists>hs. CpuCore_register_handlers this mgr = Some (mgr\<lparr>interruptHandlers := hs\<rparr>) \<and> length hs = 257 \<and>
    (\<forall>n < 256. hs ! n = registered this n)"
proof -
  obtain hs where hs: "for_each (\<lambda>intType mgr. if intType \<noteq> 13 \<and> intType \<noteq> 14
         then register_handler this intType genericException mgr else Some mgr) [0..<32] mgr = Some (mgr\<lparr>interruptHandlers := hs\<rparr>)"
    "length hs = 257" "\<forall>n. hs ! n = (if n < 32 \<and> n \<noteq> 13 \<and> n \<noteq> 14 then (this, genericException) else interruptHandlers mgr ! n)"
    using register_exceptions [of mgr 32 this] assms by auto
  let ?hs = "hs[13 := (this, generalProtectionFault), 14 := (this, pageFault), 49 := (this, yieldTaskSwitchInt),
    50 := (this, openSocketSyscall), 51 := (this, setReceiveBufferSyscall), 52 := (this, setSendBufferSyscall),
    53 := (this, closeSocketSyscall), 54 := (this, printToScreenSyscall), 55 := (this, getTimerCounterSyscall)]"
  have "CpuCore_register_handlers this mgr = Some (mgr\<lparr>interruptHandlers := ?hs\<rparr>)"
    using hs(1,2) by (simp add: CpuCore_register_handlers_def register_handler_in del: upt_rec_numeral)
  moreover have "?hs ! n = registered this n" if "n < 256" for n
  proof -
    have base: "hs ! n = (if n < 32 \<and> n \<noteq> 13 \<and> n \<noteq> 14 then (this, genericException) else (0, voidHandler))"
      using hs(3) assms that by (simp add: nth_replicate)
    consider "n = 13" | "n = 14" | "n = 49" | "n = 50" | "n = 51" | "n = 52" | "n = 53" | "n = 54" | "n = 55"
      | "n \<noteq> 13" "n \<noteq> 14" "\<not> (49 \<le> n \<and> n \<le> 55)" by linarith
    then show ?thesis
      by cases (auto simp: hs(2) registered_def nth_list_update base)
  qed
  ultimately show ?thesis using hs(2) by auto
qed

subsection \<open>Address checks and stores\<close>

lemma access_sound:
  assumes "addrSpaceIsUserAccessible begin a n" "unat begin + 0x800000 < 4294967296" "unat a + unat n < 4294967296"
  shows "0x14000 \<le> unat (a - begin)" "unat (a - begin) + unat n \<le> 0x800000"
proof -
  have b: "unat (begin + 0x13FFC + 4) = unat begin + 0x14000" "unat (begin + 0x800000) = unat begin + 0x800000"
  proof -
    have "unat (begin + 0x14000) = unat begin + unat (0x14000 :: u32)" by (rule unat_add_no_wrap) (use assms(2) in simp)
    moreover have "begin + 0x13FFC + 4 = begin + 0x14000" by simp
    ultimately show "unat (begin + 0x13FFC + 4) = unat begin + 0x14000" by (simp only:) simp
    have "unat (begin + 0x800000) = unat begin + unat (0x800000 :: u32)" by (rule unat_add_no_wrap) (use assms(2) in simp)
    then show "unat (begin + 0x800000) = unat begin + 0x800000" by simp
  qed
  have "unat begin + 0x14000 \<le> unat a" "unat (a + n) \<le> unat begin + 0x800000"
    using assms(1) b unfolding addrSpaceIsUserAccessible_def
    by (auto simp: word_less_nat_alt not_less simp del: add.assoc split: if_splits)
  moreover from this have "unat (a - begin) = unat a - unat begin" by (intro unat_sub_no_wrap) simp
  moreover have "unat (a + n) = unat a + unat n" by (rule unat_add_no_wrap [OF assms(3)])
  ultimately show "0x14000 \<le> unat (a - begin)" "unat (a - begin) + unat n \<le> 0x800000" by auto
qed

lemma convert_access:
  "convertContigUserAddrBlockToContigKernelAddrBlock begin area a n =
    (if addrSpaceIsUserAccessible begin a n then (True, a + (area - begin)) else (False, 0))"
  by (simp add: convertContigUserAddrBlockToContigKernelAddrBlock_def addrSpaceIsUserAccessible_def)

lemma task_addr_inside:
  assumes "task_kind task = UserTask begin area" "unat (v - begin) + length bs \<le> 0x800000" "i < length bs"
  shows "task_addr task (v + of_nat i) = area + (v - begin) + of_nat i"
proof -
  have "v + of_nat i - begin = (v - begin) + of_nat i" by (simp add: algebra_simps)
  moreover have "unat ((v - begin) + of_nat i) = unat (v - begin) + i"
    using unat_add_no_wrap [of "v - begin" "of_nat i"] assms(2,3) by (simp add: unat_of_nat_u32)
  ultimately have "unat (v + of_nat i - begin) < 0x800000" using assms(2,3) by (simp only:)
  then have "v + of_nat i - begin < 0x800000" by (simp add: word_less_nat_alt)
  then show ?thesis by (simp add: task_addr_def assms(1))
qed

lemma fold_store:
  "k \<le> length bs \<Longrightarrow> length bs \<le> 4294967296 \<Longrightarrow>
    fold (\<lambda>i m. m(a + of_nat i := bs ! i)) [0..<k] m = store_bytes m a (take k bs)"
proof (induction k)
  case (Suc k)
  have one: "store_bytes m' x [b] = m'(x := b)" for m' x b
    by (auto simp: store_bytes_def fun_eq_iff Let_def unat_eq_zero)
  have "store_bytes m a (take (Suc k) bs) = store_bytes (store_bytes m a (take k bs)) (a + of_nat k) [bs ! k]"
    using store_bytes_append [of "take k bs" "[bs ! k]" m a] Suc.prems by (simp add: take_Suc_conv_app_nth)
  with Suc show ?case by (simp add: one del: fun_upd_apply)
qed simp

lemma task_store_inside:
  assumes "task_kind task = UserTask begin area" "unat (v - begin) + length bs \<le> 0x800000"
  shows "task_store task m v bs = store_bytes m (area + (v - begin)) bs"
proof -
  have "task_store task m v bs = fold (\<lambda>i m. m(area + (v - begin) + of_nat i := bs ! i)) [0..<length bs] m"
    unfolding task_store_def by (rule fold_cong) (simp_all add: task_addr_inside [OF assms])
  then show ?thesis using fold_store [of "length bs" bs "area + (v - begin)" m] assms(2) by simp
qed

subsection \<open>The first stack of a task\<close>

lemma argument_loop:
  assumes "\<And>i. i \<in> set is \<Longrightarrow> g i = Some (h i)"
  shows "for_each (\<lambda>i (m, stack). do { arg \<leftarrow> g i; Some (store_dword m stack arg, stack - 4) }) is (m, stack) =
    Some (map_prod id (\<lambda>esp. esp - 4) (fold push_dword (map h is) (m, stack + 4)))"
  using assms
proof (induction "is" arbitrary: m stack)
  case (Cons i "is")
  have "push_dword (h i) (m, stack + 4) = (store_dword m stack (h i), stack - 4 + 4)" by (simp add: push_dword_def)
  with Cons show ?case by (simp del: diff_add_cancel)
qed simp

lemma write_arguments_pushes:
  assumes "unat (numArgs args) \<le> length (ta_args args)" "n = unat (numArgs args)"
  shows "write_arguments args m stack = Some (fold push_dword (rev (take n (ta_args args)) @ [0]) (m, stack + 4))"
proof -
  let ?h = "\<lambda>i. ta_args args ! (n - 1 - i)"
  have "map ?h [0..<n] = rev (take n (ta_args args))"
    using assms by (intro nth_equalityI) (auto simp: rev_nth)
  moreover have "for_each (\<lambda>i (m, stack). do { arg \<leftarrow> arr_get (ta_args args) (n - 1 - i); Some (store_dword m stack arg, stack - 4) })
      [0..<n] (m, stack) = Some (map_prod id (\<lambda>esp. esp - 4) (fold push_dword (map ?h [0..<n]) (m, stack + 4)))"
    by (rule argument_loop) (use assms in auto)
  moreover obtain m1 esp where "fold push_dword (rev (take n (ta_args args))) (m, stack + 4) = (m1, esp)"
    by (cases "fold push_dword (rev (take n (ta_args args))) (m, stack + 4)")
  ultimately show ?thesis by (simp add: write_arguments_def push_dword_def flip: assms(2))
qed

text \<open>Two pushed blocks in different places.\<close>

lemma two_blocks:
  assumes "unat (b - a) \<ge> length xs" "unat (b - a) + length ys \<le> 4294967296"
  shows "stored (store_bytes (store_bytes m b ys) a xs) a xs" "stored (store_bytes (store_bytes m b ys) a xs) b ys"
    "store_bytes (store_bytes m b ys) a xs x \<noteq> m x \<Longrightarrow> unat (x - a) < length xs \<or> unat (x - b) < length ys"
proof -
  have n: "length xs \<le> 4294967296" "length ys \<le> 4294967296" using assms by auto
  show "stored (store_bytes (store_bytes m b ys) a xs) a xs" by (rule stored_store [OF n(1)])
  have "store_bytes (store_bytes m b ys) a xs (b + of_nat k) = store_bytes m b ys (b + of_nat k)" if "k < length ys" for k
  proof (rule store_bytes_outside)
    have "b + of_nat k - a = (b - a) + of_nat k" by (simp add: algebra_simps)
    moreover have "unat ((b - a) + of_nat k) = unat (b - a) + k"
      using unat_add_no_wrap [of "b - a" "of_nat k"] assms(2) that by (simp add: unat_of_nat_u32)
    ultimately have "unat (b + of_nat k - a) = unat (b - a) + k" by (simp only:)
    with assms(1) show "length xs \<le> unat (b + of_nat k - a)" by linarith
  qed
  then show "stored (store_bytes (store_bytes m b ys) a xs) b ys"
    by (intro stored_unchanged [OF stored_store [OF n(2)]]) auto
  show "store_bytes (store_bytes m b ys) a xs x \<noteq> m x \<Longrightarrow> unat (x - a) < length xs \<or> unat (x - b) < length ys"
    by (auto simp: store_bytes_def Let_def split: if_splits)
qed

end
