(* ===== verification/Page_Properties.thy ===== *)
theory Page_Properties
  imports Kernel_Mapping
begin

text \<open>
  The properties of paging and of the page allocator, each with an instance on the structures the
  kernel starts with (at address \<open>0x200000\<close>).
\<close>

subsection \<open>The allocator of a fresh kernel\<close>

lemma PagingStructures_new_shape: "take_bit 12 base = 0 \<Longrightarrow> pa_shape (PagingStructures_new base)"
  using PagingStructures_new_directory(2) [of base 0] identity_table_entry(2) [of 0]
  by (simp add: pa_shape_def pd_wf_def PagingStructures_new_def)

lemma PageAllocator_new_inv:
  assumes "pa_shape st"
  shows "pa_inv (PageAllocator_new st)" "allocated (PageAllocator_new st) = {}"
proof -
  have code: "entry_code (pageTables (PageAllocator_new st) ! i ! j) = 0" if "i < 1023" "j < 1024" for i j
    using assms that by (simp add: PageAllocator_new_def pa_shape_def Let_def)
  have "pde_code (PageAllocator_new st) i = 0" if "i < 1023" for i
    using assms that
    by (simp add: pde_code_def PageAllocator_new_def pa_shape_def Let_def nth_append)
  then show "pa_inv (PageAllocator_new st)"
    using assms code by (auto simp: pa_inv_def table_summary_def pa_shape_def PageAllocator_new_def Let_def)
  have "page_code (PageAllocator_new st) p = 0" if "p < NUM_PAGES" for p
    unfolding page_code_def by (rule code) (use that in \<open>auto simp: less_mult_imp_div_less\<close>)
  then show "allocated (PageAllocator_new st) = {}" by (auto simp: allocated_def)
qed

definition demo_pages :: PagingStructures where
  "demo_pages = PageAllocator_new (PagingStructures_new 0x200000)"

lemma aligned_example: "take_bit 12 (0x200000 :: u32) = 0"
  by (simp add: take_bit_eq_mod)

lemma demo_pages_inv: "pa_inv demo_pages" "allocated demo_pages = {}"
  unfolding demo_pages_def by (rule PageAllocator_new_inv [OF PagingStructures_new_shape [OF aligned_example]])+

subsection \<open>Allocation\<close>

text \<open>C3. An allocation of \<open>n\<close> pages, for every size the kernel may ask for, returns: it reports failure
  (address \<open>0xFFC00000\<close>) exactly when there are no \<open>n\<close> contiguous free pages, and then changes nothing;
  otherwise it hands out a run that was free, marks exactly that run, and keeps all other regions.\<close>

theorem allocation_correct:
  assumes "pa_inv st" "served_size np"
  shows "\<exists>a st'. allocateContiguousPages st np = Some (a, st') \<and> pa_inv st' \<and>
    (a = 0xFFC00000 \<longleftrightarrow> \<not> (\<exists>s. s + unat np \<le> 1047552 \<and> {s..<s + unat np} \<inter> allocated st = {})) \<and>
    (if a = 0xFFC00000 then st' = st
     else \<exists>s. a = page_address s \<and> region st' s (unat np) \<and> {s..<s + unat np} \<inter> allocated st = {} \<and>
       allocated st' = allocated st \<union> {s..<s + unat np} \<and> (\<forall>t k. region st t k \<longrightarrow> region st' t k))"
proof -
  obtain a st' where r: "allocateContiguousPages st np = Some (a, st')"
    using kernel_pages.alloc_total [OF assms] by blast
  have complete: "a \<noteq> 0xFFC00000" if "s + unat np \<le> 1047552" "{s..<s + unat np} \<inter> allocated st = {}" for s
    by (rule kernel_pages.alloc_complete [OF assms that r])
  show ?thesis
  proof (cases "a = 0xFFC00000")
    case True
    then have "st' = st" using kernel_pages.alloc_failed [OF assms] r by simp
    with r True complete assms show ?thesis by (intro exI [of _ a] exI [of _ st']) auto
  next
    case False
    then obtain s where s: "a = page_address s" "pa_inv st'" "region st' s (unat np)"
      "{s..<s + unat np} \<inter> allocated st = {}" "allocated st' = allocated st \<union> {s..<s + unat np}"
      "\<forall>t k. region st t k \<longrightarrow> region st' t k"
      using kernel_pages.alloc_fresh [OF assms r] by blast
    have "s + unat np \<le> 1047552" using s(3) by (simp add: region_def)
    with r False s show ?thesis by (intro exI [of _ a] exI [of _ st']) auto
  qed
qed

lemma allocation_correct_witness:
  "\<exists>a st' s. allocateContiguousPages demo_pages 2048 = Some (a, st') \<and> a \<noteq> 0xFFC00000 \<and>
     region st' s 2048 \<and> allocated st' = {s..<s + 2048}"
proof -
  have "served_size 2048" by (simp add: served_size_def)
  from allocation_correct [OF demo_pages_inv(1) this] obtain a st' where
    a: "allocateContiguousPages demo_pages 2048 = Some (a, st')"
    "a = 0xFFC00000 \<longleftrightarrow> \<not> (\<exists>s. s + unat (2048 :: u32) \<le> 1047552 \<and> {s..<s + unat (2048 :: u32)} \<inter> allocated demo_pages = {})"
    "if a = 0xFFC00000 then st' = demo_pages else \<exists>s. a = page_address s \<and> region st' s (unat (2048 :: u32)) \<and>
       {s..<s + unat (2048 :: u32)} \<inter> allocated demo_pages = {} \<and>
       allocated st' = allocated demo_pages \<union> {s..<s + unat (2048 :: u32)} \<and>
       (\<forall>t k. region demo_pages t k \<longrightarrow> region st' t k)"
    by (elim exE conjE) (rule that)
  have "0 + unat (2048 :: u32) \<le> 1047552 \<and> {0..<0 + unat (2048 :: u32)} \<inter> allocated demo_pages = {}"
    by (simp add: demo_pages_inv)
  then have "a \<noteq> 0xFFC00000" using a(2) by blast
  moreover from this a(3) obtain s where "region st' s 2048" "allocated st' = {s..<s + 2048}"
    by (auto simp: demo_pages_inv)
  ultimately show ?thesis using a(1) by blast
qed

text \<open>C5. Freeing the first address of a live region frees exactly the pages of that region, whatever its
  length and its neighbours, and every other region stays intact.\<close>

theorem free_correct:
  assumes "pa_inv st" "region st s n"
  shows "pa_inv (freeContiguousPages st (page_address s)) \<and>
    allocated (freeContiguousPages st (page_address s)) = allocated st - {s..<s + n} \<and>
    (\<forall>t k. region st t k \<longrightarrow> {t..<t + k} \<inter> {s..<s + n} = {} \<longrightarrow>
      region (freeContiguousPages st (page_address s)) t k)"
  using kernel_pages.free_inv [OF assms] kernel_pages.free_used [OF assms] kernel_pages.free_live [OF assms] by blast

lemma free_correct_witness:
  "\<exists>a st'. allocateContiguousPages demo_pages 16 = Some (a, st') \<and> allocated (freeContiguousPages st' a) = {}"
proof -
  have served: "served_size 16" by (simp add: served_size_def)
  obtain a st' where r: "allocateContiguousPages demo_pages 16 = Some (a, st')"
    using kernel_pages.alloc_total [OF demo_pages_inv(1) served] by blast
  have "a \<noteq> 0xFFC00000"
    using kernel_pages.alloc_complete [OF demo_pages_inv(1) served _ _ r, of 0] demo_pages_inv(2) by simp
  then obtain s where s: "a = page_address s" "pa_inv st'" "region st' s 16" "allocated st' = {s..<s + 16}"
    using kernel_pages.alloc_fresh [OF demo_pages_inv(1) served r] demo_pages_inv(2) by auto
  show ?thesis using r s(1,4) free_correct [OF s(2,3)] by auto
qed

text \<open>C4. However allocations and frees are interleaved, the regions that are live are pairwise disjoint,
  and the pages in use are those in use at the start plus the pages of the live regions.\<close>

theorem live_regions_disjoint:
  assumes "pages_reachable st0 st L" "pa_inv st0"
  shows "pa_inv st \<and> disjoint_family_on pages_of L \<and> (\<forall>(s, n) \<in> L. region st s n) \<and>
    allocated st = allocated st0 \<union> (\<Union>r \<in> L. pages_of r) \<and> allocated st0 \<inter> (\<Union>r \<in> L. pages_of r) = {}"
  using pages_reachable_owns [OF assms] by (simp add: kernel_pages.owns_def)

lemma live_regions_disjoint_witness:
  "\<exists>st s. pages_reachable demo_pages st {(s, 16)} \<and> region st s 16 \<and> allocated st = pages_of (s, 16)"
proof -
  have served: "served_size 16" by (simp add: served_size_def)
  obtain a st' where r: "allocateContiguousPages demo_pages 16 = Some (a, st')"
    using kernel_pages.alloc_total [OF demo_pages_inv(1) served] by blast
  have "a \<noteq> 0xFFC00000"
    using kernel_pages.alloc_complete [OF demo_pages_inv(1) served _ _ r, of 0] demo_pages_inv(2) by simp
  then obtain s where s: "a = page_address s" "region st' s 16"
    using kernel_pages.alloc_fresh [OF demo_pages_inv(1) served r] by auto
  have "s < 1047552" using s(2) by (simp add: region_def)
  then have reach: "pages_reachable demo_pages st' {(s, 16)}"
    using pages_reachable.allocate [OF pages_reachable.start served, of demo_pages s st'] r s(1) by simp
  with live_regions_disjoint [OF reach demo_pages_inv(1)] demo_pages_inv(2) show ?thesis by auto
qed

end
