(* ===== verification/Socket_Properties.thy ===== *)
theory Socket_Properties
  imports Socket_Delivery
begin

text \<open>
  The properties of the socket manager, each with an instance on a concrete state: task 3 owns port
  80 through its socket 0 and has a receive buffer of 100 bytes at address 4096.
\<close>

subsection \<open>A concrete state\<close>

definition blank_socket :: SocketDesc where
  "blank_socket = \<lparr>sd_isActive = 7, sd_udpPort = 0, sd_receiveBuffer = 0, sd_receiveBufferSize = 0,
     sd_sendBuffer = 0, sd_sendBufferSize = 0, sd_sendBufferIdentification = 0,
     sd_sendBufferFragmentOffset = 0, sd_sendBufferIndicatorWhenFinished = 0\<rparr>"

definition blank_memory :: SocketManager where
  "blank_memory = \<lparr>socketDescs = replicate 50 (replicate 10 blank_socket),
     udpPortStates = replicate 9000 \<lparr>ps_isActive = 5, ps_taskID = 1, ps_socketID = 1\<rparr>,
     transmissionRequestListElements = replicate 15 \<lparr>dl_value = \<lparr>tr_udpPort = 0\<rparr>, dl_next = None, dl_prev = None\<rparr>,
     transmissionRequestsHead = None, transmissionRequestsTail = None, unusedTransmissionRequestsHead = None\<rparr>"

definition demo_new :: SocketManager where
  "demo_new = SocketManager_new blank_memory"

definition demo_open :: SocketManager where
  "demo_open = snd (the (openSocket demo_new 3 80))"

definition demo_sm :: SocketManager where
  "demo_sm = snd (the (setReceiveBuffer demo_open 3 0 4096 100))"

definition demo_packet :: IPv4Packet where
  "demo_packet = \<lparr>sourceIP = 0x0A000001, destIP = 0, dataSize = 10, protocol = 17, moreFragments = False,
     fragmentOffset = 0, identification = 0, nextFragment = None, createdTime = 0,
     pData = [0, 99, 0, 80, 0, 10, 0, 0, 42, 43] @ replicate 2038 0\<rparr>"

lemma blank_shape: "sm_shape blank_memory"
  by (simp add: sm_shape_def blank_memory_def)

lemma demo_new_facts:
  "sm_inv demo_new" "port_owner demo_new = (\<lambda>_. None)"
  "t < 50 \<Longrightarrow> s < 10 \<Longrightarrow> sd_isActive (sock demo_new t s) = 0"
  "requests_are demo_new [] [0..<15]"
  using SocketManager_new_inv [OF blank_shape] SocketManager_new_requests [OF blank_shape]
  by (simp_all add: demo_new_def sock_def SocketManager_new_def blank_memory_def)

lemma demo_open_facts:
  "sm_inv demo_open" "port_owner demo_open = (\<lambda>_. None)(80 \<mapsto> (3, 0))"
  "openSocket demo_new 3 80 = Some (0, demo_open)" "requests_are demo_open [] [0..<15]"
proof -
  obtain sm' where sm': "openSocket demo_new 3 80 = Some (int 0, sm')" "sm_inv sm'"
    "port_owner sm' = (port_owner demo_new)(unat (80 :: u16) \<mapsto> (unat (3 :: u8), 0))"
    "requests_are sm' [] [0..<15]"
    by (rule openSocket_granted [of demo_new 3 80 0]) (auto simp: demo_new_facts)
  then have "demo_open = sm'" by (simp add: demo_open_def)
  with sm' demo_new_facts show "sm_inv demo_open" "port_owner demo_open = (\<lambda>_. None)(80 \<mapsto> (3, 0))"
    "openSocket demo_new 3 80 = Some (0, demo_open)" "requests_are demo_open [] [0..<15]" by simp_all
qed

lemma demo_facts:
  "sm_inv demo_sm" "port_owner demo_sm 80 = Some (3, 0)"
  "sd_receiveBuffer (sock demo_sm 3 0) = 4096" "sd_receiveBufferSize (sock demo_sm 3 0) = 100"
proof -
  have act: "sd_isActive (sock demo_open 3 0) = 1"
    using port_owner_Some(4) [OF demo_open_facts(1), of 80 3 0] by (simp add: demo_open_facts)
  obtain sm' where sm': "sm_inv sm'" "port_owner sm' = port_owner demo_open"
    "setReceiveBuffer demo_open 3 0 4096 100 = Some (0, sm')"
    "sock sm' = (sock demo_open)(3 := (sock demo_open 3)(0 := (sock demo_open 3 0)
         \<lparr>sd_receiveBuffer := 4096, sd_receiveBufferSize := 100\<rparr>))"
    using setReceiveBuffer_spec [OF demo_open_facts(1), of 3 0 100 4096] act by auto
  then have "demo_sm = sm'" by (simp add: demo_sm_def)
  with sm' show "sm_inv demo_sm" "port_owner demo_sm 80 = Some (3, 0)"
    "sd_receiveBuffer (sock demo_sm 3 0) = 4096" "sd_receiveBufferSize (sock demo_sm 3 0) = 100"
    by (simp_all add: demo_open_facts)
qed

lemma demo_udp: "udp_packet [demo_packet] 0 []"
  by (simp add: udp_packet_def fragment_chain_def packet_ok_def demo_packet_def)

lemma demo_datagram: "datagram [demo_packet] [0] = [0, 99, 0, 80, 0, 10, 0, 0, 42, 43]"
  by (simp add: fragment_bytes_def demo_packet_def)

lemma demo_header:
  "udp_destinationPort [0, 99, 0, 80, 0, 10, 0, 0, 42, 43] = 80"
  "udp_length [0, 99, 0, 80, 0, 10, 0, 0, 42, 43] = 10"
  "udp_sourcePort [0, 99, 0, 80, 0, 10, 0, 0, 42, 43] = 99"
  by (simp_all add: udp_destinationPort_def udp_length_def udp_sourcePort_def u16_be_def)

subsection \<open>Delivery of received packets\<close>

text \<open>C1. A UDP datagram, in however many fragments, whose length field is its length and for which the
  owner of the destination port has room is delivered: the receive buffer holds source address,
  source port, payload length and the reassembled payload, followed by an empty header, and the
  socket's buffer advances behind the packet. Nothing else changes.\<close>

theorem packet_delivery:
  assumes "udp_packet pool packet is" "sm_inv sm" "D = datagram pool (packet # is)"
    and "port_owner sm (unat (udp_destinationPort D)) = Some (t, s)"
    and "length D = unat (udp_length D)"
    and "length D + 8 \<le> unat (sd_receiveBufferSize (sock sm t s))"
  shows "handleReceivedPacket sm m pool packet = Some
    (put_sock sm t s ((sock sm t s)
       \<lparr>sd_receiveBuffer := sd_receiveBuffer (sock sm t s) + of_nat (length D),
        sd_receiveBufferSize := sd_receiveBufferSize (sock sm t s) - of_nat (length D)\<rparr>),
     store_bytes m (sd_receiveBuffer (sock sm t s))
       (receive_frame (sourceIP (pool ! packet)) (udp_sourcePort D) (drop 8 D) @ replicate 8 0))"
  using handleReceivedPacket_delivered [OF assms refl] .

lemma packet_delivery_witness:
  "\<exists>sm'. handleReceivedPacket demo_sm (\<lambda>_. 1) [demo_packet] 0 =
    Some (sm', store_bytes (\<lambda>_. 1) 4096 ([1, 0, 0, 10, 99, 0, 2, 0, 42, 43] @ replicate 8 0))"
proof -
  have frame: "receive_frame 0x0A000001 99 [42, 43] = [1, 0, 0, 10, 99, 0, 2, 0, 42, 43]"
    by (simp add: receive_frame_def le32_def le16_def byte_at_def)
  have "sourceIP ([demo_packet] ! 0) = 0x0A000001" by (simp add: demo_packet_def)
  with packet_delivery [OF demo_udp demo_facts(1) refl, where t = 3 and s = 0 and m = "\<lambda>_. 1"] frame
  show ?thesis by (simp add: demo_facts demo_header demo_datagram del: datagram_Cons)
qed

text \<open>C2. Whatever the header of a packet claims, handling it with a destination port below 9000 never
  faults, keeps the invariant and the ownership of ports, and changes memory only inside the receive
  buffer of the socket that owns the destination port. When the packet is not delivered the state is
  unchanged and so are the first eight bytes of that buffer.\<close>

theorem packet_memory_safety:
  assumes "udp_packet pool packet is" "sm_inv sm" "D = datagram pool (packet # is)"
    and "unat (udp_destinationPort D) < 9000"
  shows "\<exists>sm' m'. handleReceivedPacket sm m pool packet = Some (sm', m') \<and> sm_inv sm' \<and>
    port_owner sm' = port_owner sm \<and>
    (\<forall>x. m' x = m x \<or> (\<exists>t s. port_owner sm (unat (udp_destinationPort D)) = Some (t, s) \<and>
       unat (x - sd_receiveBuffer (sock sm t s)) < unat (sd_receiveBufferSize (sock sm t s)) \<and>
       (8 \<le> unat (x - sd_receiveBuffer (sock sm t s)) \<or> length D = unat (udp_length D))))"
  using handleReceivedPacket_safe [OF assms] .

lemma packet_memory_safety_witness:
  "\<exists>sm' m'. handleReceivedPacket demo_sm (\<lambda>_. 1) [demo_packet] 0 = Some (sm', m') \<and> sm_inv sm' \<and> m' 0 = 1"
proof -
  have "unat (udp_destinationPort (datagram [demo_packet] [0])) < 9000" by (simp only: demo_datagram demo_header) simp
  from packet_memory_safety [OF demo_udp demo_facts(1) refl this, of "\<lambda>_. 1"]
  obtain sm' m' where sm': "handleReceivedPacket demo_sm (\<lambda>_. 1) [demo_packet] 0 = Some (sm', m')" "sm_inv sm'"
    "m' 0 = 1 \<or> (\<exists>t s. port_owner demo_sm (unat (udp_destinationPort (datagram [demo_packet] [0]))) = Some (t, s) \<and>
       unat (0 - sd_receiveBuffer (sock demo_sm t s)) < unat (sd_receiveBufferSize (sock demo_sm t s)))"
    by blast
  then show ?thesis by (auto simp: demo_header demo_datagram demo_facts simp del: datagram_Cons)
qed

text \<open>The receive buffer is a stream: when it holds a sequence of packets from its base on, delivering
  one more appends that packet's frame and leaves an all-zero header where the next one will go.\<close>

theorem receive_stream_grows:
  assumes "udp_packet pool packet is" "sm_inv sm" "D = datagram pool (packet # is)"
    and "port_owner sm (unat (udp_destinationPort D)) = Some (t, s)"
    and "length D = unat (udp_length D)"
    and "length D + 8 \<le> unat (sd_receiveBufferSize (sock sm t s))"
    and "received sm m t s base pkts"
  shows "\<exists>sm' m'. handleReceivedPacket sm m pool packet = Some (sm', m') \<and> sm_inv sm' \<and>
    received sm' m' t s base (pkts @ [(sourceIP (pool ! packet), udp_sourcePort D, drop 8 D)]) \<and>
    stored m' (sd_receiveBuffer (sock sm' t s)) (replicate 8 0)"
  using received_delivered [OF assms] by blast

lemma receive_stream_grows_witness:
  "\<exists>sm' m'. handleReceivedPacket demo_sm (\<lambda>_. 1) [demo_packet] 0 = Some (sm', m') \<and>
    received sm' m' 3 0 4096 [(0x0A000001, 99, [42, 43])]"
proof -
  have "received demo_sm (\<lambda>_. 1) 3 0 4096 []" by (simp add: received_def receive_stream_def demo_facts)
  moreover have "sourceIP ([demo_packet] ! 0) = 0x0A000001" by (simp add: demo_packet_def)
  ultimately show ?thesis
    using receive_stream_grows [OF demo_udp demo_facts(1) refl, where t = 3 and s = 0 and m = "\<lambda>_. 1"
        and base = 4096 and pkts = "[]"]
    by (auto simp: demo_header demo_facts demo_datagram simp del: datagram_Cons)
qed

text \<open>A packet addressed to a port from 9000 on indexes the port table out of its range: the table has
  \<open>NUM_UDP_PORTS\<close> entries and the handler does not check the port it reads from the packet.\<close>

theorem packet_port_out_of_range:
  assumes "udp_packet pool packet is" "sm_inv sm"
    and "9000 \<le> unat (udp_destinationPort (datagram pool (packet # is)))"
  shows "handleReceivedPacket sm m pool packet = None"
  using handleReceivedPacket_faults [OF assms(1,2) refl assms(3)] .

lemma packet_port_out_of_range_witness:
  "handleReceivedPacket demo_sm (\<lambda>_. 1)
     [demo_packet\<lparr>pData := [0, 99, 255, 255, 0, 10, 0, 0, 42, 43] @ replicate 2038 0\<rparr>] 0 = None"
proof -
  let ?p = "demo_packet\<lparr>pData := [0, 99, 255, 255, 0, 10, 0, 0, 42, 43] @ replicate 2038 0\<rparr>"
  have u: "udp_packet [?p] 0 []"
    by (simp add: udp_packet_def fragment_chain_def packet_ok_def demo_packet_def)
  have "9000 \<le> unat (udp_destinationPort (datagram [?p] [0]))"
    by (simp add: fragment_bytes_def demo_packet_def udp_destinationPort_def push8_plus_low)
  from packet_port_out_of_range [OF u demo_facts(1) this] show ?thesis .
qed

subsection \<open>Ownership of ports\<close>

text \<open>C8. \<open>openSocket\<close> grants a port exactly when it is below 9000 (9000 itself is refused), nobody owns it and the task has a free
  socket; then the task owns it through a socket that owned nothing before, and every other port
  keeps its owner. Otherwise it returns -1 and changes nothing.\<close>

theorem openSocket_correct:
  assumes "sm_inv sm" "unat t < 50"
  shows "if unat p < 9000 \<and> port_owner sm (unat p) = None \<and> (\<exists>s < 10. sd_isActive (sock sm (unat t) s) = 0)
    then \<exists>s sm'. s < 10 \<and> openSocket sm t p = Some (int s, sm') \<and> sm_inv sm' \<and>
      port_owner sm' = (port_owner sm)(unat p \<mapsto> (unat t, s)) \<and> (\<forall>q. port_owner sm q \<noteq> Some (unat t, s))
    else openSocket sm t p = Some (-1, sm)"
proof (cases "unat p < 9000 \<and> port_owner sm (unat p) = None \<and> (\<exists>s < 10. sd_isActive (sock sm (unat t) s) = 0)")
  case True
  let ?P = "\<lambda>s. s < 10 \<and> sd_isActive (sock sm (unat t) s) = 0"
  have "\<exists>s. ?P s" using True by blast
  then obtain s where s: "?P s" "\<forall>j < s. \<not> ?P j" unfolding exists_least_iff [of ?P] by blast
  then have first: "\<forall>j < s. sd_isActive (sock sm (unat t) j) \<noteq> 0" by auto
  obtain sm' where "openSocket sm t p = Some (int s, sm')" "sm_inv sm'"
    "port_owner sm' = (port_owner sm)(unat p \<mapsto> (unat t, s))"
    by (rule openSocket_granted [OF assms _ _ _ _ first, of p]) (use True s that in auto)
  moreover have "port_owner sm q \<noteq> Some (unat t, s)" for q
    using port_owner_Some(4) [OF assms(1), of q "unat t" s] s by auto
  ultimately show ?thesis unfolding if_P [OF True] using s by blast
next
  case False
  then have "openSocket sm t p = Some (-1, sm)" using assms by (intro openSocket_refused) auto
  then show ?thesis unfolding if_not_P [OF False] .
qed

lemma openSocket_correct_witness:
  "\<exists>s sm'. openSocket demo_new 3 80 = Some (int s, sm') \<and> port_owner sm' 80 = Some (3, s)"
proof -
  have "unat (80 :: u16) < 9000 \<and> port_owner demo_new (unat (80 :: u16)) = None \<and>
      (\<exists>s < 10. sd_isActive (sock demo_new (unat (3 :: u8)) s) = 0)"
    using demo_new_facts(3) [of 3 0] by (auto simp: demo_new_facts(2) intro!: exI [of _ 0])
  with openSocket_correct [OF demo_new_facts(1), of 3 80] show ?thesis by auto
qed

text \<open>C18. When a task ends, \<open>closeAllSocketsForTask\<close> releases exactly the ports of that task: it owns none
  afterwards and the ports of all other tasks are untouched, so a later task with the same identifier
  does not inherit sockets.\<close>

theorem closeAllSocketsForTask_correct:
  assumes "sm_inv sm" "unat t < 50"
  shows "\<exists>sm'. closeAllSocketsForTask sm t = Some sm' \<and> sm_inv sm' \<and>
    (\<forall>p. port_owner sm' p =
      (case port_owner sm p of None \<Rightarrow> None | Some (t', s) \<Rightarrow> if t' = unat t then None else Some (t', s)))"
proof -
  obtain sm' where "closeAllSocketsForTask sm t = Some sm'" "sm_inv sm'"
    "port_owner sm' = (\<lambda>p. case port_owner sm p of None \<Rightarrow> None
       | Some (t', s) \<Rightarrow> if t' = unat t then None else Some (t', s))"
    by (rule closeAllSocketsForTask_spec [OF assms])
  then show ?thesis by (intro exI [of _ sm']) simp
qed

lemma closeAllSocketsForTask_correct_witness:
  "\<exists>sm'. closeAllSocketsForTask demo_sm 3 = Some sm' \<and> port_owner sm' 80 = None"
proof -
  have "unat (3 :: u8) < 50" by simp
  from closeAllSocketsForTask_correct [OF demo_facts(1) this] demo_facts(2) show ?thesis by fastforce
qed

subsection \<open>Transmission requests\<close>

text \<open>\<open>setSendBuffer\<close> on an active socket with a buffer of at least 16 bytes files a request for the
  socket's port in front of the list of requests when one of the fifteen elements is unused; with all
  in use it returns -1 and changes nothing.\<close>

theorem setSendBuffer_correct:
  assumes "sm_inv sm" "unat t < 50" "unat s < 10" "sd_isActive (sock sm (unat t) (unat s)) \<noteq> 0"
    and "requests_are sm act fr" "16 \<le> unat bsize"
  shows "if fr = [] then setSendBuffer sm t s buf bsize ind = Some (-1, sm) \<and> length act = 15
    else \<exists>sm'. setSendBuffer sm t s buf bsize ind = Some (0, sm') \<and> sm_inv sm' \<and>
      requests_are sm' (hd fr # act) (tl fr) \<and>
      request_ports sm' (hd fr # act) = sd_udpPort (sock sm (unat t) (unat s)) # request_ports sm act \<and>
      sd_sendBuffer (sock sm' (unat t) (unat s)) = buf \<and> sd_sendBufferSize (sock sm' (unat t) (unat s)) = bsize"
proof (cases fr)
  case Nil
  have "length act + length fr = length (transmissionRequestListElements sm)"
    using pool_lists(6) assms(5) by (auto simp: requests_are_def)
  with Nil sm_invD(1) [OF assms(1)] setSendBuffer_full [OF assms(1,2) _ assms(6)] assms(5) show ?thesis
    by (simp add: sm_shape_def)
next
  case (Cons i fr')
  then show ?thesis using setSendBuffer_filed [OF assms(1-4) _ assms(6)] assms(5) by (metis list.sel list.simps(3))
qed

lemma setSendBuffer_correct_witness:
  "\<exists>sm'. setSendBuffer demo_open 3 0 8192 64 0 = Some (0, sm') \<and> sm_inv sm'"
proof -
  have act: "sd_isActive (sock demo_open (unat (3 :: u8)) (unat (0 :: u8))) \<noteq> 0"
    using port_owner_Some(4) [OF demo_open_facts(1), of 80 3 0] by (simp add: demo_open_facts)
  from setSendBuffer_correct [OF demo_open_facts(1) _ _ act demo_open_facts(4), of 64 8192 0] show ?thesis
    by (auto simp: upt_rec split: if_splits)
qed

text \<open>C20. The pointer manipulations of \<open>remove\<close> and \<open>relocateToEnd\<close> implement removal and rotation of the
  abstract list of requests: the element leaves the list for the unused elements, or moves behind
  the last one, the ports of the others keep their order, and the iterator points to what followed
  it.\<close>

theorem request_list_refinement:
  assumes "sm_inv sm" "requests_are sm (is @ i # js) fr"
  shows "(\<exists>sm'. remove_request sm (Some i) = Some (sm', hd_ptr js None) \<and> sm_inv sm' \<and>
      requests_are sm' (is @ js) (i # fr) \<and> request_ports sm' (is @ js) = request_ports sm (is @ js)) \<and>
    (\<exists>sm'. relocateToEnd sm (Some i) = Some (sm', hd_ptr js (Some i)) \<and> sm_inv sm' \<and>
      requests_are sm' (is @ js @ [i]) fr \<and>
      request_ports sm' (is @ js @ [i]) = request_ports sm (is @ js @ [i]))"
proof
  obtain sm' where "remove_request sm (Some i) = Some (sm', hd_ptr js None)" "sm_inv sm'"
    "requests_are sm' (is @ js) (i # fr)" "request_ports sm' (is @ js) = request_ports sm (is @ js)"
    by (rule remove_request_spec [OF assms]) (rule that)
  then show "\<exists>sm'. remove_request sm (Some i) = Some (sm', hd_ptr js None) \<and> sm_inv sm' \<and>
      requests_are sm' (is @ js) (i # fr) \<and> request_ports sm' (is @ js) = request_ports sm (is @ js)"
    by (intro exI [of _ sm']) simp
  show "\<exists>sm'. relocateToEnd sm (Some i) = Some (sm', hd_ptr js (Some i)) \<and> sm_inv sm' \<and>
      requests_are sm' (is @ js @ [i]) fr \<and>
      request_ports sm' (is @ js @ [i]) = request_ports sm (is @ js @ [i])"
  proof (cases js)
    case Nil
    have d: "dlist (transmissionRequestListElements sm) (transmissionRequestsHead sm) (is @ [i])"
      using assms(2) Nil by (simp add: requests_are_def list_pool_def)
    have "relocateToEnd sm (Some i) = Some (sm, Some i)"
      using dlist_split(1) [of _ _ "is" i "[]", OF d] requests_are_lists(4) [OF assms(2), of i]
      by (simp add: relocateToEnd_def nxt_def)
    with assms Nil show ?thesis by (intro exI [of _ sm]) simp
  next
    case (Cons j ks)
    obtain sm' where "relocateToEnd sm (Some i) = Some (sm', Some (hd js))" "sm_inv sm'"
      "requests_are sm' (is @ js @ [i]) fr"
      "request_ports sm' (is @ js @ [i]) = request_ports sm (is @ js @ [i])"
      by (rule relocateToEnd_spec [OF assms]) (use Cons in simp, rule that)
    with Cons show ?thesis by (intro exI [of _ sm']) simp
  qed
qed

lemma request_list_refinement_witness:
  "\<exists>sm1 sm2. setSendBuffer demo_open 3 0 8192 64 0 = Some (0, sm1) \<and>
     remove_request sm1 (Some 0) = Some (sm2, None) \<and> requests_are sm2 [] (0 # [1..<15])"
proof -
  have act: "sd_isActive (sock demo_open (unat (3 :: u8)) (unat (0 :: u8))) \<noteq> 0"
    using port_owner_Some(4) [OF demo_open_facts(1), of 80 3 0] by (simp add: demo_open_facts)
  have "[0..<15] = 0 # [1..<15]" by (simp add: upt_rec)
  then have req: "requests_are demo_open [] (0 # [1..<15])" using demo_open_facts(4) by (simp only:)
  obtain sm1 where sm1: "setSendBuffer demo_open 3 0 8192 64 0 = Some (0, sm1)" "sm_inv sm1"
    "requests_are sm1 ([] @ 0 # []) [1..<15]"
    by (rule setSendBuffer_filed [OF demo_open_facts(1) _ _ act req, of 64 8192 0]) (use that in auto)
  obtain sm2 where "remove_request sm1 (Some 0) = Some (sm2, None)" "requests_are sm2 [] (0 # [1..<15])"
    using request_list_refinement [OF sm1(2,3)] by auto
  with sm1(1) show ?thesis by blast
qed

text \<open>C19. Draining a send buffer returns what the task wrote: when the buffer holds a sequence of packets in
  the send format, repeating \<open>getTop\<close> and \<open>removeTop\<close> terminates after as many rounds as there are
  packets and yields their destination addresses, ports and payloads in order.\<close>

theorem send_buffer_roundtrip:
  assumes "sm_inv sm" "port_owner sm (unat p) = Some (t, s)" "pkts \<noteq> []" "\<forall>pkt \<in> set pkts. frame_fits pkt"
    and "stored m (sd_sendBuffer (sock sm t s)) (send_stream pkts)"
    and "unat (sd_sendBufferSize (sock sm t s)) = length (send_stream pkts)"
  shows "\<exists>tops. drain_requests (length pkts) sm m p = Some tops \<and> map (packet_view m) tops = pkts"
  using drain_requests_stream [OF assms] .

lemma send_buffer_roundtrip_witness:
  "\<exists>sm tops. drain_requests 2 sm (store_bytes (\<lambda>_. 0) 8192 (send_stream [(1, 2, [3]), (4, 5, [])])) 80 = Some tops \<and>
     map (packet_view (store_bytes (\<lambda>_. 0) 8192 (send_stream [(1, 2, [3]), (4, 5, [])]))) tops = [(1, 2, [3]), (4, 5, [])]"
proof -
  let ?pkts = "[(1, 2, [3]), (4, 5, [])] :: send_packet list"
  let ?m = "store_bytes (\<lambda>_. 0) 8192 (send_stream ?pkts)"
  have act: "sd_isActive (sock demo_open (unat (3 :: u8)) (unat (0 :: u8))) \<noteq> 0"
    using port_owner_Some(4) [OF demo_open_facts(1), of 80 3 0] by (simp add: demo_open_facts)
  have "[0..<15] = 0 # [1..<15]" by (simp add: upt_rec)
  then have req: "requests_are demo_open [] (0 # [1..<15])" using demo_open_facts(4) by (simp only:)
  obtain sm1 where sm1: "sm_inv sm1" "port_owner sm1 = port_owner demo_open"
    "sd_sendBuffer (sock sm1 (unat (3 :: u8)) (unat (0 :: u8))) = 8192"
    "sd_sendBufferSize (sock sm1 (unat (3 :: u8)) (unat (0 :: u8))) = 33"
    by (rule setSendBuffer_filed [OF demo_open_facts(1) _ _ act req, of 33 8192 0]) (use that in auto)
  have len: "length (send_stream ?pkts) = 33" by (simp add: send_stream_def length_send_frame)
  have "\<exists>tops. drain_requests (length ?pkts) sm1 ?m 80 = Some tops \<and> map (packet_view ?m) tops = ?pkts"
    by (rule send_buffer_roundtrip [OF sm1(1), where t = 3 and s = 0])
      (use sm1 len stored_store in \<open>auto simp: demo_open_facts frame_fits_def\<close>)
  moreover have "length ?pkts = 2" by simp
  ultimately have "\<exists>tops. drain_requests 2 sm1 ?m 80 = Some tops \<and> map (packet_view ?m) tops = ?pkts"
    by (simp only:)
  then show ?thesis by (rule exI [of _ sm1])
qed

end
