(* ===== verification/Task_Lifecycle.thy ===== *)
theory Task_Lifecycle
  imports Cpu_Core
begin

text \<open>
  The parts of \<open>setToRunningState\<close> and of the task destructors that touch the task list, as the
  sequence of their single stores, interrupted by task switches at any point. A task that starts or
  ends another one runs only while it is the current task; between two of its stores the timer may
  switch any number of times. The results: no switch ever faults or leaves the list, and once all
  stores are done the lists are those of the uninterrupted operation.
\<close>

subsection \<open>The stores\<close>

definition activation_steps :: "nat \<Rightarrow> TaskDescriptor \<Rightarrow> (CpuCore \<Rightarrow> CpuCore) list" where
  "activation_steps i d =
     [\<lambda>c. c\<lparr>unusedtaskDescriptorElementsListHead := nxt (taskDescriptorListElements c) i\<rparr>,
      \<lambda>c. c\<lparr>taskDescriptorListElements := set_value (taskDescriptorListElements c) i d\<rparr>,
      \<lambda>c. c\<lparr>taskDescriptorListElements := set_next (taskDescriptorListElements c) i (activeTasksListHead c)\<rparr>,
      \<lambda>c. c\<lparr>taskDescriptorListElements := set_prev (taskDescriptorListElements c) i None\<rparr>,
      \<lambda>c. case activeTasksListHead c of None \<Rightarrow> c
          | Some h \<Rightarrow> c\<lparr>taskDescriptorListElements := set_prev (taskDescriptorListElements c) h (Some i)\<rparr>,
      \<lambda>c. c\<lparr>activeTasksListHead := Some i\<rparr>]"

definition deactivation_steps :: "nat \<Rightarrow> (CpuCore \<Rightarrow> CpuCore) list" where
  "deactivation_steps i =
     [\<lambda>c. case prv (taskDescriptorListElements c) i of
            Some p \<Rightarrow> c\<lparr>taskDescriptorListElements :=
              set_next (taskDescriptorListElements c) p (nxt (taskDescriptorListElements c) i)\<rparr>
          | None \<Rightarrow> c\<lparr>activeTasksListHead := nxt (taskDescriptorListElements c) i\<rparr>,
      \<lambda>c. case nxt (taskDescriptorListElements c) i of
            Some n \<Rightarrow> c\<lparr>taskDescriptorListElements :=
              set_prev (taskDescriptorListElements c) n (prv (taskDescriptorListElements c) i)\<rparr>
          | None \<Rightarrow> c,
      \<lambda>c. c\<lparr>taskDescriptorListElements :=
            set_next (taskDescriptorListElements c) i (unusedtaskDescriptorElementsListHead c)\<rparr>,
      \<lambda>c. c\<lparr>unusedtaskDescriptorElementsListHead := Some i\<rparr>]"

definition run_steps :: "(CpuCore \<Rightarrow> CpuCore) list \<Rightarrow> CpuCore \<Rightarrow> CpuCore" where
  "run_steps fs core = fold (\<lambda>f c. f c) fs core"

text \<open>Task \<open>self\<close> executes its next store, or the timer switches tasks.\<close>

inductive kernel_step ::
  "ptr \<Rightarrow> CpuCore \<times> (CpuCore \<Rightarrow> CpuCore) list \<Rightarrow> CpuCore \<times> (CpuCore \<Rightarrow> CpuCore) list \<Rightarrow> bool"
  for self where
  store: "currentTask core = self \<Longrightarrow> kernel_step self (core, f # fs) (f core, fs)"
| switch: "yieldTaskSwitch core esp = Some (core', esp') \<Longrightarrow> kernel_step self (core, fs) (core', fs)"

subsection \<open>What a task switch sees of the lists\<close>

definition links :: "CpuCore \<Rightarrow> nat \<times> (nat \<Rightarrow> ptr) \<times> (nat \<Rightarrow> ptr) \<times> ptr \<times> ptr" where
  "links core = (length (taskDescriptorListElements core), nxt (taskDescriptorListElements core),
     prv (taskDescriptorListElements core), activeTasksListHead core, unusedtaskDescriptorElementsListHead core)"

definition forward :: "CpuCore \<Rightarrow> nat list \<Rightarrow> bool" where
  "forward core L \<longleftrightarrow> seg (nxt (taskDescriptorListElements core)) (activeTasksListHead core) L None \<and>
     set L \<subseteq> {..<length (taskDescriptorListElements core)}"

definition task_in :: "ptr \<Rightarrow> nat list \<Rightarrow> bool" where
  "task_in p L \<longleftrightarrow> (case p of None \<Rightarrow> True | Some t \<Rightarrow> t \<in> set L)"

lemma forward_links: "links c = links c' \<Longrightarrow> forward c L = forward c' L"
  by (simp add: links_def forward_def)

lemma tasks_are_links: "links c = links c' \<Longrightarrow> tasks_are c act fr = tasks_are c' act fr"
  by (simp add: links_def tasks_are_def list_pool_def dlist_def)

lemma tasks_are_forward: "tasks_are core act fr \<Longrightarrow> forward core act"
  using dseg_seg by (auto simp: tasks_are_def list_pool_def dlist_def forward_def)

lemma seg_successor: "seg nx p L None \<Longrightarrow> t \<in> set L \<Longrightarrow> nx t = None \<or> (\<exists>n \<in> set L. nx t = Some n)"
proof (induction L arbitrary: p)
  case (Cons i L)
  show ?case
  proof (cases "t = i")
    case True
    then show ?thesis using Cons.prems by (cases L) auto
  qed (use Cons in auto)
qed simp

lemma yield_keeps_links:
  assumes f: "forward core L" and cur: "task_in (currentTask core) L"
  shows "\<exists>core' esp'. yieldTaskSwitch core esp = Some (core', esp')" (is ?total)
    and "yieldTaskSwitch core esp = Some (core', esp') \<Longrightarrow> links core' = links core \<and> task_in (currentTask core') L"
proof -
  let ?es = "taskDescriptorListElements core"
  have len: "t < length ?es" if "t \<in> set L" for t using f that by (auto simp: forward_def)
  have "?total \<and> (\<forall>core' esp'. yieldTaskSwitch core esp = Some (core', esp') \<longrightarrow>
      links core' = links core \<and> task_in (currentTask core') L)"
  proof (cases "taskSwitchingPaused core \<or> activeTasksListHead core = None")
    case True
    then show ?thesis using cur by (auto simp: yieldTaskSwitch_def split: option.splits)
  next
    case False
    then obtain h where h: "activeTasksListHead core = Some h" "h \<in> set L"
      using f by (cases L) (auto simp: forward_def)
    show ?thesis
    proof (cases "currentTask core")
      case None
      then show ?thesis using False h len by (auto simp: yieldTaskSwitch_def Let_def links_def task_in_def)
    next
      case (Some c)
      then have c: "c \<in> set L" "c < length ?es" using cur len by (auto simp: task_in_def)
      define n where "n = (case dl_next (?es ! c) of None \<Rightarrow> h | Some n \<Rightarrow> n)"
      have "nxt ?es c = None \<or> (\<exists>n \<in> set L. nxt ?es c = Some n)"
        by (rule seg_successor) (use f c(1) in \<open>auto simp: forward_def\<close>)
      then have "n \<in> set L" using h(2) by (auto simp: n_def nxt_def)
      with len have n: "n \<in> set L" "n < length ?es" by blast+
      show ?thesis using False h(1) Some c n
        by (auto simp: yieldTaskSwitch_def n_def [symmetric] Let_def links_def task_in_def)
    qed
  qed
  then show ?total and "yieldTaskSwitch core esp = Some (core', esp') \<Longrightarrow>
      links core' = links core \<and> task_in (currentTask core') L"
    by blast+
qed

subsection \<open>Any interleaving of stores and switches\<close>

definition link_step :: "(CpuCore \<Rightarrow> CpuCore) \<Rightarrow> bool" where
  "link_step f \<longleftrightarrow> (\<forall>c c'. links c = links c' \<longrightarrow> links (f c) = links (f c')) \<and>
     (\<forall>c. currentTask (f c) = currentTask c)"

lemma run_steps_take:
  "k < length fs \<Longrightarrow> run_steps (take (Suc k) fs) core = (fs ! k) (run_steps (take k fs) core)"
  by (simp add: run_steps_def take_Suc_conv_app_nth)

text \<open>\<open>L k\<close> is the list after \<open>k\<close> stores; the interrupted task is in all of them.\<close>

lemma interleaving:
  assumes steps: "(kernel_step self)\<^sup>*\<^sup>* (core0, fs0) (core, fs)"
    and links: "\<And>f. f \<in> set fs0 \<Longrightarrow> link_step f"
    and L: "\<And>k. k \<le> length fs0 \<Longrightarrow> forward (run_steps (take k fs0) core0) (L k) \<and> task_in self (L k)"
    and self: "currentTask core0 = self"
  shows "\<exists>k \<le> length fs0. fs = drop k fs0 \<and> links core = links (run_steps (take k fs0) core0) \<and>
    task_in (currentTask core) (L k)"
  using steps
proof (induction rule: rtranclp_induct2)
  case refl
  then show ?case using L [of 0] self by (intro exI [of _ 0]) (auto simp: run_steps_def)
next
  case (step core fs core' fs')
  then obtain k where k: "k \<le> length fs0" "fs = drop k fs0" "links core = links (run_steps (take k fs0) core0)"
    "task_in (currentTask core) (L k)" by blast
  from step.hyps(2) show ?case
  proof cases
    case (store f)
    have kl: "k < length fs0" using store(1) k(2) by (cases "k < length fs0") auto
    have "fs0 ! k # drop (Suc k) fs0 = f # fs'"
      unfolding Cons_nth_drop_Suc [OF kl] using store(1) k(2) by simp
    then have "f = fs0 ! k" "fs' = drop (Suc k) fs0" by simp_all
    note kl = kl this
    have f: "link_step f" using links kl by simp
    then have "links (f core) = links (f (run_steps (take k fs0) core0))" "currentTask (f core) = currentTask core"
      using k(3) unfolding link_step_def by blast+
    then have "links core' = links (run_steps (take (Suc k) fs0) core0)" "currentTask core' = self"
      using store(2,3) unfolding run_steps_take [OF kl(1)] kl(2) by simp_all
    then show ?thesis using L [of "Suc k"] kl by (intro exI [of _ "Suc k"]) simp
  next
    case (switch esp esp')
    have "forward core (L k)" using L [OF k(1)] forward_links [OF k(3)] by simp
    from yield_keeps_links(2) [OF this k(4) switch(2)] k switch(1) show ?thesis by (intro exI [of _ k]) simp
  qed
qed

lemma nxt_set_next: "nxt (set_next es i p) = (if i < length es then (nxt es)(i := p) else nxt es)"
  by (cases "i < length es") (simp_all, simp add: set_next_def list_update_beyond)

lemma prv_set_prev: "prv (set_prev es i p) = (if i < length es then (prv es)(i := p) else prv es)"
  by (cases "i < length es") (simp_all, simp add: set_prev_def list_update_beyond)

lemma activation_links: "f \<in> set (activation_steps i d) \<Longrightarrow> link_step f"
  by (auto simp: activation_steps_def link_step_def links_def nxt_set_next prv_set_prev
      simp del: nxt_updates(1) prv_updates(1) split: option.splits)

lemma deactivation_links: "f \<in> set (deactivation_steps i) \<Longrightarrow> link_step f"
  by (auto simp: deactivation_steps_def link_step_def links_def nxt_set_next prv_set_prev
      simp del: nxt_updates(1) prv_updates(1) split: option.splits)

subsection \<open>Starting a task\<close>

lemma activate_task_steps:
  assumes "unusedtaskDescriptorElementsListHead core = Some i" "i < length (taskDescriptorListElements core)"
  shows "activate_task core d task = Some (SUCCESS, run_steps (activation_steps i d) core,
    task\<lparr>taskID := int i, task_isRunning := True\<rparr>)"
  using assms
  by (cases "activeTasksListHead core")
    (simp_all add: activate_task_def run_steps_def activation_steps_def dl_push_front_def Let_def nxt_def)

lemma activation_forward:
  assumes t: "tasks_are core act (i # fr)" and k: "k \<le> 6"
  shows "forward (run_steps (take k (activation_steps i d)) core) (if k = 6 then i # act else act)"
proof -
  note l = tasks_are_lists [OF t]
  have i: "i < length (taskDescriptorListElements core)" "i \<notin> set act" using l(4,7) by auto
  have f: "forward core act" by (rule tasks_are_forward [OF t])
  consider "k = 0" | "k = 1" | "k = 2" | "k = 3" | "k = 4" | "k = 5" | "k = 6" using k by linarith
  then show ?thesis
    using f i
    by cases (cases "activeTasksListHead core";
      simp add: run_steps_def activation_steps_def forward_def eval_nat_numeral)+
qed

lemma activation_interleaved:
  assumes t: "tasks_are core0 act (i # fr)" and self: "currentTask core0 = self" "task_in self act"
    and steps: "(kernel_step self)\<^sup>*\<^sup>* (core0, activation_steps i d) (core, fs)"
  shows "\<exists>L. forward core L \<and> task_in (currentTask core) L \<and> (L = act \<or> fs = [] \<and> L = i # act)"
    and "fs = [] \<Longrightarrow> tasks_are core (i # act) fr"
proof -
  let ?fs = "activation_steps i d" and ?L = "\<lambda>k. if k = 6 then i # act else act"
  have len: "length ?fs = 6" by (simp add: activation_steps_def)
  have "\<exists>k \<le> length ?fs. fs = drop k ?fs \<and> links core = links (run_steps (take k ?fs) core0) \<and>
    task_in (currentTask core) (?L k)"
  proof (rule interleaving [OF steps activation_links _ self(1)])
    show "forward (run_steps (take k ?fs) core0) (?L k) \<and> task_in self (?L k)" if "k \<le> length ?fs" for k
      using activation_forward [OF t] that len self(2) by (auto simp: task_in_def split: option.splits)
  qed
  then obtain k where
    k: "k \<le> 6" "fs = drop k ?fs" "links core = links (run_steps (take k ?fs) core0)" "task_in (currentTask core) (?L k)"
    unfolding len by blast
  have "forward core (?L k)" using activation_forward [OF t k(1)] forward_links [OF k(3)] by simp
  moreover have "fs = [] \<longleftrightarrow> k = 6" using k(1,2) len by simp
  ultimately show "\<exists>L. forward core L \<and> task_in (currentTask core) L \<and> (L = act \<or> fs = [] \<and> L = i # act)"
    using k(4) by (intro exI [of _ "?L k"]) simp
  assume "fs = []"
  then have "take k ?fs = ?fs" using k(1,2) len by simp
  then have lk: "links core = links (run_steps ?fs core0)" using k(3) by simp
  have free: "unusedtaskDescriptorElementsListHead core0 = Some i" "i < length (taskDescriptorListElements core0)"
    using tasks_are_lists(2,7) [OF t] by auto
  from activate_task_spec(2) [OF t refl, of d undefined] activate_task_steps [OF free, of d undefined]
  have "tasks_are (run_steps ?fs core0) (i # act) fr" by auto
  then show "tasks_are core (i # act) fr" using tasks_are_links [OF lk] by simp
qed

subsection \<open>Ending a task\<close>

lemma deactivate_task_steps:
  assumes "i < length (taskDescriptorListElements core)" "prv (taskDescriptorListElements core) i \<noteq> Some i"
  shows "deactivate_task core (int i) = Some (run_steps (deactivation_steps i) core)"
  using assms
  by (cases "prv (taskDescriptorListElements core) i"; cases "nxt (taskDescriptorListElements core) i")
    (simp_all add: deactivate_task_def run_steps_def deactivation_steps_def dl_unlink_def Let_def nxt_def prv_def
      set_next_def set_prev_def nth_list_update split: option.splits)

lemma deactivation_forward:
  assumes t: "tasks_are core (is @ i # js) fr" and k: "k \<le> 4"
  shows "forward (run_steps (take k (deactivation_steps i)) core) (if k = 0 then is @ i # js else is @ js)"
proof -
  let ?es = "taskDescriptorListElements core" and ?h = "activeTasksListHead core"
  let ?u = "dl_unlink ?es ?h i"
  have d: "dlist ?es ?h (is @ i # js)" using t by (simp add: tasks_are_def list_pool_def)
  have i: "i < length ?es" "i \<notin> set (is @ js)" using d by (auto simp: dlist_def)
  have "dlist (fst ?u) (snd ?u) (is @ js)" by (rule dlist_unlink [OF d])
  then have u: "seg (nxt (fst ?u)) (snd ?u) (is @ js) None" "set (is @ js) \<subseteq> {..<length ?es}"
    using dseg_seg by (auto simp: dlist_def)
  define c1 where "c1 = (deactivation_steps i ! 0) core"
  have c1: "nxt (taskDescriptorListElements c1) = nxt (fst ?u)" "activeTasksListHead c1 = snd ?u"
    "length (taskDescriptorListElements c1) = length ?es"
    by (simp_all add: c1_def deactivation_steps_def dl_unlink_unfold split: option.split)
  define c2 where "c2 = (deactivation_steps i ! 1) c1"
  have c2: "nxt (taskDescriptorListElements c2) = nxt (fst ?u)" "activeTasksListHead c2 = snd ?u"
    "length (taskDescriptorListElements c2) = length ?es"
    using c1 by (simp_all add: c2_def deactivation_steps_def split: option.split)
  define c3 where "c3 = (deactivation_steps i ! 2) c2"
  have c3: "nxt (taskDescriptorListElements c3) = (nxt (fst ?u))(i := unusedtaskDescriptorElementsListHead c2)"
    "activeTasksListHead c3 = snd ?u" "length (taskDescriptorListElements c3) = length ?es"
    using c2 i by (simp_all add: c3_def deactivation_steps_def)
  define c4 where "c4 = (deactivation_steps i ! 3) c3"
  have c4: "nxt (taskDescriptorListElements c4) = nxt (taskDescriptorListElements c3)"
    "activeTasksListHead c4 = snd ?u" "length (taskDescriptorListElements c4) = length ?es"
    using c3 by (simp_all add: c4_def deactivation_steps_def)
  have take0: "run_steps (take 0 (deactivation_steps i)) core = core" by (simp add: run_steps_def)
  have runs: "run_steps (take 1 (deactivation_steps i)) core = c1" "run_steps (take 2 (deactivation_steps i)) core = c2"
    "run_steps (take 3 (deactivation_steps i)) core = c3" "run_steps (take 4 (deactivation_steps i)) core = c4"
    by (simp_all add: run_steps_def deactivation_steps_def c4_def c3_def c2_def c1_def eval_nat_numeral)
  consider "k = 0" | "k = 1" | "k = 2" | "k = 3" | "k = 4" using k by linarith
  then show ?thesis
  proof cases
    case 1
    then show ?thesis using take0 tasks_are_forward [OF t] by simp
  qed (use runs u c1 c2 c3 c4 i in \<open>simp_all add: forward_def\<close>)
qed

lemma deactivation_interleaved:
  assumes t: "tasks_are core0 (is @ i # js) fr"
    and self: "currentTask core0 = self" "task_in self (is @ js)"
    and steps: "(kernel_step self)\<^sup>*\<^sup>* (core0, deactivation_steps i) (core, fs)"
  shows "\<exists>L. forward core L \<and> task_in (currentTask core) L \<and>
      (if length fs = 4 then L = is @ i # js else L = is @ js)"
    and "fs = [] \<Longrightarrow> tasks_are core (is @ js) (i # fr)"
proof -
  let ?fs = "deactivation_steps i" and ?L = "\<lambda>k. if k = 0 then is @ i # js else is @ js"
  have len: "length ?fs = 4" by (simp add: deactivation_steps_def)
  have "\<exists>k \<le> length ?fs. fs = drop k ?fs \<and> links core = links (run_steps (take k ?fs) core0) \<and>
    task_in (currentTask core) (?L k)"
  proof (rule interleaving [OF steps deactivation_links _ self(1)])
    show "forward (run_steps (take k ?fs) core0) (?L k) \<and> task_in self (?L k)" if "k \<le> length ?fs" for k
      using deactivation_forward [OF t] that len self(2) by (auto simp: task_in_def split: option.splits)
  qed
  then obtain k where
    k: "k \<le> 4" "fs = drop k ?fs" "links core = links (run_steps (take k ?fs) core0)" "task_in (currentTask core) (?L k)"
    unfolding len by blast
  have "forward core (?L k)" using deactivation_forward [OF t k(1)] forward_links [OF k(3)] by simp
  moreover have "length fs = 4 \<longleftrightarrow> k = 0" using k(1,2) len by auto
  ultimately show "\<exists>L. forward core L \<and> task_in (currentTask core) L \<and>
      (if length fs = 4 then L = is @ i # js else L = is @ js)"
    using k(4) by (intro exI [of _ "?L k"]) simp
  assume "fs = []"
  then have "take k ?fs = ?fs" using k(1,2) len by simp
  then have lk: "links core = links (run_steps ?fs core0)" using k(3) by simp
  have d: "dlist (taskDescriptorListElements core0) (activeTasksListHead core0) (is @ i # js)"
    using t by (simp add: tasks_are_def list_pool_def)
  then have "i < length (taskDescriptorListElements core0)" "i \<notin> set is" by (auto simp: dlist_def)
  moreover have "prv (taskDescriptorListElements core0) i \<noteq> Some i"
    using dlist_split(2) [OF d] \<open>i \<notin> set is\<close> by (cases "is" rule: rev_cases) auto
  ultimately have "deactivate_task core0 (int i) = Some (run_steps ?fs core0)" by (intro deactivate_task_steps)
  with deactivate_task_spec [OF t] have "tasks_are (run_steps ?fs core0) (is @ js) (i # fr)" by auto
  then show "tasks_are core (is @ js) (i # fr)" using tasks_are_links [OF lk] by simp
qed

end
