(* ===== verification/Task_Properties.thy ===== *)
theory Task_Properties
  imports Task_Lifecycle Socket_Properties Page_Properties
begin

text \<open>
  The properties of the scheduler and of the life cycle of tasks, each with an instance on a core
  with two kernel tasks.
\<close>

subsection \<open>A concrete core\<close>

definition demo_kernel_task :: "u32 \<Rightarrow> Task" where
  "demo_kernel_task esp = \<lparr>taskID = -1, task_isRunning = False, updatedKernelStack = esp,
     task_kind = KernelTask 0x400000\<rparr>"

definition fresh_core :: CpuCore where
  "fresh_core = CpuCore_new 0x200000 0x200000
     (replicate 50 \<lparr>dl_value = blank_descriptor, dl_next = None, dl_prev = Some 7\<rparr>)"

definition core_one :: CpuCore where
  "core_one = fst (snd (the (KernelTask_setToRunningState fresh_core 10 (demo_kernel_task 0x111))))"

definition core_two :: CpuCore where
  "core_two = (fst (snd (the (KernelTask_setToRunningState core_one 11 (demo_kernel_task 0x222)))))
     \<lparr>currentTask := Some 1\<rparr>"

lemma start_kernel_task:
  assumes "tasks_are core act (i # fr)"
  shows "\<exists>core'. KernelTask_setToRunningState core self (demo_kernel_task esp) =
      Some (SUCCESS, core', (demo_kernel_task esp)\<lparr>taskID := int i, task_isRunning := True\<rparr>) \<and>
    tasks_are core' (i # act) fr \<and> currentTask core' = currentTask core"
  using activate_task_spec(2) [OF assms refl,
      where task = "demo_kernel_task esp" and d = "\<lparr>td_pTask = Some self, td_taskEsp = esp,
        td_kernelEspStackBegin = 0x40FFFC, td_pageDirectoryPhysicalAddr = cr3 core\<rparr>"]
  by (auto simp: KernelTask_setToRunningState_def demo_kernel_task_def)

lemma core_one_tasks: "tasks_are core_one [0] [1..<50]" "currentTask core_one = None"
proof -
  have "[0..<50] = 0 # [1..<50::nat]" by code_simp
  then have "tasks_are fresh_core [] (0 # [1..<50])" using CpuCore_new_tasks by (simp add: fresh_core_def)
  from start_kernel_task [OF this, where self = 10 and esp = "0x111"] show "tasks_are core_one [0] [1..<50]" "currentTask core_one = None"
    by (auto simp: core_one_def fresh_core_def CpuCore_new_def)
qed

lemma core_two_tasks:
  "tasks_are core_two [1, 0] [2..<50]" "currentTask core_two = Some 1" "\<not> taskSwitchingPaused core_two"
proof -
  have "[1..<50] = 1 # [2..<50::nat]" by code_simp
  then have "tasks_are core_one [0] (1 # [2..<50])" using core_one_tasks by simp
  from start_kernel_task [OF this, where self = 11 and esp = "0x222"] show "tasks_are core_two [1, 0] [2..<50]" "currentTask core_two = Some 1"
    by (auto simp: core_two_def tasks_are_def)
  show "\<not> taskSwitchingPaused core_two"
    by (simp add: core_two_def core_one_def fresh_core_def KernelTask_setToRunningState_def demo_kernel_task_def
        CpuCore_new_def activate_task_def dl_push_front_def Let_def)
qed

subsection \<open>Round robin\<close>

text \<open>C24. The timer serves the tasks of the active list in turn: \<open>j\<close> switches after the task at position \<open>k\<close>
  was interrupted, the task at position \<open>k + j\<close> (modulo the number of tasks) runs, for every \<open>j\<close>. So a
  task waits for at most one round, and when the round is over it continues with exactly the stack
  pointer and the page directory it was interrupted with.\<close>

theorem round_robin:
  assumes "tasks_are core act fr" "k < length act" "currentTask core = Some (act ! k)"
    and "1 < length act" "\<not> taskSwitchingPaused core"
  shows "(\<exists>core' esp. yields esps j core = Some (core', esp) \<and> tasks_are core' act fr \<and>
      currentTask core' = Some (act ! ((k + j) mod length act))) \<and>
    (\<exists>core'. yields esps (length act) core = Some (core', esps 0) \<and> currentTask core' = Some (act ! k) \<and>
      cr3 core' = cr3 core)"
proof -
  obtain core1 esp1 where "yields esps j core = Some (core1, esp1)" "tasks_are core1 act fr"
    "currentTask core1 = Some (act ! ((k + j) mod length act))"
    using yields_rotate [OF assms, of esps j] by (elim exE conjE) (rule that)
  moreover obtain core2 esp2 where c2: "yields esps (length act) core = Some (core2, esp2)"
    "currentTask core2 = Some (act ! ((k + length act) mod length act))"
    "0 < length act \<longrightarrow> length act \<le> length act \<longrightarrow>
      td_taskEsp (desc core2 (act ! k)) = esps 0 \<and> td_pageDirectoryPhysicalAddr (desc core2 (act ! k)) = cr3 core \<and>
      (length act = length act \<longrightarrow> esp2 = esps 0 \<and> cr3 core2 = cr3 core)"
    using yields_rotate [OF assms, of esps "length act"] by (elim exE conjE) (rule that)
  moreover have "0 < length act" using assms(2) by (cases act) auto
  ultimately show ?thesis using assms(2) by auto
qed

lemma round_robin_witness:
  "\<exists>core'. yields (\<lambda>j. if j = 0 then 0xABC else 0xDEF) 2 core_two = Some (core', 0xABC) \<and> currentTask core' = Some 1"
  using round_robin [OF core_two_tasks(1), of 0 "\<lambda>j. if j = 0 then 0xABC else 0xDEF" 0] core_two_tasks(2,3)
  by (auto simp: eval_nat_numeral)

subsection \<open>Starting and ending tasks while the timer runs\<close>

text \<open>C25. While one task starts another, the timer may switch tasks between any two stores of
  \<open>setToRunningState\<close>. At every point the list a switch walks is the old list of active tasks (or, after
  the last store, the new one), the current task is on it and a switch does not fault; after the
  last store the lists are exactly those of the uninterrupted operation.\<close>

theorem activation_safe:
  assumes "tasks_are core0 act (i # fr)" "currentTask core0 = self" "task_in self act"
    and "(kernel_step self)\<^sup>*\<^sup>* (core0, activation_steps i d) (core, fs)"
  shows "(\<exists>L. forward core L \<and> task_in (currentTask core) L \<and> (L = act \<or> fs = [] \<and> L = i # act)) \<and>
    (\<forall>esp. \<exists>core' esp'. yieldTaskSwitch core esp = Some (core', esp')) \<and>
    (fs = [] \<longrightarrow> tasks_are core (i # act) fr)"
  using activation_interleaved [OF assms] yield_keeps_links(1) by metis

lemma activation_safe_witness:
  "\<exists>core. (kernel_step (Some 1))\<^sup>*\<^sup>* (core_two, activation_steps 2 blank_descriptor) (core, []) \<and>
     tasks_are core [2, 1, 0] [3..<50]"
proof -
  have "[2..<50] = 2 # [3..<50::nat]" by code_simp
  then have t: "tasks_are core_two [1, 0] (2 # [3..<50])" using core_two_tasks by simp
  have run: "currentTask c = Some 1 \<Longrightarrow> (\<And>f c. f \<in> set fs \<Longrightarrow> currentTask (f c) = currentTask c) \<Longrightarrow>
      (kernel_step (Some 1))\<^sup>*\<^sup>* (c, fs) (run_steps fs c, [])" for c fs
  proof (induction fs arbitrary: c)
    case (Cons f fs)
    then have "(kernel_step (Some 1))\<^sup>*\<^sup>* (f c, fs) (run_steps fs (f c), [])" by simp
    with kernel_step.store [OF Cons.prems(1), of f fs] show ?case
      by (simp add: run_steps_def converse_rtranclp_into_rtranclp)
  qed (simp add: run_steps_def)
  have "(kernel_step (Some 1))\<^sup>*\<^sup>* (core_two, activation_steps 2 blank_descriptor)
      (run_steps (activation_steps 2 blank_descriptor) core_two, [])"
    using core_two_tasks(2) activation_links unfolding link_step_def by (intro run) blast+
  from this activation_safe [OF t core_two_tasks(2) _ this] show ?thesis by (auto simp: task_in_def)
qed

text \<open>C30. The same for the destructors: from the first store on no switch can reach the ending task, whatever
  the interleaving, provided it does not end itself (the current task \<open>self\<close> is another one).\<close>

theorem deactivation_safe:
  assumes "tasks_are core0 (is @ i # js) fr" "currentTask core0 = self" "task_in self (is @ js)"
    and "(kernel_step self)\<^sup>*\<^sup>* (core0, deactivation_steps i) (core, fs)"
  shows "(\<exists>L. forward core L \<and> task_in (currentTask core) L \<and>
      (if length fs = 4 then L = is @ i # js else L = is @ js)) \<and>
    (\<forall>esp. \<exists>core' esp'. yieldTaskSwitch core esp = Some (core', esp')) \<and>
    (fs = [] \<longrightarrow> tasks_are core (is @ js) (i # fr))"
  using deactivation_interleaved [OF assms] yield_keeps_links(1) by metis

lemma deactivation_safe_witness:
  "\<exists>core core1 esp1. (kernel_step (Some 1))\<^sup>*\<^sup>* (core_two, deactivation_steps 0) (core, drop 1 (deactivation_steps 0)) \<and>
     forward core [1] \<and> yieldTaskSwitch core 5 = Some (core1, esp1)"
proof -
  have t: "tasks_are core_two ([1] @ 0 # []) [2..<50]" using core_two_tasks by simp
  have split: "deactivation_steps 0 = (deactivation_steps 0 ! 0) # drop 1 (deactivation_steps 0)"
    by (simp add: deactivation_steps_def)
  have "kernel_step (Some 1) (core_two, (deactivation_steps 0 ! 0) # drop 1 (deactivation_steps 0))
      ((deactivation_steps 0 ! 0) core_two, drop 1 (deactivation_steps 0))"
    by (rule kernel_step.store [OF core_two_tasks(2)])
  then have "(kernel_step (Some 1))\<^sup>*\<^sup>* (core_two, deactivation_steps 0)
      ((deactivation_steps 0 ! 0) core_two, drop 1 (deactivation_steps 0))"
    using split by auto
  from this deactivation_safe [OF t core_two_tasks(2) _ this] show ?thesis
    by (force simp: task_in_def deactivation_steps_def)
qed

subsection \<open>What a task leaves behind\<close>

lemma page_address_nonzero: "0 < s \<Longrightarrow> s < 1047552 \<Longrightarrow> page_address s \<noteq> 0"
  using page_address_inj [of s 0] by (auto simp: page_address_def)

text \<open>Destroying a running task takes it off the list of active tasks, releases exactly the ports it
  owned, and frees exactly the pages of its memory; the tasks, ports and regions of others stay.\<close>

theorem destroy_task_correct:
  assumes "tasks_are core (is @ i # js) fr" "sm_inv sm" "pa_inv pages" "region pages s n" "0 < s"
    and "task_memory task = page_address s" "taskID task = int i" "task_isRunning task"
  shows "\<exists>core' sm' pages'. destroy_task core sm pages task = Some (core', sm', pages') \<and>
    tasks_are core' (is @ js) (i # fr) \<and> sm_inv sm' \<and>
    (\<forall>p. port_owner sm' p =
      (case port_owner sm p of None \<Rightarrow> None | Some (t, k) \<Rightarrow> if t = i then None else Some (t, k))) \<and>
    pa_inv pages' \<and> allocated pages' = allocated pages - {s..<s + n} \<and>
    (\<forall>t k. region pages t k \<longrightarrow> {t..<t + k} \<inter> {s..<s + n} = {} \<longrightarrow> region pages' t k)"
proof -
  have i: "i < 50" using tasks_are_lists(8) [OF assms(1), of i] by simp
  then have u: "unat (of_nat i :: u8) = i" by (simp add: unat_of_nat_u8)
  obtain core' where core': "deactivate_task core (int i) = Some core'" "tasks_are core' (is @ js) (i # fr)"
    using deactivate_task_spec [OF assms(1)] by blast
  obtain sm' where sm': "closeAllSocketsForTask sm (of_nat i) = Some sm'" "sm_inv sm'"
    "port_owner sm' = (\<lambda>p. case port_owner sm p of None \<Rightarrow> None
       | Some (t', k) \<Rightarrow> if t' = unat (of_nat i :: u8) then None else Some (t', k))"
    by (rule closeAllSocketsForTask_spec [OF assms(2), of "of_nat i"]) (use u i in auto)
  have "s < 1047552" using assms(4) by (simp add: region_def)
  with assms(5,6) page_address_nonzero have mem: "task_memory task \<noteq> 0" by simp
  let ?pages = "freeContiguousPages pages (page_address s)"
  have "destroy_task core sm pages task = Some (core', sm', ?pages)"
    using core'(1) sm'(1) mem assms(6-8) by (simp add: destroy_task_def)
  moreover note core'(2) sm'(2) sm'(3) [unfolded u]
    kernel_pages.free_inv [OF assms(3,4)] kernel_pages.free_used [OF assms(3,4)] kernel_pages.free_live [OF assms(3,4)]
  ultimately show ?thesis by (intro exI [of _ core'] exI [of _ sm'] exI [of _ ?pages]) simp
qed

lemma destroy_task_correct_witness:
  "\<exists>pages core' sm' pages'. region pages 1024 16 \<and>
     destroy_task core_two demo_sm pages
       ((demo_kernel_task 0x111)\<lparr>taskID := 0, task_isRunning := True\<rparr>) = Some (core', sm', pages') \<and>
     tasks_are core' [1] (0 # [2..<50]) \<and> allocated pages' = {} \<and> port_owner sm' 80 = Some (3, 0)"
proof -
  let ?t = "(demo_kernel_task 0x111)\<lparr>taskID := 0, task_isRunning := True\<rparr>"
  have t: "tasks_are core_two ([1] @ 0 # []) [2..<50]" using core_two_tasks by simp
  have "free_run demo_pages 1024 (1024 + 16)" using demo_pages_inv(2) by (auto simp: free_run_def allocated_def)
  then obtain pages where
    p: "pa_inv pages" "region pages 1024 16" "allocated pages = allocated demo_pages \<union> {1024..<1024 + 16}"
    by (rule allocated_region [OF demo_pages_inv(1), rotated]) (rule that, assumption+, simp)
  have mem: "task_memory ?t = page_address 1024" "taskID ?t = int 0" "task_isRunning ?t"
    by (simp_all add: task_memory_def demo_kernel_task_def page_address_def)
  from destroy_task_correct [OF t demo_facts(1) p(1,2) _ mem] obtain core' sm' pages' where
    "destroy_task core_two demo_sm pages ?t = Some (core', sm', pages')" "tasks_are core' [1] (0 # [2..<50])"
    "port_owner sm' 80 = (case port_owner demo_sm 80 of None \<Rightarrow> None | Some (t, k) \<Rightarrow> if t = 0 then None else Some (t, k))"
    "allocated pages' = allocated pages - {1024..<1024 + 16}"
    by auto
  with p demo_pages_inv(2) demo_facts(2) show ?thesis by (intro exI [of _ pages] exI) auto
qed

text \<open>Starting a task that was set up and not yet started succeeds exactly while a descriptor is unused
  (fifty tasks); it then gets the number of the first unused descriptor, which holds its entry stack
  pointer and page directory, and comes first in the list of active tasks. Starting it again or
  without memory is refused and changes nothing.\<close>

theorem start_task_correct:
  assumes "tasks_are core act fr"
  shows "(task_isRunning task \<longrightarrow> KernelTask_setToRunningState core self task = Some (TASK_ALREADY_RUNNING, core, task)) \<and>
    (\<not> task_isRunning task \<longrightarrow> task_kind task = KernelTask 0 \<longrightarrow>
      KernelTask_setToRunningState core self task = Some (TASK_NOT_PROPERLY_INITIALIZED, core, task)) \<and>
    (\<not> task_isRunning task \<longrightarrow> task_kind task = KernelTask stack \<longrightarrow> stack \<noteq> 0 \<longrightarrow>
      (case fr of
        [] \<Rightarrow> length act = 50 \<and> KernelTask_setToRunningState core self task = Some (TOO_MANY_TASKS, core, task)
      | i # fr' \<Rightarrow> \<exists>core'. KernelTask_setToRunningState core self task =
            Some (SUCCESS, core', task\<lparr>taskID := int i, task_isRunning := True\<rparr>) \<and>
          tasks_are core' (i # act) fr' \<and> currentTask core' = currentTask core \<and>
          desc core' i = \<lparr>td_pTask = Some self, td_taskEsp = updatedKernelStack task,
            td_kernelEspStackBegin = stack + 0xFFFC, td_pageDirectoryPhysicalAddr = cr3 core\<rparr>))"
proof (intro conjI impI)
  assume "task_isRunning task"
  then show "KernelTask_setToRunningState core self task = Some (TASK_ALREADY_RUNNING, core, task)"
    by (simp add: KernelTask_setToRunningState_def)
next
  assume "\<not> task_isRunning task" "task_kind task = KernelTask 0"
  then show "KernelTask_setToRunningState core self task = Some (TASK_NOT_PROPERLY_INITIALIZED, core, task)"
    by (simp add: KernelTask_setToRunningState_def)
next
  assume a: "\<not> task_isRunning task" "task_kind task = KernelTask stack" "stack \<noteq> 0"
  let ?d = "\<lparr>td_pTask = Some self, td_taskEsp = updatedKernelStack task,
    td_kernelEspStackBegin = stack + 0xFFFC, td_pageDirectoryPhysicalAddr = cr3 core\<rparr>"
  have eq: "KernelTask_setToRunningState core self task = activate_task core ?d task"
    using a by (simp add: KernelTask_setToRunningState_def add_diff_eq [symmetric])
  show "case fr of
        [] \<Rightarrow> length act = 50 \<and> KernelTask_setToRunningState core self task = Some (TOO_MANY_TASKS, core, task)
      | i # fr' \<Rightarrow> \<exists>core'. KernelTask_setToRunningState core self task =
            Some (SUCCESS, core', task\<lparr>taskID := int i, task_isRunning := True\<rparr>) \<and>
          tasks_are core' (i # act) fr' \<and> currentTask core' = currentTask core \<and> desc core' i = ?d"
  proof (cases fr)
    case Nil
    then show ?thesis
      using activate_task_spec(1) [OF assms Nil] tasks_are_lists(5) [OF assms] by (simp add: eq)
  next
    case (Cons i fr')
    then show ?thesis using activate_task_spec(2) [OF assms Cons, of ?d task] by (auto simp: eq)
  qed
qed

lemma start_task_correct_witness:
  "\<exists>core'. KernelTask_setToRunningState core_two 12 (demo_kernel_task 0x333) =
     Some (SUCCESS, core', (demo_kernel_task 0x333)\<lparr>taskID := 2, task_isRunning := True\<rparr>) \<and>
   tasks_are core' [2, 1, 0] [3..<50]"
proof -
  have "[2..<50] = 2 # [3..<50::nat]" by code_simp
  then have t: "tasks_are core_two [1, 0] (2 # [3..<50])" using core_two_tasks by simp
  have "\<not> task_isRunning (demo_kernel_task 0x333)" "task_kind (demo_kernel_task 0x333) = KernelTask 0x400000"
    by (simp_all add: demo_kernel_task_def)
  with start_task_correct [OF t, of "demo_kernel_task 0x333" 12 "0x400000"] show ?thesis by auto
qed

end
