(* ===== verification/Socket_Steps.thy ===== *)
theory Socket_Steps
  imports Socket_Delivery
begin

text \<open>
  The socket manager in use: deliveries, system calls of any task and the work of the network task on the transmission requests, in any order.
  Whatever happens between, a socket writes received packets only into the receive buffer that was last installed for it.
\<close>

subsection \<open>What an operation does to the receive buffers\<close>

definition receive_part :: "SocketManager \<Rightarrow> nat \<Rightarrow> nat \<Rightarrow> u32 \<times> u32" where
  "receive_part sm t s = (sd_receiveBuffer (sock sm t s), sd_receiveBufferSize (sock sm t s))"

definition harmless :: "SocketManager \<Rightarrow> SocketManager \<Rightarrow> bool" where
  "harmless sm sm' \<longleftrightarrow> sm_inv sm' \<and> receive_part sm' = receive_part sm"

lemma harmless_refl: "sm_inv sm \<Longrightarrow> harmless sm sm"
  by (simp add: harmless_def)

lemma harmless_put:
  assumes "sm_inv sm" "t < 50" "s < 10" "sd_isActive d = sd_isActive (sock sm t s)" "sd_udpPort d = sd_udpPort (sock sm t s)"
    "sd_receiveBuffer d = sd_receiveBuffer (sock sm t s)" "sd_receiveBufferSize d = sd_receiveBufferSize (sock sm t s)"
  shows "harmless sm (put_sock sm t s d)"
  using assms sm_inv_put_modify [OF assms(1-5)] sm_invD(1) [OF assms(1)]
  by (auto simp: harmless_def receive_part_def fun_eq_iff)

lemma request_update:
  assumes inv: "sm_inv sm" and r: "request_socket sm p = Some (Some (t, s, d))" and set: "set_socket sm t s d' = Some sm'"
    and d': "sd_isActive d' = sd_isActive d" "sd_udpPort d' = sd_udpPort d" "sd_receiveBuffer d' = sd_receiveBuffer d"
      "sd_receiveBufferSize d' = sd_receiveBufferSize d"
  shows "harmless sm sm'"
proof -
  note i = sm_invD [OF inv]
  have p: "unat p < 9000" "ps_isActive (port sm (unat p)) \<noteq> 0" "t = ps_taskID (port sm (unat p))" "s = ps_socketID (port sm (unat p))"
    "get_socket sm t s = Some d"
    using r i(1) by (auto simp: request_socket_def arr_simps sm_shape_def port_def Option.bind_eq_Some_conv split: if_splits)
  then have ts: "unat t < 50" "unat s < 10" using ports_agree_portD [OF i(2) p(1,2)] by simp_all
  have "d = sock sm (unat t) (unat s)" using p(5) get_socket_in [OF i(1) ts] by simp
  then show ?thesis using set set_socket_in [OF i(1) ts, of d'] harmless_put [OF inv ts, of d'] d' by simp
qed

text \<open>The work of the network task on a transmission request.\<close>

lemma request_harmless:
  assumes inv: "sm_inv sm"
  shows "updateTop sm p off ident = Some sm' \<Longrightarrow> harmless sm sm'" "removeTop sm m p = Some (b, sm') \<Longrightarrow> harmless sm sm'"
    "indicateAsFinished sm m p = Some (sm', m') \<Longrightarrow> harmless sm sm'"
proof -
  have "(updateTop sm p off ident = Some sm' \<longrightarrow> harmless sm sm') \<and> (removeTop sm m p = Some (b, sm') \<longrightarrow> harmless sm sm') \<and>
    (indicateAsFinished sm m p = Some (sm', m') \<longrightarrow> harmless sm sm')"
  proof (cases "request_socket sm p")
    case (Some r)
    show ?thesis
    proof (cases r)
      case None
      then show ?thesis using Some harmless_refl [OF inv] by (auto simp: updateTop_def removeTop_def indicateAsFinished_def)
    next
      case (Some tsd)
      obtain t s d where r: "request_socket sm p = Some (Some (t, s, d))" using Some \<open>request_socket sm p = Some r\<close> by (cases tsd) simp
      note up = request_update [OF inv r]
      have "updateTop sm p off ident = Some sm' \<Longrightarrow> harmless sm sm'"
        using harmless_refl [OF inv] up by (auto simp: updateTop_def r split: if_splits)
      moreover have "removeTop sm m p = Some (b, sm') \<Longrightarrow> harmless sm sm'"
        using harmless_refl [OF inv] up by (auto simp: removeTop_def r Let_def Option.bind_eq_Some_conv split: if_splits)
      moreover have "indicateAsFinished sm m p = Some (sm', m') \<Longrightarrow> harmless sm sm'"
        using up by (auto simp: indicateAsFinished_def r Let_def Option.bind_eq_Some_conv)
      ultimately show ?thesis by blast
    qed
  qed (simp add: updateTop_def removeTop_def indicateAsFinished_def)
  then show "updateTop sm p off ident = Some sm' \<Longrightarrow> harmless sm sm'" "removeTop sm m p = Some (b, sm') \<Longrightarrow> harmless sm sm'"
    "indicateAsFinished sm m p = Some (sm', m') \<Longrightarrow> harmless sm sm'" by blast+
qed

lemma closeSocket_harmless:
  assumes "sm_inv sm" "unat t < 50" "closeSocket sm t s = Some sm'"
  shows "harmless sm sm'"
proof (rule closeSocket_cases [OF assms(1,2), where s = s], goal_cases)
  case 1
  then show ?case using assms harmless_refl by simp
next
  case (2 p)
  note i = sm_invD(1) [OF assms(1)] and c = sm_inv_put_close(1) [OF assms(1,2) 2(1,2,3)]
  have sm': "sm' = put_sock (put_port sm p ((port sm p)\<lparr>ps_isActive := 0\<rparr>)) (unat t) (unat s) ((sock sm (unat t) (unat s))\<lparr>sd_isActive := 0\<rparr>)"
    using assms(3) 2(4) by simp
  have "sock sm' = (sock sm)(unat t := (sock sm (unat t))(unat s := (sock sm (unat t) (unat s))\<lparr>sd_isActive := 0\<rparr>))"
    unfolding sm' using i assms(2) 2(1) by simp
  then show ?case using c by (auto simp: harmless_def receive_part_def sm' [symmetric] fun_eq_iff)
qed

lemma set_socket_sock:
  assumes "set_socket sm t s d = Some sm'"
  shows "sock sm' t' s' = (if t' = unat t \<and> s' = unat s then d else sock sm t' s')"
  using assms by (auto simp: set_socket_def sock_def arr_simps Option.bind_eq_Some_conv nth_list_update)

text \<open>A new socket has no receive buffer.\<close>

lemma openSocket_parts:
  assumes "sm_inv sm" "unat t < 50" "openSocket sm t p = Some (r, sm')"
  shows "sm_inv sm'" "receive_part sm' t' s' = receive_part sm t' s' \<or> receive_part sm' t' s' = (0, 0)"
proof -
  note shape = sm_invD(1) [OF assms(1)]
  show "sm_inv sm'"
  proof (cases "unat p < 9000 \<and> port_owner sm (unat p) = None \<and> (\<exists>s < 10. sd_isActive (sock sm (unat t) s) = 0)")
    case True
    let ?P = "\<lambda>s. s < 10 \<and> sd_isActive (sock sm (unat t) s) = 0"
    have "\<exists>s. ?P s" using True by blast
    then obtain s where s: "?P s" "\<forall>j < s. \<not> ?P j" unfolding exists_least_iff [of ?P] by blast
    then have "\<forall>j < s. sd_isActive (sock sm (unat t) j) \<noteq> 0" by auto
    then obtain sm1 where "openSocket sm t p = Some (int s, sm1)" "sm_inv sm1"
      by (rule openSocket_granted [OF assms(1,2), rotated 4, of s p]) (use True s that in auto)
    then show ?thesis using assms(3) by simp
  next
    case False
    then have "openSocket sm t p = Some (-1, sm)" using assms by (intro openSocket_refused) auto
    then show ?thesis using assms(1,3) by simp
  qed
  show "receive_part sm' t' s' = receive_part sm t' s' \<or> receive_part sm' t' s' = (0, 0)"
  proof (cases "sm' = sm")
    case False
    then obtain i d st sm1 where w: "set_socket sm t i d = Some sm1" "set_port sm1 p st = Some sm'" "sd_receiveBuffer d = 0" "sd_receiveBufferSize d = 0"
      using assms(3) unfolding openSocket_def by (auto simp: Option.bind_eq_Some_conv split: if_splits option.splits)
    have "sock sm' = sock sm1" using w(2) by (auto simp: set_port_def sock_def fun_eq_iff Option.bind_eq_Some_conv)
    then show ?thesis using set_socket_sock [OF w(1), of t' s'] w(3,4) by (simp add: receive_part_def)
  qed simp
qed

lemma setReceiveBuffer_parts:
  assumes "sm_inv sm" "unat t < 50" "setReceiveBuffer sm t s buf n = Some (r, sm')" "(unat t, unat s) \<noteq> (t', s')"
  shows "sm_inv sm'" "receive_part sm' t' s' = receive_part sm t' s'"
  using setReceiveBuffer_spec [OF assms(1,2), of s n buf] assms(3,4) by (auto simp: receive_part_def split: if_splits)

lemma set_socket_parts:
  assumes "set_socket X t s d' = Some sm'" "socketDescs X = socketDescs sm" "get_socket sm t s \<noteq> None"
    "sd_receiveBuffer d' = sd_receiveBuffer (the (get_socket sm t s))" "sd_receiveBufferSize d' = sd_receiveBufferSize (the (get_socket sm t s))"
  shows "receive_part sm' = receive_part sm"
proof -
  have "the (get_socket sm t s) = sock sm (unat t) (unat s)" using assms(3) by (auto simp: get_socket_def sock_def arr_simps Option.bind_eq_Some_conv)
  moreover have "sock X = sock sm" using assms(2) by (simp add: sock_def fun_eq_iff)
  ultimately show ?thesis using set_socket_sock [OF assms(1)] assms(4,5) by (auto simp: receive_part_def fun_eq_iff)
qed

lemma setSendBuffer_harmless:
  assumes "sm_inv sm" "unat t < 50" "setSendBuffer sm t s buf n ind = Some (r, sm')"
  shows "harmless sm sm'"
proof -
  have "sm_inv sm'"
  proof (cases "10 \<le> unat s \<or> sd_isActive (sock sm (unat t) (unat s)) = 0 \<or> unat n < 16 \<and> (n \<noteq> 0 \<or> buf \<noteq> 0 \<or> ind \<noteq> 0)")
    case True
    then show ?thesis using setSendBuffer_rejected [OF assms(1,2) True] assms by simp
  next
    case False
    then have s: "unat s < 10" "sd_isActive (sock sm (unat t) (unat s)) \<noteq> 0" by auto
    obtain act fr where req: "requests_are sm act fr" using sm_invD(3) [OF assms(1)] by blast
    show ?thesis
    proof (cases "16 \<le> unat n")
      case big: True
      show ?thesis
      proof (cases fr)
        case Nil
        then show ?thesis using setSendBuffer_full [OF assms(1,2) _ big] req assms by simp
      next
        case (Cons i fr')
        from setSendBuffer_filed [OF assms(1,2) s req [unfolded Cons] big, of buf ind] assms(3) show ?thesis by auto
      qed
    next
      case small: False
      then have "n = 0" "buf = 0" "ind = 0" using False by auto
      with setSendBuffer_cleared [OF assms(1,2) s req] assms(3) show ?thesis by auto
    qed
  qed
  moreover have "receive_part sm' = receive_part sm"
  proof (cases "sm' = sm")
    case False
    then obtain X d d' where "set_socket X t s d' = Some sm'" "socketDescs X = socketDescs sm" "get_socket sm t s = Some d"
      "sd_receiveBuffer d' = sd_receiveBuffer d" "sd_receiveBufferSize d' = sd_receiveBufferSize d"
      using assms(3) unfolding setSendBuffer_def by (fastforce simp: Option.bind_eq_Some_conv Let_def split_beta split: if_splits option.splits)
    then show ?thesis using set_socket_parts [of X t s d' sm' sm] by simp
  qed simp
  ultimately show ?thesis by (simp add: harmless_def)
qed

subsection \<open>Any sequence of operations\<close>

text \<open>One operation, by any task or by the network task; only a new receive buffer for the socket \<open>s\<close> of the task \<open>t\<close> is left out.\<close>

inductive socket_step :: "nat \<Rightarrow> nat \<Rightarrow> SocketManager \<Rightarrow> SocketManager \<Rightarrow> bool" for t s where
  deliver: "udp_packet pool packet is \<Longrightarrow> handleReceivedPacket sm m pool packet = Some (sm', m') \<Longrightarrow> socket_step t s sm sm'"
| open_socket: "unat a < 50 \<Longrightarrow> openSocket sm a p = Some (r, sm') \<Longrightarrow> socket_step t s sm sm'"
| close_socket: "unat a < 50 \<Longrightarrow> closeSocket sm a b = Some sm' \<Longrightarrow> socket_step t s sm sm'"
| receive_buffer: "unat a < 50 \<Longrightarrow> (unat a, unat b) \<noteq> (t, s) \<Longrightarrow> setReceiveBuffer sm a b buf n = Some (r, sm') \<Longrightarrow> socket_step t s sm sm'"
| send_buffer: "unat a < 50 \<Longrightarrow> setSendBuffer sm a b buf n ind = Some (r, sm') \<Longrightarrow> socket_step t s sm sm'"
| update_top: "updateTop sm p off ident = Some sm' \<Longrightarrow> socket_step t s sm sm'"
| remove_top: "removeTop sm m p = Some (q, sm') \<Longrightarrow> socket_step t s sm sm'"
| finished: "indicateAsFinished sm m p = Some (sm', m') \<Longrightarrow> socket_step t s sm sm'"
| remove: "requests_are sm (is @ i # js) fr \<Longrightarrow> remove_request sm (Some i) = Some (sm', it) \<Longrightarrow> socket_step t s sm sm'"
| relocate: "requests_are sm (is @ i # js) fr \<Longrightarrow> js \<noteq> [] \<Longrightarrow> relocateToEnd sm (Some i) = Some (sm', it) \<Longrightarrow> socket_step t s sm sm'"

text \<open>What is left of a buffer of \<open>n\<close> bytes at \<open>base\<close>; a socket that was opened again has none.\<close>

definition buffer_left :: "u32 \<Rightarrow> nat \<Rightarrow> u32 \<times> u32 \<Rightarrow> bool" where
  "buffer_left base n = (\<lambda>(buf, size). unat size = 0 \<or> (\<exists>k. buf = base + of_nat k \<and> k + unat size \<le> n))"

lemma deliver_left:
  assumes udp: "udp_packet pool packet is" and inv: "sm_inv sm" and left: "buffer_left base n (receive_part sm t s)"
    and r: "handleReceivedPacket sm m pool packet = Some (sm', m')"
  shows "sm_inv sm'" "buffer_left base n (receive_part sm' t s)"
proof -
  define D where "D = datagram pool (packet # is)"
  have range: "unat (udp_destinationPort D) < 9000"
    using handleReceivedPacket_faults [OF udp inv D_def, of m] r by (cases "unat (udp_destinationPort D) < 9000") auto
  show "sm_inv sm'" using handleReceivedPacket_safe [OF udp inv D_def range, of m] r by auto
  show "buffer_left base n (receive_part sm' t s)"
  proof (cases "port_owner sm (unat (udp_destinationPort D))")
    case None
    then show ?thesis using handleReceivedPacket_unowned [OF udp inv D_def range None, of m] r left by simp
  next
    case (Some ts)
    obtain t' s' where ts: "ts = (t', s')" by (cases ts)
    note own = Some [unfolded ts]
    note b = port_owner_Some(2,3) [OF inv own]
    let ?d = "sock sm t' s'"
    show ?thesis
    proof (cases "length D = unat (udp_length D) \<and> length D + 8 \<le> unat (sd_receiveBufferSize ?d)")
      case True
      let ?d' = "?d\<lparr>sd_receiveBuffer := sd_receiveBuffer ?d + of_nat (length D), sd_receiveBufferSize := sd_receiveBufferSize ?d - of_nat (length D)\<rparr>"
      have sm': "sm' = put_sock sm t' s' ?d'"
        using handleReceivedPacket_delivered [OF udp inv D_def own _ _ refl, of m] True r by simp
      have fits: "unat (of_nat (length D) :: u32) = length D"
        by (rule unat_of_nat_u32) (use True unat_u32_lt [of "sd_receiveBufferSize ?d"] in linarith)
      then have size: "unat (sd_receiveBufferSize ?d - of_nat (length D)) = unat (sd_receiveBufferSize ?d) - length D"
        using True unat_sub_no_wrap [of "of_nat (length D)" "sd_receiveBufferSize ?d"] by simp
      show ?thesis
      proof (cases "(t', s') = (t, s)")
        case same: True
        then obtain k where "sd_receiveBuffer ?d = base + of_nat k" "k + unat (sd_receiveBufferSize ?d) \<le> n"
          using left True by (auto simp: buffer_left_def receive_part_def)
        then have "sd_receiveBuffer ?d + of_nat (length D) = base + of_nat (k + length D) \<and>
            (k + length D) + unat (sd_receiveBufferSize ?d - of_nat (length D)) \<le> n" using size True by simp
        then show ?thesis unfolding buffer_left_def receive_part_def sm' using same sm_invD(1) [OF inv] b by auto
      next
        case False
        then show ?thesis using left sm_invD(1) [OF inv] b by (auto simp: receive_part_def sm')
      qed
    next
      case False
      have "sm' = sm" by (rule handleReceivedPacket_rejected [OF udp inv D_def own, of m]) (use False r in auto)
      then show ?thesis using left by simp
    qed
  qed
qed

lemma harmless_left:
  "harmless sm sm' \<Longrightarrow> buffer_left base n (receive_part sm t s) \<Longrightarrow> sm_inv sm' \<and> buffer_left base n (receive_part sm' t s)"
  by (simp add: harmless_def)

lemma step_left:
  assumes "socket_step t s sm sm'" "sm_inv sm" "buffer_left base n (receive_part sm t s)"
  shows "sm_inv sm' \<and> buffer_left base n (receive_part sm' t s)"
  using assms(1)
proof cases
  case deliver
  then show ?thesis using deliver_left [OF deliver(1) assms(2,3) deliver(2)] by blast
next
  case open_socket
  note o = openSocket_parts [OF assms(2) open_socket]
  have "buffer_left base n (0, 0)" by (simp add: buffer_left_def)
  then show ?thesis using o(1) o(2) [of t s] assms(3) by auto
next
  case close_socket
  then show ?thesis by (rule harmless_left [OF closeSocket_harmless [OF assms(2)] assms(3)])
next
  case receive_buffer
  then show ?thesis using setReceiveBuffer_parts [OF assms(2) receive_buffer(1,3,2)] assms(3) by simp
next
  case send_buffer
  then show ?thesis by (rule harmless_left [OF setSendBuffer_harmless [OF assms(2)] assms(3)])
next
  case update_top
  then show ?thesis by (rule harmless_left [OF request_harmless(1) [OF assms(2)] assms(3)])
next
  case remove_top
  then show ?thesis by (rule harmless_left [OF request_harmless(2) [OF assms(2)] assms(3)])
next
  case finished
  then show ?thesis by (rule harmless_left [OF request_harmless(3) [OF assms(2)] assms(3)])
next
  case (remove "is" i js fr it)
  obtain sm1 where "remove_request sm (Some i) = Some (sm1, hd_ptr js None)" "sm_inv sm1" "sock sm1 = sock sm"
    by (rule remove_request_spec [OF assms(2) remove(1)]) 
  then show ?thesis using remove(2) assms(3) by (simp add: receive_part_def)
next
  case (relocate "is" i js fr it)
  obtain sm1 where "relocateToEnd sm (Some i) = Some (sm1, Some (hd js))" "sm_inv sm1" "sock sm1 = sock sm"
    by (rule relocateToEnd_spec [OF assms(2) relocate(1,2)])
  then show ?thesis using relocate(3) assms(3) by (simp add: receive_part_def)
qed

lemma steps_left:
  assumes "(socket_step t s)\<^sup>*\<^sup>* sm sm'" "sm_inv sm" "buffer_left base n (receive_part sm t s)"
  shows "sm_inv sm' \<and> buffer_left base n (receive_part sm' t s)"
  using assms by (induction rule: rtranclp_induct) (auto dest: step_left)

end
