(* ===== verification/Isolation.thy ===== *)
theory Isolation
  imports Syscalls Page_Properties Socket_Properties Task_Properties Socket_Steps
begin

text \<open>
  The properties that span tasks, paging, interrupts and sockets: what a user task can reach, what the
  kernel writes on its behalf, and how a task starts.
\<close>

subsection \<open>The address space of a user task\<close>

text \<open>The page directory of the task and its two page tables are not the last page of a 4MB block: for those \<open>getPhysicalAddr\<close> has no defined
  result, see \<open>getPTE\<close>.\<close>

definition tables_readable :: "u32 \<Rightarrow> bool" where
  "tables_readable area \<longleftrightarrow> pt_index area \<noteq> 1023 \<and> pt_index (area + 0x2000) \<noteq> 1023 \<and> pt_index (area + 0x3000) \<noteq> 1023"

lemma pt_index_page:
  assumes "p < 1047552"
  shows "pt_index (of_nat (4096 * p)) = 1023 \<longleftrightarrow> p mod 1024 = 1023"
proof -
  have "unat (pt_index (of_nat (4096 * p))) = p mod 1024"
    unfolding unat_indices page_number_unat(1) [OF assms] by simp
  then show ?thesis by (simp add: word_unat_eq_iff)
qed

lemma new_region:
  assumes "pa_inv pages" "UserTask_region core pages begin = Some (area, pages')" "area \<noteq> 0" "area \<noteq> 0xFFC00000"
  obtains p f where "area = of_nat (4096 * p)" "p + 2048 \<le> 1047552" "{p..<p + 2048} \<inter> allocated pages = {}"
    "begin = of_nat (4194304 * f)" "f < 1024"
proof -
  have cond: "begin mod 4194304 = 0" "allocateContiguousPages pages 2048 = Some (area, pages')"
    using assms(2,3) by (auto simp: UserTask_region_def split: if_splits)
  have served: "served_size 2048" by (simp add: served_size_def)
  obtain s where s: "area = page_address s" "region pages' s 2048" "{s..<s + 2048} \<inter> allocated pages = {}"
    using kernel_pages.alloc_fresh [OF assms(1) served cond(2) assms(4)] by auto
  have "unat begin mod 4194304 = 0" using arg_cong [OF cond(1), of unat] by (simp add: unat_mod)
  then have "4194304 * (unat begin div 4194304) = unat begin" by (simp add: dvd_eq_mod_eq_0)
  then have "begin = of_nat (4194304 * (unat begin div 4194304))" by (simp del: of_nat_mult)
  moreover have "unat begin div 4194304 < 1024" using unat_u32_lt [of "begin"] by (simp add: less_mult_imp_div_less)
  moreover have "area = of_nat (4096 * s)" using s(1) by (simp add: page_address_def)
  ultimately show thesis using s(2,3) that [of s "unat begin div 4194304"] by (simp add: region_def)
qed

text \<open>Regions at multiples of 64KB satisfy the condition.\<close>

lemma tables_readable_aligned:
  assumes "p mod 16 = 0" "p + 3 < 1047552"
  shows "tables_readable (of_nat (4096 * p))"
proof -
  have "of_nat (4096 * p) + 0x2000 = (of_nat (4096 * (p + 2)) :: u32)" "of_nat (4096 * p) + 0x3000 = (of_nat (4096 * (p + 3)) :: u32)" by simp_all
  moreover have "(p + i) mod 1024 \<noteq> 1023" if "i < 15" for i
  proof
    have "(p + i) mod 1024 mod 16 = (p + i) mod 16" by (rule mod_mod_cancel) simp
    moreover have "(p + i) mod 16 = i" using assms(1) that by (simp add: mod_add_eq [symmetric] mod_simps)
    moreover assume "(p + i) mod 1024 = 1023"
    ultimately show False using that by simp
  qed
  note this [of 0] this [of 2] this [of 3]
  ultimately show ?thesis unfolding tables_readable_def using assms(2) pt_index_page [of p] pt_index_page [of "p + 2"] pt_index_page [of "p + 3"]
    by (simp del: of_nat_mult of_nat_add)
qed

text \<open>C6. A task built on a fresh region whose page directory and page tables are not the last page of a 4MB block, and whose
  space lies below \<open>0xFFC00000\<close>, reaches with user privilege: nothing at offsets below the end of its kernel stack (\<open>0x14000\<close>) and from 8MB on;
  at every other offset \<open>k\<close> offset \<open>k\<close> of its own region, which shares no page with anything that was allocated before, unless page \<open>k div 4096\<close> of the region
  is the last page of a 4MB block of the kernel. For that page, one in each half of the region, \<open>getPTE\<close> returned an uninitialised entry: the task
  reaches whatever page its address names (\<open>raw\<close>), or faults when it is not a page address.\<close>

theorem user_isolation:
  assumes "pa_inv pages" "UserTask_new raw rawStack (mmu_read pm base) core pages begin = Some (task, Some tables, pages')"
    and "area = pTask8MBRegion (task_kind task)" "area \<noteq> 0xFFC00000" "tables_readable area"
    and "kernel_memory pm base pages'" "tables_at pm' area tables" "unat begin + 0x800000 \<le> 0xFFC00000"
    and "k = unat (va - begin)" "q = unat area div 4096 + k div 4096"
  shows "user_walk pm' area va =
      (if k < 0x14000 \<or> 0x800000 \<le> k then None
       else if q mod 1024 \<noteq> 1023 then Some (area + (va - begin))
       else let a = pagePhysicalAddr (raw (of_nat q)) in if a AND 0xFFF = 0 then Some (a + page_offset va) else None) \<and>
    {unat area div 4096..<unat area div 4096 + 2048} \<inter> allocated pages = {}"
proof -
  have new: "UserTask_region core pages begin = Some (area, pages')" "area \<noteq> 0"
    "UserTask_tables raw (mmu_read pm base) begin area = Some tables"
    using assms(2,3) by (auto simp: UserTask_new_def Let_def split: Option.bind_splits if_splits)
  obtain p f where pf: "area = of_nat (4096 * p)" "p + 2048 \<le> 1047552" "{p..<p + 2048} \<inter> allocated pages = {}"
    "begin = of_nat (4194304 * f)" "f < 1024"
    by (rule new_region [OF assms(1) new(1,2) assms(4)])
  have "area + 0x2000 = of_nat (4096 * (p + 2))" "area + 0x3000 = of_nat (4096 * (p + 3))" by (simp_all add: pf(1))
  then have "pt_index (of_nat (4096 * p)) \<noteq> 1023" "pt_index (of_nat (4096 * (p + 2))) \<noteq> 1023"
    "pt_index (of_nat (4096 * (p + 3))) \<noteq> 1023" using assms(5) by (simp_all only: tables_readable_def pf(1)) simp_all
  then have r: "task_region area p"
    using pf(1,2) by (simp only: task_region_def pt_index_page) simp
  have "unat begin = 4194304 * f" unfolding pf(4) by (rule unat_of_nat_u32) (use pf(5) in simp)
  then have f: "f + 2 \<le> 1023" using assms(8) by simp
  have page: "unat area div 4096 = p" using page_number_unat(1) [of p] pf(1,2) by simp
  note walk = task_walks(1) [OF assms(6) r pf(4) f new(3) assms(7), of va, folded assms(9), unfolded Let_def]
  have inside: "of_nat (4096 * (p + k div 4096)) + page_offset va = area + (va - begin)" if "k < 0x800000"
  proof -
    note off = space_offset [OF pf(4) f, of va, folded assms(9)]
    have small: "unat (page_offset va) < 4096" by (simp add: unat_indices)
    have "k = (1024 * (unat (pd_index va) - f) + unat (pt_index va)) * 4096 + unat (page_offset va)" using off that by simp
    then have "k mod 4096 = unat (page_offset va)" using small by (simp only: mod_mult_self3) simp
    then have "4096 * (k div 4096) + unat (page_offset va) = k" using mult_div_mod_eq [of 4096 k] by simp
    then have "of_nat (4096 * (k div 4096) + unat (page_offset va)) = va - begin" using assms(9) by simp
    then show ?thesis by (simp add: pf(1) distrib_left add.assoc)
  qed
  have last: "space_page raw p (k div 4096) (page_offset va) =
      (let a = pagePhysicalAddr (raw (of_nat q)) in if a AND 0xFFF = 0 then Some (a + page_offset va) else None)" if "q mod 1024 = 1023"
    using that by (simp add: space_page_def task_page_def assms(10) page and_FFF)
  show ?thesis using walk inside last space_page_identity [of p "k div 4096" raw "page_offset va"] pf(3) by (simp add: page assms(10))
qed

text \<open>A kernel with exactly the 2048 pages from \<open>0x4000000\<close> on free, and the tables of a task in memory.\<close>

lemma one_free_region:
  obtains st where "pa_inv st" "allocated st = {..<16384} \<union> {18432..<1047552}" "kernel_map 0x200000 st"
proof -
  have code0: "page_code demo_pages p = 0" if "p < NUM_PAGES" for p
    using demo_pages_inv(2) that by (auto simp: allocated_def)
  obtain st1 where st1: "allocatePageRange demo_pages 0 0x3FFF = Some st1" "pa_inv st1"
    "\<And>p. p < NUM_PAGES \<Longrightarrow> page_code st1 p = (if p \<le> 16383 then page_code demo_pages p OR 1 else page_code demo_pages p)"
    by (rule allocatePageRange_spec [OF demo_pages_inv(1), of 0 "0x3FFF"]) simp_all
  obtain st2 where st2: "allocatePageRange st1 0x4800 0xFFBFF = Some st2" "pa_inv st2"
    "\<And>p. p < NUM_PAGES \<Longrightarrow> page_code st2 p = (if 18432 \<le> p \<and> p \<le> 1047551 then page_code st1 p OR 1 else page_code st1 p)"
    by (rule allocatePageRange_spec [OF st1(2), of "0x4800" "0xFFBFF"]) simp_all
  have code: "(page_code st2 p = 0) = (16384 \<le> p \<and> p < 18432)" if "p < 1047552" for p
    using st2(3) [OF that] st1(3) [OF that] code0 [OF that] that by auto
  have "p \<in> allocated st2 \<longleftrightarrow> p \<in> {..<16384} \<union> {18432..<1047552}" for p
    by (cases "p < 1047552") (auto simp: allocated_def code)
  then have "allocated st2 = {..<16384} \<union> {18432..<1047552}" by blast
  moreover have "kernel_map 0x200000 st2"
    using mapping_allocatePageRange [OF st1(1)] mapping_allocatePageRange [OF st2(1)]
    by (simp add: kernel_map_def demo_pages_def mapping_new)
  ultimately show thesis using st2(2) that by blast
qed

definition tables_memory :: "u32 \<Rightarrow> PageDirectory \<times> PageTable \<times> PageTable \<Rightarrow> u32 \<Rightarrow> u32" where
  "tables_memory area = (\<lambda>(pd, pt1, pt2) a.
     (pageDirectoryEntries pd @ helperTableEntries pd @ pt1 @ pt2) ! (unat (a - area) div 4))"

lemma tables_memory_holds:
  assumes "pd_wf pd" "length pt1 = 1024" "length pt2 = 1024"
  shows "tables_at (tables_memory area (pd, pt1, pt2)) area (pd, pt1, pt2)"
proof -
  let ?ws = "pageDirectoryEntries pd @ helperTableEntries pd @ pt1 @ pt2"
  have word: "tables_memory area (pd, pt1, pt2) (area + 4 * of_nat k) = ?ws ! k" if "k < 4096" for k
  proof -
    have "unat (4 * of_nat k :: u32) = 4 * k" using unat_of_nat_u32 [of "4 * k"] that by simp
    then show ?thesis by (simp add: tables_memory_def)
  qed
  have at: "area + 0x1000 + 4 * of_nat i = area + 4 * of_nat (1024 + i)" "area + 0x2000 + 4 * of_nat i = area + 4 * of_nat (2048 + i)"
    "area + 0x3000 + 4 * of_nat i = area + 4 * of_nat (3072 + i)" for i by simp_all
  show ?thesis
    using assms by (auto simp: tables_at_def holds_words_def pd_wf_def at nth_append word simp del: of_nat_add)
qed

lemma demo_task_region:
  assumes "pa_inv st" "allocated st = {..<16384} \<union> {18432..<1047552}"
  obtains st' where "UserTask_region (CpuCore_bind fresh_core) st 0x8000000 = Some (0x4000000, st')" "mapping st' = mapping st"
proof -
  have served: "served_size 2048" by (simp add: served_size_def)
  obtain a st' where r: "allocateContiguousPages st 2048 = Some (a, st')"
    using kernel_pages.alloc_total [OF assms(1) served] by blast
  have ok: "a \<noteq> 0xFFC00000"
    by (rule kernel_pages.alloc_complete [OF assms(1) served, of 16384 a st']) (use assms(2) r in auto)
  obtain s where s: "a = page_address s" "{s..<s + 2048} \<inter> allocated st = {}" "region st' s 2048"
    using kernel_pages.alloc_fresh [OF assms(1) served r ok] by auto
  have "s \<in> {s..<s + 2048}" "s + 2047 \<in> {s..<s + 2048}" by simp_all
  then have "s \<notin> allocated st" "s + 2047 \<notin> allocated st" using s(2) by blast+
  moreover have "s + 2048 \<le> 1047552" using s(3) by (simp add: region_def)
  ultimately have "s = 16384" using assms(2) by auto
  then have "a = 0x4000000" using s(1) by (simp add: page_address_def)
  moreover have "(0x8000000 :: u32) mod 4194304 = 0" by (simp add: word_unat_eq_iff unat_mod)
  ultimately show thesis
    using r that [of st'] mapping_allocate [OF r] by (simp add: UserTask_region_def CpuCore_bind_def)
qed

lemma user_isolation_witness:
  "\<exists>pages raw pm task tables pages'.
    UserTask_new raw 0 (mmu_read pm 0x200000) (CpuCore_bind fresh_core) pages 0x8000000 = Some (task, Some tables, pages') \<and>
    user_walk (tables_memory 0x4000000 tables) 0x4000000 0x8014000 = Some 0x4014000 \<and>
    user_walk (tables_memory 0x4000000 tables) 0x4000000 0x8013FFF = None \<and>
    user_walk (tables_memory 0x4000000 tables) 0x4000000 0x83FF010 = Some 0x10"
proof -
  obtain st where st: "pa_inv st" "allocated st = {..<16384} \<union> {18432..<1047552}" "kernel_map 0x200000 st"
    by (rule one_free_region)
  obtain st' where st': "UserTask_region (CpuCore_bind fresh_core) st 0x8000000 = Some (0x4000000, st')" "mapping st' = mapping st"
    by (rule demo_task_region [OF st(1,2)])
  let ?pm = "memory_of st' 0x200000"
  have km: "kernel_map 0x200000 st'" using st(3) st'(2) by (simp add: kernel_map_def)
  then have mem: "kernel_memory ?pm 0x200000 st'"
    using memory_of_holds [OF km aligned_example] aligned_example by (simp add: kernel_memory_def)
  have region: "task_region 0x4000000 16384" by (simp add: task_region_def)
  have b: "(0x8000000 :: u32) = of_nat (4194304 * 32)" by simp
  define raw :: "u32 \<Rightarrow> PTE" where "raw = (\<lambda>_. identity_PTE 0)"
  obtain pd pt1 pt2 where t: "UserTask_tables raw (mmu_read ?pm 0x200000) 0x8000000 0x4000000 = Some (pd, pt1, pt2)"
    "pd_wf pd" "length pt1 = 1024" "length pt2 = 1024"
    by (rule UserTask_tables_written [OF mem region b, of raw]) auto
  let ?task = "\<lparr>taskID = -1, task_isRunning = False, updatedKernelStack = 0, task_kind = UserTask 0x8000000 0x4000000\<rparr>"
  have new: "UserTask_new raw 0 (mmu_read ?pm 0x200000) (CpuCore_bind fresh_core) st 0x8000000 = Some (?task, Some (pd, pt1, pt2), st')"
    using st'(1) t(1) by (simp add: UserTask_new_def)
  have readable: "tables_readable 0x4000000" using tables_readable_aligned [of 16384] by simp
  note iso = user_isolation [OF st(1) new _ _ readable mem tables_memory_holds [OF t(2-4)] _ refl refl]
  have "user_walk (tables_memory 0x4000000 (pd, pt1, pt2)) 0x4000000 0x8014000 = Some 0x4014000"
    using iso [of "0x8014000"] by simp
  moreover have "user_walk (tables_memory 0x4000000 (pd, pt1, pt2)) 0x4000000 0x8013FFF = None"
    using iso [of "0x8013FFF"] by simp
  moreover have "user_walk (tables_memory 0x4000000 (pd, pt1, pt2)) 0x4000000 0x83FF010 = Some 0x10"
    using iso [of "0x83FF010"] by (simp add: raw_def identity_PTE_def page_offset_def)
  ultimately show ?thesis using new by blast
qed

subsection \<open>System calls\<close>

text \<open>The address check of the system calls adds the size to the address in 32 bits: every address behind
  the task's space passes it when the size wraps the sum to zero, and the address handed to the kernel lies
  outside the task's region.\<close>

theorem access_check_wraps:
  assumes "unat begin + 0x800000 < 4294967296" "unat begin + 0x800000 \<le> unat a" "unat a + unat n = 4294967296"
  shows "addrSpaceIsUserAccessible begin a n \<and>
    convertContigUserAddrBlockToContigKernelAddrBlock begin area a n = (True, area + (a - begin)) \<and>
    0x800000 \<le> unat ((area + (a - begin)) - area)"
proof -
  have "a + n = 0" using assms(3) by (simp add: word_unat_eq_iff unat_word_ariths)
  moreover have "unat (begin + 0x14000) = unat begin + unat (0x14000 :: u32)" by (rule unat_add_no_wrap) (use assms(1) in simp)
  then have "\<not> a < begin + 0x14000" using assms(2) by (simp add: word_less_nat_alt)
  moreover have "begin + 0x13FFC + 4 = begin + 0x14000" by simp
  ultimately have acc: "addrSpaceIsUserAccessible begin a n"
    unfolding addrSpaceIsUserAccessible_def by (simp only: if_False word_not_simps(1) simp_thms)
  have "unat (a - begin) = unat a - unat begin" by (rule unat_sub_no_wrap) (use assms(2) in simp)
  then have "0x800000 \<le> unat ((area + (a - begin)) - area)" using assms(2) by simp
  moreover have "a + (area - begin) = area + (a - begin)" by simp
  ultimately show ?thesis using acc by (simp only: convert_access if_True simp_thms)
qed

lemma access_check_wraps_witness:
  "convertContigUserAddrBlockToContigKernelAddrBlock 0x8000000 0x4000000 0xFFFF0000 0x10000 = (True, 0xFBFF0000)"
  using access_check_wraps [of "0x8000000" "0xFFFF0000" "0x10000" "0x4000000"] by simp

lemma load_task_store:
  assumes "task_kind task = UserTask begin area" "unat (v - begin) + 4 \<le> 0x800000"
  shows "load_dword (task_view task (task_store task m v (le32 w))) v = w"
proof -
  let ?m = "store_bytes m (area + (v - begin)) (le32 w)"
  have store: "task_store task m v (le32 w) = ?m" by (rule task_store_inside [OF assms(1)]) (use assms(2) in simp)
  have "task_addr task (v + of_nat i) = area + (v - begin) + of_nat i" if "i < 4" for i
    by (rule task_addr_inside [OF assms(1), where bs = "le32 w"]) (use assms(2) that in simp_all)
  from this [of 0] this [of 1] this [of 2] this [of 3] show ?thesis
    using stored_le32 [OF stored_store, of w m "area + (v - begin)"] by (simp add: load_dword_def task_view_def store)
qed

lemma block_inside:
  assumes "addrSpaceIsUserAccessible begin b n" "unat begin + 0x800000 < 4294967296" "unat b + unat n < 4294967296"
    and "unat (x - (b + (area - begin))) < unat n"
  shows "0x14000 \<le> unat (x - area)" "unat (x - area) < 0x800000"
proof -
  note acc = access_sound [OF assms(1-3)]
  let ?k = "x - (b + (area - begin))"
  have "x - area = (b - begin) + ?k" by simp
  moreover have "unat ((b - begin) + ?k) = unat (b - begin) + unat ?k"
    by (rule unat_add_no_wrap) (use acc assms(4) in linarith)
  ultimately have "unat (x - area) = unat (b - begin) + unat ?k" by (simp only:)
  with acc assms(4) show "0x14000 \<le> unat (x - area)" "unat (x - area) < 0x800000" by linarith+
qed

text \<open>The effect of the call for a user task that passes a buffer without wrap-around.\<close>

lemma setReceiveBuffer_call:
  assumes cur: "current_task tasks core = Some task" and kind: "task_kind task = UserTask begin area"
    and tid: "0 \<le> taskID task" "taskID task < 50" and space: "unat begin + 0x800000 < 4294967296" and inv: "sm_inv sm"
    and eax: "addrSpaceIsUserAccessible begin eax 16" "unat eax + 16 < 4294967296"
    and b: "b = load_dword (task_view task m) (eax + 4)" and n: "n = load_dword (task_view task m) (eax + 8)"
    and call: "setReceiveBufferSyscallHandler tasks core sm m eax = Some (sm', m')"
    and success: "load_dword (task_view task m') (eax + 12) = 0"
  shows "sm_inv sm'" "m' = store_bytes m (area + (eax + 12 - begin)) (le32 0)"
    "b = 0 \<and> n = 0 \<or> addrSpaceIsUserAccessible begin b n"
    "sd_receiveBufferSize (sock sm' (nat (taskID task)) (unat (task_view task m eax))) = n"
    "n \<noteq> 0 \<Longrightarrow> sd_receiveBuffer (sock sm' (nat (taskID task)) (unat (task_view task m eax))) = b + (area - begin)"
proof -
  let ?t = "of_int (taskID task) :: u8" and ?s = "task_view task m eax"
  have "?t = of_nat (nat (taskID task))" using tid(1) by simp
  then have t: "unat ?t = nat (taskID task)" "unat ?t < 50" using tid by (simp_all only: unat_of_nat_u8)
  have off: "unat (eax + 12 - begin) + 4 \<le> 0x800000"
  proof -
    note acc = access_sound [OF eax(1) space] 
    have "unat (eax - begin) + 16 \<le> 0x800000" using acc eax(2) by simp
    moreover have "eax + 12 - begin = (eax - begin) + 12" by simp
    moreover have "unat ((eax - begin) + 12) = unat (eax - begin) + unat (12 :: u32)"
      by (rule unat_add_no_wrap) (use \<open>unat (eax - begin) + 16 \<le> 0x800000\<close> in simp)
    ultimately show ?thesis by (simp only:) simp
  qed
  obtain r where r: "(if b = 0 \<and> n = 0 then setReceiveBuffer sm ?t ?s 0 0
      else if addrSpaceIsUserAccessible begin b n then setReceiveBuffer sm ?t ?s (b + (area - begin)) n
      else Some (-1, sm)) = Some (r, sm')" "m' = task_store task m (eax + 12) (le32 (of_int r))"
    using call eax(1) unfolding setReceiveBufferSyscallHandler_def
    by (auto simp: cur kind args_accessible_def Let_def convert_access b [symmetric] n [symmetric] split: Option.bind_splits if_splits)
  have "of_int r = (0 :: u32)" using success load_task_store [OF kind off] by (simp add: r(2))
  then have ok: "r \<noteq> -1" by auto
  show "m' = store_bytes m (area + (eax + 12 - begin)) (le32 0)"
    using task_store_inside [OF kind, of "eax + 12" "le32 0"] off \<open>of_int r = 0\<close> r(2) by simp
  show "b = 0 \<and> n = 0 \<or> addrSpaceIsUserAccessible begin b n" using r(1) ok by (auto split: if_splits)
  define buf where "buf = (if b = 0 \<and> n = 0 then 0 else b + (area - begin))"
  have set: "setReceiveBuffer sm ?t ?s buf n = Some (r, sm')" using r(1) ok by (auto simp: buf_def split: if_splits)
  obtain sm1 where sm1: "sm_inv sm1" "if unat ?s < 10 \<and> (16 \<le> unat n \<or> n = 0 \<and> buf = 0) \<and> sd_isActive (sock sm (unat ?t) (unat ?s)) = 1
     then setReceiveBuffer sm ?t ?s buf n = Some (0, sm1) \<and>
       sock sm1 = (sock sm)(unat ?t := (sock sm (unat ?t))(unat ?s := (sock sm (unat ?t) (unat ?s))
         \<lparr>sd_receiveBuffer := buf, sd_receiveBufferSize := n\<rparr>))
     else sm1 = sm \<and> setReceiveBuffer sm ?t ?s buf n = Some (-1, sm)"
    using setReceiveBuffer_spec [OF inv t(2)] by blast
  then have sm': "sm1 = sm'" "sock sm' = (sock sm)(unat ?t := (sock sm (unat ?t))(unat ?s := (sock sm (unat ?t) (unat ?s))
         \<lparr>sd_receiveBuffer := buf, sd_receiveBufferSize := n\<rparr>))"
    using set ok by (auto split: if_splits)
  show "sm_inv sm'" using sm1(1) sm'(1) by simp
  show "sd_receiveBufferSize (sock sm' (nat (taskID task)) (unat ?s)) = n"
    "n \<noteq> 0 \<Longrightarrow> sd_receiveBuffer (sock sm' (nat (taskID task)) (unat ?s)) = b + (area - begin)"
    using sm'(2) t(1) by (simp_all add: buf_def)
qed

lemma left_inside:
  fixes x :: u32
  assumes "buffer_left base n (buf, sz)" "unat (x - buf) < unat sz" "n < 4294967296"
  shows "unat (x - base) < n"
proof -
  obtain k where k: "buf = base + of_nat k" "k + unat sz \<le> n" using assms(1,2) by (auto simp: buffer_left_def)
  have u: "unat (of_nat k :: u32) = k" by (rule unat_of_nat_u32) (use k(2) assms(3) in linarith)
  have "x - base = (x - buf) + of_nat k" by (simp add: k(1))
  moreover have "unat ((x - buf) + of_nat k) = unat (x - buf) + unat (of_nat k :: u32)"
    by (rule unat_add_no_wrap) (use u k(2) assms(2,3) in linarith)
  ultimately have "unat (x - base) = unat (x - buf) + k" by (simp only: u)
  then show ?thesis using k(2) assms(2) by linarith
qed

text \<open>C7. When a user task sets a receive buffer by the system call, and address plus size of the buffer do not wrap around at 32 bits (without that
  the check of the call is worth nothing, see \<open>access_check_wraps\<close>), the call writes only its four result bytes and installs the
  kernel's address of the buffer. From then on, whatever packets are delivered, sockets opened or closed, and buffers installed for other sockets or for
  sending, in any order: every packet the kernel receives for that socket changes memory only inside the user part of the task's own region, until the
  socket gets another receive buffer.\<close>

theorem receive_buffer_isolated:
  assumes "current_task tasks core = Some task" "task_kind task = UserTask begin area"
    and "0 \<le> taskID task" "taskID task < 50" "unat begin + 0x800000 < 4294967296" "sm_inv sm"
    and "addrSpaceIsUserAccessible begin eax 16" "unat eax + 16 < 4294967296"
    and "b = load_dword (task_view task m) (eax + 4)" "n = load_dword (task_view task m) (eax + 8)"
    and "unat b + unat n < 4294967296"
    and "setReceiveBufferSyscallHandler tasks core sm m eax = Some (sm', m')"
    and "load_dword (task_view task m') (eax + 12) = 0"
    and "t = nat (taskID task)" "s = unat (task_view task m eax)"
  shows "m' = store_bytes m (area + (eax + 12 - begin)) (le32 0) \<and>
    snd (receive_part sm' t s) = n \<and> (n \<noteq> 0 \<longrightarrow> fst (receive_part sm' t s) = area + (b - begin)) \<and>
    (\<forall>sm1 m1 pool packet is. (socket_step t s)\<^sup>*\<^sup>* sm' sm1 \<longrightarrow> udp_packet pool packet is \<longrightarrow>
      port_owner sm1 (unat (udp_destinationPort (datagram pool (packet # is)))) = Some (t, s) \<longrightarrow>
      (\<exists>sm2 m2. handleReceivedPacket sm1 m1 pool packet = Some (sm2, m2) \<and> sm_inv sm2 \<and>
        (\<forall>x. m2 x \<noteq> m1 x \<longrightarrow> 0x14000 \<le> unat (x - area) \<and> unat (x - area) < 0x800000)))"
proof -
  note c = setReceiveBuffer_call [OF assms(1-10,12,13), folded assms(14,15)]
  let ?base = "b + (area - begin)"
  have part: "snd (receive_part sm' t s) = n" "n \<noteq> 0 \<Longrightarrow> fst (receive_part sm' t s) = ?base" using c(4,5) by (simp_all add: receive_part_def)
  have left: "buffer_left ?base (unat n) (receive_part sm' t s)"
    using part by (cases "receive_part sm' t s") (auto simp: buffer_left_def unat_eq_zero intro!: exI [of _ 0])
  have "\<exists>sm2 m2. handleReceivedPacket sm1 m1 pool packet = Some (sm2, m2) \<and> sm_inv sm2 \<and>
      (\<forall>x. m2 x \<noteq> m1 x \<longrightarrow> 0x14000 \<le> unat (x - area) \<and> unat (x - area) < 0x800000)"
    if steps: "(socket_step t s)\<^sup>*\<^sup>* sm' sm1" and udp: "udp_packet pool packet is"
      and own: "port_owner sm1 (unat (udp_destinationPort (datagram pool (packet # is)))) = Some (t, s)" for sm1 m1 pool packet "is"
  proof -
    from steps_left [OF steps c(1) left] have inv: "sm_inv sm1" and l: "buffer_left ?base (unat n) (receive_part sm1 t s)" by auto
    have "unat (udp_destinationPort (datagram pool (packet # is))) < 9000" using port_owner_Some(1) [OF inv own] .
    from handleReceivedPacket_safe [OF udp inv refl this, of m1] own obtain sm2 m2 where
      h: "handleReceivedPacket sm1 m1 pool packet = Some (sm2, m2)" "sm_inv sm2"
      "\<And>x. m2 x \<noteq> m1 x \<Longrightarrow> unat (x - sd_receiveBuffer (sock sm1 t s)) < unat (sd_receiveBufferSize (sock sm1 t s))"
      by (fastforce simp del: datagram_Cons)
    have "0x14000 \<le> unat (x - area) \<and> unat (x - area) < 0x800000" if "m2 x \<noteq> m1 x" for x
    proof -
      have x: "unat (x - ?base) < unat n" by (rule left_inside [OF l [unfolded receive_part_def] h(3) [OF that]]) simp
      then have "n \<noteq> 0" by (intro notI) simp
      then have "addrSpaceIsUserAccessible begin b n" using c(3) by blast
      from block_inside [OF this assms(5,11) x] show ?thesis by blast
    qed
    with h(1,2) show ?thesis by blast
  qed
  moreover have "?base = area + (b - begin)" by simp
  ultimately show ?thesis using c(2) part by (simp only:) blast
qed

definition demo_user :: Task where
  "demo_user = \<lparr>taskID = 3, task_isRunning = True, updatedKernelStack = 0, task_kind = UserTask 0x8000000 0x4000000\<rparr>"

definition demo_running :: CpuCore where
  "demo_running = fresh_core\<lparr>currentTask := Some 0, taskDescriptorListElements :=
     [\<lparr>dl_value = blank_descriptor\<lparr>td_pTask := Some 0\<rparr>, dl_next = None, dl_prev = None\<rparr>]\<rparr>"

definition demo_call :: memory where
  "demo_call = store_bytes (\<lambda>_. 0) 0x4030000 ([0, 0, 0, 0] @ le32 0x8040000 @ le32 100)"

lemma demo_current: "current_task [demo_user] demo_running = Some demo_user"
  by (simp add: current_task_def getCurrentTask_def demo_running_def)

lemma demo_call_view:
  "task_view demo_user demo_call 0x8030000 = 0" "load_dword (task_view demo_user demo_call) 0x8030004 = 0x8040000"
  "load_dword (task_view demo_user demo_call) 0x8030008 = 100"
  by (simp_all add: load_dword_def task_view_def task_addr_def demo_user_def demo_call_def store_bytes_def le32_def byte_at_def u32_be_def)

lemma receive_buffer_isolated_witness:
  "\<exists>sm' m' sm'' m''. setReceiveBufferSyscallHandler [demo_user] demo_running demo_open demo_call 0x8030000 = Some (sm', m') \<and>
    receive_part sm' 3 0 = (0x4040000, 100) \<and> handleReceivedPacket sm' m' [demo_packet] 0 = Some (sm'', m'') \<and>
    (\<forall>x. m'' x \<noteq> m' x \<longrightarrow> 0x14000 \<le> unat (x - 0x4000000) \<and> unat (x - 0x4000000) < 0x800000)"
proof -
  have kind: "task_kind demo_user = UserTask 0x8000000 0x4000000" "taskID demo_user = 3" by (simp_all add: demo_user_def)
  have act: "sd_isActive (sock demo_open 3 0) = 1"
    using port_owner_Some(4) [OF demo_open_facts(1), of 80 3 0] by (simp add: demo_open_facts)
  obtain sm' where sm': "port_owner sm' = port_owner demo_open" "setReceiveBuffer demo_open 3 0 0x4040000 100 = Some (0, sm')"
    using setReceiveBuffer_spec [OF demo_open_facts(1), of 3 0 100 "0x4040000"] act by auto
  let ?m' = "task_store demo_user demo_call 0x803000C (le32 0)"
  have acc: "addrSpaceIsUserAccessible 0x8000000 0x8030000 16" by (simp add: addrSpaceIsUserAccessible_def)
  have call: "setReceiveBufferSyscallHandler [demo_user] demo_running demo_open demo_call 0x8030000 = Some (sm', ?m')"
    using sm'(2) by (simp add: setReceiveBufferSyscallHandler_def demo_current args_accessible_def kind acc Let_def
        convertContigUserAddrBlockToContigKernelAddrBlock_def demo_call_view)
  have ok: "load_dword (task_view demo_user ?m') (0x8030000 + 12) = 0"
    using load_task_store [OF kind(1), of "0x803000C" demo_call 0] by simp
  have port: "port_owner sm' (unat (udp_destinationPort (datagram [demo_packet] [0]))) = Some (3, 0)"
    by (simp add: sm'(1) demo_open_facts demo_datagram demo_header del: datagram_Cons)
  have "unat (0x8040000 :: u32) + unat (100 :: u32) < 4294967296" by simp
  note iso = receive_buffer_isolated [OF demo_current kind(1) _ _ _ demo_open_facts(1) acc _ _ _ this call ok, of 3 0]
  have "receive_part sm' 3 0 = (0x4040000, 100)" by (rule prod_eqI) (use iso in \<open>simp_all add: demo_call_view kind(2)\<close>)
  moreover have "\<exists>sm'' m''. handleReceivedPacket sm' ?m' [demo_packet] 0 = Some (sm'', m'') \<and>
    (\<forall>x. m'' x \<noteq> ?m' x \<longrightarrow> 0x14000 \<le> unat (x - 0x4000000) \<and> unat (x - 0x4000000) < 0x800000)"
    using iso [THEN conjunct2, THEN conjunct2, THEN conjunct2, rule_format, OF _ _ _ _ _ _ _ _ rtranclp.rtrancl_refl demo_udp port, of ?m']
    by (simp add: demo_call_view kind(2)) blast
  ultimately show ?thesis using call by blast
qed

subsection \<open>Interrupts and the start of tasks\<close>

text \<open>C23. After the constructors of the interrupt handler manager and of the cpu core, the gates of interrupts 0 to 55 and 80 lead to their stubs
  and, of these, user code may raise exactly the interrupts 32 to 55. Every other gate, 56 to 79 and 81 to 255, still holds what the memory held before
  (\<open>raw\<close>), so user code may raise such an interrupt if that happens to be a user callable gate. The stubs find the exception handlers at 0 to 31, the task
  switch at 49 and the six system calls at 50 to 55, each with the core as its parameter.\<close>

theorem interrupt_table:
  assumes "length (idt raw) = 256" "length (interruptHandlers raw) = 257"
  shows "\<exists>mgr mgr'. InterruptHandlerManager_new stub voidHandler raw = Some mgr \<and>
    CpuCore_register_handlers this mgr = Some mgr' \<and>
    (\<forall>n. n < 56 \<or> n = 80 \<longrightarrow> gate_address (idt mgr' ! n) = stub n \<and> (user_callable (idt mgr' ! n) \<longleftrightarrow> 32 \<le> n \<and> n < 56)) \<and>
    (\<forall>n. \<not> (n < 56 \<or> n = 80) \<longrightarrow> idt mgr' ! n = idt raw ! n) \<and> length (idt mgr') = 256 \<and>
    (\<forall>n < 256. interruptHandlers mgr' ! n = registered this n)"
proof -
  obtain mgr where mgr: "InterruptHandlerManager_new stub voidHandler raw = Some mgr"
    "interruptHandlers mgr = replicate 257 (0, voidHandler)"
    "length (idt mgr) = 256"
    "\<And>n. n < 56 \<or> n = 80 \<Longrightarrow> idt mgr ! n = new_gate (stub n) (32 \<le> n \<and> n < 56)"
    "\<And>n. \<not> (n < 56 \<or> n = 80) \<Longrightarrow> idt mgr ! n = idt raw ! n"
    by (rule gates_after_construction [OF assms, of stub voidHandler]) blast
  obtain hs where hs: "CpuCore_register_handlers this mgr = Some (mgr\<lparr>interruptHandlers := hs\<rparr>)"
    "\<forall>n < 256. hs ! n = registered this n"
    using handlers_registered [OF mgr(2)] by blast
  have "gate_address (idt mgr ! n) = stub n \<and> (user_callable (idt mgr ! n) \<longleftrightarrow> 32 \<le> n \<and> n < 56)"
    if "n < 56 \<or> n = 80" for n
    by (simp only: mgr(4) [OF that] gate_address_new user_callable_new)
  then show ?thesis using mgr(1,3,5) hs by (intro exI [of _ mgr] exI [of _ "mgr\<lparr>interruptHandlers := hs\<rparr>"]) simp
qed

text \<open>A table whose memory held a user callable gate at interrupt 128.\<close>

definition demo_manager :: "IsrHandler InterruptHandlerManager" where
  "demo_manager = \<lparr>idt = (replicate 256 \<lparr>low_offset = 0, sel = 0, always0 = 0, gate_flags = 0, high_offset = 0\<rparr>)[128 := new_gate 0x77 True],
     interruptHandlers = replicate 257 (7, voidHandler)\<rparr>"

lemma interrupt_table_witness:
  "\<exists>mgr mgr'. InterruptHandlerManager_new (\<lambda>n. 0x1000 + of_nat n) voidHandler demo_manager = Some mgr \<and>
    CpuCore_register_handlers 0x5000 mgr = Some mgr' \<and> gate_address (idt mgr' ! 50) = 0x1032 \<and>
    interruptHandlers mgr' ! 50 = (0x5000, openSocketSyscall) \<and> \<not> user_callable (idt mgr' ! 14) \<and> user_callable (idt mgr' ! 128)"
proof -
  have "length (idt demo_manager) = 256" "length (interruptHandlers demo_manager) = 257" by (simp_all add: demo_manager_def)
  from interrupt_table [OF this, of "\<lambda>n. 0x1000 + of_nat n" "0x5000"] obtain mgr mgr' where
    m: "InterruptHandlerManager_new (\<lambda>n. 0x1000 + of_nat n) voidHandler demo_manager = Some mgr"
    "CpuCore_register_handlers 0x5000 mgr = Some mgr'"
    "\<forall>n. n < 56 \<or> n = 80 \<longrightarrow> gate_address (idt mgr' ! n) = 0x1000 + of_nat n \<and> (user_callable (idt mgr' ! n) \<longleftrightarrow> 32 \<le> n \<and> n < 56)"
    "\<forall>n. \<not> (n < 56 \<or> n = 80) \<longrightarrow> idt mgr' ! n = idt demo_manager ! n"
    "\<forall>n < 256. interruptHandlers mgr' ! n = registered 0x5000 n" by blast
  have "registered 0x5000 50 = (0x5000, openSocketSyscall)" by (simp add: registered_def)
  moreover have "idt demo_manager ! 128 = new_gate 0x77 True" by (simp add: demo_manager_def)
  then have "user_callable (idt mgr' ! 128)" using m(4) by (simp add: user_callable_new)
  ultimately show ?thesis using m(1,2) m(3) [rule_format, of 50] m(3) [rule_format, of 14] m(5) [rule_format, of 50] by simp
qed

lemma offset_add:
  fixes x :: u32
  assumes "unat (x - (area + d)) < k" "unat d + k \<le> 4294967296"
  shows "unat (x - area) = unat (x - (area + d)) + unat d"
proof -
  have "x - area = (x - (area + d)) + d" by simp
  moreover have "unat ((x - (area + d)) + d) = unat (x - (area + d)) + unat d"
    by (rule unat_add_no_wrap) (use assms in linarith)
  ultimately show ?thesis by (simp only:)
qed

text \<open>C22. Preparing a user task leaves, inside its region, the stack its first task switch resumes from: the
  interrupt returns to the process entry \<open>begin + 0x24000\<close> with user privilege and the stack pointer \<open>begin + 0x23FFC - 4 * n\<close>, where the
  task finds a zero return address followed by its \<open>n\<close> arguments in order. Without arguments the first stack pointer is \<open>begin + 0x23FFC\<close>.\<close>

theorem task_first_stack:
  assumes "task_kind task = UserTask begin area" "area \<noteq> 0" "unat (numArgs args) = n" "n \<le> 5" "n \<le> length (ta_args args)"
    and "length (pusha_registers cpu) = 8"
  shows "\<exists>m'. setTaskArguments handlerReturn cpu m task args = Some (m', task\<lparr>updatedKernelStack := area + 0x13FB0\<rparr>) \<and>
    stored m' (area + 0x13FB0) (concat (map le32 ([handlerReturn, 0, 0, 0x23] @ rev (pusha_registers cpu) @
      [32, 0, begin + 0x24000, 0x1B, eflags cpu, begin + 0x23FFC - of_nat (4 * n), 0x23]))) \<and>
    stored m' (area + 0x23FFC - of_nat (4 * n)) (concat (map le32 (0 # take n (ta_args args)))) \<and>
    (\<forall>x. m' x \<noteq> m x \<longrightarrow> 0x13FB0 \<le> unat (x - area) \<and> unat (x - area) < 0x24000)"
proof -
  let ?ys = "concat (map le32 (0 # take n (ta_args args)))" and ?b = "area + 0x23FFC - of_nat (4 * n)"
  let ?frame = "[handlerReturn, 0, 0, 0x23] @ rev (pusha_registers cpu) @
      [32, 0, begin + 0x24000, 0x1B, eflags cpu, begin + 0x23FFC - of_nat (4 * n), 0x23]"
  let ?xs = "concat (map le32 ?frame)" and ?a = "area + 0x13FB0"
  have ly: "length ?ys = 4 * (n + 1)" using assms(5) by (simp only: length_dwords) simp
  have lx: "length ?xs = 76" using assms(6) by (simp only: length_dwords) simp
  have args: "write_arguments args m (area + 0x23FFC) = Some (store_bytes m ?b ?ys, ?b)"
  proof -
    have eq: "length (rev (take n (ta_args args)) @ [0]) = n + 1" using assms(5) by simp
    have b: "area + 0x23FFC + 4 - of_nat (4 * (n + 1)) = ?b" by simp
    have "fold push_dword (rev (take n (ta_args args)) @ [0]) (m, area + 0x23FFC + 4) = (store_bytes m ?b ?ys, ?b)"
      using push_dwords [of "rev (take n (ta_args args)) @ [0]" m "area + 0x23FFC + 4", unfolded eq b] assms(4) by simp
    moreover have "write_arguments args m (area + 0x23FFC) =
        Some (fold push_dword (rev (take n (ta_args args)) @ [0]) (m, area + 0x23FFC + 4))"
      by (rule write_arguments_pushes) (use assms(3,5) in simp_all)
    ultimately show ?thesis by (simp only:)
  qed
  have frame: "createIntStackForUserPriv handlerReturn cpu m0 (area + 0x13FFC) (begin + 0x23FFC - of_nat (4 * n)) (begin + 0x24000) 32 =
      (store_bytes m0 ?a ?xs, ?a)" for m0
  proof -
    have 19: "length (rev ?frame) = 19" using assms(6) by simp
    have esp: "area + 0x13FFC - of_nat (4 * 19) = ?a" by simp
    have "createIntStackForUserPriv handlerReturn cpu m0 (area + 0x13FFC) (begin + 0x23FFC - of_nat (4 * n)) (begin + 0x24000) 32 =
        fold push_dword (rev ?frame) (m0, area + 0x13FFC)"
      unfolding createIntStackForUserPriv_def by (simp only: rev_append rev.simps rev_rev_ident append.simps append_assoc)
    also have "\<dots> = (store_bytes m0 ?a ?xs, ?a)"
      using push_dwords [of "rev ?frame" m0 "area + 0x13FFC", unfolded 19 esp rev_rev_ident] by (simp only: mult_le_mono)
    finally show ?thesis .
  qed
  have virt: "0x23FFC - 4 * of_nat n + begin = begin + 0x23FFC - 4 * of_nat n" "0x24000 + begin = begin + 0x24000"
    by simp_all
  have call: "setTaskArguments handlerReturn cpu m task args =
      Some (store_bytes (store_bytes m ?b ?ys) ?a ?xs, task\<lparr>updatedKernelStack := ?a\<rparr>)"
    using assms(1-4) args frame
    by (simp add: setTaskArguments_def buildIntHandlerStackForUserPriv_def word_less_nat_alt virt)
  have dist: "unat (?b - ?a) = 65612 - 4 * n"
  proof -
    have "?b - ?a = of_nat (65612 - 4 * n)" using assms(4) by (simp add: of_nat_diff)
    then show ?thesis by (simp only: unat_of_nat_u32)
  qed
  note blocks = two_blocks [of ?xs ?b ?a ?ys m, unfolded dist lx ly]
  have "0x13FB0 \<le> unat (x - area) \<and> unat (x - area) < 0x24000" if "store_bytes (store_bytes m ?b ?ys) ?a ?xs x \<noteq> m x" for x
  proof -
    have d1: "?b = area + of_nat (147452 - 4 * n)" using assms(4) by (simp add: of_nat_diff)
    have d2: "unat (of_nat (147452 - 4 * n) :: u32) = 147452 - 4 * n" by (rule unat_of_nat_u32) simp
    have "76 \<le> 65612 - 4 * n" "65612 - 4 * n + 4 * (n + 1) \<le> 4294967296" using assms(4) by auto
    from blocks(3) [OF this that] show ?thesis
    proof
      assume 1: "unat (x - ?a) < 76"
      from offset_add [OF 1] 1 show ?thesis by simp
    next
      assume 2: "unat (x - ?b) < 4 * (n + 1)"
      have le: "147452 - 4 * n + 4 * (n + 1) \<le> 4294967296" using assms(4) by simp
      define u where "u = unat (x - (area + of_nat (147452 - 4 * n)))"
      have "unat (x - area) = u + (147452 - 4 * n)" "u < 4 * (n + 1)"
        using offset_add [OF 2 [unfolded d1], unfolded d2, OF le] 2 [unfolded d1] by (simp_all only: u_def)
      with assms(4) show ?thesis by auto
    qed
  qed
  then show ?thesis using call blocks assms(4) by (intro exI conjI) auto
qed

lemma task_first_stack_witness:
  "\<exists>m'. setTaskArguments 0x1234 \<lparr>eflags = 0x202, pusha_registers = replicate 8 0\<rparr> (\<lambda>_. 0) demo_user
      \<lparr>ta_args = [11, 22, 33, 0, 0], numArgs = 2\<rparr> = Some (m', demo_user\<lparr>updatedKernelStack := 0x4013FB0\<rparr>) \<and>
    stored m' 0x4023FF4 (concat (map le32 [0, 11, 22]))"
  using task_first_stack [of demo_user "0x8000000" "0x4000000" "\<lparr>ta_args = [11, 22, 33, 0, 0], numArgs = 2\<rparr>" 2
      "\<lparr>eflags = 0x202, pusha_registers = replicate 8 0\<rparr>" "0x1234" "\<lambda>_. 0"]
  by (auto simp: demo_user_def)

subsection \<open>Running out of memory\<close>

text \<open>When no 16 contiguous pages are free, a new kernel task takes the allocator's failure value
  \<open>0xFFC00000\<close> for its stack, and starting it does not report an error: it is activated with a stack in
  the window of the page tables.\<close>

theorem failed_allocation_used:
  assumes "pa_inv pages" "\<not> (\<exists>s. s + 16 \<le> 1047552 \<and> {s..<s + 16} \<inter> allocated pages = {})"
    and "cr3 core = kernelPageDirectoryPhysicalAddr core"
  shows "\<exists>task. KernelTask_new raw core pages = Some (task, pages) \<and> kernelStackSpaceBegin (task_kind task) = 0xFFC00000 \<and>
    KernelTask_setToRunningState core self task = activate_task core
      \<lparr>td_pTask = Some self, td_taskEsp = updatedKernelStack task, td_kernelEspStackBegin = 0xFFC0FFFC,
       td_pageDirectoryPhysicalAddr = cr3 core\<rparr> task"
proof -
  have served: "served_size 16" by (simp add: served_size_def)
  obtain a pages' where r: "allocateContiguousPages pages 16 = Some (a, pages')"
    using kernel_pages.alloc_total [OF assms(1) served] by blast
  have "a = 0xFFC00000"
  proof (rule ccontr)
    assume ok: "a \<noteq> 0xFFC00000"
    obtain s where "{s..<s + 16} \<inter> allocated pages = {}" "region pages' s 16"
      using kernel_pages.alloc_fresh [OF assms(1) served r ok] by auto
    then show False using assms(2) by (auto simp: region_def)
  qed
  moreover from this have "pages' = pages" using kernel_pages.alloc_failed [OF assms(1) served] r by blast
  ultimately show ?thesis using r assms(3) by (simp add: KernelTask_new_def KernelTask_setToRunningState_def)
qed

lemma failed_allocation_used_witness:
  "\<exists>pages task. KernelTask_new 0 (CpuCore_bind fresh_core) pages = Some (task, pages) \<and>
    kernelStackSpaceBegin (task_kind task) = 0xFFC00000"
proof -
  obtain st where st: "allocatePageRange demo_pages 0 0xFFBFF = Some st" "pa_inv st"
    "\<And>p. p < NUM_PAGES \<Longrightarrow> page_code st p = (if p \<le> 1047551 then page_code demo_pages p OR 1 else page_code demo_pages p)"
    by (rule allocatePageRange_spec [OF demo_pages_inv(1), of 0 "0xFFBFF"]) simp_all
  have full: "p \<in> allocated st" if "p < 1047552" for p
    using st(3) [of p] demo_pages_inv(2) that by (auto simp: allocated_def)
  have "\<not> (\<exists>s. s + 16 \<le> 1047552 \<and> {s..<s + 16} \<inter> allocated st = {})"
  proof
    assume "\<exists>s. s + 16 \<le> 1047552 \<and> {s..<s + 16} \<inter> allocated st = {}"
    then obtain s where s: "s + 16 \<le> 1047552" "{s..<s + 16} \<inter> allocated st = {}" by blast
    have "s \<in> {s..<s + 16}" by simp
    moreover have "s \<in> allocated st" by (rule full) (use s(1) in simp)
    ultimately have "s \<in> {s..<s + 16} \<inter> allocated st" by (rule IntI)
    then show False unfolding s(2) by simp
  qed
  moreover have "cr3 (CpuCore_bind fresh_core) = kernelPageDirectoryPhysicalAddr (CpuCore_bind fresh_core)"
    by (simp add: CpuCore_bind_def)
  ultimately show ?thesis using failed_allocation_used [OF st(2), of "CpuCore_bind fresh_core" 0] by blast
qed

end
