(* ===== verification/Network_Stack.thy ===== *)
theory Network_Stack
  imports Kernel_Types
begin

text \<open>
  \<open>network_management_task/network_stack_handler.h\<close>: Ethernet, ARP and IPv4. The handler owns an array
  of packet elements and threads three lists through it with the \<open>next\<close> pointers: unused elements,
  the first fragments of incomplete datagrams, and the datagrams that are ready to be read. The
  fragments of a datagram hang on its first one by \<open>nextFragment\<close>. The three template parameters
  are the length of \<open>packetListElements\<close> and the fields \<open>arpHashTableSize\<close> and
  \<open>arpHashEntryListSize\<close>.

  A received frame is the list of its bytes (\<open>dataLen\<close> is its length); reading past its end,
  following \<open>nullptr\<close> or overrunning a buffer is a fault (\<open>None\<close>). Loops over linked lists carry fuel,
  one round more than there are elements, which is enough for every list without a cycle (see
  \<open>Network_Pool\<close>).
\<close>

abbreviation (input) FRAGMENT_TIMEOUT :: u32 where "FRAGMENT_TIMEOUT \<equiv> 10"
abbreviation (input) ETHERNET_MTU :: u32 where "ETHERNET_MTU \<equiv> 1500"
abbreviation (input) ETHERNET_SIMPLE_HEADER_SIZE :: u32 where "ETHERNET_SIMPLE_HEADER_SIZE \<equiv> 14"
abbreviation (input) IPV4_MINIMAL_HEADER_SIZE :: u32 where "IPV4_MINIMAL_HEADER_SIZE \<equiv> 20"
abbreviation (input) UNUSED_ARP_ENTRY_TIMEOUT :: u32 where "UNUSED_ARP_ENTRY_TIMEOUT \<equiv> 15"
abbreviation (input) ARP_REQUEST_TIMEOUT :: u32 where "ARP_REQUEST_TIMEOUT \<equiv> 10"
abbreviation (input) ARP_ENTRY_TIMEOUT :: u32 where "ARP_ENTRY_TIMEOUT \<equiv> 120"
abbreviation (input) ARP_BROADCAST_ON_FAILURE_TIMEOUT :: u32 where "ARP_BROADCAST_ON_FAILURE_TIMEOUT \<equiv> 15"

record NetworkStackHandler =
  arpHashTableSize :: nat
  arpHashEntryListSize :: nat
  packetListElements :: "IPv4Packet dl_array"
  arpEntries :: "ARPEntry list"
  unusedPacketsHead :: ptr
  incompleteFragmentedDatagramsHead :: ptr
  readyToReadPacketsHead :: ptr
  readyToReadPacketsTail :: ptr
  myMac :: "u8 list"
  myIP :: u32
  gatewayIP :: u32
  networkMask :: u32
  ns_timerCounter :: int
  identificationCounter :: u16

abbreviation (input) pk_at :: "NetworkStackHandler \<Rightarrow> nat \<Rightarrow> IPv4Packet" where
  "pk_at st i \<equiv> dl_value (packetListElements st ! i)"

definition put_packet :: "NetworkStackHandler \<Rightarrow> nat \<Rightarrow> IPv4Packet \<Rightarrow> NetworkStackHandler" where
  "put_packet st i pk = st\<lparr>packetListElements := set_value (packetListElements st) i pk\<rparr>"

text \<open>The constructor; \<open>raw\<close> is what the elements held before (the fields it does not set).\<close>

definition NetworkStackHandler_new ::
  "nat \<Rightarrow> nat \<Rightarrow> IPv4Packet dl_array \<Rightarrow> u8 list \<Rightarrow> u32 \<Rightarrow> u32 \<Rightarrow> u32 \<Rightarrow> NetworkStackHandler" where
  "NetworkStackHandler_new hashTableSize hashEntryListSize raw mac ip gateway netmask =
     \<lparr>arpHashTableSize = hashTableSize, arpHashEntryListSize = hashEntryListSize,
      packetListElements = map (\<lambda>i. (raw ! i)\<lparr>dl_next := if i \<noteq> length raw - 1 then Some (i + 1) else None\<rparr>)
        [0..<length raw],
      arpEntries = replicate (hashTableSize * hashEntryListSize)
        \<lparr>arp_IP = 0, lastUsed = -1, lastRequested = -1, lastAnswered = -1, arp_MAC = replicate 6 0\<rparr>,
      unusedPacketsHead = Some 0, incompleteFragmentedDatagramsHead = None,
      readyToReadPacketsHead = None, readyToReadPacketsTail = None,
      myMac = mac, myIP = ip, gatewayIP = gateway, networkMask = (if netmask \<le> 32 then netmask else 24),
      ns_timerCounter = 0, identificationCounter = 0\<rparr>"

subsection \<open>Time\<close>

definition passedTimeSince :: "NetworkStackHandler \<Rightarrow> int \<Rightarrow> u32" where
  "passedTimeSince st old =
     (if ns_timerCounter st \<ge> old then of_int (ns_timerCounter st - old)
      else (2147483647 - of_int old + 1) + of_int (ns_timerCounter st))"

text \<open>The increment of the 32-bit counter wraps to a negative number, which is reset.\<close>

definition incrementTimerCounter :: "NetworkStackHandler \<Rightarrow> NetworkStackHandler" where
  "incrementTimerCounter st =
     (let t = ns_timerCounter st + 1; t = (if t = 2147483648 then - 2147483648 else t)
      in st\<lparr>ns_timerCounter := if t < 0 then 0 else t\<rparr>)"

subsection \<open>The lists of packets\<close>

text \<open>The loop of \<open>insertFragmentedPacketsInUnusedPacketsList\<close>: copy the fragment chain into the \<open>next\<close>
  pointers; the result is the last fragment.\<close>

primrec link_fragments :: "nat \<Rightarrow> IPv4Packet dl_array \<Rightarrow> nat \<Rightarrow> (IPv4Packet dl_array \<times> nat) option" where
  "link_fragments 0 es f = None"
| "link_fragments (Suc n) es f = do {
     e \<leftarrow> arr_get es f;
     let es = set_next es f (nextFragment (dl_value e));
     case nextFragment (dl_value e) of None \<Rightarrow> Some (es, f) | Some g \<Rightarrow> link_fragments n es g }"

definition insertFragmentedPacketsInUnusedPacketsList ::
  "NetworkStackHandler \<Rightarrow> ptr \<Rightarrow> NetworkStackHandler option" where
  "insertFragmentedPacketsInUnusedPacketsList st firstFragment =
     (case firstFragment of
        None \<Rightarrow> Some st
      | Some f \<Rightarrow> do {
          (es, listLast) \<leftarrow> link_fragments (length (packetListElements st)) (packetListElements st) f;
          Some (st\<lparr>packetListElements := set_next es listLast (unusedPacketsHead st), unusedPacketsHead := Some f\<rparr>) })"

definition makeSureUnusedPacketsHeadIsntNullptr :: "NetworkStackHandler \<Rightarrow> (bool \<times> NetworkStackHandler) option" where
  "makeSureUnusedPacketsHeadIsntNullptr st =
     (if unusedPacketsHead st \<noteq> None then Some (True, st)
      else case incompleteFragmentedDatagramsHead st of
        None \<Rightarrow> Some (False, st)
      | Some i \<Rightarrow> do {
          e \<leftarrow> arr_get (packetListElements st) i;
          st \<leftarrow> insertFragmentedPacketsInUnusedPacketsList
            (st\<lparr>incompleteFragmentedDatagramsHead := dl_next e\<rparr>) (Some i);
          Some (True, st) })"

definition insertInReadyToReadPacketsList :: "NetworkStackHandler \<Rightarrow> nat \<Rightarrow> NetworkStackHandler option" where
  "insertInReadyToReadPacketsList st new =
     (let es = set_prev (set_next (packetListElements st) new None) new (readyToReadPacketsTail st) in
      case readyToReadPacketsTail st of
        None \<Rightarrow> Some (st\<lparr>packetListElements := es, readyToReadPacketsHead := Some new, readyToReadPacketsTail := Some new\<rparr>)
      | Some t \<Rightarrow>
          if t < length es
          then Some (st\<lparr>packetListElements := set_next es t (Some new), readyToReadPacketsTail := Some new\<rparr>)
          else None)"

text \<open>\<open>nextListElementPtr\<close>, a pointer to a list pointer: \<open>None\<close> stands for the head of the incomplete
  datagrams, \<open>Some p\<close> for the \<open>next\<close> field of element \<open>p\<close>.\<close>

definition get_link :: "NetworkStackHandler \<Rightarrow> ptr \<Rightarrow> ptr" where
  "get_link st q = (case q of None \<Rightarrow> incompleteFragmentedDatagramsHead st
     | Some p \<Rightarrow> dl_next (packetListElements st ! p))"

definition set_link :: "NetworkStackHandler \<Rightarrow> ptr \<Rightarrow> ptr \<Rightarrow> NetworkStackHandler" where
  "set_link st q v = (case q of None \<Rightarrow> st\<lparr>incompleteFragmentedDatagramsHead := v\<rparr>
     | Some p \<Rightarrow> st\<lparr>packetListElements := set_next (packetListElements st) p v\<rparr>)"

definition same_datagram :: "IPv4Packet \<Rightarrow> IPv4Packet \<Rightarrow> bool" where
  "same_datagram a b \<longleftrightarrow> sourceIP a = sourceIP b \<and> destIP a = destIP b \<and> identification a = identification b"

text \<open>The first loop of \<open>insertInIncompleteFragmentedDatagramsList\<close>: drop datagrams that timed out, stop at
  the datagram of the new fragment or at the end.\<close>

primrec find_datagram :: "nat \<Rightarrow> NetworkStackHandler \<Rightarrow> ptr \<Rightarrow> nat \<Rightarrow> (NetworkStackHandler \<times> ptr) option" where
  "find_datagram 0 st q new = None"
| "find_datagram (Suc n) st q new =
     (case get_link st q of
        None \<Rightarrow> Some (st, q)
      | Some c \<Rightarrow> do {
          e \<leftarrow> arr_get (packetListElements st) c;
          if passedTimeSince st (sint (createdTime (dl_value e))) > FRAGMENT_TIMEOUT then do {
            st \<leftarrow> insertFragmentedPacketsInUnusedPacketsList (set_link st q (dl_next e)) (Some c);
            find_datagram n st q new }
          else if same_datagram (pk_at st new) (dl_value e) then Some (st, q)
          else find_datagram n st (Some c) new })"

text \<open>The second loop: the fragments with a smaller offset. The result is where the new one belongs and
  whether the fragments before are complete, or the early \<open>return\<close> behind a last fragment.\<close>

datatype position = Return_Early
  | Position (pos_previous: ptr) (pos_current: ptr) (pos_offset: u32) (pos_size: u32) (pos_full: bool)

primrec find_position ::
  "nat \<Rightarrow> IPv4Packet dl_array \<Rightarrow> nat \<Rightarrow> ptr \<Rightarrow> ptr \<Rightarrow> u32 \<Rightarrow> u32 \<Rightarrow> bool \<Rightarrow> position option" where
  "find_position 0 es new previous current previousOffset previousSize full = None"
| "find_position (Suc n) es new previous current previousOffset previousSize full =
     (case current of
        None \<Rightarrow> Some (Position previous None previousOffset previousSize full)
      | Some c \<Rightarrow> do {
          e \<leftarrow> arr_get es c;
          let pk = dl_value e;
          if fragmentOffset pk < fragmentOffset (dl_value (es ! new)) then
            let full = (if fragmentOffset pk \<noteq> previousOffset + previousSize then False else full) in
            if \<not> moreFragments pk then Some Return_Early
            else find_position n es new (Some c) (nextFragment pk) (fragmentOffset pk) (dataSize pk) full
          else Some (Position previous current previousOffset previousSize full) })"

text \<open>The third loop: whether the new fragment and those behind it are complete; the last fragment visited
  is part of the result.\<close>

primrec check_complete ::
  "nat \<Rightarrow> IPv4Packet dl_array \<Rightarrow> ptr \<Rightarrow> ptr \<Rightarrow> u32 \<Rightarrow> u32 \<Rightarrow> bool \<Rightarrow> (bool \<times> ptr \<times> ptr) option" where
  "check_complete 0 es previous current previousOffset previousSize full = None"
| "check_complete (Suc n) es previous current previousOffset previousSize full =
     (if \<not> full then Some (False, previous, current)
      else case current of
        None \<Rightarrow> Some (full, previous, None)
      | Some c \<Rightarrow> do {
          e \<leftarrow> arr_get es c;
          let pk = dl_value e;
          check_complete n es (Some c) (nextFragment pk) (fragmentOffset pk) (dataSize pk)
            (fragmentOffset pk = previousOffset + previousSize) })"

text \<open>Linking the new fragment in; \<open>None\<close> inside is the early \<open>return\<close>.\<close>

definition link_fragment ::
  "NetworkStackHandler \<Rightarrow> ptr \<Rightarrow> nat \<Rightarrow> ptr \<Rightarrow> ptr \<Rightarrow> NetworkStackHandler option option" where
  "link_fragment st q new previous current =
     (let newest = pk_at st new in
      case previous of
        None \<Rightarrow>
          if \<not> moreFragments newest then Some None
          else (case current of None \<Rightarrow> None
            | Some c \<Rightarrow>
                let st = put_packet st new (newest\<lparr>createdTime := createdTime (pk_at st c), nextFragment := current\<rparr>);
                    st = st\<lparr>packetListElements := set_next (packetListElements st) new
                             (case get_link st q of None \<Rightarrow> None | Some h \<Rightarrow> dl_next (packetListElements st ! h))\<rparr>
                in Some (Some (set_link st q (Some new))))
      | Some p \<Rightarrow>
          if current = None then Some (Some (put_packet st p ((pk_at st p)\<lparr>nextFragment := Some new\<rparr>)))
          else if \<not> moreFragments newest then Some None
          else
            let st = put_packet st new (newest\<lparr>nextFragment := current\<rparr>)
            in Some (Some (put_packet st p ((pk_at st p)\<lparr>nextFragment := Some new\<rparr>))))"

definition insertInIncompleteFragmentedDatagramsList ::
  "NetworkStackHandler \<Rightarrow> nat \<Rightarrow> NetworkStackHandler option" where
  "insertInIncompleteFragmentedDatagramsList st new =
     (let fuel = length (packetListElements st) + 1 in do {
      (st, q) \<leftarrow> find_datagram fuel st None new;
      case get_link st q of
        None \<Rightarrow> Some (set_link st q (Some new))
      | Some h \<Rightarrow> do {
          pos \<leftarrow> find_position fuel (packetListElements st) new None (Some h) 0 0 True;
          case pos of
            Return_Early \<Rightarrow> Some st
          | Position previous current previousOffset previousSize full \<Rightarrow> do {
              linked \<leftarrow> link_fragment st q new previous current;
              case linked of
                None \<Rightarrow> Some st
              | Some st \<Rightarrow> do {
                  (full, previous, current) \<leftarrow>
                    check_complete fuel (packetListElements st) previous (Some new) previousOffset previousSize full;
                  if full \<and> current = None then do {
                    l \<leftarrow> previous;
                    if \<not> moreFragments (pk_at st l) then do {
                      h \<leftarrow> get_link st q;
                      insertInReadyToReadPacketsList (set_link st q (dl_next (packetListElements st ! h))) h }
                    else Some st }
                  else Some st } } } })"

definition getLatestIPv4Packet :: "NetworkStackHandler \<Rightarrow> ptr" where
  "getLatestIPv4Packet st = readyToReadPacketsHead st"

definition popLatestIPv4Packet :: "NetworkStackHandler \<Rightarrow> NetworkStackHandler option" where
  "popLatestIPv4Packet st =
     (case readyToReadPacketsHead st of
        None \<Rightarrow> Some st
      | Some popped \<Rightarrow> do {
          e \<leftarrow> arr_get (packetListElements st) popped;
          let st = (if readyToReadPacketsTail st = Some popped then st\<lparr>readyToReadPacketsTail := None\<rparr> else st);
          let es = (case dl_next e of None \<Rightarrow> packetListElements st
                    | Some h \<Rightarrow> set_prev (packetListElements st) h None);
          insertFragmentedPacketsInUnusedPacketsList
            (st\<lparr>packetListElements := es, readyToReadPacketsHead := dl_next e\<rparr>) (Some popped) })"

subsection \<open>Incoming frames\<close>

definition incomingARPPacketHelper :: "NetworkStackHandler \<Rightarrow> u8 list \<Rightarrow> PacketType \<times> NetworkStackHandler" where
  "incomingARPPacketHelper st data =
     (if length data < 42 then (UnknownType, st)
      else
        let operation = u16_be (data ! 20) (data ! 21);
            arpProtocolType = u16_be (data ! 16) (data ! 17) in
        if arpProtocolType = 0x0800 then
          if operation = 2 then
            let senderIP = u32_be (data ! 28) (data ! 29) (data ! 30) (data ! 31);
                base = unat senderIP mod arpHashTableSize st * arpHashEntryListSize st in
            (ARPReply,
             case find (\<lambda>i. arp_IP (arpEntries st ! i) = senderIP) [base..<base + arpHashEntryListSize st] of
               None \<Rightarrow> st
             | Some i \<Rightarrow> st\<lparr>arpEntries := (arpEntries st)
                 [i := (arpEntries st ! i)\<lparr>arp_MAC := take 6 (drop 22 data), lastAnswered := ns_timerCounter st\<rparr>]\<rparr>)
          else if operation = 1 then
            (if u32_be (data ! 38) (data ! 39) (data ! 40) (data ! 41) \<noteq> myIP st then NotForThisMachine else ARPRequest, st)
          else (UnknownType, st)
        else (UnknownType, st))"

text \<open>The packet a valid IPv4 frame describes, in the element that held \<open>old\<close>.\<close>

definition received_packet :: "NetworkStackHandler \<Rightarrow> u8 list \<Rightarrow> nat \<Rightarrow> nat \<Rightarrow> IPv4Packet \<Rightarrow> IPv4Packet" where
  "received_packet st data hl len old =
     \<lparr>sourceIP = u32_be (data ! 26) (data ! 27) (data ! 28) (data ! 29),
      destIP = u32_be (data ! 30) (data ! 31) (data ! 32) (data ! 33),
      dataSize = of_nat (len - hl), protocol = data ! 23,
      moreFragments = (data ! 20 AND 0x20 \<noteq> 0),
      fragmentOffset = 8 * (push_bit 8 (ucast (data ! 20 AND 0x1F)) + ucast (data ! 21)),
      identification = ucast (u16_be (data ! 18) (data ! 19)),
      nextFragment = None, createdTime = of_int (ns_timerCounter st),
      pData = take (len - hl) (drop (14 + hl) data) @ drop (len - hl) (pData old)\<rparr>"

definition incomingIPv4PacketHelper :: "NetworkStackHandler \<Rightarrow> u8 list \<Rightarrow> (PacketType \<times> NetworkStackHandler) option" where
  "incomingIPv4PacketHelper st data =
     (if length data < 34 then Some (UnknownType, st)
      else
        let hl = unat (data ! 14 AND 0xF) * 4;
            version = drop_bit 4 (data ! 14 AND 0xF0);
            dest = u32_be (data ! 30) (data ! 31) (data ! 32) (data ! 33);
            len = unat (u16_be (data ! 16) (data ! 17)) in
        if version \<noteq> 4 \<or> hl < 20 then Some (UnknownType, st)
        else if dest \<noteq> myIP st \<and> dest \<noteq> 0xFFFFFFFF then Some (NotForThisMachine, st)
        else if len < hl \<or> length data < len + 14 then Some (UnknownType, st)
        else do {
          (available, st) \<leftarrow> makeSureUnusedPacketsHeadIsntNullptr st;
          if \<not> available then Some (IPv4PacketType, st)
          else do {
            u \<leftarrow> unusedPacketsHead st;
            e \<leftarrow> arr_get (packetListElements st) u;
            if length (pData (dl_value e)) < len - hl then None
            else do {
              let pk = received_packet st data hl len (dl_value e);
              let st = st\<lparr>unusedPacketsHead := dl_next e,
                          packetListElements := set_value (set_next (packetListElements st) u None) u pk\<rparr>;
              st \<leftarrow> (if moreFragments pk \<or> fragmentOffset pk \<noteq> 0
                     then insertInIncompleteFragmentedDatagramsList st u
                     else insertInReadyToReadPacketsList st u);
              Some (IPv4PacketType, st) } } })"

text \<open>The two tests of \<open>handleIncomingEthernetPacket\<close> for short frames and for foreign addresses are
  expression statements without effect: the source says \<open>if(\<dots>) PacketType::UnknownType;\<close> without
  \<open>return\<close>. A frame of fewer than 14 bytes is then read past its end.\<close>

definition handleIncomingEthernetPacket :: "NetworkStackHandler \<Rightarrow> u8 list \<Rightarrow> (PacketType \<times> NetworkStackHandler) option" where
  "handleIncomingEthernetPacket st data =
     (if length data < 14 then None
      else
        let protocolType = u16_be (data ! 12) (data ! 13) in
        if protocolType = 0x0806 then Some (incomingARPPacketHelper st data)
        else if protocolType = 0x0800 then incomingIPv4PacketHelper st data
        else Some (UnknownType, st))"

subsection \<open>Outgoing frames\<close>

text \<open>\<open>data\<close> and \<open>writeBuffer\<close> are addresses in \<open>m\<close>, 0 is \<open>nullptr\<close>; the number returned is the length of
  the frame written.\<close>

definition ethernet_header :: "u8 list \<Rightarrow> u8 list \<Rightarrow> u16 \<Rightarrow> u8 list" where
  "ethernet_header dest src ty = dest @ src @ [byte_at 1 ty, byte_at 0 ty]"

definition be32 :: "u32 \<Rightarrow> u8 list" where
  "be32 w = [byte_at 3 w, byte_at 2 w, byte_at 1 w, byte_at 0 w]"

definition arp_body :: "NetworkStackHandler \<Rightarrow> u8 \<Rightarrow> u8 list \<Rightarrow> u32 \<Rightarrow> u8 list" where
  "arp_body st operation targetMac targetIP =
     [0x00, 0x01, 0x08, 0x00, 0x06, 0x04, 0x00, operation] @ myMac st @ be32 (myIP st) @ targetMac @ be32 targetIP"

definition handleOutgoingEthernetPacket ::
  "NetworkStackHandler \<Rightarrow> memory \<Rightarrow> u8 list \<Rightarrow> u32 \<Rightarrow> u32 \<Rightarrow> u32 \<Rightarrow> u32 \<times> memory" where
  "handleOutgoingEthernetPacket st m destinationMac data dataLen writeBuffer =
     (if dataLen > ETHERNET_MTU then (0, m)
      else if writeBuffer = 0 then (0, m)
      else
        let m = store_bytes m writeBuffer (ethernet_header destinationMac (myMac st) (ucast dataLen));
            m = store_bytes m (writeBuffer + 14) (load_bytes m data (unat dataLen))
        in (dataLen + 14, m))"

definition sendARPRequest :: "NetworkStackHandler \<Rightarrow> memory \<Rightarrow> u32 \<Rightarrow> u32 \<Rightarrow> u32 \<times> memory" where
  "sendARPRequest st m destinationIP writeBuffer =
     (28 + 14, store_bytes m writeBuffer
        (ethernet_header (replicate 6 0xFF) (myMac st) 0x0806 @ arp_body st 1 (replicate 6 0) destinationIP))"

definition handleOutgoingArpReply :: "NetworkStackHandler \<Rightarrow> memory \<Rightarrow> u8 list \<Rightarrow> u32 \<Rightarrow> (u32 \<times> memory) option" where
  "handleOutgoingArpReply st m incomingARPReq writeBuffer =
     (if writeBuffer = 0 then Some (0, m)
      else if length incomingARPReq < 32 then None
      else
        let mac = take 6 (drop 22 incomingARPReq);
            ip = u32_be (incomingARPReq ! 28) (incomingARPReq ! 29) (incomingARPReq ! 30) (incomingARPReq ! 31) in
        Some (28 + 14, store_bytes m writeBuffer (ethernet_header mac (myMac st) 0x0806 @ arp_body st 2 mac ip)))"

text \<open>The search for an ARP entry: the entry of the next hop, else the best one to replace. \<open>arpEntry\<close> is
  the candidate so far.\<close>

fun find_arp_entry :: "NetworkStackHandler \<Rightarrow> u32 \<Rightarrow> nat list \<Rightarrow> ptr \<Rightarrow> ptr" where
  "find_arp_entry st nextHopIP [] arpEntry = arpEntry"
| "find_arp_entry st nextHopIP (i # is) arpEntry =
     (let entry = arpEntries st ! i; cand = arpEntries st ! (the arpEntry) in
      if arp_IP entry = nextHopIP then Some i
      else if arpEntry = None \<or> arp_IP cand \<noteq> 0 then
        (if arp_IP entry = 0 then find_arp_entry st nextHopIP is (Some i)
         else if lastUsed entry = -1 \<and> passedTimeSince st (lastRequested entry) > UNUSED_ARP_ENTRY_TIMEOUT
         then find_arp_entry st nextHopIP is (Some i)
         else if lastUsed entry \<noteq> -1 \<and> (arpEntry = None \<or> lastUsed cand \<noteq> -1 \<and>
                passedTimeSince st (lastUsed entry) > passedTimeSince st (lastUsed cand))
         then find_arp_entry st nextHopIP is (Some i)
         else find_arp_entry st nextHopIP is arpEntry)
      else find_arp_entry st nextHopIP is arpEntry)"

text \<open>The shift takes its distance modulo 32, as the processor does: with a mask of 0 nothing is shifted out.\<close>

definition next_hop :: "NetworkStackHandler \<Rightarrow> u32 \<Rightarrow> u32" where
  "next_hop st destinationIP =
     (let bitMask = push_bit ((32 - unat (networkMask st)) mod 32) (NOT 0) in
      if destinationIP AND bitMask = myIP st AND bitMask then destinationIP else gatewayIP st)"

text \<open>The ARP part of \<open>handleOutgoingIPv4Packet\<close>: either the entry to use (its address may be replaced by the
  broadcast address), or what the function returns early.\<close>

datatype arp_outcome = Resolved nat | Not_Resolved IPv4PacketProgress u32

definition set_arp :: "NetworkStackHandler \<Rightarrow> nat \<Rightarrow> ARPEntry \<Rightarrow> NetworkStackHandler" where
  "set_arp st i e = st\<lparr>arpEntries := (arpEntries st)[i := e]\<rparr>"

definition request_again :: "NetworkStackHandler \<Rightarrow> memory \<Rightarrow> nat \<Rightarrow> u32 \<Rightarrow> u32 \<Rightarrow> arp_outcome \<times> NetworkStackHandler \<times> memory"
  where
  "request_again st m i nextHopIP writeBuffer =
     (let st = set_arp st i ((arpEntries st ! i)\<lparr>lastRequested := ns_timerCounter st\<rparr>);
          (n, m) = sendARPRequest st m nextHopIP writeBuffer
      in (Not_Resolved WaitingOnARPReply n, st, m))"

definition resolve_arp ::
  "NetworkStackHandler \<Rightarrow> memory \<Rightarrow> u32 \<Rightarrow> u32 \<Rightarrow> arp_outcome \<times> NetworkStackHandler \<times> memory" where
  "resolve_arp st m nextHopIP writeBuffer =
     (let base = unat nextHopIP mod arpHashTableSize st * arpHashEntryListSize st in
      case find_arp_entry st nextHopIP [base..<base + arpHashEntryListSize st] None of
        None \<Rightarrow> (Not_Resolved ARPTableFull 0, st, m)
      | Some i \<Rightarrow>
          let e = arpEntries st ! i;
              e = (if arp_IP e \<noteq> nextHopIP
                   then e\<lparr>arp_IP := nextHopIP, lastUsed := -1, lastRequested := -1, lastAnswered := -1\<rparr> else e);
              st = set_arp st i e in
          if lastRequested e = -1 then request_again st m i nextHopIP writeBuffer
          else if lastAnswered e = -1 \<or> passedTimeSince st (lastAnswered e) > passedTimeSince st (lastRequested e) then
            (if passedTimeSince st (lastRequested e) > ARP_REQUEST_TIMEOUT \<and>
                passedTimeSince st (lastRequested e) \<le> ARP_BROADCAST_ON_FAILURE_TIMEOUT
             then (Resolved i, set_arp st i (e\<lparr>arp_MAC := replicate 6 0xFF\<rparr>), m)
             else if passedTimeSince st (lastRequested e) > ARP_BROADCAST_ON_FAILURE_TIMEOUT
             then request_again st m i nextHopIP writeBuffer
             else (Not_Resolved WaitingOnARPReply 0, st, m))
          else if passedTimeSince st (lastAnswered e) > ARP_ENTRY_TIMEOUT
          then request_again st m i nextHopIP writeBuffer
          else (Resolved i, st, m))"

definition ipv4_header :: "u32 \<Rightarrow> u16 \<Rightarrow> bool \<Rightarrow> u32 \<Rightarrow> u8 \<Rightarrow> u32 \<Rightarrow> u32 \<Rightarrow> u8 list" where
  "ipv4_header fragmentSize ident lastFragment offset proto source destination =
     (let total = IPV4_MINIMAL_HEADER_SIZE + fragmentSize;
          flags = ucast ((if lastFragment then 0 else 0x2000) OR drop_bit 3 offset) :: u16 in
      [0x45, 0x00, byte_at 1 total, byte_at 0 total, byte_at 1 ident, byte_at 0 ident,
       byte_at 1 flags, byte_at 0 flags, 255, proto, 0, 0] @ be32 source @ be32 destination)"

definition handleOutgoingIPv4Packet ::
  "NetworkStackHandler \<Rightarrow> memory \<Rightarrow> u32 \<Rightarrow> u8 \<Rightarrow> u32 \<Rightarrow> u32 \<Rightarrow> u16 \<Rightarrow> u32 \<Rightarrow> u32 \<Rightarrow>
     (IPv4PacketProgress \<times> u32) \<times> u16 \<times> u32 \<times> NetworkStackHandler \<times> memory" where
  "handleOutgoingIPv4Packet st m destinationIP proto data dataLen ident offset writeBuffer =
     (if data = 0 \<or> writeBuffer = 0 then ((Done, 0), ident, offset, st, m)
      else if dataLen \<le> offset then ((Done, 0), ident, offset, st, m)
      else case resolve_arp st m (next_hop st destinationIP) writeBuffer of
        (Not_Resolved progress n, st, m) \<Rightarrow> ((progress, n), ident, offset, st, m)
      | (Resolved i, st, m) \<Rightarrow>
          let e = (arpEntries st ! i)\<lparr>lastUsed := ns_timerCounter st\<rparr>;
              st = set_arp st i e;
              lastFragment = (dataLen - offset < ETHERNET_MTU - IPV4_MINIMAL_HEADER_SIZE);
              fragmentSize = (if lastFragment then dataLen - offset else ETHERNET_MTU - IPV4_MINIMAL_HEADER_SIZE);
              (ident, st) = (if offset = 0
                then (identificationCounter st, st\<lparr>identificationCounter := identificationCounter st + 1\<rparr>)
                else (ident, st));
              m = store_bytes m writeBuffer (ethernet_header (arp_MAC e) (myMac st) 0x0800 @
                    ipv4_header fragmentSize ident lastFragment offset proto (myIP st) destinationIP);
              m = store_bytes m (writeBuffer + 34) (load_bytes m (data + offset) (unat fragmentSize))
          in ((if lastFragment then Done else SendingFragment, 34 + fragmentSize), ident, offset + fragmentSize, st, m))"

end
