(* ===== verification/Network_Pool.thy ===== *)
theory Network_Pool
  imports Network_Stack "HOL-Library.Multiset"
begin

text \<open>
  The packet elements of the network stack handler: \<open>packet_pool st H U I R\<close> says that the unused list is \<open>U\<close>,
  the incomplete datagrams are the fragment chains \<open>I\<close>, the readable ones the chains \<open>R\<close> (in order), that
  the elements \<open>H\<close> are in no list, and that no element is in two places. Every operation is
  shown to be total on such states and to move elements between the lists as intended.
\<close>

subsection \<open>Chains of fragments\<close>

definition frag :: "IPv4Packet dl_array \<Rightarrow> nat \<Rightarrow> ptr" where
  "frag es i = nextFragment (dl_value (es ! i))"

definition chain :: "IPv4Packet dl_array \<Rightarrow> nat list \<Rightarrow> bool" where
  "chain es c \<longleftrightarrow> c \<noteq> [] \<and> seg (frag es) (Some (hd c)) c None"

definition packet_pool ::
  "NetworkStackHandler \<Rightarrow> nat list \<Rightarrow> nat list \<Rightarrow> nat list list \<Rightarrow> nat list list \<Rightarrow> bool" where
  "packet_pool st H U I R \<longleftrightarrow>
     (let es = packetListElements st in
      seg (nxt es) (unusedPacketsHead st) U None \<and>
      seg (nxt es) (incompleteFragmentedDatagramsHead st) (map hd I) None \<and>
      seg (nxt es) (readyToReadPacketsHead st) (map hd R) None \<and>
      readyToReadPacketsTail st = last_ptr None (map hd R) \<and>
      (\<forall>c \<in> set (I @ R). chain es c) \<and>
      distinct (H @ U @ concat I @ concat R) \<and> set (H @ U @ concat I @ concat R) \<subseteq> {..<length es} \<and>
      (\<forall>i < length es. length (pData (dl_value (es ! i))) = RX_BUFFER_SIZE))"

lemma frag_updates [simp]:
  "frag (set_next es i p) = frag es" "frag (set_prev es i p) = frag es"
  "i < length es \<Longrightarrow> frag (set_value es i pk) = (frag es)(i := nextFragment pk)"
  by (auto simp: frag_def set_value_def)

lemma chain_frame: "(\<And>i. i \<in> set c \<Longrightarrow> frag es' i = frag es i) \<Longrightarrow> chain es' c = chain es c"
  using seg_cong [of c "frag es'" "frag es"] by (auto simp: chain_def)

lemma chain_heads: "\<forall>c \<in> set cs. chain es c \<Longrightarrow> set (map hd cs) \<subseteq> set (concat cs)"
  by (auto simp: chain_def set_concat intro: hd_in_set)

declare set_concat [simp del]

lemma chain_values: "(\<And>j. dl_value (es' ! j) = dl_value (es ! j)) \<Longrightarrow> chain es' k = chain es k"
  by (rule chain_frame) (simp add: frag_def)

lemma seg_distinct_heads:
  "distinct (concat cs) \<Longrightarrow> (\<And>c. c \<in> set cs \<Longrightarrow> c \<noteq> []) \<Longrightarrow> distinct (map hd cs)"
proof (induction cs)
  case (Cons c cs)
  have "hd c \<notin> set (map hd cs)"
  proof
    assume "hd c \<in> set (map hd cs)"
    then obtain k where "k \<in> set cs" "hd c = hd k" by auto
    then have "hd c \<in> set c" "hd c \<in> set k"
      using Cons.prems(2) [of c] Cons.prems(2) [of k] hd_in_set [of c] hd_in_set [of k] by auto
    with Cons.prems(1) \<open>k \<in> set cs\<close> show False by (auto simp: set_concat)
  qed
  with Cons show ?case by auto
qed simp

lemma seg_position:
  "seg nx h (xs @ ys) None \<Longrightarrow> (case last_ptr None xs of None \<Rightarrow> h | Some p \<Rightarrow> nx p) = hd_ptr ys None"
proof (cases xs rule: rev_cases)
  case Nil
  then show "seg nx h (xs @ ys) None \<Longrightarrow> ?thesis" using seg_head by auto
next
  case (snoc zs z)
  assume "seg nx h (xs @ ys) None"
  with snoc have "seg nx (nx z) ys None" by (auto simp: seg_append)
  with snoc seg_head show ?thesis by simp
qed

lemma seg_retarget:
  assumes "seg nx h (xs @ ys) None" "distinct xs" "seg nx' v zs None"
    and "\<And>i. i \<in> set xs \<Longrightarrow> nx' i = (if i = last xs then v else nx i)"
  shows "seg nx' (if xs = [] then v else h) (xs @ zs) None"
proof (cases xs rule: rev_cases)
  case (snoc ws w)
  with assms(1) have "seg nx h ws (Some w)" by (auto simp: seg_append)
  moreover have "\<And>i. i \<in> set ws \<Longrightarrow> nx' i = nx i" "nx' w = v" using assms(2,4) snoc by auto
  ultimately have "seg nx' h ws (Some w)" using seg_cong [of ws nx' nx] by simp
  with snoc assms(3) \<open>nx' w = v\<close> show ?thesis by (simp add: seg_append)
qed (use assms in simp)

subsection \<open>Giving a chain back\<close>

lemma link_fragments_chain:
  assumes "seg (frag es) (Some (hd c)) c None" "c \<noteq> []" "distinct c" "set c \<subseteq> {..<length es}" "length c \<le> n"
  shows "\<exists>es'. link_fragments n es (hd c) = Some (es', last c) \<and> length es' = length es \<and>
    (\<forall>j. dl_value (es' ! j) = dl_value (es ! j)) \<and> nxt es' = (\<lambda>j. if j \<in> set c then frag es j else nxt es j)"
  using assms
proof (induction c arbitrary: es n)
  case (Cons i c)
  then obtain k where n: "n = Suc k" by (cases n) auto
  have i: "i < length es" using Cons.prems by simp
  show ?case
  proof (cases c)
    case Nil
    then have "frag es i = None" using Cons.prems by simp
    then show ?thesis using Nil i n by (auto simp: frag_def fun_eq_iff)
  next
    case (Cons g c')
    let ?es = "set_next es i (frag es i)"
    have fi: "frag es i = Some g" using Cons.prems(1) Cons by simp
    have "\<exists>es'. link_fragments k ?es (hd c) = Some (es', last c) \<and> length es' = length ?es \<and>
        (\<forall>j. dl_value (es' ! j) = dl_value (?es ! j)) \<and> nxt es' = (\<lambda>j. if j \<in> set c then frag ?es j else nxt ?es j)"
      by (rule Cons.IH) (use Cons.prems Cons n in auto)
    then obtain es' where es': "link_fragments k ?es g = Some (es', last c)" "length es' = length es"
      "\<And>j. dl_value (es' ! j) = dl_value (es ! j)" "nxt es' = (\<lambda>j. if j \<in> set c then frag es j else nxt ?es j)"
      unfolding frag_updates(1) using Cons by auto
    have "link_fragments n es i = Some (es', last (i # c))"
      using n i fi es'(1) Cons by (simp add: frag_def)
    moreover have "nxt es' = (\<lambda>j. if j \<in> set (i # c) then frag es j else nxt es j)"
      using es'(4) i Cons.prems(3) by (auto simp: fun_eq_iff)
    ultimately show ?thesis using es'(2,3) by auto
  qed
qed simp

lemma give_back:
  assumes c: "chain (packetListElements st) c" "distinct c" "set c \<subseteq> {..<length (packetListElements st)}"
  shows "\<exists>es'. insertFragmentedPacketsInUnusedPacketsList st (Some (hd c)) =
      Some (st\<lparr>packetListElements := es', unusedPacketsHead := Some (hd c)\<rparr>) \<and>
    length es' = length (packetListElements st) \<and>
    (\<forall>j. dl_value (es' ! j) = dl_value (packetListElements st ! j)) \<and>
    (\<forall>j. j \<notin> set c \<longrightarrow> nxt es' j = nxt (packetListElements st) j) \<and>
    seg (nxt es') (Some (hd c)) c (unusedPacketsHead st)"
proof -
  let ?es = "packetListElements st"
  have ne: "c \<noteq> []" and seg: "seg (frag ?es) (Some (hd c)) c None" using c(1) by (auto simp: chain_def)
  have len: "length c \<le> length ?es"
    using c(2,3) distinct_card [of c] card_mono [of "{..<length ?es}" "set c"] by simp
  obtain es1 where es1: "link_fragments (length ?es) ?es (hd c) = Some (es1, last c)" "length es1 = length ?es"
    "\<And>j. dl_value (es1 ! j) = dl_value (?es ! j)" "nxt es1 = (\<lambda>j. if j \<in> set c then frag ?es j else nxt ?es j)"
    using link_fragments_chain [OF seg ne c(2,3) len] by blast
  let ?es' = "set_next es1 (last c) (unusedPacketsHead st)"
  have last: "last c < length es1" using subsetD [OF c(3) last_in_set [OF ne]] es1(2) by simp
  have "seg (nxt ?es') (Some (hd c)) c (unusedPacketsHead st)"
  proof -
    obtain ws w where w: "c = ws @ [w]" using ne by (cases c rule: rev_cases) auto
    with seg have "seg (frag ?es) (Some (hd c)) ws (Some w)" by (auto simp: seg_append)
    moreover have "nxt ?es' i = frag ?es i" if "i \<in> set ws" for i
      using that w c(2) last es1(4) by auto
    ultimately have "seg (nxt ?es') (Some (hd c)) ws (Some w)" using seg_cong [of ws "nxt ?es'" "frag ?es"] by simp
    moreover have "nxt ?es' w = unusedPacketsHead st" using w last by simp
    ultimately show ?thesis using w by (simp add: seg_append)
  qed
  moreover have "nxt ?es' j = nxt ?es j" if "j \<notin> set c" for j
    using that last es1(4) last_in_set [OF ne] by auto
  ultimately show ?thesis
    using es1 by (intro exI [of _ ?es']) (simp add: insertFragmentedPacketsInUnusedPacketsList_def)
qed

subsection \<open>Moving elements between the lists\<close>

lemma packet_poolD:
  assumes "packet_pool st H U I R" "es = packetListElements st"
  shows "seg (nxt es) (unusedPacketsHead st) U None" "seg (nxt es) (incompleteFragmentedDatagramsHead st) (map hd I) None"
    "seg (nxt es) (readyToReadPacketsHead st) (map hd R) None" "readyToReadPacketsTail st = last_ptr None (map hd R)"
    "\<And>c. c \<in> set I \<or> c \<in> set R \<Longrightarrow> chain es c" "distinct (H @ U @ concat I @ concat R)"
    "\<And>i. i \<in> set H \<or> i \<in> set U \<or> i \<in> set (concat I) \<or> i \<in> set (concat R) \<Longrightarrow> i < length es"
    "\<And>i. i < length es \<Longrightarrow> length (pData (dl_value (es ! i))) = RX_BUFFER_SIZE"
  using assms by (auto simp: packet_pool_def Let_def)

lemma pool_disjoint:
  assumes "packet_pool st H U I R"
  shows "set H \<inter> set U = {}" "set H \<inter> set (concat I) = {}" "set H \<inter> set (concat R) = {}"
    "set U \<inter> set (concat I) = {}" "set U \<inter> set (concat R) = {}" "set (concat I) \<inter> set (concat R) = {}"
    "distinct H" "distinct U" "distinct (concat I)" "distinct (concat R)"
  using packet_poolD(6) [OF assms refl] by auto

lemma pool_heads:
  assumes "packet_pool st H U I R"
  shows "set (map hd I) \<subseteq> set (concat I)" "set (map hd R) \<subseteq> set (concat R)"
    "distinct (map hd I)" "distinct (map hd R)"
proof -
  have ch: "\<forall>c \<in> set I. chain (packetListElements st) c" "\<forall>c \<in> set R. chain (packetListElements st) c"
    using packet_poolD(5) [OF assms refl] by auto
  show "set (map hd I) \<subseteq> set (concat I)" "set (map hd R) \<subseteq> set (concat R)"
    using chain_heads [OF ch(1)] chain_heads [OF ch(2)] .
  show "distinct (map hd I)" "distinct (map hd R)"
    using seg_distinct_heads [OF pool_disjoint(9) [OF assms]] seg_distinct_heads [OF pool_disjoint(10) [OF assms]] ch
    by (auto simp: chain_def)
qed

lemma pool_move:
  assumes pool: "packet_pool st H U I R"
    and same: "mset (H' @ U' @ concat I' @ concat R') = mset (H @ U @ concat I @ concat R)"
    and es: "length (packetListElements st') = length (packetListElements st)"
    and data: "\<And>i. i < length (packetListElements st) \<Longrightarrow> length (pData (pk_at st' i)) = length (pData (pk_at st i))"
    and segs: "seg (nxt (packetListElements st')) (unusedPacketsHead st') U' None"
      "seg (nxt (packetListElements st')) (incompleteFragmentedDatagramsHead st') (map hd I') None"
      "seg (nxt (packetListElements st')) (readyToReadPacketsHead st') (map hd R') None"
    and tail: "readyToReadPacketsTail st' = last_ptr None (map hd R')"
    and chains: "\<And>c. c \<in> set I' \<or> c \<in> set R' \<Longrightarrow> chain (packetListElements st') c"
  shows "packet_pool st' H' U' I' R'"
proof -
  have "distinct (H' @ U' @ concat I' @ concat R')" "set (H' @ U' @ concat I' @ concat R') \<subseteq> {..<length (packetListElements st)}"
    using mset_eq_imp_distinct_iff [OF same] mset_eq_setD [OF same] pool
    by (simp_all only: packet_pool_def Let_def)
  with es data segs tail chains packet_poolD(8) [OF pool refl] show ?thesis
    by (simp add: packet_pool_def Let_def)
qed

text \<open>A chain that is in no list goes to the front of the unused list.\<close>

lemma pool_give_back:
  assumes pool: "packet_pool st (c @ H) U I R" and c: "chain (packetListElements st) c"
  shows "\<exists>st'. insertFragmentedPacketsInUnusedPacketsList st (Some (hd c)) = Some st' \<and> packet_pool st' H (c @ U) I R \<and>
    (\<exists>es'. st' = st\<lparr>packetListElements := es', unusedPacketsHead := Some (hd c)\<rparr> \<and>
      length es' = length (packetListElements st) \<and> (\<forall>j. j \<notin> set c \<longrightarrow> nxt es' j = nxt (packetListElements st) j) \<and>
      (\<forall>j. dl_value (es' ! j) = dl_value (packetListElements st ! j)))"
proof -
  let ?es = "packetListElements st"
  note d = packet_poolD [OF pool refl] and dis = pool_disjoint [OF pool] and heads = pool_heads [OF pool]
  have "distinct c" "set c \<subseteq> {..<length ?es}" using dis(7) d(7) by auto
  from give_back [OF c this] obtain es' where es': "insertFragmentedPacketsInUnusedPacketsList st (Some (hd c)) =
      Some (st\<lparr>packetListElements := es', unusedPacketsHead := Some (hd c)\<rparr>)" "length es' = length ?es"
    "\<And>j. dl_value (es' ! j) = dl_value (?es ! j)" "\<And>j. j \<notin> set c \<Longrightarrow> nxt es' j = nxt ?es j"
    "seg (nxt es') (Some (hd c)) c (unusedPacketsHead st)" by blast
  have frag: "frag es' = frag ?es" using es'(3) by (simp add: frag_def fun_eq_iff)
  have other: "seg (nxt es') p L None = seg (nxt ?es) p L None" if "set c \<inter> set L = {}" for p L
    using that es'(4) by (intro seg_cong [symmetric]) (auto simp: disjoint_iff)
  have "set c \<inter> set U = {}" "set c \<inter> set (map hd I) = {}" "set c \<inter> set (map hd R) = {}"
    using dis(1,2,3) heads(1,2) by auto
  note other = this [THEN other]
  have "seg (nxt es') (Some (hd c)) (c @ U) None" using es'(5) other(1) d(1) by (auto simp: seg_append)
  moreover have "chain es' k = chain ?es k" for k by (simp add: chain_def frag)
  ultimately have "packet_pool (st\<lparr>packetListElements := es', unusedPacketsHead := Some (hd c)\<rparr>) H (c @ U) I R"
    using d es'(2,3) other(2,3) by (intro pool_move [OF pool]) simp_all
  with es' show ?thesis by blast
qed

text \<open>A chain that is in no list goes to the end of the readable ones.\<close>

lemma pool_make_ready:
  assumes pool: "packet_pool st (c @ H) U I R" and c: "chain (packetListElements st) c"
  shows "\<exists>st'. insertInReadyToReadPacketsList st (hd c) = Some st' \<and> packet_pool st' H U I (R @ [c]) \<and>
    length (packetListElements st') = length (packetListElements st) \<and>
    (\<forall>j. dl_value (packetListElements st' ! j) = dl_value (packetListElements st ! j))"
proof -
  let ?es = "packetListElements st" and ?n = "hd c"
  note d = packet_poolD [OF pool refl] and dis = pool_disjoint [OF pool] and heads = pool_heads [OF pool]
  have n: "?n \<in> set c" using c by (simp add: chain_def)
  then have nl: "?n < length ?es" using d(7) by simp
  have nR: "?n \<notin> set (concat R)" using n dis(3) by auto
  let ?es1 = "set_prev (set_next ?es ?n None) ?n (readyToReadPacketsTail st)"
  define es2 where "es2 = (case readyToReadPacketsTail st of None \<Rightarrow> ?es1 | Some t \<Rightarrow> set_next ?es1 t (Some ?n))"
  let ?st = "st\<lparr>packetListElements := es2,
      readyToReadPacketsHead := (if R = [] then Some ?n else readyToReadPacketsHead st), readyToReadPacketsTail := Some ?n\<rparr>"
  have tail: "readyToReadPacketsTail st = (if R = [] then None else Some (last (map hd R)))"
    using d(4) last_ptr_last [of "map hd R"] by auto
  have tl: "last (map hd R) \<in> set (concat R)" if "R \<noteq> []"
    by (rule subsetD [OF heads(2) last_in_set]) (use that in simp)
  then have tll: "last (map hd R) < length ?es" if "R \<noteq> []" using that d(7) by simp
  have run: "insertInReadyToReadPacketsList st ?n = Some ?st"
    using tail tll by (cases "R = []") (simp_all add: insertInReadyToReadPacketsList_def Let_def es2_def)
  have nxt2: "nxt es2 = (if R = [] then (nxt ?es)(?n := None) else (nxt ?es)(?n := None, last (map hd R) := Some ?n))"
    using tail nl tll by (cases "R = []") (simp_all add: es2_def)
  have other: "seg (nxt es2) p L None = seg (nxt ?es) p L None" if "?n \<notin> set L" "set L \<inter> set (concat R) = {}" for p L
  proof (rule seg_cong [symmetric])
    fix i assume "i \<in> set L"
    then have "i \<noteq> ?n" "R \<noteq> [] \<Longrightarrow> i \<noteq> last (map hd R)" using that tl by (auto simp: disjoint_iff)
    then show "nxt es2 i = nxt ?es i" by (simp add: nxt2)
  qed
  have "seg (nxt es2) (if map hd R = [] then Some ?n else readyToReadPacketsHead st) (map hd R @ [?n]) None"
  proof (rule seg_retarget)
    show "seg (nxt ?es) (readyToReadPacketsHead st) (map hd R @ []) None" using d(3) by simp
    show "distinct (map hd R)" by (rule heads(4))
    have "R \<noteq> [] \<Longrightarrow> ?n \<noteq> last (map hd R)" using tl nR by auto
    then show "seg (nxt es2) (Some ?n) [?n] None" by (simp add: nxt2)
    fix i assume i: "i \<in> set (map hd R)"
    then have "i \<noteq> ?n" "R \<noteq> []" using subsetD [OF heads(2) i] nR by auto
    then show "nxt es2 i = (if i = last (map hd R) then Some ?n else nxt ?es i)" by (simp add: nxt2)
  qed
  then have "seg (nxt es2) (if R = [] then Some ?n else readyToReadPacketsHead st) (map hd (R @ [c])) None" by simp
  moreover have "seg (nxt es2) (unusedPacketsHead st) U None"
    "seg (nxt es2) (incompleteFragmentedDatagramsHead st) (map hd I) None"
  proof -
    have "?n \<notin> set U" "?n \<notin> set (map hd I)" "set U \<inter> set (concat R) = {}" "set (map hd I) \<inter> set (concat R) = {}"
      using n dis(1,2,5,6) heads(1) by auto
    then show "seg (nxt es2) (unusedPacketsHead st) U None"
      "seg (nxt es2) (incompleteFragmentedDatagramsHead st) (map hd I) None"
      using other d(1,2) by blast+
  qed
  moreover have val: "dl_value (es2 ! j) = dl_value (?es ! j)" for j by (simp add: es2_def split: option.split)
  then have "chain es2 k = chain ?es k" for k by (rule chain_values)
  moreover have len: "length es2 = length ?es" by (simp add: es2_def split: option.split)
  ultimately have "packet_pool ?st H U I (R @ [c])"
    using d(5) c val by (intro pool_move [OF pool]) auto
  with run val len show ?thesis by (intro exI [of _ ?st]) simp
qed

lemma pool_pop:
  assumes pool: "packet_pool st H U I (c # R)"
  shows "\<exists>st'. popLatestIPv4Packet st = Some st' \<and> packet_pool st' H (c @ U) I R \<and>
    (\<forall>j. pk_at st' j = pk_at st j)"
proof -
  let ?es = "packetListElements st"
  note d = packet_poolD [OF pool refl] and dis = pool_disjoint [OF pool] and heads = pool_heads [OF pool]
  have c: "chain ?es c" using d(5) by simp
  have head: "readyToReadPacketsHead st = Some (hd c)" "seg (nxt ?es) (nxt ?es (hd c)) (map hd R) None" using d(3) by auto
  have hc: "hd c < length ?es" using d(7) c by (auto simp: chain_def)
  define es1 where "es1 = (case nxt ?es (hd c) of None \<Rightarrow> ?es | Some h \<Rightarrow> set_prev ?es h None)"
  define t where "t = (if readyToReadPacketsTail st = Some (hd c) then None else readyToReadPacketsTail st)"
  let ?st = "st\<lparr>readyToReadPacketsTail := t, packetListElements := es1, readyToReadPacketsHead := nxt ?es (hd c)\<rparr>"
  have nx: "nxt es1 = nxt ?es" and len: "length es1 = length ?es" and val: "\<And>j. dl_value (es1 ! j) = dl_value (?es ! j)"
    by (simp_all add: es1_def split: option.split)
  have "t = last_ptr None (map hd R)"
  proof (cases "R = []")
    case False
    then have "last (map hd R) \<in> set (map hd R)" by (intro last_in_set) simp
    then have "last (map hd R) \<noteq> hd c" using heads(4) by auto
    then show ?thesis using d(4) False last_ptr_last [of "map hd R"] by (simp add: t_def)
  qed (use d(4) in \<open>simp add: t_def\<close>)
  then have pool1: "packet_pool ?st (c @ H) U I R"
    using d head(2) nx len val chain_values [OF val] by (intro pool_move [OF pool]) auto
  have c1: "chain (packetListElements ?st) c" using c chain_values [OF val] by simp
  have "popLatestIPv4Packet st = insertFragmentedPacketsInUnusedPacketsList ?st (Some (hd c))"
    using head(1) hc
    by (cases "dl_next (?es ! hd c)") (simp_all add: popLatestIPv4Packet_def Let_def nxt_def es1_def t_def)
  with pool_give_back [OF pool1 c1] val show ?thesis by auto
qed

lemma pool_take_unused:
  assumes pool: "packet_pool st H (u # U) I R" and pk: "length (pData pk) = RX_BUFFER_SIZE" "nextFragment pk = None"
    and st': "st' = st\<lparr>unusedPacketsHead := nxt (packetListElements st) u,
      packetListElements := set_value (set_next (packetListElements st) u None) u pk\<rparr>"
  shows "packet_pool st' (u # H) U I R" "chain (packetListElements st') [u]" "u < length (packetListElements st)"
    "pk_at st' u = pk" "\<And>j. j \<noteq> u \<Longrightarrow> pk_at st' j = pk_at st j"
proof -
  let ?es = "packetListElements st" and ?es' = "packetListElements st'"
  note d = packet_poolD [OF pool refl] and dis = pool_disjoint [OF pool] and heads = pool_heads [OF pool]
  show u: "u < length ?es" using d(7) by simp
  have es': "?es' = set_value (set_next ?es u None) u pk" by (simp add: st')
  have nx: "nxt ?es' = (nxt ?es)(u := None)" and fr: "frag ?es' = (frag ?es)(u := None)" using u pk by (simp_all add: es')
  show val: "pk_at st' u = pk" "\<And>j. j \<noteq> u \<Longrightarrow> pk_at st' j = pk_at st j" using u by (simp_all add: es' set_value_def)
  show "chain ?es' [u]" by (simp add: chain_def fr)
  have notin: "u \<notin> set U" "u \<notin> set (map hd I)" "u \<notin> set (map hd R)" "u \<notin> set (concat I)" "u \<notin> set (concat R)"
    using dis heads(1,2) by auto
  have "chain ?es' c" if "c \<in> set I \<or> c \<in> set R" for c
  proof -
    have "u \<notin> set c" using that notin(4,5) by (auto simp: set_concat)
    then have "chain ?es' c = chain ?es c" by (intro chain_frame) (auto simp: fr)
    then show ?thesis using d(5) [OF that] by simp
  qed
  then show "packet_pool st' (u # H) U I R"
    using d notin nx u by (intro pool_move [OF pool]) (auto simp: st' nth_list_update set_value_def pk)
qed

text \<open>Unlinking a datagram from the incomplete ones, in the position \<open>nextListElementPtr\<close> has reached.\<close>

lemma pool_position:
  assumes pool: "packet_pool st H U (I1 @ I2) R"
  shows "get_link st (last_ptr None (map hd I1)) = hd_ptr (map hd I2) None"
  using seg_position [of "nxt (packetListElements st)" _ "map hd I1" "map hd I2"] packet_poolD(2) [OF pool refl]
  by (auto simp: get_link_def nxt_def split: option.splits)

lemma set_link_frame:
  "length (packetListElements (set_link st q v)) = length (packetListElements st)"
  "pk_at (set_link st q v) j = pk_at st j"
  "unusedPacketsHead (set_link st q v) = unusedPacketsHead st"
  "readyToReadPacketsHead (set_link st q v) = readyToReadPacketsHead st"
  "readyToReadPacketsTail (set_link st q v) = readyToReadPacketsTail st"
  "ns_timerCounter (set_link st q v) = ns_timerCounter st"
  by (simp_all add: set_link_def split: option.split)

lemma pool_relink:
  assumes pool: "packet_pool st H U (I1 @ I2) R" and q: "q = last_ptr None (map hd I1)"
    and tail: "seg (nxt (packetListElements st)) v (map hd I3) None"
    and same: "mset (H' @ concat I3) = mset (H @ concat I2)"
    and chains: "\<And>c. c \<in> set I3 \<Longrightarrow> chain (packetListElements st) c"
  shows "packet_pool (set_link st q v) H' U (I1 @ I3) R"
proof -
  let ?es = "packetListElements st" and ?st = "set_link st q v"
  let ?es' = "packetListElements ?st"
  note d = packet_poolD [OF pool refl] and dis = pool_disjoint [OF pool] and heads = pool_heads [OF pool]
  have all: "mset (H' @ U @ concat (I1 @ I3) @ concat R) = mset (H @ U @ concat (I1 @ I2) @ concat R)"
    using same by simp
  then have dist: "distinct (H' @ U @ concat (I1 @ I3) @ concat R)"
    using mset_eq_imp_distinct_iff d(6) by blast
  let ?l = "last (map hd I1)"
  have ne: "I1 \<noteq> [] \<Longrightarrow> ?l \<in> set (map hd I1)" by (intro last_in_set) simp
  have l: "?l < length ?es" "?l \<in> set (concat I1)" if "I1 \<noteq> []"
  proof -
    have "set (map hd I1) \<subseteq> set (concat I1)" using chain_heads [of I1 ?es] d(5) by auto
    then show "?l \<in> set (concat I1)" using ne [OF that] by blast
    then show "?l < length ?es" using d(7) by simp
  qed
  have qv: "q = (if I1 = [] then None else Some ?l)" using q last_ptr_last [of "map hd I1"] by simp
  have nx: "nxt ?es' = (if I1 = [] then nxt ?es else (nxt ?es)(?l := v))"
    using l by (simp add: qv set_link_def)
  have other: "seg (nxt ?es') p L None = seg (nxt ?es) p L None" if "set L \<inter> set (concat I1) = {}" for p L
  proof (rule seg_cong [symmetric])
    fix i assume "i \<in> set L"
    then have "I1 \<noteq> [] \<Longrightarrow> i \<noteq> ?l" using that l(2) by (auto simp: disjoint_iff)
    then show "nxt ?es' i = nxt ?es i" by (simp add: nx)
  qed
  have h3: "set (map hd I3) \<subseteq> set (concat I3)" using chain_heads [of I3 ?es] chains by blast
  have "set U \<inter> set (concat I1) = {}" "set (map hd R) \<inter> set (concat I1) = {}" "set (map hd I3) \<inter> set (concat I1) = {}"
    using dist heads(2) h3 by auto
  note other = this [THEN other]
  have "seg (nxt ?es') (if map hd I1 = [] then v else incompleteFragmentedDatagramsHead st) (map hd I1 @ map hd I3) None"
  proof (rule seg_retarget)
    show "seg (nxt ?es) (incompleteFragmentedDatagramsHead st) (map hd I1 @ map hd I2) None" using d(2) by simp
    show "distinct (map hd I1)" using heads(3) by simp
    show "seg (nxt ?es') v (map hd I3) None" using other(3) tail by simp
    fix i assume "i \<in> set (map hd I1)"
    then show "nxt ?es' i = (if i = last (map hd I1) then v else nxt ?es i)" by (auto simp: nx)
  qed
  moreover have "incompleteFragmentedDatagramsHead ?st = (if I1 = [] then v else incompleteFragmentedDatagramsHead st)"
    by (simp add: qv set_link_def)
  moreover have "chain ?es' k = chain ?es k" for k by (rule chain_values) (rule set_link_frame(2))
  ultimately show ?thesis
    using d chains other(1,2) all by (intro pool_move [OF pool]) (auto simp: set_link_frame)
qed

lemma pool_unlink:
  assumes pool: "packet_pool st H U (I1 @ c # I2) R" and q: "q = last_ptr None (map hd I1)"
  shows "get_link st q = Some (hd c)" "chain (packetListElements st) c" "hd c < length (packetListElements st)"
    "packet_pool (set_link st q (nxt (packetListElements st) (hd c))) (c @ H) U (I1 @ I2) R"
proof -
  let ?es = "packetListElements st"
  note d = packet_poolD [OF pool refl]
  show "get_link st q = Some (hd c)" using pool_position [OF pool] q by simp
  show c: "chain ?es c" using d(5) by simp
  then show "hd c < length ?es" using d(7) by (auto simp: chain_def)
  have "seg (nxt ?es) (nxt ?es (hd c)) (map hd I2) None" using d(2) by (auto simp: seg_append)
  then show "packet_pool (set_link st q (nxt ?es (hd c))) (c @ H) U (I1 @ I2) R"
    using d(5) by (intro pool_relink [OF pool q]) auto
qed

lemma nxt_set_other: "i \<noteq> j \<Longrightarrow> nxt (set_next es i v) j = nxt es j"
  by (cases "i < length es") (simp_all add: set_next_def nxt_def)

text \<open>A datagram that has not timed out, given its first fragment.\<close>

definition alive :: "NetworkStackHandler \<Rightarrow> nat list \<Rightarrow> bool" where
  "alive st c \<longleftrightarrow> passedTimeSince st (sint (createdTime (pk_at st (hd c)))) \<le> FRAGMENT_TIMEOUT"

lemma passedTimeSince_cong: "ns_timerCounter st' = ns_timerCounter st \<Longrightarrow> passedTimeSince st' = passedTimeSince st"
  by (simp add: passedTimeSince_def fun_eq_iff)

text \<open>The search for the datagram of a new fragment gives back the datagrams on its way that have timed out.\<close>

lemma find_datagram_spec:
  assumes "packet_pool st H U (I1 @ I2) R" "length I2 < n" "q = last_ptr None (map hd I1)"
  shows "\<exists>st' U' J K. find_datagram n st q new = Some (st', last_ptr None (map hd (I1 @ filter (alive st) J))) \<and>
    I2 = J @ K \<and> (\<forall>c \<in> set J. alive st c \<longrightarrow> \<not> same_datagram (pk_at st new) (pk_at st (hd c))) \<and>
    (K = [] \<or> alive st (hd K) \<and> same_datagram (pk_at st new) (pk_at st (hd (hd K)))) \<and>
    packet_pool st' H U' ((I1 @ filter (alive st) J) @ K) R \<and> length U \<le> length U' \<and>
    (\<forall>j. pk_at st' j = pk_at st j) \<and> length (packetListElements st') = length (packetListElements st) \<and>
    ns_timerCounter st' = ns_timerCounter st \<and>
    (\<forall>h \<in> set H. nxt (packetListElements st') h = nxt (packetListElements st) h)"
  using assms
proof (induction n arbitrary: st U I1 I2 q)
  case (Suc n)
  show ?case
  proof (cases I2)
    case Nil
    then have "get_link st q = None" using pool_position [OF Suc.prems(1)] Suc.prems(3) by simp
    then show ?thesis using Suc.prems Nil by (intro exI [of _ st] exI [of _ U] exI [of _ "[]"]) auto
  next
    case (Cons c I3)
    let ?es = "packetListElements st"
    note u = pool_unlink [OF Suc.prems(1) [unfolded Cons] Suc.prems(3)]
    have step: "find_datagram (Suc n) st q new =
        (if \<not> alive st c then do {
           st \<leftarrow> insertFragmentedPacketsInUnusedPacketsList (set_link st q (nxt ?es (hd c))) (Some (hd c));
           find_datagram n st q new }
         else if same_datagram (pk_at st new) (pk_at st (hd c)) then Some (st, q)
         else find_datagram n st (Some (hd c)) new)"
      using u(1,3) by (simp add: alive_def nxt_def not_le)
    consider (dead) "\<not> alive st c" | (found) "alive st c" "same_datagram (pk_at st new) (pk_at st (hd c))"
      | (next_one) "alive st c" "\<not> same_datagram (pk_at st new) (pk_at st (hd c))" by blast
    then show ?thesis
    proof cases
      case dead
      have c: "chain (packetListElements (set_link st q (nxt ?es (hd c)))) c"
        using u(2) chain_values set_link_frame(2) by metis
      obtain st1 where st1: "insertFragmentedPacketsInUnusedPacketsList (set_link st q (nxt ?es (hd c))) (Some (hd c)) = Some st1"
        "packet_pool st1 H (c @ U) (I1 @ I3) R"
        and same: "\<And>j. pk_at st1 j = pk_at st j" "length (packetListElements st1) = length ?es"
        "ns_timerCounter st1 = ns_timerCounter st"
        and nx1: "\<And>j. j \<notin> set c \<Longrightarrow> nxt (packetListElements st1) j = nxt (packetListElements (set_link st q (nxt ?es (hd c)))) j"
        using pool_give_back [OF u(4) c] by (auto simp: set_link_frame)
      have held: "nxt (packetListElements st1) h = nxt ?es h" if "h \<in> set H" for h
      proof -
        have h: "h \<notin> set (concat (I1 @ I2))" using that pool_disjoint(2) [OF Suc.prems(1)] by blast
        then have "h \<notin> set c" "h \<notin> set (map hd (I1 @ I2))"
          using subsetD [OF pool_heads(1) [OF Suc.prems(1)], of h] Cons by auto
        moreover from this(2) have "q \<noteq> Some h" using Suc.prems(3) by (cases I1 rule: rev_cases) auto
        ultimately show ?thesis using nx1 u(3) by (auto simp: set_link_def nxt_set_other split: option.split)
      qed
      have al: "alive st1 = alive st"
        using same passedTimeSince_cong [OF same(3)] by (simp add: alive_def fun_eq_iff)
      have "length I3 < n" using Suc.prems(2) Cons by simp
      from Suc.IH [OF st1(2) this Suc.prems(3)] obtain st' U' J K where
        r: "find_datagram n st1 q new = Some (st', last_ptr None (map hd (I1 @ filter (alive st) J)))" "I3 = J @ K"
        "\<forall>c \<in> set J. alive st c \<longrightarrow> \<not> same_datagram (pk_at st new) (pk_at st (hd c))"
        "K = [] \<or> alive st (hd K) \<and> same_datagram (pk_at st new) (pk_at st (hd (hd K)))"
        "packet_pool st' H U' ((I1 @ filter (alive st) J) @ K) R" "length (c @ U) \<le> length U'" "\<forall>j. pk_at st' j = pk_at st j"
        "length (packetListElements st') = length ?es" "ns_timerCounter st' = ns_timerCounter st"
        "\<forall>h \<in> set H. nxt (packetListElements st') h = nxt (packetListElements st1) h"
        unfolding al same by blast
      have "find_datagram (Suc n) st q new = Some (st', last_ptr None (map hd (I1 @ filter (alive st) (c # J))))"
        using step dead st1(1) r(1) by simp
      moreover have "length U \<le> length U'" using r(6) by simp
      ultimately show ?thesis using r(2-5,7-) Cons dead held
        by (intro exI [of _ st'] exI [of _ U'] exI [of _ "c # J"] exI [of _ K] conjI) auto
    next
      case found
      then show ?thesis using step Cons Suc.prems
        by (intro exI [of _ st] exI [of _ U] exI [of _ "[]"] exI [of _ I2] conjI) auto
    next
      case next_one
      have p: "packet_pool st H U ((I1 @ [c]) @ I3) R" using Suc.prems(1) Cons by simp
      have "length I3 < n" using Suc.prems(2) Cons by simp
      from Suc.IH [OF p this, of "Some (hd c)"] obtain st' U' J K where
        r: "find_datagram n st (Some (hd c)) new = Some (st', last_ptr None (map hd ((I1 @ [c]) @ filter (alive st) J)))"
        "I3 = J @ K" "\<forall>c \<in> set J. alive st c \<longrightarrow> \<not> same_datagram (pk_at st new) (pk_at st (hd c))"
        "K = [] \<or> alive st (hd K) \<and> same_datagram (pk_at st new) (pk_at st (hd (hd K)))"
        "packet_pool st' H U' (((I1 @ [c]) @ filter (alive st) J) @ K) R" "length U \<le> length U'" "\<forall>j. pk_at st' j = pk_at st j"
        "length (packetListElements st') = length ?es" "ns_timerCounter st' = ns_timerCounter st"
        "\<forall>h \<in> set H. nxt (packetListElements st') h = nxt ?es h"
        by auto
      have "find_datagram (Suc n) st q new = Some (st', last_ptr None (map hd (I1 @ filter (alive st) (c # J))))"
        using step next_one r(1) by simp
      then show ?thesis using r Cons next_one
        by (intro exI [of _ st'] exI [of _ U'] exI [of _ "c # J"] exI [of _ K] conjI) auto
    qed
  qed
qed simp

subsection \<open>Placing a fragment\<close>

text \<open>The fragments \<open>is\<close> follow on each other from \<open>off + size\<close> on.\<close>

fun contiguous :: "(nat \<Rightarrow> IPv4Packet) \<Rightarrow> u32 \<Rightarrow> u32 \<Rightarrow> nat list \<Rightarrow> bool" where
  "contiguous pk off sz [] \<longleftrightarrow> True"
| "contiguous pk off sz (i # is) \<longleftrightarrow>
     fragmentOffset (pk i) = off + sz \<and> contiguous pk (fragmentOffset (pk i)) (dataSize (pk i)) is"

definition extent :: "(nat \<Rightarrow> IPv4Packet) \<Rightarrow> u32 \<times> u32 \<Rightarrow> nat list \<Rightarrow> u32 \<times> u32" where
  "extent pk e is = (if is = [] then e else (fragmentOffset (pk (last is)), dataSize (pk (last is))))"

lemma contiguous_append:
  "contiguous pk off sz (is @ js) \<longleftrightarrow> contiguous pk off sz is \<and>
     contiguous pk (fst (extent pk (off, sz) is)) (snd (extent pk (off, sz) is)) js"
  by (induction "is" arbitrary: off sz) (auto simp: extent_def)

lemma contiguous_cong:
  "(\<And>i. i \<in> set is \<Longrightarrow> fragmentOffset (pk' i) = fragmentOffset (pk i) \<and> dataSize (pk' i) = dataSize (pk i)) \<Longrightarrow>
     contiguous pk' off sz is = contiguous pk off sz is"
  by (induction "is" arbitrary: off sz) auto

abbreviation (input) val_at :: "IPv4Packet dl_array \<Rightarrow> nat \<Rightarrow> IPv4Packet" where
  "val_at es i \<equiv> dl_value (es ! i)"

lemma find_position_spec:
  assumes "seg (frag es) cur c None" "set c \<subseteq> {..<length es}" "length c < n"
  shows "find_position n es new prev cur off sz full = Some Return_Early \<and>
      (\<exists>i \<in> set c. fragmentOffset (val_at es i) < fragmentOffset (val_at es new) \<and> \<not> moreFragments (val_at es i)) \<or>
    (\<exists>d e. c = d @ e \<and>
      (\<forall>i \<in> set d. fragmentOffset (val_at es i) < fragmentOffset (val_at es new) \<and> moreFragments (val_at es i)) \<and>
      (e = [] \<or> \<not> fragmentOffset (val_at es (hd e)) < fragmentOffset (val_at es new)) \<and>
      find_position n es new prev cur off sz full = Some (Position (last_ptr prev d) (hd_ptr e None)
        (fst (extent (val_at es) (off, sz) d)) (snd (extent (val_at es) (off, sz) d))
        (full \<and> contiguous (val_at es) off sz d)))"
  using assms
proof (induction n arbitrary: c cur prev off sz full)
  case (Suc n)
  show ?case
  proof (cases c)
    case Nil
    then show ?thesis using Suc.prems by (auto simp: extent_def)
  next
    case (Cons i c')
    let ?pk = "val_at es i"
    have cur: "cur = Some i" "i < length es" "seg (frag es) (nextFragment ?pk) c' None"
      using Suc.prems Cons by (auto simp: frag_def [of es i])
    show ?thesis
    proof (cases "fragmentOffset ?pk < fragmentOffset (val_at es new)")
      case False
      then show ?thesis using cur Cons by (intro disjI2 exI [of _ "[]"] exI [of _ c]) (auto simp: extent_def)
    next
      case less: True
      show ?thesis
      proof (cases "moreFragments ?pk")
        case False
        then show ?thesis using cur less Cons by auto
      next
        case True
        let ?full = "if fragmentOffset ?pk \<noteq> off + sz then False else full"
        have step: "find_position (Suc n) es new prev cur off sz full =
            find_position n es new (Some i) (nextFragment ?pk) (fragmentOffset ?pk) (dataSize ?pk) ?full"
          using cur(1,2) less True by (simp add: Let_def)
        have "set c' \<subseteq> {..<length es}" "length c' < n" using Suc.prems Cons by auto
        from Suc.IH [OF cur(3) this, of "Some i" "fragmentOffset ?pk" "dataSize ?pk" ?full] consider
          (early) "find_position n es new (Some i) (nextFragment ?pk) (fragmentOffset ?pk) (dataSize ?pk) ?full = Some Return_Early"
            "\<exists>i \<in> set c'. fragmentOffset (val_at es i) < fragmentOffset (val_at es new) \<and> \<not> moreFragments (val_at es i)"
          | (found) d e where "c' = d @ e"
            "\<forall>i \<in> set d. fragmentOffset (val_at es i) < fragmentOffset (val_at es new) \<and> moreFragments (val_at es i)"
            "e = [] \<or> \<not> fragmentOffset (val_at es (hd e)) < fragmentOffset (val_at es new)"
            "find_position n es new (Some i) (nextFragment ?pk) (fragmentOffset ?pk) (dataSize ?pk) ?full =
              Some (Position (last_ptr (Some i) d) (hd_ptr e None)
                (fst (extent (val_at es) (fragmentOffset ?pk, dataSize ?pk) d))
                (snd (extent (val_at es) (fragmentOffset ?pk, dataSize ?pk) d))
                (?full \<and> contiguous (val_at es) (fragmentOffset ?pk) (dataSize ?pk) d))"
          by blast
        then show ?thesis
        proof cases
          case early
          then show ?thesis using step Cons by auto
        next
          case found
          have ext: "extent (val_at es) (fragmentOffset ?pk, dataSize ?pk) d = extent (val_at es) (off, sz) (i # d)"
            by (simp add: extent_def)
          have ctg: "(?full \<and> contiguous (val_at es) (fragmentOffset ?pk) (dataSize ?pk) d) =
              (full \<and> contiguous (val_at es) off sz (i # d))" by auto
          show ?thesis
            unfolding step found(4) ext ctg using found(1-3) less True Cons
            by (intro disjI2 exI [of _ "i # d"] exI [of _ e]) simp
        qed
      qed
    qed
  qed
qed simp

lemma check_complete_spec:
  assumes "seg (frag es) cur c None" "set c \<subseteq> {..<length es}" "length c < n"
  shows "\<exists>b p' c'. check_complete n es prev cur off sz full = Some (b, p', c') \<and>
    (b \<longrightarrow> full \<and> contiguous (val_at es) off sz c \<and> p' = last_ptr prev c \<and> c' = None) \<and>
    (full \<and> contiguous (val_at es) off sz c \<longrightarrow> b)"
  using assms
proof (induction n arbitrary: c cur prev off sz full)
  case (Suc n)
  show ?case
  proof (cases "full \<and> c \<noteq> []")
    case False
    then show ?thesis using Suc.prems by (cases c) auto
  next
    case True
    then obtain i c' where c: "c = i # c'" by (cases c) auto
    let ?pk = "val_at es i"
    have cur: "cur = Some i" "i < length es" "seg (frag es) (nextFragment ?pk) c' None"
      using Suc.prems c by (auto simp: frag_def [of es i])
    have "set c' \<subseteq> {..<length es}" "length c' < n" using Suc.prems c by auto
    from Suc.IH [OF cur(3) this, of "Some i" "fragmentOffset ?pk" "dataSize ?pk" "fragmentOffset ?pk = off + sz"]
    show ?thesis using True cur(1,2) c by auto
  qed
qed simp

end
