(* ===== verification/Network_Reassembly.thy ===== *)
theory Network_Reassembly
  imports Network_Pool
begin

text \<open>
  Reassembly of fragmented datagrams in the network stack handler: what
  \<open>insertInIncompleteFragmentedDatagramsList\<close> does to the lists, and what a datagram that becomes readable
  consists of.
\<close>

subsection \<open>The content of packets\<close>

definition content :: "IPv4Packet \<Rightarrow> IPv4Packet" where
  "content pk = pk\<lparr>nextFragment := None, createdTime := 0\<rparr>"

lemma content_eqD:
  assumes "content a = content b"
  shows "fragmentOffset a = fragmentOffset b" "dataSize a = dataSize b" "moreFragments a = moreFragments b"
    "pData a = pData b" "sourceIP a = sourceIP b" "destIP a = destIP b" "protocol a = protocol b"
    "identification a = identification b"
  using assms by (cases a; cases b; simp add: content_def)+

lemma content_updates [simp]:
  "content (pk\<lparr>nextFragment := p\<rparr>) = content pk" "content (pk\<lparr>createdTime := t\<rparr>) = content pk"
  "content (pk\<lparr>nextFragment := p, createdTime := t\<rparr>) = content pk"
  "content (pk\<lparr>createdTime := t, nextFragment := p\<rparr>) = content pk"
  by (simp_all add: content_def)

definition complete_datagram :: "(nat \<Rightarrow> IPv4Packet) \<Rightarrow> nat list \<Rightarrow> bool" where
  "complete_datagram pk c \<longleftrightarrow> c \<noteq> [] \<and> contiguous pk 0 0 c \<and> \<not> moreFragments (pk (last c))"

lemma complete_cong:
  assumes "\<And>i. content (pk' i) = content (pk i)"
  shows "complete_datagram pk' c = complete_datagram pk c"
  using content_eqD [OF assms] contiguous_cong [of c pk' pk 0 0] by (simp add: complete_datagram_def)

subsection \<open>Linking a fragment in\<close>

lemma pool_held_update:
  assumes pool: "packet_pool st (u # H) U I R" and pk: "length (pData pk) = RX_BUFFER_SIZE"
    and st': "st' = st\<lparr>packetListElements := set_next (set_value (packetListElements st) u pk) u v\<rparr>"
  shows "packet_pool st' (u # H) U I R" "u < length (packetListElements st)"
    "nxt (packetListElements st') = (nxt (packetListElements st))(u := v)"
    "frag (packetListElements st') = (frag (packetListElements st))(u := nextFragment pk)"
proof -
  let ?es = "packetListElements st" and ?es' = "packetListElements st'"
  note d = packet_poolD [OF pool refl] and dis = pool_disjoint [OF pool] and heads = pool_heads [OF pool]
  show u: "u < length ?es" using d(7) by simp
  show nx: "nxt ?es' = (nxt ?es)(u := v)" and fr: "frag ?es' = (frag ?es)(u := nextFragment pk)"
    using u by (simp_all add: st')
  have notin: "u \<notin> set U" "u \<notin> set (map hd I)" "u \<notin> set (map hd R)" "u \<notin> set (concat I)" "u \<notin> set (concat R)"
    using dis heads(1,2) by auto
  have "chain ?es' c" if "c \<in> set I \<or> c \<in> set R" for c
  proof -
    have "u \<notin> set c" using that notin(4,5) by (auto simp: set_concat)
    then have "chain ?es' c = chain ?es c" by (intro chain_frame) (auto simp: fr)
    then show ?thesis using d(5) [OF that] by simp
  qed
  then show "packet_pool st' (u # H) U I R"
    using d notin nx u by (intro pool_move [OF pool]) (auto simp: st' nth_list_update set_value_def pk)
qed

lemma pool_extend_chain:
  assumes pool: "packet_pool st (new # H) U (I1 @ (d @ e) # K) R" and d: "d \<noteq> []"
    and nx: "nxt (packetListElements st') = nxt (packetListElements st)"
    and fr: "frag (packetListElements st') = (frag (packetListElements st))(last d := Some new, new := hd_ptr e None)"
    and same: "length (packetListElements st') = length (packetListElements st)"
      "\<And>i. length (pData (pk_at st' i)) = length (pData (pk_at st i))"
      "unusedPacketsHead st' = unusedPacketsHead st"
      "incompleteFragmentedDatagramsHead st' = incompleteFragmentedDatagramsHead st"
      "readyToReadPacketsHead st' = readyToReadPacketsHead st" "readyToReadPacketsTail st' = readyToReadPacketsTail st"
  shows "packet_pool st' H U (I1 @ (d @ new # e) # K) R"
proof -
  let ?es = "packetListElements st" and ?es' = "packetListElements st'"
  note p = packet_poolD [OF pool refl] and dis = pool_disjoint [OF pool]
  have dist: "distinct (new # d @ e)" using p(6) by auto
  obtain ws w where w: "d = ws @ [w]" using d by (cases d rule: rev_cases) auto
  have "seg (frag ?es) (Some (hd d)) (ws @ w # e) None"
    using p(5) [of "d @ e"] w by (cases ws) (simp_all add: chain_def)
  then have "seg (frag ?es) (Some (hd d)) ws (Some w)" "seg (frag ?es) (frag ?es w) e None" by (auto simp: seg_append)
  moreover have "frag ?es w = hd_ptr e None" using calculation(2) by (rule seg_head)
  moreover have "\<And>i. i \<in> set ws \<or> i \<in> set e \<Longrightarrow> frag ?es' i = frag ?es i" "frag ?es' w = Some new"
    "frag ?es' new = hd_ptr e None"
    using dist w by (auto simp: fr)
  ultimately have "seg (frag ?es') (Some (hd d)) ws (Some w)" "seg (frag ?es') (hd_ptr e None) e None"
    "frag ?es' w = Some new" "frag ?es' new = hd_ptr e None"
    using seg_cong [of ws "frag ?es'" "frag ?es"] seg_cong [of e "frag ?es'" "frag ?es"] by simp_all
  then have new_chain: "chain ?es' (d @ new # e)" using w by (cases ws) (auto simp: chain_def seg_append)
  have "chain ?es' c" if "c \<in> set I1 \<or> c \<in> set K \<or> c \<in> set R" for c
  proof -
    have "last d \<in> set d" using d by simp
    then have "new \<notin> set c" "last d \<notin> set c"
      using that p(6) by (auto simp: set_concat)
    then have "chain ?es' c = chain ?es c" by (intro chain_frame) (auto simp: fr)
    then show ?thesis using p(5) that by simp
  qed
  with new_chain have "\<And>c. c \<in> set (I1 @ (d @ new # e) # K) \<or> c \<in> set R \<Longrightarrow> chain ?es' c" by auto
  then show ?thesis
    using p(1-4) d unfolding same(3-6) [symmetric] nx [symmetric]
    by (intro pool_move [OF pool _ same(1,2)]) simp_all
qed

lemma put_packet_frame:
  "get_link (put_packet st i pk) q = get_link st q"
  "dl_next (packetListElements (put_packet st i pk) ! j) = dl_next (packetListElements st ! j)"
  by (simp_all add: put_packet_def get_link_def set_value_def list_update_field split: option.split)

text \<open>A fragment that becomes the first of its datagram takes over the time of the datagram.\<close>

definition takes_over :: "NetworkStackHandler \<Rightarrow> nat \<Rightarrow> nat list \<Rightarrow> NetworkStackHandler \<Rightarrow> nat \<Rightarrow> bool" where
  "takes_over st new c st' j \<longleftrightarrow> createdTime (pk_at st' j) = createdTime (pk_at st j) \<or>
     j = new \<and> createdTime (pk_at st' j) = createdTime (pk_at st (hd c))"

lemma link_fragment_spec:
  assumes pool: "packet_pool st (new # H) U (I1 @ (d @ e) # K) R" and q: "q = last_ptr None (map hd I1)"
    and ne: "d @ e \<noteq> []" and new: "nextFragment (pk_at st new) = None"
  shows "link_fragment st q new (last_ptr None d) (hd_ptr e None) =
      (if \<not> moreFragments (pk_at st new) \<and> e \<noteq> [] then Some None else link_fragment st q new (last_ptr None d) (hd_ptr e None))"
    and "moreFragments (pk_at st new) \<or> e = [] \<Longrightarrow>
      \<exists>st'. link_fragment st q new (last_ptr None d) (hd_ptr e None) = Some (Some st') \<and>
        packet_pool st' H U (I1 @ (d @ new # e) # K) R \<and> (\<forall>j. content (pk_at st' j) = content (pk_at st j)) \<and>
        (\<forall>j. takes_over st new (d @ e) st' j) \<and> length (packetListElements st') = length (packetListElements st)"
proof -
  let ?es = "packetListElements st" and ?newest = "pk_at st new"
  note p = packet_poolD [OF pool refl]
  have new_len: "new < length ?es" "length (pData ?newest) = RX_BUFFER_SIZE" using p(7,8) by auto
  show "link_fragment st q new (last_ptr None d) (hd_ptr e None) =
      (if \<not> moreFragments ?newest \<and> e \<noteq> [] then Some None else link_fragment st q new (last_ptr None d) (hd_ptr e None))"
    using last_ptr_last [of d] by (cases d; cases e) (auto simp: link_fragment_def Let_def)
  assume more: "moreFragments ?newest \<or> e = []"
  show "\<exists>st'. link_fragment st q new (last_ptr None d) (hd_ptr e None) = Some (Some st') \<and>
        packet_pool st' H U (I1 @ (d @ new # e) # K) R \<and> (\<forall>j. content (pk_at st' j) = content (pk_at st j)) \<and>
        (\<forall>j. takes_over st new (d @ e) st' j) \<and> length (packetListElements st') = length ?es"
  proof (cases "d = []")
    case True
    then have e: "e \<noteq> []" "moreFragments ?newest" using ne more by auto
    let ?pk = "?newest\<lparr>createdTime := createdTime (pk_at st (hd e)), nextFragment := Some (hd e)\<rparr>"
    let ?st = "st\<lparr>packetListElements := set_next (set_value ?es new ?pk) new (nxt ?es (hd e))\<rparr>"
    have pool': "packet_pool st (new # H) U (I1 @ e # K) R" using pool True by simp
    have len: "length (pData ?pk) = RX_BUFFER_SIZE" using new_len by simp
    have st: "?st = st\<lparr>packetListElements := set_next (set_value ?es new ?pk) new (nxt ?es (hd e))\<rparr>" ..
    note up = pool_held_update [OF pool' len st]
    have link: "get_link st q = Some (hd e)" using pool_position [OF pool'] q by simp
    have "hd e \<noteq> new" using p(6) True e by (cases e) auto
    have che: "chain ?es e" using p(5) True by auto
    have "new \<notin> set e" using p(6) True by auto
    have new_chain: "chain (packetListElements ?st) (new # e)"
    proof -
      have "seg (frag (packetListElements ?st)) (Some (hd e)) e None = seg (frag ?es) (Some (hd e)) e None"
        by (rule seg_cong [symmetric]) (use up(4) \<open>new \<notin> set e\<close> in auto)
      then show ?thesis using che up(4) by (simp add: chain_def)
    qed
    have "seg (nxt ?es) (nxt ?es (hd e)) (map hd K) None"
      using packet_poolD(2) [OF pool' refl] by (auto simp: seg_append)
    moreover have "new \<notin> set (map hd K)" using pool_disjoint(2) [OF pool'] pool_heads(1) [OF pool'] by auto
    ultimately have tail: "seg (nxt (packetListElements ?st)) (Some new) (map hd ((new # e) # K)) None"
      using up(3) by simp
    have "packet_pool (set_link ?st q (Some new)) H U (I1 @ (new # e) # K) R"
      using packet_poolD(5) [OF up(1) refl] new_chain by (intro pool_relink [OF up(1) q tail]) auto
    moreover have "content (pk_at (set_link ?st q (Some new)) j) = content (pk_at st j)" for j
      using new_len(1) by (simp add: set_link_frame set_value_def nth_list_update)
    moreover have "takes_over st new e (set_link ?st q (Some new)) j" for j
      using new_len(1) by (auto simp: takes_over_def set_link_frame set_value_def nth_list_update)
    moreover have "link_fragment st q new None (Some (hd e)) = Some (Some (set_link ?st q (Some new)))"
    proof -
      have "get_link (put_packet st new ?pk) q = Some (hd e)" using link by (simp add: put_packet_frame)
      then show ?thesis
        using e(2) by (simp add: link_fragment_def Let_def put_packet_frame nxt_def) (simp add: put_packet_def)
    qed
    moreover have "hd_ptr e None = Some (hd e)" using e(1) by (cases e) auto
    ultimately show ?thesis using True by (auto simp: set_link_frame)
  next
    case False
    let ?p = "last d"
    have pd: "?p \<in> set d" using False by simp
    then have p_len: "?p < length ?es" "?p \<noteq> new" using p(6,7) by (auto simp: set_concat)
    have prev: "last_ptr None d = Some ?p" using False last_ptr_last by simp
    let ?st1 = "if e = [] then st else put_packet st new (?newest\<lparr>nextFragment := hd_ptr e None\<rparr>)"
    let ?st = "put_packet ?st1 ?p ((pk_at ?st1 ?p)\<lparr>nextFragment := Some new\<rparr>)"
    have run: "link_fragment st q new (last_ptr None d) (hd_ptr e None) = Some (Some ?st)"
      using more by (cases e) (auto simp: link_fragment_def Let_def prev)
    have "packet_pool ?st H U (I1 @ (d @ new # e) # K) R"
    proof (rule pool_extend_chain [OF pool False])
      show "frag (packetListElements ?st) = (frag ?es)(last d := Some new, new := hd_ptr e None)"
        using p_len new_len(1) new
        by (cases "e = []") (auto simp: put_packet_def fun_eq_iff, simp add: frag_def)
      show "nxt (packetListElements ?st) = nxt ?es" by (simp add: put_packet_def)
      show "length (pData (pk_at ?st i)) = length (pData (pk_at st i))" for i
        using p_len new_len by (auto simp: put_packet_def set_value_def nth_list_update)
    qed (simp_all add: put_packet_def)
    moreover have "content (pk_at ?st j) = content (pk_at st j)" for j
      using p_len new_len(1) by (auto simp: put_packet_def set_value_def nth_list_update)
    moreover have "takes_over st new (d @ e) ?st j" for j
      using p_len new_len(1) by (auto simp: takes_over_def put_packet_def set_value_def nth_list_update)
    moreover have "length (packetListElements ?st) = length ?es" by (simp add: put_packet_def)
    ultimately show ?thesis using run by blast
  qed
qed

subsection \<open>A fragment arrives\<close>

text \<open>The effect on the lists. \<open>J\<close> are the datagrams in front of the one the fragment belongs to; those that
  timed out are given back. With no such datagram the fragment starts one. Otherwise it
  is sorted in between the fragments \<open>d\<close> and \<open>e\<close>, and a datagram it completes becomes readable. When it
  contradicts a last fragment it is dropped, and its element is in no list any more.\<close>

definition contradicts :: "(nat \<Rightarrow> IPv4Packet) \<Rightarrow> nat \<Rightarrow> nat list \<Rightarrow> bool" where
  "contradicts pk new c \<longleftrightarrow>
     (\<exists>i \<in> set c. fragmentOffset (pk i) < fragmentOffset (pk new) \<and> \<not> moreFragments (pk i)) \<or>
     \<not> moreFragments (pk new) \<and> (\<exists>i \<in> set c. \<not> fragmentOffset (pk i) < fragmentOffset (pk new))"

definition fragment_effect ::
  "NetworkStackHandler \<Rightarrow> nat \<Rightarrow> nat list \<Rightarrow> nat list \<Rightarrow> nat list list \<Rightarrow> nat list list \<Rightarrow> NetworkStackHandler \<Rightarrow> bool" where
  "fragment_effect st new H U I R st' \<longleftrightarrow> (\<exists>U' J K. I = J @ K \<and> length U \<le> length U' \<and>
     (\<forall>c \<in> set J. alive st c \<longrightarrow> \<not> same_datagram (pk_at st new) (pk_at st (hd c))) \<and>
     (case K of
        [] \<Rightarrow> packet_pool st' H U' (filter (alive st) J @ [[new]]) R
      | c # K' \<Rightarrow> alive st c \<and> same_datagram (pk_at st new) (pk_at st (hd c)) \<and>
          ((\<exists>d e. c = d @ e \<and>
             (\<forall>i \<in> set d. fragmentOffset (pk_at st i) < fragmentOffset (pk_at st new) \<and> moreFragments (pk_at st i)) \<and>
             (e = [] \<or> \<not> fragmentOffset (pk_at st (hd e)) < fragmentOffset (pk_at st new)) \<and>
             (if complete_datagram (pk_at st) (d @ new # e)
              then packet_pool st' H U' (filter (alive st) J @ K') (R @ [d @ new # e])
              else packet_pool st' H U' (filter (alive st) J @ (d @ new # e) # K') R)) \<or>
           contradicts (pk_at st) new c \<and>
           packet_pool st' (new # H) U' (filter (alive st) J @ c # K') R)))"

lemma pool_chain_length:
  assumes "packet_pool st H U (I1 @ c # I2) R"
  shows "length c \<le> length (packetListElements st)"
proof -
  have "distinct c" "set c \<subseteq> {..<length (packetListElements st)}"
    using packet_poolD(6,7) [OF assms refl] by auto
  then show ?thesis using distinct_card [of c] card_mono [of "{..<length (packetListElements st)}" "set c"] by simp
qed

lemma pool_datagrams_length:
  assumes "packet_pool st H U I R"
  shows "length I \<le> length (packetListElements st)"
proof -
  have "distinct (map hd I)" "set (map hd I) \<subseteq> {..<length (packetListElements st)}"
    using pool_heads(1,3) [OF assms] packet_poolD(7) [OF assms refl] by auto
  then show ?thesis
    using distinct_card [of "map hd I"] card_mono [of "{..<length (packetListElements st)}" "set (map hd I)"] by simp
qed

lemma chain_suffix: "chain es (d @ e) \<Longrightarrow> e \<noteq> [] \<Longrightarrow> seg (frag es) (Some (hd e)) e None"
  by (cases d rule: rev_cases; cases e) (auto simp: chain_def seg_append)

text \<open>The last part of the insertion: the fragment is linked in, and the datagram is moved when it is complete.\<close>

lemma datagram_completed:
  assumes pool: "packet_pool st H U (J @ (d @ new # e) # K) R" and q: "q = last_ptr None (map hd J)"
    and n: "length (packetListElements st) < n"
    and ext: "(off, sz) = extent (pk_at st) (0, 0) d" and full: "full = contiguous (pk_at st) 0 0 d"
    and res: "res = do {
      (full, previous, current) \<leftarrow> check_complete n (packetListElements st) (last_ptr None d) (Some new) off sz full;
      if full \<and> current = None then do {
        l \<leftarrow> previous;
        if \<not> moreFragments (pk_at st l) then do {
          h \<leftarrow> get_link st q;
          insertInReadyToReadPacketsList (set_link st q (dl_next (packetListElements st ! h))) h }
        else Some st }
      else Some st }"
  shows "\<exists>st'. res = Some st' \<and>
    (if complete_datagram (pk_at st) (d @ new # e) then packet_pool st' H U (J @ K) (R @ [d @ new # e])
     else packet_pool st' H U (J @ (d @ new # e) # K) R) \<and>
    (\<forall>j. pk_at st' j = pk_at st j) \<and> length (packetListElements st') = length (packetListElements st)"
proof -
  let ?es = "packetListElements st" and ?c = "d @ new # e"
  have ch: "chain ?es ?c" using packet_poolD(5) [OF pool refl] by simp
  have sub: "set (new # e) \<subseteq> {..<length ?es}" using packet_poolD(7) [OF pool refl] by auto
  have "length (new # e) < n" using pool_chain_length [OF pool] n by simp
  moreover have "seg (frag ?es) (Some new) (new # e) None" using chain_suffix [OF ch] by simp
  ultimately
  obtain b p' c' where r: "check_complete n ?es (last_ptr None d) (Some new) off sz full = Some (b, p', c')"
    and b: "b \<Longrightarrow> p' = last_ptr (last_ptr None d) (new # e) \<and> c' = None"
    "b \<longleftrightarrow> full \<and> contiguous (pk_at st) off sz (new # e)"
    using check_complete_spec [OF _ sub, of "Some new" n "last_ptr None d" off sz full] by blast
  have "b \<longleftrightarrow> contiguous (pk_at st) 0 0 ?c"
    using b(2) ext full by (simp add: contiguous_append prod_eq_iff)
  moreover have "last_ptr (last_ptr None d) (new # e) = Some (last ?c)"
    using last_ptr_append2 [of None d "new # e"] last_ptr_last [of ?c None] by simp
  ultimately have res': "res = (if complete_datagram (pk_at st) ?c then do {
        h \<leftarrow> get_link st q;
        insertInReadyToReadPacketsList (set_link st q (dl_next (?es ! h))) h } else Some st)"
    using b(1) by (cases b) (auto simp: res r complete_datagram_def simp del: last.simps last_append)
  show ?thesis
  proof (cases "complete_datagram (pk_at st) ?c")
    case False
    then show ?thesis using res' pool by auto
  next
    case True
    note u = pool_unlink [OF pool q]
    let ?st = "set_link st q (nxt ?es (hd ?c))"
    have "chain (packetListElements ?st) ?c" using ch chain_values set_link_frame(2) by metis
    from pool_make_ready [OF u(4) this] obtain st' where
      st': "insertInReadyToReadPacketsList ?st (hd ?c) = Some st'" "packet_pool st' H U (J @ K) (R @ [?c])"
      "length (packetListElements st') = length ?es" "\<And>j. pk_at st' j = pk_at st j"
      by (auto simp: set_link_frame)
    have "res = Some st'" using res' True u(1) st'(1) by (simp add: nxt_def)
    then show ?thesis using True st' by auto
  qed
qed

lemma fragment_arrives:
  assumes pool: "packet_pool st (new # H) U I R" and new: "nextFragment (pk_at st new) = None"
    and last_link: "nxt (packetListElements st) new = None"
  shows "\<exists>st'. insertInIncompleteFragmentedDatagramsList st new = Some st' \<and> fragment_effect st new H U I R st' \<and>
    (\<forall>j. content (pk_at st' j) = content (pk_at st j)) \<and>
    (\<forall>j. \<exists>c \<in> set ([new] # I). (c = [new] \<or> alive st c) \<and> takes_over st new c st' j) \<and>
    length (packetListElements st') = length (packetListElements st)"
proof -
  define n where "n = length (packetListElements st) + 1"
  have n: "length (packetListElements st) < n" by (simp add: n_def)
  have "packet_pool st (new # H) U ([] @ I) R" "length I < n" using n pool pool_datagrams_length [OF pool] by auto
  from find_datagram_spec [OF this, of None new, simplified] obtain st1 U1 J K where
    s1: "find_datagram n st None new = Some (st1, last_ptr None (map hd (filter (alive st) J)))" "I = J @ K"
    "\<forall>c \<in> set J. alive st c \<longrightarrow> \<not> same_datagram (pk_at st new) (pk_at st (hd c))"
    "K = [] \<or> alive st (hd K) \<and> same_datagram (pk_at st new) (pk_at st (hd (hd K)))"
    "packet_pool st1 (new # H) U1 (filter (alive st) J @ K) R" "\<forall>j. pk_at st1 j = pk_at st j"
    "length (packetListElements st1) = length (packetListElements st)"
    "nxt (packetListElements st1) new = nxt (packetListElements st) new" "length U \<le> length U1"
    unfolding map_append append_Nil by blast
  let ?J = "filter (alive st) J" and ?es1 = "packetListElements st1"
  define q where "q = last_ptr None (map hd ?J)"
  have nf1: "nextFragment (pk_at st1 new) = None" using new s1(6) by simp
  have unfold: "insertInIncompleteFragmentedDatagramsList st new = (case get_link st1 q of
      None \<Rightarrow> Some (set_link st1 q (Some new))
    | Some h \<Rightarrow> do {
        pos \<leftarrow> find_position n ?es1 new None (Some h) 0 0 True;
        case pos of
          Return_Early \<Rightarrow> Some st1
        | Position previous current previousOffset previousSize full \<Rightarrow> do {
            linked \<leftarrow> link_fragment st1 q new previous current;
            case linked of
              None \<Rightarrow> Some st1
            | Some st \<Rightarrow> do {
                (full, previous, current) \<leftarrow>
                  check_complete n (packetListElements st) previous (Some new) previousOffset previousSize full;
                if full \<and> current = None then do {
                  l \<leftarrow> previous;
                  if \<not> moreFragments (pk_at st l) then do {
                    h \<leftarrow> get_link st q;
                    insertInReadyToReadPacketsList (set_link st q (dl_next (packetListElements st ! h))) h }
                  else Some st }
                else Some st } } })"
    unfolding insertInIncompleteFragmentedDatagramsList_def Let_def n_def [symmetric] s1(1) q_def by simp
  have takes_refl: "takes_over st new [new] st1 j" for j using s1(6) by (simp add: takes_over_def)
  show ?thesis
  proof (cases K)
    case Nil
    have link: "get_link st1 q = None" using pool_position [OF s1(5)] Nil by (simp add: q_def)
    have "packet_pool (set_link st1 q (Some new)) H U1 (?J @ [[new]]) R"
    proof (rule pool_relink [OF s1(5) q_def])
      show "seg (nxt ?es1) (Some new) (map hd [[new]]) None" using s1(8) last_link by simp
      show "\<And>c. c \<in> set [[new]] \<Longrightarrow> chain ?es1 c" using nf1 by (simp add: chain_def frag_def)
    qed (use Nil in simp)
    then have "fragment_effect st new H U I R (set_link st1 q (Some new))"
      unfolding fragment_effect_def using s1(2,3,9) Nil
      by (intro exI [of _ U1] exI [of _ J] exI [of _ "[]"]) simp
    then show ?thesis using unfold link s1(6,7) takes_refl by (auto simp: set_link_frame takes_over_def)
  next
    case (Cons c K')
    have pool1: "packet_pool st1 (new # H) U1 (?J @ c # K') R" using s1(5) Cons by simp
    have al: "alive st c" "same_datagram (pk_at st new) (pk_at st (hd c))" using s1(4) Cons by auto
    note u = pool_unlink [OF pool1 q_def]
    have seg: "seg (frag ?es1) (Some (hd c)) c None" "c \<noteq> []" using u(2) by (auto simp: chain_def)
    have sub: "set c \<subseteq> {..<length ?es1}" "length c < n"
      using packet_poolD(7) [OF pool1 refl] pool_chain_length [OF pool1] s1(7) n by auto
    have leak: "fragment_effect st new H U I R st1" if "contradicts (pk_at st) new c"
      unfolding fragment_effect_def using s1(2,3,9) Cons al that pool1
      by (intro exI [of _ U1] exI [of _ J] exI [of _ "c # K'"]) simp
    from find_position_spec [OF seg(1) sub, of new None 0 0 True] consider
      (early) "find_position n ?es1 new None (Some (hd c)) 0 0 True = Some Return_Early"
        "contradicts (pk_at st) new c"
      | (found) d e where "c = d @ e"
        "\<forall>i \<in> set d. fragmentOffset (pk_at st i) < fragmentOffset (pk_at st new) \<and> moreFragments (pk_at st i)"
        "e = [] \<or> \<not> fragmentOffset (pk_at st (hd e)) < fragmentOffset (pk_at st new)"
        "find_position n ?es1 new None (Some (hd c)) 0 0 True = Some (Position (last_ptr None d) (hd_ptr e None)
          (fst (extent (pk_at st) (0, 0) d)) (snd (extent (pk_at st) (0, 0) d)) (contiguous (pk_at st) 0 0 d))"
      unfolding s1(6) [rule_format] simp_thms contradicts_def by blast
    then show ?thesis
    proof cases
      case early
      then have "insertInIncompleteFragmentedDatagramsList st new = Some st1" using unfold u(1) by simp
      then show ?thesis using leak early(2) s1(6,7) takes_refl by auto
    next
      case found
      have pool2: "packet_pool st1 (new # H) U1 (?J @ (d @ e) # K') R" "d @ e \<noteq> []" using pool1 found(1) seg(2) by auto
      note link = link_fragment_spec [OF pool2(1) q_def pool2(2) nf1]
      show ?thesis
      proof (cases "moreFragments (pk_at st1 new) \<or> e = []")
        case False
        then have "link_fragment st1 q new (last_ptr None d) (hd_ptr e None) = Some None" using link(1) by simp
        then have "insertInIncompleteFragmentedDatagramsList st new = Some st1" using unfold u(1) found(4) by simp
        moreover have "contradicts (pk_at st) new c"
          using False found(1,3) s1(6) by (cases e) (auto simp: contradicts_def)
        ultimately show ?thesis using leak s1(6,7) takes_refl by auto
      next
        case True
        obtain st2 where st2: "link_fragment st1 q new (last_ptr None d) (hd_ptr e None) = Some (Some st2)"
          "packet_pool st2 H U1 (?J @ (d @ new # e) # K') R" "\<And>j. content (pk_at st2 j) = content (pk_at st j)"
          "length (packetListElements st2) = length (packetListElements st)" "\<And>j. takes_over st new c st2 j"
          using link(2) [OF True] s1(6,7) found(1) by (auto simp: takes_over_def)
        note c2 = content_eqD [OF st2(3)]
        have ext: "extent (pk_at st2) (0, 0) d = extent (pk_at st) (0, 0) d" using c2 by (simp add: extent_def)
        have ctg: "contiguous (pk_at st2) 0 0 d = contiguous (pk_at st) 0 0 d"
          by (rule contiguous_cong) (use c2 in simp)
        have com: "complete_datagram (pk_at st2) (d @ new # e) = complete_datagram (pk_at st) (d @ new # e)"
          by (rule complete_cong) (rule st2(3))
        have n2: "length (packetListElements st2) < n" using st2(4) n by simp
        have "insertInIncompleteFragmentedDatagramsList st new = do {
            (full, previous, current) \<leftarrow> check_complete n (packetListElements st2) (last_ptr None d) (Some new)
              (fst (extent (pk_at st2) (0, 0) d)) (snd (extent (pk_at st2) (0, 0) d)) (contiguous (pk_at st2) 0 0 d);
            if full \<and> current = None then do {
              l \<leftarrow> previous;
              if \<not> moreFragments (pk_at st2 l) then do {
                h \<leftarrow> get_link st2 q;
                insertInReadyToReadPacketsList (set_link st2 q (dl_next (packetListElements st2 ! h))) h }
              else Some st2 }
            else Some st2 }"
          using unfold u(1) found(4) st2(1) unfolding ext ctg by simp
        from datagram_completed [OF st2(2) q_def n2 prod.collapse refl this] obtain st' where
          st': "insertInIncompleteFragmentedDatagramsList st new = Some st'"
          "if complete_datagram (pk_at st) (d @ new # e) then packet_pool st' H U1 (?J @ K') (R @ [d @ new # e])
             else packet_pool st' H U1 (?J @ (d @ new # e) # K') R"
          "\<forall>j. pk_at st' j = pk_at st2 j" "length (packetListElements st') = length (packetListElements st2)"
          unfolding com by blast
        have "fragment_effect st new H U I R st'"
          unfolding fragment_effect_def
        proof (rule exI [of _ U1], rule exI [of _ J], rule exI [of _ "c # K'"], intro conjI)
          show "case c # K' of
              [] \<Rightarrow> packet_pool st' H U1 (?J @ [[new]]) R
            | c # K' \<Rightarrow> alive st c \<and> same_datagram (pk_at st new) (pk_at st (hd c)) \<and>
                ((\<exists>d e. c = d @ e \<and>
                   (\<forall>i \<in> set d. fragmentOffset (pk_at st i) < fragmentOffset (pk_at st new) \<and> moreFragments (pk_at st i)) \<and>
                   (e = [] \<or> \<not> fragmentOffset (pk_at st (hd e)) < fragmentOffset (pk_at st new)) \<and>
                   (if complete_datagram (pk_at st) (d @ new # e)
                    then packet_pool st' H U1 (?J @ K') (R @ [d @ new # e])
                    else packet_pool st' H U1 (?J @ (d @ new # e) # K') R)) \<or>
                 contradicts (pk_at st) new c \<and>
                 packet_pool st' (new # H) U1 (?J @ c # K') R)"
            unfolding list.case using al found(1-3) st'(2) by blast
        qed (use s1(2,3,9) Cons in simp_all)
        moreover have "takes_over st new c st' j" for j using st'(3) st2(5) by (simp add: takes_over_def)
        ultimately show ?thesis using st' st2(3,4) al(1) s1(2) Cons by auto
      qed
    qed
  qed
qed

end
