(* ===== verification/Network_Invariant.thy ===== *)
theory Network_Invariant
  imports Network_Reassembly Socket_Delivery
begin

text \<open>
  The invariant of the network stack handler and the effect of a received IPv4 frame on it: the packet
  elements are in order (\<open>packet_pool\<close>), every readable datagram is complete, and the packets in the
  lists fit their buffers.
\<close>

definition ns_inv :: "NetworkStackHandler \<Rightarrow> nat list \<Rightarrow> nat list \<Rightarrow> nat list list \<Rightarrow> nat list list \<Rightarrow> bool" where
  "ns_inv st H U I R \<longleftrightarrow> packet_pool st H U I R \<and> (\<forall>c \<in> set R. complete_datagram (pk_at st) c) \<and>
     (\<forall>i \<in> set (concat I @ concat R). unat (dataSize (pk_at st i)) \<le> RX_BUFFER_SIZE)"

lemma NetworkStackHandler_new_inv:
  assumes "raw \<noteq> []" "\<And>e. e \<in> set raw \<Longrightarrow> length (pData (dl_value e)) = RX_BUFFER_SIZE"
  shows "ns_inv (NetworkStackHandler_new a b raw mac ip gw nm) [] [0..<length raw] [] []"
proof -
  let ?st = "NetworkStackHandler_new a b raw mac ip gw nm"
  let ?es = "packetListElements ?st"
  have nx: "nxt ?es i = (if i \<noteq> length raw - 1 then Some (i + 1) else None)" if "i < length raw" for i
    using that by (simp add: nxt_def NetworkStackHandler_new_def)
  have "seg (nxt ?es) (Some 0) [0..<length raw] None"
    using assms(1) nx by (intro seg_upt) auto
  moreover have "length (pData (dl_value (?es ! i))) = RX_BUFFER_SIZE" if "i < length ?es" for i
    using that assms(2) by (simp add: NetworkStackHandler_new_def)
  ultimately show ?thesis
    by (auto simp: ns_inv_def packet_pool_def NetworkStackHandler_new_def Let_def)
qed

lemma make_sure_spec:
  assumes pool: "packet_pool st H U I R"
  shows "U = [] \<and> I = [] \<and> makeSureUnusedPacketsHeadIsntNullptr st = Some (False, st) \<or>
    (\<exists>st1 u U1 I1. makeSureUnusedPacketsHeadIsntNullptr st = Some (True, st1) \<and> packet_pool st1 H (u # U1) I1 R \<and>
       (\<forall>j. pk_at st1 j = pk_at st j) \<and> length (packetListElements st1) = length (packetListElements st) \<and>
       ns_timerCounter st1 = ns_timerCounter st \<and>
       (if U = [] then I = (u # U1) # I1 else st1 = st \<and> U = u # U1 \<and> I = I1))"
proof (cases U)
  case (Cons u U1)
  then have "unusedPacketsHead st = Some u" using packet_poolD(1) [OF pool refl] by simp
  then show ?thesis using pool Cons by (simp add: makeSureUnusedPacketsHeadIsntNullptr_def)
next
  case Nil
  then have un: "unusedPacketsHead st = None" using packet_poolD(1) [OF pool refl] by simp
  show ?thesis
  proof (cases I)
    case Nil
    then have "incompleteFragmentedDatagramsHead st = None" using packet_poolD(2) [OF pool refl] by simp
    then show ?thesis using un \<open>U = []\<close> Nil by (simp add: makeSureUnusedPacketsHeadIsntNullptr_def)
  next
    case (Cons c I1)
    have pool': "packet_pool st H U ([] @ c # I1) R" using pool Cons by simp
    note u = pool_unlink [OF pool' refl]
    let ?st = "set_link st None (nxt (packetListElements st) (hd c))"
    have "chain (packetListElements ?st) c" using u(2) chain_values set_link_frame(2) by metis
    moreover have "packet_pool ?st (c @ H) U I1 R" using u(4) by simp
    ultimately obtain st1 where st1: "insertFragmentedPacketsInUnusedPacketsList ?st (Some (hd c)) = Some st1"
      "packet_pool st1 H (c @ U) I1 R" "\<forall>j. pk_at st1 j = pk_at st j"
      "length (packetListElements st1) = length (packetListElements st)" "ns_timerCounter st1 = ns_timerCounter st"
      using pool_give_back [of ?st c H U I1 R] by (auto simp: set_link_frame)
    obtain v V where c: "c = v # V" using u(2) by (cases c) (auto simp: chain_def)
    have "incompleteFragmentedDatagramsHead st = Some (hd c)" using packet_poolD(2) [OF pool refl] Cons by simp
    then have "makeSureUnusedPacketsHeadIsntNullptr st = Some (True, st1)"
      using un u(3) st1(1) by (simp add: makeSureUnusedPacketsHeadIsntNullptr_def set_link_def nxt_def)
    then show ?thesis using st1 c Cons Nil by (intro disjI2 exI [of _ st1] exI [of _ v] exI [of _ V] exI [of _ I1]) simp
  qed
qed

subsection \<open>Received IPv4 frames\<close>

text \<open>The tests an IPv4 frame passes before it is stored.\<close>

definition accepted_frame :: "NetworkStackHandler \<Rightarrow> u8 list \<Rightarrow> bool" where
  "accepted_frame st data \<longleftrightarrow>
     (let hl = unat (data ! 14 AND 0xF) * 4; len = unat (u16_be (data ! 16) (data ! 17));
          dest = u32_be (data ! 30) (data ! 31) (data ! 32) (data ! 33) in
      34 \<le> length data \<and> drop_bit 4 (data ! 14 AND 0xF0) = 4 \<and> 20 \<le> hl \<and> (dest = myIP st \<or> dest = 0xFFFFFFFF) \<and>
      hl \<le> len \<and> len + 14 \<le> length data)"

abbreviation (input) frame_hl :: "u8 list \<Rightarrow> nat" where "frame_hl data \<equiv> unat (data ! 14 AND 0xF) * 4"
abbreviation (input) frame_len :: "u8 list \<Rightarrow> nat" where "frame_len data \<equiv> unat (u16_be (data ! 16) (data ! 17))"

text \<open>The state in which element \<open>u\<close> holds the packet of the frame, not yet in a list.\<close>

definition with_packet :: "NetworkStackHandler \<Rightarrow> nat \<Rightarrow> u8 list \<Rightarrow> NetworkStackHandler" where
  "with_packet st u data =
     st\<lparr>unusedPacketsHead := nxt (packetListElements st) u,
        packetListElements := set_value (set_next (packetListElements st) u None) u
          (received_packet st data (frame_hl data) (frame_len data) (pk_at st u))\<rparr>"

lemma received_packet_fits:
  assumes "accepted_frame st data" "length data \<le> RX_BUFFER_SIZE" "length (pData old) = RX_BUFFER_SIZE"
  shows "length (pData (received_packet st' data (frame_hl data) (frame_len data) old)) = RX_BUFFER_SIZE"
    "unat (dataSize (received_packet st' data (frame_hl data) (frame_len data) old)) = frame_len data - frame_hl data"
    "frame_len data - frame_hl data \<le> RX_BUFFER_SIZE"
proof -
  have a: "frame_hl data \<le> frame_len data" "frame_len data + 14 \<le> length data"
    using assms(1) by (auto simp: accepted_frame_def Let_def)
  then show le: "frame_len data - frame_hl data \<le> RX_BUFFER_SIZE" using assms(2) by simp
  show "length (pData (received_packet st' data (frame_hl data) (frame_len data) old)) = RX_BUFFER_SIZE"
    using a assms(2,3) by (simp add: received_packet_def)
  show "unat (dataSize (received_packet st' data (frame_hl data) (frame_len data) old)) = frame_len data - frame_hl data"
    using le by (simp add: received_packet_def unat_of_nat_u32)
qed

text \<open>The effect of an accepted frame on the lists. The frame is lost only when every element holds a
  readable packet; otherwise it is stored in the first unused element \<open>u\<close>, for which the oldest
  incomplete datagram is given up when there is no unused one.\<close>

definition ipv4_effect ::
  "NetworkStackHandler \<Rightarrow> u8 list \<Rightarrow> nat list \<Rightarrow> nat list \<Rightarrow> nat list list \<Rightarrow> nat list list \<Rightarrow>
     NetworkStackHandler \<Rightarrow> bool" where
  "ipv4_effect st data H U I R st' \<longleftrightarrow> U = [] \<and> I = [] \<and> st' = st \<or>
     (\<exists>st1 u U1 I1. (if U = [] then I = (u # U1) # I1 else st1 = st \<and> U = u # U1 \<and> I = I1) \<and>
        packet_pool st1 H (u # U1) I1 R \<and> (\<forall>j. pk_at st1 j = pk_at st j) \<and> ns_timerCounter st1 = ns_timerCounter st \<and>
        (let st2 = with_packet st1 u data; pk = received_packet st1 data (frame_hl data) (frame_len data) (pk_at st1 u) in
         packet_pool st2 (u # H) U1 I1 R \<and> pk_at st2 u = pk \<and> (\<forall>j. j \<noteq> u \<longrightarrow> pk_at st2 j = pk_at st j) \<and>
         (if moreFragments pk \<or> fragmentOffset pk \<noteq> 0
          then fragment_effect st2 u H U1 I1 R st'
          else packet_pool st' H U1 I1 (R @ [[u]])) \<and>
         (\<forall>j. content (pk_at st' j) = content (pk_at st2 j)) \<and>
         (\<forall>j. \<exists>c \<in> set ([u] # I1). (c = [u] \<or> alive st2 c) \<and> takes_over st2 u c st' j)))"

lemma incoming_ipv4_rejected:
  "\<not> accepted_frame st data \<Longrightarrow> \<exists>t. incomingIPv4PacketHelper st data = Some (t, st) \<and> t \<noteq> IPv4PacketType"
  by (auto simp: accepted_frame_def incomingIPv4PacketHelper_def Let_def not_le)

lemma incoming_ipv4_spec:
  assumes pool: "packet_pool st H U I R" and small: "length data \<le> RX_BUFFER_SIZE" and acc: "accepted_frame st data"
  shows "\<exists>st'. incomingIPv4PacketHelper st data = Some (IPv4PacketType, st') \<and> ipv4_effect st data H U I R st'"
proof -
  have run: "incomingIPv4PacketHelper st data = do {
      (available, st) \<leftarrow> makeSureUnusedPacketsHeadIsntNullptr st;
      if \<not> available then Some (IPv4PacketType, st)
      else do {
        u \<leftarrow> unusedPacketsHead st;
        e \<leftarrow> arr_get (packetListElements st) u;
        if length (pData (dl_value e)) < frame_len data - frame_hl data then None
        else do {
          let pk = received_packet st data (frame_hl data) (frame_len data) (dl_value e);
          let st = st\<lparr>unusedPacketsHead := dl_next e,
                      packetListElements := set_value (set_next (packetListElements st) u None) u pk\<rparr>;
          st \<leftarrow> (if moreFragments pk \<or> fragmentOffset pk \<noteq> 0
                 then insertInIncompleteFragmentedDatagramsList st u
                 else insertInReadyToReadPacketsList st u);
          Some (IPv4PacketType, st) } } }"
    using acc by (auto simp: accepted_frame_def incomingIPv4PacketHelper_def Let_def not_le not_less)
  from make_sure_spec [OF pool] consider (full) "U = []" "I = []" "makeSureUnusedPacketsHeadIsntNullptr st = Some (False, st)"
    | (free) st1 u U1 I1 where "makeSureUnusedPacketsHeadIsntNullptr st = Some (True, st1)" "packet_pool st1 H (u # U1) I1 R"
      "\<forall>j. pk_at st1 j = pk_at st j" "if U = [] then I = (u # U1) # I1 else st1 = st \<and> U = u # U1 \<and> I = I1"
      "ns_timerCounter st1 = ns_timerCounter st"
    by blast
  then show ?thesis
  proof cases
    case full
    then show ?thesis using run by (simp add: ipv4_effect_def)
  next
    case free
    let ?es1 = "packetListElements st1"
    define pk where "pk = received_packet st1 data (frame_hl data) (frame_len data) (pk_at st1 u)"
    define st2 where "st2 = with_packet st1 u data"
    note d = packet_poolD [OF free(2) refl]
    have ul: "u < length ?es1" "unusedPacketsHead st1 = Some u" using d(1,7) by auto
    have old: "length (pData (pk_at st1 u)) = RX_BUFFER_SIZE" using d(8) ul(1) by simp
    note fits = received_packet_fits(1,2) [OF acc small old, of st1, folded pk_def]
      received_packet_fits(3) [OF acc small old]
    have st2: "st2 = st1\<lparr>unusedPacketsHead := nxt ?es1 u, packetListElements := set_value (set_next ?es1 u None) u pk\<rparr>"
      by (simp add: st2_def with_packet_def pk_def)
    have nf: "nextFragment pk = None" by (simp add: pk_def received_packet_def)
    note t = pool_take_unused [OF free(2) fits(1) nf st2]
    have run': "incomingIPv4PacketHelper st data = do {
        st \<leftarrow> (if moreFragments pk \<or> fragmentOffset pk \<noteq> 0
               then insertInIncompleteFragmentedDatagramsList st2 u else insertInReadyToReadPacketsList st2 u);
        Some (IPv4PacketType, st) }"
      using run free(1) ul old fits(3) by (simp add: pk_def [symmetric] st2 nxt_def)
    have "\<exists>st'. incomingIPv4PacketHelper st data = Some (IPv4PacketType, st') \<and>
        (if moreFragments pk \<or> fragmentOffset pk \<noteq> 0 then fragment_effect st2 u H U1 I1 R st'
         else packet_pool st' H U1 I1 (R @ [[u]])) \<and> (\<forall>j. content (pk_at st' j) = content (pk_at st2 j)) \<and>
        (\<forall>j. \<exists>c \<in> set ([u] # I1). (c = [u] \<or> alive st2 c) \<and> takes_over st2 u c st' j)"
    proof (cases "moreFragments pk \<or> fragmentOffset pk \<noteq> 0")
      case True
      have "nextFragment (pk_at st2 u) = None" "nxt (packetListElements st2) u = None"
        using t(4) nf ul(1) by (simp_all add: st2)
      from fragment_arrives [OF t(1) this] run' True show ?thesis by auto
    next
      case False
      have "packet_pool st2 ([u] @ H) U1 I1 R" using t(1) by simp
      from pool_make_ready [OF this t(2)] run' False show ?thesis by (auto simp: takes_over_def)
    qed
    moreover have "\<forall>j. j \<noteq> u \<longrightarrow> pk_at st2 j = pk_at st j" using free(3) by (simp add: st2 set_value_def)
    ultimately show ?thesis
      using free(2-5) t(1,4) unfolding ipv4_effect_def Let_def st2_def pk_def by blast
  qed
qed

end
