(* ===== verification/Network_Queue.thy ===== *)
theory Network_Queue
  imports Network_Invariant
begin

text \<open>
  What the network stack handler promises its client, the network management task: the readable
  datagrams form a queue. Frames append to it, \<open>popLatestIPv4Packet\<close> removes its front, nothing else
  touches it; no operation faults; and the packet \<open>getLatestIPv4Packet\<close> returns is a well-formed chain of
  fragments that carries the bytes of a complete datagram.
\<close>

subsection \<open>What the list operations leave alone\<close>

definition ns_env :: "NetworkStackHandler \<Rightarrow> NetworkStackHandler" where
  "ns_env st = st\<lparr>packetListElements := [], unusedPacketsHead := None, incompleteFragmentedDatagramsHead := None,
     readyToReadPacketsHead := None, readyToReadPacketsTail := None\<rparr>"

lemma ns_envD:
  assumes "ns_env st' = ns_env st"
  shows "ns_timerCounter st' = ns_timerCounter st" "myIP st' = myIP st" "arpEntries st' = arpEntries st"
    "myMac st' = myMac st" "identificationCounter st' = identificationCounter st"
  using assms by (cases st; cases st'; simp add: ns_env_def)+

lemma ns_env_updates [simp]:
  "ns_env (st\<lparr>packetListElements := es\<rparr>) = ns_env st" "ns_env (st\<lparr>unusedPacketsHead := p\<rparr>) = ns_env st"
  "ns_env (st\<lparr>incompleteFragmentedDatagramsHead := p\<rparr>) = ns_env st"
  "ns_env (st\<lparr>readyToReadPacketsHead := p\<rparr>) = ns_env st" "ns_env (st\<lparr>readyToReadPacketsTail := p\<rparr>) = ns_env st"
  "ns_env (set_link st q v) = ns_env st" "ns_env (put_packet st i pk) = ns_env st"
  by (simp_all add: ns_env_def set_link_def put_packet_def split: option.split)

lemma insertFragmented_env: "insertFragmentedPacketsInUnusedPacketsList st p = Some st' \<Longrightarrow> ns_env st' = ns_env st"
  by (auto simp: insertFragmentedPacketsInUnusedPacketsList_def bind_eq_Some_conv ns_env_def split: option.splits)

lemma insertReady_env: "insertInReadyToReadPacketsList st new = Some st' \<Longrightarrow> ns_env st' = ns_env st"
  by (auto simp: insertInReadyToReadPacketsList_def Let_def ns_env_def split: option.splits if_splits)

lemma find_datagram_env: "find_datagram n st q new = Some (st', q') \<Longrightarrow> ns_env st' = ns_env st"
proof (induction n arbitrary: st q)
  case (Suc n)
  then show ?case
    by (auto simp: bind_eq_Some_conv dest!: Suc.IH insertFragmented_env split: option.splits if_splits)
qed simp

lemma link_fragment_env: "link_fragment st q new p c = Some (Some st') \<Longrightarrow> ns_env st' = ns_env st"
  by (auto simp: link_fragment_def Let_def split: option.splits if_splits)

lemma insertIncomplete_env:
  assumes "insertInIncompleteFragmentedDatagramsList st new = Some st'"
  shows "ns_env st' = ns_env st"
proof -
  from assms obtain st1 q where st1: "find_datagram (length (packetListElements st) + 1) st None new = Some (st1, q)"
    by (auto simp: insertInIncompleteFragmentedDatagramsList_def Let_def bind_eq_Some_conv simp del: find_datagram.simps)
  note e1 = find_datagram_env [OF st1]
  show ?thesis
  proof (cases "get_link st1 q")
    case None
    then show ?thesis using assms st1 e1
      by (simp add: insertInIncompleteFragmentedDatagramsList_def Let_def del: find_datagram.simps) (metis ns_env_updates(6))
  next
    case (Some h)
    define fuel where "fuel = length (packetListElements st) + 1"
    from assms obtain pos where "find_position fuel (packetListElements st1) new None (Some h) 0 0 True = Some pos"
      and rest: "(case pos of Return_Early \<Rightarrow> Some st1
          | Position previous current previousOffset previousSize full \<Rightarrow> do {
              linked \<leftarrow> link_fragment st1 q new previous current;
              case linked of
                None \<Rightarrow> Some st1
              | Some st \<Rightarrow> do {
                  (full, previous, current) \<leftarrow>
                    check_complete fuel (packetListElements st) previous (Some new) previousOffset previousSize full;
                  if full \<and> current = None then do {
                    l \<leftarrow> previous;
                    if \<not> moreFragments (pk_at st l) then do {
                      h \<leftarrow> get_link st q;
                      insertInReadyToReadPacketsList (set_link st q (dl_next (packetListElements st ! h))) h }
                    else Some st }
                  else Some st } }) = Some st'"
      unfolding insertInIncompleteFragmentedDatagramsList_def Let_def fuel_def [symmetric] st1 [folded fuel_def]
      by (auto simp: Some bind_eq_Some_conv simp del: find_position.simps check_complete.simps)
    show ?thesis
    proof (cases pos)
      case Return_Early
      then show ?thesis using rest e1 by simp
    next
      case (Position p c off sz full)
      from rest obtain linked where l: "link_fragment st1 q new p c = Some linked"
        unfolding Position position.case by (cases "link_fragment st1 q new p c") auto
      show ?thesis
      proof (cases linked)
        case None
        then show ?thesis using rest l e1 by (simp add: Position)
      next
        case (Some st2)
        then have "ns_env st2 = ns_env st" using l e1 link_fragment_env by metis
        moreover have "ns_env st' = ns_env st2"
          using rest unfolding Position position.case l Some
          by (auto simp: bind_eq_Some_conv dest!: insertReady_env split: if_splits simp del: check_complete.simps)
        ultimately show ?thesis by simp
      qed
    qed
  qed
qed

lemma makeSure_env: "makeSureUnusedPacketsHeadIsntNullptr st = Some (b, st') \<Longrightarrow> ns_env st' = ns_env st"
  by (auto simp: makeSureUnusedPacketsHeadIsntNullptr_def bind_eq_Some_conv dest!: insertFragmented_env
      split: option.splits if_splits)

lemma with_packet_env: "ns_env (with_packet st u data) = ns_env st"
  by (simp add: with_packet_def ns_env_def)

lemma incoming_env: "incomingIPv4PacketHelper st data = Some (t, st') \<Longrightarrow> ns_env st' = ns_env st"
proof -
  have two: "ns_env (st1\<lparr>unusedPacketsHead := p, packetListElements := es\<rparr>) = ns_env st1" for st1 p es
    by (simp add: ns_env_def)
  show "incomingIPv4PacketHelper st data = Some (t, st') \<Longrightarrow> ns_env st' = ns_env st"
    by (auto simp: incomingIPv4PacketHelper_def Let_def bind_eq_Some_conv two
        dest!: makeSure_env insertIncomplete_env insertReady_env split: if_splits)
qed

lemma pop_env: "popLatestIPv4Packet st = Some st' \<Longrightarrow> ns_env st' = ns_env st"
proof -
  have two: "ns_env (st1\<lparr>readyToReadPacketsTail := t, packetListElements := es, readyToReadPacketsHead := p\<rparr>) = ns_env st1"
    "ns_env (st1\<lparr>packetListElements := es, readyToReadPacketsHead := p\<rparr>) = ns_env st1" for st1 p es t
    by (simp_all add: ns_env_def)
  show "popLatestIPv4Packet st = Some st' \<Longrightarrow> ns_env st' = ns_env st"
    by (auto simp: popLatestIPv4Packet_def Let_def bind_eq_Some_conv two dest!: insertFragmented_env split: option.splits if_splits)
qed

subsection \<open>The queue of readable datagrams\<close>

definition pool_of :: "NetworkStackHandler \<Rightarrow> IPv4Packet list" where
  "pool_of st = map dl_value (packetListElements st)"

definition datagram_at :: "NetworkStackHandler \<Rightarrow> nat list \<Rightarrow> u32 \<times> u8 \<times> u8 list" where
  "datagram_at st c = (sourceIP (pk_at st (hd c)), protocol (pk_at st (hd c)), datagram (pool_of st) c)"

definition queue_is :: "NetworkStackHandler \<Rightarrow> (u32 \<times> u8 \<times> u8 list) list \<Rightarrow> bool" where
  "queue_is st Q \<longleftrightarrow> (\<exists>H U I R. ns_inv st H U I R \<and> Q = map (datagram_at st) R)"

lemma complete_frame:
  assumes "\<And>i. i \<in> set c \<Longrightarrow> content (pk' i) = content (pk i)"
  shows "complete_datagram pk' c = complete_datagram pk c"
  using content_eqD [OF assms] contiguous_cong [of c pk' pk 0 0] by (cases "c = []") (auto simp: complete_datagram_def)

lemma datagram_cong:
  assumes "\<And>i. i \<in> set c \<Longrightarrow> i < length (packetListElements st) \<and> i < length (packetListElements st') \<and>
      content (pk_at st' i) = content (pk_at st i)" and "c \<noteq> []"
  shows "datagram_at st' c = datagram_at st c"
proof -
  have "fragment_bytes (pool_of st') i = fragment_bytes (pool_of st) i" if "i \<in> set c" for i
  proof -
    note i = assms(1) [OF that]
    note c = content_eqD [OF i [THEN conjunct2, THEN conjunct2]]
    show ?thesis using i c(2,4) by (simp add: fragment_bytes_def pool_of_def)
  qed
  then have "datagram (pool_of st') c = datagram (pool_of st) c"
    unfolding datagram_def by (intro arg_cong [where f = concat] map_cong refl)
  moreover have h: "content (pk_at st' (hd c)) = content (pk_at st (hd c))" using assms by simp
  ultimately show ?thesis using content_eqD(5,7) [OF h] by (simp add: datagram_at_def)
qed

text \<open>Any step that keeps the pool in order and the contents of packets carries the invariant over.\<close>

lemma ns_inv_keep:
  assumes inv: "ns_inv st H U I R" and pool: "packet_pool st' H' U' I' (R @ R')"
    and con: "\<And>i. i \<in> set (concat R) \<Longrightarrow> content (pk_at st' i) = content (pk_at st i)"
    and new: "\<And>c. c \<in> set R' \<Longrightarrow> complete_datagram (pk_at st') c"
    and sz: "\<And>i. i \<in> set (concat I' @ concat R') \<Longrightarrow> unat (dataSize (pk_at st' i)) \<le> RX_BUFFER_SIZE"
  shows "ns_inv st' H' U' I' (R @ R')" "map (datagram_at st') R = map (datagram_at st) R"
proof -
  have old: "packet_pool st H U I R" "\<And>c. c \<in> set R \<Longrightarrow> complete_datagram (pk_at st) c"
    "\<And>i. i \<in> set (concat R) \<Longrightarrow> unat (dataSize (pk_at st i)) \<le> RX_BUFFER_SIZE"
    using inv by (auto simp: ns_inv_def)
  have "complete_datagram (pk_at st') c" if "c \<in> set R" for c
    using that complete_frame [of c "pk_at st'" "pk_at st"] con old(2) by auto
  moreover have "unat (dataSize (pk_at st' i)) \<le> RX_BUFFER_SIZE" if "i \<in> set (concat R)" for i
    using content_eqD(2) [OF con [OF that]] old(3) [OF that] by simp
  ultimately show "ns_inv st' H' U' I' (R @ R')"
    unfolding ns_inv_def using pool new sz by (metis Un_iff concat_append set_append)
  have "datagram_at st' c = datagram_at st c" if "c \<in> set R" for c
  proof (rule datagram_cong)
    show "c \<noteq> []" using old(2) [OF that] by (simp add: complete_datagram_def)
    show "i < length (packetListElements st) \<and> i < length (packetListElements st') \<and>
        content (pk_at st' i) = content (pk_at st i)" if "i \<in> set c" for i
      using that \<open>c \<in> set R\<close> con packet_poolD(7) [OF old(1) refl] packet_poolD(7) [OF pool refl] by auto
  qed
  then show "map (datagram_at st') R = map (datagram_at st) R" by simp
qed

subsection \<open>Frames\<close>

definition frame_payload :: "u8 list \<Rightarrow> u8 list" where
  "frame_payload data = take (frame_len data - frame_hl data) (drop (14 + frame_hl data) data)"

definition frame_source :: "u8 list \<Rightarrow> u32" where
  "frame_source data = u32_be (data ! 26) (data ! 27) (data ! 28) (data ! 29)"

definition whole_frame :: "u8 list \<Rightarrow> bool" where
  "whole_frame data \<longleftrightarrow> data ! 20 AND 0x20 = 0 \<and> data ! 20 AND 0x1F = 0 \<and> data ! 21 = 0"

lemma received_payload:
  assumes "accepted_frame st data" "length data \<le> RX_BUFFER_SIZE" "length (pData old) = RX_BUFFER_SIZE"
    and "pk = received_packet st' data (frame_hl data) (frame_len data) old"
  shows "take (unat (dataSize pk)) (pData pk) = frame_payload data" "sourceIP pk = frame_source data" "protocol pk = data ! 23"
proof -
  have "length (frame_payload data) = frame_len data - frame_hl data"
    using assms(1) by (auto simp: accepted_frame_def Let_def frame_payload_def)
  then show "take (unat (dataSize pk)) (pData pk) = frame_payload data"
    using received_packet_fits(2) [OF assms(1-3), of st'] by (simp add: assms(4)) (simp add: received_packet_def frame_payload_def)
qed (simp_all add: assms(4) received_packet_def frame_source_def)

lemma whole_frame_packet:
  "whole_frame data \<Longrightarrow> pk = received_packet st data hl len old \<Longrightarrow> \<not> (moreFragments pk \<or> fragmentOffset pk \<noteq> 0)"
  by (simp add: whole_frame_def received_packet_def)

lemma fragment_effect_pool:
  assumes "fragment_effect st u H U I R st'"
  shows "\<exists>H' U' I' R'. packet_pool st' H' U' I' (R @ R') \<and> (\<forall>c \<in> set R'. complete_datagram (pk_at st) c) \<and>
    set (concat I' @ concat R') \<subseteq> set (u # concat I)"
proof -
  let ?f = "filter (alive st)"
  from assms obtain U' J K where I: "I = J @ K" and
    k: "case K of [] \<Rightarrow> packet_pool st' H U' (?f J @ [[u]]) R
      | c # K' \<Rightarrow> alive st c \<and> same_datagram (pk_at st u) (pk_at st (hd c)) \<and>
          ((\<exists>d e. c = d @ e \<and>
             (\<forall>i \<in> set d. fragmentOffset (pk_at st i) < fragmentOffset (pk_at st u) \<and> moreFragments (pk_at st i)) \<and>
             (e = [] \<or> \<not> fragmentOffset (pk_at st (hd e)) < fragmentOffset (pk_at st u)) \<and>
             (if complete_datagram (pk_at st) (d @ u # e)
              then packet_pool st' H U' (?f J @ K') (R @ [d @ u # e])
              else packet_pool st' H U' (?f J @ (d @ u # e) # K') R)) \<or>
           contradicts (pk_at st) u c \<and> packet_pool st' (u # H) U' (?f J @ c # K') R)"
    unfolding fragment_effect_def by blast
  show ?thesis
  proof (cases K)
    case Nil
    then show ?thesis using k I
      by (intro exI [of _ H] exI [of _ U'] exI [of _ "?f J @ [[u]]"] exI [of _ "[]"]) auto
  next
    case (Cons c K')
    from k [unfolded Cons list.case] consider
      (finished) d e where "c = d @ e" "complete_datagram (pk_at st) (d @ u # e)"
        "packet_pool st' H U' (?f J @ K') (R @ [d @ u # e])"
      | (more) d e where "c = d @ e" "packet_pool st' H U' (?f J @ (d @ u # e) # K') R"
      | (dropped) "packet_pool st' (u # H) U' (?f J @ c # K') R" by metis
    then show ?thesis
    proof cases
      case (finished d e)
      then show ?thesis using I Cons
        by (intro exI [of _ H] exI [of _ U'] exI [of _ "?f J @ K'"] exI [of _ "[d @ u # e]"]) auto
    next
      case (more d e)
      then show ?thesis using I Cons
        by (intro exI [of _ H] exI [of _ U'] exI [of _ "?f J @ (d @ u # e) # K'"] exI [of _ "[]"]) auto
    next
      case dropped
      then show ?thesis using I Cons
        by (intro exI [of _ "u # H"] exI [of _ U'] exI [of _ "?f J @ c # K'"] exI [of _ "[]"]) auto
    qed
  qed
qed

text \<open>An accepted frame keeps the readable datagrams and can only append to them; a frame that is not a
  fragment appends its payload, unless every element holds a readable packet.\<close>

lemma ipv4_effect_inv:
  assumes inv: "ns_inv st H U I R" and eff: "ipv4_effect st data H U I R st'"
    and acc: "accepted_frame st data" and small: "length data \<le> RX_BUFFER_SIZE"
  shows "\<exists>H' U' I' R'. ns_inv st' H' U' I' (R @ R') \<and> map (datagram_at st') R = map (datagram_at st) R \<and>
    (whole_frame data \<longrightarrow> U \<noteq> [] \<or> I \<noteq> [] \<longrightarrow>
       map (datagram_at st') R' = [(frame_source data, data ! 23, frame_payload data)])"
proof (cases "U = [] \<and> I = [] \<and> st' = st")
  case True
  then show ?thesis using inv by (intro exI [of _ H] exI [of _ U] exI [of _ I] exI [of _ "[]"]) simp
next
  case False
  with eff obtain st1 u U1 I1 where
    src: "if U = [] then I = (u # U1) # I1 else st1 = st \<and> U = u # U1 \<and> I = I1"
    and pool1: "packet_pool st1 H (u # U1) I1 R" and same1: "\<forall>j. pk_at st1 j = pk_at st j"
    and effect: "let st2 = with_packet st1 u data; pk = received_packet st1 data (frame_hl data) (frame_len data) (pk_at st1 u) in
         packet_pool st2 (u # H) U1 I1 R \<and> pk_at st2 u = pk \<and> (\<forall>j. j \<noteq> u \<longrightarrow> pk_at st2 j = pk_at st j) \<and>
         (if moreFragments pk \<or> fragmentOffset pk \<noteq> 0
          then fragment_effect st2 u H U1 I1 R st'
          else packet_pool st' H U1 I1 (R @ [[u]])) \<and>
         (\<forall>j. content (pk_at st' j) = content (pk_at st2 j)) \<and>
         (\<forall>j. \<exists>c \<in> set ([u] # I1). (c = [u] \<or> alive st2 c) \<and> takes_over st2 u c st' j)"
    unfolding ipv4_effect_def by blast
  define st2 where "st2 = with_packet st1 u data"
  define pk where "pk = received_packet st1 data (frame_hl data) (frame_len data) (pk_at st1 u)"
  from effect have e: "packet_pool st2 (u # H) U1 I1 R" "pk_at st2 u = pk" "\<And>j. j \<noteq> u \<Longrightarrow> pk_at st2 j = pk_at st j"
    "if moreFragments pk \<or> fragmentOffset pk \<noteq> 0 then fragment_effect st2 u H U1 I1 R st' else packet_pool st' H U1 I1 (R @ [[u]])"
    "\<And>j. content (pk_at st' j) = content (pk_at st2 j)"
    by (auto simp: Let_def st2_def pk_def)
  have u: "u < length (packetListElements st1)" "u \<notin> set (concat R)" using packet_poolD(6,7) [OF pool1 refl] by auto
  have old: "length (pData (pk_at st1 u)) = RX_BUFFER_SIZE" using packet_poolD(8) [OF pool1 refl] u(1) by simp
  have pk_size: "unat (dataSize pk) \<le> RX_BUFFER_SIZE"
    using received_packet_fits(2) [OF acc small old, of st1] received_packet_fits(3) [OF acc small old] by (simp add: pk_def)
  have con: "content (pk_at st' i) = content (pk_at st i)" if "i \<in> set (concat R)" for i
    using that u(2) e(3,5) by (metis)
  have size: "unat (dataSize (pk_at st' i)) \<le> RX_BUFFER_SIZE" if "i \<in> set (u # concat I1)" for i
  proof -
    have "i = u \<or> i \<in> set (concat I)" using that src by (auto split: if_splits)
    then have "unat (dataSize (pk_at st2 i)) \<le> RX_BUFFER_SIZE"
      using inv e(2,3) pk_size by (cases "i = u") (auto simp: ns_inv_def)
    then show ?thesis using content_eqD(2) [OF e(5)] by simp
  qed
  show ?thesis
  proof (cases "moreFragments pk \<or> fragmentOffset pk \<noteq> 0")
    case True
    then have nw: "\<not> whole_frame data" using whole_frame_packet pk_def by blast
    have "fragment_effect st2 u H U1 I1 R st'" using e(4) True by simp
    from fragment_effect_pool [OF this]
obtain H' U' I' R' where n: "packet_pool st' H' U' I' (R @ R')" "\<And>c. c \<in> set R' \<Longrightarrow> complete_datagram (pk_at st2) c"
      "set (concat I' @ concat R') \<subseteq> set (u # concat I1)" by blast
    have "complete_datagram (pk_at st') c" if "c \<in> set R'" for c
      using n(2) [OF that] complete_cong [of "pk_at st'" "pk_at st2" c] e(5) by simp
    moreover have "unat (dataSize (pk_at st' i)) \<le> RX_BUFFER_SIZE" if "i \<in> set (concat I' @ concat R')" for i
      using size n(3) that by blast
    ultimately show ?thesis using ns_inv_keep [OF inv n(1) con] nw by blast
  next
    case False
    then have ready: "packet_pool st' H U1 I1 (R @ [[u]])" using e(4) by simp
    have pk': "content (pk_at st' u) = content pk" using e(2,5) by metis
    have com: "complete_datagram (pk_at st') [u]"
      using False content_eqD [OF pk'] by (simp add: complete_datagram_def)
    note r = received_payload [OF acc small old pk_def]
    have "u < length (packetListElements st')" using packet_poolD(7) [OF ready refl] by simp
    then have "datagram_at st' [u] = (frame_source data, data ! 23, frame_payload data)"
      using content_eqD [OF pk'] r by (simp add: datagram_at_def datagram_def fragment_bytes_def pool_of_def)
    moreover have "unat (dataSize (pk_at st' i)) \<le> RX_BUFFER_SIZE" if "i \<in> set (concat I1 @ concat [[u]])" for i
      using size that by auto
    ultimately show ?thesis using ns_inv_keep [OF inv ready con] com
      by (intro exI [of _ H] exI [of _ U1] exI [of _ I1] exI [of _ "[[u]]"]) auto
  qed
qed

subsection \<open>The operations on the queue\<close>

lemma ready_front:
  assumes inv: "ns_inv st H U I (c # R)"
  obtains p "is" where "c = p # is" "getLatestIPv4Packet st = Some p" "fragment_chain (pool_of st) p (p # is)"
    "\<forall>i \<in> set (p # is). packet_ok (pool_of st ! i)" "complete_datagram (pk_at st) (p # is)"
proof -
  have pool: "packet_pool st H U I (c # R)" using inv by (simp add: ns_inv_def)
  note d = packet_poolD [OF pool refl]
  have c: "chain (packetListElements st) c" "complete_datagram (pk_at st) c" using d(5) inv by (auto simp: ns_inv_def)
  then obtain p "is" where "is": "c = p # is" by (cases c) (auto simp: chain_def)
  have in_range: "set c \<subseteq> {..<length (packetListElements st)}" "distinct c" using d(6,7) by auto
  have "seg (frag (packetListElements st)) (Some p) c None = seg (\<lambda>i. nextFragment (pool_of st ! i)) (Some p) c None"
    by (rule seg_cong) (use in_range(1) in \<open>auto simp: pool_of_def frag_def\<close>)
  then have "seg (\<lambda>i. nextFragment (pool_of st ! i)) (Some p) c None" using c(1) "is" by (simp add: chain_def)
  then have "fragment_chain (pool_of st) p (p # is)"
    using in_range "is" by (simp add: fragment_chain_def pool_of_def)
  moreover have "\<forall>i \<in> set (p # is). packet_ok (pool_of st ! i)"
    using in_range d(8) inv "is" by (auto simp: packet_ok_def pool_of_def ns_inv_def)
  moreover have "getLatestIPv4Packet st = Some p" using d(3) "is" by (simp add: getLatestIPv4Packet_def)
  ultimately show thesis using that c(2) "is" by blast
qed

lemma queue_front:
  assumes "queue_is st Q"
  shows "getLatestIPv4Packet st = None \<longleftrightarrow> Q = []"
    and "getLatestIPv4Packet st = Some p \<Longrightarrow> \<exists>is. fragment_chain (pool_of st) p (p # is) \<and>
      (\<forall>i \<in> set (p # is). packet_ok (pool_of st ! i)) \<and> complete_datagram (pk_at st) (p # is) \<and>
      hd Q = datagram_at st (p # is)"
proof -
  obtain H U I R where inv: "ns_inv st H U I R" and Q: "Q = map (datagram_at st) R" using assms by (auto simp: queue_is_def)
  then have pool: "packet_pool st H U I R" by (simp add: ns_inv_def)
  show e: "getLatestIPv4Packet st = None \<longleftrightarrow> Q = []"
    using packet_poolD(3) [OF pool refl] Q by (cases R) (auto simp: getLatestIPv4Packet_def)
  assume front: "getLatestIPv4Packet st = Some p"
  then obtain c R' where R: "R = c # R'" using e Q by (cases R) auto
  obtain p' "is" where p': "c = p' # is" "getLatestIPv4Packet st = Some p'" "fragment_chain (pool_of st) p' (p' # is)"
    "\<forall>i \<in> set (p' # is). packet_ok (pool_of st ! i)" "complete_datagram (pk_at st) (p' # is)"
    by (rule ready_front [OF inv [unfolded R]])
  have "p' = p" "hd Q = datagram_at st (p' # is)" using p'(1,2) front Q R by simp_all
  then show "\<exists>is. fragment_chain (pool_of st) p (p # is) \<and>
      (\<forall>i \<in> set (p # is). packet_ok (pool_of st ! i)) \<and> complete_datagram (pk_at st) (p # is) \<and>
      hd Q = datagram_at st (p # is)" using p'(3-5) by blast
qed

lemma pop_inv:
  assumes inv: "ns_inv st H U I (c # R)"
  shows "\<exists>st'. popLatestIPv4Packet st = Some st' \<and> ns_inv st' H (c @ U) I R \<and> (\<forall>j. pk_at st' j = pk_at st j) \<and>
    map (datagram_at st') R = map (datagram_at st) R"
proof -
  have pool: "packet_pool st H U I (c # R)" using inv by (simp add: ns_inv_def)
  from pool_pop [OF pool] obtain st' where st': "popLatestIPv4Packet st = Some st'" "packet_pool st' H (c @ U) I R"
    "\<And>j. pk_at st' j = pk_at st j" by blast
  have "ns_inv st' H (c @ U) I R" using inv st'(2,3) by (auto simp: ns_inv_def)
  moreover have "datagram_at st' r = datagram_at st r" if "r \<in> set R" for r
  proof (rule datagram_cong)
    show "r \<noteq> []" using that inv by (auto simp: ns_inv_def complete_datagram_def)
    show "i < length (packetListElements st) \<and> i < length (packetListElements st') \<and>
        content (pk_at st' i) = content (pk_at st i)" if "i \<in> set r" for i
    proof -
      have i: "i \<in> set (concat R)" using that \<open>r \<in> set R\<close> by auto
      then have "i \<in> set (concat (c # R))" by simp
      then show ?thesis using packet_poolD(7) [OF pool refl] packet_poolD(7) [OF st'(2) refl] i st'(3) by metis
    qed
  qed
  ultimately show ?thesis using st'(1,3) by (metis map_cong)
qed

lemma queue_pop:
  assumes "queue_is st (x # Q)"
  shows "\<exists>st'. popLatestIPv4Packet st = Some st' \<and> queue_is st' Q"
proof -
  obtain H U I c R where "ns_inv st H U I (c # R)" "Q = map (datagram_at st) R"
    using assms by (auto simp: queue_is_def Cons_eq_map_conv)
  with pop_inv show ?thesis unfolding queue_is_def by metis
qed

lemma queue_pop_empty: "queue_is st [] \<Longrightarrow> popLatestIPv4Packet st = Some st"
  using queue_front(1) [of st "[]"] by (simp add: popLatestIPv4Packet_def getLatestIPv4Packet_def)

text \<open>Changes outside the lists.\<close>

lemma ns_inv_env:
  assumes "packetListElements st' = packetListElements st" "unusedPacketsHead st' = unusedPacketsHead st"
    "incompleteFragmentedDatagramsHead st' = incompleteFragmentedDatagramsHead st"
    "readyToReadPacketsHead st' = readyToReadPacketsHead st" "readyToReadPacketsTail st' = readyToReadPacketsTail st"
  shows "queue_is st' = queue_is st"
proof -
  have "datagram_at st' = datagram_at st" using assms by (simp add: datagram_at_def pool_of_def fun_eq_iff)
  moreover have "ns_inv st' = ns_inv st" using assms by (simp add: ns_inv_def packet_pool_def fun_eq_iff)
  ultimately show ?thesis unfolding queue_is_def by (intro ext) simp
qed

lemma queue_tick: "queue_is (incrementTimerCounter st) = queue_is st"
  by (rule ns_inv_env) (simp_all add: incrementTimerCounter_def Let_def)

lemma queue_arp: "queue_is (snd (incomingARPPacketHelper st data)) = queue_is st"
  by (rule ns_inv_env) (auto simp: incomingARPPacketHelper_def Let_def split: option.splits)

lemma set_arp_lists [simp]:
  "packetListElements (set_arp st i e) = packetListElements st" "unusedPacketsHead (set_arp st i e) = unusedPacketsHead st"
  "incompleteFragmentedDatagramsHead (set_arp st i e) = incompleteFragmentedDatagramsHead st"
  "readyToReadPacketsHead (set_arp st i e) = readyToReadPacketsHead st"
  "readyToReadPacketsTail (set_arp st i e) = readyToReadPacketsTail st"
  "ns_timerCounter (set_arp st i e) = ns_timerCounter st" "myMac (set_arp st i e) = myMac st" "myIP (set_arp st i e) = myIP st"
  "identificationCounter (set_arp st i e) = identificationCounter st"
  "arpEntries (set_arp st i e) = (arpEntries st)[i := e]"
  by (simp_all add: set_arp_def)

lemma resolve_arp_queue: "resolve_arp st m ip wb = (r, st', m') \<Longrightarrow> queue_is st' = queue_is st"
  by (rule ns_inv_env; simp add: resolve_arp_def request_again_def sendARPRequest_def Let_def split: option.splits if_splits)
    (auto simp: set_arp_def)

lemma outgoing_queue:
  assumes "handleOutgoingIPv4Packet st m dip proto data len ident off wb = (res, ident', off', st', m')"
  shows "queue_is st' = queue_is st"
proof -
  obtain r st1 m1 where r: "resolve_arp st m (next_hop st dip) wb = (r, st1, m1)" by (metis prod_cases3)
  have "queue_is (set_arp st1 i e) = queue_is st1" "queue_is (set_arp st1 i e\<lparr>identificationCounter := k\<rparr>) = queue_is st1" for i e k
    by (rule ns_inv_env; simp)+
  with assms resolve_arp_queue [OF r] show ?thesis
    by (auto simp: handleOutgoingIPv4Packet_def r Let_def split: if_splits arp_outcome.splits)
qed

end
