(* ===== verification/Network_Fragments.thy ===== *)
theory Network_Fragments
  imports Network_Queue "HOL-Library.Multiset"
begin

text \<open>
  Reassembly in any order: the frames of a fragmented datagram, received in whatever order, become one
  readable datagram that carries their payloads in the order of their offsets.
\<close>

subsection \<open>The frames of a datagram\<close>

definition frame_offset :: "u8 list \<Rightarrow> nat" where
  "frame_offset f = unat (8 * (push_bit 8 (ucast (f ! 20 AND 0x1F)) + ucast (f ! 21)) :: u32)"

definition frame_more :: "u8 list \<Rightarrow> bool" where
  "frame_more f \<longleftrightarrow> f ! 20 AND 0x20 \<noteq> 0"

text \<open>Source, destination and identification: what tells datagrams apart.\<close>

definition frame_key :: "u8 list \<Rightarrow> u32 \<times> u32 \<times> u32" where
  "frame_key f = (frame_source f, u32_be (f ! 30) (f ! 31) (f ! 32) (f ! 33), ucast (u16_be (f ! 18) (f ! 19)))"

definition packet_key :: "IPv4Packet \<Rightarrow> u32 \<times> u32 \<times> u32" where
  "packet_key pk = (sourceIP pk, destIP pk, identification pk)"

fun fragment_run :: "nat \<Rightarrow> u8 list list \<Rightarrow> bool" where
  "fragment_run n [] \<longleftrightarrow> False"
| "fragment_run n [f] \<longleftrightarrow> frame_offset f = n \<and> \<not> frame_more f \<and> frame_payload f \<noteq> []"
| "fragment_run n (f # g # fs) \<longleftrightarrow> frame_offset f = n \<and> frame_more f \<and> frame_payload f \<noteq> [] \<and>
     fragment_run (n + length (frame_payload f)) (g # fs)"

definition datagram_frames :: "NetworkStackHandler \<Rightarrow> u8 list list \<Rightarrow> bool" where
  "datagram_frames st fs \<longleftrightarrow> 2 \<le> length fs \<and> fragment_run 0 fs \<and>
     (\<forall>f \<in> set fs. accepted_frame st f \<and> length f \<le> RX_BUFFER_SIZE \<and> u16_be (f ! 12) (f ! 13) = 0x0800 \<and>
        frame_key f = frame_key (hd fs))"

primrec receive_all :: "u8 list list \<Rightarrow> NetworkStackHandler \<Rightarrow> NetworkStackHandler option" where
  "receive_all [] st = Some st"
| "receive_all (f # fs) st = do { (t, st) \<leftarrow> handleIncomingEthernetPacket st f; receive_all fs st }"

lemma fragment_run_head: "fragment_run n fs \<Longrightarrow> frame_offset (hd fs) = n"
  by (cases "(n, fs)" rule: fragment_run.cases) auto

lemma fragment_run_sorted:
  "fragment_run n fs \<Longrightarrow> sorted_wrt (\<lambda>a b. frame_offset a < frame_offset b) fs \<and> (\<forall>f \<in> set fs. n \<le> frame_offset f)"
proof (induction n fs rule: fragment_run.induct)
  case (3 n f g fs)
  then have f: "frame_offset f = n" "0 < length (frame_payload f)"
    and rest: "sorted_wrt (\<lambda>a b. frame_offset a < frame_offset b) (g # fs)"
    "\<forall>h \<in> set (g # fs). n + length (frame_payload f) \<le> frame_offset h" by auto
  have "n < frame_offset h" if "h \<in> set (g # fs)" for h
  proof -
    have "n + length (frame_payload f) \<le> frame_offset h" using rest(2) that by blast
    then show ?thesis using f(2) by linarith
  qed
  then show ?case using f rest(1) by (auto simp: less_imp_le)
qed auto

lemma fragment_run_last:
  "fragment_run n fs \<Longrightarrow> f \<in> set fs \<Longrightarrow> (\<not> frame_more f \<longrightarrow> (\<forall>g \<in> set fs. frame_offset g \<le> frame_offset f))"
proof (induction n fs rule: fragment_run.induct)
  case (3 n x g fs)
  have "\<forall>y \<in> set (g # fs). frame_offset x \<le> frame_offset y"
    using 3(2) fragment_run_sorted [of "n + length (frame_payload x)" "g # fs"] by auto
  then show ?case using 3 by fastforce
qed auto

lemma strict_sorted_unique:
  fixes w :: "'a \<Rightarrow> nat"
  assumes "sorted_wrt (\<lambda>a b. w a < w b) xs" "sorted_wrt (\<lambda>a b. w a < w b) ys" "set xs = set ys"
  shows "xs = ys"
proof -
  have s: "sorted_wrt (<) (map w xs)" "sorted_wrt (<) (map w ys)" using assms by (simp_all add: sorted_wrt_map)
  then have "map w xs = map w ys" using assms(3) by (intro strict_sorted_equal) auto
  moreover have "inj_on w (set xs \<union> set ys)"
    using s(1) assms(3) strict_sorted_iff [of "map w xs"] by (simp add: distinct_map)
  ultimately show ?thesis by (rule map_inj_on)
qed

subsection \<open>Packets that hold a frame\<close>

definition holds :: "IPv4Packet \<Rightarrow> u8 list \<Rightarrow> bool" where
  "holds pk f \<longleftrightarrow> unat (fragmentOffset pk) = frame_offset f \<and> moreFragments pk = frame_more f \<and>
     unat (dataSize pk) = length (frame_payload f) \<and> take (unat (dataSize pk)) (pData pk) = frame_payload f \<and>
     packet_key pk = frame_key f \<and> protocol pk = f ! 23"

lemma holds_content: "content a = content b \<Longrightarrow> holds a f = holds b f"
  using content_eqD [of a b] by (simp add: holds_def packet_key_def)

lemma received_holds:
  assumes "accepted_frame st f" "length f \<le> RX_BUFFER_SIZE" "length (pData old) = RX_BUFFER_SIZE"
    and pk: "pk = received_packet st' f (frame_hl f) (frame_len f) old"
  shows "holds pk f"
proof -
  note r = received_payload [OF assms]
  have "length (frame_payload f) = frame_len f - frame_hl f"
    using assms(1) by (auto simp: accepted_frame_def Let_def frame_payload_def)
  then have "unat (dataSize pk) = length (frame_payload f)" using received_packet_fits(2) [OF assms(1-3), of st'] by (simp add: pk)
  moreover have "unat (fragmentOffset pk) = frame_offset f" "moreFragments pk = frame_more f" "packet_key pk = frame_key f"
    by (simp_all add: pk received_packet_def frame_offset_def frame_more_def packet_key_def frame_key_def frame_source_def)
  ultimately show ?thesis using r by (simp add: holds_def)
qed

lemma same_datagram_key: "same_datagram a b \<longleftrightarrow> packet_key a = packet_key b"
  by (auto simp: same_datagram_def packet_key_def)

text \<open>Fragments in the order of their offsets are complete exactly when none is missing.\<close>

lemma contiguous_run:
  assumes "list_all2 (\<lambda>i. holds (pk i)) c fs" "fragment_run (unat (off + sz)) fs"
  shows "contiguous pk off sz c \<and> c \<noteq> [] \<and> \<not> moreFragments (pk (last c))"
  using assms
proof (induction fs arbitrary: c off sz rule: list.induct)
  case (Cons f fs)
  then obtain i c' where c: "c = i # c'" "holds (pk i) f" "list_all2 (\<lambda>i. holds (pk i)) c' fs"
    by (auto simp: list_all2_Cons2)
  have o: "fragmentOffset (pk i) = off + sz"
    using c(2) fragment_run_head [OF Cons.prems(2)] by (simp add: holds_def word_unat_eq_iff)
  show ?case
  proof (cases "fs = []")
    case True
    then show ?thesis using Cons.prems(2) c o by (simp add: holds_def)
  next
    case False
    then have run: "fragment_run (frame_offset f + length (frame_payload f)) fs" using Cons.prems(2) by (cases fs) auto
    then have "unat (fragmentOffset (pk i)) + unat (dataSize (pk i)) < 4294967296"
      using c(2) fragment_run_head [OF run] by (simp add: holds_def frame_offset_def [of "hd fs"])
        (metis unat_u32_lt)
    then have "unat (fragmentOffset (pk i) + dataSize (pk i)) = frame_offset f + length (frame_payload f)"
      using c(2) by (simp add: holds_def unat_add_no_wrap)
    then have "contiguous pk (fragmentOffset (pk i)) (dataSize (pk i)) c' \<and> c' \<noteq> [] \<and> \<not> moreFragments (pk (last c'))"
      using Cons.IH [OF c(3), of "fragmentOffset (pk i)" "dataSize (pk i)"] run by simp
    then show ?thesis using c(1) o by simp
  qed
qed simp

lemma contiguous_all:
  assumes "list_all2 (\<lambda>i. holds (pk i)) c (filter P fs)" "fragment_run (unat (off + sz)) fs"
    and "contiguous pk off sz c" "c \<noteq> []" "\<not> moreFragments (pk (last c))" "f \<in> set fs"
  shows "P f"
  using assms
proof (induction fs arbitrary: c off sz)
  case (Cons x fs)
  show ?case
  proof (cases "P x")
    case False
    then have l: "list_all2 (\<lambda>i. holds (pk i)) c (filter P fs)" using Cons.prems(1) by simp
    then obtain i c' h where c: "c = i # c'" "holds (pk i) h" "h \<in> set fs"
      using Cons.prems(4) by (cases c; cases "filter P fs") (auto dest: filter_eq_ConsD)
    have "frame_offset h = unat (off + sz)" using c Cons.prems(3) by (simp add: holds_def)
    moreover have "frame_offset x < frame_offset h" "frame_offset x = unat (off + sz)"
      using fragment_run_sorted [OF Cons.prems(2)] c(3) fragment_run_head [OF Cons.prems(2)] by auto
    ultimately show ?thesis by simp
  next
    case True
    then obtain i c' where c: "c = i # c'" "holds (pk i) x" "list_all2 (\<lambda>i. holds (pk i)) c' (filter P fs)"
      using Cons.prems(1) by (auto simp: list_all2_Cons2)
    show ?thesis
    proof (cases "fs = []")
      case False
      then have run: "fragment_run (frame_offset x + length (frame_payload x)) fs" "frame_more x"
        using Cons.prems(2) by (cases fs; auto)+
      then have "unat (fragmentOffset (pk i)) + unat (dataSize (pk i)) < 4294967296"
        using c(2) fragment_run_head [OF run(1)] by (simp add: holds_def frame_offset_def [of "hd fs"]) (metis unat_u32_lt)
      then have n: "unat (fragmentOffset (pk i) + dataSize (pk i)) = frame_offset x + length (frame_payload x)"
        using c(2) by (simp add: holds_def unat_add_no_wrap)
      have "c' \<noteq> []" using Cons.prems(5) c(1,2) run(2) by (auto simp: holds_def)
      have ctg: "contiguous pk (fragmentOffset (pk i)) (dataSize (pk i)) c'"
        using Cons.prems(3) unfolding c(1) contiguous.simps by (rule conjunct2)
      have "f \<in> set fs \<Longrightarrow> P f"
        using Cons.IH [OF c(3) _ ctg \<open>c' \<noteq> []\<close>] Cons.prems(5) c(1) run(1) n \<open>c' \<noteq> []\<close> by simp
      then show ?thesis using Cons.prems(6) True by auto
    qed (use True Cons.prems(6) in simp)
  qed
qed simp

lemma complete_iff_all:
  assumes "list_all2 (\<lambda>i. holds (pk i)) c (filter P fs)" "fragment_run 0 fs"
  shows "complete_datagram pk c \<longleftrightarrow> (\<forall>f \<in> set fs. P f)"
proof
  show "complete_datagram pk c \<Longrightarrow> \<forall>f \<in> set fs. P f"
    using contiguous_all [of pk c P fs 0 0] assms by (auto simp: complete_datagram_def)
  assume "\<forall>f \<in> set fs. P f"
  then have "filter P fs = fs" by simp
  then show "complete_datagram pk c"
    using contiguous_run [of pk c fs 0 0] assms by (simp add: complete_datagram_def)
qed

subsection \<open>The fragments received so far\<close>

text \<open>\<open>S\<close> are the frames of the datagram \<open>fs\<close> that have arrived; the chain \<open>c\<close>, the last of the incomplete
  datagrams, holds them in order.\<close>

definition partly_received ::
  "NetworkStackHandler \<Rightarrow> nat list \<Rightarrow> nat list \<Rightarrow> nat list list \<Rightarrow> nat list \<Rightarrow> nat list list \<Rightarrow>
     u8 list list \<Rightarrow> u8 list set \<Rightarrow> bool" where
  "partly_received st H U J c R fs S \<longleftrightarrow> ns_inv st H U (J @ [c]) R \<and> alive st c \<and>
     (\<forall>k \<in> set J. alive st k \<longrightarrow> packet_key (pk_at st (hd k)) \<noteq> frame_key (hd fs)) \<and>
     list_all2 (\<lambda>i. holds (pk_at st i)) c (filter (\<lambda>f. f \<in> S) fs)"

text \<open>A frame of the datagram is stored in the first unused element.\<close>

lemma fragment_stored:
  assumes inv: "ns_inv st H (u # U) I R" and fs: "datagram_frames st fs" "f \<in> set fs"
    and clock: "0 \<le> ns_timerCounter st" "ns_timerCounter st \<le> 2147483647"
  shows "\<exists>st2 st'. handleIncomingEthernetPacket st f = Some (IPv4PacketType, st') \<and> ns_env st' = ns_env st \<and>
    fragment_effect st2 u H U I R st' \<and> u \<notin> set (concat I) \<union> set (concat R) \<and>
    holds (pk_at st' u) f \<and> holds (pk_at st2 u) f \<and> unat (dataSize (pk_at st' u)) \<le> RX_BUFFER_SIZE \<and>
    (\<forall>j. content (pk_at st' j) = content (pk_at st2 j)) \<and> (\<forall>j. j \<noteq> u \<longrightarrow> pk_at st2 j = pk_at st j) \<and>
    (\<forall>j. j \<noteq> u \<longrightarrow> createdTime (pk_at st' j) = createdTime (pk_at st j)) \<and>
    ns_timerCounter st2 = ns_timerCounter st \<and> alive st' [u]"
proof -
  have pool: "packet_pool st H (u # U) I R" using inv by (simp add: ns_inv_def)
  have acc: "accepted_frame st f" and small: "length f \<le> RX_BUFFER_SIZE" and ty: "u16_be (f ! 12) (f ! 13) = 0x0800"
    using fs by (auto simp: datagram_frames_def)
  have "34 \<le> length f" using acc by (simp add: accepted_frame_def Let_def)
  with ty have "handleIncomingEthernetPacket st f = incomingIPv4PacketHelper st f"
    by (simp add: handleIncomingEthernetPacket_def Let_def)
  with incoming_ipv4_spec [OF pool small acc] obtain st' where
    st': "handleIncomingEthernetPacket st f = Some (IPv4PacketType, st')" "ipv4_effect st f H (u # U) I R st'"
    "incomingIPv4PacketHelper st f = Some (IPv4PacketType, st')" by auto
  define st2 where "st2 = with_packet st u f"
  define pk where "pk = received_packet st f (frame_hl f) (frame_len f) (pk_at st u)"
  from st'(2) have e: "pk_at st2 u = pk" "\<And>j. j \<noteq> u \<Longrightarrow> pk_at st2 j = pk_at st j"
    "if moreFragments pk \<or> fragmentOffset pk \<noteq> 0 then fragment_effect st2 u H U I R st' else packet_pool st' H U I (R @ [[u]])"
    "\<And>j. content (pk_at st' j) = content (pk_at st2 j)"
    "\<And>j. \<exists>c \<in> set ([u] # I). (c = [u] \<or> alive st2 c) \<and> takes_over st2 u c st' j"
    by (auto simp: ipv4_effect_def Let_def st2_def pk_def)
  have d: "u < length (packetListElements st)" "u \<notin> set (concat I) \<union> set (concat R)"
    using packet_poolD(6,7) [OF pool refl] by auto
  have old: "length (pData (pk_at st u)) = RX_BUFFER_SIZE" using packet_poolD(8) [OF pool refl] d(1) by simp
  have h: "holds pk f" by (rule received_holds [OF acc small old pk_def])
  have h': "holds (pk_at st' u) f" using h holds_content e(1,4) by metis
  have size: "unat (dataSize (pk_at st' u)) \<le> RX_BUFFER_SIZE"
    using h' small by (simp add: holds_def frame_payload_def)
  have frag: "moreFragments pk \<or> fragmentOffset pk \<noteq> 0"
  proof (rule ccontr)
    assume "\<not> (moreFragments pk \<or> fragmentOffset pk \<noteq> 0)"
    then have z: "\<not> frame_more f" "frame_offset f = 0" using h by (auto simp: holds_def)
    have run: "fragment_run 0 fs" "2 \<le> length fs" using fs by (auto simp: datagram_frames_def)
    obtain a b gs where fs': "fs = a # b # gs" using run(2) by (cases fs; cases "tl fs") auto
    have "frame_offset a < frame_offset b" "b \<in> set fs" using fragment_run_sorted [OF run(1)] fs' by auto
    then show False using fragment_run_last [OF run(1) fs(2)] z by auto
  qed
  have env: "ns_env st' = ns_env st" using incoming_env [OF st'(3)] .
  have time: "ns_timerCounter st2 = ns_timerCounter st" "ns_timerCounter st' = ns_timerCounter st"
    using with_packet_env ns_envD(1) env unfolding st2_def by blast+
  have pt: "passedTimeSince st' = passedTimeSince st2" by (rule passedTimeSince_cong) (simp add: time)
  have "sint (of_int (ns_timerCounter st) :: u32) = ns_timerCounter st"
    using clock by (simp add: sint_sbintrunc' signed_take_bit_int_eq_self)
  then have fresh: "passedTimeSince st2 (sint (createdTime (pk_at st2 u))) \<le> 10"
    by (simp add: e(1) pk_def received_packet_def passedTimeSince_def time)
  obtain c where "c = [u] \<or> alive st2 c" "takes_over st2 u c st' u" using e(5) [of u] by auto
  then have "alive st' [u]" using fresh by (auto simp: alive_def pt takes_over_def)
  moreover have "createdTime (pk_at st' j) = createdTime (pk_at st j)" if "j \<noteq> u" for j
    using e(5) [of j] that e(2) by (auto simp: takes_over_def)
  moreover have "fragment_effect st2 u H U I R st'" using e(3) frag by simp
  moreover have "holds (pk_at st2 u) f" using h e(1) by simp
  ultimately show ?thesis
    using st'(1) env d(2) h' size e(2,4) time(1) by blast
qed

lemma list_all2_partner:
  "list_all2 P xs ys \<Longrightarrow> y \<in> set ys \<Longrightarrow> \<exists>x \<in> set xs. P x y"
  "list_all2 P xs ys \<Longrightarrow> x \<in> set xs \<Longrightarrow> \<exists>y \<in> set ys. P x y"
  by (metis in_set_conv_nth list_all2_conv_all_nth)+

text \<open>Where in the order of offsets the frame belongs.\<close>

lemma frame_sorted_in:
  assumes run: "fragment_run 0 fs" and f: "f \<in> set fs" "f \<notin> S"
    and d: "list_all2 (\<lambda>i. holds (pk i)) d F1" "\<forall>i \<in> set d. fragmentOffset (pk i) < fragmentOffset (pk u)"
    and e: "list_all2 (\<lambda>i. holds (pk i)) e F2" "e = [] \<or> \<not> fragmentOffset (pk (hd e)) < fragmentOffset (pk u)"
    and u: "holds (pk u) f" and F: "filter (\<lambda>f. f \<in> S) fs = F1 @ F2"
  shows "filter (\<lambda>g. g \<in> insert f S) fs = F1 @ f # F2" "list_all2 (\<lambda>i. holds (pk i)) (d @ u # e) (F1 @ f # F2)"
proof -
  let ?lt = "\<lambda>a b. frame_offset a < frame_offset b"
  note so = fragment_run_sorted [OF run, THEN conjunct1]
  have sF: "sorted_wrt ?lt (F1 @ F2)" using sorted_wrt_filter [OF so, of "\<lambda>f. f \<in> S"] F by simp
  have off: "unat (fragmentOffset (pk i)) = frame_offset g" if "holds (pk i) g" for i g using that by (simp add: holds_def)
  have "frame_offset g < frame_offset f" if "g \<in> set F1" for g
    using list_all2_partner(1) [OF d(1) that] d(2) u by (auto simp: word_less_nat_alt holds_def)
  moreover have "frame_offset f < frame_offset g" if g: "g \<in> set F2" for g
  proof -
    obtain h F2' where F2: "F2 = h # F2'" using g by (cases F2) auto
    then obtain i e' where ee: "e = i # e'" "holds (pk i) h" using e(1) by (auto simp: list_all2_Cons2)
    have "frame_offset f \<le> frame_offset h" using e(2) ee off [OF ee(2)] off [OF u] by (simp add: word_less_nat_alt)
    moreover have "h \<in> set (filter (\<lambda>f. f \<in> S) fs)" unfolding F F2 by simp
    then have "h \<in> set fs" "h \<in> S" by simp_all
    moreover have "frame_offset h \<noteq> frame_offset f" if "h \<noteq> f"
      using so f(1) \<open>h \<in> set fs\<close> that by (metis (mono_tags, lifting) in_set_conv_nth less_irrefl nat_neq_iff sorted_wrt_iff_nth_less)
    ultimately have "frame_offset f < frame_offset h" using f(2) by force
    then show ?thesis using sF F2 g by (auto simp: sorted_wrt_append)
  qed
  ultimately have "sorted_wrt ?lt (F1 @ f # F2)" using sF by (auto simp: sorted_wrt_append)
  moreover have "set (F1 @ f # F2) = set (filter (\<lambda>g. g \<in> insert f S) fs)"
    using arg_cong [OF F, of set] f(1) by auto
  ultimately show "filter (\<lambda>g. g \<in> insert f S) fs = F1 @ f # F2"
    using strict_sorted_unique sorted_wrt_filter [OF so] by metis
  show "list_all2 (\<lambda>i. holds (pk i)) (d @ u # e) (F1 @ f # F2)" using d(1) e(1) u by (simp add: list_all2_appendI)
qed

lemma fragment_fits:
  assumes run: "fragment_run 0 fs" and f: "f \<in> set fs" "f \<notin> S"
    and c: "list_all2 (\<lambda>i. holds (pk i)) c (filter (\<lambda>f. f \<in> S) fs)" and u: "holds (pk u) f"
  shows "\<not> contradicts pk u c"
proof
  assume "contradicts pk u c"
  then obtain i where i: "i \<in> set c" and bad: "fragmentOffset (pk i) < fragmentOffset (pk u) \<and> \<not> moreFragments (pk i)
      \<or> \<not> moreFragments (pk u) \<and> \<not> fragmentOffset (pk i) < fragmentOffset (pk u)"
    by (auto simp: contradicts_def)
  from list_all2_partner(2) [OF c i] obtain g where g: "holds (pk i) g" "g \<in> set (filter (\<lambda>f. f \<in> S) fs)" by blast
  then have gf: "g \<in> set fs" "g \<noteq> f" using f(2) by auto
  have "frame_offset g \<noteq> frame_offset f"
    using fragment_run_sorted [OF run] gf f(1)
    by (metis (mono_tags, lifting) in_set_conv_nth less_irrefl nat_neq_iff sorted_wrt_iff_nth_less)
  with bad g(1) u fragment_run_last [OF run gf(1)] fragment_run_last [OF run f(1)] f(1) gf(1) show False
    by (auto simp: holds_def word_less_nat_alt not_less)
qed

text \<open>The datagram of the frame is found behind the others, and the frame is sorted in.\<close>

lemma fragment_effect_found:
  assumes eff: "fragment_effect st u H U (J @ [c]) R st'"
    and c: "alive st c" "same_datagram (pk_at st u) (pk_at st (hd c))"
    and J: "\<And>k. k \<in> set J \<Longrightarrow> alive st k \<Longrightarrow> \<not> same_datagram (pk_at st u) (pk_at st (hd k))"
    and fits: "\<not> contradicts (pk_at st) u c"
  obtains U' d e where "length U \<le> length U'" "c = d @ e"
    "\<forall>i \<in> set d. fragmentOffset (pk_at st i) < fragmentOffset (pk_at st u)"
    "e = [] \<or> \<not> fragmentOffset (pk_at st (hd e)) < fragmentOffset (pk_at st u)"
    "if complete_datagram (pk_at st) (d @ u # e) then packet_pool st' H U' (filter (alive st) J) (R @ [d @ u # e])
     else packet_pool st' H U' (filter (alive st) J @ [d @ u # e]) R"
proof -
  from eff obtain U' J1 K where JK: "J @ [c] = J1 @ K" and U': "length U \<le> length U'"
    and J1: "\<forall>k \<in> set J1. alive st k \<longrightarrow> \<not> same_datagram (pk_at st u) (pk_at st (hd k))"
    and K: "case K of
        [] \<Rightarrow> packet_pool st' H U' (filter (alive st) J1 @ [[u]]) R
      | c # K' \<Rightarrow> alive st c \<and> same_datagram (pk_at st u) (pk_at st (hd c)) \<and>
          ((\<exists>d e. c = d @ e \<and>
             (\<forall>i \<in> set d. fragmentOffset (pk_at st i) < fragmentOffset (pk_at st u) \<and> moreFragments (pk_at st i)) \<and>
             (e = [] \<or> \<not> fragmentOffset (pk_at st (hd e)) < fragmentOffset (pk_at st u)) \<and>
             (if complete_datagram (pk_at st) (d @ u # e)
              then packet_pool st' H U' (filter (alive st) J1 @ K') (R @ [d @ u # e])
              else packet_pool st' H U' (filter (alive st) J1 @ (d @ u # e) # K') R)) \<or>
           contradicts (pk_at st) u c \<and> packet_pool st' (u # H) U' (filter (alive st) J1 @ c # K') R)"
    unfolding fragment_effect_def by blast
  have "K = [c] \<and> J1 = J"
  proof (cases K rule: rev_cases)
    case Nil
    then show ?thesis using J1 JK c by auto
  next
    case (snoc K0 x)
    then have x: "x = c" "J = J1 @ K0" using JK by auto
    show ?thesis
    proof (cases K0)
      case (Cons k K1)
      then have "k \<in> set J" "alive st k" "same_datagram (pk_at st u) (pk_at st (hd k))" using K snoc x by auto
      then show ?thesis using J by blast
    qed (use snoc x in simp)
  qed
  then have Kc: "K = [c]" "J1 = J" by auto
  show thesis using K [unfolded Kc list.case append_Nil2] fits that [OF U'] by blast
qed

lemma fragment_next:
  assumes part: "partly_received st H (u # U) J c R fs S" and fs: "datagram_frames st fs" "f \<in> set fs" "f \<notin> S"
    and S: "S \<noteq> {}" "S \<subseteq> set fs" and clock: "0 \<le> ns_timerCounter st" "ns_timerCounter st \<le> 2147483647"
  shows "\<exists>st' U' J' c'. handleIncomingEthernetPacket st f = Some (IPv4PacketType, st') \<and> ns_env st' = ns_env st \<and>
    length U \<le> length U' \<and> map (datagram_at st') R = map (datagram_at st) R \<and>
    (if set fs \<subseteq> insert f S then ns_inv st' H U' J' (R @ [c']) \<and> list_all2 (\<lambda>i. holds (pk_at st' i)) c' fs
     else partly_received st' H U' J' c' R fs (insert f S))"
proof -
  let ?F = "filter (\<lambda>f. f \<in> S) fs"
  have inv: "ns_inv st H (u # U) (J @ [c]) R" and al: "alive st c"
    and J: "\<And>k. k \<in> set J \<Longrightarrow> alive st k \<Longrightarrow> packet_key (pk_at st (hd k)) \<noteq> frame_key (hd fs)"
    and c: "list_all2 (\<lambda>i. holds (pk_at st i)) c ?F"
    using part by (auto simp: partly_received_def)
  have run: "fragment_run 0 fs" and key: "\<And>g. g \<in> set fs \<Longrightarrow> frame_key g = frame_key (hd fs)"
    using fs(1) by (auto simp: datagram_frames_def)
  from fragment_stored [OF inv fs(1,2) clock] obtain st2 st' where
    r: "handleIncomingEthernetPacket st f = Some (IPv4PacketType, st')" "ns_env st' = ns_env st"
    and eff: "fragment_effect st2 u H U (J @ [c]) R st'" and u: "u \<notin> set (concat (J @ [c])) \<union> set (concat R)"
    and h: "holds (pk_at st' u) f" "holds (pk_at st2 u) f" "unat (dataSize (pk_at st' u)) \<le> RX_BUFFER_SIZE"
    and con: "\<And>j. content (pk_at st' j) = content (pk_at st2 j)" "\<And>j. j \<noteq> u \<Longrightarrow> pk_at st2 j = pk_at st j"
    and ct: "\<And>j. j \<noteq> u \<Longrightarrow> createdTime (pk_at st' j) = createdTime (pk_at st j)"
    and time: "ns_timerCounter st2 = ns_timerCounter st" and alu: "alive st' [u]"
    by blast
  have pt: "passedTimeSince st2 = passedTimeSince st" "passedTimeSince st' = passedTimeSince st"
    using time ns_envD(1) [OF r(2)] by (auto intro!: passedTimeSince_cong)
  have ne: "k \<noteq> []" if "k \<in> set (J @ [c])" for k
    using inv that packet_poolD(5) [of st H "u # U" "J @ [c]" R] by (auto simp: ns_inv_def chain_def)
  have hd_old: "hd k \<noteq> u" if "k \<in> set (J @ [c])" for k
    using u that ne [OF that] hd_in_set [of k] by (auto simp del: hd_in_set)
  have al2: "alive st2 k = alive st k" if "k \<in> set (J @ [c])" for k
    using con(2) [OF hd_old [OF that]] by (simp add: alive_def pt)
  have c2: "list_all2 (\<lambda>i. holds (pk_at st2 i)) c ?F"
  proof -
    have "pk_at st2 i = pk_at st i" if "i \<in> set c" for i
      using con(2) [of i] u that by (cases "i = u") auto
    then show ?thesis using c by (simp add: list_all2_conv_all_nth)
  qed
  have keyc: "packet_key (pk_at st (hd c)) = frame_key (hd fs)"
  proof -
    have "holds (pk_at st (hd c)) (hd ?F)" "?F \<noteq> []" using c ne [of c] by (cases c; cases ?F; simp)+
    moreover have "hd ?F \<in> set fs" using hd_in_set [OF \<open>?F \<noteq> []\<close>] by simp
    ultimately show ?thesis using key by (simp add: holds_def)
  qed
  have ku: "packet_key (pk_at st2 u) = frame_key (hd fs)" using h(2) key [OF fs(2)] by (simp add: holds_def)
  have same: "same_datagram (pk_at st2 u) (pk_at st2 (hd k)) \<longleftrightarrow> packet_key (pk_at st (hd k)) = frame_key (hd fs)"
    if "k \<in> set (J @ [c])" for k
    using ku con(2) [OF hd_old [OF that]] by (auto simp: same_datagram_key)
  obtain U' d e where U': "length U \<le> length U'" and de: "c = d @ e"
    "\<forall>i \<in> set d. fragmentOffset (pk_at st2 i) < fragmentOffset (pk_at st2 u)"
    "e = [] \<or> \<not> fragmentOffset (pk_at st2 (hd e)) < fragmentOffset (pk_at st2 u)"
    and pool': "if complete_datagram (pk_at st2) (d @ u # e) then packet_pool st' H U' (filter (alive st2) J) (R @ [d @ u # e])
      else packet_pool st' H U' (filter (alive st2) J @ [d @ u # e]) R"
    using fragment_fits [OF run fs(2,3) c2 h(2)] al2 al same keyc J
    by (rule_tac fragment_effect_found [OF eff]) auto
  obtain F1 F2 where F: "?F = F1 @ F2" "list_all2 (\<lambda>i. holds (pk_at st2 i)) d F1" "list_all2 (\<lambda>i. holds (pk_at st2 i)) e F2"
    using c2 de(1) by (auto simp: list_all2_append1)
  note srt = frame_sorted_in [OF run fs(2,3) F(2) de(2) F(3) de(3) h(2) F(1)]
  let ?c = "d @ u # e"
  have all2': "list_all2 (\<lambda>i. holds (pk_at st' i)) ?c (filter (\<lambda>g. g \<in> insert f S) fs)"
  proof -
    have "(\<lambda>i. holds (pk_at st' i)) = (\<lambda>i. holds (pk_at st2 i))" using holds_content [OF con(1)] by (intro ext)
    then show ?thesis using srt by simp
  qed
  have com: "complete_datagram (pk_at st2) ?c \<longleftrightarrow> set fs \<subseteq> insert f S"
    using complete_iff_all [OF _ run, of "pk_at st2" ?c "\<lambda>g. g \<in> insert f S"] srt by auto
  have conR: "content (pk_at st' i) = content (pk_at st i)" if "i \<in> set (concat R)" for i
    using con u that by (metis Un_iff)
  have size: "unat (dataSize (pk_at st' i)) \<le> RX_BUFFER_SIZE" if "i \<in> set (concat J) \<union> set ?c" for i
  proof (cases "i = u")
    case False
    then have "i \<in> set (concat (J @ [c]))" using that de(1) by auto
    then show ?thesis using inv con False content_eqD(2) [OF con(1)] by (auto simp: ns_inv_def)
  qed (use h(3) in simp)
  show ?thesis
  proof (cases "set fs \<subseteq> insert f S")
    case True
    then have pl: "packet_pool st' H U' (filter (alive st2) J) (R @ [?c])" using pool' com by simp
    have cmp: "complete_datagram (pk_at st') k" if "k \<in> set [?c]" for k
      using that com True complete_cong [OF con(1)] by simp
    have sz: "unat (dataSize (pk_at st' i)) \<le> RX_BUFFER_SIZE" if "i \<in> set (concat (filter (alive st2) J) @ concat [?c])" for i
      using that size by auto
    have "filter (\<lambda>g. g \<in> insert f S) fs = fs" using True by (auto intro: filter_True)
    then show ?thesis
      using r U' True all2' ns_inv_keep [OF inv pl conR cmp sz]
      by (intro exI [of _ st'] exI [of _ U'] exI [of _ "filter (alive st2) J"] exI [of _ ?c]) simp
  next
    case False
    then have pl: "packet_pool st' H U' (filter (alive st2) J @ [?c]) (R @ [])" using pool' com by simp
    have sz: "unat (dataSize (pk_at st' i)) \<le> RX_BUFFER_SIZE"
      if "i \<in> set (concat (filter (alive st2) J @ [?c]) @ concat [])" for i
      using that size by auto
    note keep = ns_inv_keep [OF inv pl conR _ sz]
    have "alive st' ?c"
    proof (cases d)
      case Nil
      then show ?thesis using alu by (simp add: alive_def)
    next
      case (Cons i d')
      then have "hd c = i" "i \<noteq> u" using de(1) hd_old [of c] by auto
      then show ?thesis using al ct Cons by (simp add: alive_def pt)
    qed
    moreover have "packet_key (pk_at st' (hd k)) \<noteq> frame_key (hd fs)" if "k \<in> set (filter (alive st2) J)" for k
    proof -
      have k: "k \<in> set J" "alive st k" "hd k \<noteq> u" using that al2 hd_old by auto
      then have "content (pk_at st' (hd k)) = content (pk_at st (hd k))" using con by metis
      then show ?thesis using J [OF k(1,2)] content_eqD [of "pk_at st' (hd k)" "pk_at st (hd k)"] by (simp add: packet_key_def)
    qed
    ultimately have "partly_received st' H U' (filter (alive st2) J) ?c R fs (insert f S)"
      unfolding partly_received_def using keep(1) all2' by simp
    then show ?thesis using r U' False keep(2)
      by (intro exI [of _ st'] exI [of _ U'] exI [of _ "filter (alive st2) J"] exI [of _ ?c]) simp
  qed
qed

lemma fragment_effect_new:
  assumes "fragment_effect st u H U I R st'"
    and "\<And>k. k \<in> set I \<Longrightarrow> alive st k \<Longrightarrow> \<not> same_datagram (pk_at st u) (pk_at st (hd k))"
  shows "\<exists>U'. length U \<le> length U' \<and> packet_pool st' H U' (filter (alive st) I @ [[u]]) R"
  using assms(1) unfolding fragment_effect_def
proof (elim exE conjE)
  fix U' J K
  assume "I = J @ K" "length U \<le> length U'"
    and K: "case K of [] \<Rightarrow> packet_pool st' H U' (filter (alive st) J @ [[u]]) R
      | c # K' \<Rightarrow> alive st c \<and> same_datagram (pk_at st u) (pk_at st (hd c)) \<and>
          ((\<exists>d e. c = d @ e \<and>
             (\<forall>i \<in> set d. fragmentOffset (pk_at st i) < fragmentOffset (pk_at st u) \<and> moreFragments (pk_at st i)) \<and>
             (e = [] \<or> \<not> fragmentOffset (pk_at st (hd e)) < fragmentOffset (pk_at st u)) \<and>
             (if complete_datagram (pk_at st) (d @ u # e)
              then packet_pool st' H U' (filter (alive st) J @ K') (R @ [d @ u # e])
              else packet_pool st' H U' (filter (alive st) J @ (d @ u # e) # K') R)) \<or>
           contradicts (pk_at st) u c \<and> packet_pool st' (u # H) U' (filter (alive st) J @ c # K') R)"
  moreover from this have "K = []" using assms(2) by (cases K) auto
  ultimately show ?thesis by auto
qed

lemma fragment_first:
  assumes inv: "ns_inv st H (u # U) I R" and fs: "datagram_frames st fs" "f \<in> set fs"
    and I: "\<forall>k \<in> set I. alive st k \<longrightarrow> packet_key (pk_at st (hd k)) \<noteq> frame_key (hd fs)"
    and clock: "0 \<le> ns_timerCounter st" "ns_timerCounter st \<le> 2147483647"
  shows "\<exists>st' U' J'. handleIncomingEthernetPacket st f = Some (IPv4PacketType, st') \<and> ns_env st' = ns_env st \<and>
    length U \<le> length U' \<and> map (datagram_at st') R = map (datagram_at st) R \<and>
    partly_received st' H U' J' [u] R fs {f}"
proof -
  from fragment_stored [OF inv fs clock] obtain st2 st' where
    r: "handleIncomingEthernetPacket st f = Some (IPv4PacketType, st')" "ns_env st' = ns_env st"
    and eff: "fragment_effect st2 u H U I R st'" and u: "u \<notin> set (concat I) \<union> set (concat R)"
    and h: "holds (pk_at st' u) f" "holds (pk_at st2 u) f" "unat (dataSize (pk_at st' u)) \<le> RX_BUFFER_SIZE"
    and con: "\<And>j. content (pk_at st' j) = content (pk_at st2 j)" "\<And>j. j \<noteq> u \<Longrightarrow> pk_at st2 j = pk_at st j"
    and time: "ns_timerCounter st2 = ns_timerCounter st" and alu: "alive st' [u]"
    by blast
  have pt: "passedTimeSince st2 = passedTimeSince st" by (rule passedTimeSince_cong [OF time])
  have ku: "packet_key (pk_at st2 u) = frame_key (hd fs)"
    using h(2) fs by (auto simp: holds_def datagram_frames_def)
  have old: "hd k \<noteq> u" "alive st2 k = alive st k" if "k \<in> set I" for k
  proof -
    have "k \<noteq> []" using inv that packet_poolD(5) [of st H "u # U" I R] by (auto simp: ns_inv_def chain_def)
    then show "hd k \<noteq> u" using u that hd_in_set [of k] by (auto simp del: hd_in_set)
    then show "alive st2 k = alive st k" using con(2) by (simp add: alive_def pt)
  qed
  have other: "\<not> same_datagram (pk_at st2 u) (pk_at st2 (hd k))" if "k \<in> set I" "alive st2 k" for k
    using I that old [OF that(1)] con(2) ku by (auto simp: same_datagram_key)
  obtain U' where U': "length U \<le> length U'" and pl: "packet_pool st' H U' (filter (alive st2) I @ [[u]]) (R @ [])"
    using fragment_effect_new [OF eff other] by auto
  have conR: "content (pk_at st' i) = content (pk_at st i)" if "i \<in> set (concat I) \<union> set (concat R)" for i
    using con u that by metis
  have sz: "unat (dataSize (pk_at st' i)) \<le> RX_BUFFER_SIZE"
    if "i \<in> set (concat (filter (alive st2) I @ [[u]]) @ concat [])" for i
  proof (cases "i = u")
    case False
    then have i: "i \<in> set (concat I)" using that by auto
    then have "unat (dataSize (pk_at st i)) \<le> RX_BUFFER_SIZE" using inv by (auto simp: ns_inv_def)
    then show ?thesis using content_eqD(2) [OF conR] i by simp
  qed (use h(3) in simp)
  note keep = ns_inv_keep [OF inv pl conR _ sz]
  have "packet_key (pk_at st' (hd k)) \<noteq> frame_key (hd fs)" if "k \<in> set (filter (alive st2) I)" for k
  proof -
    have k: "k \<in> set I" "alive st k" "hd k \<noteq> u" using that old by auto
    then have "content (pk_at st' (hd k)) = content (pk_at st (hd k))" using con by metis
    then show ?thesis using I k content_eqD [of "pk_at st' (hd k)" "pk_at st (hd k)"] by (auto simp: packet_key_def)
  qed
  moreover have "filter (\<lambda>g. g \<in> {f}) fs = [f]"
    using fragment_run_sorted [of 0 fs] fs
    by (intro strict_sorted_unique [where w = frame_offset] sorted_wrt_filter) (auto simp: datagram_frames_def)
  ultimately have "partly_received st' H U' (filter (alive st2) I) [u] R fs {f}"
    unfolding partly_received_def using keep(1) alu h(1) by simp
  then show ?thesis using r U' keep(2) by (intro exI [of _ st'] exI [of _ U'] exI [of _ "filter (alive st2) I"]) simp
qed

lemma datagram_frames_env: "ns_env st' = ns_env st \<Longrightarrow> datagram_frames st' fs = datagram_frames st fs"
  using ns_envD(2) [of st' st] by (simp add: datagram_frames_def accepted_frame_def)

lemma fragments_arrive:
  assumes "partly_received st H U J c R fs S" "datagram_frames st fs" "set ps = set fs - S" "distinct ps"
    "S \<noteq> {}" "S \<subseteq> set fs" "ps \<noteq> []" "length ps \<le> length U"
    "0 \<le> ns_timerCounter st" "ns_timerCounter st \<le> 2147483647"
  shows "\<exists>st' U' J' c'. receive_all ps st = Some st' \<and> ns_inv st' H U' J' (R @ [c']) \<and>
    list_all2 (\<lambda>i. holds (pk_at st' i)) c' fs \<and> map (datagram_at st') R = map (datagram_at st) R"
  using assms
proof (induction ps arbitrary: st U J c S)
  case (Cons f ps)
  obtain u V where U: "U = u # V" using Cons.prems(8) by (cases U) auto
  have f: "f \<in> set fs" "f \<notin> S" using Cons.prems(3) by auto
  from fragment_next [OF Cons.prems(1) [unfolded U] Cons.prems(2) f Cons.prems(5,6,9,10)] obtain st1 U1 J1 c1 where
    st1: "handleIncomingEthernetPacket st f = Some (IPv4PacketType, st1)" "ns_env st1 = ns_env st" "length V \<le> length U1"
    "map (datagram_at st1) R = map (datagram_at st) R"
    and res: "if set fs \<subseteq> insert f S then ns_inv st1 H U1 J1 (R @ [c1]) \<and> list_all2 (\<lambda>i. holds (pk_at st1 i)) c1 fs
      else partly_received st1 H U1 J1 c1 R fs (insert f S)"
    by blast
  have rest: "set ps = set fs - insert f S" using Cons.prems(3,4) f by auto
  show ?case
  proof (cases "ps = []")
    case True
    then show ?thesis using st1 res rest by auto
  next
    case False
    then have "\<not> set fs \<subseteq> insert f S" using rest by (metis Diff_eq_empty_iff set_empty)
    then have part: "partly_received st1 H U1 J1 c1 R fs (insert f S)" using res by simp
    have fs1: "datagram_frames st1 fs" using datagram_frames_env [OF st1(2)] Cons.prems(2) by simp
    have "\<exists>st' U' J' c'. receive_all ps st1 = Some st' \<and> ns_inv st' H U' J' (R @ [c']) \<and>
        list_all2 (\<lambda>i. holds (pk_at st' i)) c' fs \<and> map (datagram_at st') R = map (datagram_at st1) R"
      using Cons.prems(4,6,8-10) st1(3) ns_envD(1) [OF st1(2)] U f False
      by (intro Cons.IH [OF part fs1 rest]) auto
    then show ?thesis using st1(1,4) by simp
  qed
qed simp

lemma datagram_holds:
  assumes "list_all2 (\<lambda>i. holds (pk_at st i)) c fs" "set c \<subseteq> {..<length (packetListElements st)}" "fs \<noteq> []"
  shows "datagram_at st c = (frame_source (hd fs), hd fs ! 23, concat (map frame_payload fs))"
proof -
  have "fragment_bytes (pool_of st) (c ! k) = frame_payload (fs ! k)" if "k < length c" for k
  proof -
    have "c ! k < length (packetListElements st)" "holds (pk_at st (c ! k)) (fs ! k)"
      using assms(1) that subsetD [OF assms(2) nth_mem [OF that]] by (simp_all add: list_all2_conv_all_nth)
    then show ?thesis unfolding holds_def fragment_bytes_def pool_of_def by auto
  qed
  then have "map (fragment_bytes (pool_of st)) c = map frame_payload fs"
    using list_all2_lengthD [OF assms(1)] by (intro nth_equalityI) auto
  moreover have "holds (pk_at st (hd c)) (hd fs)" using assms(1,3) by (cases c; cases fs) auto
  ultimately show ?thesis by (simp add: datagram_at_def datagram_def holds_def packet_key_def frame_key_def)
qed

lemma reassembly:
  assumes inv: "ns_inv st H U I R" and fs: "datagram_frames st fs" and perm: "mset ps = mset fs"
    and room: "length fs \<le> length U"
    and I: "\<forall>k \<in> set I. alive st k \<longrightarrow> packet_key (pk_at st (hd k)) \<noteq> frame_key (hd fs)"
    and clock: "0 \<le> ns_timerCounter st" "ns_timerCounter st \<le> 2147483647"
  shows "\<exists>st'. receive_all ps st = Some st' \<and>
    queue_is st' (map (datagram_at st) R @ [(frame_source (hd fs), hd fs ! 23, concat (map frame_payload fs))])"
proof -
  have run: "fragment_run 0 fs" "2 \<le> length fs" using fs by (auto simp: datagram_frames_def)
  have "distinct (map frame_offset fs)"
    using fragment_run_sorted [OF run(1)] by (auto simp: sorted_wrt_map [symmetric] strict_sorted_iff)
  then have "distinct fs" by (simp add: distinct_map)
  then have ps: "distinct ps" "set ps = set fs" "length ps = length fs"
    using perm mset_eq_setD mset_eq_imp_distinct_iff mset_eq_length by metis+
  then obtain f qs where q: "ps = f # qs" "qs \<noteq> []" using run(2) by (cases ps; cases "tl ps") auto
  obtain u V where U: "U = u # V" using room run(2) by (cases U) auto
  have f: "f \<in> set fs" using ps(2) q by auto
  from fragment_first [OF inv [unfolded U] fs f I clock] obtain st1 U1 J1 where
    st1: "handleIncomingEthernetPacket st f = Some (IPv4PacketType, st1)" "ns_env st1 = ns_env st" "length V \<le> length U1"
    "map (datagram_at st1) R = map (datagram_at st) R" "partly_received st1 H U1 J1 [u] R fs {f}" by blast
  have fs1: "datagram_frames st1 fs" using datagram_frames_env [OF st1(2)] fs by simp
  have "set qs = set fs - {f}" "length qs \<le> length U1" using ps q room st1(3) U by auto
  then obtain st' U' J' c' where r: "receive_all qs st1 = Some st'" "ns_inv st' H U' J' (R @ [c'])"
    "list_all2 (\<lambda>i. holds (pk_at st' i)) c' fs" "map (datagram_at st') R = map (datagram_at st1) R"
    using fragments_arrive [OF st1(5) fs1, of qs] ps(1) q f clock ns_envD(1) [OF st1(2)] by auto
  have "set c' \<subseteq> {..<length (packetListElements st')}"
    using r(2) packet_poolD(7) [of st' H U' J' "R @ [c']"] by (auto simp: ns_inv_def)
  moreover have "fs \<noteq> []" using run(2) by auto
  ultimately have "datagram_at st' c' = (frame_source (hd fs), hd fs ! 23, concat (map frame_payload fs))"
    using datagram_holds [OF r(3)] by blast
  then have "queue_is st' (map (datagram_at st) R @ [(frame_source (hd fs), hd fs ! 23, concat (map frame_payload fs))])"
    using r(2,4) st1(4) unfolding queue_is_def by (intro exI [of _ H] exI [of _ U'] exI [of _ J'] exI [of _ "R @ [c']"]) simp
  then show ?thesis using q(1) st1(1) r(1) by simp
qed

end
