(* ===== verification/Network_Send.thy ===== *)
theory Network_Send
  imports Network_Fragments
begin

text \<open>
  Outgoing IPv4 packets: the frames \<open>handleOutgoingIPv4Packet\<close> writes, and what a receiver reads from
  them.
\<close>

subsection \<open>Flags and fragment offset\<close>

definition frag_flags :: "bool \<Rightarrow> u32 \<Rightarrow> u16" where
  "frag_flags lastFragment off = ucast ((if lastFragment then 0 else 0x2000) OR drop_bit 3 off)"

lemma unat_frag_flags:
  assumes "unat off < 65536"
  shows "unat (frag_flags l off) = (if l then 0 else 8192) + unat off div 8"
proof -
  have d: "unat (drop_bit 3 off) = unat off div 8"
    by (simp add: unsigned_drop_bit_eq) (simp add: drop_bit_eq_div take_bit_eq_mod)
  have small: "unat off div 8 < 8192" using assms by (simp add: less_mult_imp_div_less)
  have "\<not> bit (0x2000 :: u32) n \<or> \<not> bit (drop_bit 3 off) n" for n
  proof (cases "n = 13")
    case True
    have "\<not> bit (unat (drop_bit 3 off)) 13" using small d by (simp add: bit_iff_odd)
    then have "\<not> bit (drop_bit 3 off) 13" by (simp add: bit_unsigned_iff)
    then show ?thesis using True by simp
  next
    case False
    have two: "(0x2000 :: u32) = 2 ^ 13" by simp
    show ?thesis unfolding two bit_exp_iff using False by blast
  qed
  then have "(0x2000 :: u32) OR drop_bit 3 off = 0x2000 + drop_bit 3 off" by (simp add: disjunctive_add)
  then have "unat ((if l then 0 else 0x2000) OR drop_bit 3 off :: u32) = (if l then 0 else 8192) + unat off div 8"
    using d small by (auto simp: unat_add_no_wrap)
  then show ?thesis using small by (simp add: frag_flags_def unsigned_ucast_eq take_bit_eq_mod)
qed

lemma flag_bits:
  assumes "unat off < 65536"
  shows "byte_at 1 (frag_flags l off) AND 0x20 = 0 \<longleftrightarrow> l"
    and "unat (byte_at 1 (frag_flags l off) AND 0x1F) = unat off div 2048"
    and "unat (byte_at 0 (frag_flags l off)) = unat off div 8 mod 256"
proof -
  define x where "x = byte_at 1 (frag_flags l off)"
  have small: "unat off div 2048 < 32" using assms by (simp add: less_mult_imp_div_less)
  have "(8192 + y) div 256 = 32 + y div 256" for y :: nat by linarith
  then have x: "unat x = (if l then 0 else 32) + unat off div 2048"
    using small by (simp add: x_def unat_byte_at unat_frag_flags [OF assms] div_mult2_eq [symmetric])
  have "x AND 0x20 = 0 \<longleftrightarrow> \<not> bit x 5"
    using and_exp_eq_0_iff_not_bit [of x 5] by simp
  also have "\<dots> \<longleftrightarrow> even (unat x div 32)"
    using bit_iff_odd [of "unat x" 5] by (simp add: bit_unsigned_iff)
  also have "\<dots> \<longleftrightarrow> l"
  proof -
    have "(32 + unat off div 2048) div 32 = 1" using small by linarith
    then show ?thesis using x small by (cases l) simp_all
  qed
  finally show "byte_at 1 (frag_flags l off) AND 0x20 = 0 \<longleftrightarrow> l" by (simp add: x_def)
  have "(0x1F :: u8) = mask 5" by (simp add: mask_eq_exp_minus_1)
  then have "x AND 0x1F = take_bit 5 x" by (simp add: take_bit_eq_mask)
  then have "unat (x AND 0x1F) = unat x mod 32" by (simp add: unsigned_take_bit_eq) (simp add: take_bit_eq_mod)
  also have "\<dots> = unat off div 2048" using x small by simp
  finally show "unat (byte_at 1 (frag_flags l off) AND 0x1F) = unat off div 2048" by (simp add: x_def)
  have "(8192 + unat off div 8) mod 256 = unat off div 8 mod 256"
    using mod_mult_self3 [of 32 256 "unat off div 8"] by simp
  then show "unat (byte_at 0 (frag_flags l off)) = unat off div 8 mod 256"
    using unat_byte_at [of 0 "frag_flags l off"] unat_frag_flags [OF assms, of l] by (cases l) simp_all
qed

lemma offset_bytes:
  assumes "unat off < 65536" "8 dvd unat off"
  shows "unat (8 * (push_bit 8 (ucast (byte_at 1 (frag_flags l off) AND 0x1F)) + ucast (byte_at 0 (frag_flags l off))) :: u32)
    = unat off"
proof -
  let ?hi = "ucast (byte_at 1 (frag_flags l off) AND 0x1F) :: u32" and ?lo = "ucast (byte_at 0 (frag_flags l off)) :: u32"
  obtain k where k: "unat off = 8 * k" "k < 8192" using assms by (auto elim!: dvdE)
  have "k div 256 < 32" using k(2) by (simp add: less_mult_imp_div_less)
  have hi: "unat ?hi = k div 256" and lo: "unat ?lo = k mod 256"
    using flag_bits(2,3) [OF assms(1), of l] k(1) by (simp_all add: div_mult2_eq [of "8 * k" 8 256, simplified])
  have "unat (push_bit 8 ?hi) = 256 * (k div 256)"
    using hi \<open>k div 256 < 32\<close> by (simp add: push_bit_eq_mult unat_word_ariths)
  moreover have "256 * (k div 256) + k mod 256 = k" by simp
  ultimately have "unat (push_bit 8 ?hi + ?lo) = k" using lo k(2) by (simp add: unat_add_no_wrap)
  then have "unat (8 * (push_bit 8 ?hi + ?lo)) = 8 * k"
    using k(2) unat_word_ariths(2) [of 8 "push_bit 8 ?hi + ?lo"] by simp
  then show ?thesis using k(1) by simp
qed

subsection \<open>The frame and its fields\<close>

definition ipv4_frame :: "u8 list \<Rightarrow> u8 list \<Rightarrow> u16 \<Rightarrow> bool \<Rightarrow> u32 \<Rightarrow> u8 \<Rightarrow> u32 \<Rightarrow> u32 \<Rightarrow> u8 list \<Rightarrow> u8 list" where
  "ipv4_frame dest src ident lastFragment off proto sip dip payload =
     ethernet_header dest src 0x0800 @ ipv4_header (of_nat (length payload)) ident lastFragment off proto sip dip @ payload"

lemma ipv4_header_flags:
  "ipv4_header n ident l off proto sip dip = [0x45, 0x00, byte_at 1 (20 + n), byte_at 0 (20 + n), byte_at 1 ident, byte_at 0 ident,
     byte_at 1 (frag_flags l off), byte_at 0 (frag_flags l off), 255, proto, 0, 0] @ be32 sip @ be32 dip"
  by (simp add: ipv4_header_def frag_flags_def Let_def)

lemma length6: "length xs = 6 \<Longrightarrow> \<exists>a b c d e f. xs = [a, b, c, d, e, f]"
  by (auto simp: eval_nat_numeral length_Suc_conv)

lemma frame_bytes:
  assumes "length dest = 6" "length src = 6" and F: "F = ipv4_frame dest src ident l off proto sip dip payload"
  shows "length F = 34 + length payload" "drop 34 F = payload"
    "F ! 12 = 0x08" "F ! 13 = 0x00" "F ! 14 = 0x45"
    "F ! 16 = byte_at 1 (20 + of_nat (length payload) :: u32)" "F ! 17 = byte_at 0 (20 + of_nat (length payload) :: u32)"
    "F ! 18 = byte_at 1 ident" "F ! 19 = byte_at 0 ident"
    "F ! 20 = byte_at 1 (frag_flags l off)" "F ! 21 = byte_at 0 (frag_flags l off)" "F ! 23 = proto"
    "u32_be (F ! 26) (F ! 27) (F ! 28) (F ! 29) = sip" "u32_be (F ! 30) (F ! 31) (F ! 32) (F ! 33) = dip"
proof -
  obtain a b c d e f where dest: "dest = [a, b, c, d, e, f]" using length6 [OF assms(1)] by blast
  obtain a' b' c' d' e' f' where src: "src = [a', b', c', d', e', f']" using length6 [OF assms(2)] by blast
  note F' = F ipv4_frame_def ethernet_header_def ipv4_header_flags be32_def dest src
  have nums: "byte_at 1 (0x0800 :: u16) = 0x08" "byte_at 0 (0x0800 :: u16) = 0x00" by (simp_all add: byte_at_def)
  show "length F = 34 + length payload" "drop 34 F = payload"
    "F ! 12 = 0x08" "F ! 13 = 0x00" "F ! 14 = 0x45"
    "F ! 16 = byte_at 1 (20 + of_nat (length payload) :: u32)" "F ! 17 = byte_at 0 (20 + of_nat (length payload) :: u32)"
    "F ! 18 = byte_at 1 ident" "F ! 19 = byte_at 0 ident"
    "F ! 20 = byte_at 1 (frag_flags l off)" "F ! 21 = byte_at 0 (frag_flags l off)" "F ! 23 = proto"
    "u32_be (F ! 26) (F ! 27) (F ! 28) (F ! 29) = sip" "u32_be (F ! 30) (F ! 31) (F ! 32) (F ! 33) = dip"
    unfolding F' nums by simp_all
qed

text \<open>What the receiver reads from the frame.\<close>

lemma frame_read:
  assumes "length dest = 6" "length src = 6" "length payload \<le> 1480" "unat off < 65536" "8 dvd unat off"
    and F: "F = ipv4_frame dest src ident l off proto sip dip payload"
  shows "accepted_frame st F \<longleftrightarrow> dip = myIP st \<or> dip = 0xFFFFFFFF" "u16_be (F ! 12) (F ! 13) = 0x0800"
    "length F \<le> RX_BUFFER_SIZE" "frame_payload F = payload" "frame_offset F = unat off" "frame_more F \<longleftrightarrow> \<not> l"
    "frame_source F = sip" "frame_key F = (sip, dip, ucast ident)" "F ! 23 = proto"
proof -
  note b = frame_bytes [OF assms(1,2) F]
  have hl: "frame_hl F = 20" by (simp add: b)
  define w where "w = (20 + of_nat (length payload) :: u32)"
  have w: "unat w = 20 + length payload" using assms(3) by (simp add: w_def unat_add_no_wrap unat_of_nat_u32)
  have len: "frame_len F = 20 + length payload"
  proof -
    have "frame_len F = unat (byte_at 1 w) * 256 + unat (byte_at 0 w)" unfolding b(6,7) push8_plus_low w_def ..
    also have "\<dots> = unat w" using w assms(3) by (simp add: unat_byte_at less_mult_imp_div_less)
    finally show ?thesis using w by simp
  qed
  show ty: "u16_be (F ! 12) (F ! 13) = 0x0800" by (simp add: b u16_be_def)
  show "accepted_frame st F \<longleftrightarrow> dip = myIP st \<or> dip = 0xFFFFFFFF"
    unfolding accepted_frame_def Let_def hl len b(14) using b(1) by (simp add: b(5))
  show "length F \<le> RX_BUFFER_SIZE" using b(1) assms(3) by simp
  show "frame_payload F = payload" unfolding frame_payload_def hl len using b(2) by simp
  show "frame_offset F = unat off" unfolding frame_offset_def b(10,11) by (rule offset_bytes [OF assms(4,5)])
  show "frame_more F \<longleftrightarrow> \<not> l" unfolding frame_more_def b(10) using flag_bits(1) [OF assms(4)] by simp
  show src: "frame_source F = sip" unfolding frame_source_def b(13) ..
  show "frame_key F = (sip, dip, ucast ident)" unfolding frame_key_def src b(14) b(8,9) by simp
  show "F ! 23 = proto" by (rule b(12))
qed

subsection \<open>Resolved next hops\<close>

lemma find_arp_entry_cases:
  "find_arp_entry st hop is cand = Some i \<Longrightarrow>
     find (\<lambda>i. arp_IP (arpEntries st ! i) = hop) is = Some i \<or>
     (\<forall>i \<in> set is. arp_IP (arpEntries st ! i) \<noteq> hop) \<and> (i \<in> set is \<or> cand = Some i)"
proof (induction "is" arbitrary: cand)
  case (Cons j js)
  show ?case
  proof (cases "arp_IP (arpEntries st ! j) = hop")
    case False
    then obtain c where "find_arp_entry st hop js c = Some i" "c = cand \<or> c = Some j"
      using Cons.prems by (auto simp: Let_def split: if_splits)
    then show ?thesis using Cons.IH [of c] False by auto
  qed (use Cons.prems in simp)
qed simp

lemma find_arp_entry_found:
  "find (\<lambda>i. arp_IP (arpEntries st ! i) = hop) is = Some i \<Longrightarrow> find_arp_entry st hop is cand = Some i"
  by (induction "is" arbitrary: cand) (auto simp: Let_def split: if_splits)

lemma find_arp_entry_exact:
  assumes "find_arp_entry st hop is None = Some i" "arp_IP (arpEntries st ! i) = hop"
  shows "find (\<lambda>i. arp_IP (arpEntries st ! i) = hop) is = Some i"
  using find_arp_entry_cases [OF assms(1)] assms(2) by auto

definition arp_range :: "NetworkStackHandler \<Rightarrow> u32 \<Rightarrow> nat list" where
  "arp_range st hop = (let base = unat hop mod arpHashTableSize st * arpHashEntryListSize st
     in [base..<base + arpHashEntryListSize st])"

definition arp_wf :: "NetworkStackHandler \<Rightarrow> bool" where
  "arp_wf st \<longleftrightarrow> length (arpEntries st) = arpHashTableSize st * arpHashEntryListSize st \<and> 0 < arpHashTableSize st \<and>
     (\<forall>e \<in> set (arpEntries st). length (arp_MAC e) = 6)"

lemma arp_range_in:
  assumes "arp_wf st" "i \<in> set (arp_range st hop)"
  shows "i < length (arpEntries st)"
proof -
  have "unat hop mod arpHashTableSize st < arpHashTableSize st" using assms(1) by (simp add: arp_wf_def)
  then have "(unat hop mod arpHashTableSize st + 1) * arpHashEntryListSize st \<le> arpHashTableSize st * arpHashEntryListSize st"
    by (intro mult_le_mono1) simp
  then show ?thesis using assms by (auto simp: arp_range_def arp_wf_def Let_def)
qed

text \<open>A next hop that is resolved stays resolved as long as no time passes, with the same entry.\<close>

lemma set_arp_more [simp]:
  "arpHashTableSize (set_arp st i e) = arpHashTableSize st" "arpHashEntryListSize (set_arp st i e) = arpHashEntryListSize st"
  "passedTimeSince (set_arp st i e) = passedTimeSince st" "arp_range (set_arp st i e) = arp_range st"
  "set_arp (set_arp st i e) i e' = set_arp st i e'" "next_hop (set_arp st i e) = next_hop st"
  by (simp_all add: set_arp_def passedTimeSince_def arp_range_def next_hop_def Let_def fun_eq_iff)

lemma request_again_unresolved: "request_again st m i hop wb \<noteq> (Resolved k, st1, m1)"
  by (simp add: request_again_def Let_def split: prod.split)

lemma resolve_arp_entry:
  assumes "find_arp_entry st hop (arp_range st hop) None = Some j" "e = arpEntries st ! j" "arp_IP e = hop"
  shows "resolve_arp st m hop wb =
     (if lastRequested e = -1 then request_again (set_arp st j e) m j hop wb
      else if lastAnswered e = -1 \<or> passedTimeSince st (lastAnswered e) > passedTimeSince st (lastRequested e) then
        (if passedTimeSince st (lastRequested e) > ARP_REQUEST_TIMEOUT \<and>
            passedTimeSince st (lastRequested e) \<le> ARP_BROADCAST_ON_FAILURE_TIMEOUT
         then (Resolved j, set_arp st j (e\<lparr>arp_MAC := replicate 6 0xFF\<rparr>), m)
         else if passedTimeSince st (lastRequested e) > ARP_BROADCAST_ON_FAILURE_TIMEOUT
         then request_again (set_arp st j e) m j hop wb
         else (Not_Resolved WaitingOnARPReply 0, set_arp st j e, m))
      else if passedTimeSince st (lastAnswered e) > ARP_ENTRY_TIMEOUT
      then request_again (set_arp st j e) m j hop wb
      else (Resolved j, set_arp st j e, m))"
  using assms(1,3) unfolding resolve_arp_def Let_def arp_range_def by (simp add: assms(2))

lemma resolve_new_entry:
  assumes "find_arp_entry st hop (arp_range st hop) None = Some j" "arp_IP (arpEntries st ! j) \<noteq> hop"
  shows "resolve_arp st m hop wb = request_again (set_arp st j ((arpEntries st ! j)
    \<lparr>arp_IP := hop, lastUsed := -1, lastRequested := -1, lastAnswered := -1\<rparr>)) m j hop wb"
  using assms unfolding resolve_arp_def Let_def arp_range_def by simp

lemma resolve_resolved:
  assumes r: "resolve_arp st m hop wb = (Resolved i, st1, m1)" and wf: "arp_wf st"
  obtains e0 M where "m1 = m" "i < length (arpEntries st)" "e0 = arpEntries st ! i" "arp_IP e0 = hop" "length M = 6"
    "st1 = set_arp st i (e0\<lparr>arp_MAC := M\<rparr>)" "lastRequested e0 \<noteq> -1"
    "find (\<lambda>i. arp_IP (arpEntries st ! i) = hop) (arp_range st hop) = Some i"
    "(if lastAnswered e0 = -1 \<or> passedTimeSince st (lastAnswered e0) > passedTimeSince st (lastRequested e0)
      then M = replicate 6 0xFF \<and> passedTimeSince st (lastRequested e0) > ARP_REQUEST_TIMEOUT \<and>
        passedTimeSince st (lastRequested e0) \<le> ARP_BROADCAST_ON_FAILURE_TIMEOUT
      else M = arp_MAC e0 \<and> passedTimeSince st (lastAnswered e0) \<le> ARP_ENTRY_TIMEOUT)"
proof -
  obtain j where j: "find_arp_entry st hop (arp_range st hop) None = Some j"
    using r by (auto simp: resolve_arp_def arp_range_def Let_def split: option.splits)
  define e where "e = arpEntries st ! j"
  have hop: "arp_IP e = hop"
    using resolve_new_entry [OF j, of m wb] r request_again_unresolved unfolding e_def by metis
  note run = resolve_arp_entry [OF j e_def hop, of m wb]
  from find_arp_entry_exact [OF j] hop have f: "find (\<lambda>i. arp_IP (arpEntries st ! i) = hop) (arp_range st hop) = Some j"
    by (simp add: e_def)
  then have jl: "j < length (arpEntries st)" using arp_range_in [OF wf] by (metis find_Some_iff nth_mem)
  then have mac: "length (arp_MAC e) = 6" using wf by (simp add: arp_wf_def e_def)
  have lr: "lastRequested e \<noteq> -1" using r run request_again_unresolved by auto
  show thesis
  proof (cases "lastAnswered e = -1 \<or> passedTimeSince st (lastAnswered e) > passedTimeSince st (lastRequested e)")
    case True
    then have "i = j" "m1 = m" "st1 = set_arp st j (e\<lparr>arp_MAC := replicate 6 0xFF\<rparr>)"
      "passedTimeSince st (lastRequested e) > ARP_REQUEST_TIMEOUT"
      "passedTimeSince st (lastRequested e) \<le> ARP_BROADCAST_ON_FAILURE_TIMEOUT"
      using r run lr request_again_unresolved by (auto split: if_splits)
    then show thesis using that [of e "replicate 6 0xFF"] jl hop lr f True by (simp add: e_def)
  next
    case False
    then have "i = j" "m1 = m" "st1 = set_arp st j e" "passedTimeSince st (lastAnswered e) \<le> ARP_ENTRY_TIMEOUT"
      using r run lr request_again_unresolved by (auto split: if_splits)
    then show thesis using that [of e "arp_MAC e"] jl hop lr f False mac by (simp add: e_def)
  qed
qed

lemma resolve_again:
  assumes r: "resolve_arp st m hop wb = (Resolved i, st1, m1)" and wf: "arp_wf st"
    and st2: "st2 = set_arp st1 i ((arpEntries st1 ! i)\<lparr>lastUsed := t\<rparr>)"
  shows "resolve_arp st2 m' hop wb' = (Resolved i, st2, m')" "arp_wf st2" "arp_MAC (arpEntries st2 ! i) = arp_MAC (arpEntries st1 ! i)"
    "length (arp_MAC (arpEntries st1 ! i)) = 6"
proof -
  from resolve_resolved [OF r wf] obtain e0 M where
    e: "i < length (arpEntries st)" "e0 = arpEntries st ! i" "arp_IP e0 = hop" "length M = 6"
    "st1 = set_arp st i (e0\<lparr>arp_MAC := M\<rparr>)" "lastRequested e0 \<noteq> -1"
    and f: "find (\<lambda>i. arp_IP (arpEntries st ! i) = hop) (arp_range st hop) = Some i"
    and M: "if lastAnswered e0 = -1 \<or> passedTimeSince st (lastAnswered e0) > passedTimeSince st (lastRequested e0)
      then M = replicate 6 0xFF \<and> passedTimeSince st (lastRequested e0) > ARP_REQUEST_TIMEOUT \<and>
        passedTimeSince st (lastRequested e0) \<le> ARP_BROADCAST_ON_FAILURE_TIMEOUT
      else M = arp_MAC e0 \<and> passedTimeSince st (lastAnswered e0) \<le> ARP_ENTRY_TIMEOUT"
    by blast
  define e2 where "e2 = e0\<lparr>arp_MAC := M, lastUsed := t\<rparr>"
  have st2': "st2 = set_arp st i e2" using e(1,5) by (simp add: st2 e2_def)
  have "arp_IP (arpEntries st2 ! k) = arp_IP (arpEntries st ! k)" for k
    using e(1-3) by (cases "k = i") (simp_all add: st2' e2_def)
  then have "find_arp_entry st2 hop (arp_range st2 hop) None = Some i"
    using f by (intro find_arp_entry_found) (simp add: st2')
  moreover have at: "arpEntries st2 ! i = e2" "arp_IP e2 = hop" using e(1,3) by (simp_all add: st2' e2_def)
  ultimately have run: "resolve_arp st2 m' hop wb' =
     (if lastRequested e2 = -1 then request_again (set_arp st2 i e2) m' i hop wb'
      else if lastAnswered e2 = -1 \<or> passedTimeSince st2 (lastAnswered e2) > passedTimeSince st2 (lastRequested e2) then
        (if passedTimeSince st2 (lastRequested e2) > ARP_REQUEST_TIMEOUT \<and>
            passedTimeSince st2 (lastRequested e2) \<le> ARP_BROADCAST_ON_FAILURE_TIMEOUT
         then (Resolved i, set_arp st2 i (e2\<lparr>arp_MAC := replicate 6 0xFF\<rparr>), m')
         else if passedTimeSince st2 (lastRequested e2) > ARP_BROADCAST_ON_FAILURE_TIMEOUT
         then request_again (set_arp st2 i e2) m' i hop wb'
         else (Not_Resolved WaitingOnARPReply 0, set_arp st2 i e2, m'))
      else if passedTimeSince st2 (lastAnswered e2) > ARP_ENTRY_TIMEOUT
      then request_again (set_arp st2 i e2) m' i hop wb'
      else (Resolved i, set_arp st2 i e2, m'))"
    using resolve_arp_entry [of st2 hop i e2 m' wb'] by simp
  have same: "set_arp st2 i e2 = st2" "M = replicate 6 0xFF \<Longrightarrow> e2\<lparr>arp_MAC := replicate 6 0xFF\<rparr> = e2"
    by (simp_all add: st2') (simp add: e2_def)
  have old: "lastRequested e2 = lastRequested e0" "lastAnswered e2 = lastAnswered e0" "passedTimeSince st2 = passedTimeSince st"
    by (simp_all add: e2_def st2')
  show "resolve_arp st2 m' hop wb' = (Resolved i, st2, m')"
    unfolding run old using same e(6) M by (auto split: if_splits)
  show "arp_wf st2" using wf e(1,2,4) set_update_subset_insert [of "arpEntries st" i e2]
    by (auto simp: arp_wf_def st2' e2_def)
  show "arp_MAC (arpEntries st2 ! i) = arp_MAC (arpEntries st1 ! i)" "length (arp_MAC (arpEntries st1 ! i)) = 6"
    using e by (simp_all add: st2' e2_def)
qed

subsection \<open>One fragment\<close>

text \<open>The counter of identifications has no part in address resolution.\<close>

lemma resolve_counter:
  assumes "resolve_arp st m hop wb = (Resolved i, st, m)" "arp_wf st"
  shows "resolve_arp (st\<lparr>identificationCounter := k\<rparr>) m hop wb = (Resolved i, st\<lparr>identificationCounter := k\<rparr>, m)"
proof -
  let ?st = "st\<lparr>identificationCounter := k\<rparr>"
  from resolve_resolved [OF assms] obtain e0 M where
    e: "i < length (arpEntries st)" "e0 = arpEntries st ! i" "arp_IP e0 = hop"
    "st = set_arp st i (e0\<lparr>arp_MAC := M\<rparr>)" "lastRequested e0 \<noteq> -1"
    and f: "find (\<lambda>i. arp_IP (arpEntries st ! i) = hop) (arp_range st hop) = Some i"
    and M: "if lastAnswered e0 = -1 \<or> passedTimeSince st (lastAnswered e0) > passedTimeSince st (lastRequested e0)
      then M = replicate 6 0xFF \<and> passedTimeSince st (lastRequested e0) > ARP_REQUEST_TIMEOUT \<and>
        passedTimeSince st (lastRequested e0) \<le> ARP_BROADCAST_ON_FAILURE_TIMEOUT
      else M = arp_MAC e0 \<and> passedTimeSince st (lastAnswered e0) \<le> ARP_ENTRY_TIMEOUT"
    by blast
  have "arpEntries st ! i = e0\<lparr>arp_MAC := M\<rparr>" using e(1,4) by (metis nth_list_update_eq set_arp_lists(10))
  then have eM: "e0\<lparr>arp_MAC := M\<rparr> = e0" using e(2) by simp
  have keep: "set_arp ?st i e0 = ?st" using e(2) by (simp add: set_arp_def)
  have pt: "passedTimeSince ?st = passedTimeSince st" by (rule passedTimeSince_cong) simp
  have "find_arp_entry ?st hop (arp_range ?st hop) None = Some i"
    using f by (intro find_arp_entry_found) (simp add: arp_range_def)
  from resolve_arp_entry [OF this, of e0 m wb] show ?thesis
    using e(2,3,5) M eM keep unfolding pt by (auto split: if_splits)
qed

lemma outgoing_fragment:
  assumes ptr: "data \<noteq> 0" "wb \<noteq> 0" and left: "off < len"
    and r: "resolve_arp st m (next_hop st dip) wb = (Resolved i, st1, m1)" and wf: "arp_wf st"
    and l: "l = (len - off < 1480)" and n: "n = (if l then unat (len - off) else 1480)"
    and id: "id' = (if off = 0 then identificationCounter st else ident)"
    and apart: "\<And>k j. k < n \<Longrightarrow> j < 34 \<Longrightarrow> data + off + of_nat k \<noteq> wb + of_nat j"
    and mac: "length (myMac st) = 6"
  shows "\<exists>st2. handleOutgoingIPv4Packet st m dip proto data len ident off wb =
      ((if l then Done else SendingFragment, 34 + of_nat n), id', off + of_nat n, st2,
       store_bytes m wb (ipv4_frame (arp_MAC (arpEntries st1 ! i)) (myMac st) id' l off proto (myIP st) dip
         (load_bytes m (data + off) n))) \<and>
    (\<forall>m' wb'. resolve_arp st2 m' (next_hop st2 dip) wb' = (Resolved i, st2, m')) \<and> arp_wf st2 \<and>
    arp_MAC (arpEntries st2 ! i) = arp_MAC (arpEntries st1 ! i) \<and> myMac st2 = myMac st \<and> myIP st2 = myIP st \<and>
    next_hop st2 = next_hop st"
proof -
  have m1: "m1 = m" using resolve_resolved [OF r wf] by metis
  have env: "ns_timerCounter st1 = ns_timerCounter st" "myMac st1 = myMac st" "myIP st1 = myIP st"
    "identificationCounter st1 = identificationCounter st" "next_hop st1 = next_hop st"
    using resolve_resolved [OF r wf] by (metis set_arp_lists set_arp_more(6))+
  define e where "e = (arpEntries st1 ! i)\<lparr>lastUsed := ns_timerCounter st\<rparr>"
  define st2 where "st2 = set_arp st1 i e"
  note again = resolve_again [OF r wf st2_def [unfolded e_def]]
  have il: "i < length (arpEntries st1)" using resolve_resolved [OF r wf] by (metis length_list_update set_arp_lists(10))
  define st3 where "st3 = (if off = 0 then st2\<lparr>identificationCounter := identificationCounter st + 1\<rparr> else st2)"
  have n32: "n \<le> 1480" "unat (of_nat n :: u32) = n" "(if l then len - off else 1480) = of_nat n"
    using l n by (auto simp: word_less_nat_alt unat_of_nat_u32)
  let ?h = "ethernet_header (arp_MAC e) (myMac st) 0x0800 @ ipv4_header (of_nat n) id' l off proto (myIP st) dip"
  have len_h: "length ?h = 34"
    using again(4) mac by (simp add: e_def ethernet_header_def ipv4_header_flags be32_def)
  have ld: "load_bytes (store_bytes m wb ?h) (data + off) n = load_bytes m (data + off) n"
  proof (rule nth_equalityI)
    fix k assume k: "k < length (load_bytes (store_bytes m wb ?h) (data + off) n)"
    have "\<not> unat (data + off + of_nat k - wb) < 34"
    proof
      assume j: "unat (data + off + of_nat k - wb) < 34"
      have "data + off + of_nat k = wb + of_nat (unat (data + off + of_nat k - wb))" by simp
      with apart [of k "unat (data + off + of_nat k - wb)"] k j show False by simp
    qed
    then show "load_bytes (store_bytes m wb ?h) (data + off) n ! k = load_bytes m (data + off) n ! k"
      using k len_h by (simp add: store_bytes_outside)
  qed simp
  have frame: "store_bytes (store_bytes m wb ?h) (wb + 34) (load_bytes m (data + off) n) =
      store_bytes m wb (ipv4_frame (arp_MAC (arpEntries st1 ! i)) (myMac st) id' l off proto (myIP st) dip (load_bytes m (data + off) n))"
  proof -
    have "of_nat (length ?h) = (34 :: u32)" unfolding len_h by simp
    moreover have "length ?h + length (load_bytes m (data + off) n) \<le> 4294967296" using n32(1) unfolding len_h by simp
    ultimately have "store_bytes (store_bytes m wb ?h) (wb + 34) (load_bytes m (data + off) n) =
        store_bytes m wb (?h @ load_bytes m (data + off) n)" using store_bytes_append [of ?h _ m wb] by metis
    then show ?thesis by (simp add: ipv4_frame_def e_def)
  qed
  define fs where "fs = (if l then len - off else 1480)"
  have fs: "fs = of_nat n" "unat fs = n" using n32 by (simp_all add: fs_def)
  have "handleOutgoingIPv4Packet st m dip proto data len ident off wb =
      ((if l then Done else SendingFragment, 34 + fs), id', off + fs, st3,
       let m = store_bytes m wb (ethernet_header (arp_MAC e) (myMac st) 0x0800 @ ipv4_header fs id' l off proto (myIP st) dip)
       in store_bytes m (wb + 34) (load_bytes m (data + off) (unat fs)))"
    using ptr left [unfolded not_le [symmetric]] unfolding handleOutgoingIPv4Packet_def r m1
    by (cases "off = 0") (simp_all add: Let_def env e_def st2_def l fs_def id st3_def)
  then have "handleOutgoingIPv4Packet st m dip proto data len ident off wb =
      ((if l then Done else SendingFragment, 34 + of_nat n), id', off + of_nat n, st3,
       store_bytes m wb (ipv4_frame (arp_MAC (arpEntries st1 ! i)) (myMac st) id' l off proto (myIP st) dip
         (load_bytes m (data + off) n)))"
    unfolding Let_def fs(2) unfolding fs(1) ld frame .
  moreover have hop3: "next_hop st3 = next_hop st" "myMac st3 = myMac st" "myIP st3 = myIP st" "arpEntries st3 = arpEntries st2"
  proof -
    have "next_hop (st2\<lparr>identificationCounter := c\<rparr>) = next_hop st2" for c by (simp add: next_hop_def Let_def fun_eq_iff)
    then show "next_hop st3 = next_hop st" using env(5) by (simp add: st3_def st2_def)
  qed (use env in \<open>simp_all add: st3_def st2_def\<close>)
  moreover have "resolve_arp st3 m' (next_hop st3 dip) wb' = (Resolved i, st3, m')" for m' wb'
    using resolve_counter [OF again(1,2)] again(1) unfolding hop3(1) unfolding st3_def by simp
  moreover have "arp_wf st3" using again(2) by (simp add: st3_def arp_wf_def)
  ultimately show ?thesis using again(3) by (intro exI [of _ st3]) simp
qed

end
