(* ===== verification/Loopback.thy ===== *)
theory Loopback
  imports Network_Send
begin

text \<open>
  \<open>network_management_task/loopback_network_interface.cpp\<close> and the packet handler the network management
  task registers with it. The interface is a ring of five buffers: sending a frame marks the buffer
  full and raises an interrupt, whose handler reads all full buffers. The handler answers ARP
  requests itself, by sending a frame: the interrupt nests. \<open>interruptTrigger\<close> is a parameter of
  \<open>finishWriteBuffer\<close>, as it is in the code; the handler has fuel for its loop and its nesting, and
  \<open>loopback_interrupt_ends\<close> shows how much is enough.
\<close>

abbreviation (input) NUM_LOOPBACK_RX_AND_TX_BUFFERS :: nat where "NUM_LOOPBACK_RX_AND_TX_BUFFERS \<equiv> 5"

record loopbackRxAndTxDesc =
  lo_length :: u32
  lo_isFull :: bool

record LoopbackNetworkInterface =
  lo_mac :: "u8 list"
  rxAndTxBuffers :: u32
  rxAndTxDescs :: "loopbackRxAndTxDesc list"
  lo_currentRx :: nat
  lo_currentTx :: nat
  lo_interruptsEnabled :: bool
  lo_pPacketHandler :: bool

text \<open>The interface, the network stack handler behind it, and memory.\<close>

record LoopbackState =
  lo :: LoopbackNetworkInterface
  lo_stack :: NetworkStackHandler
  lo_mem :: memory

definition LoopbackNetworkInterface_new :: "u8 list \<Rightarrow> u32 \<Rightarrow> LoopbackNetworkInterface" where
  "LoopbackNetworkInterface_new mac buffers =
     \<lparr>lo_mac = mac, rxAndTxBuffers = buffers,
      rxAndTxDescs = replicate NUM_LOOPBACK_RX_AND_TX_BUFFERS \<lparr>lo_length = 0, lo_isFull = False\<rparr>,
      lo_currentRx = 0, lo_currentTx = 0, lo_interruptsEnabled = False, lo_pPacketHandler = False\<rparr>"

definition lo_registerPacketHandler :: "LoopbackNetworkInterface \<Rightarrow> LoopbackNetworkInterface" where
  "lo_registerPacketHandler i = i\<lparr>lo_pPacketHandler := True, lo_interruptsEnabled := True\<rparr>"

definition lo_buffer :: "LoopbackNetworkInterface \<Rightarrow> nat \<Rightarrow> u32" where
  "lo_buffer i k = rxAndTxBuffers i + of_nat (RX_BUFFER_SIZE * k)"

definition lo_getWriteBuffer :: "LoopbackNetworkInterface \<Rightarrow> u32" where
  "lo_getWriteBuffer i = (if lo_isFull (rxAndTxDescs i ! lo_currentTx i) then 0 else lo_buffer i (lo_currentTx i))"

definition lo_getReadBuffer :: "LoopbackNetworkInterface \<Rightarrow> u32 \<times> u32" where
  "lo_getReadBuffer i =
     (if \<not> lo_isFull (rxAndTxDescs i ! lo_currentRx i) then (0, 0)
      else (lo_buffer i (lo_currentRx i), lo_length (rxAndTxDescs i ! lo_currentRx i)))"

definition lo_finishReadBuffer :: "LoopbackNetworkInterface \<Rightarrow> LoopbackNetworkInterface" where
  "lo_finishReadBuffer i =
     (if \<not> lo_isFull (rxAndTxDescs i ! lo_currentRx i) then i
      else i\<lparr>rxAndTxDescs := (rxAndTxDescs i)[lo_currentRx i := (rxAndTxDescs i ! lo_currentRx i)\<lparr>lo_isFull := False\<rparr>],
             lo_currentRx := (lo_currentRx i + 1) mod NUM_LOOPBACK_RX_AND_TX_BUFFERS\<rparr>)"

subsection \<open>The header checksum\<close>

fun checksum_loop :: "u8 list \<Rightarrow> u32 \<Rightarrow> u32" where
  "checksum_loop (a # b # bs) checksum =
     (let checksum = checksum + (push_bit 8 (ucast a) + ucast b)
      in checksum_loop bs (if checksum AND 0xFFFF0000 \<noteq> 0 then (checksum AND 0xFFFF) + drop_bit 16 checksum else checksum))"
| "checksum_loop _ checksum = checksum"

definition ipv4_checksum :: "u8 list \<Rightarrow> u8 list" where
  "ipv4_checksum header = (let checksum = NOT (checksum_loop header 0) in [byte_at 1 checksum, byte_at 0 checksum])"

text \<open>The checksum part of \<open>finishWriteBuffer\<close>; \<open>None\<close> is its early \<open>return\<close>.\<close>

definition set_checksum :: "memory \<Rightarrow> u32 \<Rightarrow> u32 \<Rightarrow> memory option" where
  "set_checksum m data len =
     (if len < 14 + 20 then None
      else
        let headerLength = (ucast (m (data + 14) AND 0x0F) :: u32) * 4 in
        if headerLength < 20 then None
        else if len < 14 + headerLength then None
        else
          let m = store_bytes m (data + 24) [0, 0]
          in Some (store_bytes m (data + 24) (ipv4_checksum (load_bytes m (data + 14) (unat headerLength)))))"

definition lo_finishWriteBuffer ::
  "(LoopbackState \<Rightarrow> LoopbackState option) \<Rightarrow> LoopbackState \<Rightarrow> u32 \<Rightarrow> bool \<Rightarrow> LoopbackState option" where
  "lo_finishWriteBuffer interruptTrigger s len isIpv4Packet =
     (let i = lo s; tx = lo_currentTx i in
      if len < 14 then Some s
      else if len > 1500 + 14 then Some s
      else if lo_isFull (rxAndTxDescs i ! tx) then Some s
      else case (if isIpv4Packet then set_checksum (lo_mem s) (lo_buffer i tx) len else Some (lo_mem s)) of
        None \<Rightarrow> Some s
      | Some m \<Rightarrow>
          interruptTrigger (s\<lparr>lo_mem := m,
            lo := i\<lparr>rxAndTxDescs := (rxAndTxDescs i)[tx := \<lparr>lo_length = len, lo_isFull = True\<rparr>],
                    lo_currentTx := (tx + 1) mod NUM_LOOPBACK_RX_AND_TX_BUFFERS\<rparr>\<rparr>))"

subsection \<open>The interrupt handler\<close>

text \<open>\<open>LoopbackNetworkInterfacePacketHandler::call\<close> of \<open>network_management_task.cpp\<close>.\<close>

definition lo_packet_handler ::
  "(LoopbackState \<Rightarrow> LoopbackState option) \<Rightarrow> LoopbackState \<Rightarrow> u32 \<Rightarrow> u32 \<Rightarrow> LoopbackState option" where
  "lo_packet_handler interruptTrigger s readBuffer readBufferLen =
     (let data = load_bytes (lo_mem s) readBuffer (unat readBufferLen) in do {
      (packetType, stack) \<leftarrow> handleIncomingEthernetPacket (lo_stack s) data;
      let s = s\<lparr>lo_stack := stack\<rparr>;
      if packetType = ARPRequest then do {
        (n, m) \<leftarrow> handleOutgoingArpReply stack (lo_mem s) data (lo_getWriteBuffer (lo s));
        lo_finishWriteBuffer interruptTrigger (s\<lparr>lo_mem := m\<rparr>) n False }
      else Some s })"

primrec handleLoopbackInterfaceInterrupt :: "nat \<Rightarrow> LoopbackState \<Rightarrow> LoopbackState option" where
  "handleLoopbackInterfaceInterrupt 0 s = None"
| "handleLoopbackInterfaceInterrupt (Suc n) s =
     (case lo_getReadBuffer (lo s) of (readBuffer, len) \<Rightarrow>
      if readBuffer = 0 then Some s
      else do {
        s \<leftarrow> (if lo_pPacketHandler (lo s) then lo_packet_handler (handleLoopbackInterfaceInterrupt n) s readBuffer len
              else Some s);
        handleLoopbackInterfaceInterrupt n (s\<lparr>lo := lo_finishReadBuffer (lo s)\<rparr>) })"

end
