(* ===== verification/Loopback_Checksum.thy ===== *)
theory Loopback_Checksum
  imports Loopback
begin

text \<open>
  The IPv4 header checksum of the loopback interface: with the computed checksum in place the
  one's complement sum of the header is \<open>0xFFFF\<close>, which is the test a receiver makes.
\<close>

fun word_sum :: "u8 list \<Rightarrow> nat" where
  "word_sum (a # b # bs) = unat a * 256 + unat b + word_sum bs"
| "word_sum _ = 0"

text \<open>One round of the loop is an addition modulo 65535 that never turns a positive sum into zero.\<close>

lemma checksum_fold:
  assumes "unat c < 131071"
  shows "unat (if c AND 0xFFFF0000 \<noteq> 0 then (c AND 0xFFFF) + drop_bit 16 c else c :: u32) =
    (if unat c < 65536 then unat c else unat c - 65535)"
proof -
  have lo: "unat (c AND 0xFFFF) = unat c mod 65536"
  proof -
    have "(0xFFFF :: u32) = mask 16" by (simp add: mask_eq_exp_minus_1)
    then have "c AND 0xFFFF = take_bit 16 c" by (simp add: take_bit_eq_mask)
    then show ?thesis by (simp add: unsigned_take_bit_eq) (simp add: take_bit_eq_mod)
  qed
  have hi: "unat (drop_bit 16 c) = unat c div 65536"
    by (simp add: unsigned_drop_bit_eq) (simp add: drop_bit_eq_div take_bit_eq_mod)
  have "c AND 0xFFFF0000 = push_bit 16 (drop_bit 16 c)"
  proof -
    have m: "(0xFFFF0000 :: u32) = NOT (mask 16)" by (simp add: mask_eq_exp_minus_1)
    show ?thesis unfolding m by (rule bit_eqI) (auto simp: bit_and_iff bit_not_iff bit_mask_iff bit_push_bit_iff bit_drop_bit_eq)
  qed
  moreover have "unat (push_bit 16 (drop_bit 16 c)) = unat c div 65536 * 65536"
    using hi assms by (simp add: push_bit_eq_mult unat_word_ariths div_less_iff_less_mult)
  ultimately have zero: "c AND 0xFFFF0000 = 0 \<longleftrightarrow> unat c < 65536"
    by (metis div_eq_0_iff mult_eq_0_iff unat_0 unat_eq_zero zero_neq_numeral)
  show ?thesis
  proof (cases "unat c < 65536")
    case False
    then have "unat c div 65536 = 1" "unat c mod 65536 = unat c - 65536" using assms by (auto simp: div_nat_eqI mod_nat_eqI)
    then show ?thesis using False zero lo hi assms by (simp add: unat_add_no_wrap)
  qed (use zero in simp)
qed

lemma checksum_loop_sum:
  assumes "unat c < 65536"
  shows "unat (checksum_loop bs c) < 65536 \<and> unat (checksum_loop bs c) mod 65535 = (unat c + word_sum bs) mod 65535 \<and>
    (unat (checksum_loop bs c) = 0 \<longleftrightarrow> unat c = 0 \<and> word_sum bs = 0)"
  using assms
proof (induction bs c rule: checksum_loop.induct)
  case (1 a b bs c)
  define w where "w = unat a * 256 + unat b"
  have w: "w < 65536" using unat_u8_lt [of a] unat_u8_lt [of b] unfolding w_def by linarith
  have "unat (push_bit 8 (ucast a) + ucast b :: u32) = w"
    using w by (simp add: w_def push_bit_eq_mult unat_word_ariths)
  then have sum: "unat (c + (push_bit 8 (ucast a) + ucast b)) = unat c + w" using 1(2) w by (simp add: unat_add_no_wrap)
  define d where "d = c + (push_bit 8 (ucast a) + ucast b)"
  define d' where "d' = (if d AND 0xFFFF0000 \<noteq> 0 then (d AND 0xFFFF) + drop_bit 16 d else d)"
  have d': "unat d' = (if unat c + w < 65536 then unat c + w else unat c + w - 65535)"
    using checksum_fold [of d] sum w 1(2) by (simp add: d_def d'_def)
  then have d'_lt: "unat d' < 65536" using w 1(2) by auto
  have d'_mod: "(unat d' + x) mod 65535 = (unat c + w + x) mod 65535" for x
  proof (cases "unat c + w < 65536")
    case False
    then have "unat c + w + x = (unat d' + x) + 65535" using d' by simp
    then show ?thesis by (metis mod_add_self2)
  qed (simp add: d')
  have "checksum_loop (a # b # bs) c = checksum_loop bs d'" by (simp add: d'_def d_def Let_def)
  moreover have "word_sum (a # b # bs) = w + word_sum bs" by (simp add: w_def)
  moreover have "unat d' = 0 \<longleftrightarrow> unat c = 0 \<and> w = 0" using d' by auto
  ultimately show ?case using 1(1) [OF d_def] d'_lt d'_mod [of "word_sum bs"] unfolding d'_def [symmetric]
    by (auto simp: add.assoc)
qed auto

lemma word_sum_append: "even (length xs) \<Longrightarrow> word_sum (xs @ ys) = word_sum xs + word_sum ys"
  by (induction xs rule: word_sum.induct) auto

lemma mod_65535_full: "0 < n \<Longrightarrow> n < 65536 \<Longrightarrow> n mod 65535 = 0 \<Longrightarrow> n = (65535 :: nat)"
  by (cases "n < 65535") auto

text \<open>The header \<open>xs @ [0, 0] @ ys\<close> with the checksum in place of the two zero bytes.\<close>

lemma checksum_verifies:
  assumes "even (length xs)" "0 < word_sum xs"
  shows "checksum_loop (xs @ ipv4_checksum (xs @ [0, 0] @ ys) @ ys) 0 = 0xFFFF"
proof -
  define s where "s = checksum_loop (xs @ [0, 0] @ ys) 0"
  define K where "K = ipv4_checksum (xs @ [0, 0] @ ys)"
  define t where "t = checksum_loop (xs @ K @ ys) 0"
  have s: "unat s < 65536" "unat s mod 65535 = (word_sum xs + word_sum ys) mod 65535"
    using checksum_loop_sum [of 0 "xs @ [0, 0] @ ys"] assms(1) by (simp_all add: s_def word_sum_append)
  have "NOT s = 0xFFFFFFFF - s" by (simp add: not_eq_complement)
  moreover have "unat (0xFFFFFFFF :: u32) = 4294967295" by simp
  ultimately have not_s: "unat (NOT s) = 4294967295 - unat s" using s(1) unat_sub_no_wrap [of s "0xFFFFFFFF"] by simp
  have low: "(4294967295 - unat s) div 256 mod 256 * 256 + (4294967295 - unat s) mod 256 = 65535 - unat s"
  proof -
    have e: "4294967295 - unat s = 65535 * 65536 + (65535 - unat s)" using s(1) by simp
    define y where "y = 65535 - unat s"
    have y: "y < 65536" by (simp add: y_def)
    have "(65535 * 65536 + y) div 256 = 65535 * 256 + y div 256" "(65535 * 65536 + y) mod 256 = y mod 256"
      using mod_mult_self3 [of "65535 * 256" 256 y] div_mult_self3 [of 256 y "65535 * 256"] by simp_all
    moreover have "(65535 * 256 + y div 256) mod 256 = y div 256"
      using y by (simp add: mod_add_left_eq [symmetric] less_mult_imp_div_less)
    ultimately show ?thesis unfolding e y_def [symmetric] by simp
  qed
  have ck: "word_sum (K @ zs) = 65535 - unat s + word_sum zs" for zs
  proof -
    have "checksum_loop (xs @ 0 # 0 # ys) 0 = s" by (simp add: s_def)
    then show ?thesis using not_s low by (simp add: K_def ipv4_checksum_def Let_def unat_byte_at)
  qed
  have t: "unat t < 65536" "unat t mod 65535 = (word_sum xs + (65535 - unat s + word_sum ys)) mod 65535" "0 < unat t"
    using checksum_loop_sum [of 0 "xs @ K @ ys"] assms by (auto simp: t_def word_sum_append ck)
  have "(word_sum xs + (65535 - unat s + word_sum ys)) mod 65535 = ((word_sum xs + word_sum ys) + (65535 - unat s)) mod 65535"
    by (simp only: ac_simps)
  also have "\<dots> = (unat s + (65535 - unat s)) mod 65535" by (rule mod_add_cong [OF s(2) [symmetric] refl])
  also have "\<dots> = 0" using s(1) by simp
  finally have "unat t = 65535" using t mod_65535_full by metis
  then show ?thesis unfolding K_def [symmetric] t_def [symmetric] by (simp add: word_unat_eq_iff)
qed

subsection \<open>In memory\<close>

lemma load_patched:
  assumes "k + length bs \<le> n" "n \<le> 4294967296"
  shows "load_bytes (store_bytes m (a + of_nat k) bs) a n =
    take k (load_bytes m a n) @ bs @ drop (k + length bs) (load_bytes m a n)"
proof (rule nth_equalityI)
  fix j assume "j < length (load_bytes (store_bytes m (a + of_nat k) bs) a n)"
  then have j: "j < n" by simp
  have jn: "unat (a + of_nat j - a) = j" using j assms(2) by (simp add: unat_of_nat_u32)
  show "load_bytes (store_bytes m (a + of_nat k) bs) a n ! j =
      (take k (load_bytes m a n) @ bs @ drop (k + length bs) (load_bytes m a n)) ! j"
  proof (cases "k \<le> j \<and> j < k + length bs")
    case True
    then have "j - k < length bs" by linarith
    have "a + of_nat j = (a + of_nat k) + of_nat (j - k)" using True by (simp add: of_nat_diff)
    then have "store_bytes m (a + of_nat k) bs (a + of_nat j) = bs ! (j - k)"
      using store_bytes_inside [of "j - k" bs m "a + of_nat k"] \<open>j - k < length bs\<close> assms by (simp add: add.assoc)
    then show ?thesis using True \<open>j - k < length bs\<close> j assms by (simp add: nth_append)
  next
    case False
    have "store_bytes m (a + of_nat k) bs (a + of_nat j) = m (a + of_nat j)"
    proof (rule ccontr)
      assume "store_bytes m (a + of_nat k) bs (a + of_nat j) \<noteq> m (a + of_nat j)"
      from store_bytes_changes [OF this] jn False assms show False by simp
    qed
    then show ?thesis using False j assms by (auto simp: nth_append)
  qed
qed (use assms in simp)

lemma set_checksum_verifies:
  assumes "set_checksum m data len = Some m'" and hl: "hl = unat (m (data + 14) AND 0x0F) * 4"
  shows "checksum_loop (load_bytes m' (data + 14) hl) 0 = 0xFFFF"
    and "load_bytes m' (data + 14) 10 = load_bytes m (data + 14) 10"
    and "m' x \<noteq> m x \<Longrightarrow> x = data + 24 \<or> x = data + 25"
proof -
  define a where "a = data + 14"
  have nib: "unat (m a AND 0x0F) < 16"
  proof -
    have "(0xF :: u8) = mask 4" by (simp add: mask_eq_exp_minus_1)
    then have "m a AND 0x0F = take_bit 4 (m a)" by (simp add: take_bit_eq_mask)
    then have "unat (m a AND 0x0F) = unat (m a) mod 16" by (simp add: unsigned_take_bit_eq) (simp add: take_bit_eq_mod)
    then show ?thesis by simp
  qed
  then have h32: "unat (ucast (m a AND 0x0F) * 4 :: u32) = hl" by (simp add: hl a_def unat_word_ariths)
  have at: "data + 24 = a + of_nat 10" by (simp add: a_def)
  have five: "20 \<le> hl" and m': "m' = store_bytes (store_bytes m (data + 24) [0, 0]) (data + 24)
      (ipv4_checksum (load_bytes (store_bytes m (data + 24) [0, 0]) a hl))"
    using assms(1) h32 by (auto simp: set_checksum_def Let_def a_def word_less_nat_alt split: if_splits)
  define xs ys where "xs = load_bytes m a 10" and "ys = drop 12 (load_bytes m a hl)"
  have tk: "take 10 (load_bytes m a hl) = xs" using five by (intro nth_equalityI) (simp_all add: xs_def)
  have hl_big: "12 \<le> hl" "hl \<le> 4294967296" using five nib by (simp_all add: hl a_def)
  have z: "load_bytes (store_bytes m (data + 24) [0, 0]) a hl = xs @ [0, 0] @ ys"
    unfolding at using load_patched [of 10 "[0, 0]" hl m a] hl_big tk by (simp add: ys_def)
  have ck: "length (ipv4_checksum l) = 2" for l by (simp add: ipv4_checksum_def Let_def)
  have res: "load_bytes m' a hl = xs @ ipv4_checksum (xs @ [0, 0] @ ys) @ ys"
    unfolding m' z unfolding at
    using load_patched [of 10 "ipv4_checksum (xs @ [0, 0] @ ys)" hl "store_bytes m (a + of_nat 10) [0, 0]" a] hl_big
    unfolding at [symmetric] z ck by (simp add: xs_def)
  have "0 < unat (m a)"
  proof (rule ccontr)
    assume "\<not> 0 < unat (m a)"
    then have "m a = 0" by (simp add: unat_eq_zero)
    then show False using five by (simp add: hl a_def)
  qed
  then have "0 < word_sum xs" by (simp add: xs_def load_bytes_def upt_conv_Cons)
  then show "checksum_loop (load_bytes m' (data + 14) hl) 0 = 0xFFFF"
    using checksum_verifies [of xs ys] unfolding a_def [symmetric] res by (simp add: xs_def)
  show "load_bytes m' (data + 14) 10 = load_bytes m (data + 14) 10"
  proof -
    have "load_bytes m' a 10 = take 10 (load_bytes m' a hl)" using five by (intro nth_equalityI) simp_all
    then show ?thesis unfolding res a_def [symmetric] by (simp add: xs_def)
  qed
  show "m' x \<noteq> m x \<Longrightarrow> x = data + 24 \<or> x = data + 25"
  proof (rule ccontr)
    assume ch: "m' x \<noteq> m x" and out: "\<not> (x = data + 24 \<or> x = data + 25)"
    have "\<not> unat (x - (data + 24)) < 2"
    proof
      assume "unat (x - (data + 24)) < 2"
      then have "x - (data + 24) = 0 \<or> x - (data + 24) = 1" by (auto simp: word_unat_eq_iff)
      then show False using out by (auto simp: algebra_simps)
    qed
    then show False using ch ck by (simp add: m' store_bytes_outside)
  qed
qed

end
