(* ===== verification/Loopback_Ring.thy ===== *)
theory Loopback_Ring
  imports Loopback_Checksum
begin

text \<open>
  The ring of the loopback interface refines a queue of at most five frames, and its interrupt handler
  ends with the queue empty and every frame handed to the network stack handler in order.
\<close>

subsection \<open>The ring as a queue\<close>

definition slot :: "LoopbackNetworkInterface \<Rightarrow> nat \<Rightarrow> nat" where
  "slot i j = (lo_currentRx i + j) mod 5"

definition lo_ring :: "LoopbackNetworkInterface \<Rightarrow> nat \<Rightarrow> bool" where
  "lo_ring i k \<longleftrightarrow> length (rxAndTxDescs i) = 5 \<and> lo_currentRx i < 5 \<and> k \<le> 5 \<and> lo_currentTx i = slot i k \<and>
     (\<forall>j < 5. lo_isFull (rxAndTxDescs i ! slot i j) \<longleftrightarrow> j < k) \<and>
     (\<forall>j < k. 14 \<le> unat (lo_length (rxAndTxDescs i ! slot i j)) \<and> unat (lo_length (rxAndTxDescs i ! slot i j)) \<le> 1514) \<and>
     0 < unat (rxAndTxBuffers i) \<and> unat (rxAndTxBuffers i) + 10240 \<le> 4294967296"

definition frame_at :: "LoopbackState \<Rightarrow> nat \<Rightarrow> u8 list" where
  "frame_at s j = load_bytes (lo_mem s) (lo_buffer (lo s) (slot (lo s) j))
     (unat (lo_length (rxAndTxDescs (lo s) ! slot (lo s) j)))"

definition frames :: "LoopbackState \<Rightarrow> nat \<Rightarrow> u8 list list" where
  "frames s k = map (frame_at s) [0..<k]"

lemma frames_cong: "lo s' = lo s \<Longrightarrow> lo_mem s' = lo_mem s \<Longrightarrow> frames s' k = frames s k"
  by (simp add: frames_def frame_at_def)

lemma slot_less [simp]: "slot i j < 5"
  by (simp add: slot_def)

lemma mod_shift_inj:
  fixes a j k n :: nat
  assumes "(a + j) mod n = (a + k) mod n" "j \<le> k" "k < n"
  shows "j = k"
proof -
  have "n dvd (a + k) - (a + j)" using assms(1,2) mod_eq_dvd_iff_nat [of "a + j" "a + k" n] by simp
  then show ?thesis using assms(2,3) dvd_imp_le [of n "k - j"] by (cases "j = k") auto
qed

lemma slot_inj: "j < 5 \<Longrightarrow> j' < 5 \<Longrightarrow> slot i j = slot i j' \<longleftrightarrow> j = j'"
  unfolding slot_def using mod_shift_inj [of "lo_currentRx i" j 5 j'] mod_shift_inj [of "lo_currentRx i" j' 5 j]
  by (cases "j \<le> j'") auto

lemma lo_buffer_unat: "lo_ring i k \<Longrightarrow> j < 5 \<Longrightarrow> n < 2048 \<Longrightarrow> unat (lo_buffer i j + of_nat n) = unat (rxAndTxBuffers i) + 2048 * j + n"
proof -
  assume r: "lo_ring i k" and j: "j < 5" and n: "n < 2048"
  have "unat (rxAndTxBuffers i) + (2048 * j + n) < 4294967296" using r j n by (simp add: lo_ring_def)
  moreover have "lo_buffer i j + of_nat n = rxAndTxBuffers i + of_nat (2048 * j + n)" by (simp add: lo_buffer_def)
  ultimately show ?thesis by (simp add: unat_add_no_wrap unat_of_nat_u32 del: of_nat_add of_nat_mult)
qed

lemma lo_buffer_nonzero: "lo_ring i k \<Longrightarrow> j < 5 \<Longrightarrow> lo_buffer i j \<noteq> 0"
  using lo_buffer_unat [of i k j 0] by (auto simp: lo_ring_def)

text \<open>Buffers do not overlap.\<close>

lemma load_other_buffer:
  assumes "lo_ring i k" "j < 5" "j' < 5" "j \<noteq> j'" "length bs \<le> 2048" "n \<le> 2048"
  shows "load_bytes (store_bytes m (lo_buffer i j) bs) (lo_buffer i j') n = load_bytes m (lo_buffer i j') n"
proof (rule nth_equalityI)
  fix x assume "x < length (load_bytes (store_bytes m (lo_buffer i j) bs) (lo_buffer i j') n)"
  then have x: "x < n" by simp
  have "\<not> unat (lo_buffer i j' + of_nat x - lo_buffer i j) < length bs"
  proof
    define y where "y = unat (lo_buffer i j' + of_nat x - lo_buffer i j)"
    assume "unat (lo_buffer i j' + of_nat x - lo_buffer i j) < length bs"
    then have y: "y < 2048" using assms(5) by (simp add: y_def)
    have "lo_buffer i j' + of_nat x = lo_buffer i j + of_nat y" by (simp add: y_def)
    then have "2048 * j' + x = 2048 * j + y"
      using lo_buffer_unat [OF assms(1,3), of x] lo_buffer_unat [OF assms(1,2) y] x assms(6) by simp
    moreover have "(2048 * j' + x) div 2048 = j'" "(2048 * j + y) div 2048 = j" using x y assms(6) by simp_all
    ultimately show False using assms(4) by simp
  qed
  then show "load_bytes (store_bytes m (lo_buffer i j) bs) (lo_buffer i j') n ! x = load_bytes m (lo_buffer i j') n ! x"
    using x by (simp add: store_bytes_outside)
qed simp

lemma ring_empty: "lo_ring i 0 \<Longrightarrow> lo_getReadBuffer i = (0, 0) \<and> lo_finishReadBuffer i = i"
  by (auto simp: lo_ring_def lo_getReadBuffer_def lo_finishReadBuffer_def slot_def dest: spec [of _ 0])

lemma ring_read:
  assumes r: "lo_ring (lo s) (Suc k)"
  shows "lo_getReadBuffer (lo s) = (lo_buffer (lo s) (slot (lo s) 0), lo_length (rxAndTxDescs (lo s) ! slot (lo s) 0))"
    "lo_buffer (lo s) (slot (lo s) 0) \<noteq> 0" "14 \<le> length (frame_at s 0)" "length (frame_at s 0) \<le> 1514"
    "lo_ring (lo_finishReadBuffer (lo s)) k"
    "frames (s\<lparr>lo := lo_finishReadBuffer (lo s)\<rparr>) k = tl (frames s (Suc k))"
proof -
  let ?i = "lo s"
  have s0: "slot ?i 0 = lo_currentRx ?i" using r by (simp add: lo_ring_def slot_def)
  have full: "lo_isFull (rxAndTxDescs ?i ! lo_currentRx ?i)"
    using r unfolding lo_ring_def s0 [symmetric] by auto
  show "lo_getReadBuffer ?i = (lo_buffer ?i (slot ?i 0), lo_length (rxAndTxDescs ?i ! slot ?i 0))"
    using full s0 by (simp add: lo_getReadBuffer_def)
  show "lo_buffer ?i (slot ?i 0) \<noteq> 0" using lo_buffer_nonzero [OF r] by simp
  show "14 \<le> length (frame_at s 0)" "length (frame_at s 0) \<le> 1514" using r by (auto simp: lo_ring_def frame_at_def)
  define d where "d = (rxAndTxDescs ?i)[lo_currentRx ?i := (rxAndTxDescs ?i ! lo_currentRx ?i)\<lparr>lo_isFull := False\<rparr>]"
  define i' where "i' = ?i\<lparr>rxAndTxDescs := d, lo_currentRx := (lo_currentRx ?i + 1) mod 5\<rparr>"
  have fin: "lo_finishReadBuffer ?i = i'" using full by (simp add: lo_finishReadBuffer_def i'_def d_def)
  have i': "rxAndTxDescs i' = d" "lo_currentTx i' = lo_currentTx ?i" "rxAndTxBuffers i' = rxAndTxBuffers ?i" "lo_currentRx i' < 5"
    by (simp_all add: i'_def)
  have sl: "slot i' j = slot ?i (Suc j)" for j by (simp add: i'_def slot_def mod_simps)
  have len: "lo_length (d ! j) = lo_length (rxAndTxDescs ?i ! j)" "length d = 5" for j
    using r by (cases "j < 5"; auto simp: lo_ring_def nth_list_update d_def)+
  have fl: "lo_isFull (d ! slot ?i (Suc j)) \<longleftrightarrow> j < k" if "j < 5" for j
  proof (cases "j = 4")
    case True
    then have "slot ?i (Suc j) = lo_currentRx ?i" using r by (simp add: slot_def lo_ring_def)
    then show ?thesis using r True by (auto simp: lo_ring_def d_def)
  next
    case False
    then have "Suc j < 5" using that by simp
    moreover from this have "slot ?i (Suc j) \<noteq> lo_currentRx ?i" using slot_inj [of "Suc j" 0 ?i] s0 by simp
    ultimately show ?thesis using r by (auto simp: lo_ring_def d_def)
  qed
  show "lo_ring (lo_finishReadBuffer ?i) k"
    using r fl i'(4) unfolding fin lo_ring_def sl i'(1-3) len by auto
  have "frame_at (s\<lparr>lo := i'\<rparr>) j = frame_at s (Suc j)" for j
    by (simp add: frame_at_def sl len i' lo_buffer_def)
  then have "map (frame_at (s\<lparr>lo := i'\<rparr>)) [0..<k] = map (\<lambda>j. frame_at s (Suc j)) [0..<k]" by simp
  then show "frames (s\<lparr>lo := lo_finishReadBuffer ?i\<rparr>) k = tl (frames s (Suc k))"
    unfolding fin frames_def by (simp add: map_upt_Suc del: upt_Suc)
qed

text \<open>Sending a frame appends it, when a buffer is free.\<close>

definition sent :: "LoopbackState \<Rightarrow> u32 \<Rightarrow> LoopbackState" where
  "sent s len = s\<lparr>lo := (lo s)\<lparr>rxAndTxDescs := (rxAndTxDescs (lo s))[lo_currentTx (lo s) := \<lparr>lo_length = len, lo_isFull = True\<rparr>],
     lo_currentTx := (lo_currentTx (lo s) + 1) mod 5\<rparr>\<rparr>"

lemma ring_free:
  assumes "lo_ring i k"
  shows "k < 5 \<Longrightarrow> lo_getWriteBuffer i = lo_buffer i (slot i k) \<and> \<not> lo_isFull (rxAndTxDescs i ! lo_currentTx i)"
    "k = 5 \<Longrightarrow> lo_getWriteBuffer i = 0 \<and> lo_isFull (rxAndTxDescs i ! lo_currentTx i)"
proof -
  have "slot i 5 = slot i 0" by (simp add: slot_def)
  then show "k < 5 \<Longrightarrow> lo_getWriteBuffer i = lo_buffer i (slot i k) \<and> \<not> lo_isFull (rxAndTxDescs i ! lo_currentTx i)"
    "k = 5 \<Longrightarrow> lo_getWriteBuffer i = 0 \<and> lo_isFull (rxAndTxDescs i ! lo_currentTx i)"
    using assms by (auto simp: lo_ring_def lo_getWriteBuffer_def)
qed

lemma ring_write:
  assumes r: "lo_ring (lo s) k" and free: "k < 5" and len: "14 \<le> unat len" "unat len \<le> 1514"
  shows "lo_ring (lo (sent s len)) (Suc k)"
    "frames (sent s len) (Suc k) = frames s k @ [load_bytes (lo_mem s) (lo_buffer (lo s) (slot (lo s) k)) (unat len)]"
    "lo_finishWriteBuffer trigger s len False = trigger (sent s len)"
proof -
  let ?i = "lo s"
  define d where "d = (rxAndTxDescs ?i)[slot ?i k := \<lparr>lo_length = len, lo_isFull = True\<rparr>]"
  have tx: "lo_currentTx ?i = slot ?i k" "length (rxAndTxDescs ?i) = 5" using r by (auto simp: lo_ring_def)
  have i': "rxAndTxDescs (lo (sent s len)) = d" "lo_currentRx (lo (sent s len)) = lo_currentRx ?i"
    "lo_currentTx (lo (sent s len)) = slot ?i (Suc k)" "rxAndTxBuffers (lo (sent s len)) = rxAndTxBuffers ?i" "lo_mem (sent s len) = lo_mem s"
    using tx by (simp_all add: sent_def d_def slot_def mod_simps)
  have sl: "slot (lo (sent s len)) j = slot ?i j" for j by (simp add: slot_def i')
  have other: "d ! slot ?i j = rxAndTxDescs ?i ! slot ?i j" if "j < 5" "j \<noteq> k" for j
    using slot_inj [of j k ?i] that free by (simp add: d_def)
  have new: "d ! slot ?i k = \<lparr>lo_length = len, lo_isFull = True\<rparr>" "length d = 5" using tx by (simp_all add: d_def)
  have old: "\<And>j. j < 5 \<Longrightarrow> lo_isFull (rxAndTxDescs ?i ! slot ?i j) \<longleftrightarrow> j < k"
    "\<And>j. j < k \<Longrightarrow> 14 \<le> unat (lo_length (rxAndTxDescs ?i ! slot ?i j)) \<and> unat (lo_length (rxAndTxDescs ?i ! slot ?i j)) \<le> 1514"
    using r by (auto simp: lo_ring_def)
  have "lo_isFull (d ! slot ?i j) \<longleftrightarrow> j < Suc k" if "j < 5" for j
    using that other [OF that] new(1) old(1) [OF that] by (cases "j = k") auto
  moreover have "14 \<le> unat (lo_length (d ! slot ?i j)) \<and> unat (lo_length (d ! slot ?i j)) \<le> 1514" if "j < Suc k" for j
    using that free other [of j] new(1) old(2) [of j] len by (cases "j = k") auto
  ultimately show "lo_ring (lo (sent s len)) (Suc k)"
    using r free new(2) unfolding lo_ring_def sl i' by auto
  have "frame_at (sent s len) j = frame_at s j" if "j < k" for j
    using other [of j] that free by (simp add: frame_at_def sl i' lo_buffer_def)
  then show "frames (sent s len) (Suc k) = frames s k @ [load_bytes (lo_mem s) (lo_buffer (lo s) (slot (lo s) k)) (unat len)]"
    using new(1) by (simp add: frames_def frame_at_def [of _ k] sl i' lo_buffer_def)
  have "\<not> lo_isFull (rxAndTxDescs ?i ! lo_currentTx ?i)" using ring_free(1) [OF r free] by simp
  moreover have "\<not> len < 14" "\<not> len > 1514" using len by (simp_all add: word_less_nat_alt)
  ultimately show "lo_finishWriteBuffer trigger s len False = trigger (sent s len)"
    by (simp add: lo_finishWriteBuffer_def Let_def sent_def)
qed

subsection \<open>Frames on the way to the network stack handler\<close>

definition arp_request :: "u32 \<Rightarrow> u8 list \<Rightarrow> bool" where
  "arp_request ip f \<longleftrightarrow> 42 \<le> length f \<and> u16_be (f ! 12) (f ! 13) = 0x0806 \<and> u16_be (f ! 16) (f ! 17) = 0x0800 \<and>
     u16_be (f ! 20) (f ! 21) = 1 \<and> u32_be (f ! 38) (f ! 39) (f ! 40) (f ! 41) = ip"

definition arp_reply :: "NetworkStackHandler \<Rightarrow> u8 list \<Rightarrow> u8 list" where
  "arp_reply st f = ethernet_header (take 6 (drop 22 f)) (myMac st) 0x0806 @
     arp_body st 2 (take 6 (drop 22 f)) (u32_be (f ! 28) (f ! 29) (f ! 30) (f ! 31))"

lemma incoming_ipv4_kind: "incomingIPv4PacketHelper st f = Some (t, st') \<Longrightarrow> t \<noteq> ARPRequest"
  by (auto simp: incomingIPv4PacketHelper_def Let_def bind_eq_Some_conv split: if_splits)

lemma incoming_total:
  assumes q: "queue_is st Q" and len: "14 \<le> length f" "length f \<le> RX_BUFFER_SIZE"
  shows "\<exists>t st' Q'. handleIncomingEthernetPacket st f = Some (t, st') \<and> queue_is st' (Q @ Q') \<and>
    (t = ARPRequest \<longleftrightarrow> arp_request (myIP st) f) \<and> (t = ARPRequest \<longrightarrow> st' = st) \<and> myIP st' = myIP st \<and> myMac st' = myMac st"
proof -
  consider (arp) "u16_be (f ! 12) (f ! 13) = 0x0806" | (ip) "u16_be (f ! 12) (f ! 13) = 0x0800"
    | (other) "u16_be (f ! 12) (f ! 13) \<noteq> 0x0806" "u16_be (f ! 12) (f ! 13) \<noteq> 0x0800" by blast
  then show ?thesis
  proof cases
    case arp
    obtain t st' where ts: "incomingARPPacketHelper st f = (t, st')" by (cases "incomingARPPacketHelper st f")
    have "handleIncomingEthernetPacket st f = Some (t, st')" using arp len(1) ts by (simp add: handleIncomingEthernetPacket_def)
    moreover have "queue_is st' (Q @ [])" using queue_arp [of st f] q ts by simp
    moreover have "(t = ARPRequest \<longleftrightarrow> arp_request (myIP st) f) \<and> (t = ARPRequest \<longrightarrow> st' = st) \<and> myIP st' = myIP st \<and> myMac st' = myMac st"
      using ts arp by (auto simp: incomingARPPacketHelper_def arp_request_def Let_def split: if_splits option.splits)
    ultimately show ?thesis by blast
  next
    case ip
    obtain H U I R where inv: "ns_inv st H U I R" and Q: "Q = map (datagram_at st) R" using q by (auto simp: queue_is_def)
    then have pool: "packet_pool st H U I R" by (simp add: ns_inv_def)
    have run: "handleIncomingEthernetPacket st f = incomingIPv4PacketHelper st f"
      using ip len(1) by (simp add: handleIncomingEthernetPacket_def)
    have nr: "\<not> arp_request (myIP st) f" using ip by (simp add: arp_request_def)
    show ?thesis
    proof (cases "accepted_frame st f")
      case True
      from incoming_ipv4_spec [OF pool len(2) True] obtain st' where
        st': "incomingIPv4PacketHelper st f = Some (IPv4PacketType, st')" "ipv4_effect st f H U I R st'" by blast
      from ipv4_effect_inv [OF inv st'(2) True len(2)] obtain H' U' I' R' where
        inv': "ns_inv st' H' U' I' (R @ R')" "map (datagram_at st') R = map (datagram_at st) R" by blast
      then have "queue_is st' (Q @ map (datagram_at st') R')"
        unfolding queue_is_def Q by (intro exI [of _ H'] exI [of _ U'] exI [of _ I'] exI [of _ "R @ R'"]) simp
      then show ?thesis using run st'(1) nr ns_envD(2,4) [OF incoming_env [OF st'(1)]] by auto
    next
      case False
      from incoming_ipv4_rejected [OF False] obtain t where "incomingIPv4PacketHelper st f = Some (t, st)" by blast
      moreover have "queue_is st (Q @ [])" using q by simp
      ultimately show ?thesis using run nr incoming_ipv4_kind by metis
    qed
  next
    case other
    then have "handleIncomingEthernetPacket st f = Some (UnknownType, st)" "\<not> arp_request (myIP st) f"
      using len(1) by (simp_all add: handleIncomingEthernetPacket_def arp_request_def)
    moreover have "queue_is st (Q @ [])" using q by simp
    ultimately show ?thesis by blast
  qed
qed

lemma arp_reply_frame:
  assumes "arp_request ip f" "length (myMac st) = 6"
  shows "length (arp_reply st f) = 42" "\<not> arp_request ip' (arp_reply st f)"
    "a \<noteq> 0 \<Longrightarrow> handleOutgoingArpReply st m f a = Some (42, store_bytes m a (arp_reply st f))"
proof -
  have l: "42 \<le> length f" using assms(1) by (simp add: arp_request_def)
  then have "length (take 6 (drop 22 f)) = 6" by simp
  then obtain a b c d e g where mac: "take 6 (drop 22 f) = [a, b, c, d, e, g]" using length6 by blast
  obtain a' b' c' d' e' g' where src: "myMac st = [a', b', c', d', e', g']" using length6 [OF assms(2)] by blast
  show "length (arp_reply st f) = 42"
    unfolding arp_reply_def ethernet_header_def arp_body_def be32_def mac src by simp
  have "arp_reply st f ! 20 = 0" "arp_reply st f ! 21 = 2"
    unfolding arp_reply_def ethernet_header_def arp_body_def be32_def mac src by simp_all
  then have "u16_be (arp_reply st f ! 20) (arp_reply st f ! 21) = 2" by (simp add: u16_be_def)
  then show "\<not> arp_request ip' (arp_reply st f)" by (simp add: arp_request_def)
  show "a \<noteq> 0 \<Longrightarrow> handleOutgoingArpReply st m f a = Some (42, store_bytes m a (arp_reply st f))" for a
    using l by (simp add: handleOutgoingArpReply_def arp_reply_def Let_def)
qed

subsection \<open>The interrupt ends\<close>

text \<open>How deep the handler gets: requests are answered until the ring is full, then drained.\<close>

definition rank :: "u32 \<Rightarrow> u8 list list \<Rightarrow> nat" where
  "rank ip fs = (case fs of [] \<Rightarrow> 0
     | f # _ \<Rightarrow> 20 * length (filter (arp_request ip) fs) +
         (if arp_request ip f then 6 - length fs else 12 + length (takeWhile (\<lambda>f. \<not> arp_request ip f) fs)))"

lemma rank_read:
  assumes "fs = f # gs" "length fs \<le> 5" "arp_request ip f \<longrightarrow> length fs = 5"
  shows "rank ip gs < rank ip fs"
proof (cases gs)
  case Nil
  then show ?thesis using assms by (auto simp: rank_def)
next
  case (Cons g hs)
  have "length (takeWhile (\<lambda>f. \<not> arp_request ip f) hs) \<le> length hs" by (rule length_takeWhile_le)
  then show ?thesis using assms Cons by (auto simp: rank_def)
qed

lemma rank_answer:
  assumes "fs = f # gs" "length fs < 5" "arp_request ip f" "\<not> arp_request ip r"
  shows "rank ip (fs @ [r]) < rank ip fs"
  using assms by (simp add: rank_def)

lemma receive_all_append: "receive_all (xs @ ys) st = Option.bind (receive_all xs st) (receive_all ys)"
  by (induction xs arbitrary: st) (auto split: bind_split)

theorem interrupt_ends:
  assumes "lo_ring (lo s) k" "queue_is (lo_stack s) Q" "length (myMac (lo_stack s)) = 6" "lo_pPacketHandler (lo s)"
    and "rank (myIP (lo_stack s)) (frames s k) < n"
  shows "\<exists>s' rs Q'. handleLoopbackInterfaceInterrupt n s = Some s' \<and> lo_ring (lo s') 0 \<and>
    receive_all (frames s k @ rs) (lo_stack s) = Some (lo_stack s') \<and> queue_is (lo_stack s') (Q @ Q') \<and>
    myMac (lo_stack s') = myMac (lo_stack s) \<and> myIP (lo_stack s') = myIP (lo_stack s) \<and> lo_pPacketHandler (lo s') \<and>
    rxAndTxBuffers (lo s') = rxAndTxBuffers (lo s)"
  using assms
proof (induction n arbitrary: s k Q)
  case (Suc n)
  note ring = Suc.prems(1) and q = Suc.prems(2) and mac = Suc.prems(3) and handler = Suc.prems(4) and rk = Suc.prems(5)
  show ?case
  proof (cases k)
    case 0
    then have "handleLoopbackInterfaceInterrupt (Suc n) s = Some s" using ring_empty ring by simp
    moreover have "queue_is (lo_stack s) (Q @ [])" using q by simp
    ultimately show ?thesis using 0 ring handler by (intro exI [of _ s] exI [of _ "[]"]) (auto simp: frames_def)
  next
    case (Suc k')
    note rd = ring_read [OF ring [unfolded Suc]]
    let ?f = "frame_at s 0" and ?st = "lo_stack s" and ?ip = "myIP (lo_stack s)"
    have fs: "frames s k = ?f # tl (frames s k)" using Suc by (simp add: frames_def upt_conv_Cons del: upt_Suc)
    have k5: "k \<le> 5" "length (frames s k) = k" using ring by (auto simp: lo_ring_def frames_def)
    have "length ?f \<le> RX_BUFFER_SIZE" using rd(4) by simp
    from incoming_total [OF q rd(3) this] obtain t st1 Q1 where
      st1: "handleIncomingEthernetPacket ?st ?f = Some (t, st1)" "queue_is st1 (Q @ Q1)"
      "t = ARPRequest \<longleftrightarrow> arp_request ?ip ?f" "t = ARPRequest \<longrightarrow> st1 = ?st" "myIP st1 = ?ip" "myMac st1 = myMac ?st" by blast
    define s1 where "s1 = s\<lparr>lo_stack := st1\<rparr>"
    have run: "handleLoopbackInterfaceInterrupt (Suc n) s = do {
        s' \<leftarrow> (if t = ARPRequest then do {
                (sz, m) \<leftarrow> handleOutgoingArpReply st1 (lo_mem s) ?f (lo_getWriteBuffer (lo s));
                lo_finishWriteBuffer (handleLoopbackInterfaceInterrupt n) (s1\<lparr>lo_mem := m\<rparr>) sz False }
              else Some s1);
        handleLoopbackInterfaceInterrupt n (s'\<lparr>lo := lo_finishReadBuffer (lo s')\<rparr>) }"
      using rd(1,2) handler st1(1) by (simp add: lo_packet_handler_def frame_at_def [symmetric] s1_def Let_def)
    have drain: "\<exists>s' rs Q'. handleLoopbackInterfaceInterrupt n (s1\<lparr>lo := lo_finishReadBuffer (lo s1)\<rparr>) = Some s' \<and> lo_ring (lo s') 0 \<and>
        receive_all (frames s k @ rs) ?st = Some (lo_stack s') \<and> queue_is (lo_stack s') (Q @ Q') \<and>
        myMac (lo_stack s') = myMac ?st \<and> myIP (lo_stack s') = ?ip \<and> lo_pPacketHandler (lo s') \<and>
        rxAndTxBuffers (lo s') = rxAndTxBuffers (lo s)"
      if "arp_request ?ip ?f \<longrightarrow> k = 5"
    proof -
      define s2 where "s2 = s1\<lparr>lo := lo_finishReadBuffer (lo s1)\<rparr>"
      have s2: "lo s2 = lo_finishReadBuffer (lo s)" "lo_stack s2 = st1" "lo_mem s2 = lo_mem s" by (simp_all add: s2_def s1_def)
      have fr: "frames s2 k' = tl (frames s k)"
        using rd(6) Suc frames_cong [of s2 "s\<lparr>lo := lo_finishReadBuffer (lo s)\<rparr>"] s2 by simp
      have hand: "lo_pPacketHandler (lo s2)" "rxAndTxBuffers (lo s2) = rxAndTxBuffers (lo s)"
        using handler s2(1) by (simp_all add: lo_finishReadBuffer_def)
      have "rank ?ip (frames s2 k') < rank ?ip (frames s k)" using rank_read [OF fs] k5 fr that by simp
      then have "rank (myIP (lo_stack s2)) (frames s2 k') < n" using rk s2(2) st1(5) by simp
      moreover have "lo_ring (lo s2) k'" "queue_is (lo_stack s2) (Q @ Q1)" "length (myMac (lo_stack s2)) = 6"
        using rd(5) s2 st1(2,6) mac by simp_all
      ultimately obtain s' rs Q' where s': "handleLoopbackInterfaceInterrupt n s2 = Some s'" "lo_ring (lo s') 0"
        "receive_all (frames s2 k' @ rs) (lo_stack s2) = Some (lo_stack s')" "queue_is (lo_stack s') ((Q @ Q1) @ Q')"
        "myMac (lo_stack s') = myMac st1" "myIP (lo_stack s') = ?ip" "lo_pPacketHandler (lo s')"
        "rxAndTxBuffers (lo s') = rxAndTxBuffers (lo s)"
        using Suc.IH [of s2 k' "Q @ Q1"] hand s2(2) st1(5) by auto
      have "receive_all (frames s k @ rs) ?st = Some (lo_stack s')" using fs st1(1) s'(3) fr s2(2) by (metis append_Cons receive_all.simps(2) bind.bind_lunit case_prod_conv)
      then show ?thesis using s' st1(6) unfolding s2_def [symmetric] by auto
    qed
    show ?thesis
    proof (cases "t = ARPRequest")
      case False
      then show ?thesis using run drain st1(3) by simp
    next
      case True
      then have req: "arp_request ?ip ?f" and s1: "s1 = s" "st1 = ?st" using st1(3,4) by (auto simp: s1_def)
      show ?thesis
      proof (cases "k = 5")
        case full: True
        have "handleLoopbackInterfaceInterrupt (Suc n) s = handleLoopbackInterfaceInterrupt n (s1\<lparr>lo := lo_finishReadBuffer (lo s1)\<rparr>)"
          using run True ring_free(2) [OF ring full] s1 by (simp add: handleOutgoingArpReply_def lo_finishWriteBuffer_def)
        then show ?thesis using drain full by simp
      next
        case False
        then have free: "k < 5" using k5 by simp
        let ?r = "arp_reply ?st ?f" and ?b = "lo_buffer (lo s) (slot (lo s) k)"
        note rep = arp_reply_frame [OF req mac]
        define s2 where "s2 = s\<lparr>lo_mem := store_bytes (lo_mem s) ?b ?r\<rparr>"
        have lo2: "lo s2 = lo s" "lo_stack s2 = ?st" by (simp_all add: s2_def)
        have fr2: "frames s2 k = frames s k"
        proof -
          have "frame_at s2 j = frame_at s j" if "j < k" for j
          proof -
            have "slot (lo s) k \<noteq> slot (lo s) j" using slot_inj [of k j "lo s"] that free by simp
            moreover have "unat (lo_length (rxAndTxDescs (lo s) ! slot (lo s) j)) \<le> 2048" using ring that by (auto simp: lo_ring_def)
            ultimately show ?thesis
              unfolding frame_at_def lo2 using load_other_buffer [OF ring, of "slot (lo s) k" "slot (lo s) j" ?r] rep(1)
              by (simp add: s2_def)
          qed
          then show ?thesis by (simp add: frames_def)
        qed
        have new: "load_bytes (lo_mem s2) (lo_buffer (lo s2) (slot (lo s2) k)) (unat (42 :: u32)) = ?r"
          using load_store_bytes [of ?r "lo_mem s" ?b] rep(1) by (simp add: s2_def)
        have ring2: "lo_ring (lo s2) k" "14 \<le> unat (42 :: u32)" "unat (42 :: u32) \<le> 1514" using ring lo2 by simp_all
        note w = ring_write [OF ring2(1) free ring2(2,3)]
        define s3 where "s3 = sent s2 42"
        have s3: "lo_ring (lo s3) (Suc k)" "frames s3 (Suc k) = frames s k @ [?r]" "lo_stack s3 = ?st"
          "lo_pPacketHandler (lo s3)" "rxAndTxBuffers (lo s3) = rxAndTxBuffers (lo s)"
          using w fr2 new handler by (simp_all add: s3_def sent_def lo2)
        have b0: "?b \<noteq> 0" using lo_buffer_nonzero [OF ring] by simp
        have nested: "handleLoopbackInterfaceInterrupt (Suc n) s = do {
            s' \<leftarrow> handleLoopbackInterfaceInterrupt n s3;
            handleLoopbackInterfaceInterrupt n (s'\<lparr>lo := lo_finishReadBuffer (lo s')\<rparr>) }"
          using run True s1 ring_free(1) [OF ring free] rep(3) [OF b0] w(3) by (simp add: s2_def [symmetric] s3_def)
        have "rank ?ip (frames s3 (Suc k)) < rank ?ip (frames s k)"
          unfolding s3(2) using rank_answer [OF fs] k5(2) free req rep(2) by simp
        then obtain s' rs Q' where s': "handleLoopbackInterfaceInterrupt n s3 = Some s'" "lo_ring (lo s') 0"
          "receive_all (frames s3 (Suc k) @ rs) (lo_stack s3) = Some (lo_stack s')" "queue_is (lo_stack s') (Q @ Q')"
          "myMac (lo_stack s') = myMac ?st" "myIP (lo_stack s') = ?ip" "lo_pPacketHandler (lo s')"
          "rxAndTxBuffers (lo s') = rxAndTxBuffers (lo s)"
          using Suc.IH [OF s3(1), of Q] s3(3-5) q mac rk by auto
        have "n \<noteq> 0" using s'(1) by (cases n) auto
        then obtain n' where "n = Suc n'" by (cases n) auto
        then have "handleLoopbackInterfaceInterrupt n (s'\<lparr>lo := lo_finishReadBuffer (lo s')\<rparr>) = Some s'"
          using ring_empty [OF s'(2)] by simp
        then have "handleLoopbackInterfaceInterrupt (Suc n) s = Some s'" using nested s'(1) by simp
        moreover have "receive_all (frames s k @ (?r # rs)) ?st = Some (lo_stack s')" using s'(3) s3(2,3) by simp
        ultimately show ?thesis using s' by blast
      qed
    qed
  qed
qed simp

end
