(* ===== verification/Physical_Interface.thy ===== *)
theory Physical_Interface
  imports Network_Send
begin

text \<open>
  \<open>global_resources/physical_network_interface.cpp\<close>: the driver of the 82540EM network card. The transmit
  descriptors are unions of three layouts; they are modelled as their 16 bytes. What the driver
  tells the card goes through \<open>writeCommand\<close>, recorded as the list of accesses in \<open>ph_commands\<close>; what
  it reads from PCI configuration space and from the card's registers are parameters.
\<close>

abbreviation (input) NUM_RX_DESCRIPTORS :: nat where "NUM_RX_DESCRIPTORS \<equiv> 32"
abbreviation (input) NUM_TX_DESCRIPTORS :: nat where "NUM_TX_DESCRIPTORS \<equiv> 8"
abbreviation (input) TX_BUFFER_SIZE :: nat where "TX_BUFFER_SIZE \<equiv> 16288"

record e1000RxDesc =
  rx_addrLow :: u32
  rx_addrHigh :: u32
  rx_length :: u16
  rx_checksum :: u16
  rx_status :: u8
  rx_errors :: u8
  rx_special :: u16

datatype io_access = Mem_Write u32 u32 | Port_Out u32 u32 | Pci_Write u8 u8 u32 u32

record PhysicalNetworkInterface =
  rxDescs :: "e1000RxDesc list"
  txDescs :: "u8 list list"
  rxDescsAddr :: u32
  txDescsAddr :: u32
  rxBufferSpace :: u32
  txBufferSpace :: u32
  ioBase :: u32
  usingMemMappedRegisters :: bool
  ph_mac :: "u8 list"
  interruptLine :: u32
  ph_currentRx :: nat
  ph_currentTx :: nat
  ph_interruptsEnabled :: bool
  ph_pPacketHandler :: bool
  ph_commands :: "io_access list"

definition writeCommand :: "PhysicalNetworkInterface \<Rightarrow> u32 \<Rightarrow> u32 \<Rightarrow> PhysicalNetworkInterface" where
  "writeCommand i address v =
     i\<lparr>ph_commands := ph_commands i @
        (if usingMemMappedRegisters i then [Mem_Write (ioBase i + address) v]
         else [Port_Out (ioBase i) address, Port_Out (ioBase i + 4) v])\<rparr>"

definition writeCommands :: "PhysicalNetworkInterface \<Rightarrow> (u32 \<times> u32) list \<Rightarrow> PhysicalNetworkInterface" where
  "writeCommands i cs = fold (\<lambda>(a, v) i. writeCommand i a v) cs i"

subsection \<open>Finding the card\<close>

text \<open>\<open>pci\<close> is \<open>pciReadDword\<close> for function 0; the search visits bus by bus, slot by slot.\<close>

definition is_82540EM :: "(u8 \<Rightarrow> u8 \<Rightarrow> u32 \<Rightarrow> u32) \<Rightarrow> u8 \<Rightarrow> u8 \<Rightarrow> bool" where
  "is_82540EM pci bus slot \<longleftrightarrow> pci bus slot 0 = 0x100E8086 \<and> drop_bit 8 (pci bus slot 0x8) = 0x20000"

definition find_controller :: "(u8 \<Rightarrow> u8 \<Rightarrow> u32 \<Rightarrow> u32) \<Rightarrow> (u8 \<times> u8) option" where
  "find_controller pci = find (\<lambda>(bus, slot). is_82540EM pci bus slot)
     (concat (map (\<lambda>bus. map (\<lambda>slot. (of_nat bus, of_nat slot)) [0..<32]) [0..<256]))"

text \<open>Which registers are used, from the status and command register and the base address registers:
  the base address and whether registers are memory mapped; \<open>None\<close> when the system does not start.\<close>

definition io_bar2 :: "u32 \<Rightarrow> (u32 \<times> bool) option" where
  "io_bar2 ioBar2 =
     (if ioBar2 AND 0x1 = 0 \<or> ioBar2 AND 0x6 \<noteq> 0 \<or> ioBar2 AND 0xFFFFFFF8 = 0 then None
      else Some (ioBar2 AND 0xFFFFFFF8, False))"

definition choose_registers :: "u32 \<Rightarrow> u32 \<Rightarrow> u32 \<Rightarrow> (u32 \<times> bool) option" where
  "choose_registers statusAndCommandRegister ioBar0 ioBar2 =
     (if statusAndCommandRegister AND 0x2 \<noteq> 0 then
        if ioBar0 AND 0x1 \<noteq> 0 \<or> ioBar0 AND 0x6 \<noteq> 0 \<or> ioBar0 AND 0xFFFFFFF0 = 0 then io_bar2 ioBar2
        else Some (ioBar0 AND 0xFFFFFFF0, True)
      else io_bar2 ioBar2)"

text \<open>The MAC address from three words of the EEPROM.\<close>

definition eeprom_mac :: "(nat \<Rightarrow> u32) \<Rightarrow> u8 list" where
  "eeprom_mac readEEPROM = concat (map (\<lambda>i. [ucast (readEEPROM i AND 0xFF), ucast (drop_bit 8 (readEEPROM i))]) [0..<3])"

subsection \<open>Descriptors\<close>

definition rx_buffer :: "PhysicalNetworkInterface \<Rightarrow> nat \<Rightarrow> u32" where
  "rx_buffer i k = rxBufferSpace i + of_nat (RX_BUFFER_SIZE * k)"

definition tx_buffer :: "PhysicalNetworkInterface \<Rightarrow> nat \<Rightarrow> u32" where
  "tx_buffer i k = txBufferSpace i + of_nat (TX_BUFFER_SIZE * k)"

definition rxInit :: "PhysicalNetworkInterface \<Rightarrow> PhysicalNetworkInterface" where
  "rxInit i =
     writeCommands
       (i\<lparr>rxDescs := map (\<lambda>k. (rxDescs i ! k)\<lparr>rx_addrLow := rx_buffer i k, rx_addrHigh := 0, rx_status := 0\<rparr>)
            [0..<NUM_RX_DESCRIPTORS]\<rparr>)
       [(0x2800, rxDescsAddr i), (0x2804, 0), (0x2808, 512), (0x2810, 0), (0x2818, 31), (0x0100, 0x0400801E)]"

definition tx_status :: "u8 list \<Rightarrow> u8" where
  "tx_status d = d ! 12"

definition txInit :: "PhysicalNetworkInterface \<Rightarrow> PhysicalNetworkInterface" where
  "txInit i =
     writeCommands (i\<lparr>txDescs := map (\<lambda>d. d[12 := 1]) (txDescs i)\<rparr>)
       [(0x3800, txDescsAddr i), (0x3804, 0), (0x3808, 128), (0x3810, 0), (0x3818, 0),
        (0x0400, 0x010400FA), (0x0400, 0x3003F0FA), (0x0410, 0x0060200A)]"

text \<open>The layouts: a legacy descriptor, a TCP/IP data descriptor and the TCP/IP context of the constructor.\<close>

definition e1000TxDescLegacy :: "u32 \<Rightarrow> u32 \<Rightarrow> u8 list" where
  "e1000TxDescLegacy addr len = le32 addr @ le32 0 @ le16 (ucast len) @ [0, 0x0B, 0, 0] @ le16 0"

definition e1000TxDescTCPIPData :: "u32 \<Rightarrow> u32 \<Rightarrow> u8 list" where
  "e1000TxDescTCPIPData addr len = le32 addr @ le32 0 @ le16 (ucast len) @ [0x10, 0x29, 0, 1] @ le16 0"

definition e1000TxDescTCPIPContext :: "u8 list" where
  "e1000TxDescTCPIPContext = [14, 24] @ le16 33 @ [0, 0] @ le16 0 @ le16 0 @ [0, 0x2A, 0, 0] @ le16 0"

definition ph_initialise :: "PhysicalNetworkInterface \<Rightarrow> PhysicalNetworkInterface" where
  "ph_initialise i =
     (let i = txInit (rxInit i);
          i = i\<lparr>txDescs := (txDescs i)[ph_currentTx i := e1000TxDescTCPIPContext]\<rparr>;
          i = writeCommand i 0x3818 (of_nat (ph_currentTx i))
      in i\<lparr>ph_currentTx := (ph_currentTx i + 1) mod NUM_TX_DESCRIPTORS\<rparr>)"

subsection \<open>The constructor\<close>

text \<open>\<open>reads\<close> are the values the EEPROM register takes while it is polled for one word.\<close>

definition readEEPROM :: "u32 list \<Rightarrow> u32 option" where
  "readEEPROM reads = map_option (\<lambda>tmp. drop_bit 16 tmp AND 0xFFFF) (find (\<lambda>tmp. tmp AND 0x10 \<noteq> 0) reads)"

text \<open>\<open>raw\<close> is the memory the object is built in, with the addresses of its arrays. \<open>statusAfter\<close> is the
  status and command register after the attempt to enable bus mastering, \<open>eepromBar\<close> and
  \<open>ctrlRegister\<close> are what those registers read. \<open>None\<close>: the constructor does not return.\<close>

definition PhysicalNetworkInterface_new ::
  "PhysicalNetworkInterface \<Rightarrow> (u8 \<Rightarrow> u8 \<Rightarrow> u32 \<Rightarrow> u32) \<Rightarrow> u32 \<Rightarrow> u32 \<Rightarrow> (nat \<Rightarrow> u32 list) \<Rightarrow> u32 \<Rightarrow>
     PhysicalNetworkInterface option" where
  "PhysicalNetworkInterface_new raw pci statusAfter eepromBar eepromReads ctrlRegister = do {
     (bus, slot) \<leftarrow> find_controller pci;
     let statusAndCommandRegister = pci bus slot 0x4;
     let busMastering = (statusAndCommandRegister AND 0x4 \<noteq> 0);
     if \<not> busMastering \<and> statusAfter AND 0x4 = 0 then None
     else if pci bus slot 0x20 \<noteq> 0 then None
     else do {
       (base, mapped) \<leftarrow> choose_registers statusAndCommandRegister (pci bus slot 0x10) (pci bus slot 0x18);
       let i = raw\<lparr>ioBase := base, usingMemMappedRegisters := mapped, ph_currentRx := 0, ph_currentTx := 0,
                   ph_interruptsEnabled := False, ph_pPacketHandler := False,
                   ph_commands := if busMastering then []
                     else [Pci_Write bus slot 0x4 (statusAndCommandRegister OR 0x4)]\<rparr>;
       let i = writeCommand i 0x14 0x1;
       if eepromBar AND 0x10 = 0 then None
       else do {
         w0 \<leftarrow> readEEPROM (eepromReads 0);
         w1 \<leftarrow> readEEPROM (eepromReads 1);
         w2 \<leftarrow> readEEPROM (eepromReads 2);
         let i = writeCommands i [(0x14, 0x1), (0x14, 0x101), (0x14, 0x201)];
         let i = i\<lparr>ph_mac := eeprom_mac (\<lambda>k. [w0, w1, w2] ! k)\<rparr>;
         let i = writeCommands i ((0x0, ctrlRegister OR 0x40) # map (\<lambda>k. (0x5200 + of_nat (4 * k), 0)) [0..<0x80]);
         let i = i\<lparr>interruptLine := pci bus slot 0x3C AND 0xFF\<rparr>;
         Some (ph_initialise (writeCommands i [(0xD0, 0xFFFF), (0xD8, 0xFFFF)])) } } }"

subsection \<open>Sending and receiving\<close>

definition ph_getWriteBuffer :: "PhysicalNetworkInterface \<Rightarrow> u32" where
  "ph_getWriteBuffer i =
     (if tx_status (txDescs i ! ph_currentTx i) = 0 then 0 else tx_buffer i (ph_currentTx i))"

definition ph_finishWriteBuffer :: "PhysicalNetworkInterface \<Rightarrow> u32 \<Rightarrow> bool \<Rightarrow> PhysicalNetworkInterface" where
  "ph_finishWriteBuffer i len isIpv4Packet =
     (let tx = ph_currentTx i in
      if len < 14 then i
      else if len > 1500 + 14 then i
      else if tx_status (txDescs i ! tx) = 0 then i
      else if isIpv4Packet \<and> len < 20 + 14 then i
      else
        let d = (if isIpv4Packet then e1000TxDescTCPIPData else e1000TxDescLegacy) (tx_buffer i tx) len;
            i = i\<lparr>txDescs := (txDescs i)[tx := d], ph_currentTx := (tx + 1) mod NUM_TX_DESCRIPTORS\<rparr>
        in writeCommand i 0x3818 (of_nat (ph_currentTx i)))"

definition ph_getReadBuffer :: "PhysicalNetworkInterface \<Rightarrow> u32 \<times> u32" where
  "ph_getReadBuffer i =
     (let d = rxDescs i ! ph_currentRx i in
      if rx_status d AND 0x1 = 0 then (0, 0) else (rx_buffer i (ph_currentRx i), ucast (rx_length d)))"

definition ph_finishReadBuffer :: "PhysicalNetworkInterface \<Rightarrow> PhysicalNetworkInterface" where
  "ph_finishReadBuffer i =
     (let rx = ph_currentRx i; d = rxDescs i ! rx in
      if rx_status d AND 0x1 = 0 then i
      else writeCommand
        (i\<lparr>rxDescs := (rxDescs i)[rx := d\<lparr>rx_status := 0\<rparr>], ph_currentRx := (rx + 1) mod NUM_RX_DESCRIPTORS\<rparr>)
        0x2818 (of_nat rx))"

text \<open>The interface, the network stack handler behind it, and memory;
  \<open>PhysicalNetworkInterfacePacketHandler::call\<close> of \<open>network_management_task.cpp\<close>.\<close>

record PhysicalState =
  ph :: PhysicalNetworkInterface
  ph_stack :: NetworkStackHandler
  ph_mem :: memory

definition ph_packet_handler :: "PhysicalState \<Rightarrow> u32 \<Rightarrow> u32 \<Rightarrow> PhysicalState option" where
  "ph_packet_handler s readBuffer readBufferLen =
     (let data = load_bytes (ph_mem s) readBuffer (unat readBufferLen) in do {
      (packetType, stack) \<leftarrow> handleIncomingEthernetPacket (ph_stack s) data;
      let s = s\<lparr>ph_stack := stack\<rparr>;
      if packetType = ARPRequest then do {
        (n, m) \<leftarrow> handleOutgoingArpReply stack (ph_mem s) data (ph_getWriteBuffer (ph s));
        Some (s\<lparr>ph_mem := m, ph := ph_finishWriteBuffer (ph s) n False\<rparr>) }
      else Some s })"

primrec receive_loop :: "nat \<Rightarrow> PhysicalState \<Rightarrow> PhysicalState option" where
  "receive_loop 0 s = None"
| "receive_loop (Suc n) s =
     (case ph_getReadBuffer (ph s) of (readBuffer, len) \<Rightarrow>
      if readBuffer = 0 then Some s
      else do {
        s \<leftarrow> (if ph_pPacketHandler (ph s) then ph_packet_handler s readBuffer len else Some s);
        receive_loop n (s\<lparr>ph := ph_finishReadBuffer (ph s)\<rparr>) })"

text \<open>\<open>status\<close> and \<open>control\<close> are what the card's registers read; one round more than there are
  descriptors is enough fuel for the loop.\<close>

definition handlePhysicalNetworkInterfaceInterrupt :: "u32 \<Rightarrow> u32 \<Rightarrow> PhysicalState \<Rightarrow> PhysicalState option" where
  "handlePhysicalNetworkInterfaceInterrupt status control s =
     (if status AND 0x04 \<noteq> 0 then Some (s\<lparr>ph := writeCommand (ph s) 0x0 (control OR 0x40)\<rparr>)
      else if status AND 0x10 \<noteq> 0 then Some s
      else if status AND 0x80 \<noteq> 0 then receive_loop (NUM_RX_DESCRIPTORS + 1) s
      else Some s)"

text \<open>\<open>None\<close>: an interrupt line the system does not know.\<close>

definition ph_registerPacketHandler :: "PhysicalNetworkInterface \<Rightarrow> PhysicalNetworkInterface option" where
  "ph_registerPacketHandler i =
     (let i = i\<lparr>ph_pPacketHandler := True\<rparr> in
      if ph_interruptsEnabled i then Some i
      else if interruptLine i \<notin> {9, 10, 11} then None
      else Some ((writeCommand i 0xD0 (0x04 OR 0x10 OR 0x80))\<lparr>ph_interruptsEnabled := True\<rparr>))"

end
