(* ===== verification/Network_Task.thy ===== *)
theory Network_Task
  imports Loopback_Ring Physical_Interface Socket_Transmission
begin

text \<open>
  \<open>network_management_task/network_management_task.cpp\<close>: the kernel task that moves packets between the
  sockets and the two network interfaces. \<open>NetworkTask\<close> holds what it works on; both interfaces share
  memory with the tasks. \<open>transmit_loop\<close> is the loop of \<open>HandleTransmissionRequest::run\<close>: at most 46
  rounds, because a datagram has fewer than 65536 bytes and every round that goes on sends 1480 of
  them. \<open>drain_packets\<close> is the loop that hands the readable datagrams of a network stack handler to the
  socket manager; it appears once per interface.
\<close>

record NetworkTask =
  nt_sm :: SocketManager
  nt_mem :: memory
  nt_ph :: PhysicalNetworkInterface
  nt_ph_stack :: NetworkStackHandler
  nt_lo :: LoopbackNetworkInterface
  nt_lo_stack :: NetworkStackHandler

subsection \<open>The chosen interface\<close>

text \<open>\<open>pNetworkInterface\<close> is the loopback interface for datagrams to this machine.\<close>

datatype NetworkInterface = Physical | Loopback

definition choose_interface :: "u32 \<Rightarrow> OutgoingUDPPacket \<Rightarrow> NetworkInterface" where
  "choose_interface thisIP out = (if out_destinationIP out = thisIP then Loopback else Physical)"

abbreviation (input) interrupt_fuel :: nat where "interrupt_fuel \<equiv> 120"

definition nt_loopback :: "NetworkTask \<Rightarrow> LoopbackState" where
  "nt_loopback nt = \<lparr>lo = nt_lo nt, lo_stack = nt_lo_stack nt, lo_mem = nt_mem nt\<rparr>"

definition nt_getWriteBuffer :: "NetworkInterface \<Rightarrow> NetworkTask \<Rightarrow> u32" where
  "nt_getWriteBuffer i nt =
     (case i of Loopback \<Rightarrow> lo_getWriteBuffer (nt_lo nt) | Physical \<Rightarrow> ph_getWriteBuffer (nt_ph nt))"

definition nt_finishWriteBuffer :: "NetworkInterface \<Rightarrow> NetworkTask \<Rightarrow> u32 \<Rightarrow> bool \<Rightarrow> NetworkTask option" where
  "nt_finishWriteBuffer i nt len isIpv4Packet =
     (case i of
        Loopback \<Rightarrow> do {
          s \<leftarrow> lo_finishWriteBuffer (handleLoopbackInterfaceInterrupt interrupt_fuel) (nt_loopback nt) len isIpv4Packet;
          Some (nt\<lparr>nt_lo := lo s, nt_lo_stack := lo_stack s, nt_mem := lo_mem s\<rparr>) }
      | Physical \<Rightarrow> Some (nt\<lparr>nt_ph := ph_finishWriteBuffer (nt_ph nt) len isIpv4Packet\<rparr>))"

definition nt_handleOutgoingIPv4Packet ::
  "NetworkInterface \<Rightarrow> NetworkTask \<Rightarrow> OutgoingUDPPacket \<Rightarrow> u16 \<Rightarrow> u32 \<Rightarrow> u32 \<Rightarrow>
     (IPv4PacketProgress \<times> u32) \<times> u16 \<times> u32 \<times> NetworkTask" where
  "nt_handleOutgoingIPv4Packet i nt out ident offset writeBuffer =
     (let stack = (case i of Loopback \<Rightarrow> nt_lo_stack nt | Physical \<Rightarrow> nt_ph_stack nt);
          (state, ident, offset, stack, m) = handleOutgoingIPv4Packet stack (nt_mem nt) (out_destinationIP out) 17
            (out_data out) (out_dataLen out) ident offset writeBuffer
      in (state, ident, offset,
          case i of Loopback \<Rightarrow> nt\<lparr>nt_mem := m, nt_lo_stack := stack\<rparr> | Physical \<Rightarrow> nt\<lparr>nt_mem := m, nt_ph_stack := stack\<rparr>))"

subsection \<open>Transmission\<close>

definition udp_header :: "OutgoingUDPPacket \<Rightarrow> u8 list" where
  "udp_header out =
     [byte_at 1 (out_sourcePort out), byte_at 0 (out_sourcePort out),
      byte_at 1 (out_destinationPort out), byte_at 0 (out_destinationPort out),
      byte_at 1 (out_dataLen out), byte_at 0 (out_dataLen out), 0x00, 0x00]"

definition write_udp_header :: "OutgoingUDPPacket \<Rightarrow> u32 \<Rightarrow> NetworkTask \<Rightarrow> NetworkTask" where
  "write_udp_header out offset nt =
     (if offset = 0 then nt\<lparr>nt_mem := store_bytes (nt_mem nt) (out_data out) (udp_header out)\<rparr> else nt)"

primrec transmit_loop ::
  "nat \<Rightarrow> NetworkInterface \<Rightarrow> OutgoingUDPPacket \<Rightarrow> NetworkTask \<Rightarrow> u16 \<Rightarrow> u32 \<Rightarrow> u32 \<Rightarrow>
     (NetworkTask \<times> u16 \<times> u32 \<times> u32) option" where
  "transmit_loop 0 i out nt ident offset writeBuffer = None"
| "transmit_loop (Suc n) i out nt ident offset writeBuffer =
     (if writeBuffer = 0 then Some (nt, ident, offset, writeBuffer)
      else if out_dataLen out = 0 then Some (nt, ident, offset, writeBuffer)
      else
        case nt_handleOutgoingIPv4Packet i (write_udp_header out offset nt) out ident offset writeBuffer of
          ((progress, second), ident, offset, nt) \<Rightarrow> do {
            (nt, writeBuffer) \<leftarrow>
              (if second > 0 then do {
                 nt \<leftarrow> nt_finishWriteBuffer i nt second (progress = Done \<or> progress = SendingFragment);
                 Some (nt, nt_getWriteBuffer i nt) }
               else Some (nt, writeBuffer));
            if progress = WaitingOnARPReply \<or> progress = ARPTableFull \<or> progress = Done
            then Some (nt, ident, offset, writeBuffer)
            else transmit_loop n i out nt ident offset writeBuffer })"

abbreviation (input) transmit_fuel :: nat where "transmit_fuel \<equiv> 46"

text \<open>\<open>HandleTransmissionRequest::run\<close>; the result is the state and the iterator.\<close>

definition finish_request :: "NetworkTask \<Rightarrow> u16 \<Rightarrow> ptr \<Rightarrow> (NetworkTask \<times> ptr) option" where
  "finish_request nt p it = do {
     (sm, m) \<leftarrow> indicateAsFinished (nt_sm nt) (nt_mem nt) p;
     (sm, it) \<leftarrow> remove_request sm it;
     Some (nt\<lparr>nt_sm := sm, nt_mem := m\<rparr>, it) }"

definition handleTransmissionRequest_run :: "u32 \<Rightarrow> NetworkTask \<Rightarrow> ptr \<Rightarrow> (NetworkTask \<times> ptr) option" where
  "handleTransmissionRequest_run thisIP nt it = do {
     p \<leftarrow> current_request (nt_sm nt) it;
     out \<leftarrow> getTop (nt_sm nt) (nt_mem nt) p;
     let i = choose_interface thisIP out;
     (nt, ident, offset, writeBuffer) \<leftarrow> transmit_loop transmit_fuel i out nt
       (out_identification out) (out_fragmentOffset out) (nt_getWriteBuffer i nt);
     if out_dataLen out = 0 then finish_request nt p it
     else if offset \<ge> out_dataLen out then do {
       (txRequestDone, sm) \<leftarrow> removeTop (nt_sm nt) (nt_mem nt) p;
       if txRequestDone then finish_request (nt\<lparr>nt_sm := sm\<rparr>) p it
       else do { (sm, it) \<leftarrow> relocateToEnd sm it; Some (nt\<lparr>nt_sm := sm\<rparr>, it) } }
     else if writeBuffer = 0 then do {
       sm \<leftarrow> updateTop (nt_sm nt) p offset ident;
       Some (nt\<lparr>nt_sm := sm\<rparr>, it) }
     else do {
       sm \<leftarrow> updateTop (nt_sm nt) p offset ident;
       it \<leftarrow> goToNext sm it;
       Some (nt\<lparr>nt_sm := sm\<rparr>, it) } }"

subsection \<open>Reception\<close>

text \<open>The loop over the readable datagrams: \<open>front\<close> and \<open>pop\<close> are the operations of the network stack
  handler, \<open>handle\<close> is \<open>HandleReceivedPacket::run\<close>.\<close>

primrec drain_packets ::
  "nat \<Rightarrow> ('s \<Rightarrow> 'p option) \<Rightarrow> ('s \<Rightarrow> 's option) \<Rightarrow> ('s \<Rightarrow> 'p \<Rightarrow> 'c \<Rightarrow> 'c option) \<Rightarrow> 's \<Rightarrow> 'c \<Rightarrow> ('s \<times> 'c) option" where
  "drain_packets 0 front pop handle s c = None"
| "drain_packets (Suc n) front pop handle s c =
     (case front s of
        None \<Rightarrow> Some (s, c)
      | Some newPacket \<Rightarrow> do {
          c \<leftarrow> handle s newPacket c;
          s \<leftarrow> pop s;
          drain_packets n front pop handle s c })"

definition handleReceivedPacket_run ::
  "NetworkStackHandler \<Rightarrow> nat \<Rightarrow> SocketManager \<times> memory \<Rightarrow> (SocketManager \<times> memory) option" where
  "handleReceivedPacket_run st newPacket c = (case c of (sm, m) \<Rightarrow> handleReceivedPacket sm m (pool_of st) newPacket)"

definition receive_packets ::
  "NetworkStackHandler \<Rightarrow> SocketManager \<times> memory \<Rightarrow> (NetworkStackHandler \<times> SocketManager \<times> memory) option" where
  "receive_packets st c =
     drain_packets (length (packetListElements st) + 1) getLatestIPv4Packet popLatestIPv4Packet handleReceivedPacket_run st c"

text \<open>One round of the task's endless loop after the transmissions; \<open>yield\<close> does not change this state.\<close>

definition receive_round :: "NetworkTask \<Rightarrow> NetworkTask option" where
  "receive_round nt = do {
     (phs, sm, m) \<leftarrow> receive_packets (nt_ph_stack nt) (nt_sm nt, nt_mem nt);
     (los, sm, m) \<leftarrow> receive_packets (nt_lo_stack nt) (sm, m);
     Some (nt\<lparr>nt_sm := sm, nt_mem := m, nt_ph_stack := phs, nt_lo_stack := los\<rparr>) }"

subsection \<open>Initialisation and time\<close>

text \<open>The two network stack handlers and the loopback interface as the task sets them up; \<open>raw_ph\<close> and
  \<open>raw_lo\<close> are the memory the packet arrays are built in.\<close>

definition networkManagementTask_setup ::
  "u32 \<Rightarrow> u32 \<Rightarrow> u32 \<Rightarrow> u32 \<Rightarrow> IPv4Packet dl_array \<Rightarrow> IPv4Packet dl_array \<Rightarrow> SocketManager \<Rightarrow> memory \<Rightarrow>
     PhysicalNetworkInterface \<Rightarrow> NetworkTask option" where
  "networkManagementTask_setup thisIP gateway netmask buffers raw_ph raw_lo sm m phi = do {
     let phs = NetworkStackHandler_new 10 5 raw_ph (ph_mac phi) thisIP gateway (if netmask < 32 then netmask else 24);
     let loi = LoopbackNetworkInterface_new [1, 2, 3, 4, 5, 6] buffers;
     let los = NetworkStackHandler_new 1 1 raw_lo (lo_mac loi) thisIP thisIP 32;
     phi \<leftarrow> ph_registerPacketHandler phi;
     Some \<lparr>nt_sm = sm, nt_mem = m, nt_ph = phi, nt_ph_stack = phs,
           nt_lo = lo_registerPacketHandler loi, nt_lo_stack = los\<rparr> }"

definition RTCTimerCallback_run :: "NetworkTask \<Rightarrow> NetworkTask" where
  "RTCTimerCallback_run nt =
     nt\<lparr>nt_ph_stack := incrementTimerCounter (nt_ph_stack nt), nt_lo_stack := incrementTimerCounter (nt_lo_stack nt)\<rparr>"

end
