(* ===== verification/Fragmentation.thy ===== *)
theory Fragmentation
  imports Network_Send
begin

text \<open>
  Sending and receiving a datagram together: the frames that repeated calls of
  \<open>handleOutgoingIPv4Packet\<close> produce are the datagram cut into pieces of 1480 bytes (\<open>frames_from\<close>, the
  reference), and a receiver puts them together again in whatever order they arrive. The one
  exception is a datagram whose length is a multiple of 1480: all its frames announce more fragments.
\<close>

text \<open>The pieces of \<open>D\<close>, the part of the datagram from offset \<open>off\<close> on.\<close>

function frames_from :: "u8 list \<Rightarrow> u8 list \<Rightarrow> u16 \<Rightarrow> u8 \<Rightarrow> u32 \<Rightarrow> u32 \<Rightarrow> nat \<Rightarrow> u8 list \<Rightarrow> u8 list list" where
  "frames_from dest src ident proto sip dip off D =
     (if length D < 1480 then [ipv4_frame dest src ident True (of_nat off) proto sip dip D]
      else ipv4_frame dest src ident False (of_nat off) proto sip dip (take 1480 D) #
        (if length D = 1480 then [] else frames_from dest src ident proto sip dip (off + 1480) (drop 1480 D)))"
  by pat_completeness auto
termination by (relation "measure (\<lambda>(_, _, _, _, _, _, _, D). length D)") auto

declare frames_from.simps [simp del]

text \<open>What the network management task does with an outgoing datagram: one call per free buffer until the
  datagram is sent. Here each frame is taken from the same buffer; \<open>None\<close>: the address is not resolved
  or the fuel is used up.\<close>

primrec send_fragments ::
  "nat \<Rightarrow> NetworkStackHandler \<Rightarrow> memory \<Rightarrow> u32 \<Rightarrow> u8 \<Rightarrow> u32 \<Rightarrow> u32 \<Rightarrow> u16 \<Rightarrow> u32 \<Rightarrow> u32 \<Rightarrow> u8 list list option" where
  "send_fragments 0 st m dip proto data len ident off wb = None"
| "send_fragments (Suc n) st m dip proto data len ident off wb =
     (case handleOutgoingIPv4Packet st m dip proto data len ident off wb of
        ((progress, k), ident, off, st, m) \<Rightarrow>
          let sent = (if k = 0 then [] else [load_bytes m wb (unat k)]) in
          if progress = Done then Some sent
          else if progress = SendingFragment
          then map_option ((@) sent) (send_fragments n st m dip proto data len ident off wb)
          else None)"

subsection \<open>The frames of a datagram\<close>

lemma frames_from_all:
  assumes "length dest = 6" "length src = 6" "8 dvd off" "off + length D < 65536" "D \<noteq> []"
    "f \<in> set (frames_from dest src ident proto sip dip off D)"
  shows "(accepted_frame st f \<longleftrightarrow> dip = myIP st \<or> dip = 0xFFFFFFFF) \<and> u16_be (f ! 12) (f ! 13) = 0x0800 \<and>
    length f \<le> RX_BUFFER_SIZE \<and> frame_source f = sip \<and> frame_key f = (sip, dip, ucast ident) \<and> f ! 23 = proto \<and>
    (length D mod 1480 = 0 \<longrightarrow> frame_more f)"
  using assms
proof (induction dest src ident proto sip dip off D rule: frames_from.induct)
  case (1 dest src ident proto sip dip off D)
  have u: "unat (of_nat off :: u32) = off" using 1(5) by (simp add: unat_of_nat_u32)
  show ?case
  proof (cases "length D < 1480")
    case True
    then have f: "f = ipv4_frame dest src ident True (of_nat off) proto sip dip D" using 1(7) by (simp add: frames_from.simps)
    from frame_read(1) [OF 1(2,3) _ _ _ f, of st] frame_read(2-9) [OF 1(2,3) _ _ _ f] u 1(4,5) 1(6) True show ?thesis by (auto simp: frames_from.simps)
  next
    case False
    then consider (first) "f = ipv4_frame dest src ident False (of_nat off) proto sip dip (take 1480 D)"
      | (rest) "length D \<noteq> 1480" "f \<in> set (frames_from dest src ident proto sip dip (off + 1480) (drop 1480 D))"
      using 1(7) by (auto simp: frames_from.simps [of _ _ _ _ _ _ off] split: if_splits)
    then show ?thesis
    proof cases
      case first
      from frame_read(1) [OF 1(2,3) _ _ _ first, of st] frame_read(2-9) [OF 1(2,3) _ _ _ first] u 1(4,5) False show ?thesis by auto
    next
      case rest
      have "8 dvd off + 1480" using 1(4) by (simp add: dvd_add)
      moreover have "(length D - 1480) mod 1480 = length D mod 1480" using False by (simp add: le_mod_geq)
      ultimately show ?thesis using 1(1) [OF False rest(1) 1(2,3) _ _ _ rest(2)] 1(5) False rest(1) by auto
    qed
  qed
qed

lemma frames_from_run:
  assumes "length dest = 6" "length src = 6" "8 dvd off" "off + length D < 65536" "length D mod 1480 \<noteq> 0"
  shows "fragment_run off (frames_from dest src ident proto sip dip off D) \<and>
    concat (map frame_payload (frames_from dest src ident proto sip dip off D)) = D"
  using assms
proof (induction dest src ident proto sip dip off D rule: frames_from.induct)
  case (1 dest src ident proto sip dip off D)
  have u: "unat (of_nat off :: u32) = off" using 1(5) by (simp add: unat_of_nat_u32)
  show ?case
  proof (cases "length D < 1480")
    case True
    from frame_read(4-6) [OF 1(2,3) _ _ _ refl, of D "of_nat off"] u 1(4-6) True show ?thesis
      by (auto simp: frames_from.simps)
  next
    case False
    let ?f = "ipv4_frame dest src ident False (of_nat off) proto sip dip (take 1480 D)"
    let ?fs = "frames_from dest src ident proto sip dip (off + 1480) (drop 1480 D)"
    have more: "length D \<noteq> 1480" using 1(6) by auto
    have "8 dvd off + 1480" using 1(4) by (simp add: dvd_add)
    moreover have "(length D - 1480) mod 1480 \<noteq> 0" using False 1(6) by (simp add: le_mod_geq)
    ultimately have IH: "fragment_run (off + 1480) ?fs \<and> concat (map frame_payload ?fs) = drop 1480 D"
      using 1(1) [OF False more 1(2,3)] 1(5) False by simp
    have f: "frame_payload ?f = take 1480 D" "frame_offset ?f = off" "frame_more ?f"
      using frame_read(4-6) [OF 1(2,3) _ _ _ refl, of "take 1480 D" "of_nat off" ident False] u 1(4,5) False by auto
    obtain g gs where g: "?fs = g # gs" using IH by (cases ?fs) auto
    have "frames_from dest src ident proto sip dip off D = ?f # g # gs"
      using False more g by (simp add: frames_from.simps [of _ _ _ _ _ _ off])
    then show ?thesis using IH f g False by (auto simp: min_def)
  qed
qed

lemma frames_from_many: "1480 \<le> length D \<Longrightarrow> length D mod 1480 \<noteq> 0 \<Longrightarrow> 2 \<le> length (frames_from dest src ident proto sip dip off D)"
  by (subst frames_from.simps, subst frames_from.simps) auto

subsection \<open>The frames that are sent\<close>

lemma append_one: "(@) [x] = (#) x"
  by (rule ext) simp

lemma send_fragments_spec:
  assumes "data \<noteq> 0" "wb \<noteq> 0" and wf: "arp_wf st" "length (myMac st) = 6"
    and res: "\<And>m. \<exists>st1 m1. resolve_arp st m (next_hop st dip) wb = (Resolved i, st1, m1) \<and> arp_MAC (arpEntries st1 ! i) = mac"
    and len: "off < unat len" "unat len < 65536" "8 dvd off" "unat len - off < 1480 * n"
    and ap: "apart data (unat len) wb 1514"
    and id: "id' = (if off = 0 then identificationCounter st else ident)" and mac: "length mac = 6"
  shows "send_fragments (Suc n) st m dip proto data len ident (of_nat off) wb =
    Some (frames_from mac (myMac st) id' proto (myIP st) dip off (load_bytes m (data + of_nat off) (unat len - off)))"
  using wf res len id
proof (induction n arbitrary: st m off ident)
  case (Suc n)
  have u: "unat (of_nat off :: u32) = off" using Suc.prems(4,5) by (simp add: unat_of_nat_u32)
  then have left: "of_nat off < len" "unat (len - of_nat off) = unat len - off"
    using Suc.prems(4) by (simp_all add: word_less_nat_alt unat_sub word_le_nat_alt)
  have off0: "(of_nat off :: u32) = 0 \<longleftrightarrow> off = 0" using u by (auto simp del: of_nat_eq_0_iff)
  define l where "l = (unat len - off < 1480)"
  define k where "k = (if l then unat len - off else 1480)"
  let ?D = "load_bytes m (data + of_nat off) (unat len - off)"
  have l': "l = (len - of_nat off < 1480)" using left(2) by (simp add: l_def word_less_nat_alt)
  have k: "k = (if l then unat (len - of_nat off) else 1480)" using left(2) by (simp add: k_def)
  have id'': "id' = (if of_nat off = (0 :: u32) then identificationCounter st else ident)" using Suc.prems(8) off0 by simp
  have kb: "k \<le> 1480" "off + k \<le> unat len" "0 < k" using Suc.prems(4) by (auto simp: k_def l_def)
  obtain st1 m1 where r: "resolve_arp st m (next_hop st dip) wb = (Resolved i, st1, m1)" "arp_MAC (arpEntries st1 ! i) = mac"
    using Suc.prems(3) by blast
  have ap': "data + of_nat off + of_nat a \<noteq> wb + of_nat j" if "a < k" "j < 34" for a j
  proof -
    have "off + a < unat len" "j < 1514" using that kb by simp_all
    then have "data + of_nat (off + a) \<noteq> wb + of_nat j" using ap unfolding apart_def by blast
    then show ?thesis by (simp add: algebra_simps)
  qed
  let ?F = "ipv4_frame mac (myMac st) id' l (of_nat off) proto (myIP st) dip (load_bytes m (data + of_nat off) k)"
  obtain st2 where st2: "handleOutgoingIPv4Packet st m dip proto data len ident (of_nat off) wb =
      ((if l then Done else SendingFragment, 34 + of_nat k), id', of_nat off + of_nat k, st2, store_bytes m wb ?F)"
    "\<And>m'. resolve_arp st2 m' (next_hop st2 dip) wb = (Resolved i, st2, m')" "arp_wf st2"
    "arp_MAC (arpEntries st2 ! i) = mac" "myMac st2 = myMac st" "myIP st2 = myIP st"
    using outgoing_fragment [OF assms(1,2) left(1) r(1) Suc.prems(1) l' k id'' ap' Suc.prems(2), where proto = proto]
    unfolding r(2) by blast
  have lF: "length ?F = 34 + k" using frame_bytes(1) [OF mac Suc.prems(2) refl] by simp
  have k34: "unat (34 + of_nat k :: u32) = 34 + k" using kb(1) by (simp add: unat_word_ariths unat_of_nat_u32)
  have k0: "(34 + of_nat k :: u32) \<noteq> 0"
  proof
    assume "(34 + of_nat k :: u32) = 0"
    then have "unat (34 + of_nat k :: u32) = 0" by (simp only: unat_0)
    with k34 show False by simp
  qed
  have sent: "load_bytes (store_bytes m wb ?F) wb (34 + k) = ?F"
    using load_store_bytes [of ?F m wb] lF kb(1) by simp
  show ?case
  proof (cases l)
    case True
    then have "?D = load_bytes m (data + of_nat off) k" "length ?D < 1480" by (simp_all add: k_def l_def)
    then show ?thesis using st2(1) True k0 sent k34 by (simp add: frames_from.simps)
  next
    case False
    then have k: "k = 1480" "1480 \<le> unat len - off" by (simp_all add: k_def l_def)
    have D: "take 1480 ?D = load_bytes m (data + of_nat off) 1480"
      "drop 1480 ?D = load_bytes m (data + of_nat (off + 1480)) (unat len - (off + 1480))"
      using load_split [OF k(2)] by (simp_all add: algebra_simps)
    have step: "send_fragments (Suc (Suc n)) st m dip proto data len ident (of_nat off) wb =
        map_option ((#) ?F) (send_fragments (Suc n) st2 (store_bytes m wb ?F) dip proto data len id' (of_nat (off + 1480)) wb)"
      unfolding send_fragments.simps(2) [of "Suc n"] st2(1)
      using False k0 sent k34 k(1) by (simp add: append_one add.commute del: send_fragments.simps)
    show ?thesis
    proof (cases "unat len - off = 1480")
      case True
      then have "len \<le> of_nat (off + 1480)" using Suc.prems(4,5) unfolding word_le_nat_alt
        by (subst unat_of_nat_u32) simp_all
      then have "send_fragments (Suc n) st2 (store_bytes m wb ?F) dip proto data len id' (of_nat (off + 1480)) wb = Some []"
        by (simp add: handleOutgoingIPv4Packet_def)
      then show ?thesis using step D True False k by (simp add: frames_from.simps)
    next
      case more: False
      have "send_fragments (Suc n) st2 (store_bytes m wb ?F) dip proto data len id' (of_nat (off + 1480)) wb =
          Some (frames_from mac (myMac st2) id' proto (myIP st2) dip (off + 1480)
            (load_bytes (store_bytes m wb ?F) (data + of_nat (off + 1480)) (unat len - (off + 1480))))"
      proof (rule Suc.IH)
        show "\<exists>st1 m1. resolve_arp st2 m' (next_hop st2 dip) wb = (Resolved i, st1, m1) \<and> arp_MAC (arpEntries st1 ! i) = mac" for m'
          using st2(2,4) by blast
        show "8 dvd off + 1480" using Suc.prems(6) by (simp add: dvd_add)
      qed (use st2 Suc.prems more k in auto)
      moreover have "load_bytes (store_bytes m wb ?F) (data + of_nat (off + 1480)) (unat len - (off + 1480)) = drop 1480 ?D"
        using load_apart [OF ap, of ?F "off + 1480"] lF kb k D(2) by simp
      moreover have "frames_from mac (myMac st) id' proto (myIP st) dip off ?D = ?F #
          frames_from mac (myMac st) id' proto (myIP st) dip (off + 1480) (drop 1480 ?D)"
        using k more D(1) False by (simp add: frames_from.simps [of _ _ _ _ _ _ off])
      ultimately show ?thesis using step st2(5,6) by simp
    qed
  qed
qed simp

lemma frames_from_few: "length (frames_from dest src ident proto sip dip off D) \<le> length D div 1480 + 1"
proof (induction dest src ident proto sip dip off D rule: frames_from.induct)
  case (1 dest src ident proto sip dip off D)
  have "(length D - 1480) div 1480 + 1 = length D div 1480" if "\<not> length D < 1480"
    using that le_div_geq [of 1480 "length D"] by simp
  then show ?case using 1 by (subst frames_from.simps) auto
qed

lemma resolve_memory:
  assumes "resolve_arp st m hop wb = (Resolved i, st1, m1)"
  shows "resolve_arp st m' hop wb = (Resolved i, st1, m')"
  using assms
  by (auto simp: resolve_arp_def request_again_def sendARPRequest_def Let_def split: option.splits if_splits)

text \<open>The frames of a whole datagram.\<close>

lemma send_datagram:
  assumes ptr: "data \<noteq> 0" "wb \<noteq> 0" and wf: "arp_wf st" "length (myMac st) = 6"
    and r: "resolve_arp st m (next_hop st dip) wb = (Resolved i, st1, m1)"
    and len: "0 < unat len" "unat len < 65536" and ap: "apart data (unat len) wb 1514"
  shows "length (arp_MAC (arpEntries st1 ! i)) = 6" "send_fragments 46 st m dip proto data len ident 0 wb =
    Some (frames_from (arp_MAC (arpEntries st1 ! i)) (myMac st) (identificationCounter st) proto (myIP st) dip 0
      (load_bytes m data (unat len)))"
proof -
  show mac: "length (arp_MAC (arpEntries st1 ! i)) = 6" by (rule resolve_again(4) [OF r wf(1) refl])
  have "send_fragments (Suc 45) st m dip proto data len ident (of_nat 0) wb =
      Some (frames_from (arp_MAC (arpEntries st1 ! i)) (myMac st) (identificationCounter st) proto (myIP st) dip 0
        (load_bytes m (data + of_nat 0) (unat len - 0)))"
    by (rule send_fragments_spec [OF ptr wf _ _ _ _ _ ap _ mac]) (use resolve_memory [OF r] len in auto)
  then show "send_fragments 46 st m dip proto data len ident 0 wb =
      Some (frames_from (arp_MAC (arpEntries st1 ! i)) (myMac st) (identificationCounter st) proto (myIP st) dip 0
        (load_bytes m data (unat len)))"
    by (simp add: eval_nat_numeral del: send_fragments.simps)
qed

end
