(* ===== verification/Network_Properties.thy ===== *)
theory Network_Properties
  imports Network_Task Fragmentation Socket_Properties
begin

text \<open>
  The properties of the network stack handler. Its client, the network management task, sees a queue
  of datagrams: \<open>datagram_queue\<close> is that interface, and the loop that drains it is proved against the
  interface once.
\<close>

subsection \<open>The interface of a queue of datagrams\<close>

text \<open>\<open>rep s Q\<close>: the state \<open>s\<close> stands for the queue \<open>Q\<close>; \<open>item s p x\<close>: the pointer \<open>p\<close> denotes datagram \<open>x\<close>.\<close>

locale datagram_queue =
  fixes rep :: "'s \<Rightarrow> 'd list \<Rightarrow> bool" and front :: "'s \<Rightarrow> 'p option" and pop :: "'s \<Rightarrow> 's option"
    and item :: "'s \<Rightarrow> 'p \<Rightarrow> 'd \<Rightarrow> bool"
  assumes front_empty: "rep s [] \<Longrightarrow> front s = None"
    and front_item: "rep s (x # Q) \<Longrightarrow> \<exists>p. front s = Some p \<and> item s p x"
    and pop_front: "rep s (x # Q) \<Longrightarrow> \<exists>s'. pop s = Some s' \<and> rep s' Q"
begin

text \<open>The loop visits the datagrams in order and leaves an empty queue, whatever the client does with them,
  as long as its invariant \<open>J\<close> over the datagrams handled so far, a prefix of \<open>all\<close>, keeps it from
  faulting.\<close>

lemma drain_all:
  assumes step: "\<And>s p c ys x zs. item s p x \<Longrightarrow> all = ys @ x # zs \<Longrightarrow> J ys c \<Longrightarrow> \<exists>c'. handle s p c = Some c' \<and> J (ys @ [x]) c'"
  shows "rep s Q \<Longrightarrow> all = ys @ Q \<Longrightarrow> J ys c \<Longrightarrow> length Q < n \<Longrightarrow>
    \<exists>s' c'. drain_packets n front pop handle s c = Some (s', c') \<and> rep s' [] \<and> J all c'"
proof (induction Q arbitrary: s c n ys)
  case Nil
  then show ?case using front_empty by (cases n) auto
next
  case (Cons x Q)
  obtain k where n: "n = Suc k" using Cons.prems(4) by (cases n) auto
  obtain p where p: "front s = Some p" "item s p x" using front_item [OF Cons.prems(1)] by blast
  obtain c1 where c1: "handle s p c = Some c1" "J (ys @ [x]) c1" using step [OF p(2) Cons.prems(2,3)] by blast
  obtain s1 where s1: "pop s = Some s1" "rep s1 Q" using pop_front [OF Cons.prems(1)] by blast
  show ?case using Cons.IH [OF s1(2) _ c1(2)] Cons.prems(2,4) n p(1) c1(1) s1(1) by auto
qed

end

text \<open>What a pointer to a readable packet denotes: a complete chain of fragments.\<close>

definition readable :: "NetworkStackHandler \<Rightarrow> nat \<Rightarrow> u32 \<times> u8 \<times> u8 list \<Rightarrow> bool" where
  "readable st p x \<longleftrightarrow> (\<exists>is. fragment_chain (pool_of st) p (p # is) \<and>
      (\<forall>i \<in> set (p # is). packet_ok (pool_of st ! i)) \<and> complete_datagram (pk_at st) (p # is) \<and>
      x = datagram_at st (p # is))"

interpretation nsq: datagram_queue queue_is getLatestIPv4Packet popLatestIPv4Packet readable
proof
  show "queue_is s [] \<Longrightarrow> getLatestIPv4Packet s = None" for s
    using queue_front(1) by blast
  show "queue_is s (x # Q) \<Longrightarrow> \<exists>p. getLatestIPv4Packet s = Some p \<and> readable s p x" for s x Q
    using queue_front [of s "x # Q"] by (cases "getLatestIPv4Packet s") (auto simp: readable_def)
  show "queue_is s (x # Q) \<Longrightarrow> \<exists>s'. popLatestIPv4Packet s = Some s' \<and> queue_is s' Q" for s x Q
    by (rule queue_pop)
qed

subsection \<open>Every reachable state is in order\<close>

text \<open>The steps of the handler: a frame from the network card, whose buffers hold 2048 bytes, a tick of the
  timer, and the calls of the network management task.\<close>

inductive network_step :: "NetworkStackHandler \<Rightarrow> NetworkStackHandler \<Rightarrow> bool" where
  frame: "14 \<le> length data \<Longrightarrow> length data \<le> RX_BUFFER_SIZE \<Longrightarrow> handleIncomingEthernetPacket st data = Some (t, st') \<Longrightarrow>
    network_step st st'"
| tick: "network_step st (incrementTimerCounter st)"
| pop: "popLatestIPv4Packet st = Some st' \<Longrightarrow> network_step st st'"
| send: "handleOutgoingIPv4Packet st m dip proto data len ident off wb = (res, ident', off', st', m') \<Longrightarrow> network_step st st'"

lemma queue_is_new:
  assumes "raw \<noteq> []" "\<forall>e \<in> set raw. length (pData (dl_value e)) = RX_BUFFER_SIZE"
  shows "queue_is (NetworkStackHandler_new a b raw mac ip gw nm) []"
  using NetworkStackHandler_new_inv [of raw] assms unfolding queue_is_def by fastforce

text \<open>One step against the queue: frames append, a pop removes the front, nothing else changes it.\<close>

lemma network_step_queue:
  assumes "network_step st st'" "queue_is st Q"
  shows "\<exists>Q'. queue_is st' Q'"
  using assms
proof (induction rule: network_step.induct)
  case (frame data st t st')
  then show ?case using incoming_total [OF frame(4,1,2)] by auto
next
  case (pop st st')
  then show ?case using queue_pop queue_pop_empty [of st] by (cases Q) fastforce+
qed (auto simp: queue_tick dest!: outgoing_queue)

lemma reachable_queue:
  assumes "raw \<noteq> []" "\<forall>e \<in> set raw. length (pData (dl_value e)) = RX_BUFFER_SIZE"
    and "network_step\<^sup>*\<^sup>* (NetworkStackHandler_new a b raw mac ip gw nm) st"
  shows "\<exists>Q. queue_is st Q"
  using assms(3)
proof (induction rule: rtranclp_induct)
  case base
  show ?case using queue_is_new [OF assms(1,2)] by blast
next
  case (step y z)
  then show ?case using network_step_queue by blast
qed

text \<open>C31. Whatever frames of 14 to 2048 bytes arrive, however time passes and the network management task
  sends and reads: the handler never follows a bad pointer or overruns a buffer on the next frame or
  pop, and the packet it offers for reading is a complete chain of fragments without cycle, each of which
  fits its buffer.\<close>

theorem network_never_faults:
  assumes "raw \<noteq> []" "\<forall>e \<in> set raw. length (pData (dl_value e)) = RX_BUFFER_SIZE"
    and "network_step\<^sup>*\<^sup>* (NetworkStackHandler_new a b raw mac ip gw nm) st"
  shows "(14 \<le> length data \<and> length data \<le> RX_BUFFER_SIZE \<longrightarrow> handleIncomingEthernetPacket st data \<noteq> None) \<and>
    popLatestIPv4Packet st \<noteq> None \<and>
    (\<forall>p. getLatestIPv4Packet st = Some p \<longrightarrow> (\<exists>is. fragment_chain (pool_of st) p (p # is) \<and>
       (\<forall>i \<in> set (p # is). packet_ok (pool_of st ! i)) \<and> complete_datagram (pk_at st) (p # is)))"
proof -
  obtain Q where q: "queue_is st Q" using reachable_queue [OF assms] by blast
  have "popLatestIPv4Packet st \<noteq> None" using q queue_pop queue_pop_empty by (cases Q) fastforce+
  then show ?thesis using incoming_total [OF q] queue_front(2) [OF q] by fastforce
qed

definition demo_pool :: "nat \<Rightarrow> IPv4Packet dl_array" where
  "demo_pool n = replicate n \<lparr>dl_value = \<lparr>sourceIP = 0, destIP = 0, dataSize = 0, protocol = 0, moreFragments = False,
     fragmentOffset = 0, identification = 0, nextFragment = None, createdTime = 0, pData = replicate 2048 0\<rparr>,
     dl_next = None, dl_prev = None\<rparr>"

definition demo_stack :: NetworkStackHandler where
  "demo_stack = NetworkStackHandler_new 1 1 (demo_pool 50) [1, 2, 3, 4, 5, 6] 0x0A000002 0x0A000001 24"

lemma demo_pool_ok: "demo_pool 50 \<noteq> []" "\<forall>e \<in> set (demo_pool 50). length (pData (dl_value e)) = RX_BUFFER_SIZE"
  by (simp_all add: demo_pool_def)

lemma demo_stack_inv: "ns_inv demo_stack [] [0..<50] [] []"
  using NetworkStackHandler_new_inv [OF demo_pool_ok(1), of 1 1] demo_pool_ok(2)
  by (simp add: demo_stack_def demo_pool_def)

lemma network_never_faults_witness: "popLatestIPv4Packet (incrementTimerCounter demo_stack) \<noteq> None"
  using network_never_faults [OF demo_pool_ok, of 1 1 "[1, 2, 3, 4, 5, 6]" "0x0A000002" "0x0A000001" 24
      "incrementTimerCounter demo_stack" "[]"] network_step.tick [of demo_stack]
  by (auto simp: demo_stack_def)

subsection \<open>Datagrams in one frame\<close>

text \<open>A frame of each kind and what happens to the queue.\<close>

lemma accepted_queue:
  assumes inv: "ns_inv st H U I R" and acc: "accepted_frame st f" "u16_be (f ! 12) (f ! 13) = 0x0800" "length f \<le> RX_BUFFER_SIZE"
    and room: "unusedPacketsHead st \<noteq> None \<or> incompleteFragmentedDatagramsHead st \<noteq> None" and whole: "whole_frame f"
  shows "\<exists>st'. handleIncomingEthernetPacket st f = Some (IPv4PacketType, st') \<and>
    queue_is st' (map (datagram_at st) R @ [(frame_source f, f ! 23, frame_payload f)])"
proof -
  have pool: "packet_pool st H U I R" using inv by (simp add: ns_inv_def)
  have len: "14 \<le> length f" using acc(1) by (simp add: accepted_frame_def Let_def)
  obtain st' where st': "incomingIPv4PacketHelper st f = Some (IPv4PacketType, st')" "ipv4_effect st f H U I R st'"
    using incoming_ipv4_spec [OF pool acc(3,1)] by blast
  have "U \<noteq> [] \<or> I \<noteq> []" using room packet_poolD(1,2) [OF pool refl] by auto
  with ipv4_effect_inv [OF inv st'(2) acc(1,3)] whole obtain H' U' I' R' where
    "ns_inv st' H' U' I' (R @ R')" "map (datagram_at st') R = map (datagram_at st) R"
    "map (datagram_at st') R' = [(frame_source f, f ! 23, frame_payload f)]" by metis
  then have "queue_is st' (map (datagram_at st) R @ [(frame_source f, f ! 23, frame_payload f)])"
    unfolding queue_is_def by (metis map_append)
  then show ?thesis using st'(1) acc(2) len by (simp add: handleIncomingEthernetPacket_def Let_def)
qed

text \<open>An IPv4 frame to this machine that is not a fragment appends its payload to the queue of readable
  datagrams, behind those already there, as long as one packet element does not hold a readable
  packet; other frames that are not accepted leave the queue as it is.\<close>

theorem frame_queued:
  assumes "queue_is st Q" "length f \<le> RX_BUFFER_SIZE" "14 \<le> length f"
    and "unusedPacketsHead st \<noteq> None \<or> incompleteFragmentedDatagramsHead st \<noteq> None"
  shows "\<exists>t st'. handleIncomingEthernetPacket st f = Some (t, st') \<and>
    (if u16_be (f ! 12) (f ! 13) = 0x0800 \<and> accepted_frame st f
     then whole_frame f \<longrightarrow> t = IPv4PacketType \<and> queue_is st' (Q @ [(frame_source f, f ! 23, frame_payload f)])
     else t \<noteq> IPv4PacketType \<and> queue_is st' Q)"
proof (cases "u16_be (f ! 12) (f ! 13) = 0x0800 \<and> accepted_frame st f")
  case True
  obtain H U I R where "ns_inv st H U I R" "Q = map (datagram_at st) R" using assms(1) by (auto simp: queue_is_def)
  with True accepted_queue [OF _ _ _ assms(2,4)] incoming_total [OF assms(1,3,2)] show ?thesis by fastforce
next
  case False
  have arp: "fst (incomingARPPacketHelper st f) \<noteq> IPv4PacketType" by (simp add: incomingARPPacketHelper_def Let_def)
  consider (ipv4) "u16_be (f ! 12) (f ! 13) = 0x0800" "\<not> accepted_frame st f" | (arp) "u16_be (f ! 12) (f ! 13) = 0x0806"
    | (other) "u16_be (f ! 12) (f ! 13) \<noteq> 0x0800" "u16_be (f ! 12) (f ! 13) \<noteq> 0x0806" using False by blast
  then show ?thesis
  proof cases
    case ipv4
    then show ?thesis using incoming_ipv4_rejected [OF ipv4(2)] assms(1,3) by (auto simp: handleIncomingEthernetPacket_def Let_def)
  next
    case arp
    then show ?thesis using assms(1,3) queue_arp [of st f] \<open>fst (incomingARPPacketHelper st f) \<noteq> IPv4PacketType\<close>
      by (cases "incomingARPPacketHelper st f") (simp add: handleIncomingEthernetPacket_def Let_def)
  next
    case other
    then show ?thesis using assms(1,3) by (simp add: handleIncomingEthernetPacket_def Let_def)
  qed
qed

definition demo_frame :: "bool \<Rightarrow> u32 \<Rightarrow> u8 list \<Rightarrow> u8 list" where
  "demo_frame l off payload = ipv4_frame [1, 2, 3, 4, 5, 6] [6, 5, 4, 3, 2, 1] 7 l off 17 0x0A000009 0x0A000002 payload"

lemma demo_frame_read:
  assumes "length payload \<le> 1480" "unat off < 65536" "8 dvd unat off"
  shows "accepted_frame demo_stack (demo_frame l off payload)"
    "u16_be (demo_frame l off payload ! 12) (demo_frame l off payload ! 13) = 0x0800"
    "length (demo_frame l off payload) \<le> RX_BUFFER_SIZE" "frame_payload (demo_frame l off payload) = payload"
    "frame_offset (demo_frame l off payload) = unat off" "frame_more (demo_frame l off payload) \<longleftrightarrow> \<not> l"
    "frame_source (demo_frame l off payload) = 0x0A000009" "demo_frame l off payload ! 23 = 17"
    "frame_key (demo_frame l off payload) = (0x0A000009, 0x0A000002, 7)"
  using frame_read(1) [OF _ _ assms demo_frame_def, of demo_stack] frame_read(2-9) [OF _ _ assms demo_frame_def]
  by (simp_all add: demo_stack_def NetworkStackHandler_new_def)

lemma demo_frame_length: "length (demo_frame l off payload) = 34 + length payload"
  unfolding demo_frame_def by (rule frame_bytes(1) [OF _ _ refl]) simp_all

lemma frame_queued_witness:
  "\<exists>st'. handleIncomingEthernetPacket demo_stack (demo_frame True 0 [42]) = Some (IPv4PacketType, st') \<and>
    queue_is st' [(0x0A000009, 17, [42])]"
proof -
  have q: "queue_is demo_stack []" using demo_stack_inv unfolding queue_is_def by fastforce
  have w: "whole_frame (demo_frame True 0 [42])"
    by (simp add: whole_frame_def demo_frame_def ipv4_frame_def ethernet_header_def ipv4_header_def Let_def byte_at_def)
  have room: "unusedPacketsHead demo_stack \<noteq> None \<or> incompleteFragmentedDatagramsHead demo_stack \<noteq> None"
    by (simp add: demo_stack_def NetworkStackHandler_new_def)
  have f: "accepted_frame demo_stack (demo_frame True 0 [42])"
    "u16_be (demo_frame True 0 [42] ! 12) (demo_frame True 0 [42] ! 13) = 0x0800"
    "frame_source (demo_frame True 0 [42]) = 0x0A000009" "demo_frame True 0 [42] ! 23 = 17"
    "frame_payload (demo_frame True 0 [42]) = [42]" by (rule demo_frame_read; simp)+
  have "length (demo_frame True 0 [42]) = 35" by (simp add: demo_frame_length)
  with frame_queued [OF q _ _ room, of "demo_frame True 0 [42]"] f w show ?thesis by auto
qed

subsection \<open>Fragmented datagrams\<close>

text \<open>C32. The frames of a fragmented datagram, received in any order and however the incomplete datagrams of
  other senders lie around, append exactly one datagram to the queue: their payloads in the order of
  their offsets. It takes as many unused elements as there are frames and no incomplete datagram with
  the same source, destination and identification.\<close>

theorem reassembly_any_order:
  assumes "ns_inv st H U I R" "datagram_frames st fs" "mset ps = mset fs" "length fs \<le> length U"
    and "\<forall>k \<in> set I. alive st k \<longrightarrow> packet_key (pk_at st (hd k)) \<noteq> frame_key (hd fs)"
    and "0 \<le> ns_timerCounter st" "ns_timerCounter st \<le> 2147483647"
  shows "\<exists>st'. receive_all ps st = Some st' \<and>
    queue_is st' (map (datagram_at st) R @ [(frame_source (hd fs), hd fs ! 23, concat (map frame_payload fs))])"
  by (rule reassembly [OF assms])

lemma reassembly_any_order_witness:
  "\<exists>st'. receive_all [demo_frame True 8 [42], demo_frame False 0 [1, 2, 3, 4, 5, 6, 7, 8]] demo_stack = Some st' \<and>
    queue_is st' [(0x0A000009, 17, [1, 2, 3, 4, 5, 6, 7, 8, 42])]"
proof -
  let ?a = "demo_frame False 0 [1, 2, 3, 4, 5, 6, 7, 8]" and ?b = "demo_frame True 8 [42]"
  note a = demo_frame_read [of "[1, 2, 3, 4, 5, 6, 7, 8]" 0 False, simplified]
  note b = demo_frame_read [of "[42]" 8 True, simplified]
  have "datagram_frames demo_stack [?a, ?b]" using a b by (simp add: datagram_frames_def)
  moreover have "mset [?b, ?a] = mset [?a, ?b]" by simp
  moreover have "ns_timerCounter demo_stack = 0" by (simp add: demo_stack_def NetworkStackHandler_new_def)
  ultimately show ?thesis using reassembly_any_order [OF demo_stack_inv] a b by fastforce
qed

text \<open>A datagram of a sender and the receiver it is for.\<close>

lemma sent_datagram_frames:
  assumes mac: "length mac = 6" "length src = 6" and D: "1480 < length D" "length D < 65536" "length D mod 1480 \<noteq> 0"
    and dip: "dip = myIP rst \<or> dip = 0xFFFFFFFF" and fs: "fs = frames_from mac src ident proto sip dip 0 D"
  shows "datagram_frames rst fs" "frame_key (hd fs) = (sip, dip, ucast ident)" "frame_source (hd fs) = sip"
    "hd fs ! 23 = proto" "concat (map frame_payload fs) = D"
proof -
  have D0: "D \<noteq> []" using D(1) by auto
  have run: "fragment_run 0 fs" "concat (map frame_payload fs) = D"
    using frames_from_run [OF mac, of 0 D] D by (simp_all add: fs)
  have many: "2 \<le> length fs" using frames_from_many [of D] D by (simp add: fs)
  then have h: "hd fs \<in> set fs" by (cases fs) auto
  have "accepted_frame rst f \<and> u16_be (f ! 12) (f ! 13) = 0x0800 \<and> length f \<le> RX_BUFFER_SIZE \<and>
      frame_source f = sip \<and> frame_key f = (sip, dip, ucast ident) \<and> f ! 23 = proto" if "f \<in> set fs" for f
    using frames_from_all [OF mac _ _ _ that [unfolded fs], of rst] D(1,2) dip D0 by auto
  with run many h show "datagram_frames rst fs" "frame_key (hd fs) = (sip, dip, ucast ident)" "frame_source (hd fs) = sip"
    "hd fs ! 23 = proto" "concat (map frame_payload fs) = D"
    by (simp_all add: datagram_frames_def)
qed

text \<open>C33. A datagram that is sent in fragments arrives: when the address of the next hop is resolved, at most
  46 calls of \<open>handleOutgoingIPv4Packet\<close> produce its frames, and a receiver with room that gets these
  frames in any order queues a datagram with the sender's address and exactly the bytes that were
  sent. This holds for lengths that are not a multiple of 1480 bytes.\<close>

theorem fragmentation_roundtrip:
  assumes "data \<noteq> 0" "wb \<noteq> 0" "arp_wf st" "length (myMac st) = 6"
    and "resolve_arp st m (next_hop st dip) wb = (Resolved i, st1, m1)"
    and "1480 < unat len" "unat len < 65536" "unat len mod 1480 \<noteq> 0" "apart data (unat len) wb 1514"
    and "ns_inv rst H U I R" "46 \<le> length U" "dip = myIP rst \<or> dip = 0xFFFFFFFF"
    and "\<forall>k \<in> set I. alive rst k \<longrightarrow> packet_key (pk_at rst (hd k)) \<noteq> (myIP st, dip, ucast (identificationCounter st))"
    and "0 \<le> ns_timerCounter rst" "ns_timerCounter rst \<le> 2147483647"
  shows "\<exists>fs. send_fragments 46 st m dip proto data len ident 0 wb = Some fs \<and>
    (\<forall>ps. mset ps = mset fs \<longrightarrow> (\<exists>rst'. receive_all ps rst = Some rst' \<and>
       queue_is rst' (map (datagram_at rst) R @ [(myIP st, proto, load_bytes m data (unat len))])))"
proof -
  define D where "D = load_bytes m data (unat len)"
  define fs where "fs = frames_from (arp_MAC (arpEntries st1 ! i)) (myMac st) (identificationCounter st) proto (myIP st) dip 0 D"
  have "0 < unat len" using assms(6) by simp
  note s = send_datagram(1) [OF assms(1-5) this assms(7,9)]
    send_datagram(2) [OF assms(1-5) this assms(7,9), of proto ident, folded D_def, folded fs_def]
  have "1480 < length D" "length D < 65536" "length D mod 1480 \<noteq> 0" using assms(6-8) by (simp_all add: D_def)
  note f = sent_datagram_frames [OF s(1) assms(4) this assms(12) fs_def]
  have "length fs \<le> length D div 1480 + 1" unfolding fs_def by (rule frames_from_few)
  also have "\<dots> \<le> length U" using assms(7,11) by (simp add: D_def)
  finally have "length fs \<le> length U" .
  from reassembly [OF assms(10) f(1) _ this _ assms(14,15)] assms(13) f(2-5) s(2) show ?thesis
    by (simp add: D_def)
qed

definition demo_sender :: NetworkStackHandler where
  "demo_sender = (NetworkStackHandler_new 1 1 (demo_pool 1) [6, 5, 4, 3, 2, 1] 0x0A000009 0x0A000001 24)
     \<lparr>arpEntries := [\<lparr>arp_IP = 0x0A000002, lastUsed = 0, lastRequested = 0, lastAnswered = 0, arp_MAC = [1, 2, 3, 4, 5, 6]\<rparr>]\<rparr>"

lemma demo_sender_facts:
  "arp_wf demo_sender" "length (myMac demo_sender) = 6" "myIP demo_sender = 0x0A000009"
  "resolve_arp demo_sender m (next_hop demo_sender 0x0A000002) wb = (Resolved 0, demo_sender, m)"
proof -
  show "arp_wf demo_sender" "length (myMac demo_sender) = 6" "myIP demo_sender = 0x0A000009"
    by (simp_all add: demo_sender_def arp_wf_def NetworkStackHandler_new_def)
  have hop: "next_hop demo_sender 0x0A000002 = 0x0A000002"
    by (simp add: next_hop_def demo_sender_def NetworkStackHandler_new_def Let_def mask_eq_exp_minus_1)
  show "resolve_arp demo_sender m (next_hop demo_sender 0x0A000002) wb = (Resolved 0, demo_sender, m)"
    unfolding hop by (simp add: resolve_arp_def demo_sender_def NetworkStackHandler_new_def Let_def set_arp_def passedTimeSince_def)
qed

lemma fragmentation_roundtrip_witness:
  "\<exists>fs. send_fragments 46 demo_sender (\<lambda>_. 3) 0x0A000002 17 4096 1500 0 0 65536 = Some fs \<and>
    (\<exists>rst'. receive_all (rev fs) demo_stack = Some rst' \<and>
       queue_is rst' [(0x0A000009, 17, load_bytes (\<lambda>_. 3) 4096 1500)])"
proof -
  have ap: "apart 4096 (unat (1500 :: u32)) 65536 1514" by (rule apart_intervals) simp_all
  have env: "0x0A000002 = myIP demo_stack \<or> 0x0A000002 = (0xFFFFFFFF :: u32)" "0 \<le> ns_timerCounter demo_stack"
    "ns_timerCounter demo_stack \<le> 2147483647" by (simp_all add: demo_stack_def NetworkStackHandler_new_def)
  have len: "1480 < unat (1500 :: u32)" "unat (1500 :: u32) < 65536" "unat (1500 :: u32) mod 1480 \<noteq> 0" "unat (1500 :: u32) = 1500"
    by simp_all
  have ptr: "(4096 :: u32) \<noteq> 0" "(65536 :: u32) \<noteq> 0" by simp_all
  have none: "\<forall>k \<in> set []. alive demo_stack k \<longrightarrow> packet_key (pk_at demo_stack (hd k)) \<noteq> ip" "46 \<le> length [0..<50]" for ip by simp_all
  obtain fs where fs: "send_fragments 46 demo_sender (\<lambda>_. 3) 0x0A000002 17 4096 1500 0 0 65536 = Some fs"
    "\<forall>ps. mset ps = mset fs \<longrightarrow> (\<exists>rst'. receive_all ps demo_stack = Some rst' \<and>
       queue_is rst' (map (datagram_at demo_stack) [] @ [(myIP demo_sender, 17, load_bytes (\<lambda>_. 3) 4096 (unat (1500 :: u32)))]))"
    using fragmentation_roundtrip [OF ptr demo_sender_facts(1,2,4) len(1-3) ap demo_stack_inv none(2) env(1) none(1) env(2,3)]
    by blast
  show ?thesis using fs(2) [rule_format, of "rev fs", unfolded mset_rev, OF refl] fs(1)
    unfolding demo_sender_facts(3) len(4) list.map append_Nil by blast
qed

text \<open>When the length of a datagram is a multiple of 1480, every frame that is sent for it announces more
  fragments, so that no receiver ever finds the last one.\<close>

theorem full_frames_never_last:
  assumes "data \<noteq> 0" "wb \<noteq> 0" "arp_wf st" "length (myMac st) = 6"
    and "resolve_arp st m (next_hop st dip) wb = (Resolved i, st1, m1)"
    and "0 < unat len" "unat len < 65536" "unat len mod 1480 = 0" "apart data (unat len) wb 1514"
  shows "\<exists>fs. send_fragments 46 st m dip proto data len ident 0 wb = Some fs \<and> fs \<noteq> [] \<and> (\<forall>f \<in> set fs. frame_more f)"
proof -
  note s = send_datagram(1) [OF assms(1-7,9)] send_datagram(2) [OF assms(1-7,9), of proto ident]
  have D: "load_bytes m data (unat len) \<noteq> []" using assms(6) by (metis length_load_bytes list.size(3) neq0_conv)
  have "frames_from mac src ident proto sip dip off D \<noteq> []" for mac src ident proto sip dip off D
    by (subst frames_from.simps) simp
  moreover have "frame_more f" if "f \<in> set (frames_from (arp_MAC (arpEntries st1 ! i)) (myMac st) (identificationCounter st)
      proto (myIP st) dip 0 (load_bytes m data (unat len)))" for f
    using frames_from_all [OF s(1) assms(4) _ _ D that] assms(7,8) by simp
  ultimately show ?thesis using s(2) by blast
qed

lemma full_frames_never_last_witness:
  "\<exists>fs. send_fragments 46 demo_sender (\<lambda>_. 3) 0x0A000002 17 4096 1480 0 0 65536 = Some fs \<and> fs \<noteq> [] \<and> (\<forall>f \<in> set fs. frame_more f)"
proof -
  have "apart 4096 (unat (1480 :: u32)) 65536 1514" by (rule apart_intervals) simp_all
  moreover have "0 < unat (1480 :: u32)" "unat (1480 :: u32) < 65536" "unat (1480 :: u32) mod 1480 = 0"
    "(4096 :: u32) \<noteq> 0" "(65536 :: u32) \<noteq> 0" by simp_all
  ultimately show ?thesis by (intro full_frames_never_last [OF _ _ demo_sender_facts(1,2,4)])
qed

end
