(* ===== verification/Reception.thy ===== *)
theory Reception
  imports Network_Properties
begin

text \<open>
  From the network to the sockets: the loop of the network management task that hands readable
  datagrams to the socket manager, over the queue of the network stack handler.
\<close>

text \<open>A queue of UDP datagrams: the first fragment of each holds the UDP header.\<close>

definition udp_queue :: "NetworkStackHandler \<Rightarrow> (u32 \<times> u8 \<times> u8 list) list \<Rightarrow> bool" where
  "udp_queue st Q \<longleftrightarrow> (\<exists>H U I R. ns_inv st H U I R \<and> Q = map (datagram_at st) R \<and>
     (\<forall>c \<in> set R. protocol (pk_at st (hd c)) = 17 \<and> 8 \<le> unat (dataSize (pk_at st (hd c)))))"

definition udp_readable :: "NetworkStackHandler \<Rightarrow> nat \<Rightarrow> u32 \<times> u8 \<times> u8 list \<Rightarrow> bool" where
  "udp_readable st p x \<longleftrightarrow> (\<exists>is. udp_packet (pool_of st) p is \<and> x = datagram_at st (p # is))"

interpretation udpq: datagram_queue udp_queue getLatestIPv4Packet popLatestIPv4Packet udp_readable
proof
  show "udp_queue s [] \<Longrightarrow> getLatestIPv4Packet s = None" for s
    using queue_front(1) [of s "[]"] by (fastforce simp: udp_queue_def queue_is_def)
  show "\<exists>p. getLatestIPv4Packet s = Some p \<and> udp_readable s p x" if q: "udp_queue s (x # Q)" for s x Q
  proof -
    obtain H U I c R where c: "ns_inv s H U I (c # R)" "x = datagram_at s c" "protocol (pk_at s (hd c)) = 17"
      "8 \<le> unat (dataSize (pk_at s (hd c)))" using q by (auto simp: udp_queue_def Cons_eq_map_conv)
    obtain p "is" where p: "c = p # is" "getLatestIPv4Packet s = Some p" "fragment_chain (pool_of s) p (p # is)"
      "\<forall>i \<in> set (p # is). packet_ok (pool_of s ! i)" by (rule ready_front [OF c(1)])
    have "pool_of s ! p = pk_at s p" using p(3) by (simp add: fragment_chain_def pool_of_def)
    then have "udp_packet (pool_of s) p is" using p c(3,4) by (simp add: udp_packet_def)
    then show ?thesis using p(1,2) c(2) by (auto simp: udp_readable_def)
  qed
  show "\<exists>s'. popLatestIPv4Packet s = Some s' \<and> udp_queue s' Q" if q: "udp_queue s (x # Q)" for s x Q
  proof -
    obtain H U I c R where c: "ns_inv s H U I (c # R)" "Q = map (datagram_at s) R"
      "\<forall>c \<in> set R. protocol (pk_at s (hd c)) = 17 \<and> 8 \<le> unat (dataSize (pk_at s (hd c)))"
      using q by (auto simp: udp_queue_def Cons_eq_map_conv)
    from pop_inv [OF c(1)] obtain s' where "popLatestIPv4Packet s = Some s'" "ns_inv s' H (c @ U) I R"
      "\<forall>j. pk_at s' j = pk_at s j" "map (datagram_at s') R = map (datagram_at s) R" by blast
    then show ?thesis using c(2,3) unfolding udp_queue_def by metis
  qed
qed

lemma queue_length:
  assumes "queue_is st Q"
  shows "length Q \<le> length (packetListElements st)"
proof -
  obtain H U I R where inv: "ns_inv st H U I R" and Q: "Q = map (datagram_at st) R" using assms by (auto simp: queue_is_def)
  then have pool: "packet_pool st H U I R" by (simp add: ns_inv_def)
  note d = packet_poolD [OF pool refl]
  have ne: "\<forall>c \<in> set R. c \<noteq> []" using inv by (auto simp: ns_inv_def complete_datagram_def)
  have "length R \<le> length (concat R)" using ne
    by (induction R) (auto simp: Suc_le_eq intro: add_strict_increasing)
  also have "\<dots> = card (set (concat R))" using d(6) distinct_card [of "concat R"] by simp
  also have "\<dots> \<le> card {..<length (packetListElements st)}" using d(7) by (intro card_mono) auto
  finally show ?thesis by (simp add: Q)
qed

lemma udp_queue_is: "udp_queue st Q \<Longrightarrow> queue_is st Q"
  by (auto simp: udp_queue_def queue_is_def)

subsection \<open>Delivery of all datagrams\<close>

text \<open>What a task finds in its receive buffer for a datagram.\<close>

definition delivered :: "u32 \<times> u8 \<times> u8 list \<Rightarrow> u32 \<times> u16 \<times> u8 list" where
  "delivered x = (case x of (ip, _, D) \<Rightarrow> (ip, udp_sourcePort D, drop 8 D))"

definition for_port :: "nat \<Rightarrow> u32 \<times> u8 \<times> u8 list \<Rightarrow> bool" where
  "for_port p x \<longleftrightarrow> unat (udp_destinationPort (snd (snd x))) = p \<and> length (snd (snd x)) = unat (udp_length (snd (snd x)))"

definition total_size :: "(u32 \<times> u8 \<times> u8 list) list \<Rightarrow> nat" where
  "total_size Q = sum_list (map (\<lambda>x. length (snd (snd x))) Q)"

lemma deliver_one:
  assumes x: "udp_readable st q x" and port: "for_port p x" and inv: "sm_inv sm" "port_owner sm p = Some (t, s)"
    and rec: "received sm m t s base pkts" and room: "length (snd (snd x)) + 8 \<le> unat (sd_receiveBufferSize (sock sm t s))"
  shows "\<exists>sm' m'. handleReceivedPacket_run st q (sm, m) = Some (sm', m') \<and> sm_inv sm' \<and> port_owner sm' = port_owner sm \<and>
    received sm' m' t s base (pkts @ [delivered x]) \<and>
    unat (sd_receiveBufferSize (sock sm' t s)) = unat (sd_receiveBufferSize (sock sm t s)) - length (snd (snd x))"
proof -
  obtain "is" where udp: "udp_packet (pool_of st) q is" "x = datagram_at st (q # is)" using x by (auto simp: udp_readable_def)
  let ?D = "datagram (pool_of st) (q # is)"
  have ql: "pool_of st ! q = pk_at st q" using udp_packet_pool [OF udp(1)] by (simp add: pool_of_def)
  have D: "snd (snd x) = ?D" "delivered x = (sourceIP (pool_of st ! q), udp_sourcePort ?D, drop 8 ?D)"
    using ql by (simp_all add: udp(2) datagram_at_def delivered_def del: datagram_Cons)
  have "port_owner sm (unat (udp_destinationPort ?D)) = Some (t, s)" "length ?D = unat (udp_length ?D)"
    using port inv(2) by (simp_all add: for_port_def D(1))
  from received_delivered [OF udp(1) inv(1) refl this room [unfolded D(1)] rec]
  show ?thesis unfolding handleReceivedPacket_run_def prod.case D by metis
qed

lemma receive_all_datagrams:
  assumes q: "udp_queue st Q" and inv: "sm_inv sm" "port_owner sm p = Some (t, s)" and port: "\<forall>x \<in> set Q. for_port p x"
    and rec: "received sm m t s base pkts" and room: "total_size Q + 8 \<le> unat (sd_receiveBufferSize (sock sm t s))"
  shows "\<exists>st' sm' m'. receive_packets st (sm, m) = Some (st', sm', m') \<and> udp_queue st' [] \<and> sm_inv sm' \<and>
    port_owner sm' = port_owner sm \<and> received sm' m' t s base (pkts @ map delivered Q)"
proof -
  define J where "J ys c \<longleftrightarrow> sm_inv (fst c) \<and> port_owner (fst c) = port_owner sm \<and>
      received (fst c) (snd c) t s base (pkts @ map delivered ys) \<and>
      unat (sd_receiveBufferSize (sock (fst c) t s)) + total_size ys = unat (sd_receiveBufferSize (sock sm t s))"
    for ys and c :: "SocketManager \<times> memory"
  have step: "\<exists>c'. handleReceivedPacket_run st1 q1 c = Some c' \<and> J (ys @ [x]) c'"
    if "udp_readable st1 q1 x" "Q = ys @ x # zs" "J ys c" for st1 q1 c ys x zs
  proof -
    note item = that(1)
    have c: "sm_inv (fst c)" "port_owner (fst c) = port_owner sm" "received (fst c) (snd c) t s base (pkts @ map delivered ys)"
      "unat (sd_receiveBufferSize (sock (fst c) t s)) + total_size ys = unat (sd_receiveBufferSize (sock sm t s))"
      using that(3) by (auto simp: J_def)
    have "for_port p x" using port that(2) by simp
    moreover have size: "length (snd (snd x)) + 8 \<le> unat (sd_receiveBufferSize (sock (fst c) t s))"
      using room c(4) that(2) by (simp add: total_size_def)
    ultimately obtain sm' m' where "handleReceivedPacket_run st1 q1 (fst c, snd c) = Some (sm', m')" "sm_inv sm'"
      "port_owner sm' = port_owner (fst c)" "received sm' m' t s base ((pkts @ map delivered ys) @ [delivered x])"
      "unat (sd_receiveBufferSize (sock sm' t s)) = unat (sd_receiveBufferSize (sock (fst c) t s)) - length (snd (snd x))"
      using deliver_one [OF item _ c(1) _ c(3)] inv(2) c(2) by metis
    then show ?thesis using c(2,4) size by (intro exI [of _ "(sm', m')"]) (simp add: J_def total_size_def)
  qed
  have "J [] (sm, m)" using inv rec by (simp add: J_def total_size_def)
  have "\<exists>st' c'. receive_packets st (sm, m) = Some (st', c') \<and> udp_queue st' [] \<and> J Q c'"
    unfolding receive_packets_def
    by (rule udpq.drain_all [where all = Q and ys = "[]" and J = J], erule (2) step)
      (use \<open>J [] (sm, m)\<close> q queue_length [OF udp_queue_is [OF q]] in \<open>simp_all add: less_Suc_eq_le\<close>)
  then obtain st' c' where "receive_packets st (sm, m) = Some (st', c')" "udp_queue st' []" "J Q c'" by blast
  then show ?thesis unfolding J_def by (cases c') auto
qed

text \<open>C34. One pass over the readable datagrams delivers them all: when the queue holds UDP datagrams for a
  port whose owner has room for them, the loop ends, the queue is empty, and the owner's receive
  buffer holds the datagrams that were queued, in the order in which they became readable, behind
  those received before.\<close>

theorem receive_packets_deliver:
  assumes "udp_queue st Q" "sm_inv sm" "port_owner sm p = Some (t, s)" "\<forall>x \<in> set Q. for_port p x"
    and "received sm m t s base pkts" "total_size Q + 8 \<le> unat (sd_receiveBufferSize (sock sm t s))"
  shows "\<exists>st' sm' m'. receive_packets st (sm, m) = Some (st', sm', m') \<and> udp_queue st' [] \<and> sm_inv sm' \<and>
    port_owner sm' = port_owner sm \<and> received sm' m' t s base (pkts @ map delivered Q)"
  by (rule receive_all_datagrams [OF assms])

definition demo_ready :: NetworkStackHandler where
  "demo_ready = (NetworkStackHandler_new 1 1 [\<lparr>dl_value = demo_packet, dl_next = None, dl_prev = None\<rparr>]
       [1, 2, 3, 4, 5, 6] 0x0A000002 0x0A000001 24)
     \<lparr>unusedPacketsHead := None, readyToReadPacketsHead := Some 0, readyToReadPacketsTail := Some 0\<rparr>"

lemma demo_ready_queue: "udp_queue demo_ready [(0x0A000001, 17, [0, 99, 0, 80, 0, 10, 0, 0, 42, 43])]"
proof -
  have "packet_pool demo_ready [] [] [] [[0]]"
    by (simp add: packet_pool_def demo_ready_def NetworkStackHandler_new_def chain_def frag_def nxt_def prv_def demo_packet_def Let_def)
  then have "ns_inv demo_ready [] [] [] [[0]]"
    by (simp add: ns_inv_def complete_datagram_def demo_ready_def NetworkStackHandler_new_def demo_packet_def)
  moreover have "datagram_at demo_ready [0] = (0x0A000001, 17, [0, 99, 0, 80, 0, 10, 0, 0, 42, 43])"
    by (simp add: datagram_at_def datagram_def fragment_bytes_def pool_of_def demo_ready_def NetworkStackHandler_new_def demo_packet_def)
  moreover have "protocol (pk_at demo_ready 0) = 17" "8 \<le> unat (dataSize (pk_at demo_ready 0))"
    by (simp_all add: demo_ready_def NetworkStackHandler_new_def demo_packet_def)
  ultimately show ?thesis unfolding udp_queue_def
    by (intro exI [of _ "[]"] exI [of _ "[[0]]"]) simp
qed

lemma receive_packets_deliver_witness:
  "\<exists>st' sm' m'. receive_packets demo_ready (demo_sm, \<lambda>_. 0) = Some (st', sm', m') \<and> udp_queue st' [] \<and> sm_inv sm' \<and>
    port_owner sm' = port_owner demo_sm \<and> received sm' m' 3 0 4096 [(0x0A000001, 99, [42, 43])]"
proof -
  have "received demo_sm (\<lambda>_. 0) 3 0 4096 []" by (simp add: received_def demo_facts receive_stream_def stored_def load_bytes_def)
  from receive_packets_deliver [OF demo_ready_queue demo_facts(1,2) _ this]
  show ?thesis by (simp add: for_port_def demo_header delivered_def total_size_def demo_facts)
qed

subsection \<open>Any datagrams\<close>

lemma handle_any:
  assumes x: "readable st q x" and inv: "sm_inv sm" and port: "unat (udp_destinationPort (snd (snd x))) < 9000"
  shows "\<exists>sm' m'. handleReceivedPacket_run st q (sm, m) = Some (sm', m') \<and> sm_inv sm' \<and> port_owner sm' = port_owner sm"
proof -
  obtain "is" where c: "fragment_chain (pool_of st) q (q # is)" "\<forall>i \<in> set (q # is). packet_ok (pool_of st ! i)"
    "x = datagram_at st (q # is)" using x by (auto simp: readable_def)
  have ql: "q < length (pool_of st)" using c(1) by (simp add: fragment_chain_def)
  show ?thesis
  proof (cases "protocol (pool_of st ! q) = 17 \<and> 8 \<le> unat (dataSize (pool_of st ! q))")
    case True
    then have "udp_packet (pool_of st) q is" using c by (simp add: udp_packet_def)
    from handleReceivedPacket_safe [OF this inv refl, of m] port
    show ?thesis unfolding c(3) datagram_at_def handleReceivedPacket_run_def by auto
  next
    case False
    then have "handleReceivedPacket sm m (pool_of st) q = Some (sm, m)"
      using ql by (auto simp: handleReceivedPacket_def word_less_nat_alt)
    then show ?thesis using inv by (simp add: handleReceivedPacket_run_def)
  qed
qed

text \<open>Whatever datagrams are queued, of whatever protocol, lengths and headers: if their destination ports
  are below 9000, a pass over them ends without a fault, with an empty queue, the invariant of the socket
  manager and the same owners of ports.\<close>

theorem receive_packets_safe:
  assumes "queue_is st Q" "sm_inv sm" "\<forall>x \<in> set Q. unat (udp_destinationPort (snd (snd x))) < 9000"
  shows "\<exists>st' sm' m'. receive_packets st (sm, m) = Some (st', sm', m') \<and> queue_is st' [] \<and> sm_inv sm' \<and>
    port_owner sm' = port_owner sm"
proof -
  define J where "J ys c \<longleftrightarrow> sm_inv (fst c) \<and> port_owner (fst c) = port_owner sm" for ys :: "(u32 \<times> u8 \<times> u8 list) list"
    and c :: "SocketManager \<times> memory"
  have step: "\<exists>c'. handleReceivedPacket_run st1 q1 c = Some c' \<and> J (ys @ [x]) c'"
    if "readable st1 q1 x" "Q = ys @ x # zs" "J ys c" for st1 q1 c ys x zs
    using handle_any [OF that(1), of "fst c" "snd c"] that(2,3) assms(3) by (auto simp: J_def)
  have "J [] (sm, m)" using assms(2) by (simp add: J_def)
  have "\<exists>st' c'. receive_packets st (sm, m) = Some (st', c') \<and> queue_is st' [] \<and> J Q c'"
    unfolding receive_packets_def
    by (rule nsq.drain_all [where all = Q and ys = "[]" and J = J], erule (2) step)
      (use \<open>J [] (sm, m)\<close> assms(1) queue_length [OF assms(1)] in \<open>simp_all add: less_Suc_eq_le\<close>)
  then obtain st' c' where "receive_packets st (sm, m) = Some (st', c')" "queue_is st' []" "J Q c'" by blast
  then show ?thesis unfolding J_def by (cases c') auto
qed

lemma receive_packets_safe_witness:
  "\<exists>st' sm' m'. receive_packets demo_ready (demo_sm, \<lambda>_. 0) = Some (st', sm', m') \<and> queue_is st' [] \<and> sm_inv sm' \<and>
    port_owner sm' = port_owner demo_sm"
  using receive_packets_safe [OF udp_queue_is [OF demo_ready_queue] demo_facts(1)] by (simp add: demo_header)

end
