(* ===== verification/Physical_Rings.thy ===== *)
theory Physical_Rings
  imports Physical_Interface Fragmentation Loopback_Ring
begin

text \<open>
  The descriptor rings of the network card. The receive ring is a queue of at most 32 frames that the
  interrupt handler empties; the transmit ring takes seven frames before the card has to finish one.
\<close>

subsection \<open>Commands do not change the rings\<close>

lemma writeCommand_rings [simp]:
  "rxDescs (writeCommand i a v) = rxDescs i" "txDescs (writeCommand i a v) = txDescs i"
  "ph_currentRx (writeCommand i a v) = ph_currentRx i" "ph_currentTx (writeCommand i a v) = ph_currentTx i"
  "rxBufferSpace (writeCommand i a v) = rxBufferSpace i" "txBufferSpace (writeCommand i a v) = txBufferSpace i"
  "ph_pPacketHandler (writeCommand i a v) = ph_pPacketHandler i"
  by (simp_all add: writeCommand_def)

lemma writeCommands_rings [simp]:
  "rxDescs (writeCommands i cs) = rxDescs i" "txDescs (writeCommands i cs) = txDescs i"
  "ph_currentRx (writeCommands i cs) = ph_currentRx i" "ph_currentTx (writeCommands i cs) = ph_currentTx i"
  "rxBufferSpace (writeCommands i cs) = rxBufferSpace i" "txBufferSpace (writeCommands i cs) = txBufferSpace i"
  by (induction cs arbitrary: i) (auto simp: writeCommands_def)

subsection \<open>The receive ring\<close>

definition rx_slot :: "PhysicalNetworkInterface \<Rightarrow> nat \<Rightarrow> nat" where
  "rx_slot i j = (ph_currentRx i + j) mod 32"

text \<open>The next \<open>k\<close> descriptors hold frames; the buffers of both rings are where the constructor put them and do
  not overlap.\<close>

definition ph_buffers :: "PhysicalNetworkInterface \<Rightarrow> bool" where
  "ph_buffers i \<longleftrightarrow> 0 < unat (rxBufferSpace i) \<and> unat (rxBufferSpace i) + 65536 \<le> unat (txBufferSpace i) \<and>
     unat (txBufferSpace i) + 130304 \<le> 4294967296 \<and> ph_currentTx i < 8 \<and> length (txDescs i) = 8"

definition rx_ring :: "PhysicalNetworkInterface \<Rightarrow> nat \<Rightarrow> bool" where
  "rx_ring i k \<longleftrightarrow> length (rxDescs i) = 32 \<and> ph_currentRx i < 32 \<and> k \<le> 32 \<and> ph_buffers i \<and>
     (\<forall>j < 32. rx_status (rxDescs i ! rx_slot i j) AND 0x1 \<noteq> 0 \<longleftrightarrow> j < k) \<and>
     (\<forall>j < k. 14 \<le> unat (rx_length (rxDescs i ! rx_slot i j)) \<and> unat (rx_length (rxDescs i ! rx_slot i j)) \<le> RX_BUFFER_SIZE)"

definition rx_frame :: "PhysicalState \<Rightarrow> nat \<Rightarrow> u8 list" where
  "rx_frame s j = load_bytes (ph_mem s) (rx_buffer (ph s) (rx_slot (ph s) j)) (unat (rx_length (rxDescs (ph s) ! rx_slot (ph s) j)))"

definition rx_frames :: "PhysicalState \<Rightarrow> nat \<Rightarrow> u8 list list" where
  "rx_frames s k = map (rx_frame s) [0..<k]"

lemma rx_slot_less [simp]: "rx_slot i j < 32"
  by (simp add: rx_slot_def)

lemma rx_slot_inj: "j < 32 \<Longrightarrow> j' < 32 \<Longrightarrow> rx_slot i j = rx_slot i j' \<longleftrightarrow> j = j'"
  using mod_shift_inj [of "ph_currentRx i" j 32 j'] mod_shift_inj [of "ph_currentRx i" j' 32 j]
  by (cases "j \<le> j'") (auto simp: rx_slot_def)

lemma rx_buffer_unat: "ph_buffers i \<Longrightarrow> j < 32 \<Longrightarrow> unat (rx_buffer i j) = unat (rxBufferSpace i) + 2048 * j"
  by (simp add: rx_buffer_def ph_buffers_def unat_word_ariths unat_of_nat_u32 of_nat_mult [symmetric] del: of_nat_mult)

lemma tx_buffer_unat: "ph_buffers i \<Longrightarrow> j < 8 \<Longrightarrow> unat (tx_buffer i j) = unat (txBufferSpace i) + 16288 * j"
  by (simp add: tx_buffer_def ph_buffers_def unat_word_ariths unat_of_nat_u32 of_nat_mult [symmetric] del: of_nat_mult)

lemma rx_empty: "rx_ring i 0 \<Longrightarrow> ph_getReadBuffer i = (0, 0)"
proof -
  assume r: "rx_ring i 0"
  then have "rx_slot i 0 = ph_currentRx i" by (simp add: rx_ring_def rx_slot_def)
  moreover have "rx_status (rxDescs i ! rx_slot i 0) AND 0x1 = 0" using r by (simp add: rx_ring_def)
  ultimately show ?thesis by (simp add: ph_getReadBuffer_def Let_def)
qed

lemma rx_read:
  assumes r: "rx_ring (ph s) (Suc k)"
  shows "ph_getReadBuffer (ph s) = (rx_buffer (ph s) (rx_slot (ph s) 0), ucast (rx_length (rxDescs (ph s) ! rx_slot (ph s) 0)))"
    "rx_buffer (ph s) (rx_slot (ph s) 0) \<noteq> 0" "14 \<le> length (rx_frame s 0)" "length (rx_frame s 0) \<le> RX_BUFFER_SIZE"
    "rx_ring (ph_finishReadBuffer (ph s)) k"
    "rx_frames (s\<lparr>ph := ph_finishReadBuffer (ph s)\<rparr>) k = tl (rx_frames s (Suc k))"
proof -
  let ?i = "ph s"
  have s0: "rx_slot ?i 0 = ph_currentRx ?i" using r by (simp add: rx_ring_def rx_slot_def)
  have full: "rx_status (rxDescs ?i ! ph_currentRx ?i) AND 0x1 \<noteq> 0"
    using r unfolding rx_ring_def s0 [symmetric] by auto
  show "ph_getReadBuffer ?i = (rx_buffer ?i (rx_slot ?i 0), ucast (rx_length (rxDescs ?i ! rx_slot ?i 0)))"
    using full s0 by (simp add: ph_getReadBuffer_def Let_def)
  have b: "ph_buffers ?i" using r by (simp add: rx_ring_def)
  show "rx_buffer ?i (rx_slot ?i 0) \<noteq> 0"
  proof
    assume "rx_buffer ?i (rx_slot ?i 0) = 0"
    then have "unat (rx_buffer ?i (rx_slot ?i 0)) = 0" by simp
    then show False using rx_buffer_unat [OF b rx_slot_less, of ?i 0] b by (simp add: ph_buffers_def)
  qed
  show "14 \<le> length (rx_frame s 0)" "length (rx_frame s 0) \<le> RX_BUFFER_SIZE" using r by (auto simp: rx_ring_def rx_frame_def)
  define d where "d = (rxDescs ?i)[ph_currentRx ?i := (rxDescs ?i ! ph_currentRx ?i)\<lparr>rx_status := 0\<rparr>]"
  define i' where "i' = writeCommand (?i\<lparr>rxDescs := d, ph_currentRx := (ph_currentRx ?i + 1) mod 32\<rparr>) 0x2818 (of_nat (ph_currentRx ?i))"
  have fin: "ph_finishReadBuffer ?i = i'" using full by (simp add: ph_finishReadBuffer_def i'_def d_def Let_def)
  have i': "rxDescs i' = d" "rxBufferSpace i' = rxBufferSpace ?i" "ph_currentRx i' < 32" "ph_buffers i' = ph_buffers ?i"
    by (simp_all add: i'_def ph_buffers_def)
  have sl: "rx_slot i' j = rx_slot ?i (Suc j)" for j by (simp add: i'_def rx_slot_def mod_simps)
  have len: "rx_length (d ! j) = rx_length (rxDescs ?i ! j)" "length d = 32" for j
    using r by (cases "j < 32"; auto simp: rx_ring_def nth_list_update d_def)+
  have fl: "rx_status (d ! rx_slot ?i (Suc j)) AND 0x1 \<noteq> 0 \<longleftrightarrow> j < k" if "j < 32" for j
  proof (cases "j = 31")
    case True
    then have "rx_slot ?i (Suc j) = ph_currentRx ?i" using r by (simp add: rx_slot_def rx_ring_def)
    then show ?thesis using r True by (auto simp: rx_ring_def d_def)
  next
    case False
    then have "Suc j < 32" using that by simp
    moreover from this have "rx_slot ?i (Suc j) \<noteq> ph_currentRx ?i" using rx_slot_inj [of "Suc j" 0 ?i] s0 by simp
    ultimately show ?thesis using r by (auto simp: rx_ring_def d_def)
  qed
  show "rx_ring (ph_finishReadBuffer ?i) k"
    using r fl i'(3,4) unfolding fin rx_ring_def sl i'(1,2) len by auto
  have "rx_frame (s\<lparr>ph := i'\<rparr>) j = rx_frame s (Suc j)" for j
    by (simp add: rx_frame_def sl len i' rx_buffer_def)
  then have "map (rx_frame (s\<lparr>ph := i'\<rparr>)) [0..<k] = map (\<lambda>j. rx_frame s (Suc j)) [0..<k]" by simp
  then show "rx_frames (s\<lparr>ph := ph_finishReadBuffer ?i\<rparr>) k = tl (rx_frames s (Suc k))"
    unfolding fin rx_frames_def by (simp add: map_upt_Suc del: upt_Suc)
qed

subsection \<open>Handling a frame leaves the waiting frames alone\<close>

lemma finishWrite_rings:
  "rxDescs (ph_finishWriteBuffer i n b) = rxDescs i" "ph_currentRx (ph_finishWriteBuffer i n b) = ph_currentRx i"
  "rxBufferSpace (ph_finishWriteBuffer i n b) = rxBufferSpace i" "ph_pPacketHandler (ph_finishWriteBuffer i n b) = ph_pPacketHandler i"
  "ph_buffers i \<Longrightarrow> ph_buffers (ph_finishWriteBuffer i n b)"
  by (auto simp: ph_finishWriteBuffer_def Let_def ph_buffers_def)

lemma rx_ring_write: "rx_ring i k \<Longrightarrow> rx_ring (ph_finishWriteBuffer i n b) k"
  by (auto simp: rx_ring_def finishWrite_rings rx_slot_def)

lemma rx_frame_write:
  assumes b: "ph_buffers (ph s)" and len: "length bs \<le> 16288" and j: "unat (rx_length (rxDescs (ph s) ! rx_slot (ph s) j)) \<le> 2048"
  shows "rx_frame (s\<lparr>ph_mem := store_bytes (ph_mem s) (tx_buffer (ph s) (ph_currentTx (ph s))) bs,
      ph := ph_finishWriteBuffer (ph s) n c\<rparr>) j = rx_frame s j"
proof -
  let ?a = "rx_buffer (ph s) (rx_slot (ph s) j)" and ?b = "tx_buffer (ph s) (ph_currentTx (ph s))"
  have tx: "ph_currentTx (ph s) < 8" using b by (simp add: ph_buffers_def)
  have "unat ?a + 2048 \<le> unat (rxBufferSpace (ph s)) + 65536"
    using rx_buffer_unat [OF b rx_slot_less, of "ph s" j] rx_slot_less [of "ph s" j] by linarith
  then have "apart ?a 2048 ?b 16288"
    using tx_buffer_unat [OF b tx] tx b by (intro apart_intervals) (simp_all add: ph_buffers_def)
  from load_apart [OF this len, of 0 "unat (rx_length (rxDescs (ph s) ! rx_slot (ph s) j))"] j len
  show ?thesis by (simp add: rx_frame_def finishWrite_rings rx_slot_def rx_buffer_def)
qed

lemma ph_handled:
  assumes r: "rx_ring (ph s) (Suc k)" and q: "queue_is (ph_stack s) Q" and mac: "length (myMac (ph_stack s)) = 6"
    and f: "f = rx_frame s 0"
  shows "\<exists>s' t Q'. ph_packet_handler s (rx_buffer (ph s) (rx_slot (ph s) 0)) (ucast (rx_length (rxDescs (ph s) ! rx_slot (ph s) 0))) = Some s' \<and>
    handleIncomingEthernetPacket (ph_stack s) f = Some (t, ph_stack s') \<and> queue_is (ph_stack s') (Q @ Q') \<and>
    length (myMac (ph_stack s')) = 6 \<and> rx_ring (ph s') (Suc k) \<and> rx_frames s' (Suc k) = rx_frames s (Suc k) \<and>
    ph_pPacketHandler (ph s') = ph_pPacketHandler (ph s)"
proof -
  note rd = rx_read [OF r, folded f]
  obtain t st1 Q1 where st1: "handleIncomingEthernetPacket (ph_stack s) f = Some (t, st1)" "queue_is st1 (Q @ Q1)"
    "t = ARPRequest \<longleftrightarrow> arp_request (myIP (ph_stack s)) f" "t = ARPRequest \<longrightarrow> st1 = ph_stack s" "myMac st1 = myMac (ph_stack s)"
    using incoming_total [OF q rd(3,4)] by blast
  have data: "load_bytes (ph_mem s) (rx_buffer (ph s) (rx_slot (ph s) 0))
      (unat (ucast (rx_length (rxDescs (ph s) ! rx_slot (ph s) 0)) :: u32)) = f"
    by (simp add: f rx_frame_def)
  show ?thesis
  proof (cases "t = ARPRequest")
    case False
    then show ?thesis using st1 r mac data
      by (intro exI [of _ "s\<lparr>ph_stack := st1\<rparr>"] exI [of _ t] exI [of _ Q1])
        (simp add: ph_packet_handler_def rx_frames_def rx_frame_def)
  next
    case True
    then have same: "st1 = ph_stack s" and req: "arp_request (myIP (ph_stack s)) f" using st1 by simp_all
    let ?b = "ph_getWriteBuffer (ph s)"
    show ?thesis
    proof (cases "?b = 0")
      case full: True
      then have "ph_finishWriteBuffer (ph s) 0 False = ph s" by (simp add: ph_finishWriteBuffer_def)
      then show ?thesis using st1 r mac data True full same
        by (intro exI [of _ s] exI [of _ t] exI [of _ Q1]) (simp add: ph_packet_handler_def handleOutgoingArpReply_def)
    next
      case free: False
      then have b: "?b = tx_buffer (ph s) (ph_currentTx (ph s))" by (simp add: ph_getWriteBuffer_def split: if_splits)
      note rep = arp_reply_frame [OF req mac]
      let ?s = "s\<lparr>ph_mem := store_bytes (ph_mem s) ?b (arp_reply (ph_stack s) f), ph := ph_finishWriteBuffer (ph s) 42 False\<rparr>"
      have "rx_frame ?s j = rx_frame s j" if "j < Suc k" for j
        unfolding b by (rule rx_frame_write) (use r that rep(1) in \<open>auto simp: rx_ring_def\<close>)
      then have "rx_frames ?s (Suc k) = rx_frames s (Suc k)" by (simp add: rx_frames_def)
      moreover have "ph_packet_handler s (rx_buffer (ph s) (rx_slot (ph s) 0))
          (ucast (rx_length (rxDescs (ph s) ! rx_slot (ph s) 0))) = Some ?s"
        using st1(1) True same data rep(3) [OF free] by (simp add: ph_packet_handler_def)
      ultimately show ?thesis using st1 mac same rx_ring_write [OF r]
        by (intro exI [of _ ?s] exI [of _ t] exI [of _ Q1]) (simp add: finishWrite_rings)
    qed
  qed
qed

lemma receive_loop_ends:
  assumes "rx_ring (ph s) k" "queue_is (ph_stack s) Q" "length (myMac (ph_stack s)) = 6" "ph_pPacketHandler (ph s)" "k < n"
  shows "\<exists>s' Q'. receive_loop n s = Some s' \<and> rx_ring (ph s') 0 \<and> receive_all (rx_frames s k) (ph_stack s) = Some (ph_stack s') \<and>
    queue_is (ph_stack s') (Q @ Q')"
  using assms
proof (induction k arbitrary: s n Q)
  case 0
  obtain n' where "n = Suc n'" using 0(5) by (cases n) auto
  then have "receive_loop n s = Some s" using rx_empty [OF 0(1)] by simp
  then show ?case using 0(1,2) by (intro exI [of _ s] exI [of _ "[]"]) (simp add: rx_frames_def)
next
  case (Suc k)
  obtain n' where n: "n = Suc n'" using Suc.prems(5) by (cases n) auto
  note rd = rx_read [OF Suc.prems(1)]
  obtain s1 t Q1 where s1: "ph_packet_handler s (rx_buffer (ph s) (rx_slot (ph s) 0)) (ucast (rx_length (rxDescs (ph s) ! rx_slot (ph s) 0))) = Some s1"
    "handleIncomingEthernetPacket (ph_stack s) (rx_frame s 0) = Some (t, ph_stack s1)" "queue_is (ph_stack s1) (Q @ Q1)"
    "length (myMac (ph_stack s1)) = 6" "rx_ring (ph s1) (Suc k)" "rx_frames s1 (Suc k) = rx_frames s (Suc k)"
    "ph_pPacketHandler (ph s1) = ph_pPacketHandler (ph s)"
    using ph_handled [OF Suc.prems(1,2,3) refl] by blast
  let ?s2 = "s1\<lparr>ph := ph_finishReadBuffer (ph s1)\<rparr>"
  note rd1 = rx_read(5,6) [OF s1(5)]
  have hand: "ph_pPacketHandler (ph ?s2)" using s1(7) Suc.prems(4) by (simp add: ph_finishReadBuffer_def Let_def)
  have "rx_ring (ph ?s2) k" "queue_is (ph_stack ?s2) (Q @ Q1)" "length (myMac (ph_stack ?s2)) = 6" "k < n'"
    using rd1(1) s1(3,4) Suc.prems(5) n by simp_all
  from Suc.IH [OF this(1-3) hand this(4)] obtain s' Q' where s': "receive_loop n' ?s2 = Some s'" "rx_ring (ph s') 0"
    "receive_all (rx_frames ?s2 k) (ph_stack ?s2) = Some (ph_stack s')" "queue_is (ph_stack s') ((Q @ Q1) @ Q')" by blast
  have "receive_loop n s = Some s'" using n rd(1,2) s1(1) Suc.prems(4) s'(1) by simp
  moreover have "rx_frames s (Suc k) = rx_frame s 0 # rx_frames ?s2 k"
    using rd1(2) s1(6) by (simp add: rx_frames_def upt_conv_Cons del: upt_Suc)
  then have "receive_all (rx_frames s (Suc k)) (ph_stack s) = Some (ph_stack s')" using s1(2) s'(3) by simp
  ultimately show ?case using s'(2,4) by auto
qed

subsection \<open>The transmit ring\<close>

text \<open>The \<open>k\<close> descriptors before \<open>currentTx\<close> belong to the card, the others are free.\<close>

definition tx_slot :: "PhysicalNetworkInterface \<Rightarrow> nat \<Rightarrow> nat" where
  "tx_slot i j = (ph_currentTx i + j) mod 8"

definition tx_ring :: "PhysicalNetworkInterface \<Rightarrow> nat \<Rightarrow> bool" where
  "tx_ring i k \<longleftrightarrow> length (txDescs i) = 8 \<and> ph_currentTx i < 8 \<and> k \<le> 8 \<and>
     (\<forall>j < 8. tx_status (txDescs i ! tx_slot i j) \<noteq> 0 \<longleftrightarrow> j < 8 - k)"

definition sendable :: "u32 \<Rightarrow> bool \<Rightarrow> bool" where
  "sendable len isIpv4Packet \<longleftrightarrow> (if isIpv4Packet then 34 else 14) \<le> unat len \<and> unat len \<le> 1514"

lemma tx_slot_inj: "j < 8 \<Longrightarrow> j' < 8 \<Longrightarrow> tx_slot i j = tx_slot i j' \<longleftrightarrow> j = j'"
  using mod_shift_inj [of "ph_currentTx i" j 8 j'] mod_shift_inj [of "ph_currentTx i" j' 8 j]
  by (cases "j \<le> j'") (auto simp: tx_slot_def)

lemma tx_free:
  assumes "tx_ring i k"
  shows "ph_getWriteBuffer i = (if k = 8 then 0 else tx_buffer i (ph_currentTx i))"
    "tx_status (txDescs i ! ph_currentTx i) = 0 \<longleftrightarrow> k = 8"
proof -
  have "tx_slot i 0 = ph_currentTx i" using assms by (simp add: tx_ring_def tx_slot_def)
  moreover have "tx_status (txDescs i ! tx_slot i 0) \<noteq> 0 \<longleftrightarrow> 0 < 8 - k" using assms by (simp add: tx_ring_def)
  ultimately show st: "tx_status (txDescs i ! ph_currentTx i) = 0 \<longleftrightarrow> k = 8" using assms by (auto simp: tx_ring_def)
  then show "ph_getWriteBuffer i = (if k = 8 then 0 else tx_buffer i (ph_currentTx i))" by (simp add: ph_getWriteBuffer_def)
qed

lemma tx_send:
  assumes r: "tx_ring i k" and k: "k < 8" and ok: "sendable len b"
    and d: "d = (if b then e1000TxDescTCPIPData else e1000TxDescLegacy) (tx_buffer i (ph_currentTx i)) len"
  shows "tx_ring (ph_finishWriteBuffer i len b) (Suc k)" "ph_currentTx (ph_finishWriteBuffer i len b) = (ph_currentTx i + 1) mod 8"
    "txDescs (ph_finishWriteBuffer i len b) = (txDescs i)[ph_currentTx i := d]"
    "txBufferSpace (ph_finishWriteBuffer i len b) = txBufferSpace i"
proof -
  have guards: "\<not> len < 14" "\<not> len > 1500 + 14" "tx_status (txDescs i ! ph_currentTx i) \<noteq> 0" "\<not> (b \<and> len < 20 + 14)"
    using ok tx_free(2) [OF r] k by (auto simp: sendable_def word_less_nat_alt split: if_splits)
  have run: "ph_finishWriteBuffer i len b =
      writeCommand (i\<lparr>txDescs := (txDescs i)[ph_currentTx i := d], ph_currentTx := (ph_currentTx i + 1) mod 8\<rparr>) 0x3818
        (of_nat ((ph_currentTx i + 1) mod 8))"
    unfolding ph_finishWriteBuffer_def Let_def d using guards by (cases b) simp_all
  show eqs: "ph_currentTx (ph_finishWriteBuffer i len b) = (ph_currentTx i + 1) mod 8"
    "txDescs (ph_finishWriteBuffer i len b) = (txDescs i)[ph_currentTx i := d]"
    "txBufferSpace (ph_finishWriteBuffer i len b) = txBufferSpace i" by (simp_all add: run)
  have sl: "tx_slot (ph_finishWriteBuffer i len b) j = tx_slot i (Suc j)" for j
    by (simp add: tx_slot_def eqs(1) mod_simps)
  have s0: "tx_slot i 0 = ph_currentTx i" "ph_currentTx i < length (txDescs i)" using r by (simp_all add: tx_ring_def tx_slot_def)
  have busy: "tx_status d = 0"
    by (simp add: d tx_status_def e1000TxDescTCPIPData_def e1000TxDescLegacy_def le32_def le16_def)
  have "tx_status ((txDescs i)[ph_currentTx i := d] ! tx_slot i (Suc j)) \<noteq> 0 \<longleftrightarrow> j < 8 - Suc k" if "j < 8" for j
  proof (cases "j = 7")
    case True
    then have "tx_slot i (Suc j) = ph_currentTx i" using r by (simp add: tx_slot_def tx_ring_def)
    then show ?thesis using True busy s0(2) k by simp
  next
    case False
    then have j: "Suc j < 8" using that by simp
    then have "tx_slot i (Suc j) \<noteq> ph_currentTx i" using tx_slot_inj [of "Suc j" 0 i] s0(1) by simp
    then show ?thesis using r j by (auto simp: tx_ring_def)
  qed
  then show "tx_ring (ph_finishWriteBuffer i len b) (Suc k)"
    using r k unfolding tx_ring_def sl eqs by simp
qed

lemma tx_sends:
  assumes "tx_ring i k" "k + length fs \<le> 8" "\<forall>(len, b) \<in> set fs. sendable len b"
    and "i' = fold (\<lambda>(len, b) i. ph_finishWriteBuffer i len b) fs i"
  shows "tx_ring i' (k + length fs) \<and> ph_currentTx i' = (ph_currentTx i + length fs) mod 8 \<and> txBufferSpace i' = txBufferSpace i"
  using assms
proof (induction fs arbitrary: i k)
  case Nil
  then show ?case by (simp add: tx_ring_def)
next
  case (Cons f fs)
  obtain len b where f: "f = (len, b)" by (cases f)
  note s = tx_send [OF Cons.prems(1) _ _ refl, of len b]
  have "k < 8" "sendable len b" using Cons.prems(2,3) f by auto
  from Cons.IH [OF s(1) [OF this], of] s(2,4) [OF this] Cons.prems(2-4) f show ?case by (simp add: mod_simps)
qed

lemma tx_initialised:
  assumes "length (txDescs i) = 8" "\<forall>d \<in> set (txDescs i). length d = 16" "ph_currentTx i = 0"
  shows "tx_ring (ph_initialise i) 1" "ph_currentTx (ph_initialise i) = 1" "txBufferSpace (ph_initialise i) = txBufferSpace i"
proof -
  define D where "D = (map (\<lambda>d. d[12 := 1]) (txDescs i))[0 := e1000TxDescTCPIPContext]"
  have eqs: "txDescs (ph_initialise i) = D" "ph_currentTx (ph_initialise i) = 1" "txBufferSpace (ph_initialise i) = txBufferSpace i"
    using assms(3) by (simp_all add: ph_initialise_def Let_def txInit_def rxInit_def D_def)
  then show "ph_currentTx (ph_initialise i) = 1" "txBufferSpace (ph_initialise i) = txBufferSpace i" by simp_all
  have "tx_status (D ! ((1 + j) mod 8)) \<noteq> 0 \<longleftrightarrow> j < 7" if "j < 8" for j
  proof (cases "j = 7")
    case True
    then show ?thesis using assms(1) by (simp add: D_def tx_status_def e1000TxDescTCPIPContext_def le16_def)
  next
    case False
    then have "(1 + j) mod 8 = Suc j" "Suc j < 8" using that by simp_all
    then show ?thesis using assms(1,2) by (simp add: D_def tx_status_def)
  qed
  then show "tx_ring (ph_initialise i) 1"
    unfolding tx_ring_def tx_slot_def eqs using assms(1) by (simp add: D_def)
qed

end
