(* ===== verification/Interface_Properties.thy ===== *)
theory Interface_Properties
  imports Reception Physical_Rings
begin

text \<open>
  The properties of the two network interfaces.
\<close>

subsection \<open>The loopback interface\<close>

lemma rank_bound: "length fs \<le> 5 \<Longrightarrow> rank ip fs < 120"
proof -
  assume len: "length fs \<le> 5"
  have "length (filter (arp_request ip) fs) \<le> 5" "length (takeWhile (\<lambda>f. \<not> arp_request ip f) fs) \<le> 5"
    using len by (meson length_filter_le length_takeWhile_le order_trans)+
  then show ?thesis by (cases fs) (auto simp: rank_def simp del: filter.simps takeWhile.simps)
qed

text \<open>C35. The interrupt of the loopback interface ends, however many of the waiting frames are ARP requests
  that are answered by sending another frame from within the handler: a nesting of 120 is enough. All
  waiting frames are handed to the network stack handler in order, before any reply, and the ring is
  empty afterwards.\<close>

theorem loopback_interrupt_ends:
  assumes "lo_ring (lo s) k" "queue_is (lo_stack s) Q" "length (myMac (lo_stack s)) = 6" "lo_pPacketHandler (lo s)"
  shows "\<exists>s' rs Q'. handleLoopbackInterfaceInterrupt interrupt_fuel s = Some s' \<and> lo_ring (lo s') 0 \<and>
    receive_all (frames s k @ rs) (lo_stack s) = Some (lo_stack s') \<and> queue_is (lo_stack s') (Q @ Q')"
proof -
  have "length (frames s k) \<le> 5" using assms(1) by (simp add: frames_def lo_ring_def)
  from interrupt_ends [OF assms rank_bound [OF this]] show ?thesis by blast
qed

definition demo_loopback :: LoopbackState where
  "demo_loopback = \<lparr>lo = (lo_registerPacketHandler (LoopbackNetworkInterface_new [1, 2, 3, 4, 5, 6] 65536))
     \<lparr>rxAndTxDescs := \<lparr>lo_length = 42, lo_isFull = True\<rparr> # replicate 4 \<lparr>lo_length = 0, lo_isFull = False\<rparr>, lo_currentTx := 1\<rparr>,
     lo_stack = demo_stack, lo_mem = (\<lambda>_. 0)\<rparr>"

lemma demo_ring: "lo_ring (lo demo_loopback) 1"
proof -
  have "\<forall>j < 5. lo_isFull ((\<lparr>lo_length = 42, lo_isFull = True\<rparr> # replicate 4 \<lparr>lo_length = 0, lo_isFull = False\<rparr>) ! j) \<longleftrightarrow> j < 1"
    by (auto simp: nth_Cons' )
  then show ?thesis
    by (simp add: lo_ring_def demo_loopback_def lo_registerPacketHandler_def LoopbackNetworkInterface_new_def slot_def)
qed

lemma loopback_interrupt_ends_witness:
  "\<exists>s'. handleLoopbackInterfaceInterrupt 120 demo_loopback = Some s' \<and> lo_ring (lo s') 0"
proof -
  have "queue_is (lo_stack demo_loopback) []" using demo_stack_inv unfolding queue_is_def by (fastforce simp: demo_loopback_def)
  moreover have "length (myMac (lo_stack demo_loopback)) = 6" "lo_pPacketHandler (lo demo_loopback)"
    by (simp_all add: demo_loopback_def demo_stack_def NetworkStackHandler_new_def lo_registerPacketHandler_def)
  ultimately show ?thesis using loopback_interrupt_ends [OF demo_ring] by blast
qed

text \<open>The checksum the loopback interface puts into an IPv4 header makes the one's complement sum of the
  header \<open>0xFFFF\<close>, the test of a receiver, whatever the header holds; only the two checksum bytes
  change.\<close>

theorem checksum_valid:
  assumes "set_checksum m data len = Some m'"
  shows "checksum_loop (load_bytes m' (data + 14) (unat (m (data + 14) AND 0x0F) * 4)) 0 = 0xFFFF \<and>
    (\<forall>x. m' x \<noteq> m x \<longrightarrow> x = data + 24 \<or> x = data + 25)"
  using set_checksum_verifies(1,3) [OF assms refl] by blast

lemma checksum_valid_witness:
  "\<exists>m'. set_checksum ((\<lambda>_. 1)(4110 := 0x45)) 4096 60 = Some m' \<and> checksum_loop (load_bytes m' 4110 20) 0 = 0xFFFF"
proof -
  let ?m = "(\<lambda>_. 1)(4110 := 0x45) :: memory"
  obtain m' where m': "set_checksum ?m 4096 60 = Some m'"
    by (simp add: set_checksum_def Let_def)
  from checksum_valid [OF m'] m' show ?thesis by simp
qed

subsection \<open>The network card\<close>

text \<open>C36. A receive interrupt of the network card ends: all frames in the receive ring, up to 32, are handed to
  the network stack handler in the order in which they arrived, ARP requests among them answered
  through the transmit ring, and all descriptors are given back to the card.\<close>

theorem physical_interrupt_ends:
  assumes "rx_ring (ph s) k" "queue_is (ph_stack s) Q" "length (myMac (ph_stack s)) = 6" "ph_pPacketHandler (ph s)"
    and "status AND 0x04 = 0" "status AND 0x10 = 0" "status AND 0x80 \<noteq> 0"
  shows "\<exists>s' Q'. handlePhysicalNetworkInterfaceInterrupt status control s = Some s' \<and> rx_ring (ph s') 0 \<and>
    receive_all (rx_frames s k) (ph_stack s) = Some (ph_stack s') \<and> queue_is (ph_stack s') (Q @ Q')"
proof -
  have "k < 33" using assms(1) by (simp add: rx_ring_def)
  from receive_loop_ends [OF assms(1-4) this] assms(5-7) show ?thesis
    by (simp add: handlePhysicalNetworkInterfaceInterrupt_def)
qed

definition demo_card :: PhysicalNetworkInterface where
  "demo_card = \<lparr>rxDescs = replicate 32 \<lparr>rx_addrLow = 0, rx_addrHigh = 0, rx_length = 60, rx_checksum = 0, rx_status = 1,
       rx_errors = 0, rx_special = 0\<rparr>, txDescs = replicate 8 (replicate 16 0), rxDescsAddr = 0, txDescsAddr = 0,
     rxBufferSpace = 0x100000, txBufferSpace = 0x200000, ioBase = 0xF0000000, usingMemMappedRegisters = True,
     ph_mac = [1, 2, 3, 4, 5, 6], interruptLine = 11, ph_currentRx = 0, ph_currentTx = 0, ph_interruptsEnabled = True,
     ph_pPacketHandler = True, ph_commands = []\<rparr>"

lemma demo_card_ring: "rx_ring demo_card 32"
  by (simp add: rx_ring_def demo_card_def ph_buffers_def)

lemma physical_interrupt_ends_witness:
  "\<exists>s'. handlePhysicalNetworkInterfaceInterrupt 0x80 0 \<lparr>ph = demo_card, ph_stack = demo_stack, ph_mem = (\<lambda>_. 0)\<rparr> = Some s' \<and>
    rx_ring (ph s') 0"
proof -
  let ?s = "\<lparr>ph = demo_card, ph_stack = demo_stack, ph_mem = (\<lambda>_. 0)\<rparr>"
  have "queue_is (ph_stack ?s) []" using demo_stack_inv unfolding queue_is_def by fastforce
  moreover have "length (myMac (ph_stack ?s)) = 6" "ph_pPacketHandler (ph ?s)" "rx_ring (ph ?s) 32"
    using demo_card_ring by (simp_all add: demo_stack_def NetworkStackHandler_new_def demo_card_def)
  ultimately show ?thesis using physical_interrupt_ends [of ?s 32 "[]" "0x80" 0] by auto
qed

text \<open>C37. After initialisation, which uses the first transmit descriptor for the checksum context, the card
  takes seven frames before it has to finish one: each goes into the buffer \<open>getWriteBuffer\<close> offers, and
  with the seventh \<open>getWriteBuffer\<close> returns \<open>nullptr\<close>. The tail index is then 0, where the card's head
  index started.\<close>

theorem transmit_ring_bound:
  assumes "length (txDescs raw) = 8" "\<forall>d \<in> set (txDescs raw). length d = 16" "ph_currentTx raw = 0"
    and "\<forall>(len, b) \<in> set fs. sendable len b" "length fs \<le> 7"
    and "i = fold (\<lambda>(len, b) i. ph_finishWriteBuffer i len b) fs (ph_initialise raw)"
  shows "ph_currentTx i = (1 + length fs) mod 8 \<and>
    ph_getWriteBuffer i = (if length fs = 7 then 0 else tx_buffer raw (1 + length fs))"
proof -
  note t = tx_initialised [OF assms(1-3)]
  have "1 + length fs \<le> 8" using assms(5) by simp
  note s = tx_sends [OF t(1) this assms(4,6)]
  have "ph_getWriteBuffer i = (if 1 + length fs = 8 then 0 else tx_buffer i (ph_currentTx i))"
    using tx_free(1) s by blast
  then show ?thesis using s t(2,3) assms(5) by (auto simp: tx_buffer_def)
qed

lemma transmit_ring_bound_witness:
  "ph_getWriteBuffer (fold (\<lambda>(len, b) i. ph_finishWriteBuffer i len b) (replicate 7 (60, False)) (ph_initialise demo_card)) = 0"
  using transmit_ring_bound [OF _ _ _ _ _ refl, of demo_card "replicate 7 (60, False)"]
  by (simp add: demo_card_def sendable_def)

end
