(* ===== verification/Coap_Server.thy ===== *)
theory Coap_Server
  imports Linked_Lists
begin

text \<open>
  \<open>cpp_lib/coap_server.cpp\<close>: the CoAP server the management task runs. Registered paths are elements of an
  array threaded by two pointers (\<open>next[0]\<close>: the used or unused list, \<open>next[1]\<close>: the paths that still match the
  request). A request is parsed byte by byte; every read of the packet, every write to the local array
  \<open>path\<close> and every write to the send buffer is checked, so that an access outside is a fault.

  A character is a byte; a path is its list of characters without the terminating zero. The methods of a
  \<open>CoAPHandler\<close> are virtual: \<open>handler\<close> stands for the objects' methods, with a state \<open>'k\<close> they work on and
  the bytes they put into the response buffer. The system calls are the outputs of the operations.
\<close>

abbreviation (input) MAX_COAP_PATH_SIZE :: nat where "MAX_COAP_PATH_SIZE \<equiv> 100"
abbreviation (input) MAX_NUM_COAP_PATHS :: nat where "MAX_NUM_COAP_PATHS \<equiv> 10"
abbreviation (input) RECEIVE_BUFFER_SIZE :: nat where "RECEIVE_BUFFER_SIZE \<equiv> 0x30000"
abbreviation (input) RESPONSE_BUFFER_SIZE :: nat where "RESPONSE_BUFFER_SIZE \<equiv> 0x10000"
abbreviation (input) WRITE_BUFFER_SIZE :: nat where "WRITE_BUFFER_SIZE \<equiv> 0x30000"
abbreviation (input) SLASH :: u8 where "SLASH \<equiv> 0x2F"
abbreviation (input) WILDCARD :: u8 where "WILDCARD \<equiv> 0x5E"

subsection \<open>Data\<close>

datatype ContentFormat =
    Text_Plain_Charset_UTF8 | Application_Link_Format | Application_XML | Application_Octet_Stream
  | Application_EXI | Application_JSON

record CoAPResponse =
  responseCode :: u8
  responseSize :: nat
  contentFormat :: ContentFormat

datatype coap_method = GET | POST | PUT | DELETE

record CoAPPath =
  cp_path :: "u8 list"
  pathSize :: nat
  pathProgressCounter :: nat
  pHandler :: nat

record path_element =
  pe_value :: CoAPPath
  next0 :: ptr
  next1 :: ptr

datatype coap_syscall =
    Open_Socket u16
  | Set_Receive_Buffer u8 nat nat
  | Set_Send_Buffer u8 nat nat
  | Close_Socket u8

text \<open>\<open>Set_Receive_Buffer\<close> and \<open>Set_Send_Buffer\<close> name the socket (the wrappers take an \<open>unsigned char\<close>), the number
  of the buffer and the size.\<close>

record CoAPServer =
  pathListElements :: "path_element list"
  unusedPathListElementsHead :: ptr
  usedPathListElementsHead :: ptr
  coap_socketID :: int
  receiveBuffers :: "u8 list list"
  currentlyWrittenToReceiveBuffer :: nat
  writeBuffers :: "u8 list list"
  currentlySendingWritebuffer :: nat
  currentlySendingWritebufferIndicatorWhenFinished :: int
  currentlyWrittenToWriteBufferDataLen :: nat
  coap_udpPort :: u16

subsection \<open>The wrappers of the system calls\<close>

text \<open>\<open>cpp_lib/syscalls.cpp\<close>: besides the interrupt, \<open>setReceiveBuffer\<close> clears the header of the new buffer and
  \<open>setSendBuffer\<close> clears the indicator, which the socket manager sets to 1 once everything is sent; that
  store happens between two operations of the server.\<close>

definition user_setReceiveBuffer :: "nat \<Rightarrow> nat \<Rightarrow> CoAPServer \<Rightarrow> CoAPServer \<times> coap_syscall list" where
  "user_setReceiveBuffer n bufferSize server =
     (if bufferSize \<ge> 8
      then server\<lparr>receiveBuffers := (receiveBuffers server)[n := replicate 8 0 @ drop 8 (receiveBuffers server ! n)]\<rparr>
      else server,
      [Set_Receive_Buffer (word_of_int (coap_socketID server)) n bufferSize])"

definition user_setSendBuffer :: "nat \<Rightarrow> nat \<Rightarrow> CoAPServer \<Rightarrow> CoAPServer \<times> coap_syscall list" where
  "user_setSendBuffer n bufferSize server =
     (server\<lparr>currentlySendingWritebufferIndicatorWhenFinished := 0\<rparr>,
      [Set_Send_Buffer (word_of_int (coap_socketID server)) n bufferSize])"

subsection \<open>Registered paths\<close>

text \<open>The constructor; \<open>sid\<close> is what \<open>openSocket\<close> returned.\<close>

definition CoAPServer_new :: "u16 \<Rightarrow> int \<Rightarrow> CoAPServer \<Rightarrow> CoAPServer \<times> coap_syscall list" where
  "CoAPServer_new udpPort sid raw =
     (let (server, calls) = user_setReceiveBuffer 0 RECEIVE_BUFFER_SIZE (raw\<lparr>currentlyWrittenToReceiveBuffer := 0, currentlySendingWritebuffer := 1,
          currentlySendingWritebufferIndicatorWhenFinished := 1, currentlyWrittenToWriteBufferDataLen := 0,
          pathListElements := map (\<lambda>i. (pathListElements raw ! i)
            \<lparr>pe_value := pe_value (pathListElements raw ! i)\<lparr>pathSize := 0\<rparr>,
             next0 := (if i \<noteq> MAX_NUM_COAP_PATHS - 1 then Some (i + 1) else None)\<rparr>) [0..<MAX_NUM_COAP_PATHS],
          unusedPathListElementsHead := Some 0, usedPathListElementsHead := None,
          coap_socketID := sid, coap_udpPort := udpPort\<rparr>)
      in (server, Open_Socket udpPort # calls))"

definition CoAPServer_delete :: "CoAPServer \<Rightarrow> coap_syscall list" where
  "CoAPServer_delete server = [Close_Socket (word_of_int (coap_socketID server))]"

definition setPathHandler :: "u8 list \<Rightarrow> nat \<Rightarrow> CoAPServer \<Rightarrow> CoAPServer option" where
  "setPathHandler path handler server =
     (if length path > MAX_COAP_PATH_SIZE then Some server
      else case unusedPathListElementsHead server of
        None \<Rightarrow> Some server
      | Some i \<Rightarrow> do {
          e \<leftarrow> arr_get (pathListElements server) i;
          es \<leftarrow> arr_set (pathListElements server) i
            (e\<lparr>next0 := usedPathListElementsHead server,
               pe_value := (pe_value e)
                 \<lparr>pathSize := length path, cp_path := path @ drop (length path) (cp_path (pe_value e)),
                  pathProgressCounter := 0, pHandler := handler\<rparr>\<rparr>);
          Some (server\<lparr>pathListElements := es, unusedPathListElementsHead := next0 e,
                       usedPathListElementsHead := Some i\<rparr>) })"

text \<open>The search of \<open>removePathHandler\<close>; running out of fuel is a fault.\<close>

fun find_path :: "nat \<Rightarrow> path_element list \<Rightarrow> u8 list \<Rightarrow> ptr \<Rightarrow> ptr \<Rightarrow> (nat \<times> ptr) option option" where
  "find_path 0 es path current previous = None"
| "find_path (Suc fuel) es path current previous =
     (case current of
        None \<Rightarrow> Some None
      | Some i \<Rightarrow> do {
          e \<leftarrow> arr_get es i;
          if pathSize (pe_value e) = length path \<and> take (length path) (cp_path (pe_value e)) = path
          then Some (Some (i, previous))
          else find_path fuel es path (next0 e) (Some i) })"

definition removePathHandler :: "u8 list \<Rightarrow> CoAPServer \<Rightarrow> CoAPServer option" where
  "removePathHandler path server =
     (if length path > MAX_COAP_PATH_SIZE then Some server
      else do {
        let es = pathListElements server;
        found \<leftarrow> find_path (Suc (length es)) es path (usedPathListElementsHead server) None;
        case found of
          None \<Rightarrow> Some server
        | Some (i, previous) \<Rightarrow> do {
            e \<leftarrow> arr_get es i;
            (es, head) \<leftarrow> (case previous of
                None \<Rightarrow> Some (es, next0 e)
              | Some p \<Rightarrow> do {
                  pe \<leftarrow> arr_get es p;
                  es \<leftarrow> arr_set es p (pe\<lparr>next0 := next0 e\<rparr>);
                  Some (es, usedPathListElementsHead server) });
            es \<leftarrow> arr_set es i (e\<lparr>next0 := unusedPathListElementsHead server\<rparr>);
            Some (server\<lparr>pathListElements := es, usedPathListElementsHead := head,
                         unusedPathListElementsHead := Some i\<rparr>) } })"

subsection \<open>Matching a path character by character\<close>

text \<open>The body of the loop of \<open>trimListBasedOnNewCharacter\<close> for one path: the path after the character, if it
  still matches.\<close>

definition step_path :: "u8 \<Rightarrow> CoAPPath \<Rightarrow> CoAPPath option" where
  "step_path newCharacter p =
     (let k = pathProgressCounter p in
      if newCharacter = 0 then
        (if k = pathSize p \<or> k + 1 = pathSize p \<and> cp_path p ! k = WILDCARD then Some p else None)
      else if k \<ge> pathSize p then None
      else if cp_path p ! k = WILDCARD \<and> newCharacter \<noteq> SLASH then Some p
      else if cp_path p ! k = WILDCARD \<and> newCharacter = SLASH \<and> k + 1 \<ge> pathSize p then None
      else
        let k = (if cp_path p ! k = WILDCARD then k + 1 else k) in
        if cp_path p ! k \<noteq> newCharacter then None
        else Some (p\<lparr>pathProgressCounter := k + 1\<rparr>))"

fun trim_loop :: "nat \<Rightarrow> bool \<Rightarrow> u8 \<Rightarrow> path_element list \<Rightarrow> ptr \<Rightarrow> ptr \<Rightarrow> ptr \<Rightarrow> (path_element list \<times> ptr) option" where
  "trim_loop 0 isFirst c es current lastValid newHead = None"
| "trim_loop (Suc fuel) isFirst c es current lastValid newHead =
     (case current of
        None \<Rightarrow> Some (es, newHead)
      | Some i \<Rightarrow> do {
          e \<leftarrow> arr_get es i;
          let p = (if isFirst then (pe_value e)\<lparr>pathProgressCounter := 0\<rparr> else pe_value e);
          let nxt = (if isFirst then next0 e else next1 e);
          case step_path c p of
            None \<Rightarrow> trim_loop fuel isFirst c (es[i := e\<lparr>pe_value := p\<rparr>]) nxt lastValid newHead
          | Some p \<Rightarrow>
              let es = (case lastValid of None \<Rightarrow> es | Some l \<Rightarrow> es[l := (es ! l)\<lparr>next1 := Some i\<rparr>]);
                  head = (case lastValid of None \<Rightarrow> Some i | Some l \<Rightarrow> newHead)
              in trim_loop fuel isFirst c (es[i := e\<lparr>pe_value := p, next1 := None\<rparr>]) nxt (Some i) head })"

definition trimListBasedOnNewCharacter ::
  "path_element list \<Rightarrow> ptr \<Rightarrow> u8 \<Rightarrow> bool \<Rightarrow> (path_element list \<times> ptr) option" where
  "trimListBasedOnNewCharacter es head c isFirst = trim_loop (Suc (length es)) isFirst c es head None None"

subsection \<open>Parsing a request\<close>

text \<open>\<open>Return\<close> is an early return of \<open>handlePacketFromReceiveBuffer\<close>: the packet is ignored.\<close>

datatype 'a step = Return | Next 'a

record coap_request =
  requiresAck :: bool
  tokenLength :: nat
  codeDetail :: nat
  messageIDLower :: u8
  messageIDUpper :: u8
  token :: "u8 list"

definition parse_header :: "u8 list \<Rightarrow> coap_request step option" where
  "parse_header udpPayload =
     (if length udpPayload < 4 then Some Return
      else do {
        b0 \<leftarrow> arr_get udpPayload 0;
        b1 \<leftarrow> arr_get udpPayload 1;
        b2 \<leftarrow> arr_get udpPayload 2;
        b3 \<leftarrow> arr_get udpPayload 3;
        let version = drop_bit 6 (b0 AND 0xC0);
        let type = drop_bit 4 (b0 AND 0x30);
        let tl = unat (b0 AND 0x0F);
        let codeClass = drop_bit 5 (b1 AND 0xE0);
        if version \<noteq> 1 then Some Return
        else if type \<noteq> 0 \<and> type \<noteq> 1 then Some Return
        else if tl > 8 then Some Return
        else if codeClass \<noteq> 0 then Some Return
        else if length udpPayload < 4 + tl then Some Return
        else Some (Next \<lparr>requiresAck = (type = 0), tokenLength = tl, codeDetail = unat (b1 AND 0x1F),
               messageIDLower = b2, messageIDUpper = b3, token = take tl (drop 4 udpPayload)\<rparr>) })"

text \<open>An option: its number, the offset of its value and its length.\<close>

definition extended_bytes :: "nat \<Rightarrow> nat" where
  "extended_bytes v = (if v = 13 then 1 else if v = 14 then 2 else 0)"

definition extended_value :: "u8 list \<Rightarrow> nat \<Rightarrow> nat \<Rightarrow> (nat \<times> nat) option" where
  "extended_value p v offset =
     (if v = 13 then do { x \<leftarrow> arr_get p (offset + 1); Some (unat x + 13, offset + 1) }
      else if v = 14 then do {
        x \<leftarrow> arr_get p (offset + 1);
        y \<leftarrow> arr_get p (offset + 2);
        Some (unat x * 256 + unat y + 269, offset + 2) }
      else Some (v, offset))"

definition parse_option :: "u8 list \<Rightarrow> nat \<Rightarrow> nat \<Rightarrow> (nat \<times> nat \<times> nat) step option" where
  "parse_option p offset number = do {
     b \<leftarrow> arr_get p offset;
     let optionDelta = unat (drop_bit 4 (b AND 0xF0));
     let optionLength = unat (b AND 0x0F);
     if optionDelta = 15 \<or> optionLength = 15 then Some Return
     else if length p \<le> offset + (extended_bytes optionDelta + extended_bytes optionLength) then Some Return
     else do {
       (optionDelta, offset) \<leftarrow> extended_value p optionDelta offset;
       (optionLength, offset) \<leftarrow> extended_value p optionLength offset;
       let number = number + optionDelta;
       if number > 65535 then Some Return
       else
         let offset = offset + 1 in
         if length p < offset + optionLength then Some Return
         else Some (Next (number, offset, optionLength)) } }"

record path_state =
  ps_elements :: "path_element list"
  ps_head :: ptr
  ps_path :: "u8 list"
  ps_size :: nat

primrec path_characters :: "u8 list \<Rightarrow> nat \<Rightarrow> nat list \<Rightarrow> path_state \<Rightarrow> path_state option" where
  "path_characters p offset [] st = Some st"
| "path_characters p offset (i # is) st =
     (if ps_head st = None then Some st
      else do {
        c \<leftarrow> arr_get p (offset + i);
        path \<leftarrow> arr_set (ps_path st) (ps_size st + 1 + i) c;
        (es, head) \<leftarrow> trimListBasedOnNewCharacter (ps_elements st) (ps_head st) c False;
        path_characters p offset is (st\<lparr>ps_elements := es, ps_head := head, ps_path := path\<rparr>) })"

text \<open>Option 11. The statement for a path that is too long compares instead of assigning and has no effect.\<close>

definition uri_path_option :: "u8 list \<Rightarrow> nat \<Rightarrow> nat \<Rightarrow> path_state \<Rightarrow> path_state option" where
  "uri_path_option p offset optionLength st = do {
     st \<leftarrow> (if ps_size st + (1 + optionLength) > MAX_COAP_PATH_SIZE then Some st
       else do {
         path \<leftarrow> arr_set (ps_path st) (ps_size st) SLASH;
         (es, head) \<leftarrow> trimListBasedOnNewCharacter (ps_elements st) (ps_head st) SLASH (ps_size st = 0);
         Some (st\<lparr>ps_elements := es, ps_head := head, ps_path := path\<rparr>) });
     st \<leftarrow> path_characters p offset [0..<optionLength] st;
     Some (st\<lparr>ps_size := ps_size st + (1 + optionLength)\<rparr>) }"

definition content_format_option :: "u8 list \<Rightarrow> nat \<Rightarrow> nat \<Rightarrow> ContentFormat step option" where
  "content_format_option p offset optionLength =
     (if optionLength = 0 then Some (Next Text_Plain_Charset_UTF8)
      else if optionLength = 1 then do {
        b \<leftarrow> arr_get p offset;
        Some (if b = 0 then Next Text_Plain_Charset_UTF8 else if b = 40 then Next Application_Link_Format
              else if b = 41 then Next Application_XML else if b = 42 then Next Application_Octet_Stream
              else if b = 47 then Next Application_EXI else if b = 50 then Next Application_JSON
              else Return) }
      else Some Return)"

text \<open>The loop over the options: the state of the path, and the offset behind the options with the content
  format unless the packet is ignored. Running out of fuel is a fault; every option takes a byte at least.\<close>

fun options_loop ::
  "nat \<Rightarrow> u8 list \<Rightarrow> nat \<Rightarrow> nat \<Rightarrow> ContentFormat \<Rightarrow> path_state \<Rightarrow> (path_state \<times> (nat \<times> ContentFormat) step) option" where
  "options_loop 0 p offset number fmt st = None"
| "options_loop (Suc fuel) p offset number fmt st =
     (if \<not> (offset < length p \<and> p ! offset \<noteq> 0xFF) then Some (st, Next (offset, fmt))
      else do {
        opt \<leftarrow> parse_option p offset number;
        case opt of
          Return \<Rightarrow> Some (st, Return)
        | Next (number, offset, optionLength) \<Rightarrow>
            (if number = 11 \<and> ps_head st \<noteq> None then do {
               st \<leftarrow> uri_path_option p offset optionLength st;
               options_loop fuel p (offset + optionLength) number fmt st }
             else if number = 12 then do {
               r \<leftarrow> content_format_option p offset optionLength;
               case r of Return \<Rightarrow> Some (st, Return)
               | Next fmt \<Rightarrow> options_loop fuel p (offset + optionLength) number fmt st }
             else options_loop fuel p (offset + optionLength) number fmt st) })"

text \<open>The end of the path: a request without a path asks for the root.\<close>

definition finish_path :: "path_state \<Rightarrow> path_state option" where
  "finish_path st = do {
     st \<leftarrow> (if ps_size st = 0 then do {
         path \<leftarrow> arr_set (ps_path st) 0 SLASH;
         (es, head) \<leftarrow> trimListBasedOnNewCharacter (ps_elements st) (ps_head st) SLASH True;
         Some (st\<lparr>ps_elements := es, ps_head := head, ps_path := path, ps_size := 1\<rparr>) }
       else Some st);
     path \<leftarrow> arr_set (ps_path st) (ps_size st) 0;
     (es, head) \<leftarrow> trimListBasedOnNewCharacter (ps_elements st) (ps_head st) 0 False;
     Some (st\<lparr>ps_elements := es, ps_head := head, ps_path := path\<rparr>) }"

subsection \<open>Responses\<close>

text \<open>A block of bytes written into a buffer; an empty block is no access.\<close>

definition write_at :: "u8 list \<Rightarrow> nat \<Rightarrow> u8 list \<Rightarrow> u8 list option" where
  "write_at buf offset bs =
     (if bs = [] then Some buf
      else if offset + length bs \<le> length buf then Some (take offset buf @ bs @ drop (offset + length bs) buf) else None)"

definition attemptWriteBufferSwap :: "CoAPServer \<Rightarrow> CoAPServer \<times> coap_syscall list" where
  "attemptWriteBufferSwap server =
     (if currentlySendingWritebufferIndicatorWhenFinished server = 1 \<and> currentlyWrittenToWriteBufferDataLen server > 0
      then
        let (server, calls) = user_setSendBuffer (1 - currentlySendingWritebuffer server)
          (currentlyWrittenToWriteBufferDataLen server) server
        in (server\<lparr>currentlySendingWritebuffer := 1 - currentlySendingWritebuffer server,
                   currentlyWrittenToWriteBufferDataLen := 0\<rparr>, calls)
      else (server, []))"

definition format_identifier :: "ContentFormat \<Rightarrow> u8" where
  "format_identifier f = (case f of Text_Plain_Charset_UTF8 \<Rightarrow> 0 | Application_Link_Format \<Rightarrow> 40 | Application_XML \<Rightarrow> 41
     | Application_Octet_Stream \<Rightarrow> 42 | Application_EXI \<Rightarrow> 47 | Application_JSON \<Rightarrow> 50)"

definition not_allowed_response :: CoAPResponse where
  "not_allowed_response = \<lparr>responseCode = 0x85, responseSize = 0, contentFormat = Text_Plain_Charset_UTF8\<rparr>"

definition not_found_response :: CoAPResponse where
  "not_found_response = \<lparr>responseCode = 0x84, responseSize = 0, contentFormat = Text_Plain_Charset_UTF8\<rparr>"

definition coap_first_byte :: "coap_request \<Rightarrow> u8" where
  "coap_first_byte req = 0x40 + of_nat (tokenLength req) + (if requiresAck req then 0x20 else 0x10)"

definition method_of :: "nat \<Rightarrow> coap_method option" where
  "method_of code = (if code = 1 then Some GET else if code = 2 then Some POST else if code = 3 then Some PUT
     else if code = 4 then Some DELETE else None)"

type_synonym 'k coap_handler =
  "nat \<Rightarrow> coap_method \<Rightarrow> u8 list \<Rightarrow> ContentFormat \<Rightarrow> u8 list \<Rightarrow> 'k \<Rightarrow> (CoAPResponse \<times> u8 list \<times> 'k)"

text \<open>The payload behind the options: \<open>Return\<close> when the marker is missing.\<close>

definition request_payload :: "u8 list \<Rightarrow> nat \<Rightarrow> u8 list step option" where
  "request_payload p offset =
     (let payloadSize = (if length p < offset + 1 then 0 else length p - (offset + 1)) in
      if payloadSize > 0 then do {
        b \<leftarrow> arr_get p offset;
        Some (if b \<noteq> 0xFF then Return else Next (drop (offset + 1) p)) }
      else Some (Next []))"

definition call_handler ::
  "'k coap_handler \<Rightarrow> path_state \<Rightarrow> coap_request \<Rightarrow> ContentFormat \<Rightarrow> u8 list \<Rightarrow> nat \<Rightarrow> 'k \<Rightarrow> (CoAPResponse \<times> u8 list \<times> 'k) step option" where
  "call_handler handler st req fmt p offset k =
     (case ps_head st of
        None \<Rightarrow> Some (Next (not_found_response, [], k))
      | Some i \<Rightarrow> do {
          e \<leftarrow> arr_get (ps_elements st) i;
          payload \<leftarrow> request_payload p offset;
          case payload of
            Return \<Rightarrow> Some Return
          | Next payload \<Rightarrow>
              (case method_of (codeDetail req) of
                 None \<Rightarrow> Some (Next (not_allowed_response, [], k))
               | Some m \<Rightarrow> Some (Next (handler (pHandler (pe_value e)) m (take (ps_size st) (ps_path st)) fmt payload k))) })"

definition checked_response :: "CoAPResponse \<Rightarrow> CoAPResponse" where
  "checked_response r = (if responseSize r > RESPONSE_BUFFER_SIZE then r\<lparr>responseCode := 0xA0, responseSize := 0\<rparr> else r)"

text \<open>The writes into the send buffer, in the order of the code, before and after the handler runs; \<open>base\<close> is the
  offset of the response. The second part also returns the size the response takes in the buffer.\<close>

definition write_head :: "u32 \<Rightarrow> u16 \<Rightarrow> coap_request \<Rightarrow> nat \<Rightarrow> u8 list \<Rightarrow> u8 list option" where
  "write_head sourceIP sourcePort req base buf = do {
     buf \<leftarrow> write_at buf base [byte_at 0 sourceIP, byte_at 1 sourceIP, byte_at 2 sourceIP, byte_at 3 sourceIP,
       byte_at 0 sourcePort, byte_at 1 sourcePort];
     buf \<leftarrow> write_at buf (base + 8) (replicate 8 0);
     buf \<leftarrow> write_at buf (base + 16) [coap_first_byte req];
     write_at buf (base + 18) ([messageIDLower req, messageIDUpper req] @ token req) }"

definition packet_size :: "coap_request \<Rightarrow> CoAPResponse \<Rightarrow> nat" where
  "packet_size req response =
     (8 + 4 + tokenLength req + (if responseSize response > 0 then 2 + 1 + responseSize response else 0)) mod 65536"

definition write_tail :: "coap_request \<Rightarrow> CoAPResponse \<Rightarrow> u8 list \<Rightarrow> nat \<Rightarrow> u8 list \<Rightarrow> (u8 list \<times> nat) option" where
  "write_tail req response body base buf = do {
     let tl = tokenLength req;
     buf \<leftarrow> write_at buf (base + 20 + tl + 3) body;
     let response = checked_response response;
     buf \<leftarrow> (if responseSize response > 0
       then write_at buf (base + 20 + tl) [0xC1, format_identifier (contentFormat response), 0xFF] else Some buf);
     buf \<leftarrow> write_at buf (base + 17) [responseCode response];
     let packetSize = packet_size req response;
     buf \<leftarrow> write_at buf (base + 6) [of_nat packetSize, of_nat (packetSize div 256)];
     Some (buf, 8 + packetSize) }"

definition required_size :: "path_state \<Rightarrow> coap_request \<Rightarrow> nat" where
  "required_size st req =
     (if ps_head st = None \<or> codeDetail req = 0 \<or> codeDetail req > 4 then 20 + tokenLength req
      else 20 + tokenLength req + 3 + RESPONSE_BUFFER_SIZE)"

text \<open>From the check for room in the send buffer on.\<close>

definition respond ::
  "'k coap_handler \<Rightarrow> u32 \<Rightarrow> u16 \<Rightarrow> u8 list \<Rightarrow> coap_request \<Rightarrow> nat \<Rightarrow> ContentFormat \<Rightarrow> path_state \<Rightarrow> CoAPServer \<Rightarrow> 'k \<Rightarrow>
   (CoAPServer \<times> coap_syscall list \<times> 'k) option" where
  "respond handler sourceIP sourcePort udpPayload req offset fmt st server k =
     (let (server, calls) = attemptWriteBufferSwap server; base = currentlyWrittenToWriteBufferDataLen server in
      if WRITE_BUFFER_SIZE - base < required_size st req then Some (server, calls, k)
      else do {
        buf \<leftarrow> arr_get (writeBuffers server) (1 - currentlySendingWritebuffer server);
        buf \<leftarrow> write_head sourceIP sourcePort req base buf;
        bufs \<leftarrow> arr_set (writeBuffers server) (1 - currentlySendingWritebuffer server) buf;
        let server = server\<lparr>writeBuffers := bufs\<rparr>;
        result \<leftarrow> call_handler handler st req fmt udpPayload offset k;
        case result of
          Return \<Rightarrow> Some (server, calls, k)
        | Next (response, body, k) \<Rightarrow> do {
            (buf, size) \<leftarrow> write_tail req response body base buf;
            bufs \<leftarrow> arr_set bufs (1 - currentlySendingWritebuffer server) buf;
            let (server, calls') = attemptWriteBufferSwap
              (server\<lparr>writeBuffers := bufs, currentlyWrittenToWriteBufferDataLen := base + size\<rparr>);
            Some (server, calls @ calls', k) } })"

definition handlePacketFromReceiveBuffer ::
  "'k coap_handler \<Rightarrow> u8 list \<Rightarrow> u32 \<Rightarrow> u16 \<Rightarrow> u8 list \<Rightarrow> CoAPServer \<Rightarrow> 'k \<Rightarrow> (CoAPServer \<times> coap_syscall list \<times> 'k) option" where
  "handlePacketFromReceiveBuffer handler rawPath sourceIP sourcePort udpPayload server k = do {
     req \<leftarrow> parse_header udpPayload;
     case req of
       Return \<Rightarrow> Some (server, [], k)
     | Next req \<Rightarrow> do {
         (st, parsed) \<leftarrow> options_loop (Suc (length udpPayload)) udpPayload (4 + tokenLength req) 0 Text_Plain_Charset_UTF8
           \<lparr>ps_elements = pathListElements server, ps_head = usedPathListElementsHead server, ps_path = rawPath, ps_size = 0\<rparr>;
         case parsed of
           Return \<Rightarrow> Some (server\<lparr>pathListElements := ps_elements st\<rparr>, [], k)
         | Next (offset, fmt) \<Rightarrow> do {
             st \<leftarrow> finish_path st;
             respond handler sourceIP sourcePort udpPayload req offset fmt st (server\<lparr>pathListElements := ps_elements st\<rparr>) k } } }"

subsection \<open>The buffers\<close>

text \<open>The packets of a full receive buffer, one after the other, until an empty header.\<close>

fun receive_requests ::
  "'k coap_handler \<Rightarrow> u8 list \<Rightarrow> nat \<Rightarrow> u8 list \<Rightarrow> nat \<Rightarrow> CoAPServer \<Rightarrow> 'k \<Rightarrow> (CoAPServer \<times> coap_syscall list \<times> 'k) option" where
  "receive_requests handler rawPath 0 buf offset server k = None"
| "receive_requests handler rawPath (Suc fuel) buf offset server k = do {
     b6 \<leftarrow> arr_get buf (offset + 6);
     b7 \<leftarrow> arr_get buf (offset + 7);
     if b6 = 0 \<and> b7 = 0 then Some (server, [], k)
     else do {
       b0 \<leftarrow> arr_get buf offset;
       b1 \<leftarrow> arr_get buf (offset + 1);
       b2 \<leftarrow> arr_get buf (offset + 2);
       b3 \<leftarrow> arr_get buf (offset + 3);
       b4 \<leftarrow> arr_get buf (offset + 4);
       b5 \<leftarrow> arr_get buf (offset + 5);
       let packetSize = unat (u16_be b7 b6);
       udpPayload \<leftarrow> (if offset + 8 + packetSize \<le> length buf then Some (take packetSize (drop (offset + 8) buf)) else None);
       (server, calls, k) \<leftarrow>
         handlePacketFromReceiveBuffer handler rawPath (u32_be b3 b2 b1 b0) (u16_be b5 b4) udpPayload server k;
       (server, calls', k) \<leftarrow> receive_requests handler rawPath fuel buf (offset + 8 + packetSize) server k;
       Some (server, calls @ calls', k) } }"

definition attemptReceiveBufferSwap ::
  "'k coap_handler \<Rightarrow> u8 list \<Rightarrow> CoAPServer \<Rightarrow> 'k \<Rightarrow> (CoAPServer \<times> coap_syscall list \<times> 'k) option" where
  "attemptReceiveBufferSwap handler rawPath server k = do {
     let current = currentlyWrittenToReceiveBuffer server;
     buf \<leftarrow> arr_get (receiveBuffers server) current;
     b6 \<leftarrow> arr_get buf 6;
     b7 \<leftarrow> arr_get buf 7;
     if b6 = 0 \<and> b7 = 0 then Some (server, [], k)
     else do {
       let (server, calls) = user_setReceiveBuffer (1 - current) RECEIVE_BUFFER_SIZE server;
       (server, calls', k) \<leftarrow> receive_requests handler rawPath (Suc (length buf)) buf 0 server k;
       Some (server\<lparr>currentlyWrittenToReceiveBuffer := 1 - current\<rparr>, calls @ calls', k) } }"

text \<open>One round of \<open>run\<close>.\<close>

definition run_round :: "'k coap_handler \<Rightarrow> u8 list \<Rightarrow> CoAPServer \<Rightarrow> 'k \<Rightarrow> (CoAPServer \<times> coap_syscall list \<times> 'k) option" where
  "run_round handler rawPath server k = do {
     (server, calls, k) \<leftarrow> attemptReceiveBufferSwap handler rawPath server k;
     let (server, calls') = attemptWriteBufferSwap server;
     Some (server, calls @ calls', k) }"

end
