(* ===== verification/Coap_Matching.thy ===== *)
theory Coap_Matching
  imports Coap_Server
begin

text \<open>
  What \<open>trimListBasedOnNewCharacter\<close> computes: the chain through \<open>next[1]\<close> is the sublist of the registered paths
  that still match, and matching character by character decides whether the segments of the request fit
  the segments of the registered path, where the segment \<open>^\<close> fits everything.
\<close>

subsection \<open>One pass over the list\<close>

definition started :: "bool \<Rightarrow> CoAPPath \<Rightarrow> CoAPPath" where
  "started isFirst p = (if isFirst then p\<lparr>pathProgressCounter := 0\<rparr> else p)"

definition advanced :: "bool \<Rightarrow> u8 \<Rightarrow> CoAPPath \<Rightarrow> CoAPPath" where
  "advanced isFirst c p = (case step_path c (started isFirst p) of None \<Rightarrow> started isFirst p | Some q \<Rightarrow> q)"

definition matching :: "bool \<Rightarrow> u8 \<Rightarrow> path_element list \<Rightarrow> nat list \<Rightarrow> nat list" where
  "matching isFirst c es js = filter (\<lambda>i. step_path c (started isFirst (pe_value (es ! i))) \<noteq> None) js"

lemma matching_simps [simp]:
  "matching isFirst c es [] = []"
  "matching isFirst c es (j # js) =
    (if step_path c (started isFirst (pe_value (es ! j))) \<noteq> None then j # matching isFirst c es js else matching isFirst c es js)"
  by (simp_all add: matching_def)

lemma matching_cong: "(\<And>i. i \<in> set js \<Longrightarrow> es' ! i = es ! i) \<Longrightarrow> matching isFirst c es' js = matching isFirst c es js"
  by (simp add: matching_def cong: filter_cong)

lemma follow_cong:
  "(\<And>i. i \<in> set js \<Longrightarrow> es' ! i = es ! i) \<Longrightarrow>
    seg (\<lambda>i. if isFirst then next0 (es ! i) else next1 (es ! i)) p js q \<Longrightarrow>
    seg (\<lambda>i. if isFirst then next0 (es' ! i) else next1 (es' ! i)) p js q"
  by (induction js arbitrary: p) auto

lemma trim_loop_spec:
  assumes "seg (\<lambda>i. if isFirst then next0 (es ! i) else next1 (es ! i)) current js None" "distinct js"
    "set js \<subseteq> {..<length es}" "length js < fuel" "\<And>l. lastValid = Some l \<Longrightarrow> l < length es \<and> l \<notin> set js"
  shows "\<exists>es'. trim_loop fuel isFirst c es current lastValid newHead =
      Some (es', if lastValid = None then hd_ptr (matching isFirst c es js) newHead else newHead) \<and>
    length es' = length es \<and>
    seg (\<lambda>i. next1 (es' ! i)) (hd_ptr (matching isFirst c es js) None) (matching isFirst c es js) None \<and>
    (\<forall>i \<in> set js. pe_value (es' ! i) = advanced isFirst c (pe_value (es ! i)) \<and> next0 (es' ! i) = next0 (es ! i)) \<and>
    (\<forall>i. i \<notin> set js \<longrightarrow> lastValid \<noteq> Some i \<longrightarrow> es' ! i = es ! i) \<and>
    (\<forall>l. lastValid = Some l \<longrightarrow> es' ! l = (es ! l)\<lparr>next1 := (if matching isFirst c es js = [] then next1 (es ! l)
       else hd_ptr (matching isFirst c es js) None)\<rparr>)"
  using assms
proof (induction js arbitrary: fuel es current lastValid newHead)
  case Nil
  then show ?case by (cases fuel) auto
next
  case (Cons j js)
  obtain fuel' where fuel: "fuel = Suc fuel'" using Cons.prems(4) by (cases fuel) auto
  let ?e = "es ! j" and ?p = "started isFirst (pe_value (es ! j))"
  let ?nxt = "if isFirst then next0 ?e else next1 ?e"
  have j: "current = Some j" "j < length es" "j \<notin> set js" "distinct js" using Cons.prems(1-3) by auto
  show ?case
  proof (cases "step_path c ?p")
    case None
    let ?es = "es[j := ?e\<lparr>pe_value := ?p\<rparr>]"
    have same: "?es ! i = es ! i" if "i \<noteq> j" for i using that by simp
    have m: "matching isFirst c ?es js = matching isFirst c es js" by (rule matching_cong, rule same) (use j(3) in blast)
    have "seg (\<lambda>i. if isFirst then next0 (?es ! i) else next1 (?es ! i)) ?nxt js None"
      by (rule follow_cong [of js _ es], rule same) (use j(3) Cons.prems(1) in auto)
    from Cons.IH [OF this j(4), of fuel' lastValid newHead] Cons.prems(3-5) fuel
    obtain es' where es': "trim_loop fuel' isFirst c ?es ?nxt lastValid newHead =
        Some (es', if lastValid = None then hd_ptr (matching isFirst c es js) newHead else newHead)"
      "length es' = length es"
      "seg (\<lambda>i. next1 (es' ! i)) (hd_ptr (matching isFirst c es js) None) (matching isFirst c es js) None"
      "\<forall>i \<in> set js. pe_value (es' ! i) = advanced isFirst c (pe_value (?es ! i)) \<and> next0 (es' ! i) = next0 (?es ! i)"
      "\<forall>i. i \<notin> set js \<longrightarrow> lastValid \<noteq> Some i \<longrightarrow> es' ! i = ?es ! i"
      "\<forall>l. lastValid = Some l \<longrightarrow> es' ! l = (?es ! l)\<lparr>next1 := (if matching isFirst c es js = [] then next1 (?es ! l)
         else hd_ptr (matching isFirst c es js) None)\<rparr>"
      by (auto simp: m)
    have last: "lastValid \<noteq> Some j" using Cons.prems(5) by auto
    have run: "trim_loop fuel isFirst c es current lastValid newHead = trim_loop fuel' isFirst c ?es ?nxt lastValid newHead"
      using None j by (simp add: fuel started_def)
    have js_same: "?es ! i = es ! i" if "i \<in> set js" for i by (rule same) (use that j(3) in blast)
    have here: "es' ! j = ?e\<lparr>pe_value := ?p\<rparr>" using es'(5) j last by simp
    have 4: "\<forall>i \<in> set (j # js). pe_value (es' ! i) = advanced isFirst c (pe_value (es ! i)) \<and> next0 (es' ! i) = next0 (es ! i)"
      using es'(4) here None by (simp add: js_same) (simp add: advanced_def)
    have 5: "\<forall>i. i \<notin> set (j # js) \<longrightarrow> lastValid \<noteq> Some i \<longrightarrow> es' ! i = es ! i" using es'(5) by simp
    have 6: "\<forall>l. lastValid = Some l \<longrightarrow> es' ! l = (es ! l)\<lparr>next1 := (if matching isFirst c es js = [] then next1 (es ! l)
         else hd_ptr (matching isFirst c es js) None)\<rparr>"
    proof (intro allI impI)
      fix l assume l: "lastValid = Some l"
      then have "?es ! l = es ! l" using last by (intro same) auto
      with es'(6) l show "es' ! l = (es ! l)\<lparr>next1 := (if matching isFirst c es js = [] then next1 (es ! l)
         else hd_ptr (matching isFirst c es js) None)\<rparr>" by simp
    qed
    have m: "matching isFirst c es (j # js) = matching isFirst c es js" using None by simp
    show ?thesis unfolding m run by (intro exI [of _ es'] conjI es'(1-3) 4 5 6)
  next
    case (Some q)
    let ?link = "case lastValid of None \<Rightarrow> es | Some l \<Rightarrow> es[l := (es ! l)\<lparr>next1 := Some j\<rparr>]"
    let ?es = "?link[j := ?e\<lparr>pe_value := q, next1 := None\<rparr>]"
    let ?head = "case lastValid of None \<Rightarrow> Some j | Some l \<Rightarrow> newHead"
    have len: "length ?es = length es" by (simp split: option.splits)
    have last: "lastValid \<noteq> Some j" "\<And>l. lastValid = Some l \<Longrightarrow> l < length es \<and> l \<notin> set js \<and> l \<noteq> j"
      using Cons.prems(5) by auto
    have same: "?es ! i = es ! i" if "i \<noteq> j" "lastValid \<noteq> Some i" for i using that by (cases lastValid) simp_all
    have at: "?es ! j = ?e\<lparr>pe_value := q, next1 := None\<rparr>" using j(2) len by (auto split: option.splits)
    have at_last: "?es ! l = (es ! l)\<lparr>next1 := Some j\<rparr>" if "lastValid = Some l" for l using last(2) [OF that] that by simp
    have js_same: "?es ! i = es ! i" if "i \<in> set js" for i
      by (rule same) (use that j(3) last(2) [of i] in auto)
    have m: "matching isFirst c ?es js = matching isFirst c es js" by (rule matching_cong) (rule js_same)
    have "seg (\<lambda>i. if isFirst then next0 (?es ! i) else next1 (?es ! i)) ?nxt js None"
      by (rule follow_cong [of js _ es], rule js_same) (use Cons.prems(1) in auto)
    from Cons.IH [OF this j(4), of fuel' "Some j" ?head] Cons.prems(3-5) fuel len j
    obtain es' where es': "trim_loop fuel' isFirst c ?es ?nxt (Some j) ?head = Some (es', ?head)"
      "length es' = length es"
      "seg (\<lambda>i. next1 (es' ! i)) (hd_ptr (matching isFirst c es js) None) (matching isFirst c es js) None"
      "\<forall>i \<in> set js. pe_value (es' ! i) = advanced isFirst c (pe_value (?es ! i)) \<and> next0 (es' ! i) = next0 (?es ! i)"
      "\<forall>i. i \<notin> set js \<longrightarrow> Some j \<noteq> Some i \<longrightarrow> es' ! i = ?es ! i"
      "es' ! j = (?es ! j)\<lparr>next1 := (if matching isFirst c es js = [] then next1 (?es ! j)
         else hd_ptr (matching isFirst c es js) None)\<rparr>"
      by (auto simp: m)
    have run: "trim_loop fuel isFirst c es current lastValid newHead = trim_loop fuel' isFirst c ?es ?nxt (Some j) ?head"
      using Some j by (simp add: fuel started_def Let_def)
    have n1: "next1 (es' ! j) = hd_ptr (matching isFirst c es js) None" unfolding es'(6) at by (cases "matching isFirst c es js") auto
    have at_last': "es' ! l = (es ! l)\<lparr>next1 := Some j\<rparr>" if "lastValid = Some l" for l
      using es'(5) last(2) [OF that] at_last [OF that] by auto
    have vj: "pe_value (es' ! j) = q" "next0 (es' ! j) = next0 ?e" unfolding es'(6) at by simp_all
    have m: "matching isFirst c es (j # js) = j # matching isFirst c es js" using Some by simp
    have 1: "trim_loop fuel isFirst c es current lastValid newHead =
        Some (es', if lastValid = None then hd_ptr (j # matching isFirst c es js) newHead else newHead)"
      unfolding run es'(1) by (simp split: option.splits)
    have 3: "seg (\<lambda>i. next1 (es' ! i)) (hd_ptr (j # matching isFirst c es js) None) (j # matching isFirst c es js) None"
      using es'(3) n1 by simp
    have 4: "\<forall>i \<in> set (j # js). pe_value (es' ! i) = advanced isFirst c (pe_value (es ! i)) \<and> next0 (es' ! i) = next0 (es ! i)"
      using es'(4) vj Some by (simp add: js_same) (simp add: advanced_def)
    have 5: "\<forall>i. i \<notin> set (j # js) \<longrightarrow> lastValid \<noteq> Some i \<longrightarrow> es' ! i = es ! i"
    proof (intro allI impI)
      fix i assume i: "i \<notin> set (j # js)" "lastValid \<noteq> Some i"
      then have "es' ! i = ?es ! i" using es'(5) by auto
      also have "\<dots> = es ! i" by (rule same) (use i in auto)
      finally show "es' ! i = es ! i" .
    qed
    have 6: "\<forall>l. lastValid = Some l \<longrightarrow> es' ! l = (es ! l)\<lparr>next1 := (if j # matching isFirst c es js = [] then next1 (es ! l)
         else hd_ptr (j # matching isFirst c es js) None)\<rparr>" using at_last' by simp
    show ?thesis unfolding m by (intro exI [of _ es'] conjI 1 es'(2) 3 4 5 6)
  qed
qed

subsection \<open>What is left of a registered path\<close>

definition pattern :: "CoAPPath \<Rightarrow> u8 list" where
  "pattern p = take (pathSize p) (cp_path p)"

definition path_ok :: "CoAPPath \<Rightarrow> bool" where
  "path_ok p \<longleftrightarrow> pathSize p \<le> MAX_COAP_PATH_SIZE \<and> length (cp_path p) = MAX_COAP_PATH_SIZE"

definition remaining :: "CoAPPath \<Rightarrow> u8 list" where
  "remaining p = drop (pathProgressCounter p) (pattern p)"

fun adv :: "u8 list \<Rightarrow> u8 \<Rightarrow> u8 list option" where
  "adv [] c = (if c = 0 then Some [] else None)"
| "adv (x # xs) c =
     (if c = 0 then (if x = WILDCARD \<and> xs = [] then Some [x] else None)
      else if x = WILDCARD \<and> c \<noteq> SLASH then Some (x # xs)
      else if x = WILDCARD then (case xs of [] \<Rightarrow> None | y # ys \<Rightarrow> if y = c then Some ys else None)
      else if x = c then Some xs else None)"

text \<open>Of a path, only the progress changes.\<close>

definition same_path :: "CoAPPath \<Rightarrow> CoAPPath \<Rightarrow> bool" where
  "same_path p q \<longleftrightarrow> cp_path q = cp_path p \<and> pathSize q = pathSize p \<and> pHandler q = pHandler p"

lemma same_path_facts:
  "same_path p p" "same_path p q \<Longrightarrow> pattern q = pattern p" "same_path p q \<Longrightarrow> path_ok q = path_ok p"
  "same_path p q \<Longrightarrow> same_path q r \<Longrightarrow> same_path p r"
  by (simp_all add: same_path_def pattern_def path_ok_def)

lemma remaining_Cons:
  assumes "path_ok p" "remaining p = x # xs"
  shows "pathProgressCounter p < pathSize p" "cp_path p ! pathProgressCounter p = x"
    "xs = drop (Suc (pathProgressCounter p)) (pattern p)" "Suc (pathProgressCounter p) = pathSize p \<longleftrightarrow> xs = []"
proof -
  let ?k = "pathProgressCounter p"
  have len: "length (pattern p) = pathSize p" using assms(1) by (simp add: pattern_def path_ok_def)
  show k: "?k < pathSize p" using assms(2) len by (metis remaining_def drop_all list.distinct(1) not_le)
  then have "remaining p = pattern p ! ?k # drop (Suc ?k) (pattern p)"
    by (simp add: remaining_def Cons_nth_drop_Suc len)
  with assms(2) have e: "x = pattern p ! ?k" "xs = drop (Suc ?k) (pattern p)" by simp_all
  show "cp_path p ! ?k = x" using e(1) k by (simp add: pattern_def)
  show "xs = drop (Suc ?k) (pattern p)" by (rule e(2))
  show "Suc ?k = pathSize p \<longleftrightarrow> xs = []" using e(2) k len by auto
qed

lemma step_path_spec:
  assumes "path_ok p" "pathProgressCounter p \<le> pathSize p"
  shows "case adv (remaining p) c of None \<Rightarrow> step_path c p = None
    | Some r \<Rightarrow> \<exists>q. step_path c p = Some q \<and> same_path p q \<and> remaining q = r \<and> pathProgressCounter q \<le> pathSize q"
proof (cases "remaining p")
  case Nil
  have "length (pattern p) = pathSize p" using assms(1) by (simp add: pattern_def path_ok_def)
  with Nil assms(2) have "pathProgressCounter p = pathSize p" by (simp add: remaining_def)
  with Nil show ?thesis by (simp add: step_path_def Let_def same_path_def)
next
  case (Cons x xs)
  note r = remaining_Cons [OF assms(1) Cons]
  let ?k = "pathProgressCounter p"
  show ?thesis
  proof (cases "x = WILDCARD \<and> c = SLASH \<and> xs \<noteq> []")
    case True
    then obtain y ys where xs: "xs = y # ys" by (cases xs) auto
    have more: "Suc ?k < pathSize p" using r(1,4) True by auto
    have len: "length (pattern p) = pathSize p" using assms(1) by (simp add: pattern_def path_ok_def)
    have "drop (Suc ?k) (pattern p) = pattern p ! Suc ?k # drop (Suc (Suc ?k)) (pattern p)"
      using more len by (simp add: Cons_nth_drop_Suc)
    with r(3) xs have y: "y = cp_path p ! Suc ?k" "ys = drop (Suc (Suc ?k)) (pattern p)"
      using more by (auto simp: pattern_def)
    show ?thesis using True Cons xs r more y
      by (auto simp: step_path_def Let_def same_path_def remaining_def pattern_def)
  next
    case False
    with Cons r show ?thesis
      by (auto simp: step_path_def Let_def same_path_def remaining_def pattern_def split: list.splits)
  qed
qed

definition progress :: "u8 list \<Rightarrow> u8 list \<Rightarrow> u8 list option" where
  "progress pat cs = foldl (\<lambda>r c. Option.bind r (\<lambda>r. adv r c)) (Some pat) cs"

lemma progress_snoc: "progress pat (cs @ [c]) = Option.bind (progress pat cs) (\<lambda>r. adv r c)"
  by (simp add: progress_def)

lemma progress_Nil [simp]: "progress pat [] = Some pat"
  by (simp add: progress_def)

subsection \<open>The list while a request is read\<close>

definition same_elements :: "path_element list \<Rightarrow> path_element list \<Rightarrow> bool" where
  "same_elements es es' \<longleftrightarrow> length es' = length es \<and>
     (\<forall>i < length es. next0 (es' ! i) = next0 (es ! i) \<and> same_path (pe_value (es ! i)) (pe_value (es' ! i)))"

definition paths_ok :: "path_element list \<Rightarrow> ptr \<Rightarrow> nat list \<Rightarrow> bool" where
  "paths_ok es head used \<longleftrightarrow> seg (\<lambda>i. next0 (es ! i)) head used None \<and> distinct used \<and> set used \<subseteq> {..<length es} \<and>
     (\<forall>i < length es. path_ok (pe_value (es ! i)))"

definition candidates :: "path_element list \<Rightarrow> nat list \<Rightarrow> u8 list \<Rightarrow> nat list" where
  "candidates es used cs = filter (\<lambda>i. progress (pattern (pe_value (es ! i))) cs \<noteq> None) used"

definition tracked :: "path_element list \<Rightarrow> nat list \<Rightarrow> ptr \<Rightarrow> u8 list \<Rightarrow> bool" where
  "tracked es used head cs \<longleftrightarrow> head = hd_ptr (candidates es used cs) None \<and>
     seg (\<lambda>i. next1 (es ! i)) head (candidates es used cs) None \<and>
     (\<forall>i \<in> set (candidates es used cs). pathProgressCounter (pe_value (es ! i)) \<le> pathSize (pe_value (es ! i)) \<and>
        Some (remaining (pe_value (es ! i))) = progress (pattern (pe_value (es ! i))) cs)"

lemma same_elements_refl: "same_elements es es"
  by (simp add: same_elements_def same_path_facts)

lemma same_elements_trans: "same_elements a b \<Longrightarrow> same_elements b c \<Longrightarrow> same_elements a c"
  by (auto simp: same_elements_def intro: same_path_facts(4))

lemma same_elements_paths: "same_elements es es' \<Longrightarrow> paths_ok es head used \<Longrightarrow> paths_ok es' head used"
  unfolding paths_ok_def same_elements_def
  by (auto simp: same_path_facts subset_iff intro: seg_cong [THEN iffD1, rotated])

lemma same_elements_candidates:
  "same_elements es es' \<Longrightarrow> set used \<subseteq> {..<length es} \<Longrightarrow> candidates es' used cs = candidates es used cs"
  unfolding candidates_def by (rule filter_cong) (auto simp: same_elements_def same_path_facts)

lemma started_facts:
  "same_path p (started f p)" "started True p = p\<lparr>pathProgressCounter := 0\<rparr>" "started False p = p"
  by (simp_all add: started_def same_path_def)

lemma started_remaining:
  "remaining (started True p) = pattern p" "pathProgressCounter (started True p) \<le> pathSize (started True p)"
  "path_ok (started f p) = path_ok p" "pattern (started f p) = pattern p"
  by (simp_all add: started_def remaining_def pattern_def path_ok_def)

lemma advanced_same: "same_path p (advanced f c p)"
proof -
  have "step_path c q = Some r \<Longrightarrow> same_path q r" for q r
    by (auto simp: step_path_def Let_def same_path_def split: if_splits)
  then show ?thesis
    using started_facts(1) [of p f] by (auto simp: advanced_def split: option.splits intro: same_path_facts(4))
qed

lemma chain_bound:
  assumes "distinct js" "set js \<subseteq> {..<n :: nat}"
  shows "length js < Suc n"
  using card_mono [OF finite_lessThan assms(2)] distinct_card [OF assms(1)] by simp

text \<open>One character, over a chain whose paths have read \<open>cs\<close>: exactly the paths that match one character more are left.\<close>

lemma trim_chain:
  assumes ok: "paths_ok es uh used" and js: "distinct js" "set js \<subseteq> {..<length es}"
    and chain: "seg (\<lambda>i. if f then next0 (es ! i) else next1 (es ! i)) head js None"
    and read: "\<And>i. i \<in> set js \<Longrightarrow> pathProgressCounter (started f (pe_value (es ! i))) \<le> pathSize (started f (pe_value (es ! i))) \<and>
        Some (remaining (started f (pe_value (es ! i)))) = progress (pattern (pe_value (es ! i))) cs"
    and all: "js = candidates es used cs"
  shows "\<exists>es' head'. trimListBasedOnNewCharacter es head c f = Some (es', head') \<and> same_elements es es' \<and>
    tracked es' used head' (cs @ [c])"
proof -
  have used: "set used \<subseteq> {..<length es}" using ok by (simp add: paths_ok_def)
  obtain es' where es': "trim_loop (Suc (length es)) f c es head None None = Some (es', hd_ptr (matching f c es js) None)"
    "length es' = length es"
    "seg (\<lambda>i. next1 (es' ! i)) (hd_ptr (matching f c es js) None) (matching f c es js) None"
    "\<forall>i \<in> set js. pe_value (es' ! i) = advanced f c (pe_value (es ! i)) \<and> next0 (es' ! i) = next0 (es ! i)"
    "\<forall>i. i \<notin> set js \<longrightarrow> es' ! i = es ! i"
    using trim_loop_spec [OF chain js chain_bound [OF js], of None c None] by auto
  have same: "same_elements es es'" unfolding same_elements_def
  proof (intro conjI allI impI)
    fix i assume "i < length es"
    show "next0 (es' ! i) = next0 (es ! i)" "same_path (pe_value (es ! i)) (pe_value (es' ! i))"
      using es'(4,5) by (cases "i \<in> set js"; simp add: advanced_same same_path_facts)+
  qed (rule es'(2))
  have step: "case adv (the (progress (pattern (pe_value (es ! i))) cs)) c of
      None \<Rightarrow> step_path c (started f (pe_value (es ! i))) = None
    | Some r \<Rightarrow> \<exists>q. step_path c (started f (pe_value (es ! i))) = Some q \<and> same_path (started f (pe_value (es ! i))) q \<and>
        remaining q = r \<and> pathProgressCounter q \<le> pathSize q"
    and prog: "progress (pattern (pe_value (es ! i))) (cs @ [c]) = adv (the (progress (pattern (pe_value (es ! i))) cs)) c"
    if i: "i \<in> set js" for i
  proof -
    have "path_ok (started f (pe_value (es ! i)))" using ok i js(2) by (auto simp: paths_ok_def started_remaining)
    note sp = step_path_spec [OF this, of c]
    have e: "progress (pattern (pe_value (es ! i))) cs = Some (remaining (started f (pe_value (es ! i))))"
      using read [OF i] by simp
    from sp read [OF i] show "case adv (the (progress (pattern (pe_value (es ! i))) cs)) c of
      None \<Rightarrow> step_path c (started f (pe_value (es ! i))) = None
    | Some r \<Rightarrow> \<exists>q. step_path c (started f (pe_value (es ! i))) = Some q \<and> same_path (started f (pe_value (es ! i))) q \<and>
        remaining q = r \<and> pathProgressCounter q \<le> pathSize q"
      unfolding e option.sel by blast
    show "progress (pattern (pe_value (es ! i))) (cs @ [c]) = adv (the (progress (pattern (pe_value (es ! i))) cs)) c"
      by (simp add: progress_snoc e)
  qed
  have matches: "step_path c (started f (pe_value (es ! i))) \<noteq> None \<longleftrightarrow> progress (pattern (pe_value (es ! i))) (cs @ [c]) \<noteq> None"
    if "i \<in> set js" for i using step [OF that] prog [OF that] by (auto split: option.splits)
  have "matching f c es js = filter (\<lambda>i. progress (pattern (pe_value (es ! i))) (cs @ [c]) \<noteq> None) js"
    unfolding matching_def by (rule filter_cong [OF refl matches])
  also have "\<dots> = candidates es used (cs @ [c])"
    unfolding all candidates_def filter_filter by (rule filter_cong) (auto simp: progress_snoc Option.bind_eq_Some_conv)
  finally have m: "matching f c es js = candidates es' used (cs @ [c])"
    using same_elements_candidates [OF same used] by simp
  have "pathProgressCounter (pe_value (es' ! i)) \<le> pathSize (pe_value (es' ! i)) \<and>
      Some (remaining (pe_value (es' ! i))) = progress (pattern (pe_value (es' ! i))) (cs @ [c])"
    if i: "i \<in> set (matching f c es js)" for i
  proof -
    have ij: "i \<in> set js" using i by (simp add: matching_def)
    obtain q where q: "step_path c (started f (pe_value (es ! i))) = Some q" using i by (auto simp: matching_def)
    have "pe_value (es' ! i) = q" using es'(4) ij q by (simp add: advanced_def)
    moreover have "pattern q = pattern (pe_value (es ! i))"
      using step [OF ij] q started_remaining(4) same_path_facts(2) by (auto split: option.splits)
    ultimately show ?thesis using step [OF ij] prog [OF ij] q by (auto split: option.splits)
  qed
  then have "tracked es' used (hd_ptr (matching f c es js) None) (cs @ [c])"
    using es'(3) unfolding m by (simp add: tracked_def)
  with es'(1) same show ?thesis by (simp add: trimListBasedOnNewCharacter_def)
qed

lemma trim_next:
  assumes ok: "paths_ok es uh used" and t: "tracked es used head cs"
  shows "\<exists>es' head'. trimListBasedOnNewCharacter es head c False = Some (es', head') \<and> same_elements es es' \<and>
    tracked es' used head' (cs @ [c])"
proof (rule trim_chain [OF ok])
  show "distinct (candidates es used cs)" "set (candidates es used cs) \<subseteq> {..<length es}"
    using ok by (auto simp: paths_ok_def candidates_def)
  show "seg (\<lambda>i. if False then next0 (es ! i) else next1 (es ! i)) head (candidates es used cs) None"
    using t unfolding tracked_def by auto
qed (use t in \<open>auto simp: tracked_def started_facts\<close>)

lemma trim_first:
  assumes ok: "paths_ok es uh used"
  shows "\<exists>es' head'. trimListBasedOnNewCharacter es uh c True = Some (es', head') \<and> same_elements es es' \<and>
    tracked es' used head' [c]"
proof -
  have all: "used = candidates es used []" by (simp add: candidates_def)
  have "\<exists>es' head'. trimListBasedOnNewCharacter es uh c True = Some (es', head') \<and> same_elements es es' \<and>
      tracked es' used head' ([] @ [c])"
    by (rule trim_chain [OF ok _ _ _ _ all]) (use ok in \<open>auto simp: paths_ok_def started_remaining\<close>)
  then show ?thesis by simp
qed

subsection \<open>Segments\<close>

text \<open>Paths as lists of segments, each led in by a slash.\<close>

definition joined :: "u8 list list \<Rightarrow> u8 list" where
  "joined ss = concat (map (\<lambda>s. SLASH # s) ss)"

definition segment_fits :: "u8 list \<Rightarrow> u8 list \<Rightarrow> bool" where
  "segment_fits s t \<longleftrightarrow> s = [WILDCARD] \<or> s = t"

definition plain :: "u8 list \<Rightarrow> bool" where
  "plain t \<longleftrightarrow> SLASH \<notin> set t \<and> 0 \<notin> set t"

definition segment_ok :: "u8 list \<Rightarrow> bool" where
  "segment_ok s \<longleftrightarrow> s = [WILDCARD] \<or> plain s \<and> WILDCARD \<notin> set s"

fun accepts :: "u8 list \<Rightarrow> u8 list \<Rightarrow> bool" where
  "accepts pat [] = (pat = [] \<or> pat = [WILDCARD])"
| "accepts pat (c # cs) = (case adv pat c of None \<Rightarrow> False | Some r \<Rightarrow> accepts r cs)"

lemma progress_None: "foldl (\<lambda>r c. Option.bind r (\<lambda>r. adv r c)) None cs = None"
  by (induction cs) simp_all

lemma progress_accepts: "0 \<notin> set cs \<Longrightarrow> progress pat (cs @ [0]) \<noteq> None \<longleftrightarrow> accepts pat cs"
proof (induction cs arbitrary: pat)
  case Nil
  show ?case by (cases pat) (auto simp: progress_def)
next
  case (Cons c cs)
  then show ?case by (cases "adv pat c") (auto simp: progress_def progress_None)
qed

definition at_slash :: "u8 list \<Rightarrow> bool" where
  "at_slash xs \<longleftrightarrow> xs = [] \<or> hd xs = SLASH"

lemma joined_at_slash: "at_slash (joined ss)"
  by (cases ss) (simp_all add: joined_def at_slash_def)

lemma accepts_literal:
  assumes "plain s" "WILDCARD \<notin> set s" "plain t" "at_slash P" "at_slash T"
  shows "accepts (s @ P) (t @ T) \<longleftrightarrow> s = t \<and> accepts P T"
  using assms
proof (induction s arbitrary: t)
  case Nil
  show ?case
  proof (cases t)
    case (Cons c t')
    with Nil show ?thesis by (cases P) (auto simp: plain_def at_slash_def)
  qed simp
next
  case (Cons x s)
  show ?case
  proof (cases t)
    case Nil
    then show ?thesis using Cons.prems by (cases T) (auto simp: plain_def at_slash_def)
  next
    case t: (Cons c t')
    have "accepts (s @ P) (t' @ T) \<longleftrightarrow> s = t' \<and> accepts P T"
      by (rule Cons.IH) (use Cons.prems t in \<open>auto simp: plain_def\<close>)
    then show ?thesis using Cons.prems t by (auto simp: plain_def)
  qed
qed

lemma accepts_wildcard:
  assumes "plain t" "at_slash P" "at_slash T"
  shows "accepts (WILDCARD # P) (t @ T) \<longleftrightarrow> accepts P T"
  using assms(1)
proof (induction t)
  case Nil
  show ?case using assms(2,3) by (cases T; cases P) (auto simp: at_slash_def)
next
  case (Cons c t)
  then show ?case by (auto simp: plain_def)
qed

lemma accepts_segments:
  assumes "list_all segment_ok ss" "list_all plain ts"
  shows "accepts (joined ss) (joined ts) \<longleftrightarrow> list_all2 segment_fits ss ts"
  using assms
proof (induction ss arbitrary: ts)
  case Nil
  then show ?case by (cases ts) (auto simp: joined_def)
next
  case (Cons s ss)
  show ?case
  proof (cases ts)
    case Nil
    then show ?thesis by (auto simp: joined_def)
  next
    case ts: (Cons t ts')
    have "accepts (joined (s # ss)) (joined ts) \<longleftrightarrow> accepts (s @ joined ss) (t @ joined ts')"
      by (simp add: joined_def ts)
    also have "\<dots> \<longleftrightarrow> segment_fits s t \<and> accepts (joined ss) (joined ts')"
    proof (cases "s = [WILDCARD]")
      case True
      then show ?thesis using accepts_wildcard [OF _ joined_at_slash joined_at_slash, of t ss ts'] Cons.prems ts
        by (simp add: segment_fits_def)
    next
      case False
      then have "plain s" "WILDCARD \<notin> set s" using Cons.prems by (simp_all add: segment_ok_def)
      then show ?thesis using accepts_literal [OF _ _ _ joined_at_slash joined_at_slash, of s t ss ts'] Cons.prems ts False
        by (simp add: segment_fits_def)
    qed
    finally show ?thesis using Cons ts by simp
  qed
qed

text \<open>After the whole path and its terminating zero the chain starts with the first registered path whose
  segments fit.\<close>

lemma candidates_found:
  assumes "\<And>i. i \<in> set used \<Longrightarrow> pattern (pe_value (es ! i)) = joined (pats i) \<and> list_all segment_ok (pats i)"
    and "list_all plain ts"
  shows "candidates es used (joined ts @ [0]) = filter (\<lambda>i. list_all2 segment_fits (pats i) ts) used"
proof -
  have "0 \<notin> set (joined ts)" using assms(2) by (auto simp: joined_def plain_def list_all_iff)
  then show ?thesis unfolding candidates_def
    using assms accepts_segments by (intro filter_cong) (simp_all add: progress_accepts del: not_None_eq)
qed

end
