(* ===== verification/Coap_Requests.thy ===== *)
theory Coap_Requests
  imports Coap_Matching
begin

text \<open>
  Reading a request: while its path has at most 100 characters, no access leaves the packet or the local array
  \<open>path\<close>, and the chain of registered paths follows the characters read so far.
\<close>

subsection \<open>The state of the path\<close>

lemma candidates_extend:
  assumes "candidates es used cs = []"
  shows "candidates es used (cs @ ds) = []"
proof (induction ds rule: rev_induct)
  case (snoc d ds)
  then have "progress (pattern (pe_value (es ! i))) (cs @ ds) = None" if "i \<in> set used" for i
    using that by (auto simp: candidates_def filter_empty_conv)
  then show ?case by (simp add: candidates_def filter_empty_conv progress_snoc flip: append_assoc)
qed (use assms in simp)

definition reading :: "path_element list \<Rightarrow> ptr \<Rightarrow> nat list \<Rightarrow> path_state \<Rightarrow> u8 list \<Rightarrow> bool" where
  "reading es uh used st cs \<longleftrightarrow> same_elements es (ps_elements st) \<and> length (ps_path st) = 101 \<and> ps_size st \<le> 100 \<and>
     (if ps_head st = None then candidates es used cs = []
      else ps_size st = length cs \<and> take (length cs) (ps_path st) = cs \<and>
        (if cs = [] then ps_head st = uh else tracked (ps_elements st) used (ps_head st) cs))"

text \<open>The state inside an option: \<open>n\<close> characters before it, \<open>cs\<close> read so far.\<close>

definition inside :: "path_element list \<Rightarrow> nat list \<Rightarrow> nat \<Rightarrow> path_state \<Rightarrow> u8 list \<Rightarrow> bool" where
  "inside es used n st cs \<longleftrightarrow> same_elements es (ps_elements st) \<and> length (ps_path st) = 101 \<and> ps_size st = n \<and>
     (if ps_head st = None then candidates es used cs = []
      else take (length cs) (ps_path st) = cs \<and> tracked (ps_elements st) used (ps_head st) cs)"

lemma tracked_None:
  assumes "tracked es' used None cs" "same_elements es es'" "paths_ok es uh used"
  shows "candidates es used cs = []"
proof -
  have "hd_ptr (candidates es' used cs) None = None" using assms(1) by (simp add: tracked_def)
  then have "candidates es' used cs = []" by (cases "candidates es' used cs") auto
  with same_elements_candidates [OF assms(2)] assms(3) show ?thesis by (simp add: paths_ok_def)
qed

lemma inside_step:
  assumes ok: "paths_ok es uh used" and i: "inside es used n st cs" "ps_head st \<noteq> None" "length cs \<le> 100"
  shows "\<exists>es' head'. trimListBasedOnNewCharacter (ps_elements st) (ps_head st) c False = Some (es', head') \<and>
    inside es used n (st\<lparr>ps_elements := es', ps_head := head', ps_path := (ps_path st)[length cs := c]\<rparr>) (cs @ [c])"
proof -
  have same: "same_elements es (ps_elements st)" and t: "tracked (ps_elements st) used (ps_head st) cs"
    using i(1,2) by (auto simp: inside_def)
  obtain es' head' where r: "trimListBasedOnNewCharacter (ps_elements st) (ps_head st) c False = Some (es', head')"
    "same_elements (ps_elements st) es'" "tracked es' used head' (cs @ [c])"
    using trim_next [OF same_elements_paths [OF same ok] t] by blast
  have s: "same_elements es es'" by (rule same_elements_trans [OF same r(2)])
  have "take (length (cs @ [c])) ((ps_path st)[length cs := c]) = cs @ [c]"
    using i by (auto simp: inside_def take_Suc_conv_app_nth)
  then show ?thesis
    using r s i tracked_None [OF _ s ok] by (intro exI [of _ es'] exI [of _ head']) (auto simp: inside_def)
qed

lemma path_characters_spec:
  assumes ok: "paths_ok es uh used" and v: "v = take len (drop off p)" "off + len \<le> length p" "n + 1 + len \<le> 100"
  shows "i \<le> len \<Longrightarrow> length cs = n + 1 + i \<Longrightarrow> inside es used n st cs \<Longrightarrow>
    \<exists>st'. path_characters p off [i..<len] st = Some st' \<and> inside es used n st' (cs @ drop i v)"
proof (induction "len - i" arbitrary: i st cs)
  case 0
  then show ?case using v by (intro exI [of _ st]) simp
next
  case (Suc d)
  have il: "i < len" "[i..<len] = i # [Suc i..<len]" using Suc.hyps(2) by (simp_all add: upt_rec)
  show ?case
  proof (cases "ps_head st = None")
    case True
    then have "candidates es used cs = []" using Suc.prems(3) by (simp add: inside_def)
    from candidates_extend [OF this] True Suc.prems(3) il show ?thesis by (simp add: inside_def)
  next
    case False
    let ?c = "p ! (off + i)"
    have "length cs \<le> 100" using Suc.prems(2) il v(3) by simp
    from inside_step [OF ok Suc.prems(3) False this, of ?c] obtain es' head' where
      t: "trimListBasedOnNewCharacter (ps_elements st) (ps_head st) ?c False = Some (es', head')"
      "inside es used n (st\<lparr>ps_elements := es', ps_head := head', ps_path := (ps_path st)[length cs := ?c]\<rparr>) (cs @ [?c])"
      by blast
    have d: "d = len - Suc i" using Suc.hyps(2) by simp
    from Suc.hyps(1) [OF d, of "cs @ [?c]" "st\<lparr>ps_elements := es', ps_head := head', ps_path := (ps_path st)[length cs := ?c]\<rparr>"]
    obtain st' where st': "path_characters p off [Suc i..<len] (st\<lparr>ps_elements := es', ps_head := head', ps_path := (ps_path st)[length cs := ?c]\<rparr>) = Some st'"
      "inside es used n st' ((cs @ [?c]) @ drop (Suc i) v)"
      using Suc.prems(2) t(2) il by auto
    have "drop i v = v ! i # drop (Suc i) v" using il v by (intro Cons_nth_drop_Suc [symmetric]) simp
    moreover have "v ! i = ?c" using il v by simp
    moreover have "ps_size st = n" "length (ps_path st) = 101" using Suc.prems(3) by (simp_all add: inside_def)
    ultimately show ?thesis using il v t(1) st' Suc.prems(2) False by auto
  qed
qed

lemma uri_path_spec:
  assumes ok: "paths_ok es uh used" and st: "reading es uh used st cs" "ps_head st \<noteq> None"
    and v: "v = take len (drop off p)" "off + len \<le> length p" "length cs + 1 + len \<le> 100"
  shows "\<exists>st'. uri_path_option p off len st = Some st' \<and> reading es uh used st' (cs @ SLASH # v) \<and>
    ps_size st' = ps_size st + (1 + len)"
proof -
  have size: "ps_size st = length cs" "length (ps_path st) = 101" "take (length cs) (ps_path st) = cs"
    and same: "same_elements es (ps_elements st)" using st by (auto simp: reading_def)
  have "\<exists>es' head'. trimListBasedOnNewCharacter (ps_elements st) (ps_head st) SLASH (cs = []) = Some (es', head') \<and>
      same_elements (ps_elements st) es' \<and> tracked es' used head' (cs @ [SLASH])"
  proof (cases "cs = []")
    case True
    then show ?thesis using st trim_first [OF same_elements_paths [OF same ok], of SLASH] by (simp add: reading_def)
  next
    case False
    then show ?thesis using st trim_next [OF same_elements_paths [OF same ok], of "ps_head st" cs SLASH] by (simp add: reading_def)
  qed
  then obtain es' head' where t: "trimListBasedOnNewCharacter (ps_elements st) (ps_head st) SLASH (cs = []) = Some (es', head')"
    "same_elements (ps_elements st) es'" "tracked es' used head' (cs @ [SLASH])" by blast
  let ?st = "st\<lparr>ps_elements := es', ps_head := head', ps_path := (ps_path st)[length cs := SLASH]\<rparr>"
  have s: "same_elements es es'" by (rule same_elements_trans [OF same t(2)])
  have "take (length (cs @ [SLASH])) ((ps_path st)[length cs := SLASH]) = cs @ [SLASH]"
    using size v(3) by (simp add: take_Suc_conv_app_nth)
  then have ins: "inside es used (length cs) ?st (cs @ [SLASH])"
    using t(3) s size tracked_None [OF _ s ok] by (auto simp: inside_def)
  have "\<exists>st'. path_characters p off [0..<len] ?st = Some st' \<and> inside es used (length cs) st' ((cs @ [SLASH]) @ drop 0 v)"
    by (rule path_characters_spec [OF ok v]) (use ins in simp_all)
  then obtain st' where st': "path_characters p off [0..<len] ?st = Some st'" "inside es used (length cs) st' (cs @ SLASH # v)"
    by auto
  have "uri_path_option p off len st = Some (st'\<lparr>ps_size := ps_size st' + (1 + len)\<rparr>)"
    using size v(3) t(1) st'(1) by (simp add: uri_path_option_def)
  moreover have "length v = len" using v by simp
  ultimately show ?thesis using st'(2) size v(3) by (auto simp: reading_def inside_def split: if_splits)
qed

end
