(* ===== verification/Coap_Responses.thy ===== *)
theory Coap_Responses
  imports Coap_Requests
begin

text \<open>
  The whole handling of a request: the segments its Uri-Path options spell, the registered path they select,
  and the writes of the response, which stay inside the send buffer.
\<close>

subsection \<open>Options\<close>

lemma byte_fields:
  "unat (drop_bit 4 (b AND 0xF0 :: u8)) < 16" "unat (b AND 0x0F :: u8) < 16"
proof -
  have "drop_bit 4 (b AND 0xF0) = drop_bit 4 b AND 0x0F" by (rule bit_word_eqI) (auto simp: bit_simps)
  moreover have "x AND 0x0F < 16" for x :: u8
    using word_and_le1 [of x "0x0F"] by (simp add: word_less_nat_alt word_le_nat_alt)
  ultimately show "unat (drop_bit 4 (b AND 0xF0)) < 16" "unat (b AND 0x0F) < 16"
    by (simp_all add: word_less_nat_alt)
qed

lemma extended_value_total:
  assumes "off + extended_bytes v < length p"
  shows "\<exists>w. extended_value p v off = Some (w, off + extended_bytes v)"
  using assms by (auto simp: extended_value_def extended_bytes_def)

lemma parse_option_total:
  assumes "off < length p"
  shows "parse_option p off num \<noteq> None"
    "parse_option p off num = Some (Next (n, off', l)) \<Longrightarrow> off < off' \<and> off' + l \<le> length p"
proof -
  let ?d = "unat (drop_bit 4 (p ! off AND 0xF0))" and ?l = "unat (p ! off AND 0x0F)"
  have "parse_option p off num \<noteq> None \<and>
    (parse_option p off num = Some (Next (n, off', l)) \<longrightarrow> off < off' \<and> off' + l \<le> length p)"
  proof (cases "length p \<le> off + (extended_bytes ?d + extended_bytes ?l)")
    case True
    then show ?thesis using assms by (simp add: parse_option_def Let_def)
  next
    case False
    obtain d where d: "extended_value p ?d off = Some (d, off + extended_bytes ?d)"
      using extended_value_total [of off ?d p] False by auto
    obtain m where m: "extended_value p ?l (off + extended_bytes ?d) = Some (m, off + extended_bytes ?d + extended_bytes ?l)"
      using extended_value_total [of "off + extended_bytes ?d" ?l p] False by auto
    show ?thesis using assms False d m by (auto simp: parse_option_def Let_def split: if_splits)
  qed
  then show "parse_option p off num \<noteq> None"
    "parse_option p off num = Some (Next (n, off', l)) \<Longrightarrow> off < off' \<and> off' + l \<le> length p" by blast+
qed

text \<open>The segments of the request: the values of its Uri-Path options.\<close>

fun uri_paths :: "nat \<Rightarrow> u8 list \<Rightarrow> nat \<Rightarrow> nat \<Rightarrow> u8 list list" where
  "uri_paths 0 p off num = []"
| "uri_paths (Suc fuel) p off num =
     (if \<not> (off < length p \<and> p ! off \<noteq> 0xFF) then []
      else case parse_option p off num of
        Some (Next (num, off, l)) \<Rightarrow>
          (if num = 11 then take l (drop off p) # uri_paths fuel p (off + l) num else uri_paths fuel p (off + l) num)
      | _ \<Rightarrow> [])"

lemma joined_Cons [simp]: "joined [] = []" "joined (s # ss) = SLASH # s @ joined ss"
  by (simp_all add: joined_def)

lemma reading_extend:
  assumes "reading es uh used st cs" "ps_head st = None"
  shows "reading es uh used st (cs @ ds)"
  using assms candidates_extend by (simp add: reading_def)

lemma options_spec:
  assumes ok: "paths_ok es uh used"
  shows "reading es uh used st cs \<Longrightarrow> length p - off < fuel \<Longrightarrow> length (cs @ joined (uri_paths fuel p off num)) \<le> 100 \<Longrightarrow>
    \<exists>st' r. options_loop fuel p off num fmt st = Some (st', r) \<and> same_elements es (ps_elements st') \<and>
      (case r of Return \<Rightarrow> True
       | Next (off', fmt') \<Rightarrow> reading es uh used st' (cs @ joined (uri_paths fuel p off num)) \<and> off \<le> off')"
proof (induction fuel arbitrary: off num fmt st cs)
  case (Suc fuel)
  show ?case
  proof (cases "off < length p \<and> p ! off \<noteq> 0xFF")
    case False
    then show ?thesis using Suc.prems(1) by (auto simp: reading_def)
  next
    case on: True
    obtain opt where opt: "parse_option p off num = Some opt" using parse_option_total(1) on by blast
    show ?thesis
    proof (cases opt)
      case Return
      then show ?thesis using on opt Suc.prems(1) by (auto simp: reading_def)
    next
      case (Next t)
      obtain n o' l where t: "t = (n, o', l)" by (cases t) auto
      have o': "off < o'" "o' + l \<le> length p" using parse_option_total(2) on opt Next t by blast+
      then have fuel: "length p - (o' + l) < fuel" using Suc.prems(2) by simp
      note sub = Suc.IH [OF _ fuel]
      let ?rest = "uri_paths fuel p (o' + l) n" and ?v = "take l (drop o' p)"
      have go: "uri_paths (Suc fuel) p off num = (if n = 11 then ?v # ?rest else ?rest)"
        using on opt Next t by simp
      show ?thesis
      proof (cases "n = 11")
        case True
        then have total: "length cs + 1 + l \<le> 100" "length ((cs @ SLASH # ?v) @ joined ?rest) \<le> 100"
          using Suc.prems(3) [unfolded go] o' by simp_all
        have "\<exists>st1. (if ps_head st \<noteq> None then uri_path_option p o' l st else Some st) = Some st1 \<and>
            reading es uh used st1 (cs @ SLASH # ?v)"
        proof (cases "ps_head st = None")
          case True
          then show ?thesis using reading_extend [OF Suc.prems(1)] by auto
        next
          case False
          from uri_path_spec [OF ok Suc.prems(1) this refl o'(2) total(1)] show ?thesis using False by auto
        qed
        then obtain st1 where st1: "(if ps_head st \<noteq> None then uri_path_option p o' l st else Some st) = Some st1"
          "reading es uh used st1 (cs @ SLASH # ?v)" by blast
        have "options_loop (Suc fuel) p off num fmt st = options_loop fuel p (o' + l) n fmt st1"
          using on opt Next t True st1(1) by (auto split: if_splits)
        with sub [OF st1(2) total(2), of fmt] o' True show ?thesis unfolding go by (fastforce split: step.splits)
      next
        case n11: False
        have total: "length (cs @ joined ?rest) \<le> 100" using Suc.prems(3) [unfolded go] n11 by simp
        show ?thesis
        proof (cases "n = 12")
          case False
          have "options_loop (Suc fuel) p off num fmt st = options_loop fuel p (o' + l) n fmt st"
            using on opt Next t n11 False by simp
          with sub [OF Suc.prems(1) total, of fmt] o' n11 show ?thesis unfolding go by (fastforce split: step.splits)
        next
          case True
          have "content_format_option p o' l \<noteq> None" using o' by (simp add: content_format_option_def)
          then obtain r where r: "content_format_option p o' l = Some r" by blast
          show ?thesis
          proof (cases r)
            case Return
            then show ?thesis using on opt Next t True r Suc.prems(1) by (auto simp: reading_def)
          next
            case (Next fmt1)
            have "options_loop (Suc fuel) p off num fmt st = options_loop fuel p (o' + l) n fmt1 st"
              using on opt \<open>opt = step.Next t\<close> t True r Next by simp
            with sub [OF Suc.prems(1) total, of fmt1] o' n11 show ?thesis unfolding go by (fastforce split: step.splits)
          qed
        qed
      qed
    qed
  qed
qed simp

subsection \<open>The end of the path\<close>

definition whole_path :: "u8 list \<Rightarrow> u8 list" where
  "whole_path cs = (if cs = [] then [SLASH] else cs)"

definition found :: "path_element list \<Rightarrow> nat list \<Rightarrow> path_state \<Rightarrow> u8 list \<Rightarrow> bool" where
  "found es used st cs \<longleftrightarrow> same_elements es (ps_elements st) \<and>
     ps_head st = hd_ptr (candidates es used (whole_path cs @ [0])) None \<and>
     (ps_head st \<noteq> None \<longrightarrow> take (ps_size st) (ps_path st) = whole_path cs)"

lemma trim_none [simp]: "trimListBasedOnNewCharacter es None c f = Some (es, None)"
  by (simp add: trimListBasedOnNewCharacter_def)

lemma terminate_spec:
  assumes ok: "paths_ok es uh used" and i: "inside es used n st cs" "n \<le> 100" "ps_head st \<noteq> None \<Longrightarrow> n = length cs"
    and cs: "ps_head st \<noteq> None \<Longrightarrow> whole_path ds = cs" "ps_head st = None \<Longrightarrow> \<exists>xs. whole_path ds = cs @ xs"
  shows "\<exists>es' head'. trimListBasedOnNewCharacter (ps_elements st) (ps_head st) 0 False = Some (es', head') \<and>
    found es used (st\<lparr>ps_elements := es', ps_head := head', ps_path := (ps_path st)[ps_size st := 0]\<rparr>) ds"
proof (cases "ps_head st = None")
  case True
  then have none: "candidates es used cs = []" "same_elements es (ps_elements st)" using i by (simp_all add: inside_def)
  obtain xs where "whole_path ds = cs @ xs" using cs(2) True by blast
  then have "candidates es used (whole_path ds @ [0]) = []" using candidates_extend [OF none(1)] by simp
  with True none(2) show ?thesis by (simp add: found_def)
next
  case False
  have same: "same_elements es (ps_elements st)" and t: "tracked (ps_elements st) used (ps_head st) cs"
    and size: "ps_size st = length cs" "take (length cs) (ps_path st) = cs"
    using i False by (auto simp: inside_def)
  obtain es' head' where r: "trimListBasedOnNewCharacter (ps_elements st) (ps_head st) 0 False = Some (es', head')"
    "same_elements (ps_elements st) es'" "tracked es' used head' (cs @ [0])"
    using trim_next [OF same_elements_paths [OF same ok] t] by blast
  have s: "same_elements es es'" by (rule same_elements_trans [OF same r(2)])
  have "candidates es' used (cs @ [0]) = candidates es used (cs @ [0])"
    using same_elements_candidates [OF s] ok by (simp add: paths_ok_def)
  with r s size cs(1) False show ?thesis by (auto simp: found_def tracked_def)
qed

lemma finish_spec:
  assumes ok: "paths_ok es uh used" and st: "reading es uh used st cs"
  shows "\<exists>st'. finish_path st = Some st' \<and> found es used st' cs"
proof -
  have len: "length (ps_path st) = 101" "ps_size st \<le> 100" and same: "same_elements es (ps_elements st)"
    using st by (auto simp: reading_def)
  have "\<exists>st1 ds. (if ps_size st = 0 then do {
         path \<leftarrow> arr_set (ps_path st) 0 SLASH;
         (es, head) \<leftarrow> trimListBasedOnNewCharacter (ps_elements st) (ps_head st) SLASH True;
         Some (st\<lparr>ps_elements := es, ps_head := head, ps_path := path, ps_size := 1\<rparr>) }
       else Some st) = Some st1 \<and> inside es used (ps_size st1) st1 ds \<and> ps_size st1 \<le> 100 \<and>
       (ps_head st1 \<noteq> None \<longrightarrow> ps_size st1 = length ds \<and> whole_path cs = ds) \<and>
       (ps_head st1 = None \<longrightarrow> (\<exists>xs. whole_path cs = ds @ xs))"
  proof (cases "ps_size st = 0")
    case False
    have "whole_path cs = cs @ (if cs = [] then [SLASH] else [])" by (simp add: whole_path_def)
    then show ?thesis using False st by (intro exI [of _ st] exI [of _ cs]) (auto simp: reading_def inside_def split: if_splits)
  next
    case zero: True
    show ?thesis
    proof (cases "ps_head st = None")
      case True
      have "candidates es used cs = []" using st True by (simp add: reading_def)
      moreover have "whole_path cs = cs @ (if cs = [] then [SLASH] else [])" by (simp add: whole_path_def)
      ultimately show ?thesis using zero True len same
        by (intro exI [of _ "st\<lparr>ps_path := (ps_path st)[0 := SLASH], ps_size := 1\<rparr>"] exI [of _ cs]) (auto simp: inside_def)
    next
      case False
      then have cs: "cs = []" "ps_head st = uh" using st zero by (auto simp: reading_def split: if_splits)
      obtain es' head' where t: "trimListBasedOnNewCharacter (ps_elements st) uh SLASH True = Some (es', head')"
        "same_elements (ps_elements st) es'" "tracked es' used head' [SLASH]"
        using trim_first [OF same_elements_paths [OF same ok]] by blast
      have s: "same_elements es es'" by (rule same_elements_trans [OF same t(2)])
      have "take 1 ((ps_path st)[0 := SLASH]) = [SLASH]" using len by (cases "ps_path st") auto
      then show ?thesis using zero cs t s len tracked_None [OF _ s ok]
        by (intro exI [of _ "st\<lparr>ps_elements := es', ps_head := head', ps_path := (ps_path st)[0 := SLASH], ps_size := 1\<rparr>"]
          exI [of _ "[SLASH]"]) (auto simp: inside_def whole_path_def)
    qed
  qed
  then obtain st1 ds where st1: "(if ps_size st = 0 then do {
         path \<leftarrow> arr_set (ps_path st) 0 SLASH;
         (es, head) \<leftarrow> trimListBasedOnNewCharacter (ps_elements st) (ps_head st) SLASH True;
         Some (st\<lparr>ps_elements := es, ps_head := head, ps_path := path, ps_size := 1\<rparr>) }
       else Some st) = Some st1" and ds: "inside es used (ps_size st1) st1 ds" "ps_size st1 \<le> 100"
       "ps_head st1 \<noteq> None \<Longrightarrow> ps_size st1 = length ds" "ps_head st1 \<noteq> None \<Longrightarrow> whole_path cs = ds"
       "ps_head st1 = None \<Longrightarrow> \<exists>xs. whole_path cs = ds @ xs" by blast
  obtain es' head' where e: "trimListBasedOnNewCharacter (ps_elements st1) (ps_head st1) 0 False = Some (es', head')"
    "found es used (st1\<lparr>ps_elements := es', ps_head := head', ps_path := (ps_path st1)[ps_size st1 := 0]\<rparr>) cs"
    using terminate_spec [OF ok ds] by blast
  have "length (ps_path st1) = 101" using ds(1) by (simp add: inside_def)
  with e ds(2) show ?thesis unfolding finish_path_def st1 by simp
qed

subsection \<open>The bytes of a response\<close>

text \<open>\<open>bs\<close> stands at an offset of a buffer.\<close>

definition at_offset :: "u8 list \<Rightarrow> nat \<Rightarrow> u8 list \<Rightarrow> bool" where
  "at_offset buf off bs \<longleftrightarrow> off + length bs \<le> length buf \<and> take (length bs) (drop off buf) = bs"

lemma at_offset_append: "at_offset buf off (a @ b) \<longleftrightarrow> at_offset buf off a \<and> at_offset buf (off + length a) b"
proof -
  have "take (length a + length b) (drop off buf) = take (length a) (drop off buf) @ take (length b) (drop (off + length a) buf)"
    by (simp add: take_add add.commute)
  then show ?thesis by (auto simp: at_offset_def append_eq_append_conv)
qed

lemma write_at_total:
  assumes "bs = [] \<or> off + length bs \<le> length buf"
  shows "\<exists>b. write_at buf off bs = Some b \<and> length b = length buf"
  using assms by (auto simp: write_at_def)

lemma write_at_length: "write_at buf off bs = Some b \<Longrightarrow> length b = length buf"
  by (auto simp: write_at_def split: if_splits)

lemma write_at_here:
  assumes "write_at buf off bs = Some b" "off + length bs \<le> length buf"
  shows "at_offset b off bs"
  using assms by (auto simp: write_at_def at_offset_def split: if_splits)

lemma write_at_nth:
  assumes "write_at buf off bs = Some b" "i < off \<or> off + length bs \<le> i" "i < length buf"
  shows "b ! i = buf ! i"
  using assms by (auto simp: write_at_def nth_append split: if_splits)

lemma at_offset_nth: "at_offset buf off bs \<longleftrightarrow> off + length bs \<le> length buf \<and> (\<forall>i < length bs. buf ! (off + i) = bs ! i)"
  by (auto simp: at_offset_def list_eq_iff_nth_eq)

lemma write_at_away:
  assumes "write_at buf off bs = Some b" "off' + length xs \<le> off \<or> off + length bs \<le> off'" "at_offset buf off' xs"
  shows "at_offset b off' xs"
  using assms write_at_nth [OF assms(1)] write_at_length [OF assms(1)] by (auto simp: at_offset_nth)

lemma write_at_prefix:
  assumes "write_at buf off bs = Some b" "n \<le> off"
  shows "take n b = take n buf"
  using assms by (auto simp: write_at_def min_def split: if_splits)

lemma write_head_spec:
  assumes "base + 20 + length (token req) \<le> length buf"
  shows "\<exists>b. write_head ip port req base buf = Some b \<and> length b = length buf \<and> take base b = take base buf \<and>
    at_offset b base [byte_at 0 ip, byte_at 1 ip, byte_at 2 ip, byte_at 3 ip, byte_at 0 port, byte_at 1 port] \<and>
    at_offset b (base + 8) (replicate 8 0) \<and> at_offset b (base + 16) [coap_first_byte req] \<and>
    at_offset b (base + 18) ([messageIDLower req, messageIDUpper req] @ token req)"
proof -
  let ?a = "[byte_at 0 ip, byte_at 1 ip, byte_at 2 ip, byte_at 3 ip, byte_at 0 port, byte_at 1 port]"
  let ?d = "[messageIDLower req, messageIDUpper req] @ token req"
  obtain b1 where b1: "write_at buf base ?a = Some b1" "length b1 = length buf"
    using write_at_total [of ?a base buf] assms by auto
  obtain b2 where b2: "write_at b1 (base + 8) (replicate 8 0) = Some b2" "length b2 = length buf"
    using write_at_total [of "replicate 8 0" "base + 8" b1] b1(2) assms by auto
  obtain b3 where b3: "write_at b2 (base + 16) [coap_first_byte req] = Some b3" "length b3 = length buf"
    using write_at_total [of "[coap_first_byte req]" "base + 16" b2] b2(2) assms by auto
  obtain b4 where b4: "write_at b3 (base + 18) ?d = Some b4" "length b4 = length buf"
    using write_at_total [of ?d "base + 18" b3] b3(2) assms by auto
  have "at_offset b4 base ?a"
    by (rule write_at_away [OF b4(1)], simp, rule write_at_away [OF b3(1)], simp, rule write_at_away [OF b2(1)], simp,
        rule write_at_here [OF b1(1)]) (use assms in simp)
  moreover have "at_offset b4 (base + 8) (replicate 8 0)"
    by (rule write_at_away [OF b4(1)], simp, rule write_at_away [OF b3(1)], simp, rule write_at_here [OF b2(1)])
      (use assms b1(2) in simp)
  moreover have "at_offset b4 (base + 16) [coap_first_byte req]"
    by (rule write_at_away [OF b4(1)], simp, rule write_at_here [OF b3(1)]) (use assms b2(2) in simp)
  moreover have "at_offset b4 (base + 18) ?d" by (rule write_at_here [OF b4(1)]) (use assms b3(2) in simp)
  moreover have "take base b4 = take base buf"
    using write_at_prefix [OF b4(1)] write_at_prefix [OF b3(1)] write_at_prefix [OF b2(1)] write_at_prefix [OF b1(1)] by simp
  ultimately show ?thesis using b1(1) b2(1) b3(1) b4 by (simp add: write_head_def)
qed

text \<open>The bytes the socket manager is given for a response: the header of the send buffer, room for the UDP header,
  the CoAP header, the token and, unless the response is empty, the content format, the marker and the payload.\<close>

definition response_bytes :: "u32 \<Rightarrow> u16 \<Rightarrow> coap_request \<Rightarrow> CoAPResponse \<Rightarrow> u8 list \<Rightarrow> u8 list" where
  "response_bytes ip port req response body =
     [byte_at 0 ip, byte_at 1 ip, byte_at 2 ip, byte_at 3 ip, byte_at 0 port, byte_at 1 port] @
     [of_nat (packet_size req response), of_nat (packet_size req response div 256)] @
     replicate 8 0 @ [coap_first_byte req] @ [responseCode response] @
     ([messageIDLower req, messageIDUpper req] @ token req) @
     (if responseSize response > 0
      then [0xC1, format_identifier (contentFormat response), 0xFF] @ take (responseSize response) body else [])"

lemma at_offset_take: "at_offset buf off xs \<Longrightarrow> at_offset buf off (take n xs)"
  by (auto simp: at_offset_nth)

lemma at_offset_move: "at_offset buf off xs \<Longrightarrow> off' = off \<Longrightarrow> at_offset buf off' xs"
  by simp

lemma write_tail_spec:
  assumes req: "length (token req) = tokenLength req" "base + 20 + tokenLength req \<le> length buf"
    and body: "body = [] \<or> base + 23 + tokenLength req + length body \<le> length buf"
    and opt: "responseSize response > 0 \<Longrightarrow> base + 23 + tokenLength req \<le> length buf"
    and head: "at_offset buf base [byte_at 0 ip, byte_at 1 ip, byte_at 2 ip, byte_at 3 ip, byte_at 0 port, byte_at 1 port]"
      "at_offset buf (base + 8) (replicate 8 0)" "at_offset buf (base + 16) [coap_first_byte req]"
      "at_offset buf (base + 18) ([messageIDLower req, messageIDUpper req] @ token req)"
  shows "\<exists>b. write_tail req response body base buf = Some (b, 8 + packet_size req (checked_response response)) \<and>
    length b = length buf \<and> take base b = take base buf \<and>
    (responseSize response \<le> length body \<longrightarrow>
       at_offset b base (response_bytes ip port req (checked_response response) body))"
proof -
  define r where "r = checked_response response"
  define size where "size = packet_size req r"
  define options where "options = (if responseSize r > 0 then [0xC1, format_identifier (contentFormat r), 0xFF] else [])"
  let ?o = "base + 20 + tokenLength req"
  have rs: "responseSize r > 0 \<Longrightarrow> responseSize response > 0" by (auto simp: r_def checked_response_def split: if_splits)
  have fit: "options = [] \<or> ?o + length options \<le> length buf" using opt rs by (auto simp: options_def)
  obtain b1 where b1: "write_at buf (?o + 3) body = Some b1" "length b1 = length buf"
    using write_at_total [of body "?o + 3" buf] body by auto
  obtain b2 where b2: "write_at b1 ?o options = Some b2" "length b2 = length buf"
    using write_at_total [of options ?o b1] fit b1(2) by auto
  obtain b3 where b3: "write_at b2 (base + 17) [responseCode r] = Some b3" "length b3 = length buf"
    using write_at_total [of "[responseCode r]" "base + 17" b2] b2(2) req by auto
  obtain b4 where b4: "write_at b3 (base + 6) [of_nat size, of_nat (size div 256)] = Some b4" "length b4 = length buf"
    using write_at_total [of "[of_nat size, of_nat (size div 256)]" "base + 6" b3] b3(2) req by auto
  have opts: "length options \<le> 3" "responseSize r > 0 \<Longrightarrow> length options = 3" by (simp_all add: options_def)
  have "(if responseSize r > 0 then write_at b1 ?o [0xC1, format_identifier (contentFormat r), 0xFF] else Some b1) = Some b2"
    using b2(1) by (simp add: options_def write_at_def split: if_splits)
  then have run: "write_tail req response body base buf = Some (b4, 8 + size)"
    using b1(1) b3(1) b4(1) unfolding write_tail_def Let_def r_def [symmetric] size_def [symmetric] by (auto split: if_splits)
  have keep: "at_offset b4 off xs" if "at_offset buf off xs" "off + length xs \<le> ?o"
    "off + length xs \<le> base + 6 \<or> base + 8 \<le> off" "off + length xs \<le> base + 17 \<or> base + 18 \<le> off" for off xs
  proof -
    have "at_offset b1 off xs" by (rule write_at_away [OF b1(1) _ that(1)]) (use that in simp)
    then have "at_offset b2 off xs" by (rule write_at_away [OF b2(1), rotated]) (use that in simp)
    then have "at_offset b3 off xs" by (rule write_at_away [OF b3(1), rotated]) (use that in auto)
    then show ?thesis by (rule write_at_away [OF b4(1), rotated]) (use that in auto)
  qed
  have at: "at_offset b4 base [byte_at 0 ip, byte_at 1 ip, byte_at 2 ip, byte_at 3 ip, byte_at 0 port, byte_at 1 port]"
      "at_offset b4 (base + 8) (replicate 8 0)" "at_offset b4 (base + 16) [coap_first_byte req]"
      "at_offset b4 (base + 18) ([messageIDLower req, messageIDUpper req] @ token req)"
    using head req(1) by (simp_all add: keep)
  have sz: "at_offset b4 (base + 6) [of_nat size, of_nat (size div 256)]"
    by (rule write_at_here [OF b4(1)]) (use req b3(2) in simp)
  have code: "at_offset b4 (base + 17) [responseCode r]"
    by (rule write_at_away [OF b4(1)], simp, rule write_at_here [OF b3(1)]) (use req b2(2) in simp)
  have o: "at_offset b4 ?o options"
    by (rule write_at_away [OF b4(1)], simp, rule write_at_away [OF b3(1)], simp, rule write_at_here [OF b2(1)])
      (use fit req b1(2) in auto)
  have p: "at_offset b4 (?o + 3) body" if "body \<noteq> []"
  proof -
    have "at_offset b1 (?o + 3) body" by (rule write_at_here [OF b1(1)]) (use body that in auto)
    then have "at_offset b2 (?o + 3) body" by (rule write_at_away [OF b2(1), rotated]) (use opts in simp)
    then have "at_offset b3 (?o + 3) body" by (rule write_at_away [OF b3(1), rotated]) simp
    then show ?thesis by (rule write_at_away [OF b4(1), rotated]) simp
  qed
  have payload: "at_offset b4 ?o (if responseSize r > 0
      then [0xC1, format_identifier (contentFormat r), 0xFF] @ take (responseSize r) body else [])"
    if "responseSize response \<le> length body"
  proof (cases "responseSize r > 0")
    case True
    then have "body \<noteq> []" using rs that by auto
    with True o p show ?thesis unfolding if_P [OF True] at_offset_append by (simp add: options_def at_offset_take)
  qed (use req b4(2) in \<open>simp add: at_offset_def\<close>)
  have "take base b4 = take base buf"
    using write_at_prefix [OF b4(1)] write_at_prefix [OF b3(1)] write_at_prefix [OF b2(1)] write_at_prefix [OF b1(1)] by simp
  moreover have "at_offset b4 base (response_bytes ip port req r body)" if "responseSize response \<le> length body"
    unfolding response_bytes_def at_offset_append size_def [symmetric]
    by (intro conjI at(1) at_offset_move [OF sz] at_offset_move [OF at(2)] at_offset_move [OF at(3)] at_offset_move [OF code]
        at_offset_move [OF conjunct1 [OF at(4) [unfolded at_offset_append]]]
        at_offset_move [OF conjunct2 [OF at(4) [unfolded at_offset_append]]] at_offset_move [OF payload [OF that]])
      (simp_all add: req(1))
  ultimately show ?thesis unfolding r_def [symmetric] size_def [symmetric] using run b4(2) by blast
qed

subsection \<open>The send buffers\<close>

definition buffers_ok :: "CoAPServer \<Rightarrow> bool" where
  "buffers_ok server \<longleftrightarrow> length (writeBuffers server) = 2 \<and> (\<forall>b \<in> set (writeBuffers server). length b = WRITE_BUFFER_SIZE) \<and>
     currentlySendingWritebuffer server < 2 \<and> currentlyWrittenToWriteBufferDataLen server \<le> WRITE_BUFFER_SIZE"

text \<open>A handler writes inside the response buffer it is given.\<close>

definition handler_ok :: "'k coap_handler \<Rightarrow> bool" where
  "handler_ok handler \<longleftrightarrow> (\<forall>h m path fmt payload k. length (fst (snd (handler h m path fmt payload k))) \<le> RESPONSE_BUFFER_SIZE)"

lemma swap_buffers:
  assumes "buffers_ok server"
  shows "buffers_ok (fst (attemptWriteBufferSwap server))"
    "pathListElements (fst (attemptWriteBufferSwap server)) = pathListElements server"
    "usedPathListElementsHead (fst (attemptWriteBufferSwap server)) = usedPathListElementsHead server"
    "unusedPathListElementsHead (fst (attemptWriteBufferSwap server)) = unusedPathListElementsHead server"
  using assms by (auto simp: attemptWriteBufferSwap_def user_setSendBuffer_def buffers_ok_def)

lemma call_bounds:
  assumes "call_handler handler st req fmt p off k = Some (Next (r, body, k'))" "handler_ok handler"
  shows "body = [] \<and> responseSize r = 0 \<or>
    required_size st req = 20 + tokenLength req + 3 + RESPONSE_BUFFER_SIZE \<and> length body \<le> RESPONSE_BUFFER_SIZE"
proof (cases "ps_head st")
  case None
  then show ?thesis using assms(1) by (auto simp: call_handler_def not_found_response_def)
next
  case (Some i)
  obtain e pl where e: "arr_get (ps_elements st) i = Some e" "request_payload p off = Some pl"
    using assms(1) Some by (auto simp: call_handler_def Option.bind_eq_Some_conv)
  obtain payload where pl: "pl = Next payload" using assms(1) Some e by (cases pl) (auto simp: call_handler_def)
  show ?thesis
  proof (cases "method_of (codeDetail req)")
    case None
    then show ?thesis using assms(1) Some e pl by (auto simp: call_handler_def not_allowed_response_def)
  next
    case (Some m)
    then have "codeDetail req \<noteq> 0 \<and> codeDetail req \<le> 4" by (auto simp: method_of_def split: if_splits)
    then have "required_size st req = 20 + tokenLength req + 3 + RESPONSE_BUFFER_SIZE"
      using \<open>ps_head st = Some i\<close> by (simp add: required_size_def)
    moreover have "handler (pHandler (pe_value e)) m (take (ps_size st) (ps_path st)) fmt payload k = (r, body, k')"
      using assms(1) Some \<open>ps_head st = Some i\<close> e pl by (simp add: call_handler_def)
    then have "length body \<le> RESPONSE_BUFFER_SIZE" using assms(2) unfolding handler_ok_def by (metis fst_conv snd_conv)
    ultimately show ?thesis by simp
  qed
qed

lemma required_size_bounds: "20 + tokenLength req \<le> required_size st req"
  by (simp add: required_size_def)

lemma packet_size_bounds:
  "responseSize (checked_response r) = 0 \<Longrightarrow> packet_size req (checked_response r) \<le> 12 + tokenLength req"
  "packet_size req (checked_response r) \<le> 12 + tokenLength req + 3 + RESPONSE_BUFFER_SIZE"
proof -
  show "responseSize (checked_response r) = 0 \<Longrightarrow> packet_size req (checked_response r) \<le> 12 + tokenLength req"
    unfolding packet_size_def by (rule order_trans [OF mod_less_eq_dividend]) simp
  have "responseSize (checked_response r) \<le> RESPONSE_BUFFER_SIZE" by (simp add: checked_response_def)
  then show "packet_size req (checked_response r) \<le> 12 + tokenLength req + 3 + RESPONSE_BUFFER_SIZE"
    unfolding packet_size_def by (intro order_trans [OF mod_less_eq_dividend]) simp
qed

lemma respond_spec:
  fixes server
  defines "server1 \<equiv> fst (attemptWriteBufferSwap server)"
  defines "base \<equiv> currentlyWrittenToWriteBufferDataLen server1"
  defines "n \<equiv> 1 - currentlySendingWritebuffer server1"
  assumes ok: "buffers_ok server" "handler_ok handler" and tok: "length (token req) = tokenLength req"
    and call: "call_handler handler st req fmt p off k = Some (Next (r, body, k'))"
    and room: "required_size st req \<le> WRITE_BUFFER_SIZE - base"
  shows "\<exists>buf final calls. respond handler ip port p req off fmt st server k = Some (final, calls, k') \<and>
    (final, calls) = (let S = attemptWriteBufferSwap (server1\<lparr>writeBuffers := (writeBuffers server1)[n := buf],
       currentlyWrittenToWriteBufferDataLen := base + (8 + packet_size req (checked_response r))\<rparr>)
     in (fst S, snd (attemptWriteBufferSwap server) @ snd S)) \<and>
    buffers_ok final \<and> length buf = WRITE_BUFFER_SIZE \<and> take base buf = take base (writeBuffers server1 ! n) \<and>
    (responseSize r \<le> length body \<longrightarrow> at_offset buf base (response_bytes ip port req (checked_response r) body))"
proof -
  have ok1: "buffers_ok server1" using swap_buffers [OF ok(1)] by (simp add: server1_def)
  then have n: "n < length (writeBuffers server1)" "length (writeBuffers server1 ! n) = WRITE_BUFFER_SIZE"
    by (auto simp: buffers_ok_def n_def)
  have base: "base + 20 + tokenLength req \<le> WRITE_BUFFER_SIZE" "base \<le> WRITE_BUFFER_SIZE"
    using room required_size_bounds [of req st] ok1 by (auto simp: buffers_ok_def base_def)
  obtain b where b: "write_head ip port req base (writeBuffers server1 ! n) = Some b" "length b = WRITE_BUFFER_SIZE"
    "take base b = take base (writeBuffers server1 ! n)"
    "at_offset b base [byte_at 0 ip, byte_at 1 ip, byte_at 2 ip, byte_at 3 ip, byte_at 0 port, byte_at 1 port]"
    "at_offset b (base + 8) (replicate 8 0)" "at_offset b (base + 16) [coap_first_byte req]"
    "at_offset b (base + 18) ([messageIDLower req, messageIDUpper req] @ token req)"
    using write_head_spec [of base req "writeBuffers server1 ! n" ip port] base n(2) tok by auto
  note cb = call_bounds [OF call ok(2)]
  have big: "base + 23 + tokenLength req + length body \<le> length b" if "\<not> (body = [] \<and> responseSize r = 0)"
    using cb that room base(2) b(2) by linarith
  have c1: "base + 20 + tokenLength req \<le> length b" using base(1) b(2) by simp
  have c2: "body = [] \<or> base + 23 + tokenLength req + length body \<le> length b" using big by blast
  have c3: "base + 23 + tokenLength req \<le> length b" if "responseSize r > 0" using big that by fastforce
  obtain buf where buf: "write_tail req r body base b = Some (buf, 8 + packet_size req (checked_response r))"
    "length buf = length b" "take base buf = take base b"
    "responseSize r \<le> length body \<longrightarrow> at_offset buf base (response_bytes ip port req (checked_response r) body)"
    using write_tail_spec [OF tok c1 c2 c3 b(4-7)] by blast
  let ?s = "server1\<lparr>writeBuffers := (writeBuffers server1)[n := buf],
       currentlyWrittenToWriteBufferDataLen := base + (8 + packet_size req (checked_response r))\<rparr>"
  have "packet_size req (checked_response r) + 8 + base \<le> WRITE_BUFFER_SIZE"
    using cb room base packet_size_bounds(1) [of r req] packet_size_bounds(2) [of req r] by (auto simp: checked_response_def)
  then have oks: "buffers_ok ?s" using ok1 n buf(2) b(2)
    by (auto simp: buffers_ok_def dest!: set_update_subset_insert [THEN subsetD])
  have n': "Suc 0 - currentlySendingWritebuffer server1 = n" by (simp add: n_def)
  obtain calls where swap: "attemptWriteBufferSwap server = (server1, calls)" by (metis server1_def prod.collapse)
  have "respond handler ip port p req off fmt st server k =
      Some (fst (attemptWriteBufferSwap ?s), calls @ snd (attemptWriteBufferSwap ?s), k')"
    unfolding respond_def swap Let_def prod.case base_def [symmetric] n_def [symmetric]
    using room n b(1) call buf(1) by (simp add: n' case_prod_beta)
  with swap_buffers(1) [OF oks] buf b swap show ?thesis by (intro exI [of _ buf]) (simp add: Let_def)
qed

lemma respond_total:
  assumes ok: "buffers_ok server" "handler_ok handler" and tok: "length (token req) = tokenLength req"
    and head: "\<And>i. ps_head st = Some i \<Longrightarrow> i < length (ps_elements st)"
  shows "\<exists>final calls k'. respond handler ip port p req off fmt st server k = Some (final, calls, k') \<and> buffers_ok final \<and>
    pathListElements final = pathListElements server \<and> usedPathListElementsHead final = usedPathListElementsHead server \<and>
    unusedPathListElementsHead final = unusedPathListElementsHead server"
proof -
  obtain server1 calls where swap: "attemptWriteBufferSwap server = (server1, calls)" by fastforce
  note s1 = swap_buffers [OF ok(1), unfolded swap fst_conv]
  let ?base = "currentlyWrittenToWriteBufferDataLen server1" and ?n = "1 - currentlySendingWritebuffer server1"
  have n: "?n < length (writeBuffers server1)" "length (writeBuffers server1 ! ?n) = WRITE_BUFFER_SIZE"
    using s1(1) by (auto simp: buffers_ok_def)
  have "request_payload p off \<noteq> None" by (auto simp: request_payload_def Let_def)
  then obtain pl where pl: "request_payload p off = Some pl" by blast
  have "call_handler handler st req fmt p off k \<noteq> None"
    using head pl by (auto simp: call_handler_def split: option.splits step.splits)
  then obtain c where c: "call_handler handler st req fmt p off k = Some c" by blast
  show ?thesis
  proof (cases "WRITE_BUFFER_SIZE - ?base < required_size st req")
    case True
    then show ?thesis using s1 by (simp add: respond_def swap)
  next
    case room: False
    show ?thesis
    proof (cases c)
      case Return
      have "?base + 20 + length (token req) \<le> length (writeBuffers server1 ! ?n)"
        using room n(2) required_size_bounds [of req st] tok by linarith
      from write_head_spec [OF this, of ip port] obtain b where
        b: "write_head ip port req ?base (writeBuffers server1 ! ?n) = Some b" "length b = WRITE_BUFFER_SIZE" using n(2) by auto
      have "buffers_ok (server1\<lparr>writeBuffers := (writeBuffers server1)[?n := b]\<rparr>)"
        using s1(1) b(2) by (auto simp: buffers_ok_def dest!: set_update_subset_insert [THEN subsetD])
      with room n b(1) c Return s1 show ?thesis by (simp add: respond_def swap)
    next
      case (Next t)
      obtain r body k' where t: "t = (r, body, k')" by (cases t) auto
      have "required_size st req \<le> WRITE_BUFFER_SIZE - currentlyWrittenToWriteBufferDataLen (fst (attemptWriteBufferSwap server))"
        using room by (simp add: swap)
      from respond_spec [OF ok tok c [unfolded Next t] this, of ip port] obtain buf final calls' where
        f: "respond handler ip port p req off fmt st server k = Some (final, calls', k')" "buffers_ok final"
        "final = fst (attemptWriteBufferSwap (server1\<lparr>writeBuffers := (writeBuffers server1)[?n := buf],
           currentlyWrittenToWriteBufferDataLen := ?base + (8 + packet_size req (checked_response r))\<rparr>))"
        unfolding swap Let_def by auto
      have "pathListElements final = pathListElements server1 \<and> usedPathListElementsHead final = usedPathListElementsHead server1 \<and>
          unusedPathListElementsHead final = unusedPathListElementsHead server1"
        unfolding f(3) by (simp add: attemptWriteBufferSwap_def user_setSendBuffer_def)
      with f s1 show ?thesis by auto
    qed
  qed
qed

end
