(* ===== verification/Free_Lists.thy ===== *)
theory Free_Lists
  imports Linked_Lists
begin

text \<open>
  Arrays threaded by two singly linked lists, the elements in use and the unused ones: the registered paths of the CoAP
  server and the tasks of the task manager. \<open>nx\<close> reads the link of an element, \<open>set_nx\<close> replaces it and
  \<open>content\<close> is what the links do not touch. The two clients interpret the locale on their own element types.
\<close>

locale threaded_array =
  fixes nx :: "'e \<Rightarrow> ptr" and set_nx :: "ptr \<Rightarrow> 'e \<Rightarrow> 'e" and content :: "'e \<Rightarrow> 'c"
  assumes nx_set_nx: "nx (set_nx p e) = p" and content_set_nx: "content (set_nx p e) = content e"
begin

definition threaded :: "'e list \<Rightarrow> ptr \<Rightarrow> ptr \<Rightarrow> nat list \<Rightarrow> nat list \<Rightarrow> bool" where
  "threaded es head free used unused \<longleftrightarrow> seg (\<lambda>i. nx (es ! i)) head used None \<and> seg (\<lambda>i. nx (es ! i)) free unused None \<and>
     distinct (used @ unused) \<and> set (used @ unused) = {..<length es}"

definition relink :: "'e list \<Rightarrow> nat \<Rightarrow> ptr \<Rightarrow> 'e list" where
  "relink es l r = es[l := set_nx r (es ! l)]"

definition unlink :: "'e list \<Rightarrow> ptr \<Rightarrow> nat \<Rightarrow> ptr \<Rightarrow> 'e list \<times> ptr" where
  "unlink es head i previous = (case previous of None \<Rightarrow> (es, nx (es ! i)) | Some l \<Rightarrow> (relink es l (nx (es ! i)), head))"

fun search :: "nat \<Rightarrow> ('e \<Rightarrow> bool) \<Rightarrow> 'e list \<Rightarrow> ptr \<Rightarrow> ptr \<Rightarrow> (nat \<times> ptr) option option" where
  "search 0 P es current previous = None"
| "search (Suc fuel) P es current previous =
     (case current of
        None \<Rightarrow> Some None
      | Some i \<Rightarrow> do { e \<leftarrow> arr_get es i; if P e then Some (Some (i, previous)) else search fuel P es (nx e) (Some i) })"

lemma seg_elsewhere: "seg (\<lambda>j. nx (es ! j)) p js q \<Longrightarrow> i \<notin> set js \<Longrightarrow> seg (\<lambda>j. nx (es[i := e] ! j)) p js q"
  by (induction js arbitrary: p) auto

lemma map_elsewhere: "i \<notin> set js \<Longrightarrow> map (\<lambda>j. f (es[i := e] ! j)) js = map (\<lambda>j. f (es ! j)) js"
  by (induction js) auto

lemma relink_nth: "relink es l r ! j = (if j = l \<and> l < length es then set_nx r (es ! l) else es ! j)"
proof (cases "l < length es")
  case True
  then show ?thesis by (auto simp: relink_def nth_list_update)
qed (simp add: relink_def list_update_beyond)

lemma relink_facts:
  "length (relink es l r) = length es" "content (relink es l r ! j) = content (es ! j)"
  "l < length es \<Longrightarrow> nx (relink es l r ! l) = r" "j \<noteq> l \<Longrightarrow> relink es l r ! j = es ! j"
  by (simp add: relink_def) (simp_all add: relink_nth nx_set_nx content_set_nx)

lemma seg_relink_last:
  assumes "seg (\<lambda>j. nx (es ! j)) p (zs @ [l]) q" "l \<notin> set zs" "l < length es"
  shows "seg (\<lambda>j. nx (relink es l r ! j)) p (zs @ [l]) r"
  using assms by (induction zs arbitrary: p) (auto simp: relink_facts)

lemma seg_relink: "seg (\<lambda>j. nx (es ! j)) p js q \<Longrightarrow> l \<notin> set js \<Longrightarrow> seg (\<lambda>j. nx (relink es l r ! j)) p js q"
  unfolding relink_def by (rule seg_elsewhere)

lemma threaded_bounds:
  assumes "threaded es head free used unused"
  shows "length used + length unused = length es" "set used \<subseteq> {..<length es}" "distinct used" "length used < Suc (length es)"
proof -
  show l: "length used + length unused = length es"
    using assms distinct_card [of "used @ unused"] by (simp add: threaded_def)
  then show "length used < Suc (length es)" by simp
qed (use assms in \<open>auto simp: threaded_def\<close>)

text \<open>Taking the first unused element into use.\<close>

lemma threaded_insert:
  assumes "threaded es head free used (i # unused)" "nx e = head"
  shows "threaded (es[i := e]) (Some i) (nx (es ! i)) (i # used) unused"
    "map (\<lambda>j. f (es[i := e] ! j)) (i # used) = f e # map (\<lambda>j. f (es ! j)) used"
proof -
  have i: "i < length es" "i \<notin> set used" "i \<notin> set unused" using assms(1) by (auto simp: threaded_def)
  then show "threaded (es[i := e]) (Some i) (nx (es ! i)) (i # used) unused"
    using assms seg_elsewhere [of es] by (auto simp: threaded_def)
  show "map (\<lambda>j. f (es[i := e] ! j)) (i # used) = f e # map (\<lambda>j. f (es ! j)) used"
    using i map_elsewhere [of i used f es e] by simp
qed

text \<open>Taking an element out of use.\<close>

lemma unlink_seg:
  assumes "seg (\<lambda>j. nx (es ! j)) head (xs @ i # ys) None" "distinct (xs @ i # ys)" "set (xs @ i # ys) \<subseteq> {..<length es}"
    and "unlink es head i (last_ptr None xs) = (es1, head1)"
  shows "seg (\<lambda>j. nx (es1 ! j)) head1 (xs @ ys) None"
proof (cases xs rule: rev_cases)
  case Nil
  then show ?thesis using assms by (auto simp: unlink_def)
next
  case (snoc zs l)
  then have "seg (\<lambda>j. nx (relink es l (nx (es ! i)) ! j)) head (zs @ [l]) (nx (es ! i))"
    using assms by (intro seg_relink_last [of es head zs l "Some i"]) (auto simp: seg_append)
  moreover have "seg (\<lambda>j. nx (relink es l (nx (es ! i)) ! j)) (nx (es ! i)) ys None"
    using assms snoc by (intro seg_relink) (auto simp: seg_append)
  ultimately show ?thesis using snoc assms(4) by (auto simp: seg_append unlink_def)
qed

lemma last_inside: "last_ptr None xs = Some l \<Longrightarrow> l \<in> set xs"
  by (cases xs rule: rev_cases) auto

lemma threaded_remove:
  assumes t: "threaded es head free (xs @ i # ys) unused" and u: "unlink es head i (last_ptr None xs) = (es1, head1)"
  shows "threaded (relink es1 i free) head1 (Some i) (xs @ ys) (i # unused)" "content (relink es1 i free ! j) = content (es ! j)"
    "es1 ! i = es ! i" "length es1 = length es"
proof -
  have i: "i < length es" "i \<notin> set xs" "i \<notin> set ys" "i \<notin> set unused" using t by (auto simp: threaded_def)
  have last: "l \<noteq> i \<and> l \<notin> set unused" if "last_ptr None xs = Some l" for l
    using last_inside [OF that] t i by (auto simp: threaded_def)
  show es1: "length es1 = length es" "es1 ! i = es ! i"
    using u last by (auto simp: unlink_def relink_facts split: option.splits)
  show "content (relink es1 i free ! j) = content (es ! j)"
    using u by (auto simp: unlink_def relink_facts split: option.splits)
  have "seg (\<lambda>j. nx (es1 ! j)) head1 (xs @ ys) None" by (rule unlink_seg [OF _ _ _ u]) (use t in \<open>auto simp: threaded_def\<close>)
  then have 1: "seg (\<lambda>j. nx (relink es1 i free ! j)) head1 (xs @ ys) None" by (rule seg_relink) (use i in simp)
  have "seg (\<lambda>j. nx (es1 ! j)) free unused None"
    using t u last unfolding threaded_def unlink_def by (auto split: option.splits intro!: seg_relink)
  then have "seg (\<lambda>j. nx (relink es1 i free ! j)) free unused None" by (rule seg_relink) (use i in simp)
  then have 2: "seg (\<lambda>j. nx (relink es1 i free ! j)) (Some i) (i # unused) None" using i es1(1) by (simp add: relink_facts)
  show "threaded (relink es1 i free) head1 (Some i) (xs @ ys) (i # unused)"
    using 1 2 t es1(1) by (auto simp: threaded_def relink_facts)
qed

text \<open>The search finds the first element with the property, and the one before it.\<close>

lemma search_misses:
  assumes "seg (\<lambda>j. nx (es ! j)) current js None" "set js \<subseteq> {..<length es}" "\<forall>j \<in> set js. \<not> P (es ! j)" "length js < fuel"
  shows "search fuel P es current prev = Some None"
  using assms
proof (induction js arbitrary: current prev fuel)
  case Nil
  then show ?case by (cases fuel) auto
next
  case (Cons j js)
  then show ?case by (cases fuel) auto
qed

lemma search_hits:
  assumes "seg (\<lambda>j. nx (es ! j)) current (xs @ i # ys) None" "set (xs @ [i]) \<subseteq> {..<length es}"
    "\<forall>j \<in> set xs. \<not> P (es ! j)" "P (es ! i)" "length xs < fuel"
  shows "search fuel P es current prev = Some (Some (i, last_ptr prev xs))"
  using assms
proof (induction xs arbitrary: current prev fuel)
  case Nil
  then show ?case by (cases fuel) auto
next
  case (Cons j xs)
  then show ?case by (cases fuel) auto
qed

lemma threaded_search:
  assumes "threaded es head free used unused"
  shows "(search (Suc (length es)) P es head None = Some None \<and> (\<forall>j \<in> set used. \<not> P (es ! j))) \<or>
    (\<exists>xs i ys. search (Suc (length es)) P es head None = Some (Some (i, last_ptr None xs)) \<and> used = xs @ i # ys \<and>
      (\<forall>j \<in> set xs. \<not> P (es ! j)) \<and> P (es ! i))"
proof (cases "\<exists>j \<in> set used. P (es ! j)")
  case False
  then show ?thesis using assms search_misses [of es head used P "Suc (length es)"] threaded_bounds [OF assms]
    by (auto simp: threaded_def)
next
  case True
  from split_list_first_prop [OF this] obtain xs i ys where
    u: "used = xs @ i # ys" "P (es ! i)" "\<forall>j \<in> set xs. \<not> P (es ! j)" by blast
  have "search (Suc (length es)) P es head None = Some (Some (i, last_ptr None xs))"
    using assms u threaded_bounds [OF assms] by (intro search_hits) (auto simp: threaded_def)
  with u show ?thesis by blast
qed

end

end
