(* ===== verification/Coap_Registry.thy ===== *)
theory Coap_Registry
  imports Coap_Matching Free_Lists
begin

text \<open>
  The registered paths as a list of pairs of a path and a handler, latest first: \<open>setPathHandler\<close> and
  \<open>removePathHandler\<close> on the threaded array implement insertion at the front and removal of the first entry.
\<close>

definition entry :: "path_element \<Rightarrow> u8 list \<times> nat" where
  "entry e = (pattern (pe_value e), pHandler (pe_value e))"

interpretation paths: threaded_array next0 "\<lambda>p e. e\<lparr>next0 := p\<rparr>" pe_value
  by unfold_locales simp_all

definition registry_ok :: "nat list \<Rightarrow> nat list \<Rightarrow> CoAPServer \<Rightarrow> bool" where
  "registry_ok used unused server \<longleftrightarrow>
     paths.threaded (pathListElements server) (usedPathListElementsHead server) (unusedPathListElementsHead server) used unused \<and>
     length (pathListElements server) = MAX_NUM_COAP_PATHS \<and>
     (\<forall>i < MAX_NUM_COAP_PATHS. path_ok (pe_value (pathListElements server ! i)))"

definition registered :: "nat list \<Rightarrow> CoAPServer \<Rightarrow> (u8 list \<times> nat) list" where
  "registered used server = map (\<lambda>i. entry (pathListElements server ! i)) used"

subsection \<open>The abstract registry\<close>

datatype registration = Set_Path "u8 list" nat | Remove_Path "u8 list"

fun perform :: "registration \<Rightarrow> CoAPServer \<Rightarrow> CoAPServer option" where
  "perform (Set_Path path h) server = setPathHandler path h server"
| "perform (Remove_Path path) server = removePathHandler path server"

fun run_registrations :: "registration list \<Rightarrow> CoAPServer \<Rightarrow> CoAPServer option" where
  "run_registrations [] server = Some server"
| "run_registrations (r # rs) server = do { server \<leftarrow> perform r server; run_registrations rs server }"

fun remove_entry :: "u8 list \<Rightarrow> (u8 list \<times> nat) list \<Rightarrow> (u8 list \<times> nat) list" where
  "remove_entry path [] = []"
| "remove_entry path (e # es) = (if fst e = path then es else e # remove_entry path es)"

fun registry_step :: "(u8 list \<times> nat) list \<Rightarrow> registration \<Rightarrow> (u8 list \<times> nat) list" where
  "registry_step es (Set_Path path h) =
     (if length path \<le> MAX_COAP_PATH_SIZE \<and> length es < MAX_NUM_COAP_PATHS then (path, h) # es else es)"
| "registry_step es (Remove_Path path) = remove_entry path es"

subsection \<open>Insertion\<close>

lemma registry_paths: "registry_ok used unused server \<Longrightarrow> paths_ok (pathListElements server) (usedPathListElementsHead server) used"
  by (auto simp: registry_ok_def paths_ok_def paths.threaded_def)

lemma registry_counts:
  assumes "registry_ok used unused server"
  shows "length used + length unused = MAX_NUM_COAP_PATHS" "length (registered used server) = length used"
  using assms paths.threaded_bounds(1) [of "pathListElements server"] by (force simp: registry_ok_def registered_def)+

lemma set_path_refines:
  assumes ok: "registry_ok used unused server"
  shows "\<exists>server' used' unused'. setPathHandler path h server = Some server' \<and> registry_ok used' unused' server' \<and>
    registered used' server' = registry_step (registered used server) (Set_Path path h)"
proof (cases "length path \<le> MAX_COAP_PATH_SIZE \<and> unused \<noteq> []")
  case False
  then have "setPathHandler path h server = Some server"
    using ok by (auto simp: setPathHandler_def registry_ok_def paths.threaded_def)
  moreover have "registry_step (registered used server) (Set_Path path h) = registered used server"
    using False registry_counts [OF ok] by auto
  ultimately show ?thesis using ok by auto
next
  case True
  then obtain i unused' where un: "unused = i # unused'" by (cases unused) auto
  let ?es = "pathListElements server"
  define e where "e = (?es ! i)\<lparr>next0 := usedPathListElementsHead server, pe_value := (pe_value (?es ! i))
    \<lparr>pathSize := length path, cp_path := path @ drop (length path) (cp_path (pe_value (?es ! i))),
     pathProgressCounter := 0, pHandler := h\<rparr>\<rparr>"
  let ?s = "server\<lparr>pathListElements := ?es[i := e], unusedPathListElementsHead := next0 (?es ! i), usedPathListElementsHead := Some i\<rparr>"
  have t: "paths.threaded ?es (usedPathListElementsHead server) (unusedPathListElementsHead server) used (i # unused')"
    and i: "i < MAX_NUM_COAP_PATHS" "unusedPathListElementsHead server = Some i" "length ?es = MAX_NUM_COAP_PATHS"
    using ok un by (auto simp: registry_ok_def paths.threaded_def)
  have e: "next0 e = usedPathListElementsHead server" "path_ok (pe_value e)" "entry e = (path, h)"
    using ok i True by (auto simp: e_def registry_ok_def path_ok_def entry_def pattern_def)
  note ins = paths.threaded_insert [OF t e(1)]
  have run: "setPathHandler path h server = Some ?s" using True i by (simp add: setPathHandler_def e_def)
  have "path_ok (pe_value (?es[i := e] ! j))" if "j < MAX_NUM_COAP_PATHS" for j
    using that e(2) ok i by (cases "j = i") (auto simp: registry_ok_def)
  then have "registry_ok (i # used) unused' ?s" using ins(1) i by (simp add: registry_ok_def)
  moreover have "registered (i # used) ?s = (path, h) # registered used server"
    using ins(2) [of entry] e(3) by (simp add: registered_def)
  ultimately show ?thesis
    using run True registry_counts [OF ok] un by (intro exI [of _ ?s] exI [of _ "i # used"] exI [of _ unused']) simp
qed

subsection \<open>Removal\<close>

lemma path_match:
  assumes "path_ok v"
  shows "pathSize v = length path \<and> take (length path) (cp_path v) = path \<longleftrightarrow> pattern v = path"
  using assms by (auto simp: path_ok_def pattern_def)

definition path_is :: "u8 list \<Rightarrow> path_element \<Rightarrow> bool" where
  "path_is path e \<longleftrightarrow> pathSize (pe_value e) = length path \<and> take (length path) (cp_path (pe_value e)) = path"

lemma find_path_search: "find_path fuel es path current previous = paths.search fuel (path_is path) es current previous"
  by (induction fuel arbitrary: current previous) (auto simp: path_is_def split: option.splits intro!: arg_cong2 [where f = Option.bind])

lemma remove_entry_misses: "\<forall>e \<in> set es. fst e \<noteq> path \<Longrightarrow> remove_entry path es = es"
  by (induction es) auto

lemma remove_entry_hits: "\<forall>e \<in> set xs. fst e \<noteq> path \<Longrightarrow> fst e = path \<Longrightarrow> remove_entry path (xs @ e # ys) = xs @ ys"
  by (induction xs) auto

lemma remove_path_refines:
  assumes ok: "registry_ok used unused server"
  shows "\<exists>server' used' unused'. removePathHandler path server = Some server' \<and> registry_ok used' unused' server' \<and>
    registered used' server' = registry_step (registered used server) (Remove_Path path)"
proof -
  let ?es = "pathListElements server" and ?uh = "usedPathListElementsHead server" and ?fh = "unusedPathListElementsHead server"
  have t: "paths.threaded ?es ?uh ?fh used unused" using ok by (simp add: registry_ok_def)
  have inside: "j < length ?es" "path_ok (pe_value (?es ! j))" if "j \<in> set used" for j
    using ok paths.threaded_bounds(2) [OF t] that by (auto simp: registry_ok_def)
  have matches: "path_is path (?es ! j) \<longleftrightarrow> pattern (pe_value (?es ! j)) = path" if "j \<in> set used" for j
    using path_match [OF inside(2) [OF that]] by (simp add: path_is_def)
  from paths.threaded_search [OF t, of "path_is path"] show ?thesis
  proof (elim disjE conjE exE)
    assume miss: "paths.search (Suc (length ?es)) (path_is path) ?es ?uh None = Some None" "\<forall>j \<in> set used. \<not> path_is path (?es ! j)"
    have "removePathHandler path server = Some server" using miss(1) by (simp add: removePathHandler_def find_path_search)
    moreover have "remove_entry path (registered used server) = registered used server"
      by (rule remove_entry_misses) (use miss(2) matches in \<open>auto simp: registered_def entry_def\<close>)
    ultimately show ?thesis using ok by auto
  next
    fix xs i ys
    assume hit: "paths.search (Suc (length ?es)) (path_is path) ?es ?uh None = Some (Some (i, last_ptr None xs))"
      and used: "used = xs @ i # ys" and first: "\<forall>j \<in> set xs. \<not> path_is path (?es ! j)" "path_is path (?es ! i)"
    obtain es1 head1 where u: "paths.unlink ?es ?uh i (last_ptr None xs) = (es1, head1)" by fastforce
    note rem = paths.threaded_remove [OF t [unfolded used] u]
    let ?s = "server\<lparr>pathListElements := paths.relink es1 i ?fh, usedPathListElementsHead := head1,
       unusedPathListElementsHead := Some i\<rparr>"
    have last: "l < length ?es" if "last_ptr None xs = Some l" for l
      using inside(1) [of l] used paths.last_inside [OF that] by simp
    have i: "i < length ?es" "length path \<le> MAX_COAP_PATH_SIZE"
      using inside [of i] first(2) used by (auto simp: path_is_def path_ok_def)
    have run: "removePathHandler path server = Some ?s"
      using i last hit u rem(3,4)
      by (auto simp: removePathHandler_def find_path_search Let_def paths.unlink_def paths.relink_def split: option.splits)
    have "registry_ok (xs @ ys) (i # unused) ?s"
      using rem ok by (simp add: registry_ok_def paths.relink_facts)
    moreover have "registered (xs @ ys) ?s = remove_entry path (registered used server)"
      using remove_entry_hits [of "map (\<lambda>j. entry (?es ! j)) xs" path "entry (?es ! i)"] used first matches rem(2)
      by (simp add: registered_def entry_def)
    ultimately show ?thesis using run by auto
  qed
qed

subsection \<open>Sequences of registrations\<close>

lemma new_registry:
  assumes "\<forall>i < MAX_NUM_COAP_PATHS. length (cp_path (pe_value (pathListElements raw ! i))) = MAX_COAP_PATH_SIZE"
  shows "registry_ok [] [0..<MAX_NUM_COAP_PATHS] (fst (CoAPServer_new udpPort sid raw))"
proof -
  have "seg nx (Some 0) [0..<MAX_NUM_COAP_PATHS] None"
    if "\<And>i. i < MAX_NUM_COAP_PATHS \<Longrightarrow> nx i = (if i \<noteq> MAX_NUM_COAP_PATHS - 1 then Some (i + 1) else None)" for nx
    using that by (simp add: upt_rec)
  then show ?thesis using assms
    by (auto simp: registry_ok_def paths.threaded_def path_ok_def CoAPServer_new_def user_setReceiveBuffer_def simp del: upt_rec_numeral)
qed

lemma registrations_refine:
  "registry_ok used unused server \<Longrightarrow> \<exists>server' used' unused'. run_registrations rs server = Some server' \<and>
    registry_ok used' unused' server' \<and> registered used' server' = foldl registry_step (registered used server) rs"
proof (induction rs arbitrary: used unused server)
  case (Cons r rs)
  have "\<exists>server' used' unused'. perform r server = Some server' \<and> registry_ok used' unused' server' \<and>
      registered used' server' = registry_step (registered used server) r"
    using set_path_refines [OF Cons.prems] remove_path_refines [OF Cons.prems] by (cases r) auto
  then obtain server' used' unused' where r: "perform r server = Some server'" "registry_ok used' unused' server'"
    "registered used' server' = registry_step (registered used server) r" by blast
  from Cons.IH [OF r(2)] r show ?case by auto
qed auto

text \<open>C28. Registering and removing paths in any order, on the server the constructor builds, never faults and refines a list of
  at most ten entries: a registration goes to the front unless the path is longer than 100 characters or the list is full, a
  removal takes out the latest registration of the path, and the array stays threaded by the two lists.
\<close>

theorem coap_registry:
  assumes "\<forall>i < MAX_NUM_COAP_PATHS. length (cp_path (pe_value (pathListElements raw ! i))) = MAX_COAP_PATH_SIZE"
  shows "\<exists>server used unused. run_registrations rs (fst (CoAPServer_new udpPort sid raw)) = Some server \<and>
    registry_ok used unused server \<and> registered used server = foldl registry_step [] rs"
  using registrations_refine [OF new_registry [OF assms]] by (simp add: registered_def)

definition raw_server :: CoAPServer where
  "raw_server = \<lparr>pathListElements = replicate 10 \<lparr>pe_value = \<lparr>cp_path = replicate 100 0, pathSize = 0, pathProgressCounter = 0,
       pHandler = 0\<rparr>, next0 = None, next1 = None\<rparr>,
     unusedPathListElementsHead = None, usedPathListElementsHead = None, coap_socketID = 0,
     receiveBuffers = replicate 2 (replicate 0x30000 0), currentlyWrittenToReceiveBuffer = 0,
     writeBuffers = replicate 2 (replicate 0x30000 0), currentlySendingWritebuffer = 0,
     currentlySendingWritebufferIndicatorWhenFinished = 0, currentlyWrittenToWriteBufferDataLen = 0, coap_udpPort = 0\<rparr>"

text \<open>Two paths, and the first one removed.\<close>

theorem coap_registry_witness:
  "\<exists>server used unused. run_registrations [Set_Path [0x2F, 0x61] 1, Set_Path [0x2F, 0x62] 2, Remove_Path [0x2F, 0x61]]
      (fst (CoAPServer_new 5683 0 raw_server)) = Some server \<and> registry_ok used unused server \<and>
    registered used server = [([0x2F, 0x62], 2)]"
proof -
  have "\<forall>i < MAX_NUM_COAP_PATHS. length (cp_path (pe_value (pathListElements raw_server ! i))) = MAX_COAP_PATH_SIZE"
    by (simp add: raw_server_def)
  from coap_registry [OF this, of "[Set_Path [0x2F, 0x61] 1, Set_Path [0x2F, 0x62] 2, Remove_Path [0x2F, 0x61]]" 5683 0]
  show ?thesis by simp
qed

end
