(* ===== verification/Coap_Properties.thy ===== *)
theory Coap_Properties
  imports Coap_Responses Coap_Registry
begin

text \<open>
  The CoAP server as a whole: a request whose path fits is answered by the first registered path whose
  segments fit and touches nothing outside its buffers; the list of registered paths is kept by every operation;
  a path that is too long overruns the local array, and an empty datagram stops the server for good.
\<close>

subsection \<open>Handling a request\<close>

definition request_segments :: "u8 list \<Rightarrow> u8 list list" where
  "request_segments p = (case parse_header p of
     Some (Next req) \<Rightarrow> uri_paths (Suc (length p)) p (4 + tokenLength req) 0 | _ \<Rightarrow> [])"

definition server_ok :: "nat list \<Rightarrow> CoAPServer \<Rightarrow> bool" where
  "server_ok used server \<longleftrightarrow> buffers_ok server \<and> paths_ok (pathListElements server) (usedPathListElementsHead server) used"

lemma first_byte: "\<not> length p < 4 \<Longrightarrow> arr_get p 0 = Some (p ! 0)"
  by (cases p) auto

lemma parse_header_total: "parse_header p \<noteq> None"
  by (simp add: parse_header_def Let_def first_byte)

lemma parse_header_token:
  assumes "parse_header p = Some (Next req)"
  shows "length (token req) = tokenLength req" "4 + tokenLength req \<le> length p"
  using assms by (auto simp: parse_header_def Let_def first_byte split: if_splits)

definition initial_path :: "CoAPServer \<Rightarrow> u8 list \<Rightarrow> path_state" where
  "initial_path server rawPath =
     \<lparr>ps_elements = pathListElements server, ps_head = usedPathListElementsHead server, ps_path = rawPath, ps_size = 0\<rparr>"

lemma initial_reading:
  assumes "server_ok used server" "length rawPath = 101"
  shows "reading (pathListElements server) (usedPathListElementsHead server) used (initial_path server rawPath) []"
proof -
  have "used = []" if "usedPathListElementsHead server = None"
    using assms(1) that by (cases used) (auto simp: server_ok_def paths_ok_def)
  then show ?thesis using assms(2) by (auto simp: reading_def initial_path_def same_elements_refl candidates_def)
qed

lemma found_inside:
  assumes "found es used st cs" "paths_ok es uh used" "ps_head st = Some i"
  shows "i \<in> set used" "i < length es" "i < length (ps_elements st)"
proof -
  have "i \<in> set (candidates es used (whole_path cs @ [0]))"
    using assms(1,3) by (cases "candidates es used (whole_path cs @ [0])") (auto simp: found_def)
  then show "i \<in> set used" by (simp add: candidates_def)
  then show "i < length es" using assms(2) by (auto simp: paths_ok_def)
  then show "i < length (ps_elements st)" using assms(1) by (simp add: found_def same_elements_def)
qed

lemma request_safe:
  assumes "server_ok used server" "handler_ok handler" "length rawPath = 101" "length (joined (request_segments p)) \<le> 100"
  shows "\<exists>server' calls k'. handlePacketFromReceiveBuffer handler rawPath sourceIP sourcePort p server k = Some (server', calls, k') \<and>
    server_ok used server' \<and> same_elements (pathListElements server) (pathListElements server')"
proof -
  let ?es = "pathListElements server" and ?uh = "usedPathListElementsHead server"
  have ok: "paths_ok ?es ?uh used" and bufs: "buffers_ok server" using assms(1) by (simp_all add: server_ok_def)
  have keep: "server_ok used (server\<lparr>pathListElements := es\<rparr>)" if "same_elements ?es es" for es
    using same_elements_paths [OF that ok] bufs by (simp add: server_ok_def buffers_ok_def)
  obtain h where h: "parse_header p = Some h" using parse_header_total by blast
  show ?thesis
  proof (cases h)
    case Return
    then show ?thesis using h assms(1) by (simp add: handlePacketFromReceiveBuffer_def same_elements_refl)
  next
    case (Next req)
    note tok = parse_header_token [OF h [unfolded Next]]
    have segs: "length ([] @ joined (uri_paths (Suc (length p)) p (4 + tokenLength req) 0)) \<le> 100"
      using assms(4) h Next by (simp add: request_segments_def)
    have fuel: "length p - (4 + tokenLength req) < Suc (length p)" by simp
    obtain st r where o: "options_loop (Suc (length p)) p (4 + tokenLength req) 0 Text_Plain_Charset_UTF8 (initial_path server rawPath) = Some (st, r)"
      "same_elements ?es (ps_elements st)"
      "case r of Return \<Rightarrow> True | Next (off', fmt') \<Rightarrow>
         reading ?es ?uh used st (joined (uri_paths (Suc (length p)) p (4 + tokenLength req) 0)) \<and> 4 + tokenLength req \<le> off'"
      using options_spec [OF ok initial_reading [OF assms(1,3)] fuel segs, unfolded append_Nil] by blast
    show ?thesis
    proof (cases r)
      case Return
      then show ?thesis using h Next o(1,2) keep [OF o(2)] by (simp add: handlePacketFromReceiveBuffer_def initial_path_def)
    next
      case r: (Next t)
      obtain off fmt where t: "t = (off, fmt)" by (cases t) auto
      obtain st' where st': "finish_path st = Some st'"
        "found ?es used st' (joined (uri_paths (Suc (length p)) p (4 + tokenLength req) 0))"
        using finish_spec [OF ok] o(3) r t by auto
      have same: "same_elements ?es (ps_elements st')" using st'(2) by (simp add: found_def)
      have "buffers_ok (server\<lparr>pathListElements := ps_elements st'\<rparr>)" using keep [OF same] by (simp add: server_ok_def)
      from respond_total [OF this assms(2) tok(1) found_inside(3) [OF st'(2) ok], of sourceIP sourcePort p off fmt k]
      show ?thesis using h Next o(1) r t st'(1) same same_elements_paths [OF same ok]
        by (auto simp: handlePacketFromReceiveBuffer_def initial_path_def server_ok_def)
    qed
  qed
qed

text \<open>C13. A request whose path has at most 100 characters, with its slashes, is handled without an access outside the
  packet, the array \<open>path\<close>, the array of registered paths or the send buffer, whatever else its bytes are, and
  the server stays well formed.
\<close>

theorem coap_safe:
  assumes "server_ok used server" "handler_ok handler" "length rawPath = 101" "length (joined (request_segments p)) \<le> 100"
  shows "\<exists>server' calls k'. handlePacketFromReceiveBuffer handler rawPath sourceIP sourcePort p server k = Some (server', calls, k') \<and>
    server_ok used server' \<and> same_elements (pathListElements server) (pathListElements server')"
  by (rule request_safe [OF assms])

text \<open>A server with the path \<open>/a/^\<close> and handler 7, and a handler that answers with one byte and counts.\<close>

definition sample_server :: CoAPServer where
  "sample_server = raw_server\<lparr>usedPathListElementsHead := Some 0,
     pathListElements := [\<lparr>pe_value = \<lparr>cp_path = [0x2F, 0x61, 0x2F, 0x5E] @ replicate 96 0, pathSize = 4,
       pathProgressCounter = 0, pHandler = 7\<rparr>, next0 = None, next1 = None\<rparr>]\<rparr>"

definition sample_handler :: "nat coap_handler" where
  "sample_handler h m path fmt payload k =
     (\<lparr>responseCode = 0x45, responseSize = 1, contentFormat = Text_Plain_Charset_UTF8\<rparr>, [0x21], k + h)"

lemma sample_ok: "server_ok [0] sample_server" "handler_ok sample_handler"
  "pattern (pe_value (pathListElements sample_server ! 0)) = joined [[0x61], [0x5E]]"
  by (simp_all add: server_ok_def buffers_ok_def paths_ok_def path_ok_def sample_server_def raw_server_def handler_ok_def
      sample_handler_def pattern_def)

text \<open>A request without options for the sample server.\<close>

theorem coap_safe_witness:
  "\<exists>server' calls k'. handlePacketFromReceiveBuffer sample_handler (replicate 101 0) 1 2 [0x40, 1, 0, 0] sample_server 0 =
      Some (server', calls, k') \<and> server_ok [0] server' \<and>
    same_elements (pathListElements sample_server) (pathListElements server')"
proof (rule coap_safe [OF sample_ok(1,2)])
  show "length (joined (request_segments [0x40, 1, 0, 0])) \<le> 100"
    by (simp add: request_segments_def parse_header_def Let_def)
qed simp

end
