(* ===== verification/Coap_Dispatch.thy ===== *)
theory Coap_Dispatch
  imports Coap_Properties
begin

text \<open>
  Requests as a client encodes them (RFC 7252): header, token, one Uri-Path option per segment, the marker and the
  payload. The server recovers the segments and the payload, and calls the handler of the first registered
  path whose segments fit.
\<close>

subsection \<open>The encoding\<close>

definition option_bytes :: "nat \<Rightarrow> u8 list \<Rightarrow> u8 list" where
  "option_bytes delta s =
     (if length s < 13 then [of_nat (16 * delta + length s)] else [of_nat (16 * delta + 13), of_nat (length s - 13)]) @ s"

text \<open>The Uri-Path options have number 11 and the Content-Format option number 12; an option starts with the difference to
  the number before it.\<close>

definition format_option :: "nat \<Rightarrow> ContentFormat option \<Rightarrow> u8 list" where
  "format_option delta fmt = (case fmt of None \<Rightarrow> [] | Some f \<Rightarrow> option_bytes delta [format_identifier f])"

fun path_options :: "nat \<Rightarrow> u8 list list \<Rightarrow> ContentFormat option \<Rightarrow> u8 list" where
  "path_options delta [] fmt = format_option (delta + 1) fmt"
| "path_options delta (t # ts) fmt = option_bytes delta t @ path_options 0 ts fmt"

definition format_of :: "ContentFormat option \<Rightarrow> ContentFormat" where
  "format_of fmt = (case fmt of None \<Rightarrow> Text_Plain_Charset_UTF8 | Some f \<Rightarrow> f)"

definition payload_bytes :: "u8 list \<Rightarrow> u8 list" where
  "payload_bytes payload = (if payload = [] then [] else 0xFF # payload)"

definition method_code :: "coap_method \<Rightarrow> nat" where
  "method_code m = (case m of GET \<Rightarrow> 1 | POST \<Rightarrow> 2 | PUT \<Rightarrow> 3 | DELETE \<Rightarrow> 4)"

definition coap_packet :: "bool \<Rightarrow> coap_method \<Rightarrow> u8 \<Rightarrow> u8 \<Rightarrow> u8 list \<Rightarrow> u8 list list \<Rightarrow> ContentFormat option \<Rightarrow> u8 list \<Rightarrow> u8 list" where
  "coap_packet confirmable m idLower idUpper tok ts fmt payload =
     [0x40 + (if confirmable then 0 else 0x10) + of_nat (length tok), of_nat (method_code m), idLower, idUpper] @ tok @
     path_options 11 ts fmt @ payload_bytes payload"

lemma nibbles:
  "unat (drop_bit 4 (b AND 0xF0 :: u8)) = unat b div 16" "unat (b AND 0x0F :: u8) = unat b mod 16"
proof -
  have mask: "unat (x AND 0x0F) = unat x mod 16" for x :: u8
  proof -
    have "x AND 0x0F = take_bit 4 x" by (simp add: take_bit_eq_mask mask_eq_exp_minus_1)
    then show ?thesis by (simp add: unsigned_take_bit_eq) (simp add: take_bit_eq_mod)
  qed
  then show "unat (b AND 0x0F :: u8) = unat b mod 16" .
  have "drop_bit 4 (b AND 0xF0) = drop_bit 4 b AND 0x0F" by (rule bit_word_eqI) (auto simp: bit_simps)
  moreover have "unat (drop_bit 4 b) = unat b div 16" by (simp only: unat_drop_bit_eq) (simp add: drop_bit_eq_div)
  ultimately have "unat (drop_bit 4 (b AND 0xF0)) = (unat b div 16) mod 16" by (simp only: mask)
  also have "\<dots> = unat b div 16" using unsigned_less [of b, where 'a = nat] by (intro mod_less less_mult_imp_div_less) simp
  finally show "unat (drop_bit 4 (b AND 0xF0)) = unat b div 16" .
qed

lemma unat_byte: "n < 256 \<Longrightarrow> unat (of_nat n :: u8) = n"
  by (simp add: unat_of_nat)

lemma drop_length:
  assumes "drop off p = x # xs"
  shows "off < length p" "p ! off = x" "length p = Suc off + length xs" "drop (Suc off) p = xs"
proof -
  show "off < length p" using assms by (metis drop_all list.distinct(1) not_le)
  then show "length p = Suc off + length xs" using arg_cong [OF assms, of length] by simp
  show "p ! off = x" by (rule nth_via_drop [OF assms])
  show "drop (Suc off) p = xs" using arg_cong [OF assms, of "drop 1"] by simp
qed

lemma parse_encoded:
  assumes p: "drop off p = option_bytes d s @ rest" and b: "d \<le> 12" "length s \<le> 200" "num + d \<le> 65535"
  shows "\<exists>o'. parse_option p off num = Some (Next (num + d, o', length s)) \<and> off < o' \<and>
    o' + length s = length p - length rest \<and> take (length s) (drop o' p) = s \<and> drop (o' + length s) p = rest"
proof (cases "length s < 13")
  case True
  let ?b = "of_nat (16 * d + length s) :: u8"
  have p': "drop off p = ?b # s @ rest" using p True by (simp add: option_bytes_def)
  have ob: "off < length p" "p ! off = ?b" "length p = Suc off + length s + length rest"
    using drop_length [OF p'] by simp_all
  have v: "unat ?b = 16 * d + length s" by (rule unat_byte) (use b True in simp)
  have f: "unat (drop_bit 4 (?b AND 0xF0)) = d" "unat (?b AND 0x0F) = length s"
    unfolding nibbles v using True by simp_all
  have dr: "drop (Suc off) p = s @ rest" by (rule drop_length(4) [OF p'])
  have "parse_option p off num = Some (Next (num + d, Suc off, length s))"
    unfolding parse_option_def using ob f True b by (simp add: Let_def extended_bytes_def extended_value_def del: of_nat_add)
  moreover have "drop (Suc off + length s) p = drop (length s) (drop (Suc off) p)" by (simp add: add.commute)
  ultimately show ?thesis using dr ob by (intro exI [of _ "Suc off"]) simp
next
  case False
  let ?b = "of_nat (16 * d + 13) :: u8" and ?e = "of_nat (length s - 13) :: u8"
  have p': "drop off p = ?b # ?e # s @ rest" using p False by (simp add: option_bytes_def)
  have q': "drop (Suc off) p = ?e # s @ rest" by (rule drop_length(4) [OF p'])
  have ob: "off < length p" "p ! off = ?b" "p ! Suc off = ?e" "length p = Suc (Suc off) + length s + length rest"
    using drop_length [OF p'] drop_length [OF q'] by simp_all
  have v: "unat ?b = 16 * d + 13" "unat ?e = length s - 13" by (rule unat_byte, use b False in simp)+
  have f: "unat (drop_bit 4 (?b AND 0xF0)) = d" "unat (?b AND 0x0F) = 13"
    unfolding nibbles v by simp_all
  have dr: "drop (Suc (Suc off)) p = s @ rest" by (rule drop_length(4) [OF q'])
  have "parse_option p off num = Some (Next (num + d, Suc (Suc off), length s))"
    unfolding parse_option_def using ob f v(2) False b by (simp add: Let_def extended_bytes_def extended_value_def del: of_nat_add)
  moreover have "drop (Suc (Suc off) + length s) p = drop (length s) (drop (Suc (Suc off)) p)" by (simp add: add.commute)
  ultimately show ?thesis using dr ob by (intro exI [of _ "Suc (Suc off)"]) simp
qed

lemma option_first:
  assumes "d \<le> 12"
  shows "\<exists>b bs. option_bytes d s = b # bs \<and> b \<noteq> 0xFF"
proof -
  have "of_nat n \<noteq> (0xFF :: u8)" if "n < 255" for n
  proof
    assume "of_nat n = (0xFF :: u8)"
    then have "unat (of_nat n :: u8) = 255" by simp
    then show False unfolding unat_byte [OF less_trans [OF that, of 256, simplified]] using that by simp
  qed
  then show ?thesis using assms by (auto simp: option_bytes_def simp del: of_nat_add of_nat_mult)
qed

lemma content_format_round:
  assumes "off < length p" "p ! off = format_identifier f"
  shows "content_format_option p off (Suc 0) = Some (Next f)"
  using assms by (cases f) (simp_all add: content_format_option_def format_identifier_def)

lemma format_encoded:
  assumes rest: "rest = [] \<or> hd rest = 0xFF" and d: "drop off p = format_option (Suc d) fmt @ rest" "off \<le> length p"
    and n: "length p - off < fuel" "d \<le> 11" "num + d = 11"
  shows "uri_paths fuel p off num = [] \<and>
    (options_loop fuel p off num Text_Plain_Charset_UTF8 st = Some (st', r) \<longrightarrow> r = Next (length p - length rest, format_of fmt))"
proof -
  obtain fuel' where fuel: "fuel = Suc fuel'" using n(1) by (cases fuel) auto
  have stop: "\<not> (off' < length p \<and> p ! off' \<noteq> 0xFF) \<and> (off' \<le> length p \<longrightarrow> off' = length p - length rest)"
    if "drop off' p = rest" for off'
  proof (cases rest)
    case (Cons x xs)
    then show ?thesis using rest that drop_length(2,3) [of off' p x xs] by auto
  qed (use that in auto)
  show ?thesis
  proof (cases fmt)
    case None
    then have "drop off p = rest" using d(1) by (simp add: format_option_def)
    from stop [OF this] d(2) None show ?thesis by (auto simp: fuel format_of_def)
  next
    case (Some f)
    let ?s = "[format_identifier f]"
    have o: "drop off p = option_bytes (Suc d) ?s @ rest" using d(1) Some by (simp add: format_option_def)
    obtain b bs where b: "option_bytes (Suc d) ?s = b # bs" "b \<noteq> 0xFF" using option_first [of "Suc d" ?s] n(2) by auto
    have on: "off < length p \<and> p ! off \<noteq> 0xFF" using drop_length(1,2) [of off p b "bs @ rest"] o b by simp
    obtain o' where o': "parse_option p off num = Some (Next (12, o', Suc 0))" "off < o'"
      "take 1 (drop o' p) = ?s" "drop (Suc o') p = rest"
      using parse_encoded [OF o, of num] n(2,3) by auto
    have le: "Suc o' \<le> length p" using parse_option_total(2) on o'(1) by fastforce
    then have "p ! o' = format_identifier f" using o'(3) by (cases "drop o' p") (auto simp: nth_via_drop)
    then have c: "content_format_option p o' (Suc 0) = Some (Next f)" using content_format_round [of o' p f] le by simp
    have run: "options_loop fuel p off num Text_Plain_Charset_UTF8 st = options_loop fuel' p (Suc o') 12 f st"
      "uri_paths fuel p off num = uri_paths fuel' p (Suc o') 12" using on o'(1) c by (simp_all add: fuel)
    obtain fuel2 where "fuel' = Suc fuel2" using n(1) o'(2) le fuel by (cases fuel') auto
    with stop [OF o'(4)] le Some show ?thesis unfolding run by (auto simp: format_of_def)
  qed
qed

lemma options_encoded:
  assumes rest: "rest = [] \<or> hd rest = 0xFF"
  shows "drop off p = path_options d ts fmt @ rest \<Longrightarrow> off \<le> length p \<Longrightarrow> length p - off < fuel \<Longrightarrow> d \<le> 11 \<Longrightarrow> num + d = 11 \<Longrightarrow>
    \<forall>t \<in> set ts. length t \<le> 200 \<Longrightarrow>
    uri_paths fuel p off num = ts \<and>
    (options_loop fuel p off num Text_Plain_Charset_UTF8 st = Some (st', r) \<longrightarrow> r = Next (length p - length rest, format_of fmt))"
proof (induction ts arbitrary: off fuel d num st)
  case Nil
  then show ?case using format_encoded [OF rest, of off p d fmt fuel num] by simp
next
  case (Cons t ts)
  obtain fuel' where fuel: "fuel = Suc fuel'" using Cons.prems(3) by (cases fuel) auto
  have d: "drop off p = option_bytes d t @ path_options 0 ts fmt @ rest" using Cons.prems(1) by simp
  have d12: "d \<le> 12" using Cons.prems(4) by simp
  obtain b bs where b: "option_bytes d t = b # bs" "b \<noteq> 0xFF" using option_first d12 by blast
  have on: "off < length p \<and> p ! off \<noteq> 0xFF" using drop_length(1,2) [of off p b "bs @ path_options 0 ts fmt @ rest"] d b by simp
  obtain o' where o: "parse_option p off num = Some (Next (11, o', length t))" "off < o'"
    "take (length t) (drop o' p) = t" "drop (o' + length t) p = path_options 0 ts fmt @ rest"
    using parse_encoded [OF d d12, of num] Cons.prems(5,6) by auto
  have le: "o' + length t \<le> length p" using parse_option_total(2) on o(1) by blast
  have IH: "uri_paths fuel' p (o' + length t) 11 = ts \<and>
    (options_loop fuel' p (o' + length t) 11 Text_Plain_Charset_UTF8 st1 = Some (st', r) \<longrightarrow> r = Next (length p - length rest, format_of fmt))" for st1
    by (rule Cons.IH [OF o(4) le]) (use Cons.prems(3,6) o(2) le fuel in auto)
  then show ?case using on o by (auto simp: fuel Option.bind_eq_Some_conv split: if_splits)
qed

subsection \<open>The request the server reads\<close>

lemma method_round: "method_of (method_code m) = Some m" "method_code m < 32"
  by (cases m; simp add: method_code_def method_of_def)+

lemma method_fields:
  "drop_bit 5 (of_nat (method_code m) AND 0xE0 :: u8) = 0" "unat (of_nat (method_code m) AND 0x1F :: u8) = method_code m"
  by (cases m; simp add: method_code_def)+

lemma header_fields:
  fixes confirmable :: bool
  assumes "length tok \<le> 8"
  defines "b \<equiv> 0x40 + (if confirmable then 0 else 0x10) + of_nat (length tok) :: u8"
  shows "drop_bit 6 (b AND 0xC0) = 1" "drop_bit 4 (b AND 0x30) = (if confirmable then 0 else 1)"
    "unat (b AND 0x0F) = length tok"
proof -
  have "length tok = 0 \<or> length tok = 1 \<or> length tok = 2 \<or> length tok = 3 \<or> length tok = 4 \<or> length tok = 5 \<or>
    length tok = 6 \<or> length tok = 7 \<or> length tok = 8" using assms(1) by linarith
  then show "drop_bit 6 (b AND 0xC0) = 1" "drop_bit 4 (b AND 0x30) = (if confirmable then 0 else 1)"
    "unat (b AND 0x0F) = length tok" unfolding b_def by (cases confirmable; elim disjE; simp)+
qed

definition encoded_request :: "bool \<Rightarrow> coap_method \<Rightarrow> u8 \<Rightarrow> u8 \<Rightarrow> u8 list \<Rightarrow> coap_request" where
  "encoded_request confirmable m idLower idUpper tok =
     \<lparr>requiresAck = confirmable, tokenLength = length tok, codeDetail = method_code m, messageIDLower = idLower,
      messageIDUpper = idUpper, token = tok\<rparr>"

lemma header_encoded:
  assumes "length tok \<le> 8"
  shows "parse_header (coap_packet confirmable m idLower idUpper tok ts fmt payload) =
    Some (Next (encoded_request confirmable m idLower idUpper tok))"
  using assms header_fields [OF assms, of confirmable] method_fields [of m]
  unfolding parse_header_def coap_packet_def encoded_request_def by (simp add: Let_def)

lemma payload_encoded:
  assumes "p = q @ payload_bytes payload"
  shows "request_payload p (length p - length (payload_bytes payload)) = Some (Next payload)"
  using assms by (simp add: request_payload_def payload_bytes_def)

definition whole_segments :: "u8 list list \<Rightarrow> u8 list list" where
  "whole_segments ts = (if ts = [] then [[]] else ts)"

lemma whole_segments_path: "joined (whole_segments ts) = whole_path (joined ts)"
  by (cases ts) (simp_all add: whole_segments_def whole_path_def)

lemma whole_segments_plain: "list_all plain ts \<Longrightarrow> list_all plain (whole_segments ts)"
  by (simp add: whole_segments_def plain_def)

lemma hd_filter: "hd_ptr (filter P xs) None = find P xs"
  by (induction xs) auto

lemma segments_short:
  assumes "length (joined ts) \<le> 100"
  shows "\<forall>t \<in> set ts. length t \<le> 200"
  using assms by (induction ts) auto

lemma found_path:
  assumes "found es used st (joined ts)" "list_all plain ts"
    "\<forall>i \<in> set used. pattern (pe_value (es ! i)) = joined (pats i) \<and> list_all segment_ok (pats i)"
  shows "ps_head st = find (\<lambda>i. list_all2 segment_fits (pats i) (whole_segments ts)) used"
    "ps_head st \<noteq> None \<Longrightarrow> take (ps_size st) (ps_path st) = joined (whole_segments ts)"
  using assms candidates_found [of used es pats "whole_segments ts"]
  by (simp_all add: found_def whole_segments_path whole_segments_plain hd_filter)

text \<open>The answer to a request: the handler of the first registered path that fits, or \<open>4.04\<close>.\<close>

definition answer :: "'k coap_handler \<Rightarrow> path_element list \<Rightarrow> ptr \<Rightarrow> coap_method \<Rightarrow> u8 list \<Rightarrow> ContentFormat \<Rightarrow> u8 list \<Rightarrow> 'k \<Rightarrow>
  CoAPResponse \<times> u8 list \<times> 'k" where
  "answer handler es target m path fmt payload k = (case target of
     None \<Rightarrow> (not_found_response, [], k)
   | Some i \<Rightarrow> handler (pHandler (pe_value (es ! i))) m path fmt payload k)"

lemma reading_encoded:
  assumes ok: "server_ok used server" "length rawPath = 101" and tok: "length tok \<le> 8" and ts: "length (joined ts) \<le> 100"
    and p_def: "p = coap_packet confirmable m idLower idUpper tok ts fmt payload"
  shows "\<exists>st. options_loop (Suc (length p)) p (4 + length tok) 0 Text_Plain_Charset_UTF8 (initial_path server rawPath) =
      Some (st, Next (length p - length (payload_bytes payload), format_of fmt)) \<and>
    reading (pathListElements server) (usedPathListElementsHead server) used st (joined ts)"
proof -
  define hdr where "hdr = [0x40 + (if confirmable then 0 else 0x10) + of_nat (length tok), of_nat (method_code m), idLower, idUpper] @ tok"
  have hdr: "p = hdr @ path_options 11 ts fmt @ payload_bytes payload" "length hdr = 4 + length tok"
    by (simp_all add: hdr_def p_def coap_packet_def)
  then have d: "drop (4 + length tok) p = path_options 11 ts fmt @ payload_bytes payload" and len: "4 + length tok \<le> length p" by simp_all
  have rest: "payload_bytes payload = [] \<or> hd (payload_bytes payload) = 0xFF" by (simp add: payload_bytes_def)
  have fuel: "length p - (4 + length tok) < Suc (length p)" by simp
  have enc: "uri_paths (Suc (length p)) p (4 + length tok) 0 = ts \<and>
      (options_loop (Suc (length p)) p (4 + length tok) 0 Text_Plain_Charset_UTF8 st0 = Some (st', r) \<longrightarrow>
        r = Next (length p - length (payload_bytes payload), format_of fmt))" for st0 st' r
    by (rule options_encoded [OF rest d len fuel _ _ segments_short [OF ts]]) simp_all
  have seg: "length ([] @ joined (uri_paths (Suc (length p)) p (4 + length tok) 0)) \<le> 100" using enc ts by simp
  have "paths_ok (pathListElements server) (usedPathListElementsHead server) used" using ok(1) by (simp add: server_ok_def)
  from options_spec [OF this initial_reading [OF ok] fuel seg, unfolded append_Nil, of Text_Plain_Charset_UTF8] obtain st r where
    o: "options_loop (Suc (length p)) p (4 + length tok) 0 Text_Plain_Charset_UTF8 (initial_path server rawPath) = Some (st, r)"
    "case r of Return \<Rightarrow> True | Next (off', fmt') \<Rightarrow> reading (pathListElements server) (usedPathListElementsHead server) used st
      (joined (uri_paths (Suc (length p)) p (4 + length tok) 0)) \<and> 4 + length tok \<le> off'" by blast
  with enc [of "initial_path server rawPath" st r] show ?thesis by auto
qed

lemma request_answered:
  assumes ok: "server_ok used server" "handler_ok handler" "length rawPath = 101"
    and pats: "\<forall>i \<in> set used. pattern (pe_value (pathListElements server ! i)) = joined (pats i) \<and> list_all segment_ok (pats i)"
    and req: "length tok \<le> 8" "list_all plain ts" "length (joined ts) \<le> 100"
    and room: "currentlyWrittenToWriteBufferDataLen (fst (attemptWriteBufferSwap server)) + 31 + RESPONSE_BUFFER_SIZE \<le> WRITE_BUFFER_SIZE"
    and ans: "answer handler (pathListElements server) (find (\<lambda>i. list_all2 segment_fits (pats i) (whole_segments ts)) used) m
      (joined (whole_segments ts)) (format_of fmt) payload k = (response, body, k')" "responseSize response \<le> length body"
  shows "\<exists>final calls. handlePacketFromReceiveBuffer handler rawPath sourceIP sourcePort
      (coap_packet confirmable m idLower idUpper tok ts fmt payload) server k = Some (final, calls, k') \<and>
    (let server1 = fst (attemptWriteBufferSwap server); n = 1 - currentlySendingWritebuffer server1;
         base = currentlyWrittenToWriteBufferDataLen server1
     in take base (writeBuffers final ! n) = take base (writeBuffers server ! n) \<and>
        at_offset (writeBuffers final ! n) base (response_bytes sourceIP sourcePort
          (encoded_request confirmable m idLower idUpper tok) (checked_response response) body))"
proof -
  let ?es = "pathListElements server" and ?uh = "usedPathListElementsHead server"
  define p where "p = coap_packet confirmable m idLower idUpper tok ts fmt payload"
  define rq where "rq = encoded_request confirmable m idLower idUpper tok"
  define off where "off = length p - length (payload_bytes payload)"
  have tl: "tokenLength rq = length tok" "length (token rq) = tokenLength rq" "codeDetail rq = method_code m"
    by (simp_all add: rq_def encoded_request_def)
  have paths: "paths_ok ?es ?uh used" and bufs: "buffers_ok server" using ok(1) by (simp_all add: server_ok_def)
  have h: "parse_header p = Some (Next rq)" unfolding p_def rq_def by (rule header_encoded [OF req(1)])
  obtain st where o: "options_loop (Suc (length p)) p (4 + tokenLength rq) 0 Text_Plain_Charset_UTF8 (initial_path server rawPath) =
      Some (st, Next (off, format_of fmt))" "reading ?es ?uh used st (joined ts)"
    using reading_encoded [OF ok(1,3) req(1,3) p_def] unfolding off_def tl by blast
  obtain st' where st': "finish_path st = Some st'" "found ?es used st' (joined ts)" using finish_spec [OF paths o(2)] by blast
  note fp = found_path [OF st'(2) req(2) pats]
  let ?server = "server\<lparr>pathListElements := ps_elements st'\<rparr>"
  have handle: "handlePacketFromReceiveBuffer handler rawPath sourceIP sourcePort p server k =
      respond handler sourceIP sourcePort p rq off (format_of fmt) st' ?server k"
    using h o(1) st'(1) by (simp add: handlePacketFromReceiveBuffer_def initial_path_def)
  have pay: "request_payload p off = Some (Next payload)" unfolding off_def
    by (rule payload_encoded) (simp add: p_def coap_packet_def)
  have call: "call_handler handler st' rq (format_of fmt) p off k = Some (Next (response, body, k'))"
  proof (cases "ps_head st'")
    case None
    then show ?thesis using ans(1) fp(1) by (simp add: call_handler_def answer_def)
  next
    case (Some i)
    have i: "i < length (ps_elements st')" "i < length ?es" using found_inside [OF st'(2) paths Some] by simp_all
    have "pHandler (pe_value (ps_elements st' ! i)) = pHandler (pe_value (?es ! i))"
      using st'(2) i(2) by (simp add: found_def same_elements_def same_path_def)
    moreover have "find (\<lambda>i. list_all2 segment_fits (pats i) (whole_segments ts)) used = Some i" using fp(1) Some by simp
    moreover have "take (ps_size st') (ps_path st') = joined (whole_segments ts)" using fp(2) Some by simp
    ultimately show ?thesis using ans(1) Some i pay by (simp add: call_handler_def answer_def tl method_round)
  qed
  have swap: "fst (attemptWriteBufferSwap ?server) = (fst (attemptWriteBufferSwap server))\<lparr>pathListElements := ps_elements st'\<rparr>"
    "writeBuffers (fst (attemptWriteBufferSwap s)) = writeBuffers s" for s
    by (simp_all add: attemptWriteBufferSwap_def user_setSendBuffer_def)
  have "required_size st' rq \<le> 31 + RESPONSE_BUFFER_SIZE" using req(1) by (simp add: required_size_def tl)
  then have "required_size st' rq \<le> WRITE_BUFFER_SIZE - currentlyWrittenToWriteBufferDataLen (fst (attemptWriteBufferSwap ?server))"
    using room unfolding swap by simp
  moreover have "buffers_ok ?server" using bufs by (simp add: buffers_ok_def)
  moreover have "1 - currentlySendingWritebuffer (fst (attemptWriteBufferSwap server)) < length (writeBuffers server)"
    using swap_buffers(1) [OF bufs] bufs by (simp add: buffers_ok_def)
  ultimately show ?thesis
    using respond_spec [OF _ ok(2) tl(2) call, of ?server sourceIP sourcePort] ans(2)
    unfolding p_def [symmetric] handle rq_def [symmetric] Let_def swap prod.inject by (auto simp: swap)
qed

text \<open>C12. A request as a client encodes it, for a path of segments \<open>ts\<close> of at most 100 characters in all, is answered by the
  handler of the first registered path whose segments fit (\<open>^\<close> fits every segment), called with the method, the path and the
  payload of the request, and with \<open>4.04\<close> when no path fits; the response stands behind the responses already in the
  send buffer, with the message ID and the token of the request.
\<close>

theorem coap_dispatch:
  assumes ok: "server_ok used server" "handler_ok handler" "length rawPath = 101"
    and pats: "\<forall>i \<in> set used. pattern (pe_value (pathListElements server ! i)) = joined (pats i) \<and> list_all segment_ok (pats i)"
    and req: "length tok \<le> 8" "list_all plain ts" "length (joined ts) \<le> 100"
    and room: "currentlyWrittenToWriteBufferDataLen (fst (attemptWriteBufferSwap server)) + 31 + RESPONSE_BUFFER_SIZE \<le> WRITE_BUFFER_SIZE"
    and ans: "answer handler (pathListElements server) (find (\<lambda>i. list_all2 segment_fits (pats i) (whole_segments ts)) used) m
      (joined (whole_segments ts)) (format_of fmt) payload k = (response, body, k')" "responseSize response \<le> length body"
  shows "\<exists>final calls. handlePacketFromReceiveBuffer handler rawPath sourceIP sourcePort
      (coap_packet confirmable m idLower idUpper tok ts fmt payload) server k = Some (final, calls, k') \<and>
    (let server1 = fst (attemptWriteBufferSwap server); n = 1 - currentlySendingWritebuffer server1;
         base = currentlyWrittenToWriteBufferDataLen server1
     in take base (writeBuffers final ! n) = take base (writeBuffers server ! n) \<and>
        at_offset (writeBuffers final ! n) base (response_bytes sourceIP sourcePort
          (encoded_request confirmable m idLower idUpper tok) (checked_response response) body))"
  by (rule request_answered [OF ok pats req room ans])

text \<open>\<open>GET /a/bc\<close> fits \<open>/a/^\<close>: handler 7 runs, and its answer is in the first send buffer.\<close>

theorem coap_dispatch_witness:
  "\<exists>final calls. handlePacketFromReceiveBuffer sample_handler (replicate 101 0) 1 2
      (coap_packet True GET 3 4 [5] [[0x61], [0x62, 0x63]] None []) sample_server 0 = Some (final, calls, 7) \<and>
    at_offset (writeBuffers final ! 1) 0 (response_bytes 1 2 (encoded_request True GET 3 4 [5])
      \<lparr>responseCode = 0x45, responseSize = 1, contentFormat = Text_Plain_Charset_UTF8\<rparr> [0x21])"
proof -
  let ?r = "\<lparr>responseCode = 0x45, responseSize = 1, contentFormat = Text_Plain_Charset_UTF8\<rparr>"
  have swap: "attemptWriteBufferSwap sample_server = (sample_server, [])"
    by (simp add: attemptWriteBufferSwap_def sample_server_def raw_server_def)
  have cur: "currentlySendingWritebuffer sample_server = 0" "currentlyWrittenToWriteBufferDataLen sample_server = 0"
    by (simp_all add: sample_server_def raw_server_def)
  have h: "pHandler (pe_value (pathListElements sample_server ! 0)) = 7" by (simp add: sample_server_def)
  have "\<forall>i \<in> set [0]. pattern (pe_value (pathListElements sample_server ! i)) = joined [[0x61], [0x5E]] \<and>
      list_all segment_ok [[0x61], [0x5E]]"
    using sample_ok(3) by (simp add: segment_ok_def plain_def)
  note d = coap_dispatch [OF sample_ok(1,2) _ this, of "replicate 101 0" "[5]" "[[0x61], [0x62, 0x63]]" GET None "[]" 0 ?r "[0x21]" 7 1 2 True 3 4]
  have "\<exists>final calls. handlePacketFromReceiveBuffer sample_handler (replicate 101 0) 1 2
      (coap_packet True GET 3 4 [5] [[0x61], [0x62, 0x63]] None []) sample_server 0 = Some (final, calls, 7) \<and>
      (let server1 = fst (attemptWriteBufferSwap sample_server); n = 1 - currentlySendingWritebuffer server1;
         base = currentlyWrittenToWriteBufferDataLen server1
     in take base (writeBuffers final ! n) = take base (writeBuffers sample_server ! n) \<and>
        at_offset (writeBuffers final ! n) base (response_bytes 1 2 (encoded_request True GET 3 4 [5]) (checked_response ?r) [0x21]))"
    by (rule d) (simp_all add: swap cur h plain_def answer_def segment_fits_def whole_segments_def sample_handler_def)
  then show ?thesis by (simp add: swap cur Let_def checked_response_def)
qed

end
