(* ===== verification/Coap_Receive.thy ===== *)
theory Coap_Receive
  imports Coap_Dispatch
begin

text \<open>
  The receive buffer: datagrams one after the other, each behind a header with its source and size, closed by a
  header of zeros. The server handles the datagrams in order, up to the first empty one.
\<close>

subsection \<open>The datagrams of a receive buffer\<close>

type_synonym datagram = "u32 \<times> u16 \<times> u8 list"

definition frame :: "datagram \<Rightarrow> u8 list" where
  "frame = (\<lambda>(ip, port, payload). le32 ip @ le16 port @ le16 (of_nat (length payload)) @ payload)"

definition frames :: "datagram list \<Rightarrow> u8 list" where
  "frames ds = concat (map frame ds)"

fun handle_all :: "'k coap_handler \<Rightarrow> u8 list \<Rightarrow> datagram list \<Rightarrow> CoAPServer \<Rightarrow> 'k \<Rightarrow> (CoAPServer \<times> coap_syscall list \<times> 'k) option" where
  "handle_all handler rawPath [] server k = Some (server, [], k)"
| "handle_all handler rawPath ((ip, port, payload) # ds) server k = do {
     (server, calls, k) \<leftarrow> handlePacketFromReceiveBuffer handler rawPath ip port payload server k;
     (server, calls', k) \<leftarrow> handle_all handler rawPath ds server k;
     Some (server, calls @ calls', k) }"

definition nonempty :: "datagram \<Rightarrow> bool" where
  "nonempty d \<longleftrightarrow> snd (snd d) \<noteq> []"

lemma frames_simps [simp]: "frames [] = []" "frames (d # ds) = frame d @ frames ds"
  by (simp_all add: frames_def)

lemma frame_length: "length (frame (ip, port, payload)) = 8 + length payload"
  by (simp add: frame_def le16_def le32_def)

lemma frame_fields:
  assumes d: "drop off buf = frame (ip, port, payload) @ rest" and small: "length payload < 65536"
  shows "off + 8 + length payload \<le> length buf" "u32_be (buf ! (off + 3)) (buf ! (off + 2)) (buf ! (off + 1)) (buf ! off) = ip"
    "u16_be (buf ! (off + 5)) (buf ! (off + 4)) = port" "unat (u16_be (buf ! (off + 7)) (buf ! (off + 6))) = length payload"
    "take (length payload) (drop (off + 8) buf) = payload" "drop (off + 8 + length payload) buf = rest"
    "buf ! (off + 6) = 0 \<and> buf ! (off + 7) = 0 \<longleftrightarrow> payload = []"
proof -
  let ?n = "of_nat (length payload) :: u16"
  have len: "off + 8 + length payload \<le> length buf"
  proof -
    have "length (drop off buf) = 8 + length payload + length rest" using d by (simp add: frame_length)
    then show ?thesis by simp
  qed
  then show "off + 8 + length payload \<le> length buf" .
  have at: "buf ! (off + i) = (frame (ip, port, payload) @ rest) ! i" for i
    using len by (simp flip: d)
  show "u32_be (buf ! (off + 3)) (buf ! (off + 2)) (buf ! (off + 1)) (buf ! off) = ip"
    using at [of 0] at [of 1] at [of 2] at [of 3] by (simp add: frame_def le16_def le32_def)
  show "u16_be (buf ! (off + 5)) (buf ! (off + 4)) = port"
    using at [of 4] at [of 5] by (simp add: frame_def le16_def le32_def)
  have n: "unat ?n = length payload" using small by (simp add: unat_of_nat)
  have size: "u16_be (buf ! (off + 7)) (buf ! (off + 6)) = ?n"
    using at [of 6] at [of 7] by (simp add: frame_def le16_def le32_def)
  then show "unat (u16_be (buf ! (off + 7)) (buf ! (off + 6))) = length payload" using n by simp
  have "drop (off + 8) buf = drop 8 (drop off buf)" by (simp add: add.commute)
  then have d8: "drop (off + 8) buf = payload @ rest" unfolding d by (simp add: frame_def le16_def le32_def)
  then show "take (length payload) (drop (off + 8) buf) = payload" by simp
  have "drop (off + 8 + length payload) buf = drop (length payload) (drop (off + 8) buf)" by (simp add: add.commute)
  then show "drop (off + 8 + length payload) buf = rest" unfolding d8 by simp
  show "buf ! (off + 6) = 0 \<and> buf ! (off + 7) = 0 \<longleftrightarrow> payload = []"
  proof
    assume "buf ! (off + 6) = 0 \<and> buf ! (off + 7) = 0"
    then have "?n = 0" using size by (simp add: u16_be_def)
    then show "payload = []" using n by simp
  next
    assume "payload = []"
    then show "buf ! (off + 6) = 0 \<and> buf ! (off + 7) = 0"
      using at [of 6] at [of 7] by (simp add: frame_def le16_def le32_def byte_at_def)
  qed
qed

lemma receive_frames:
  assumes "drop off buf = frames ds @ frame (0, 0, []) @ rest" "\<forall>d \<in> set ds. length (snd (snd d)) < 65536" "length ds < fuel"
  shows "receive_requests handler rawPath fuel buf off server k = handle_all handler rawPath (takeWhile nonempty ds) server k"
  using assms
proof (induction ds arbitrary: off fuel server k)
  case Nil
  obtain fuel' where fuel: "fuel = Suc fuel'" using Nil.prems(3) by (cases fuel) auto
  have d: "drop off buf = frame (0, 0, []) @ rest" using Nil.prems(1) by simp
  note f = frame_fields [OF d]
  have "off + 8 \<le> length buf" "buf ! (off + 6) = 0" "buf ! (off + 7) = 0" using f(1,7) by simp_all
  then show ?case by (simp add: fuel)
next
  case (Cons e ds)
  obtain fuel' where fuel: "fuel = Suc fuel'" using Cons.prems(3) by (cases fuel) auto
  obtain ip port payload where e: "e = (ip, port, payload)" by (cases e) auto
  have d: "drop off buf = frame (ip, port, payload) @ frames ds @ frame (0, 0, []) @ rest" using Cons.prems(1) e by simp
  have small: "length payload < 65536" using Cons.prems(2) e by simp
  note f = frame_fields [OF d small]
  have in_buf: "off + 7 < length buf" using f(1) by simp
  show ?case
  proof (cases "payload = []")
    case True
    then have "buf ! (off + 6) = 0" "buf ! (off + 7) = 0" using f(7) by simp_all
    then show ?thesis using in_buf True by (simp add: fuel e nonempty_def)
  next
    case False
    then have "\<not> (buf ! (off + 6) = 0 \<and> buf ! (off + 7) = 0)" using f(7) by simp
    moreover have "receive_requests handler rawPath fuel' buf (off + 8 + length payload) s k' =
        handle_all handler rawPath (takeWhile nonempty ds) s k'" for s k'
      by (rule Cons.IH [OF f(6)]) (use Cons.prems(2,3) fuel in auto)
    moreover have "nonempty (ip, port, payload)" using False by (simp add: nonempty_def)
    ultimately show ?thesis using in_buf f(1-5) by (auto simp: fuel e Let_def simp del: One_nat_def)
  qed
qed

lemma frames_length: "length ds \<le> length (frames ds)"
proof (induction ds)
  case (Cons d ds)
  then show ?case by (cases d) (simp add: frame_length)
qed simp

text \<open>C29. The server handles the datagrams of the receive buffer in the order of arrival, each with its source and its
  payload, up to the first empty datagram: what follows an empty datagram is never handled, and when the first datagram
  of the buffer is empty the server does not even change buffers, in this round and in every later one.
\<close>

theorem coap_receive:
  assumes "currentlyWrittenToReceiveBuffer server < length (receiveBuffers server)"
    "receiveBuffers server ! currentlyWrittenToReceiveBuffer server = frames ds @ frame (0, 0, []) @ rest"
    "\<forall>d \<in> set ds. length (snd (snd d)) < 65536"
  shows "attemptReceiveBufferSwap handler rawPath server k =
    (if takeWhile nonempty ds = [] then Some (server, [], k)
     else do {
       let current = currentlyWrittenToReceiveBuffer server;
       let (server, calls) = user_setReceiveBuffer (1 - current) RECEIVE_BUFFER_SIZE server;
       (server, calls', k) \<leftarrow> handle_all handler rawPath (takeWhile nonempty ds) server k;
       Some (server\<lparr>currentlyWrittenToReceiveBuffer := 1 - current\<rparr>, calls @ calls', k) })"
proof -
  define buf where "buf = frames ds @ frame (0, 0, []) @ rest"
  have buf: "drop 0 buf = frames ds @ frame (0, 0, []) @ rest" by (simp add: buf_def)
  have all: "receive_requests handler rawPath (Suc (length buf)) buf 0 s k' = handle_all handler rawPath (takeWhile nonempty ds) s k'" for s k'
    by (rule receive_frames [OF buf assms(3)]) (use frames_length [of ds] in \<open>simp add: buf_def\<close>)
  have hd: "7 < length buf \<and> (buf ! 6 = 0 \<and> buf ! 7 = 0 \<longleftrightarrow> takeWhile nonempty ds = [])"
  proof (cases ds)
    case Nil
    then have "drop 0 buf = frame (0, 0, []) @ rest" using buf by simp
    from frame_fields(1,7) [OF this] show ?thesis using Nil by simp
  next
    case (Cons d ds')
    obtain ip port payload where d: "d = (ip, port, payload)" by (cases d) auto
    have "drop 0 buf = frame (ip, port, payload) @ frames ds' @ frame (0, 0, []) @ rest" using buf Cons d by simp
    from frame_fields(1,7) [OF this] assms(3) show ?thesis using Cons d by (simp add: nonempty_def)
  qed
  have get: "arr_get (receiveBuffers server) (currentlyWrittenToReceiveBuffer server) = Some buf"
    using assms(1,2) by (simp add: buf_def)
  show ?thesis
  proof (cases "takeWhile nonempty ds = []")
    case True
    then show ?thesis using hd get by (simp add: attemptReceiveBufferSwap_def Let_def)
  next
    case False
    then have "\<not> (buf ! 6 = 0 \<and> buf ! 7 = 0)" using hd by blast
    then show ?thesis using hd get False
      by (auto simp: attemptReceiveBufferSwap_def Let_def all simp del: receive_requests.simps split: prod.splits)
  qed
qed

text \<open>An empty datagram in front of a request: the request is never handled.\<close>

theorem coap_receive_witness:
  "attemptReceiveBufferSwap sample_handler (replicate 101 0) (sample_server\<lparr>receiveBuffers :=
      [frames [(1, 2, []), (1, 2, coap_packet True GET 3 4 [5] [[0x61], [0x62]] None [])] @ frame (0, 0, []) @ []]\<rparr>) 0 =
    Some (sample_server\<lparr>receiveBuffers :=
      [frames [(1, 2, []), (1, 2, coap_packet True GET 3 4 [5] [[0x61], [0x62]] None [])] @ frame (0, 0, []) @ []]\<rparr>, [], 0)"
proof -
  define server where "server = sample_server\<lparr>receiveBuffers :=
      [frames [(1, 2, []), (1, 2, coap_packet True GET 3 4 [5] [[0x61], [0x62]] None [])] @ frame (0, 0, []) @ []]\<rparr>"
  have c: "currentlyWrittenToReceiveBuffer server = 0" by (simp add: server_def sample_server_def raw_server_def)
  have b: "receiveBuffers server ! currentlyWrittenToReceiveBuffer server =
      frames [(1, 2, []), (1, 2, coap_packet True GET 3 4 [5] [[0x61], [0x62]] None [])] @ frame (0, 0, []) @ []"
    unfolding c by (simp add: server_def)
  have l: "currentlyWrittenToReceiveBuffer server < length (receiveBuffers server)" unfolding c by (simp add: server_def)
  show ?thesis
    using coap_receive [OF l b, of sample_handler "replicate 101 0" 0] unfolding server_def [symmetric]
    by (simp add: nonempty_def coap_packet_def option_bytes_def format_option_def payload_bytes_def)
qed

end
