(* ===== verification/Coap_Overflow.thy ===== *)
theory Coap_Overflow
  imports Coap_Receive
begin

text \<open>
  Requests whose path does not fit the local array \<open>path\<close> of \<open>handlePacketFromReceiveBuffer\<close>. To say what is written behind the array,
  the array is extended by the memory that follows it on the stack.
\<close>

subsection \<open>The memory behind the array\<close>

definition followed_by :: "path_state \<Rightarrow> u8 list \<Rightarrow> path_state" where
  "followed_by st behind = st\<lparr>ps_path := ps_path st @ behind\<rparr>"

lemma followed_by_simps [simp]:
  "ps_elements (followed_by st b) = ps_elements st" "ps_head (followed_by st b) = ps_head st"
  "ps_size (followed_by st b) = ps_size st" "ps_path (followed_by st b) = ps_path st @ b"
  by (simp_all add: followed_by_def)

lemma followed_by_update:
  "(followed_by st b)\<lparr>ps_elements := es, ps_head := h, ps_path := xs @ b\<rparr> = followed_by (st\<lparr>ps_elements := es, ps_head := h, ps_path := xs\<rparr>) b"
  "(followed_by st b)\<lparr>ps_size := n\<rparr> = followed_by (st\<lparr>ps_size := n\<rparr>) b"
  by (simp_all add: followed_by_def)

lemma arr_set_append: "arr_set xs i v = Some ys \<Longrightarrow> arr_set (xs @ b) i v = Some (ys @ b)"
  by (auto simp: arr_simps list_update_append)

text \<open>A run that stays inside the array does the same when memory follows, and leaves that memory alone.\<close>

lemma path_characters_behind:
  "path_characters p off is st = Some st' \<Longrightarrow> path_characters p off is (followed_by st b) = Some (followed_by st' b)"
proof (induction "is" arbitrary: st)
  case (Cons i "is")
  show ?case
  proof (cases "ps_head st = None")
    case True
    then show ?thesis using Cons.prems by simp
  next
    case False
    then obtain c path es h where s: "arr_get p (off + i) = Some c" "arr_set (ps_path st) (ps_size st + 1 + i) c = Some path"
      "trimListBasedOnNewCharacter (ps_elements st) (ps_head st) c False = Some (es, h)"
      "path_characters p off is (st\<lparr>ps_elements := es, ps_head := h, ps_path := path\<rparr>) = Some st'"
      using Cons.prems by (auto simp: Option.bind_eq_Some_conv)
    then show ?thesis using False arr_set_append [OF s(2), of b] Cons.IH [OF s(4)] by (auto simp: followed_by_update)
  qed
qed simp

lemma uri_path_behind:
  assumes "uri_path_option p off len st = Some st'"
  shows "uri_path_option p off len (followed_by st b) = Some (followed_by st' b)"
proof -
  let ?slash = "\<lambda>st. if ps_size st + (1 + len) > MAX_COAP_PATH_SIZE then Some st
       else do {
         path \<leftarrow> arr_set (ps_path st) (ps_size st) SLASH;
         (es, head) \<leftarrow> trimListBasedOnNewCharacter (ps_elements st) (ps_head st) SLASH (ps_size st = 0);
         Some (st\<lparr>ps_elements := es, ps_head := head, ps_path := path\<rparr>) }"
  obtain st1 st2 where s: "?slash st = Some st1" "path_characters p off [0..<len] st1 = Some st2"
    "st' = st2\<lparr>ps_size := ps_size st2 + (1 + len)\<rparr>"
    using assms unfolding uri_path_option_def by (auto simp: Option.bind_eq_Some_conv simp del: One_nat_def)
  have "?slash (followed_by st b) = Some (followed_by st1 b)"
  proof (cases "ps_size st + (1 + len) > MAX_COAP_PATH_SIZE")
    case False
    then obtain path es h where h: "arr_set (ps_path st) (ps_size st) SLASH = Some path"
      "trimListBasedOnNewCharacter (ps_elements st) (ps_head st) SLASH (ps_size st = 0) = Some (es, h)"
      "st1 = st\<lparr>ps_elements := es, ps_head := h, ps_path := path\<rparr>" using s(1) by (auto simp: Option.bind_eq_Some_conv)
    then show ?thesis using False arr_set_append [OF h(1), of b] by (simp add: followed_by_update)
  qed (use s(1) in simp)
  then show ?thesis using path_characters_behind [OF s(2), of b] s(3)
    unfolding uri_path_option_def by (simp add: followed_by_update)
qed

lemma options_behind:
  "options_loop fuel p off num fmt st = Some (st', r) \<Longrightarrow> options_loop fuel p off num fmt (followed_by st b) = Some (followed_by st' b, r)"
proof (induction fuel arbitrary: off num fmt st)
  case (Suc fuel)
  show ?case
  proof (cases "off < length p \<and> p ! off \<noteq> 0xFF")
    case True
    then obtain opt where opt: "parse_option p off num = Some opt" using Suc.prems by (auto simp: Option.bind_eq_Some_conv)
    show ?thesis
    proof (cases opt)
      case Return
      then show ?thesis using Suc.prems True opt by simp
    next
      case (Next x)
      obtain n o' l where x: "x = (n, o', l)" by (cases x) auto
      show ?thesis
      proof (cases "n = 11 \<and> ps_head st \<noteq> None")
        case path: True
        then obtain st1 where "uri_path_option p o' l st = Some st1" "options_loop fuel p (o' + l) n fmt st1 = Some (st', r)"
          using Suc.prems True opt Next x by (auto simp: Option.bind_eq_Some_conv)
        then show ?thesis using path True opt Next x uri_path_behind Suc.IH by auto
      next
        case False
        then show ?thesis using Suc.prems Suc.IH True opt Next x
          by (auto simp: Option.bind_eq_Some_conv split: if_splits step.splits)
      qed
    qed
  qed (use Suc.prems in simp)
qed simp

subsection \<open>A path that keeps matching\<close>

lemma progress_append: "progress pat (cs @ ds) = Option.bind (progress pat cs) (\<lambda>r. progress r ds)"
  by (induction ds rule: rev_induct) (simp_all add: progress_snoc flip: append_assoc)

lemma progress_literal: "plain t \<Longrightarrow> WILDCARD \<notin> set t \<Longrightarrow> progress (t @ rest) t = Some rest"
proof (induction t)
  case (Cons c t)
  have "progress ((c # t) @ rest) (c # t) = Option.bind (adv (c # t @ rest) c) (\<lambda>r. progress r t)"
    using progress_append [of "c # t @ rest" "[c]" t] by (simp add: progress_def)
  with Cons show ?case by (auto simp: plain_def)
qed simp

lemma progress_wildcard: "plain s \<Longrightarrow> progress (WILDCARD # rest) s = Some (WILDCARD # rest)"
proof (induction s rule: rev_induct)
  case (snoc c s)
  then show ?case by (auto simp: progress_snoc plain_def)
qed simp

lemma progress_open:
  assumes "plain t" "WILDCARD \<notin> set t" "plain s"
  shows "progress (SLASH # t @ SLASH # WILDCARD # onward) (SLASH # t @ SLASH # s) = Some (WILDCARD # onward)"
    "progress (SLASH # t @ SLASH # WILDCARD # onward) (SLASH # t) = Some (SLASH # WILDCARD # onward)"
proof -
  have 1: "progress (SLASH # t @ SLASH # WILDCARD # onward) (SLASH # t) = Some (SLASH # WILDCARD # onward)"
    using progress_append [of "SLASH # t @ SLASH # WILDCARD # onward" "[SLASH]" t] progress_literal [OF assms(1,2)]
    by (simp add: progress_def)
  have "progress (SLASH # WILDCARD # onward) (SLASH # s) = Some (WILDCARD # onward)"
    using progress_append [of "SLASH # WILDCARD # onward" "[SLASH]" s] progress_wildcard [OF assms(3)] by (simp add: progress_def)
  then show "progress (SLASH # t @ SLASH # WILDCARD # onward) (SLASH # t @ SLASH # s) = Some (WILDCARD # onward)"
    using progress_append [of "SLASH # t @ SLASH # WILDCARD # onward" "SLASH # t" "SLASH # s"] 1 by simp
  show "progress (SLASH # t @ SLASH # WILDCARD # onward) (SLASH # t) = Some (SLASH # WILDCARD # onward)" by (rule 1)
qed

lemma tracked_head:
  assumes "tracked es' used head cs" "same_elements es es'" "paths_ok es uh used" "i \<in> set used"
    "progress (pattern (pe_value (es ! i))) (cs @ ds) \<noteq> None"
  shows "head \<noteq> None"
proof -
  have "progress (pattern (pe_value (es ! i))) cs \<noteq> None" using assms(5) by (cases "progress (pattern (pe_value (es ! i))) cs") (simp_all add: progress_append)
  then have "candidates es used cs \<noteq> []" using assms(4) by (auto simp: candidates_def filter_empty_conv)
  then show ?thesis using tracked_None [of es' used cs es uh] assms(1-3) by (cases head) auto
qed

text \<open>While a registered path matches, the characters of an option are copied into the array wherever they fall.\<close>

lemma characters_copied:
  assumes ok: "paths_ok es uh used" and v: "v = take len (drop off p)" "off + len \<le> length p" and i: "i \<in> set used"
    and match: "progress (pattern (pe_value (es ! i))) (cs @ v) \<noteq> None"
  shows "j \<le> len \<Longrightarrow> same_elements es (ps_elements st) \<Longrightarrow> tracked (ps_elements st) used (ps_head st) (cs @ take j v) \<Longrightarrow>
    ps_size st + 1 + len \<le> length (ps_path st) \<Longrightarrow>
    \<exists>st'. path_characters p off [j..<len] st = Some st' \<and> ps_size st' = ps_size st \<and>
      ps_path st' = take (ps_size st + 1 + j) (ps_path st) @ drop j v @ drop (ps_size st + 1 + len) (ps_path st)"
proof (induction "len - j" arbitrary: j st)
  case 0
  then have "j = len" "drop j v = []" using v(1) by simp_all
  then show ?case by simp
next
  case (Suc d)
  have j: "j < len" "[j..<len] = j # [Suc j..<len]" using Suc.hyps(2) by (simp_all add: upt_rec)
  have len: "length v = len" using v by simp
  let ?c = "v ! j" and ?k = "ps_size st + 1 + j"
  have head: "ps_head st \<noteq> None"
    by (rule tracked_head [OF Suc.prems(3,2) ok i, of "drop j v"]) (use match in simp)
  obtain es' h where t: "trimListBasedOnNewCharacter (ps_elements st) (ps_head st) ?c False = Some (es', h)"
    "same_elements (ps_elements st) es'" "tracked es' used h ((cs @ take j v) @ [?c])"
    using trim_next [OF same_elements_paths [OF Suc.prems(2) ok] Suc.prems(3)] by blast
  let ?st = "st\<lparr>ps_elements := es', ps_head := h, ps_path := (ps_path st)[?k := ?c]\<rparr>"
  have "tracked es' used h (cs @ take (Suc j) v)" using t(3) j(1) len by (simp add: take_Suc_conv_app_nth)
  moreover have "d = len - Suc j" using Suc.hyps(2) by simp
  ultimately obtain st' where st': "path_characters p off [Suc j..<len] ?st = Some st'" "ps_size st' = ps_size st"
    "ps_path st' = take (ps_size st + 1 + Suc j) ((ps_path st)[?k := ?c]) @ drop (Suc j) v @ drop (ps_size st + 1 + len) ((ps_path st)[?k := ?c])"
    using Suc.hyps(1) [of "Suc j" ?st] j(1) same_elements_trans [OF Suc.prems(2) t(2)] Suc.prems(4) by auto
  have "arr_get p (off + j) = Some ?c" using v j(1) by simp
  moreover have "?k < length (ps_path st)" using Suc.prems(4) j(1) by simp
  ultimately have "path_characters p off [j..<len] st = Some st'" using head t(1) st'(1) j(2) by auto
  moreover have "ps_path st' = take ?k (ps_path st) @ drop j v @ drop (ps_size st + 1 + len) (ps_path st)"
    using st'(3) Suc.prems(4) j(1) len by (simp add: take_Suc_conv_app_nth Cons_nth_drop_Suc [symmetric])
  ultimately show ?case using st'(2) by blast
qed

text \<open>The guard has no effect: the option is copied although it does not fit.\<close>

lemma long_option_copied:
  assumes ok: "paths_ok es uh used" and i: "i \<in> set used" and v: "v = take len (drop off p)" "off + len \<le> length p"
    and match: "progress (pattern (pe_value (es ! i))) (cs @ v) \<noteq> None"
    and st: "same_elements es (ps_elements st)" "tracked (ps_elements st) used (ps_head st) cs"
    and long: "ps_size st + (1 + len) > MAX_COAP_PATH_SIZE" "ps_size st + 1 + len \<le> length (ps_path st)"
  shows "\<exists>st'. uri_path_option p off len st = Some st' \<and>
    ps_path st' = take (ps_size st + 1) (ps_path st) @ v @ drop (ps_size st + 1 + len) (ps_path st)"
proof -
  from characters_copied [OF ok v i match, of 0 st] st long(2) obtain st' where
    "path_characters p off [0..<len] st = Some st'"
    "ps_path st' = take (ps_size st + 1) (ps_path st) @ v @ drop (ps_size st + 1 + len) (ps_path st)" by auto
  then show ?thesis using long(1) by (simp add: uri_path_option_def)
qed

subsection \<open>The overflow\<close>

lemma registered_length:
  assumes "server_ok used server" "i \<in> set used" "pattern (pe_value (pathListElements server ! i)) = SLASH # t @ SLASH # WILDCARD # onward"
  shows "length t \<le> 97"
proof -
  have "path_ok (pe_value (pathListElements server ! i))" using assms(1,2) by (auto simp: server_ok_def paths_ok_def)
  then have "length (pattern (pe_value (pathListElements server ! i))) \<le> 100" by (simp add: path_ok_def pattern_def)
  then show ?thesis by (simp add: assms(3))
qed

text \<open>The two options of the request: the first one is read as usual, the second one starts with the slash that the registered path expects next.\<close>

lemma overflow_options:
  assumes ok: "server_ok used server" "length rawPath = 101" "length tok \<le> 8"
    and reg: "i \<in> set used" "pattern (pe_value (pathListElements server ! i)) = SLASH # t @ SLASH # WILDCARD # onward" "plain t" "WILDCARD \<notin> set t"
    and req: "plain s" "98 < length t + length s" "length s < 200" "length t + length s + 3 \<le> 101 + length behind"
    and p_def: "p = coap_packet confirmable m idLower idUpper tok [t, SLASH # s] None payload"
  shows "\<exists>st. options_loop (Suc (length p)) p (4 + length tok) 0 Text_Plain_Charset_UTF8 (initial_path server (rawPath @ behind)) =
      Some (st, Next (length p - length (payload_bytes payload), Text_Plain_Charset_UTF8)) \<and>
    drop 101 (ps_path st) = drop (98 - length t) s @ drop (length t + length s - 98) behind"
proof -
  let ?es = "pathListElements server" and ?st0 = "initial_path server rawPath"
  have paths: "paths_ok ?es (usedPathListElementsHead server) used" using ok(1) by (simp add: server_ok_def)
  note t = registered_length [OF ok(1) reg(1,2)]
  note matches = progress_open [OF reg(3,4) req(1), of onward, folded reg(2)]
  define hdr where "hdr = [0x40 + (if confirmable then 0 else 0x10) + of_nat (length tok), of_nat (method_code m), idLower, idUpper] @ tok"
  have hdr: "p = hdr @ option_bytes 11 t @ option_bytes 0 (SLASH # s) @ payload_bytes payload" "length hdr = 4 + length tok"
    by (simp_all add: hdr_def p_def coap_packet_def format_option_def)
  then have d: "drop (4 + length tok) p = option_bytes 11 t @ option_bytes 0 (SLASH # s) @ payload_bytes payload" by simp
  obtain o1 where o1: "parse_option p (4 + length tok) 0 = Some (Next (11, o1, length t))" "4 + length tok < o1" "take (length t) (drop o1 p) = t"
    "drop (o1 + length t) p = option_bytes 0 (SLASH # s) @ payload_bytes payload"
    using parse_encoded [OF d, of 0] t by auto
  obtain o2 where o2: "parse_option p (o1 + length t) 11 = Some (Next (11, o2, Suc (length s)))" "o1 + length t < o2"
    "take (Suc (length s)) (drop o2 p) = SLASH # s" "drop (o2 + Suc (length s)) p = payload_bytes payload"
    "o2 + Suc (length s) = length p - length (payload_bytes payload)"
    using parse_encoded [OF o1(4), of 11] req(3) by auto
  have on: "off < length p \<and> p ! off \<noteq> 0xFF" if "drop off p = option_bytes k u @ rest" "k \<le> 12" for off k u rest
    using option_first [OF that(2), of u] drop_length(1,2) [of off p] that(1) by force
  note on1 = on [OF d, simplified] and on2 = on [OF o1(4), simplified]
  have le: "o1 + length t \<le> length p" "o2 + Suc (length s) \<le> length p"
    using parse_option_total(2) [OF conjunct1 [OF on1] o1(1)] parse_option_total(2) [OF conjunct1 [OF on2] o2(1)] by simp_all
  have head0: "ps_head ?st0 \<noteq> None" using paths reg(1) by (cases used) (auto simp: paths_ok_def initial_path_def)
  obtain st1 where st1: "uri_path_option p o1 (length t) ?st0 = Some st1"
    "reading ?es (usedPathListElementsHead server) used st1 (SLASH # t)" "ps_size st1 = 1 + length t"
    using uri_path_spec [OF paths initial_reading [OF ok(1,2)] head0 o1(3) [symmetric] le(1)] t by (auto simp: initial_path_def)
  have "candidates ?es used (SLASH # t) \<noteq> []" using reg(1) matches(2) by (auto simp: candidates_def filter_empty_conv)
  then have tr: "ps_head st1 \<noteq> None" "tracked (ps_elements st1) used (ps_head st1) (SLASH # t)" "same_elements ?es (ps_elements st1)"
    "length (ps_path st1) = 101" using st1(2) by (auto simp: reading_def split: if_splits)
  have "progress (pattern (pe_value (?es ! i))) ((SLASH # t) @ SLASH # s) \<noteq> None" using matches(1) by simp
  from long_option_copied [OF paths reg(1) o2(3) [symmetric] le(2) this, of "followed_by st1 behind"] tr st1(3) req(2,4) obtain st2 where
    st2: "uri_path_option p o2 (Suc (length s)) (followed_by st1 behind) = Some st2"
    "ps_path st2 = take (2 + length t) (ps_path st1 @ behind) @ (SLASH # s) @ drop (3 + length t + length s) (ps_path st1 @ behind)"
    by (auto simp: numeral_3_eq_3)
  have stop: "\<not> (o2 + Suc (length s) < length p \<and> p ! (o2 + Suc (length s)) \<noteq> 0xFF)"
    using o2(4) drop_length(2) [of "o2 + Suc (length s)" p "0xFF" payload] by (cases "payload = []") (auto simp: payload_bytes_def)
  obtain n where n: "length p = Suc (Suc n)" using le o1(2) by (cases "length p"; cases "length p - 1") auto
  have st0: "initial_path server (rawPath @ behind) = followed_by ?st0 behind" by (simp add: initial_path_def followed_by_def)
  have "options_loop (Suc (length p)) p (4 + length tok) 0 Text_Plain_Charset_UTF8 (initial_path server (rawPath @ behind)) =
      Some (st2, Next (o2 + Suc (length s), Text_Plain_Charset_UTF8))"
    unfolding st0 n using on1 on2 o1(1) o2(1) uri_path_behind [OF st1(1), of behind] st2(1) stop head0 tr(1) by simp
  moreover have "drop 101 (ps_path st2) = drop (98 - length t) s @ drop (length t + length s - 98) behind"
  proof -
    have "99 - length t = Suc (98 - length t)" "98 - length t - length s = 0" using t req(2) by linarith+
    then show ?thesis using st2(2) tr(4) t req(2) by simp
  qed
  ultimately show ?thesis using o2(5) by auto
qed

text \<open>C40. The guard against paths that are too long compares a pointer instead of clearing it and has no effect. A registered path \<open>/t/^...\<close>, such as the
  paths of the management task, and a request whose second Uri-Path option starts with a slash and has \<open>s\<close> behind it, \<open>t\<close> and \<open>s\<close>
  together more than 98 and \<open>s\<close> fewer than 200 characters, no slash or zero among them: the bytes of \<open>s\<close> that do not fit are written
  behind the end of the local array, over whatever memory \<open>behind\<close> follows it there; on the array alone the run faults.\<close>

theorem coap_path_overflow:
  assumes "server_ok used server" "length rawPath = 101" "length tok \<le> 8"
    and "i \<in> set used" "pattern (pe_value (pathListElements server ! i)) = SLASH # t @ SLASH # WILDCARD # onward" "plain t" "WILDCARD \<notin> set t"
    and "plain s" "98 < length t + length s" "length s < 200"
    and "p = coap_packet confirmable m idLower idUpper tok [t, SLASH # s] None payload"
  shows "(\<forall>behind. length t + length s - 98 \<le> length behind \<longrightarrow>
      (\<exists>st r. options_loop (Suc (length p)) p (4 + length tok) 0 Text_Plain_Charset_UTF8 (initial_path server (rawPath @ behind)) = Some (st, r) \<and>
        drop 101 (ps_path st) = drop (98 - length t) s @ drop (length t + length s - 98) behind)) \<and>
    handlePacketFromReceiveBuffer handler rawPath sourceIP sourcePort p server k = None"
proof -
  note written = overflow_options [OF assms(1-10) _ assms(11)] and short = registered_length [OF assms(1,4,5)]
  let ?run = "options_loop (Suc (length p)) p (4 + length tok) 0 Text_Plain_Charset_UTF8"
  have "?run (initial_path server rawPath) = None"
  proof (rule ccontr)
    assume "?run (initial_path server rawPath) \<noteq> None"
    then obtain st r where st: "?run (initial_path server rawPath) = Some (st, r)" by auto
    have "last (drop (98 - length t) s) = c" for c
    proof -
      define b where "b = replicate (length t + length s - 98) c"
      have b: "b \<noteq> []" "last b = c" "length t + length s + 3 \<le> 101 + length b" using assms(9) by (simp_all add: b_def)
      have "?run (initial_path server (rawPath @ b)) = Some (followed_by st b, r)"
        using options_behind [OF st, of b] by (simp add: initial_path_def followed_by_def)
      with written [OF b(3)] have "drop 101 (ps_path st @ b) = drop (98 - length t) s" by (auto simp: b_def)
      moreover have "drop (98 - length t) s \<noteq> []" using short assms(9) by simp
      ultimately have "last (drop (98 - length t) s) = last (ps_path st @ b)" by (metis drop_eq_Nil last_drop linorder_not_less)
      then show ?thesis using b by simp
    qed
    from this [of 0] this [of 1] show False by simp
  qed
  moreover have "parse_header p = Some (Next (encoded_request confirmable m idLower idUpper tok))"
    unfolding assms(11) by (rule header_encoded [OF assms(3)])
  moreover have "tokenLength (encoded_request confirmable m idLower idUpper tok) = length tok" by (simp add: encoded_request_def)
  ultimately have "handlePacketFromReceiveBuffer handler rawPath sourceIP sourcePort p server k = None"
    by (simp add: handlePacketFromReceiveBuffer_def initial_path_def del: options_loop.simps)
  moreover have "\<exists>st r. ?run (initial_path server (rawPath @ behind)) = Some (st, r) \<and>
      drop 101 (ps_path st) = drop (98 - length t) s @ drop (length t + length s - 98) behind"
    if "length t + length s - 98 \<le> length behind" for behind
  proof -
    have "length t + length s + 3 \<le> 101 + length behind" using that by linarith
    from written [OF this] show ?thesis by blast
  qed
  ultimately show ?thesis by blast
qed

text \<open>The registered path \<open>/a/^\<close> and 100 letters: three bytes behind the array are overwritten.\<close>

theorem coap_path_overflow_witness:
  "\<exists>st r. options_loop (Suc (length (coap_packet True GET 3 4 [] [[0x61], SLASH # replicate 100 0x62] None [])))
      (coap_packet True GET 3 4 [] [[0x61], SLASH # replicate 100 0x62] None []) (4 + length ([] :: u8 list)) 0 Text_Plain_Charset_UTF8
      (initial_path sample_server (replicate 101 0 @ [1, 2, 3, 4])) = Some (st, r) \<and>
    drop 101 (ps_path st) = [0x62, 0x62, 0x62, 4]"
proof -
  have reg: "pattern (pe_value (pathListElements sample_server ! 0)) = SLASH # [0x61] @ SLASH # WILDCARD # []"
    using sample_ok(3) by simp
  have "replicate 3 (0x62 :: u8) = [0x62, 0x62, 0x62]" by (simp add: numeral_3_eq_3)
  then show ?thesis
    using coap_path_overflow [OF sample_ok(1) _ _ _ reg, of "replicate 101 0" "[]" "replicate 100 0x62" _ True GET 3 4 "[]" sample_handler 1 2 0,
      OF _ _ _ _ _ _ _ _ refl] by (auto simp: plain_def dest!: spec [of _ "[1, 2, 3, 4]"])
qed

end
