(* ===== verification/Task_Manager.thy ===== *)
theory Task_Manager
  imports Syscalls Coap_Server
begin

text \<open>
  \<open>os_management_task/task_manager.cpp\<close>: the user tasks the management task owns, by their identifier. The tasks live
  in an array of buffers; a linked list of pairs of a buffer index and an identifier says which are in use.

  \<open>kernel\<close> is the state the constructors and destructors of user tasks work on. \<open>machine\<close> collects what is outside
  the model: uninitialised memory, the reads through the window of the page tables (only bits the page allocator
  never changes are used of them), the processor state a first stack is built from, and where the payload of the
  request lies.
\<close>

abbreviation (input) TASK_MANAGER_MAX_TASKS :: nat where "TASK_MANAGER_MAX_TASKS \<equiv> 100"
abbreviation (input) VIRTUAL_TASK_SPACE_BEGIN_ADDR :: u32 where "VIRTUAL_TASK_SPACE_BEGIN_ADDR \<equiv> 0x2000000"

record kernel =
  k_core :: CpuCore
  k_sockets :: SocketManager
  k_pages :: PagingStructures
  k_memory :: memory

record machine =
  mc_raw :: "u32 \<Rightarrow> PTE"
  mc_rawStack :: u32
  mc_vread :: "u32 \<Rightarrow> u32 option"
  mc_handlerReturn :: u32
  mc_cpu :: cpu_state
  mc_payload :: u32
  mc_buffers :: nat

datatype CreateUserTaskResult = Create_SUCCESS | Create_ID_IS_NULL | Create_ID_ALREADY_EXISTS | Create_TOO_MANY_TASKS

datatype RemoveUserTaskResult = Remove_SUCCESS | Remove_ID_IS_NULL | Remove_ID_DOES_NOT_EXIST

record TaskManager =
  userTaskBuffers :: "Task list"
  taskLinkedListElements :: "(nat \<times> u32) LinkedListElement list"
  activeTasksLinkedListHead :: ptr
  unusedTaskLinkedListElementsHead :: ptr

subsection \<open>Tasks and the kernel\<close>

definition store_words :: "memory \<Rightarrow> u32 \<Rightarrow> u32 list \<Rightarrow> memory" where
  "store_words m a ws = store_bytes m a (concat (map le32 ws))"

definition store_tables :: "memory \<Rightarrow> u32 \<Rightarrow> PageDirectory \<times> PageTable \<times> PageTable \<Rightarrow> memory" where
  "store_tables m area = (\<lambda>(pd, pt1, pt2).
     store_words (store_words (store_words (store_words m area (pageDirectoryEntries pd))
       (area + 0x1000) (helperTableEntries pd)) (area + 0x2000) pt1) (area + 0x3000) pt2)"

definition construct_task :: "machine \<Rightarrow> kernel \<Rightarrow> (Task \<times> kernel) option" where
  "construct_task mc k = do {
     (task, tables, pages) \<leftarrow> UserTask_new (mc_raw mc) (mc_rawStack mc) (mc_vread mc) (k_core k) (k_pages k)
       VIRTUAL_TASK_SPACE_BEGIN_ADDR;
     let m = (case tables of None \<Rightarrow> k_memory k
       | Some ts \<Rightarrow> store_tables (k_memory k) (pTask8MBRegion (task_kind task)) ts);
     Some (task, k\<lparr>k_pages := pages, k_memory := m\<rparr>) }"

definition destruct_task :: "kernel \<Rightarrow> Task \<Rightarrow> kernel option" where
  "destruct_task k task = do {
     (core, sm, pages) \<leftarrow> destroy_task (k_core k) (k_sockets k) (k_pages k) task;
     Some (k\<lparr>k_core := core, k_sockets := sm, k_pages := pages\<rparr>) }"

subsection \<open>The operations\<close>

definition TaskManager_new :: "Task list \<Rightarrow> TaskManager" where
  "TaskManager_new raw =
     \<lparr>userTaskBuffers = raw,
      taskLinkedListElements = map (\<lambda>i. \<lparr>ll_value = (i, 0),
        ll_next = (if i = TASK_MANAGER_MAX_TASKS - 1 then None else Some (i + 1))\<rparr>) [0..<TASK_MANAGER_MAX_TASKS],
      activeTasksLinkedListHead = None, unusedTaskLinkedListElementsHead = Some 0\<rparr>"

text \<open>The search for an identifier: the element and the one before it. Running out of fuel is a fault.\<close>

fun find_task :: "nat \<Rightarrow> (nat \<times> u32) LinkedListElement list \<Rightarrow> u32 \<Rightarrow> ptr \<Rightarrow> ptr \<Rightarrow> (nat \<times> ptr) option option" where
  "find_task 0 es ident current previous = None"
| "find_task (Suc fuel) es ident current previous =
     (case current of
        None \<Rightarrow> Some None
      | Some i \<Rightarrow> do {
          e \<leftarrow> arr_get es i;
          if snd (ll_value e) = ident then Some (Some (i, previous))
          else find_task fuel es ident (ll_next e) (Some i) })"

definition search_task :: "TaskManager \<Rightarrow> u32 \<Rightarrow> (nat \<times> ptr) option option" where
  "search_task tm ident = find_task (Suc (length (taskLinkedListElements tm))) (taskLinkedListElements tm) ident
     (activeTasksLinkedListHead tm) None"

definition createUserTask :: "machine \<Rightarrow> u32 \<Rightarrow> TaskManager \<Rightarrow> kernel \<Rightarrow> (CreateUserTaskResult \<times> TaskManager \<times> kernel) option" where
  "createUserTask mc ident tm k =
     (if ident = 0 then Some (Create_ID_IS_NULL, tm, k)
      else do {
        found \<leftarrow> search_task tm ident;
        if found \<noteq> None then Some (Create_ID_ALREADY_EXISTS, tm, k)
        else case unusedTaskLinkedListElementsHead tm of
          None \<Rightarrow> Some (Create_TOO_MANY_TASKS, tm, k)
        | Some i \<Rightarrow> do {
            e \<leftarrow> arr_get (taskLinkedListElements tm) i;
            es \<leftarrow> arr_set (taskLinkedListElements tm) i
              (e\<lparr>ll_value := (fst (ll_value e), ident), ll_next := activeTasksLinkedListHead tm\<rparr>);
            (task, k) \<leftarrow> construct_task mc k;
            bufs \<leftarrow> arr_set (userTaskBuffers tm) (fst (ll_value e)) task;
            Some (Create_SUCCESS, tm\<lparr>taskLinkedListElements := es, unusedTaskLinkedListElementsHead := ll_next e,
              activeTasksLinkedListHead := Some i, userTaskBuffers := bufs\<rparr>, k) } })"

text \<open>\<open>getUserTask\<close> returns the index of the buffer.\<close>

definition getUserTask :: "TaskManager \<Rightarrow> u32 \<Rightarrow> ptr option" where
  "getUserTask tm ident = do {
     found \<leftarrow> search_task tm ident;
     case found of
       None \<Rightarrow> Some None
     | Some (i, _) \<Rightarrow> do { e \<leftarrow> arr_get (taskLinkedListElements tm) i; Some (Some (fst (ll_value e))) } }"

definition removeUserTask :: "u32 \<Rightarrow> TaskManager \<Rightarrow> kernel \<Rightarrow> (RemoveUserTaskResult \<times> TaskManager \<times> kernel) option" where
  "removeUserTask ident tm k =
     (if ident = 0 then Some (Remove_ID_IS_NULL, tm, k)
      else do {
        found \<leftarrow> search_task tm ident;
        case found of
          None \<Rightarrow> Some (Remove_ID_DOES_NOT_EXIST, tm, k)
        | Some (i, previous) \<Rightarrow> do {
            let es = taskLinkedListElements tm;
            e \<leftarrow> arr_get es i;
            (es, head) \<leftarrow> (case previous of
                None \<Rightarrow> Some (es, ll_next e)
              | Some p \<Rightarrow> do {
                  pe \<leftarrow> arr_get es p;
                  es \<leftarrow> arr_set es p (pe\<lparr>ll_next := ll_next e\<rparr>);
                  Some (es, activeTasksLinkedListHead tm) });
            es \<leftarrow> arr_set es i (e\<lparr>ll_next := unusedTaskLinkedListElementsHead tm\<rparr>);
            task \<leftarrow> arr_get (userTaskBuffers tm) (fst (ll_value e));
            k \<leftarrow> destruct_task k task;
            Some (Remove_SUCCESS, tm\<lparr>taskLinkedListElements := es, activeTasksLinkedListHead := head,
              unusedTaskLinkedListElementsHead := Some i\<rparr>, k) } })"

text \<open>The destructor.\<close>

fun destruct_all :: "nat \<Rightarrow> TaskManager \<Rightarrow> ptr \<Rightarrow> kernel \<Rightarrow> kernel option" where
  "destruct_all 0 tm current k = None"
| "destruct_all (Suc fuel) tm current k =
     (case current of
        None \<Rightarrow> Some k
      | Some i \<Rightarrow> do {
          e \<leftarrow> arr_get (taskLinkedListElements tm) i;
          task \<leftarrow> arr_get (userTaskBuffers tm) (fst (ll_value e));
          k \<leftarrow> destruct_task k task;
          destruct_all fuel tm (ll_next e) k })"

definition TaskManager_delete :: "TaskManager \<Rightarrow> kernel \<Rightarrow> kernel option" where
  "TaskManager_delete tm k =
     destruct_all (Suc (length (taskLinkedListElements tm))) tm (activeTasksLinkedListHead tm) k"

end
