(* ===== verification/Task_Table.thy ===== *)
theory Task_Table
  imports Task_Manager Free_Lists
begin

text \<open>
  The task manager as a table from identifiers to tasks, latest first: every operation on the threaded array refines an
  operation on the table, with the same result, the same calls of constructors and destructors and the same faults.
\<close>

interpretation tasks: threaded_array ll_next "\<lambda>p e. e\<lparr>ll_next := p\<rparr>" "ll_value :: (nat \<times> u32) LinkedListElement \<Rightarrow> nat \<times> u32"
  by unfold_locales simp_all

definition ident_at :: "TaskManager \<Rightarrow> nat \<Rightarrow> u32" where
  "ident_at tm i = snd (ll_value (taskLinkedListElements tm ! i))"

definition manager_ok :: "nat list \<Rightarrow> nat list \<Rightarrow> TaskManager \<Rightarrow> bool" where
  "manager_ok used unused tm \<longleftrightarrow>
     tasks.threaded (taskLinkedListElements tm) (activeTasksLinkedListHead tm) (unusedTaskLinkedListElementsHead tm) used unused \<and>
     length (taskLinkedListElements tm) = TASK_MANAGER_MAX_TASKS \<and> length (userTaskBuffers tm) = TASK_MANAGER_MAX_TASKS \<and>
     (\<forall>i < TASK_MANAGER_MAX_TASKS. fst (ll_value (taskLinkedListElements tm ! i)) = i) \<and>
     distinct (map (ident_at tm) used) \<and> (\<forall>i \<in> set used. ident_at tm i \<noteq> 0)"

definition table :: "nat list \<Rightarrow> TaskManager \<Rightarrow> (u32 \<times> Task) list" where
  "table used tm = map (\<lambda>i. (ident_at tm i, userTaskBuffers tm ! i)) used"

subsection \<open>The abstract table\<close>

definition table_create :: "machine \<Rightarrow> u32 \<Rightarrow> (u32 \<times> Task) list \<Rightarrow> kernel \<Rightarrow> (CreateUserTaskResult \<times> (u32 \<times> Task) list \<times> kernel) option" where
  "table_create mc x tab k =
     (if x = 0 then Some (Create_ID_IS_NULL, tab, k)
      else if x \<in> fst ` set tab then Some (Create_ID_ALREADY_EXISTS, tab, k)
      else if TASK_MANAGER_MAX_TASKS \<le> length tab then Some (Create_TOO_MANY_TASKS, tab, k)
      else do { (task, k) \<leftarrow> construct_task mc k; Some (Create_SUCCESS, (x, task) # tab, k) })"

definition table_remove :: "u32 \<Rightarrow> (u32 \<times> Task) list \<Rightarrow> kernel \<Rightarrow> (RemoveUserTaskResult \<times> (u32 \<times> Task) list \<times> kernel) option" where
  "table_remove x tab k =
     (if x = 0 then Some (Remove_ID_IS_NULL, tab, k)
      else case map_of tab x of
        None \<Rightarrow> Some (Remove_ID_DOES_NOT_EXIST, tab, k)
      | Some task \<Rightarrow> do { k \<leftarrow> destruct_task k task; Some (Remove_SUCCESS, filter (\<lambda>e. fst e \<noteq> x) tab, k) })"

subsection \<open>Lookup\<close>

lemma find_task_search:
  "find_task fuel es x current previous = tasks.search fuel (\<lambda>e. snd (ll_value e) = x) es current previous"
  by (induction fuel arbitrary: current previous) (auto split: option.splits intro!: arg_cong2 [where f = Option.bind])

lemma manager_bounds:
  assumes "manager_ok used unused tm"
  shows "length used + length unused = TASK_MANAGER_MAX_TASKS" "j \<in> set used \<Longrightarrow> j < TASK_MANAGER_MAX_TASKS"
    "length (table used tm) = length used"
proof -
  have t: "tasks.threaded (taskLinkedListElements tm) (activeTasksLinkedListHead tm) (unusedTaskLinkedListElementsHead tm) used unused"
    "length (taskLinkedListElements tm) = TASK_MANAGER_MAX_TASKS" using assms by (simp_all add: manager_ok_def)
  show "length used + length unused = TASK_MANAGER_MAX_TASKS" "j \<in> set used \<Longrightarrow> j < TASK_MANAGER_MAX_TASKS"
    using tasks.threaded_bounds(1,2) [OF t(1)] t(2) by auto
qed (simp add: table_def)

lemma table_fst: "fst ` set (table used tm) = ident_at tm ` set used"
  by (auto simp: table_def image_iff)

lemma table_distinct: "manager_ok used unused tm \<Longrightarrow> distinct (map fst (table used tm))"
  by (simp add: manager_ok_def table_def comp_def)

lemma search_task_cases:
  assumes ok: "manager_ok used unused tm"
  obtains (miss) "search_task tm x = Some None" "x \<notin> fst ` set (table used tm)" "map_of (table used tm) x = None"
  | (hit) xs i ys where "search_task tm x = Some (Some (i, last_ptr None xs))" "used = xs @ i # ys" "ident_at tm i = x"
      "x \<in> fst ` set (table used tm)" "map_of (table used tm) x = Some (userTaskBuffers tm ! i)" "i < TASK_MANAGER_MAX_TASKS"
proof -
  have t: "tasks.threaded (taskLinkedListElements tm) (activeTasksLinkedListHead tm) (unusedTaskLinkedListElementsHead tm) used unused"
    using ok by (simp add: manager_ok_def)
  from tasks.threaded_search [OF t, of "\<lambda>e. snd (ll_value e) = x"] show ?thesis
  proof (elim disjE conjE exE)
    assume "tasks.search (Suc (length (taskLinkedListElements tm))) (\<lambda>e. snd (ll_value e) = x) (taskLinkedListElements tm)
        (activeTasksLinkedListHead tm) None = Some None" "\<forall>j \<in> set used. snd (ll_value (taskLinkedListElements tm ! j)) \<noteq> x"
    then show ?thesis
      by (intro miss) (auto simp: search_task_def find_task_search table_fst ident_at_def map_of_eq_None_iff)
  next
    fix xs i ys
    assume hit': "tasks.search (Suc (length (taskLinkedListElements tm))) (\<lambda>e. snd (ll_value e) = x) (taskLinkedListElements tm)
        (activeTasksLinkedListHead tm) None = Some (Some (i, last_ptr None xs))" and u: "used = xs @ i # ys"
      and i: "snd (ll_value (taskLinkedListElements tm ! i)) = x"
    have "(x, userTaskBuffers tm ! i) \<in> set (table used tm)" using u i by (auto simp: table_def ident_at_def)
    then have "map_of (table used tm) x = Some (userTaskBuffers tm ! i)" using table_distinct [OF ok] by simp
    then show ?thesis using hit' u i manager_bounds(2) [OF ok, of i]
      by (intro hit [of i xs ys]) (auto simp: search_task_def find_task_search table_fst ident_at_def)
  qed
qed

lemma get_task_refines:
  assumes ok: "manager_ok used unused tm"
  shows "\<exists>r. getUserTask tm x = Some r \<and> map_of (table used tm) x = map_option (\<lambda>i. userTaskBuffers tm ! i) r \<and>
    (\<forall>i. r = Some i \<longrightarrow> i \<in> set used \<and> ident_at tm i = x)"
  using ok
proof (cases rule: search_task_cases [of used unused tm x])
  case miss
  then show ?thesis by (simp add: getUserTask_def)
next
  case (hit xs i ys)
  then show ?thesis using ok by (simp add: getUserTask_def manager_ok_def)
qed

subsection \<open>Creation and removal\<close>

lemma create_task_refines:
  assumes ok: "manager_ok used unused tm"
  shows "case table_create mc x (table used tm) k of
      None \<Rightarrow> createUserTask mc x tm k = None
    | Some (r, tab, k') \<Rightarrow> \<exists>tm' used' unused'. createUserTask mc x tm k = Some (r, tm', k') \<and> manager_ok used' unused' tm' \<and>
        table used' tm' = tab"
proof (cases "x = 0")
  case True
  then show ?thesis using ok by (auto simp: table_create_def createUserTask_def)
next
  case x: False
  from ok show ?thesis
  proof (cases rule: search_task_cases [of used unused tm x])
    case (hit xs i ys)
    then show ?thesis using x ok by (auto simp: table_create_def createUserTask_def)
  next
    case miss
    show ?thesis
    proof (cases unused)
      case Nil
      then have "unusedTaskLinkedListElementsHead tm = None" using ok by (simp add: manager_ok_def tasks.threaded_def)
      then show ?thesis using x miss Nil ok manager_bounds [OF ok] by (auto simp: table_create_def createUserTask_def)
    next
      case (Cons i unused')
      let ?es = "taskLinkedListElements tm"
      define e where "e = (?es ! i)\<lparr>ll_value := (i, x), ll_next := activeTasksLinkedListHead tm\<rparr>"
      have t: "tasks.threaded ?es (activeTasksLinkedListHead tm) (unusedTaskLinkedListElementsHead tm) used (i # unused')"
        using ok Cons by (simp add: manager_ok_def)
      have i: "i < TASK_MANAGER_MAX_TASKS" "i \<notin> set used" "unusedTaskLinkedListElementsHead tm = Some i"
        "fst (ll_value (?es ! i)) = i" "length ?es = TASK_MANAGER_MAX_TASKS" "length (userTaskBuffers tm) = TASK_MANAGER_MAX_TASKS"
        using ok t by (auto simp: manager_ok_def tasks.threaded_def)
      have e: "ll_next e = activeTasksLinkedListHead tm" "ll_value e = (i, x)" by (simp_all add: e_def)
      note ins = tasks.threaded_insert [OF t e(1)]
      have few: "length used < TASK_MANAGER_MAX_TASKS" using manager_bounds(1) [OF ok] Cons by simp
      show ?thesis
      proof (cases "construct_task mc k")
        case None
        then show ?thesis using x miss few i by (auto simp: table_create_def createUserTask_def manager_bounds(3) [OF ok])
      next
        case (Some p)
        obtain task k' where p: "p = (task, k')" by (cases p) auto
        let ?tm = "tm\<lparr>taskLinkedListElements := ?es[i := e], unusedTaskLinkedListElementsHead := ll_next (?es ! i),
          activeTasksLinkedListHead := Some i, userTaskBuffers := (userTaskBuffers tm)[i := task]\<rparr>"
        have run: "createUserTask mc x tm k = Some (Create_SUCCESS, ?tm, k')"
          using x miss i Some p by (simp add: createUserTask_def e_def)
        have ident: "ident_at ?tm j = (if j = i then x else ident_at tm j)" for j
          using i e(2) by (simp add: ident_at_def)
        have other: "ident_at ?tm j = ident_at tm j \<and> (userTaskBuffers ?tm) ! j = userTaskBuffers tm ! j" if "j \<in> set used" for j
          using that i(2) by (auto simp: ident)
        have "distinct (map (ident_at ?tm) (i # used))"
          using ok miss(2) other i(2) by (auto simp: manager_ok_def table_fst ident inj_on_def distinct_map)
        moreover have "fst (ll_value (?es[i := e] ! j)) = j" if "j < TASK_MANAGER_MAX_TASKS" for j
          using that ok i e(2) by (cases "j = i") (auto simp: manager_ok_def)
        ultimately have "manager_ok (i # used) unused' ?tm"
          using ok ins(1) i x other by (auto simp: manager_ok_def ident)
        moreover have "table (i # used) ?tm = (x, task) # table used tm"
          using other i by (auto simp: table_def ident)
        ultimately show ?thesis using run x miss few Some p by (auto simp: table_create_def manager_bounds(3) [OF ok])
      qed
    qed
  qed
qed

lemma remove_task_refines:
  assumes ok: "manager_ok used unused tm"
  shows "case table_remove x (table used tm) k of
      None \<Rightarrow> removeUserTask x tm k = None
    | Some (r, tab, k') \<Rightarrow> \<exists>tm' used' unused'. removeUserTask x tm k = Some (r, tm', k') \<and> manager_ok used' unused' tm' \<and>
        table used' tm' = tab"
proof (cases "x = 0")
  case True
  then show ?thesis using ok by (auto simp: table_remove_def removeUserTask_def)
next
  case x: False
  from ok show ?thesis
  proof (cases rule: search_task_cases [of used unused tm x])
    case miss
    then show ?thesis using x ok by (auto simp: table_remove_def removeUserTask_def)
  next
    case (hit xs i ys)
    let ?es = "taskLinkedListElements tm" and ?fh = "unusedTaskLinkedListElementsHead tm"
    have t: "tasks.threaded ?es (activeTasksLinkedListHead tm) ?fh (xs @ i # ys) unused" using ok hit(2) by (simp add: manager_ok_def)
    obtain es1 head1 where u: "tasks.unlink ?es (activeTasksLinkedListHead tm) i (last_ptr None xs) = (es1, head1)" by fastforce
    note rem = tasks.threaded_remove [OF t u]
    have i: "fst (ll_value (?es ! i)) = i" "length ?es = TASK_MANAGER_MAX_TASKS" "length (userTaskBuffers tm) = TASK_MANAGER_MAX_TASKS"
      using ok hit(6) by (simp_all add: manager_ok_def)
    have last: "l < length ?es" if "last_ptr None xs = Some l" for l
      using tasks.last_inside [OF that] manager_bounds(2) [OF ok, of l] hit(2) i(2) by simp
    let ?tm = "tm\<lparr>taskLinkedListElements := tasks.relink es1 i ?fh, activeTasksLinkedListHead := head1,
      unusedTaskLinkedListElementsHead := Some i\<rparr>"
    have run: "removeUserTask x tm k = (do { k \<leftarrow> destruct_task k (userTaskBuffers tm ! i); Some (Remove_SUCCESS, ?tm, k) })"
      using x hit(1,6) u rem(3,4) i last
      by (auto simp: removeUserTask_def Let_def tasks.unlink_def tasks.relink_def split: option.splits)
    have ident: "ident_at ?tm j = ident_at tm j" for j using rem(2) by (simp add: ident_at_def)
    have "ident_at ?tm = ident_at tm" by (rule ext) (rule ident)
    then have "manager_ok (xs @ ys) (i # unused) ?tm"
      using ok rem hit(2) by (auto simp: manager_ok_def tasks.relink_facts)
    moreover have "table (xs @ ys) ?tm = filter (\<lambda>e. fst e \<noteq> x) (table used tm)"
    proof -
      have "distinct (map (ident_at tm) (xs @ i # ys))" using ok hit(2) by (simp add: manager_ok_def)
      then have "ident_at tm j \<noteq> x" if "j \<in> set xs \<union> set ys" for j
        using that hit(3) by (auto simp: image_iff)
      then have "filter (\<lambda>j. ident_at tm j \<noteq> x) xs = xs" "filter (\<lambda>j. ident_at tm j \<noteq> x) ys = ys" by (simp_all add: filter_id_conv)
      then show ?thesis using hit(2,3) by (simp add: table_def filter_map comp_def ident)
    qed
    ultimately show ?thesis using run x hit(5)
      by (cases "destruct_task k (userTaskBuffers tm ! i)") (auto simp: table_remove_def)
  qed
qed

subsection \<open>Sequences of operations\<close>

lemma new_manager:
  assumes "length raw = TASK_MANAGER_MAX_TASKS"
  shows "manager_ok [] [0..<TASK_MANAGER_MAX_TASKS] (TaskManager_new raw)"
proof -
  have "seg (\<lambda>i. ll_next (taskLinkedListElements (TaskManager_new raw) ! i)) (Some 0) [0..<TASK_MANAGER_MAX_TASKS] None"
    by (rule seg_upt) (auto simp: TaskManager_new_def simp del: upt_rec_numeral)
  then show ?thesis using assms
    by (auto simp: manager_ok_def tasks.threaded_def TaskManager_new_def simp del: upt_rec_numeral)
qed

datatype task_request = Create u32 | Remove u32

fun manager_run :: "machine \<Rightarrow> task_request list \<Rightarrow> TaskManager \<Rightarrow> kernel \<Rightarrow> (TaskManager \<times> kernel) option" where
  "manager_run mc [] tm k = Some (tm, k)"
| "manager_run mc (Create x # rs) tm k = do { (_, tm, k) \<leftarrow> createUserTask mc x tm k; manager_run mc rs tm k }"
| "manager_run mc (Remove x # rs) tm k = do { (_, tm, k) \<leftarrow> removeUserTask x tm k; manager_run mc rs tm k }"

fun table_run :: "machine \<Rightarrow> task_request list \<Rightarrow> (u32 \<times> Task) list \<Rightarrow> kernel \<Rightarrow> ((u32 \<times> Task) list \<times> kernel) option" where
  "table_run mc [] tab k = Some (tab, k)"
| "table_run mc (Create x # rs) tab k = do { (_, tab, k) \<leftarrow> table_create mc x tab k; table_run mc rs tab k }"
| "table_run mc (Remove x # rs) tab k = do { (_, tab, k) \<leftarrow> table_remove x tab k; table_run mc rs tab k }"

lemma manager_refines:
  "manager_ok used unused tm \<Longrightarrow> case table_run mc rs (table used tm) k of
      None \<Rightarrow> manager_run mc rs tm k = None
    | Some (tab, k') \<Rightarrow> \<exists>tm' used' unused'. manager_run mc rs tm k = Some (tm', k') \<and> manager_ok used' unused' tm' \<and> table used' tm' = tab"
proof (induction rs arbitrary: used unused tm k)
  case (Cons r rs)
  show ?case
  proof (cases r)
    case (Create x)
    show ?thesis
    proof (cases "table_create mc x (table used tm) k")
      case None
      with create_task_refines [OF Cons.prems, of mc x k] show ?thesis by (simp add: Create)
    next
      case (Some p)
      obtain res tab k' where p: "p = (res, tab, k')" by (cases p) auto
      with Some create_task_refines [OF Cons.prems, of mc x k] obtain tm' used' unused' where
        "createUserTask mc x tm k = Some (res, tm', k')" "manager_ok used' unused' tm'" "table used' tm' = tab" by auto
      with Cons.IH [of used' unused' tm' k'] Some p show ?thesis unfolding Create by (auto split: option.splits)
    qed
  next
    case (Remove x)
    show ?thesis
    proof (cases "table_remove x (table used tm) k")
      case None
      with remove_task_refines [OF Cons.prems, of x k] show ?thesis by (simp add: Remove)
    next
      case (Some p)
      obtain res tab k' where p: "p = (res, tab, k')" by (cases p) auto
      with Some remove_task_refines [OF Cons.prems, of x k] obtain tm' used' unused' where
        "removeUserTask x tm k = Some (res, tm', k')" "manager_ok used' unused' tm'" "table used' tm' = tab" by auto
      with Cons.IH [of used' unused' tm' k'] Some p show ?thesis unfolding Remove by (auto split: option.splits)
    qed
  qed
qed auto

text \<open>C27. The task manager refines a table from identifiers to tasks: for every sequence of creations and removals,
  starting from the constructor, the threaded array holds exactly the entries of the table, no identifier twice and none 0,
  the constructors and destructors of the tasks run in the same order on the same tasks, and the manager faults only where they do.\<close>

theorem task_manager_refines:
  assumes "length raw = TASK_MANAGER_MAX_TASKS"
  shows "case table_run mc rs [] k of
      None \<Rightarrow> manager_run mc rs (TaskManager_new raw) k = None
    | Some (tab, k') \<Rightarrow> \<exists>tm' used' unused'. manager_run mc rs (TaskManager_new raw) k = Some (tm', k') \<and>
        manager_ok used' unused' tm' \<and> table used' tm' = tab"
  using manager_refines [OF new_manager [OF assms]] by (simp add: table_def)

text \<open>A creation, two refused requests and a removal.\<close>

theorem task_manager_refines_witness:
  "\<forall>mc k task. case table_run mc [Create 5, Create 5, Remove 7, Remove 5] [] k of
      None \<Rightarrow> manager_run mc [Create 5, Create 5, Remove 7, Remove 5] (TaskManager_new (replicate 100 task)) k = None
    | Some (tab, k') \<Rightarrow> \<exists>tm' used' unused'.
        manager_run mc [Create 5, Create 5, Remove 7, Remove 5] (TaskManager_new (replicate 100 task)) k = Some (tm', k') \<and>
        manager_ok used' unused' tm' \<and> table used' tm' = tab"
  by (intro allI task_manager_refines) simp

end
