(* ===== verification/Api_Handlers.thy ===== *)
theory Api_Handlers
  imports Task_Table Coap_Server
begin

text \<open>
  \<open>os_management_task/api_handlers.cpp\<close>: what the management task does for \<open>PUT\<close> and \<open>DELETE /tasks/{id}\<close>, \<open>GET\<close> and
  \<open>PUT /tasks/{id}/state\<close> and \<open>PUT /tasks/{id}/data/{address}\<close>. A handler gets the path as the server stores it (the C
  string ends at the first zero) and returns the response with the bytes it put into the response buffer; a fault
  of the operations it calls is \<open>None\<close>.

  The payload of a request lies in the receive buffer, at \<open>mc_payload\<close>.
\<close>

record os_state =
  os_manager :: TaskManager
  os_kernel :: kernel

abbreviation (input) CREATED_RESPONSE_CODE :: u8 where "CREATED_RESPONSE_CODE \<equiv> 0x41"
abbreviation (input) DELETED_RESPONSE_CODE :: u8 where "DELETED_RESPONSE_CODE \<equiv> 0x42"
abbreviation (input) CHANGED_RESPONSE_CODE :: u8 where "CHANGED_RESPONSE_CODE \<equiv> 0x44"
abbreviation (input) CONTENT_RESPONSE_CODE :: u8 where "CONTENT_RESPONSE_CODE \<equiv> 0x45"
abbreviation (input) BAD_REQUEST_RESPONSE_CODE :: u8 where "BAD_REQUEST_RESPONSE_CODE \<equiv> 0x80"
abbreviation (input) FORBIDDEN_RESPONSE_CODE :: u8 where "FORBIDDEN_RESPONSE_CODE \<equiv> 0x83"
abbreviation (input) NOT_FOUND_RESPONSE_CODE :: u8 where "NOT_FOUND_RESPONSE_CODE \<equiv> 0x84"
abbreviation (input) CONFLICT_RESPONSE_CODE :: u8 where "CONFLICT_RESPONSE_CODE \<equiv> 0x89"
abbreviation (input) UNSUPPORTED_CONTENT_FORMAT_RESPONSE_CODE :: u8 where "UNSUPPORTED_CONTENT_FORMAT_RESPONSE_CODE \<equiv> 0x8F"
abbreviation (input) INTERNAL_SERVER_ERROR_RESPONSE_CODE :: u8 where "INTERNAL_SERVER_ERROR_RESPONSE_CODE \<equiv> 0xA0"

type_synonym reply = "CoAPResponse \<times> u8 list"

definition bytes_of :: "string \<Rightarrow> u8 list" where
  "bytes_of s = map of_char s"

text \<open>A response with a string, copied into the response buffer, or without one.\<close>

definition text_reply :: "u8 \<Rightarrow> string \<Rightarrow> reply" where
  "text_reply code s = (\<lparr>responseCode = code, responseSize = length s, contentFormat = Text_Plain_Charset_UTF8\<rparr>, bytes_of s)"

definition c_string :: "u8 list \<Rightarrow> u8 list" where
  "c_string path = takeWhile (\<lambda>c. c \<noteq> 0) path"

subsection \<open>Numbers in the path\<close>

text \<open>The loops over the digits, from index \<open>i\<close> on; \<open>sep\<close> says whether a slash ends the number. The result has the number
  and the index behind it.\<close>

datatype parsed_number = Bad_Number | Number_Too_Large | Number nat nat

function parse_number :: "bool \<Rightarrow> u8 list \<Rightarrow> nat \<Rightarrow> nat \<Rightarrow> parsed_number" where
  "parse_number sep path i acc =
     (if length path \<le> i then Number acc i
      else if sep \<and> path ! i = SLASH then (if i = 7 then Bad_Number else Number acc i)
      else if path ! i < 0x30 \<or> path ! i > 0x39 then Bad_Number
      else
        let acc = acc * 10 + unat (path ! i - 0x30) in
        if acc > 0xFFFFFFFF then Number_Too_Large else parse_number sep path (i + 1) acc)"
  by pat_completeness auto
termination by (relation "measure (\<lambda>(sep, path, i, acc). length path - i)") auto

declare parse_number.simps [simp del]

subsection \<open>The handlers\<close>

definition create_reply :: "CreateUserTaskResult \<Rightarrow> reply" where
  "create_reply result = (case result of
     Create_SUCCESS \<Rightarrow> text_reply CREATED_RESPONSE_CODE []
   | Create_ID_IS_NULL \<Rightarrow> text_reply BAD_REQUEST_RESPONSE_CODE ''Task ID cannot be 0''
   | Create_ID_ALREADY_EXISTS \<Rightarrow> text_reply CONFLICT_RESPONSE_CODE ''Task with the given ID already exists''
   | Create_TOO_MANY_TASKS \<Rightarrow> text_reply FORBIDDEN_RESPONSE_CODE
       ''Too many tasks have already been created, remove some tasks before creating new ones'')"

definition remove_reply :: "RemoveUserTaskResult \<Rightarrow> reply" where
  "remove_reply result = (case result of
     Remove_SUCCESS \<Rightarrow> text_reply DELETED_RESPONSE_CODE []
   | Remove_ID_IS_NULL \<Rightarrow> text_reply BAD_REQUEST_RESPONSE_CODE ''Task ID cannot be 0''
   | Remove_ID_DOES_NOT_EXIST \<Rightarrow> text_reply NOT_FOUND_RESPONSE_CODE ''Task with the given ID does not exist'')"

definition task_handlePUT :: "machine \<Rightarrow> u8 list \<Rightarrow> os_state \<Rightarrow> (reply \<times> os_state) option" where
  "task_handlePUT mc path os = (case parse_number False (c_string path) 7 0 of
     Bad_Number \<Rightarrow> Some (text_reply BAD_REQUEST_RESPONSE_CODE [], os)
   | Number_Too_Large \<Rightarrow> Some (text_reply BAD_REQUEST_RESPONSE_CODE ''Task ID cannot be greater than 0xFFFFFFFF'', os)
   | Number taskId _ \<Rightarrow> do {
       (result, tm, k) \<leftarrow> createUserTask mc (of_nat taskId) (os_manager os) (os_kernel os);
       Some (create_reply result, os\<lparr>os_manager := tm, os_kernel := k\<rparr>) })"

definition task_handleDELETE :: "u8 list \<Rightarrow> os_state \<Rightarrow> (reply \<times> os_state) option" where
  "task_handleDELETE path os = (case parse_number False (c_string path) 7 0 of
     Bad_Number \<Rightarrow> Some (text_reply BAD_REQUEST_RESPONSE_CODE [], os)
   | Number_Too_Large \<Rightarrow> Some (text_reply BAD_REQUEST_RESPONSE_CODE ''Task ID cannot be greater than 0xFFFFFFFF'', os)
   | Number taskId _ \<Rightarrow> do {
       (result, tm, k) \<leftarrow> removeUserTask (of_nat taskId) (os_manager os) (os_kernel os);
       Some (remove_reply result, os\<lparr>os_manager := tm, os_kernel := k\<rparr>) })"

definition state_handleGET :: "u8 list \<Rightarrow> os_state \<Rightarrow> (reply \<times> os_state) option" where
  "state_handleGET path os = (case parse_number True (c_string path) 7 0 of
     Bad_Number \<Rightarrow> Some (text_reply BAD_REQUEST_RESPONSE_CODE [], os)
   | Number_Too_Large \<Rightarrow> Some (text_reply BAD_REQUEST_RESPONSE_CODE ''Task ID cannot be greater than 0xFFFFFFFF'', os)
   | Number taskId _ \<Rightarrow> do {
       pUserTask \<leftarrow> getUserTask (os_manager os) (of_nat taskId);
       case pUserTask of
         None \<Rightarrow> Some (text_reply NOT_FOUND_RESPONSE_CODE [], os)
       | Some i \<Rightarrow> do {
           task \<leftarrow> arr_get (userTaskBuffers (os_manager os)) i;
           Some (if task_isRunning task then text_reply CONTENT_RESPONSE_CODE ''Running''
                 else text_reply CONTENT_RESPONSE_CODE ''Not Running'', os) } })"

text \<open>\<open>setToRunningState\<close> of a task of the manager: the task switch finds it at \<open>mc_buffers + i\<close>; asking for the
  physical address of the directory may fault.\<close>

definition start_user_task :: "machine \<Rightarrow> nat \<Rightarrow> Task \<Rightarrow> kernel \<Rightarrow> (SetToRunningStateResponse \<times> Task \<times> kernel) option" where
  "start_user_task mc i task k = do {
     let addr = physical_addr (mc_raw mc) (mc_vread mc) (pTask8MBRegion (task_kind task));
     (response, core, task) \<leftarrow> UserTask_setToRunningState (\<lambda>_. case addr of None \<Rightarrow> 0 | Some a \<Rightarrow> a) (k_core k) (mc_buffers mc + i) task;
     if response = SUCCESS \<and> addr = None then None else Some (response, task, k\<lparr>k_core := core\<rparr>) }"

definition state_handlePUT :: "machine \<Rightarrow> u8 list \<Rightarrow> ContentFormat \<Rightarrow> u8 list \<Rightarrow> os_state \<Rightarrow> (reply \<times> os_state) option" where
  "state_handlePUT mc path fmt payload os =
     (if fmt \<noteq> Text_Plain_Charset_UTF8 then Some (text_reply UNSUPPORTED_CONTENT_FORMAT_RESPONSE_CODE [], os)
      else if payload \<noteq> bytes_of ''Running'' then Some (text_reply BAD_REQUEST_RESPONSE_CODE [], os)
      else case parse_number True (c_string path) 7 0 of
        Bad_Number \<Rightarrow> Some (text_reply BAD_REQUEST_RESPONSE_CODE [], os)
      | Number_Too_Large \<Rightarrow> Some (text_reply BAD_REQUEST_RESPONSE_CODE ''Task ID cannot be greater than 0xFFFFFFFF'', os)
      | Number taskId _ \<Rightarrow> do {
          pUserTask \<leftarrow> getUserTask (os_manager os) (of_nat taskId);
          case pUserTask of
            None \<Rightarrow> Some (text_reply NOT_FOUND_RESPONSE_CODE [], os)
          | Some i \<Rightarrow> do {
              task \<leftarrow> arr_get (userTaskBuffers (os_manager os)) i;
              if task_isRunning task then Some (text_reply CHANGED_RESPONSE_CODE [], os)
              else do {
                let k = os_kernel os;
                (m, task) \<leftarrow> setTaskArguments (mc_handlerReturn mc) (mc_cpu mc) (k_memory k) task \<lparr>ta_args = [], numArgs = 0\<rparr>;
                (response, task, k) \<leftarrow> start_user_task mc i task (k\<lparr>k_memory := m\<rparr>);
                bufs \<leftarrow> arr_set (userTaskBuffers (os_manager os)) i task;
                Some (case response of
                    TASK_ALREADY_RUNNING \<Rightarrow> text_reply INTERNAL_SERVER_ERROR_RESPONSE_CODE []
                  | TASK_NOT_PROPERLY_INITIALIZED \<Rightarrow> text_reply INTERNAL_SERVER_ERROR_RESPONSE_CODE []
                  | TOO_MANY_TASKS \<Rightarrow> text_reply FORBIDDEN_RESPONSE_CODE ''Too many tasks are already running''
                  | SUCCESS \<Rightarrow> text_reply CHANGED_RESPONSE_CODE [],
                  os\<lparr>os_manager := (os_manager os)\<lparr>userTaskBuffers := bufs\<rparr>, os_kernel := k\<rparr>) } } })"

definition data_handlePUT :: "machine \<Rightarrow> u8 list \<Rightarrow> ContentFormat \<Rightarrow> u8 list \<Rightarrow> os_state \<Rightarrow> (reply \<times> os_state) option" where
  "data_handlePUT mc path fmt payload os =
     (if fmt \<noteq> Application_Octet_Stream then Some (text_reply UNSUPPORTED_CONTENT_FORMAT_RESPONSE_CODE [], os)
      else case parse_number True (c_string path) 7 0 of
        Bad_Number \<Rightarrow> Some (text_reply BAD_REQUEST_RESPONSE_CODE [], os)
      | Number_Too_Large \<Rightarrow> Some (text_reply BAD_REQUEST_RESPONSE_CODE ''Task ID cannot be greater than 0xFFFFFFFF'', os)
      | Number taskId i \<Rightarrow>
          if length (c_string path) \<le> i + 6 then Some (text_reply BAD_REQUEST_RESPONSE_CODE [], os)
          else case parse_number False (c_string path) (i + 6) 0 of
            Bad_Number \<Rightarrow> Some (text_reply BAD_REQUEST_RESPONSE_CODE [], os)
          | Number_Too_Large \<Rightarrow> Some (text_reply BAD_REQUEST_RESPONSE_CODE ''Address cannot be greater than 0xFFFFFFFF'', os)
          | Number address _ \<Rightarrow> do {
              pUserTask \<leftarrow> getUserTask (os_manager os) (of_nat taskId);
              case pUserTask of
                None \<Rightarrow> Some (text_reply NOT_FOUND_RESPONSE_CODE [], os)
              | Some i \<Rightarrow> do {
                  task \<leftarrow> arr_get (userTaskBuffers (os_manager os)) i;
                  if \<not> addrSpaceIsUserAccessible (taskSpaceBeginVirtualAddr (task_kind task)) (of_nat address) (of_nat (length payload))
                  then Some (text_reply FORBIDDEN_RESPONSE_CODE [], os)
                  else if payload = [] then Some (text_reply CHANGED_RESPONSE_CODE [], os)
                  else
                    let k = os_kernel os;
                        (success, m) = setData (store_bytes (k_memory k) (mc_payload mc) payload) task (of_nat address)
                          (mc_payload mc) (of_nat (length payload));
                        os = os\<lparr>os_kernel := k\<lparr>k_memory := m\<rparr>\<rparr>
                    in if \<not> success
                       then Some (text_reply INTERNAL_SERVER_ERROR_RESPONSE_CODE ''Failed to write data to the task's address space'', os)
                       else if task_isRunning task
                       then Some (text_reply CHANGED_RESPONSE_CODE ''Warning: data changed while task was running'', os)
                       else Some (text_reply CHANGED_RESPONSE_CODE [], os) } })"

subsection \<open>The management task\<close>

text \<open>The virtual calls of the three handler objects, numbered in the order they are registered; a method that is not
  overridden answers \<open>4.05\<close>.\<close>

definition api_call :: "machine \<Rightarrow> nat \<Rightarrow> coap_method \<Rightarrow> u8 list \<Rightarrow> ContentFormat \<Rightarrow> u8 list \<Rightarrow> os_state \<Rightarrow> (reply \<times> os_state) option" where
  "api_call mc h m path fmt payload os =
     (if h = 0 then (case m of PUT \<Rightarrow> task_handlePUT mc path os | DELETE \<Rightarrow> task_handleDELETE path os
        | _ \<Rightarrow> Some ((not_allowed_response, []), os))
      else if h = 1 then (case m of GET \<Rightarrow> state_handleGET path os | PUT \<Rightarrow> state_handlePUT mc path fmt payload os
        | _ \<Rightarrow> Some ((not_allowed_response, []), os))
      else (case m of PUT \<Rightarrow> data_handlePUT mc path fmt payload os | _ \<Rightarrow> Some ((not_allowed_response, []), os)))"

text \<open>As the handlers of the server; once a call faulted, \<open>None\<close> remains.\<close>

definition api_handler :: "machine \<Rightarrow> os_state option coap_handler" where
  "api_handler mc h m path fmt payload k = (case Option.bind k (api_call mc h m path fmt payload) of
     None \<Rightarrow> (not_allowed_response, [], None)
   | Some ((r, body), os) \<Rightarrow> (r, body, Some os))"

text \<open>The set-up of \<open>osManagementTask\<close>; \<open>sid\<close> is the socket the server opens. The memory it allocates is taken to be there; the
  task returns otherwise.\<close>

definition osManagementTask_setup :: "int \<Rightarrow> CoAPServer \<Rightarrow> Task list \<Rightarrow> (CoAPServer \<times> TaskManager) option" where
  "osManagementTask_setup sid rawServer rawTasks = do {
     let (server, calls) = CoAPServer_new 5683 sid rawServer;
     let manager = TaskManager_new rawTasks;
     server \<leftarrow> setPathHandler (bytes_of ''/tasks/^'') 0 server;
     server \<leftarrow> setPathHandler (bytes_of ''/tasks/^/state'') 1 server;
     server \<leftarrow> setPathHandler (bytes_of ''/tasks/^/data/^'') 2 server;
     Some (server, manager) }"

end
