(* ===== verification/Api_Properties.thy ===== *)
theory Api_Properties
  imports Api_Handlers
begin

text \<open>
  The handlers of the management task as operations on the table of tasks: the numbers in the path are read as decimal
  numbers, and every handler refines its operation on the table with the response the protocol gives it.
\<close>

subsection \<open>Decimal numbers\<close>

definition digit :: "nat \<Rightarrow> u8" where
  "digit d = of_nat (0x30 + d)"

definition number_of :: "nat \<Rightarrow> nat list \<Rightarrow> nat" where
  "number_of acc ds = foldl (\<lambda>n d. n * 10 + d) acc ds"

fun digits :: "nat \<Rightarrow> nat list" where
  "digits n = (if n < 10 then [n] else digits (n div 10) @ [n mod 10])"

declare digits.simps [simp del]

definition decimal :: "nat \<Rightarrow> u8 list" where
  "decimal n = map digit (digits n)"

lemma digits_number: "number_of 0 (digits n) = n" "\<forall>d \<in> set (digits n). d < 10" "digits n \<noteq> []"
proof -
  have "number_of 0 (digits n) = n \<and> (\<forall>d \<in> set (digits n). d < 10) \<and> digits n \<noteq> []"
  proof (induction n rule: digits.induct)
    case (1 n)
    then show ?case by (cases "n < 10") (auto simp: digits.simps [of n] number_of_def)
  qed
  then show "number_of 0 (digits n) = n" "\<forall>d \<in> set (digits n). d < 10" "digits n \<noteq> []" by blast+
qed

lemma digit_facts:
  assumes "d < 10"
  shows "\<not> digit d < 0x30" "\<not> digit d > 0x39" "unat (digit d - 0x30) = d" "digit d \<noteq> SLASH" "digit d \<noteq> 0"
proof -
  have "d \<in> {0, 1, 2, 3, 4, 5, 6, 7, 8, 9}" using assms by auto
  then show "\<not> digit d < 0x30" "\<not> digit d > 0x39" "unat (digit d - 0x30) = d" "digit d \<noteq> SLASH" "digit d \<noteq> 0"
    unfolding digit_def by (elim insertE emptyE; simp)+
qed

lemma number_of_grows: "acc \<le> number_of acc ds"
proof (induction ds arbitrary: acc)
  case (Cons d ds)
  from Cons [of "acc * 10 + d"] show ?case by (simp add: number_of_def)
qed (simp add: number_of_def)

lemma parse_digits:
  assumes "\<forall>d \<in> set ds. d < 10"
  shows "parse_number sep (pre @ map digit ds @ post) (length pre) acc =
    (if ds \<noteq> [] \<and> number_of acc ds > 0xFFFFFFFF then Number_Too_Large
     else parse_number sep (pre @ map digit ds @ post) (length pre + length ds) (number_of acc ds))"
  using assms
proof (induction ds arbitrary: pre acc)
  case Nil
  then show ?case by (simp add: number_of_def)
next
  case (Cons d ds)
  note f = digit_facts [of d]
  have "parse_number sep (pre @ map digit (d # ds) @ post) (length pre) acc =
      (if acc * 10 + d > 0xFFFFFFFF then Number_Too_Large
       else parse_number sep ((pre @ [digit d]) @ map digit ds @ post) (length (pre @ [digit d])) (acc * 10 + d))"
    using f Cons.prems by (subst parse_number.simps) (simp add: nth_append Let_def)
  also have "\<dots> = (if number_of acc (d # ds) > 0xFFFFFFFF then Number_Too_Large
      else parse_number sep (pre @ map digit (d # ds) @ post) (length pre + length (d # ds)) (number_of acc (d # ds)))"
    using Cons.IH [of "pre @ [digit d]" "acc * 10 + d"] Cons.prems number_of_grows [of "acc * 10 + d" ds]
    by (auto simp: number_of_def)
  finally show ?case by simp
qed

lemma parse_decimal:
  assumes "post = [] \<or> sep \<and> hd post = SLASH" "7 \<le> length pre"
  shows "parse_number sep (pre @ decimal n @ post) (length pre) 0 =
    (if n > 0xFFFFFFFF then Number_Too_Large else Number n (length pre + length (decimal n)))"
proof -
  let ?p = "pre @ decimal n @ post" and ?i = "length pre + length (decimal n)"
  have "decimal n \<noteq> []" using digits_number(3) [of n] by (simp add: decimal_def)
  then have i: "?i \<noteq> 7" using assms(2) by (cases "decimal n") auto
  have "parse_number sep ?p ?i n = Number n ?i"
  proof (cases post)
    case Nil
    then show ?thesis by (subst parse_number.simps) simp
  next
    case (Cons c cs)
    then have "?p ! ?i = c" by (simp add: nth_append)
    then show ?thesis using assms(1) Cons i by (subst parse_number.simps) simp
  qed
  then show ?thesis using parse_digits [OF digits_number(2), of sep pre n post 0] digits_number(1,3) [of n]
    by (simp add: decimal_def)
qed

lemma c_string_id: "0 \<notin> set path \<Longrightarrow> c_string path = path"
  by (auto simp: c_string_def takeWhile_eq_all_conv)

lemma decimal_plain: "c \<in> set (decimal n) \<Longrightarrow> c \<noteq> 0 \<and> c \<noteq> SLASH"
  using digits_number(2) [of n] digit_facts(4,5) by (auto simp: decimal_def)

subsection \<open>The handlers on the table\<close>

definition task_path :: "nat \<Rightarrow> string \<Rightarrow> u8 list" where
  "task_path n rest = bytes_of ''/tasks/'' @ decimal n @ bytes_of rest"

lemma task_path_number:
  assumes "n \<le> 0xFFFFFFFF" "rest = [] \<or> sep \<and> hd (bytes_of rest) = SLASH" "0 \<notin> set (bytes_of rest)"
  shows "parse_number sep (c_string (task_path n rest)) 7 0 = Number n (7 + length (decimal n))"
proof -
  have "0 \<notin> set (task_path n rest)" using assms(3) decimal_plain [of 0 n] by (auto simp: task_path_def bytes_of_def)
  then have "c_string (task_path n rest) = bytes_of ''/tasks/'' @ decimal n @ bytes_of rest"
    by (simp add: c_string_id task_path_def)
  moreover have seven: "length (bytes_of ''/tasks/'') = 7" by (simp add: bytes_of_def)
  moreover have "bytes_of rest = [] \<or> sep \<and> hd (bytes_of rest) = SLASH" using assms(2) by (auto simp: bytes_of_def)
  ultimately show ?thesis
    using parse_decimal [of "bytes_of rest" sep "bytes_of ''/tasks/''" n, unfolded seven] assms(1) by simp
qed

definition os_table :: "nat list \<Rightarrow> os_state \<Rightarrow> (u32 \<times> Task) list" where
  "os_table used os = table used (os_manager os)"

definition os_ok :: "nat list \<Rightarrow> nat list \<Rightarrow> os_state \<Rightarrow> bool" where
  "os_ok used unused os \<longleftrightarrow> manager_ok used unused (os_manager os)"

definition state_reply :: "Task option \<Rightarrow> reply" where
  "state_reply task = (case task of
     None \<Rightarrow> text_reply NOT_FOUND_RESPONSE_CODE []
   | Some t \<Rightarrow> text_reply CONTENT_RESPONSE_CODE (if task_isRunning t then ''Running'' else ''Not Running''))"

lemma put_refines:
  assumes ok: "os_ok used unused os" and n: "n \<le> 0xFFFFFFFF"
  shows "case table_create mc (of_nat n) (os_table used os) (os_kernel os) of
      None \<Rightarrow> task_handlePUT mc (task_path n []) os = None
    | Some (r, tab, k') \<Rightarrow> \<exists>os' used' unused'. task_handlePUT mc (task_path n []) os = Some (create_reply r, os') \<and>
        os_ok used' unused' os' \<and> os_table used' os' = tab \<and> os_kernel os' = k'"
proof -
  have num: "parse_number False (c_string (task_path n [])) 7 0 = Number n (7 + length (decimal n))"
    by (rule task_path_number [OF n]) (simp_all add: bytes_of_def)
  from create_task_refines [of used unused "os_manager os" mc "of_nat n" "os_kernel os"] ok show ?thesis
    by (fastforce simp: task_handlePUT_def num os_ok_def os_table_def split: option.splits)
qed

lemma delete_refines:
  assumes ok: "os_ok used unused os" and n: "n \<le> 0xFFFFFFFF"
  shows "case table_remove (of_nat n) (os_table used os) (os_kernel os) of
      None \<Rightarrow> task_handleDELETE (task_path n []) os = None
    | Some (r, tab, k') \<Rightarrow> \<exists>os' used' unused'. task_handleDELETE (task_path n []) os = Some (remove_reply r, os') \<and>
        os_ok used' unused' os' \<and> os_table used' os' = tab \<and> os_kernel os' = k'"
proof -
  have num: "parse_number False (c_string (task_path n [])) 7 0 = Number n (7 + length (decimal n))"
    by (rule task_path_number [OF n]) (simp_all add: bytes_of_def)
  from remove_task_refines [of used unused "os_manager os" "of_nat n" "os_kernel os"] ok show ?thesis
    by (fastforce simp: task_handleDELETE_def num os_ok_def os_table_def split: option.splits)
qed

lemma state_number:
  "n \<le> 0xFFFFFFFF \<Longrightarrow> parse_number True (c_string (task_path n ''/state'')) 7 0 = Number n (7 + length (decimal n))"
  by (rule task_path_number) (simp_all add: bytes_of_def)

lemma get_state_refines:
  assumes ok: "os_ok used unused os" and n: "n \<le> 0xFFFFFFFF"
  shows "state_handleGET (task_path n ''/state'') os = Some (state_reply (map_of (os_table used os) (of_nat n)), os)"
proof -
  from get_task_refines [of used unused "os_manager os" "of_nat n"] ok obtain r where
    r: "getUserTask (os_manager os) (of_nat n) = Some r" "map_of (os_table used os) (of_nat n) = map_option (\<lambda>i. userTaskBuffers (os_manager os) ! i) r"
    "\<forall>i. r = Some i \<longrightarrow> i \<in> set used" by (auto simp: os_ok_def os_table_def)
  have "i < length (userTaskBuffers (os_manager os))" if "r = Some i" for i
    using r(3) that manager_bounds(2) [of used unused "os_manager os" i] ok by (simp add: os_ok_def manager_ok_def)
  then show ?thesis using r(1,2) by (cases r) (simp_all add: state_handleGET_def state_number [OF n] state_reply_def)
qed

subsection \<open>Starting a task\<close>

lemma map_of_table:
  assumes "manager_ok used unused tm"
  shows "i \<in> set used \<Longrightarrow> map_of (table used tm) (ident_at tm i) = Some (userTaskBuffers tm ! i)"
    "x \<notin> ident_at tm ` set used \<Longrightarrow> map_of (table used tm) x = None"
proof -
  show "map_of (table used tm) (ident_at tm i) = Some (userTaskBuffers tm ! i)" if "i \<in> set used"
    by (rule map_of_is_SomeI) (use assms that in \<open>auto simp: table_def comp_def manager_ok_def\<close>)
  show "map_of (table used tm) x = None" if "x \<notin> ident_at tm ` set used"
    using that by (simp add: map_of_eq_None_iff table_fst)
qed

lemma table_put:
  assumes ok: "manager_ok used unused tm" and j: "j \<in> set used"
  shows "manager_ok used unused (tm\<lparr>userTaskBuffers := (userTaskBuffers tm)[j := t]\<rparr>)"
    "map_of (table used (tm\<lparr>userTaskBuffers := (userTaskBuffers tm)[j := t]\<rparr>)) x =
      (if x = ident_at tm j then Some t else map_of (table used tm) x)"
proof -
  let ?tm = "tm\<lparr>userTaskBuffers := (userTaskBuffers tm)[j := t]\<rparr>"
  have ident: "ident_at ?tm = ident_at tm" by (rule ext) (simp add: ident_at_def)
  show ok': "manager_ok used unused ?tm" using ok by (simp add: manager_ok_def ident)
  have len: "j < length (userTaskBuffers tm)" using manager_bounds(2) [OF ok j] ok by (simp add: manager_ok_def)
  show "map_of (table used ?tm) x = (if x = ident_at tm j then Some t else map_of (table used tm) x)"
  proof (cases "x \<in> ident_at tm ` set used")
    case True
    then obtain i where i: "i \<in> set used" "x = ident_at tm i" by blast
    have "ident_at tm i = ident_at tm j \<longleftrightarrow> i = j" using ok i j by (auto simp: manager_ok_def distinct_map inj_on_def)
    then show ?thesis using map_of_table(1) [OF ok i(1)] map_of_table(1) [OF ok' i(1)] i(2) len by (auto simp: ident)
  next
    case False
    then show ?thesis using map_of_table(2) [OF ok] map_of_table(2) [OF ok'] j by (auto simp: ident)
  qed
qed

lemma table_buffer:
  assumes ok: "manager_ok used unused tm" and t: "map_of (table used tm) x = Some task"
  obtains j where "j \<in> set used" "ident_at tm j = x" "userTaskBuffers tm ! j = task" "getUserTask tm x = Some (Some j)"
    "j < length (userTaskBuffers tm)"
proof -
  obtain r where r: "getUserTask tm x = Some r" "map_of (table used tm) x = map_option (\<lambda>i. userTaskBuffers tm ! i) r"
    "\<forall>i. r = Some i \<longrightarrow> i \<in> set used \<and> ident_at tm i = x" using get_task_refines [OF ok] by blast
  with t obtain j where j: "r = Some j" "userTaskBuffers tm ! j = task" by auto
  have "j < length (userTaskBuffers tm)" using manager_bounds(2) [OF ok, of j] r(3) j ok by (simp add: manager_ok_def)
  with that r j show ?thesis by blast
qed

lemma start_user_task_spec:
  assumes "tasks_are (k_core k) act fr" "\<not> task_isRunning task" "task_kind task = UserTask start area" "area \<noteq> 0"
    "physical_addr (mc_raw mc) (mc_vread mc) area = Some a"
  shows "fr = [] \<Longrightarrow> start_user_task mc i task k = Some (TOO_MANY_TASKS, task, k)"
    and "fr = d # fr' \<Longrightarrow> \<exists>core'. start_user_task mc i task k =
      Some (SUCCESS, task\<lparr>taskID := int d, task_isRunning := True\<rparr>, k\<lparr>k_core := core'\<rparr>) \<and> tasks_are core' (d # act) fr' \<and>
      desc core' d = \<lparr>td_pTask = Some (mc_buffers mc + i), td_taskEsp = updatedKernelStack task - area + start,
        td_kernelEspStackBegin = start + USER_TASK_KERNEL_STACK_OFFSET, td_pageDirectoryPhysicalAddr = a\<rparr>"
proof -
  let ?d = "\<lparr>td_pTask = Some (mc_buffers mc + i), td_taskEsp = updatedKernelStack task - area + start,
        td_kernelEspStackBegin = start + USER_TASK_KERNEL_STACK_OFFSET, td_pageDirectoryPhysicalAddr = a\<rparr>"
  note spec = activate_task_spec [OF assms(1), where d = ?d and task = task]
  have run: "start_user_task mc i task k = (case activate_task (k_core k) ?d task of None \<Rightarrow> None
      | Some (response, core, task) \<Rightarrow> Some (response, task, k\<lparr>k_core := core\<rparr>))"
    using assms(2-5) by (simp add: start_user_task_def UserTask_setToRunningState_def Let_def split: option.splits)
  show "fr = [] \<Longrightarrow> start_user_task mc i task k = Some (TOO_MANY_TASKS, task, k)" using run spec(1) by simp
  show "fr = d # fr' \<Longrightarrow> \<exists>core'. start_user_task mc i task k =
      Some (SUCCESS, task\<lparr>taskID := int d, task_isRunning := True\<rparr>, k\<lparr>k_core := core'\<rparr>) \<and> tasks_are core' (d # act) fr' \<and> desc core' d = ?d"
    using run spec(2) by fastforce
qed

lemma no_arguments:
  assumes "task_kind task = UserTask start area" "area \<noteq> 0"
  shows "\<exists>m' stack. setTaskArguments ret cpu m task \<lparr>ta_args = [], numArgs = 0\<rparr> = Some (m', task\<lparr>updatedKernelStack := stack\<rparr>)"
  using assms by (auto simp: setTaskArguments_def write_arguments_def Let_def split: prod.splits)

lemma put_state_starts:
  assumes ok: "os_ok used unused os" and n: "n \<le> 0xFFFFFFFF"
    and t: "map_of (os_table used os) (of_nat n) = Some task" "\<not> task_isRunning task" "task_kind task = UserTask start area" "area \<noteq> 0"
    and core: "tasks_are (k_core (os_kernel os)) act (d # fr)" "physical_addr (mc_raw mc) (mc_vread mc) area = Some a"
  shows "\<exists>os' task'. state_handlePUT mc (task_path n ''/state'') Text_Plain_Charset_UTF8 (bytes_of ''Running'') os =
      Some (text_reply CHANGED_RESPONSE_CODE [], os') \<and> os_ok used unused os' \<and>
    (\<forall>x. map_of (os_table used os') x = (if x = of_nat n then Some task' else map_of (os_table used os) x)) \<and>
    task_isRunning task' \<and> task_kind task' = UserTask start area \<and> taskID task' = int d \<and>
    tasks_are (k_core (os_kernel os')) (d # act) fr \<and>
    td_kernelEspStackBegin (desc (k_core (os_kernel os')) d) = start + USER_TASK_KERNEL_STACK_OFFSET \<and>
    td_pageDirectoryPhysicalAddr (desc (k_core (os_kernel os')) d) = a"
proof -
  let ?tm = "os_manager os" and ?k = "os_kernel os"
  have tm: "manager_ok used unused ?tm" "map_of (table used ?tm) (of_nat n) = Some task"
    using ok t(1) by (simp_all add: os_ok_def os_table_def)
  obtain j where j: "j \<in> set used" "ident_at ?tm j = of_nat n" "userTaskBuffers ?tm ! j = task" "getUserTask ?tm (of_nat n) = Some (Some j)"
    "j < length (userTaskBuffers ?tm)" by (rule table_buffer [OF tm])
  obtain m stack where m: "setTaskArguments (mc_handlerReturn mc) (mc_cpu mc) (k_memory ?k) task \<lparr>ta_args = [], numArgs = 0\<rparr> =
      Some (m, task\<lparr>updatedKernelStack := stack\<rparr>)" using no_arguments [OF t(3,4)] by blast
  have "tasks_are (k_core (?k\<lparr>k_memory := m\<rparr>)) act (d # fr)" using core(1) by simp
  from start_user_task_spec(2) [OF this _ _ t(4) core(2), of "task\<lparr>updatedKernelStack := stack\<rparr>" start d fr j] t(2,3)
  obtain core' where s: "start_user_task mc j (task\<lparr>updatedKernelStack := stack\<rparr>) (?k\<lparr>k_memory := m\<rparr>) =
      Some (SUCCESS, task\<lparr>updatedKernelStack := stack, taskID := int d, task_isRunning := True\<rparr>, ?k\<lparr>k_memory := m, k_core := core'\<rparr>)"
    "tasks_are core' (d # act) fr" "td_kernelEspStackBegin (desc core' d) = start + USER_TASK_KERNEL_STACK_OFFSET"
    "td_pageDirectoryPhysicalAddr (desc core' d) = a" by auto
  let ?t = "task\<lparr>updatedKernelStack := stack, taskID := int d, task_isRunning := True\<rparr>"
  let ?os = "os\<lparr>os_manager := ?tm\<lparr>userTaskBuffers := (userTaskBuffers ?tm)[j := ?t]\<rparr>, os_kernel := ?k\<lparr>k_memory := m, k_core := core'\<rparr>\<rparr>"
  have "state_handlePUT mc (task_path n ''/state'') Text_Plain_Charset_UTF8 (bytes_of ''Running'') os = Some (text_reply CHANGED_RESPONSE_CODE [], ?os)"
    using j t(2) m s(1) by (simp add: state_handlePUT_def state_number [OF n] Let_def)
  moreover note table_put [OF tm(1) j(1), of ?t]
  ultimately show ?thesis using s(2-4) t(3) j(2) by (intro exI [of _ ?os] exI [of _ ?t]) (simp add: os_ok_def os_table_def)
qed

subsection \<open>Writing into a task\<close>

definition data_path :: "nat \<Rightarrow> nat \<Rightarrow> u8 list" where
  "data_path n a = bytes_of ''/tasks/'' @ decimal n @ bytes_of ''/data/'' @ decimal a"

lemma data_path_numbers:
  assumes "n \<le> 0xFFFFFFFF" "a \<le> 0xFFFFFFFF"
  shows "parse_number True (c_string (data_path n a)) 7 0 = Number n (7 + length (decimal n))"
    "parse_number False (c_string (data_path n a)) (7 + length (decimal n) + 6) 0 = Number a (length (data_path n a))"
    "\<not> length (c_string (data_path n a)) \<le> 7 + length (decimal n) + 6"
proof -
  have lens: "length (bytes_of ''/tasks/'') = 7" "length (bytes_of ''/data/'') = 6" by (simp_all add: bytes_of_def)
  have "0 \<notin> set (data_path n a)" using decimal_plain [of 0] by (auto simp: data_path_def bytes_of_def)
  then have c: "c_string (data_path n a) = data_path n a" by (rule c_string_id)
  have "bytes_of ''/data/'' @ decimal a = [] \<or> True \<and> hd (bytes_of ''/data/'' @ decimal a) = SLASH" by (simp add: bytes_of_def)
  from parse_decimal [OF this, of "bytes_of ''/tasks/''" n] assms(1)
  show "parse_number True (c_string (data_path n a)) 7 0 = Number n (7 + length (decimal n))"
    unfolding c by (simp add: data_path_def lens)
  from parse_decimal [of "[]" False "bytes_of ''/tasks/'' @ decimal n @ bytes_of ''/data/''" a] assms(2)
  show "parse_number False (c_string (data_path n a)) (7 + length (decimal n) + 6) 0 = Number a (length (data_path n a))"
    unfolding c by (simp add: data_path_def lens)
  have "decimal a \<noteq> []" using digits_number(3) [of a] by (simp add: decimal_def)
  then show "\<not> length (c_string (data_path n a)) \<le> 7 + length (decimal n) + 6" unfolding c by (simp add: data_path_def lens)
qed

text \<open>The checks of \<open>addrSpaceIsUserAccessible\<close> and \<open>setData\<close>: the end of the range is computed in 32 bits.\<close>

lemma data_checks:
  assumes "unat start + 0x800000 < 4294967296" "a < 4294967296" "len < 4294967296"
  defines "fin \<equiv> (a + len) mod 4294967296"
  shows "addrSpaceIsUserAccessible start (of_nat a) (of_nat len) \<longleftrightarrow> unat start + 0x14000 \<le> a \<and> fin \<le> unat start + 0x800000"
    "of_nat a < start + USER_TASK_PROCESS_ENTRY_OFFSET \<longleftrightarrow> a < unat start + 0x24000"
    "of_nat a + of_nat len > start + 0x800000 \<longleftrightarrow> unat start + 0x800000 < fin"
proof -
  have a: "unat (of_nat a :: u32) = a" "unat (of_nat a + of_nat len :: u32) = fin"
    using assms(2,3) unat_of_nat_u32 [of a] unat_of_nat_u32 [of len] by (simp_all add: fin_def unat_word_ariths)
  have s: "unat (start + 0x14000) = unat start + 0x14000" "unat (start + 0x24000) = unat start + 0x24000"
    "unat (start + 0x800000) = unat start + 0x800000" using assms(1) by (simp_all add: unat_add_no_wrap)
  have "start + USER_TASK_KERNEL_STACK_OFFSET + 4 = start + 0x14000" by simp
  then show "addrSpaceIsUserAccessible start (of_nat a) (of_nat len) \<longleftrightarrow> unat start + 0x14000 \<le> a \<and> fin \<le> unat start + 0x800000"
    unfolding addrSpaceIsUserAccessible_def word_less_nat_alt using a s by (auto simp only: a s split: if_splits)
  show "of_nat a < start + USER_TASK_PROCESS_ENTRY_OFFSET \<longleftrightarrow> a < unat start + 0x24000"
    "of_nat a + of_nat len > start + 0x800000 \<longleftrightarrow> unat start + 0x800000 < fin"
    unfolding word_less_nat_alt by (simp_all only: a s)
qed

lemma store_inside_region:
  assumes "off + length bs \<le> 0x800000" "0x24000 \<le> off" "unat (x - area) < 0x24000 \<or> 0x800000 \<le> unat (x - area)"
  shows "store_bytes m (area + of_nat off) bs x = m x"
proof (rule store_bytes_outside)
  let ?u = "x - area" and ?o = "of_nat off :: u32"
  have o: "unat ?o = off" by (rule unat_of_nat_u32) (use assms(1) in simp)
  have e: "x - (area + ?o) = ?u - ?o" by simp
  show "length bs \<le> unat (x - (area + ?o))"
  proof (cases "off \<le> unat ?u")
    case True
    then have "unat (?u - ?o) = unat ?u - off" using unat_sub_no_wrap [of ?o ?u] o by simp
    then show ?thesis unfolding e using assms True by auto
  next
    case False
    then have "unat (?u - ?o) = unat ?u + 4294967296 - off"
      using unat_sub_if' [of ?u ?o] o by (simp add: word_le_nat_alt)
    then show ?thesis unfolding e using assms(1) by simp
  qed
qed

text \<open>The answer to an upload to the addresses from \<open>a\<close> on, up to what the 32-bit sum gives as their end.\<close>

definition data_reply :: "nat \<Rightarrow> nat \<Rightarrow> u32 \<Rightarrow> Task \<Rightarrow> reply" where
  "data_reply a fin start task =
     (if \<not> (unat start + 0x14000 \<le> a \<and> fin \<le> unat start + 0x800000) then text_reply FORBIDDEN_RESPONSE_CODE []
      else if a < unat start + 0x24000 then text_reply INTERNAL_SERVER_ERROR_RESPONSE_CODE ''Failed to write data to the task's address space''
      else text_reply CHANGED_RESPONSE_CODE (if task_isRunning task then ''Warning: data changed while task was running'' else []))"

lemma data_put_spec:
  assumes ok: "os_ok used unused os" and n: "n \<le> 0xFFFFFFFF" "a \<le> 0xFFFFFFFF"
    and t: "map_of (os_table used os) (of_nat n) = Some task" "task_kind task = UserTask start area" "area \<noteq> 0"
    and p: "payload \<noteq> []" "unat start + 0x800000 < 4294967296" "length payload < 4294967296"
    and ap: "apart (mc_payload mc) (length payload) (area + (of_nat a - start)) (length payload)"
  defines "m \<equiv> store_bytes (k_memory (os_kernel os)) (mc_payload mc) payload"
  defines "fin \<equiv> (a + length payload) mod 4294967296"
  defines "accepted \<equiv> unat start + 0x24000 \<le> a \<and> fin \<le> unat start + 0x800000"
  shows "\<exists>m'. data_handlePUT mc (data_path n a) Application_Octet_Stream payload os =
      Some (data_reply a fin start task, os\<lparr>os_kernel := (os_kernel os)\<lparr>k_memory := m'\<rparr>\<rparr>) \<and>
    (if accepted then m' = store_bytes m (area + (of_nat a - start)) payload else m' = m \<or> m' = k_memory (os_kernel os))"
proof -
  let ?tm = "os_manager os" and ?k = "os_kernel os"
  have tm: "manager_ok used unused ?tm" "map_of (table used ?tm) (of_nat n) = Some task"
    using ok t(1) by (simp_all add: os_ok_def os_table_def)
  obtain j where j: "j \<in> set used" "ident_at ?tm j = of_nat n" "userTaskBuffers ?tm ! j = task" "getUserTask ?tm (of_nat n) = Some (Some j)"
    "j < length (userTaskBuffers ?tm)" by (rule table_buffer [OF tm])
  have "a < 4294967296" using n(2) by simp
  note checks = data_checks [OF p(2) this p(3), folded fin_def] and num = data_path_numbers [OF n]
  have len: "unat (of_nat (length payload) :: u32) = length payload" by (rule unat_of_nat_u32) (use p(3) in simp)
  have copy: "memCopy m (mc_payload mc) (area + (of_nat a - start)) (length payload) = store_bytes m (area + (of_nat a - start)) payload"
    using memCopy_spec [OF ap] load_store_bytes [of payload] p(3) by (simp add: m_def)
  have at: "of_nat a + (area - start) = area + (of_nat a - start)" by (simp add: algebra_simps)
  have set: "setData m task (of_nat a) (mc_payload mc) (of_nat (length payload)) =
      (if accepted then (True, store_bytes m (area + (of_nat a - start)) payload) else (False, m))"
    unfolding setData_def t(2) TaskKind.sel Let_def checks(2,3) len at copy accepted_def using t(3) by auto
  have "data_handlePUT mc (data_path n a) Application_Octet_Stream payload os =
      (if \<not> (unat start + 0x14000 \<le> a \<and> fin \<le> unat start + 0x800000) then Some (text_reply FORBIDDEN_RESPONSE_CODE [], os)
       else if accepted then Some (text_reply CHANGED_RESPONSE_CODE (if task_isRunning task then ''Warning: data changed while task was running'' else []),
         os\<lparr>os_kernel := ?k\<lparr>k_memory := store_bytes m (area + (of_nat a - start)) payload\<rparr>\<rparr>)
       else Some (text_reply INTERNAL_SERVER_ERROR_RESPONSE_CODE ''Failed to write data to the task's address space'', os\<lparr>os_kernel := ?k\<lparr>k_memory := m\<rparr>\<rparr>))"
    unfolding data_handlePUT_def num(1,2) parsed_number.case using j num(3) p(1) set t(2) checks(1)
    by (simp add: Let_def m_def)
  moreover have "os = os\<lparr>os_kernel := ?k\<lparr>k_memory := k_memory ?k\<rparr>\<rparr>" by simp
  moreover have "accepted \<Longrightarrow> unat start + 0x14000 \<le> a \<and> fin \<le> unat start + 0x800000" by (simp add: accepted_def)
  ultimately show ?thesis
    by (intro exI [of _ "if accepted then store_bytes m (area + (of_nat a - start)) payload
          else if unat start + 0x14000 \<le> a \<and> fin \<le> unat start + 0x800000 then m else k_memory ?k"])
      (auto simp: data_reply_def accepted_def)
qed

subsection \<open>The interface\<close>

datatype task_call = Put_Task nat | Delete_Task nat | Get_State nat

fun api_step :: "machine \<Rightarrow> task_call \<Rightarrow> os_state \<Rightarrow> (reply \<times> os_state) option" where
  "api_step mc (Put_Task n) os = api_call mc 0 PUT (task_path n []) Text_Plain_Charset_UTF8 [] os"
| "api_step mc (Delete_Task n) os = api_call mc 0 DELETE (task_path n []) Text_Plain_Charset_UTF8 [] os"
| "api_step mc (Get_State n) os = api_call mc 1 GET (task_path n ''/state'') Text_Plain_Charset_UTF8 [] os"

fun spec_step :: "machine \<Rightarrow> task_call \<Rightarrow> (u32 \<times> Task) list \<Rightarrow> kernel \<Rightarrow> (reply \<times> (u32 \<times> Task) list \<times> kernel) option" where
  "spec_step mc (Put_Task n) tab k = map_option (\<lambda>(r, rest). (create_reply r, rest)) (table_create mc (of_nat n) tab k)"
| "spec_step mc (Delete_Task n) tab k = map_option (\<lambda>(r, rest). (remove_reply r, rest)) (table_remove (of_nat n) tab k)"
| "spec_step mc (Get_State n) tab k = Some (state_reply (map_of tab (of_nat n)), tab, k)"

fun call_number :: "task_call \<Rightarrow> nat" where
  "call_number (Put_Task n) = n"
| "call_number (Delete_Task n) = n"
| "call_number (Get_State n) = n"

fun api_run :: "machine \<Rightarrow> task_call list \<Rightarrow> os_state \<Rightarrow> (reply list \<times> os_state) option" where
  "api_run mc [] os = Some ([], os)"
| "api_run mc (c # cs) os = do { (r, os) \<leftarrow> api_step mc c os; (rs, os) \<leftarrow> api_run mc cs os; Some (r # rs, os) }"

fun spec_run :: "machine \<Rightarrow> task_call list \<Rightarrow> (u32 \<times> Task) list \<Rightarrow> kernel \<Rightarrow> (reply list \<times> (u32 \<times> Task) list \<times> kernel) option" where
  "spec_run mc [] tab k = Some ([], tab, k)"
| "spec_run mc (c # cs) tab k = do { (r, tab, k) \<leftarrow> spec_step mc c tab k; (rs, tab, k) \<leftarrow> spec_run mc cs tab k; Some (r # rs, tab, k) }"

lemma api_step_refines:
  assumes ok: "os_ok used unused os" and n: "call_number c \<le> 0xFFFFFFFF"
  shows "case spec_step mc c (os_table used os) (os_kernel os) of
      None \<Rightarrow> api_step mc c os = None
    | Some (r, tab, k') \<Rightarrow> \<exists>os' used' unused'. api_step mc c os = Some (r, os') \<and>
        os_ok used' unused' os' \<and> os_table used' os' = tab \<and> os_kernel os' = k'"
proof (cases c)
  case (Put_Task i)
  with put_refines [OF ok, of i mc] n show ?thesis by (auto simp: api_call_def split: option.splits)
next
  case (Delete_Task i)
  with delete_refines [OF ok, of i] n show ?thesis by (auto simp: api_call_def split: option.splits)
next
  case (Get_State i)
  with get_state_refines [OF ok, of i] n ok show ?thesis by (auto simp: api_call_def)
qed

lemma api_run_refines:
  assumes "os_ok used unused os" "\<forall>c \<in> set cs. call_number c \<le> 0xFFFFFFFF"
  shows "case spec_run mc cs (os_table used os) (os_kernel os) of
      None \<Rightarrow> api_run mc cs os = None
    | Some (rs, tab, k') \<Rightarrow> \<exists>os' used' unused'. api_run mc cs os = Some (rs, os') \<and>
        os_ok used' unused' os' \<and> os_table used' os' = tab \<and> os_kernel os' = k'"
  using assms
proof (induction cs arbitrary: used unused os)
  case (Cons c cs)
  show ?case
  proof (cases "spec_step mc c (os_table used os) (os_kernel os)")
    case None
    with api_step_refines [OF Cons.prems(1), of c mc] Cons.prems(2) show ?thesis by simp
  next
    case (Some p)
    obtain r tab k' where p: "p = (r, tab, k')" by (cases p) auto
    with Some api_step_refines [OF Cons.prems(1), of c mc] Cons.prems(2) obtain os' used' unused' where
      "api_step mc c os = Some (r, os')" "os_ok used' unused' os'" "os_table used' os' = tab" "os_kernel os' = k'" by auto
    with Cons.IH [of used' unused' os'] Cons.prems(2) Some p show ?thesis by (auto split: option.splits) blast
  qed
qed auto

text \<open>C10. The interface of the management task refines the table of tasks: from the state the task starts in, any sequence of
  \<open>PUT\<close> and \<open>DELETE /tasks/{n}\<close> and \<open>GET /tasks/{n}/state\<close> gives exactly the responses the table prescribes
  (created, conflict, too many, deleted, not found, running or not), leaves exactly the tasks of the table, and faults only where
  the constructor or destructor of a task does.\<close>

theorem task_api_refines:
  assumes "length raw = TASK_MANAGER_MAX_TASKS" "\<forall>c \<in> set cs. call_number c \<le> 0xFFFFFFFF"
  shows "case spec_run mc cs [] k of
      None \<Rightarrow> api_run mc cs \<lparr>os_manager = TaskManager_new raw, os_kernel = k\<rparr> = None
    | Some (rs, tab, k') \<Rightarrow> \<exists>os' used' unused'. api_run mc cs \<lparr>os_manager = TaskManager_new raw, os_kernel = k\<rparr> = Some (rs, os') \<and>
        os_ok used' unused' os' \<and> os_table used' os' = tab \<and> os_kernel os' = k'"
proof -
  let ?os = "\<lparr>os_manager = TaskManager_new raw, os_kernel = k\<rparr>"
  have "os_ok [] [0..<TASK_MANAGER_MAX_TASKS] ?os" unfolding os_ok_def by (simp only: os_state.simps new_manager [OF assms(1)])
  from api_run_refines [OF this assms(2), of mc] show ?thesis by (simp add: os_table_def table_def)
qed

text \<open>Requests for tasks that do not exist, and the identifier 0.\<close>

theorem task_api_refines_witness:
  "\<forall>mc k task. \<exists>os' used' unused'. api_run mc [Get_State 12, Delete_Task 12, Put_Task 0]
      \<lparr>os_manager = TaskManager_new (replicate 100 task), os_kernel = k\<rparr> =
    Some ([text_reply NOT_FOUND_RESPONSE_CODE [], text_reply NOT_FOUND_RESPONSE_CODE ''Task with the given ID does not exist'',
      text_reply BAD_REQUEST_RESPONSE_CODE ''Task ID cannot be 0''], os') \<and>
    os_ok used' unused' os' \<and> os_table used' os' = [] \<and> os_kernel os' = k"
proof (intro allI)
  fix mc k and task :: Task
  from task_api_refines [of "replicate 100 task" "[Get_State 12, Delete_Task 12, Put_Task 0]" mc k]
  show "\<exists>os' used' unused'. api_run mc [Get_State 12, Delete_Task 12, Put_Task 0]
      \<lparr>os_manager = TaskManager_new (replicate 100 task), os_kernel = k\<rparr> =
    Some ([text_reply NOT_FOUND_RESPONSE_CODE [], text_reply NOT_FOUND_RESPONSE_CODE ''Task with the given ID does not exist'',
      text_reply BAD_REQUEST_RESPONSE_CODE ''Task ID cannot be 0''], os') \<and>
    os_ok used' unused' os' \<and> os_table used' os' = [] \<and> os_kernel os' = k"
    by (simp add: table_remove_def table_create_def state_reply_def remove_reply_def create_reply_def del: api_run.simps)
qed

text \<open>C26. \<open>PUT /tasks/{n}/state\<close> with the payload \<open>Running\<close> starts the task: a task that exists, has its memory and does not run yet is
  put on the first free task descriptor, with its own page directory and kernel stack, the answer is 2.04, every other task
  of the table is untouched, and \<open>GET /tasks/{n}/state\<close> answers \<open>Running\<close> from then on.\<close>

theorem start_task_api:
  assumes "os_ok used unused os" "n \<le> 0xFFFFFFFF"
    and "map_of (os_table used os) (of_nat n) = Some task" "\<not> task_isRunning task" "task_kind task = UserTask start area" "area \<noteq> 0"
    and "tasks_are (k_core (os_kernel os)) act (d # fr)" "physical_addr (mc_raw mc) (mc_vread mc) area = Some a"
  shows "\<exists>os'. api_call mc 1 PUT (task_path n ''/state'') Text_Plain_Charset_UTF8 (bytes_of ''Running'') os =
      Some (text_reply CHANGED_RESPONSE_CODE [], os') \<and> os_ok used unused os' \<and>
    (\<forall>x. x \<noteq> of_nat n \<longrightarrow> map_of (os_table used os') x = map_of (os_table used os) x) \<and>
    tasks_are (k_core (os_kernel os')) (d # act) fr \<and>
    td_kernelEspStackBegin (desc (k_core (os_kernel os')) d) = start + USER_TASK_KERNEL_STACK_OFFSET \<and>
    td_pageDirectoryPhysicalAddr (desc (k_core (os_kernel os')) d) = a \<and>
    api_call mc 1 GET (task_path n ''/state'') fmt payload os' = Some (text_reply CONTENT_RESPONSE_CODE ''Running'', os')"
proof -
  from put_state_starts [OF assms] obtain os' task' where
    r: "state_handlePUT mc (task_path n ''/state'') Text_Plain_Charset_UTF8 (bytes_of ''Running'') os =
      Some (text_reply CHANGED_RESPONSE_CODE [], os')" and os': "os_ok used unused os'"
    "\<forall>x. map_of (os_table used os') x = (if x = of_nat n then Some task' else map_of (os_table used os) x)" "task_isRunning task'"
    and core: "tasks_are (k_core (os_kernel os')) (d # act) fr"
    "td_kernelEspStackBegin (desc (k_core (os_kernel os')) d) = start + USER_TASK_KERNEL_STACK_OFFSET"
    "td_pageDirectoryPhysicalAddr (desc (k_core (os_kernel os')) d) = a" by blast
  have "state_handleGET (task_path n ''/state'') os' = Some (text_reply CONTENT_RESPONSE_CODE ''Running'', os')"
    using get_state_refines [OF os'(1) assms(2)] os'(2,3) by (simp add: state_reply_def)
  with r os' core show ?thesis by (intro exI [of _ os']) (simp add: api_call_def)
qed

text \<open>C11. \<open>PUT /tasks/{n}/data/{a}\<close> is accepted when \<open>a\<close> is not below the entry point of the task and the end of the range, computed in 32 bits
  as the code does, is not behind the task's space. Then the payload is written, in order, to the memory of address \<open>a\<close> of the task and nothing else changes;
  otherwise the request is refused and no byte of the task's memory changes (the receive buffer the payload came in apart, in both cases).
  When \<open>a + length payload\<close> stays below \<open>2^32\<close>, all that is written lies in the part of the region that holds the program: page tables, kernel stack and
  stack of the task and all memory outside of its region stay as they were. When the sum wraps around the check is passed by addresses behind the
  task's space, and the payload lands outside of the task's region: the code does not prevent that.\<close>

theorem upload_data:
  assumes "os_ok used unused os" "n \<le> 0xFFFFFFFF" "a \<le> 0xFFFFFFFF"
    and "map_of (os_table used os) (of_nat n) = Some task" "task_kind task = UserTask start area" "area \<noteq> 0"
    and "payload \<noteq> []" "unat start + 0x800000 < 4294967296" "length payload < 4294967296"
    and "apart (mc_payload mc) (length payload) (area + (of_nat a - start)) (length payload)"
  defines "m \<equiv> store_bytes (k_memory (os_kernel os)) (mc_payload mc) payload"
  defines "fin \<equiv> (a + length payload) mod 4294967296"
  defines "accepted \<equiv> unat start + 0x24000 \<le> a \<and> fin \<le> unat start + 0x800000"
  defines "dest \<equiv> area + (of_nat a - start)"
  shows "\<exists>m'. api_call mc 2 PUT (data_path n a) Application_Octet_Stream payload os =
      Some (data_reply a fin start task, os\<lparr>os_kernel := (os_kernel os)\<lparr>k_memory := m'\<rparr>\<rparr>) \<and>
    (accepted \<longrightarrow> load_bytes m' dest (length payload) = payload \<and> (\<forall>x. length payload \<le> unat (x - dest) \<longrightarrow> m' x = m x)) \<and>
    (\<not> accepted \<longrightarrow> m' = m \<or> m' = k_memory (os_kernel os)) \<and>
    (a + length payload < 4294967296 \<longrightarrow>
      (\<forall>x. unat (x - area) < 0x24000 \<or> 0x800000 \<le> unat (x - area) \<longrightarrow> m' x = m x \<or> m' x = k_memory (os_kernel os) x)) \<and>
    (4294967296 \<le> a + length payload \<and> unat start + 0x800000 \<le> a \<and> fin \<le> unat start + 0x800000 \<longrightarrow> accepted \<and> 0x800000 \<le> unat (dest - area))"
proof -
  from data_put_spec [OF assms(1-10)] obtain m' where
    r: "data_handlePUT mc (data_path n a) Application_Octet_Stream payload os =
      Some (data_reply a fin start task, os\<lparr>os_kernel := (os_kernel os)\<lparr>k_memory := m'\<rparr>\<rparr>)"
    and m': "if accepted then m' = store_bytes m dest payload else m' = m \<or> m' = k_memory (os_kernel os)"
    unfolding m_def fin_def accepted_def dest_def by blast
  have off: "unat (dest - area) = a - unat start" if "unat start \<le> a"
    using that unat_sub_no_wrap [of start "of_nat a"] unat_of_nat_u32 [of a] assms(3) by (simp add: dest_def)
  have written: "load_bytes m' dest (length payload) = payload \<and> (\<forall>x. length payload \<le> unat (x - dest) \<longrightarrow> m' x = m x)" if accepted
    using that m' load_store_bytes [of payload] assms(9) store_bytes_outside by simp
  have region: "m' x = m x \<or> m' x = k_memory (os_kernel os) x"
    if nw: "a + length payload < 4294967296" and x: "unat (x - area) < 0x24000 \<or> 0x800000 \<le> unat (x - area)" for x
  proof (cases accepted)
    case True
    then have "unat start \<le> a" by (simp add: accepted_def)
    then have "dest = area + of_nat (a - unat start)" by (simp add: dest_def of_nat_diff)
    then show ?thesis using True m' nw store_inside_region [OF _ _ x, of "a - unat start" payload m] by (auto simp: accepted_def fin_def)
  qed (use m' in auto)
  have wrapped: "accepted \<and> 0x800000 \<le> unat (dest - area)" if "unat start + 0x800000 \<le> a" "fin \<le> unat start + 0x800000"
    using that off by (simp add: accepted_def)
  show ?thesis using r m' written region wrapped by (intro exI [of _ m'] conjI) (simp_all add: api_call_def)
qed

subsection \<open>An example\<close>

text \<open>A manager with the task 5, at 0x2000000 for itself and at 0x4000000 for the kernel.\<close>

definition demo_api_task :: Task where
  "demo_api_task = \<lparr>taskID = -1, task_isRunning = False, updatedKernelStack = 0, task_kind = UserTask 0x2000000 0x4000000\<rparr>"

definition one_task :: TaskManager where
  "one_task = (let tm = TaskManager_new (replicate 100 demo_api_task) in
     tm\<lparr>taskLinkedListElements := (taskLinkedListElements tm)[0 := \<lparr>ll_value = (0, 5), ll_next = None\<rparr>],
       activeTasksLinkedListHead := Some 0, unusedTaskLinkedListElementsHead := Some 1\<rparr>)"

lemma one_task_ok: "manager_ok [0] [1..<100] one_task"
proof -
  have "seg (\<lambda>i. ll_next (taskLinkedListElements one_task ! i)) (Some 1) [1..<100] None"
    by (rule seg_upt) (auto simp: one_task_def TaskManager_new_def nth_list_update Let_def simp del: upt_rec_numeral)
  moreover have "set ([0] @ [1..<100]) = {..<100::nat}" by (auto simp del: upt_rec_numeral)
  ultimately show ?thesis
    by (simp add: manager_ok_def tasks.threaded_def one_task_def TaskManager_new_def ident_at_def nth_list_update Let_def del: upt_rec_numeral set_append)
qed

lemma one_task_table: "table [0] one_task = [(5, demo_api_task)]"
  by (simp add: table_def ident_at_def one_task_def TaskManager_new_def Let_def del: upt_rec_numeral)

lemma demo_os:
  "os_ok [0] [1..<100] \<lparr>os_manager = one_task, os_kernel = k\<rparr>"
  "map_of (os_table [0] \<lparr>os_manager = one_task, os_kernel = k\<rparr>) (of_nat 5) = Some demo_api_task"
proof -
  show "os_ok [0] [1..<100] \<lparr>os_manager = one_task, os_kernel = k\<rparr>" unfolding os_ok_def os_state.simps by (rule one_task_ok)
qed (simp add: os_table_def one_task_table)

theorem start_task_api_witness:
  "\<forall>(mc :: machine) (k :: kernel) c p raw. \<exists>os'. api_call (mc\<lparr>mc_vread := \<lambda>_. Some 0\<rparr>) 1 PUT (task_path 5 ''/state'') Text_Plain_Charset_UTF8 (bytes_of ''Running'')
      \<lparr>os_manager = one_task, os_kernel = k\<lparr>k_core := CpuCore_new c p raw\<rparr>\<rparr> = Some (text_reply CHANGED_RESPONSE_CODE [], os') \<and>
    tasks_are (k_core (os_kernel os')) [0] [1..<50] \<and>
    api_call (mc\<lparr>mc_vread := \<lambda>_. Some 0\<rparr>) 1 GET (task_path 5 ''/state'') Application_JSON [] os' = Some (text_reply CONTENT_RESPONSE_CODE ''Running'', os')"
proof (intro allI)
  fix mc :: machine and k :: kernel and c p raw
  let ?mc = "mc\<lparr>mc_vread := \<lambda>_. Some 0\<rparr>" and ?k = "k\<lparr>k_core := CpuCore_new c p raw\<rparr>"
  have "[0..<50] = 0 # [1..<50::nat]" by (simp only: upt_conv_Cons) simp
  then have core: "tasks_are (k_core (os_kernel \<lparr>os_manager = one_task, os_kernel = ?k\<rparr>)) [] (0 # [1..<50])"
    using CpuCore_new_tasks [of c p raw] by (simp del: upt_rec_numeral)
  have t: "\<not> task_isRunning demo_api_task" "task_kind demo_api_task = UserTask 0x2000000 0x4000000" "(0x4000000 :: u32) \<noteq> 0" "5 \<le> (0xFFFFFFFF :: nat)"
    by (simp_all add: demo_api_task_def)
  have "\<exists>a. physical_addr (mc_raw ?mc) (mc_vread ?mc) 0x4000000 = Some a"
    by (simp add: physical_addr_def translateVirtualToPhysicalAddress_def pt_index_def)
  then obtain a where "physical_addr (mc_raw ?mc) (mc_vread ?mc) 0x4000000 = Some a" by blast
  from start_task_api [OF demo_os(1) t(4) demo_os(2) t(1-3) core this, of Application_JSON "[]"]
  show "\<exists>os'. api_call ?mc 1 PUT (task_path 5 ''/state'') Text_Plain_Charset_UTF8 (bytes_of ''Running'')
      \<lparr>os_manager = one_task, os_kernel = ?k\<rparr> = Some (text_reply CHANGED_RESPONSE_CODE [], os') \<and>
    tasks_are (k_core (os_kernel os')) [0] [1..<50] \<and>
    api_call ?mc 1 GET (task_path 5 ''/state'') Application_JSON [] os' = Some (text_reply CONTENT_RESPONSE_CODE ''Running'', os')"
    by blast
qed

text \<open>Three bytes at the entry point, and three bytes at the end of the address space, which the kernel puts in front of the task's region.\<close>

theorem upload_data_witness:
  "\<forall>(mc :: machine) (k :: kernel). (\<exists>m'. api_call (mc\<lparr>mc_payload := 0x1000\<rparr>) 2 PUT (data_path 5 0x2024000) Application_Octet_Stream [1, 2, 3] \<lparr>os_manager = one_task, os_kernel = k\<rparr> =
      Some (text_reply CHANGED_RESPONSE_CODE [], \<lparr>os_manager = one_task, os_kernel = k\<lparr>k_memory := m'\<rparr>\<rparr>) \<and>
    load_bytes m' 0x4024000 3 = [1, 2, 3] \<and> m' 0x4023FFF = k_memory k 0x4023FFF) \<and>
    (\<exists>m'. api_call (mc\<lparr>mc_payload := 0x1000\<rparr>) 2 PUT (data_path 5 0xFFFFFFFE) Application_Octet_Stream [1, 2, 3] \<lparr>os_manager = one_task, os_kernel = k\<rparr> =
      Some (text_reply CHANGED_RESPONSE_CODE [], \<lparr>os_manager = one_task, os_kernel = k\<lparr>k_memory := m'\<rparr>\<rparr>) \<and>
    load_bytes m' 0x1FFFFFE 3 = [1, 2, 3])"
proof (intro allI conjI)
  fix mc :: machine and k :: kernel
  let ?mc = "mc\<lparr>mc_payload := 0x1000\<rparr>" and ?os = "\<lparr>os_manager = one_task, os_kernel = k\<rparr>" and ?p = "[1, 2, 3] :: u8 list"
  have t: "task_kind demo_api_task = UserTask 0x2000000 0x4000000" "(0x4000000 :: u32) \<noteq> 0" "5 \<le> (0xFFFFFFFF :: nat)"
    "?p \<noteq> []" "unat (0x2000000 :: u32) + 0x800000 < 4294967296" "length ?p < 4294967296" by (simp_all add: demo_api_task_def)
  let ?m = "store_bytes (k_memory k) 0x1000 ?p"
  have ap: "apart (mc_payload ?mc) (length ?p) (0x4000000 + (of_nat 0x2024000 - 0x2000000)) (length ?p)"
    "apart (mc_payload ?mc) (length ?p) (0x4000000 + (of_nat 0xFFFFFFFE - 0x2000000)) (length ?p)"
    by (simp_all add: apart_def numeral_3_eq_3 less_Suc_eq)
  from upload_data [OF demo_os(1) [of k] t(3) _ demo_os(2) t(1,2,4,5,6) ap(1)] obtain m' where
    m': "api_call ?mc 2 PUT (data_path 5 0x2024000) Application_Octet_Stream ?p ?os =
      Some (data_reply 0x2024000 0x2024003 0x2000000 demo_api_task, ?os\<lparr>os_kernel := (os_kernel ?os)\<lparr>k_memory := m'\<rparr>\<rparr>)"
    "load_bytes m' 0x4024000 3 = ?p"
    and rest: "\<forall>x. unat (x - 0x4000000) < 0x24000 \<or> 0x800000 \<le> unat (x - 0x4000000) \<longrightarrow> m' x = ?m x \<or> m' x = k_memory k x"
    by (auto simp: numeral_3_eq_3)
  have "?m 0x4023FFF = k_memory k 0x4023FFF" by (rule store_bytes_outside) simp
  moreover have reply: "data_reply 0x2024000 0x2024003 0x2000000 demo_api_task = text_reply CHANGED_RESPONSE_CODE []"
    "data_reply 0xFFFFFFFE 1 0x2000000 demo_api_task = text_reply CHANGED_RESPONSE_CODE []"
    by (simp_all add: data_reply_def demo_api_task_def)
  ultimately show "\<exists>m'. api_call ?mc 2 PUT (data_path 5 0x2024000) Application_Octet_Stream ?p ?os =
      Some (text_reply CHANGED_RESPONSE_CODE [], \<lparr>os_manager = one_task, os_kernel = k\<lparr>k_memory := m'\<rparr>\<rparr>) \<and>
    load_bytes m' 0x4024000 3 = ?p \<and> m' 0x4023FFF = k_memory k 0x4023FFF"
    using m' spec [OF rest, of "0x4023FFF"] by (intro exI [of _ m'] conjI) simp_all
  have "(4328521726 :: u32) = 0x1FFFFFE" by simp
  with upload_data [OF demo_os(1) [of k] t(3) _ demo_os(2) t(1,2,4,5,6) ap(2)] obtain m2 where
    "api_call ?mc 2 PUT (data_path 5 0xFFFFFFFE) Application_Octet_Stream ?p ?os =
      Some (data_reply 0xFFFFFFFE 1 0x2000000 demo_api_task, ?os\<lparr>os_kernel := (os_kernel ?os)\<lparr>k_memory := m2\<rparr>\<rparr>)"
    "load_bytes m2 0x1FFFFFE 3 = ?p" by (auto simp: numeral_3_eq_3)
  then show "\<exists>m'. api_call ?mc 2 PUT (data_path 5 0xFFFFFFFE) Application_Octet_Stream ?p ?os =
      Some (text_reply CHANGED_RESPONSE_CODE [], \<lparr>os_manager = one_task, os_kernel = k\<lparr>k_memory := m'\<rparr>\<rparr>) \<and>
    load_bytes m' 0x1FFFFFE 3 = ?p"
    by (intro exI [of _ m2] conjI) (simp_all add: reply [simplified])
qed

end
