(* ===== verification/Management.thy ===== *)
theory Management
  imports Api_Properties Coap_Dispatch
begin

text \<open>
  The management task as a whole: \<open>osManagementTask\<close> registers its three paths, and a request that arrives at the server is
  answered by the handler of its path, on the table of tasks.
\<close>

definition api_paths :: "(u8 list list \<times> nat) list" where
  "api_paths = [([bytes_of ''tasks'', [WILDCARD], bytes_of ''data'', [WILDCARD]], 2),
     ([bytes_of ''tasks'', [WILDCARD], bytes_of ''state''], 1), ([bytes_of ''tasks'', [WILDCARD]], 0)]"

definition managing :: "nat list \<Rightarrow> CoAPServer \<Rightarrow> bool" where
  "managing used server \<longleftrightarrow> server_ok used server \<and>
     Coap_Registry.registered used server = map (\<lambda>(ss, h). (joined ss, h)) api_paths"

text \<open>Which handler a path belongs to.\<close>

fun api_route :: "u8 list list \<Rightarrow> nat option" where
  "api_route [a, n] = (if a = bytes_of ''tasks'' then Some 0 else None)"
| "api_route [a, n, b] = (if a = bytes_of ''tasks'' \<and> b = bytes_of ''state'' then Some 1 else None)"
| "api_route [a, n, b, x] = (if a = bytes_of ''tasks'' \<and> b = bytes_of ''data'' then Some 2 else None)"
| "api_route _ = None"

definition api_answer :: "machine \<Rightarrow> coap_method \<Rightarrow> u8 list list \<Rightarrow> ContentFormat option \<Rightarrow> u8 list \<Rightarrow> os_state \<Rightarrow> (reply \<times> os_state) option" where
  "api_answer mc m ts fmt payload os = (case api_route ts of
     None \<Rightarrow> Some ((not_found_response, []), os)
   | Some h \<Rightarrow> api_call mc h m (joined ts) (format_of fmt) payload os)"

subsection \<open>Set-up\<close>

lemma set_path_buffers:
  assumes "setPathHandler path h server = Some server'"
  shows "buffers_ok server' = buffers_ok server"
  using assms by (auto simp: setPathHandler_def buffers_ok_def Option.bind_eq_Some_conv split: if_splits option.splits)

lemma joined_paths:
  "bytes_of ''/tasks/^'' = joined [bytes_of ''tasks'', [WILDCARD]]"
  "bytes_of ''/tasks/^/state'' = joined [bytes_of ''tasks'', [WILDCARD], bytes_of ''state'']"
  "bytes_of ''/tasks/^/data/^'' = joined [bytes_of ''tasks'', [WILDCARD], bytes_of ''data'', [WILDCARD]]"
  by (simp_all add: bytes_of_def joined_def)

lemma setup_manages:
  assumes "\<forall>i < MAX_NUM_COAP_PATHS. length (cp_path (pe_value (pathListElements raw ! i))) = MAX_COAP_PATH_SIZE"
    "length (writeBuffers raw) = 2" "\<forall>b \<in> set (writeBuffers raw). length b = WRITE_BUFFER_SIZE"
  shows "\<exists>server used. osManagementTask_setup sid raw rawTasks = Some (server, TaskManager_new rawTasks) \<and> managing used server"
proof -
  let ?rs = "[Set_Path (bytes_of ''/tasks/^'') 0, Set_Path (bytes_of ''/tasks/^/state'') 1, Set_Path (bytes_of ''/tasks/^/data/^'') 2]"
  let ?s = "fst (CoAPServer_new 5683 sid raw)"
  obtain server used unused where s: "run_registrations ?rs ?s = Some server" "registry_ok used unused server"
    "Coap_Registry.registered used server = foldl registry_step [] ?rs"
    using registrations_refine [OF new_registry [OF assms(1)], of ?rs 5683 sid] by (auto simp: Coap_Registry.registered_def simp del: foldl.simps run_registrations.simps)
  have "buffers_ok ?s" using assms(2,3) by (simp add: buffers_ok_def CoAPServer_new_def user_setReceiveBuffer_def)
  moreover obtain s1 s2 where "setPathHandler (bytes_of ''/tasks/^'') 0 ?s = Some s1" "setPathHandler (bytes_of ''/tasks/^/state'') 1 s1 = Some s2"
    "setPathHandler (bytes_of ''/tasks/^/data/^'') 2 s2 = Some server" using s(1) by (auto simp: Option.bind_eq_Some_conv)
  moreover from this have "osManagementTask_setup sid raw rawTasks = Some (server, TaskManager_new rawTasks)"
    by (simp add: osManagementTask_setup_def Let_def case_prod_beta)
  moreover have "foldl registry_step [] ?rs = map (\<lambda>(ss, h). (joined ss, h)) api_paths"
    by (simp add: api_paths_def joined_paths [symmetric]) (simp add: bytes_of_def)
  ultimately show ?thesis using registry_paths [OF s(2)] s(3) set_path_buffers by (intro exI [of _ server] exI [of _ used]) (auto simp: managing_def server_ok_def)
qed

lemma set_path_sending:
  "setPathHandler path h server = Some server' \<Longrightarrow> currentlyWrittenToWriteBufferDataLen server' = currentlyWrittenToWriteBufferDataLen server \<and>
    currentlySendingWritebuffer server' = currentlySendingWritebuffer server"
  by (auto simp: setPathHandler_def Option.bind_eq_Some_conv split: if_splits option.splits)

lemma fresh_server:
  assumes "osManagementTask_setup sid raw rawTasks = Some (server, manager)"
  shows "currentlyWrittenToWriteBufferDataLen server = 0" "currentlySendingWritebuffer server = 1"
  using assms by (auto simp: osManagementTask_setup_def Let_def case_prod_beta Option.bind_eq_Some_conv CoAPServer_new_def user_setReceiveBuffer_def dest!: set_path_sending)

subsection \<open>Requests\<close>

lemma managing_elements:
  assumes "managing used server"
  obtains i j k where "used = [i, j, k]" "distinct used"
    "entry (pathListElements server ! i) = (joined [bytes_of ''tasks'', [WILDCARD], bytes_of ''data'', [WILDCARD]], 2)"
    "entry (pathListElements server ! j) = (joined [bytes_of ''tasks'', [WILDCARD], bytes_of ''state''], 1)"
    "entry (pathListElements server ! k) = (joined [bytes_of ''tasks'', [WILDCARD]], 0)"
proof -
  have "map (\<lambda>i. entry (pathListElements server ! i)) used = map (\<lambda>(ss, h). (joined ss, h)) api_paths" "distinct used"
    using assms by (simp_all add: managing_def Coap_Registry.registered_def server_ok_def paths_ok_def)
  then show ?thesis using that by (auto simp: api_paths_def map_eq_Cons_conv simp del: One_nat_def)
qed

lemma segments_encoded:
  assumes "length tok \<le> 8" "length (joined ts) \<le> 100"
  shows "request_segments (coap_packet confirmable m idLower idUpper tok ts fmt payload) = ts"
proof -
  define p where "p = coap_packet confirmable m idLower idUpper tok ts fmt payload"
  have h: "parse_header p = Some (Next (encoded_request confirmable m idLower idUpper tok))" unfolding p_def by (rule header_encoded [OF assms(1)])
  define hdr where "hdr = [0x40 + (if confirmable then 0 else 0x10) + of_nat (length tok), of_nat (method_code m), idLower, idUpper] @ tok"
  have "p = hdr @ path_options 11 ts fmt @ payload_bytes payload" "length hdr = 4 + length tok" by (simp_all add: hdr_def p_def coap_packet_def)
  then have d: "drop (4 + length tok) p = path_options 11 ts fmt @ payload_bytes payload" and len: "4 + length tok \<le> length p" by simp_all
  have "payload_bytes payload = [] \<or> hd (payload_bytes payload) = 0xFF" by (simp add: payload_bytes_def)
  then have "uri_paths (Suc (length p)) p (4 + length tok) 0 = ts"
    using options_encoded [OF _ d len, of "Suc (length p)" 0] segments_short [OF assms(2)] by simp
  with h show ?thesis unfolding p_def [symmetric] by (simp add: request_segments_def encoded_request_def)
qed

text \<open>Every response has the size of its body, and fits the response buffer.\<close>

definition fits_buffer :: "(reply \<times> os_state) option \<Rightarrow> bool" where
  "fits_buffer res \<longleftrightarrow> (\<forall>r body os. res = Some ((r, body), os) \<longrightarrow> responseSize r = length body \<and> length body \<le> RESPONSE_BUFFER_SIZE)"

lemma fits_text: "length s \<le> RESPONSE_BUFFER_SIZE \<Longrightarrow> fits_buffer (Some (text_reply code s, os))"
  by (simp add: fits_buffer_def text_reply_def bytes_of_def)

lemma fits_bind: "(\<And>x. res = Some x \<Longrightarrow> fits_buffer (f x)) \<Longrightarrow> fits_buffer (Option.bind res f)"
  by (cases res) (simp_all add: fits_buffer_def)

lemma fits_replies: "fits_buffer (Some (create_reply c, os))" "fits_buffer (Some (remove_reply r, os))"
  by (cases c; simp add: create_reply_def fits_text) (cases r; simp add: remove_reply_def fits_text)

lemma fits_task:
  "fits_buffer (task_handlePUT mc path os)" "fits_buffer (task_handleDELETE path os)" "fits_buffer (state_handleGET path os)"
  unfolding task_handlePUT_def task_handleDELETE_def state_handleGET_def
  by (auto intro!: fits_text fits_bind fits_replies split: parsed_number.split option.split)

lemma fits_state: "fits_buffer (state_handlePUT mc path fmt payload os)"
  unfolding state_handlePUT_def Let_def
  by (auto intro!: fits_text fits_bind split: parsed_number.split option.split SetToRunningStateResponse.split)

lemma fits_data: "fits_buffer (data_handlePUT mc path fmt payload os)"
  unfolding data_handlePUT_def Let_def
  by (auto intro!: fits_text fits_bind split: parsed_number.split option.split prod.split)

lemma api_call_fits: "fits_buffer (api_call mc h m path fmt payload os)"
proof -
  have "fits_buffer (Some ((not_allowed_response, []), os))" by (simp add: fits_buffer_def not_allowed_response_def)
  then show ?thesis using fits_task fits_state fits_data unfolding api_call_def by (auto split: coap_method.split)
qed

lemma api_handler_ok: "handler_ok (api_handler mc)"
proof -
  have "length (fst (snd (api_handler mc h m path fmt payload k))) \<le> RESPONSE_BUFFER_SIZE" for h m path fmt payload k
  proof (cases "Option.bind k (api_call mc h m path fmt payload)")
    case (Some x)
    then obtain os where "api_call mc h m path fmt payload os = Some x" by (auto simp: Option.bind_eq_Some_conv)
    with api_call_fits [of mc h m path fmt payload os] Some show ?thesis by (cases x) (auto simp: api_handler_def fits_buffer_def)
  qed (simp add: api_handler_def)
  then show ?thesis unfolding handler_ok_def by blast
qed

lemma managing_kept:
  assumes "managing used server" "server_ok used server'" "same_elements (pathListElements server) (pathListElements server')"
  shows "managing used server'"
proof -
  have "set used \<subseteq> {..<length (pathListElements server)}" using assms(1) by (simp add: managing_def server_ok_def paths_ok_def)
  then have "entry (pathListElements server' ! i) = entry (pathListElements server ! i)" if "i \<in> set used" for i
    using that assms(3) by (auto simp: same_elements_def entry_def same_path_facts) (auto simp: same_path_def)
  then show ?thesis using assms(1,2) by (simp add: managing_def Coap_Registry.registered_def cong: map_cong)
qed

lemma api_routing:
  assumes "managing used server" "api_answer mc m ts fmt payload os = Some ((response, body), os')"
  obtains pats where "\<forall>i \<in> set used. pattern (pe_value (pathListElements server ! i)) = joined (pats i) \<and> list_all segment_ok (pats i)"
    "answer (api_handler mc) (pathListElements server) (find (\<lambda>i. list_all2 segment_fits (pats i) ts) used) m
      (joined ts) (format_of fmt) payload (Some os) = (response, body, Some os')"
proof -
  obtain i j k where u: "used = [i, j, k]" "distinct used"
    "entry (pathListElements server ! i) = (joined [bytes_of ''tasks'', [WILDCARD], bytes_of ''data'', [WILDCARD]], 2)"
    "entry (pathListElements server ! j) = (joined [bytes_of ''tasks'', [WILDCARD], bytes_of ''state''], 1)"
    "entry (pathListElements server ! k) = (joined [bytes_of ''tasks'', [WILDCARD]], 0)"
    by (rule managing_elements [OF assms(1)])
  let ?pats = "\<lambda>x. if x = i then [bytes_of ''tasks'', [WILDCARD], bytes_of ''data'', [WILDCARD]]
    else if x = j then [bytes_of ''tasks'', [WILDCARD], bytes_of ''state''] else [bytes_of ''tasks'', [WILDCARD]]"
  have ok: "segment_ok (bytes_of ''tasks'')" "segment_ok (bytes_of ''data'')" "segment_ok (bytes_of ''state'')" "segment_ok [WILDCARD]"
    by (simp_all add: segment_ok_def plain_def bytes_of_def)
  have "bytes_of ''tasks'' \<noteq> [WILDCARD]" "bytes_of ''data'' \<noteq> [WILDCARD]" "bytes_of ''state'' \<noteq> [WILDCARD]" by (simp_all add: bytes_of_def)
  then have "map_option (\<lambda>x. pHandler (pe_value (pathListElements server ! x))) (find (\<lambda>i. list_all2 segment_fits (?pats i) ts) used) = api_route ts"
    using u by (cases ts rule: api_route.cases) (auto simp: segment_fits_def entry_def)
  moreover have "answer (api_handler mc) (pathListElements server) target m (joined ts) (format_of fmt) payload (Some os) = (response, body, Some os')"
    if "map_option (\<lambda>x. pHandler (pe_value (pathListElements server ! x))) target = api_route ts" for target
    using assms(2) by (cases target) (auto simp: answer_def api_answer_def api_handler_def that [symmetric])
  moreover have "\<forall>x \<in> set used. pattern (pe_value (pathListElements server ! x)) = joined (?pats x) \<and> list_all segment_ok (?pats x)"
    using u ok by (auto simp: entry_def)
  ultimately show ?thesis using that [of ?pats] by blast
qed

lemma whole_answer: "api_answer mc m (whole_segments ts) fmt payload os = api_answer mc m ts fmt payload os"
  by (cases ts) (simp_all add: whole_segments_def api_answer_def)

lemma request_served:
  assumes man: "managing used server" and raw: "length rawPath = 101"
    and req: "length tok \<le> 8" "list_all plain ts" "length (joined ts) \<le> 100"
    and room: "currentlyWrittenToWriteBufferDataLen (fst (attemptWriteBufferSwap server)) + 31 + RESPONSE_BUFFER_SIZE \<le> WRITE_BUFFER_SIZE"
    and ans: "api_answer mc m ts fmt payload os = Some ((response, body), os')"
  shows "\<exists>final calls. handlePacketFromReceiveBuffer (api_handler mc) rawPath srcIP srcPort
      (coap_packet confirmable m idLower idUpper tok ts fmt payload) server (Some os) = Some (final, calls, Some os') \<and> managing used final \<and>
    (let server1 = fst (attemptWriteBufferSwap server); n = 1 - currentlySendingWritebuffer server1;
         base = currentlyWrittenToWriteBufferDataLen server1
     in take base (writeBuffers final ! n) = take base (writeBuffers server ! n) \<and>
        at_offset (writeBuffers final ! n) base (response_bytes srcIP srcPort
          (encoded_request confirmable m idLower idUpper tok) response body))"
proof -
  let ?p = "coap_packet confirmable m idLower idUpper tok ts fmt payload"
  have ok: "server_ok used server" using man by (simp add: managing_def)
  obtain pats where pats: "\<forall>i \<in> set used. pattern (pe_value (pathListElements server ! i)) = joined (pats i) \<and> list_all segment_ok (pats i)"
    "answer (api_handler mc) (pathListElements server) (find (\<lambda>i. list_all2 segment_fits (pats i) (whole_segments ts)) used) m
      (joined (whole_segments ts)) (format_of fmt) payload (Some os) = (response, body, Some os')"
    by (rule api_routing [OF man, of mc m "whole_segments ts" fmt payload os]) (use ans in \<open>auto simp: whole_answer\<close>)
  have size: "responseSize response = length body \<and> length body \<le> RESPONSE_BUFFER_SIZE"
  proof (cases "api_route ts")
    case None
    then show ?thesis using ans by (auto simp: api_answer_def not_found_response_def)
  next
    case (Some h)
    then show ?thesis using ans api_call_fits [of mc h m "joined ts" "format_of fmt" payload os] by (simp add: api_answer_def fits_buffer_def)
  qed
  then have checked: "checked_response response = response" "responseSize response \<le> length body" by (simp_all add: checked_response_def)
  obtain final calls k' where safe: "handlePacketFromReceiveBuffer (api_handler mc) rawPath srcIP srcPort ?p server (Some os) = Some (final, calls, k')"
    "server_ok used final" "same_elements (pathListElements server) (pathListElements final)"
    using request_safe [OF ok api_handler_ok [of mc] raw, of ?p srcIP srcPort "Some os"] req by (auto simp: segments_encoded)
  from request_answered [OF ok api_handler_ok raw pats(1) req room pats(2) checked(2), of srcIP srcPort confirmable idLower idUpper] safe(1)
    managing_kept [OF man safe(2,3)] show ?thesis unfolding checked(1) by (intro exI [of _ final] exI [of _ calls]) (simp add: Let_def)
qed

lemma joined_task_path:
  "joined [bytes_of ''tasks'', decimal n] = task_path n []"
  "joined [bytes_of ''tasks'', decimal n, bytes_of ''state''] = task_path n ''/state''"
  "joined [bytes_of ''tasks'', decimal n, bytes_of ''data'', decimal a] = data_path n a"
  by (simp_all add: joined_def task_path_def data_path_def bytes_of_def)

text \<open>C9. The management task serves its interface: after the set-up the server holds the three paths, and from then on a request for
  a path of at most 100 characters, as a client encodes it, is answered by the handler of exactly that path (\<open>/tasks/n\<close>,
  \<open>/tasks/n/state\<close>, \<open>/tasks/n/data/a\<close>), by 4.05 for a method the handler does not have and by 4.04 for every other
  path; the response stands behind the responses already in the send buffer, the tasks are those the handler leaves, and the
  server still holds the three paths.\<close>

theorem management_serves:
  assumes raw: "\<forall>i < MAX_NUM_COAP_PATHS. length (cp_path (pe_value (pathListElements raw ! i))) = MAX_COAP_PATH_SIZE"
      "length (writeBuffers raw) = 2" "\<forall>b \<in> set (writeBuffers raw). length b = WRITE_BUFFER_SIZE"
    and req: "length rawPath = 101" "length tok \<le> 8" "list_all plain ts" "length (joined ts) \<le> 100"
    and ans: "api_answer mc m ts fmt payload os = Some ((response, body), os')"
  shows "\<exists>server0 used. osManagementTask_setup sid raw rawTasks = Some (server0, TaskManager_new rawTasks) \<and> managing used server0 \<and>
    (\<forall>server. managing used server \<and>
      currentlyWrittenToWriteBufferDataLen (fst (attemptWriteBufferSwap server)) + 31 + RESPONSE_BUFFER_SIZE \<le> WRITE_BUFFER_SIZE \<longrightarrow>
      (\<exists>final calls. handlePacketFromReceiveBuffer (api_handler mc) rawPath srcIP srcPort
          (coap_packet confirmable m idLower idUpper tok ts fmt payload) server (Some os) = Some (final, calls, Some os') \<and> managing used final \<and>
        (let server1 = fst (attemptWriteBufferSwap server); n = 1 - currentlySendingWritebuffer server1;
             base = currentlyWrittenToWriteBufferDataLen server1
         in take base (writeBuffers final ! n) = take base (writeBuffers server ! n) \<and>
            at_offset (writeBuffers final ! n) base (response_bytes srcIP srcPort
              (encoded_request confirmable m idLower idUpper tok) response body))))"
  using setup_manages [OF raw, of sid rawTasks] request_served [OF _ req _ ans] by blast

text \<open>\<open>GET /tasks/12/state\<close> before any task exists.\<close>

theorem management_serves_witness:
  "\<forall>mc k task. \<exists>server final calls. osManagementTask_setup 0 raw_server (replicate 100 task) = Some (server, TaskManager_new (replicate 100 task)) \<and>
    handlePacketFromReceiveBuffer (api_handler mc) (replicate 101 0) 1 2
      (coap_packet True GET 3 4 [5] [bytes_of ''tasks'', decimal 12, bytes_of ''state''] None []) server
      (Some \<lparr>os_manager = TaskManager_new (replicate 100 task), os_kernel = k\<rparr>) =
      Some (final, calls, Some \<lparr>os_manager = TaskManager_new (replicate 100 task), os_kernel = k\<rparr>) \<and>
    at_offset (writeBuffers final ! 0) 0 (response_bytes 1 2 (encoded_request True GET 3 4 [5])
      \<lparr>responseCode = NOT_FOUND_RESPONSE_CODE, responseSize = 0, contentFormat = Text_Plain_Charset_UTF8\<rparr> [])"
proof (intro allI)
  fix mc k and task :: Task
  let ?os = "\<lparr>os_manager = TaskManager_new (replicate 100 task), os_kernel = k\<rparr>" and ?ts = "[bytes_of ''tasks'', decimal 12, bytes_of ''state'']"
  let ?r = "\<lparr>responseCode = NOT_FOUND_RESPONSE_CODE, responseSize = 0, contentFormat = Text_Plain_Charset_UTF8\<rparr>"
  have raw: "\<forall>i < MAX_NUM_COAP_PATHS. length (cp_path (pe_value (pathListElements raw_server ! i))) = MAX_COAP_PATH_SIZE"
    "length (writeBuffers raw_server) = 2" "\<forall>b \<in> set (writeBuffers raw_server). length b = WRITE_BUFFER_SIZE" by (simp_all add: raw_server_def)
  have "os_ok [] [0..<TASK_MANAGER_MAX_TASKS] ?os" unfolding os_ok_def os_state.simps by (rule new_manager) simp
  from get_state_refines [OF this, of 12] have "state_handleGET (joined ?ts) ?os = Some (text_reply NOT_FOUND_RESPONSE_CODE [], ?os)"
    unfolding joined_task_path by (simp add: os_table_def table_def state_reply_def)
  then have "state_handleGET (joined ?ts) ?os = Some ((?r, []), ?os)" by (simp add: text_reply_def bytes_of_def [of "[]"])
  then have ans: "api_answer mc GET ?ts None [] ?os = Some ((?r, []), ?os)" by (simp add: api_answer_def api_call_def)
  have dec: "decimal 12 = [0x31, 0x32]" by (simp add: decimal_def digits.simps digit_def)
  have req: "length (replicate 101 (0 :: u8)) = 101" "length [5 :: u8] \<le> 8" "list_all plain ?ts" "length (joined ?ts) \<le> 100"
    by (simp_all add: dec plain_def bytes_of_def joined_def)
  from management_serves [OF raw req ans, of 0 "replicate 100 task" 1 2 True 3 4, unfolded Let_def] obtain server used where
    s: "osManagementTask_setup 0 raw_server (replicate 100 task) = Some (server, TaskManager_new (replicate 100 task))" "managing used server"
    and run: "currentlyWrittenToWriteBufferDataLen (fst (attemptWriteBufferSwap server)) + 31 + RESPONSE_BUFFER_SIZE \<le> WRITE_BUFFER_SIZE \<Longrightarrow>
      \<exists>final calls. handlePacketFromReceiveBuffer (api_handler mc) (replicate 101 0) 1 2 (coap_packet True GET 3 4 [5] ?ts None []) server (Some ?os) =
        Some (final, calls, Some ?os) \<and>
      at_offset (writeBuffers final ! (1 - currentlySendingWritebuffer (fst (attemptWriteBufferSwap server))))
        (currentlyWrittenToWriteBufferDataLen (fst (attemptWriteBufferSwap server))) (response_bytes 1 2 (encoded_request True GET 3 4 [5]) ?r [])"
    by blast
  from fresh_server [OF s(1)] have "attemptWriteBufferSwap server = (server, [])" "currentlyWrittenToWriteBufferDataLen server = 0"
    "currentlySendingWritebuffer server = 1" by (simp_all add: attemptWriteBufferSwap_def)
  with s(1) run show "\<exists>server final calls. osManagementTask_setup 0 raw_server (replicate 100 task) = Some (server, TaskManager_new (replicate 100 task)) \<and>
    handlePacketFromReceiveBuffer (api_handler mc) (replicate 101 0) 1 2 (coap_packet True GET 3 4 [5] ?ts None []) server (Some ?os) =
      Some (final, calls, Some ?os) \<and>
    at_offset (writeBuffers final ! 0) 0 (response_bytes 1 2 (encoded_request True GET 3 4 [5]) ?r [])" by auto
qed

end
