(* ===== verification/Memory_Manager.thy ===== *)
theory Memory_Manager
  imports Cpp_Lib Interrupts
begin

text \<open>
  \<open>cpp_lib/memory_manager.cpp\<close>: the allocator of the kernel tasks. The free blocks form a list through the memory they manage: a block
  starts with its size and the address of the next free block. Functions take the memory and the head of the list
  (0 is \<open>nullptr\<close>) and return both; a loop that does not end gives \<open>None\<close>.
\<close>

definition block_size :: "memory \<Rightarrow> u32 \<Rightarrow> u32" where
  "block_size m b = load_dword m b"

definition block_next :: "memory \<Rightarrow> u32 \<Rightarrow> u32" where
  "block_next m b = load_dword m (b + 4)"

definition set_size :: "memory \<Rightarrow> u32 \<Rightarrow> u32 \<Rightarrow> memory" where
  "set_size m b v = store_dword m b v"

definition set_next :: "memory \<Rightarrow> u32 \<Rightarrow> u32 \<Rightarrow> memory" where
  "set_next m b v = store_dword m (b + 4) v"

subsection \<open>The list\<close>

text \<open>The block behind which \<open>new\<close> belongs.\<close>

partial_function (option) find_block :: "memory \<Rightarrow> u32 \<Rightarrow> u32 \<Rightarrow> u32 \<Rightarrow> u32 option" where
  "find_block m new current previous =
     (if current = 0 then Some previous
      else if current > new then Some previous
      else find_block m new (block_next m current) current)"

definition insert_block :: "memory \<Rightarrow> u32 \<Rightarrow> u32 \<Rightarrow> (memory \<times> u32) option" where
  "insert_block m freeList new = do {
     previous \<leftarrow> find_block m new freeList 0;
     Some (if previous = 0 then (set_next m new freeList, new)
           else (set_next (set_next m new (block_next m previous)) previous new, freeList)) }"

partial_function (option) mergeFreeBlocks :: "memory \<Rightarrow> u32 \<Rightarrow> memory option" where
  "mergeFreeBlocks m current =
     (if current = 0 then Some m
      else
        let next = block_next m current in
        if next = 0 then Some m
        else if current + 8 + block_size m current = next then
          let m = set_size m current (block_size m current + (8 + block_size m next));
              m = set_next m current (block_next m next)
          in mergeFreeBlocks m current
        else mergeFreeBlocks m next)"

subsection \<open>The operations\<close>

definition addContiguousMemoryRegion :: "u32 \<Rightarrow> u32 \<Rightarrow> memory \<Rightarrow> u32 \<Rightarrow> (memory \<times> u32) option" where
  "addContiguousMemoryRegion region regionSize m freeList =
     (if region mod 4 \<noteq> 0 \<or> regionSize mod 4 \<noteq> 0 then Some (m, freeList)
      else if regionSize \<le> 8 then Some (m, freeList)
      else do {
        (m, freeList) \<leftarrow> insert_block (set_size m region (regionSize - 8)) freeList region;
        m \<leftarrow> mergeFreeBlocks m freeList;
        Some (m, freeList) })"

definition aligned_address :: "u32 \<Rightarrow> u32 \<Rightarrow> u32" where
  "aligned_address alignment a = (a + alignment - 1) AND NOT (alignment - 1)"

text \<open>The block \<open>current\<close> is taken, all of it or up to a new header behind the allocated bytes.\<close>

definition take_block :: "u32 \<Rightarrow> memory \<Rightarrow> u32 \<Rightarrow> u32 \<Rightarrow> u32 \<Rightarrow> u32 \<Rightarrow> u32 \<times> memory \<times> u32" where
  "take_block numBytes m freeList current previous aligned =
     (let addr = current + 8;
          nextHeader = (aligned + numBytes + 3) AND 0xFFFFFFFC;
          (m, freeList) =
            (if nextHeader + 8 - addr < block_size m current then
               let m = set_size m nextHeader (block_size m current - (nextHeader + 8 - addr));
                   m = set_next m nextHeader (block_next m current);
                   (m, freeList) = (if previous = 0 then (m, nextHeader) else (set_next m previous nextHeader, freeList))
               in (set_size m current (nextHeader - addr), freeList)
             else if previous = 0 then (m, block_next m current)
             else (set_next m previous (block_next m current), freeList));
          m = set_next m current 0
      in (aligned, if addr < aligned then store_bytes m addr (replicate (unat (aligned - addr)) 0) else m, freeList))"

partial_function (option) allocate_loop :: "u32 \<Rightarrow> u32 \<Rightarrow> memory \<Rightarrow> u32 \<Rightarrow> u32 \<Rightarrow> u32 \<Rightarrow> (u32 \<times> memory \<times> u32) option" where
  "allocate_loop alignment numBytes m freeList current previous =
     (if current = 0 then Some (0, m, freeList)
      else
        let addr = current + 8;
            aligned = aligned_address alignment addr;
            alignedSize = block_size m current - (aligned - addr)
        in if alignedSize \<ge> numBytes then Some (take_block numBytes m freeList current previous aligned)
           else allocate_loop alignment numBytes m freeList (block_next m current) current)"

definition allocate :: "u32 \<Rightarrow> u32 \<Rightarrow> memory \<Rightarrow> u32 \<Rightarrow> (u32 \<times> memory \<times> u32) option" where
  "allocate alignment numBytes m freeList =
     (if numBytes = 0 then Some (0, m, freeList)
      else if alignment AND (alignment - 1) \<noteq> 0 \<or> alignment = 0 then Some (0, m, freeList)
      else allocate_loop alignment numBytes m freeList freeList 0)"

text \<open>The header of an allocated block: the search for its last byte that is not zero.\<close>

partial_function (option) header_before :: "memory \<Rightarrow> u32 \<Rightarrow> u32 option" where
  "header_before m p = (if m p = 0 then header_before m (p - 1) else Some (p AND 0xFFFFFFFC))"

definition free_memory :: "u32 \<Rightarrow> memory \<Rightarrow> u32 \<Rightarrow> (memory \<times> u32) option" where
  "free_memory p m freeList =
     (if p = 0 then Some (m, freeList)
      else do {
        header \<leftarrow> header_before m (p - 1);
        (m, freeList) \<leftarrow> insert_block m freeList header;
        m \<leftarrow> mergeFreeBlocks m freeList;
        Some (m, freeList) })"

end
