(* ===== verification/Heap_Lists.thy ===== *)
theory Heap_Lists
  imports Memory_Manager
begin

text \<open>
  The list of free blocks as a list of pairs of an address and a size, ordered by address.
\<close>

subsection \<open>Aligned words\<close>

lemma and_not_mask: "(w :: u32) AND NOT (mask k) = w - take_bit k w"
proof -
  have "w = (w AND NOT (mask k)) + (w AND mask k)"
    by (subst disjunctive_add_eq_or) (auto simp: bit_eq_iff bit_simps)
  then show ?thesis by (metis add_diff_cancel_right' take_bit_eq_mask)
qed

lemma unat_and_not_mask: "unat ((w :: u32) AND NOT (mask k)) = unat w - unat w mod 2 ^ k"
proof -
  have t: "unat (take_bit k w) = unat w mod 2 ^ k" by (simp only: unsigned_take_bit_eq take_bit_eq_mod [of k "unat w"])
  have "take_bit k w \<le> w" unfolding word_le_nat_alt t by simp
  then show ?thesis unfolding and_not_mask by (simp add: unat_sub_no_wrap t word_le_nat_alt)
qed

lemma unat_round_down: "unat ((w :: u32) AND 0xFFFFFFFC) = unat w - unat w mod 4"
proof -
  have "(0xFFFFFFFC :: u32) = NOT (mask 2)" by (simp add: mask_eq_exp_minus_1)
  then show ?thesis using unat_and_not_mask [of w 2] by simp
qed

definition padding :: "nat \<Rightarrow> nat \<Rightarrow> nat" where
  "padding k n = (2 ^ k - n mod 2 ^ k) mod 2 ^ k"

lemma padding_facts: "2 ^ k dvd n + padding k n" "padding k n < 2 ^ k"
proof -
  have "n mod 2 ^ k < 2 ^ k" by simp
  then have r: "n mod 2 ^ k + (2 ^ k - n mod 2 ^ k) = 2 ^ k" by linarith
  have "(n + padding k n) mod 2 ^ k = (n mod 2 ^ k + (2 ^ k - n mod 2 ^ k)) mod 2 ^ k"
    unfolding padding_def by (simp only: mod_add_left_eq mod_add_right_eq)
  then show "2 ^ k dvd n + padding k n" unfolding r by (simp add: dvd_eq_mod_eq_0)
qed (simp add: padding_def)

lemma unat_mask_u32:
  assumes "k < 32"
  shows "unat (mask k :: u32) = 2 ^ k - 1"
proof -
  have "(2 :: nat) ^ k \<le> 2 ^ 32" by (rule power_increasing) (use assms in simp_all)
  then have "unat (of_nat (2 ^ k - 1) :: u32) = 2 ^ k - 1" by (intro unat_of_nat_u32) simp
  moreover have "(of_nat (mask k) :: u32) = mask k" by (rule of_nat_mask_eq)
  ultimately show ?thesis by (simp add: mask_eq_exp_minus_1)
qed

lemma aligned_address_spec:
  assumes k: "k < 32" and fits: "unat a + padding k (unat a) < 4294967296"
  shows "unat (aligned_address (2 ^ k) a) = unat a + padding k (unat a)"
proof -
  let ?n = "unat a" and ?p = "padding k (unat a)"
  have m: "(2 ^ k - 1 :: u32) = mask k" by (simp add: mask_eq_exp_minus_1)
  obtain q where q: "?n + ?p = 2 ^ k * q" using padding_facts(1) [of k ?n] by (auto simp: dvd_def)
  have split: "(4294967296 :: nat) = 2 ^ k * 2 ^ (32 - k)" using k by (simp flip: power_add)
  have "q < 2 ^ (32 - k)" using fits unfolding q split by simp
  then have "2 ^ k * Suc q \<le> 2 ^ k * 2 ^ (32 - k)" by (simp del: mult_Suc_right)
  then have room: "?n + ?p + 2 ^ k \<le> 4294967296" unfolding q split by simp
  have one: "(1 :: nat) \<le> 2 ^ k" by simp
  have um: "unat (mask k :: u32) = 2 ^ k - 1" by (rule unat_mask_u32 [OF k])
  have e: "a + 2 ^ k - 1 = a + mask k" using m by (simp add: algebra_simps)
  have "unat (a + 2 ^ k - 1) = ?n + (2 ^ k - 1)" unfolding e using room one unat_add_no_wrap [of a "mask k"] by (simp add: um)
  moreover have "(?n + (2 ^ k - 1)) - (?n + (2 ^ k - 1)) mod 2 ^ k = ?n + ?p"
  proof -
    have "?n + (2 ^ k - 1) = 2 ^ k * q + (2 ^ k - 1 - ?p)" using q padding_facts(2) [of k ?n] by simp
    then show ?thesis using q by simp
  qed
  ultimately show ?thesis unfolding aligned_address_def m unat_and_not_mask by simp
qed

subsection \<open>Headers\<close>

definition header_ok :: "u32 \<Rightarrow> bool" where
  "header_ok a \<longleftrightarrow> a \<noteq> 0 \<and> 4 dvd unat a \<and> unat a + 8 < 4294967296"

definition hd_apart :: "u32 \<Rightarrow> u32 \<Rightarrow> bool" where
  "hd_apart a b \<longleftrightarrow> header_ok a \<and> header_ok b \<and> (unat a + 8 \<le> unat b \<or> unat b + 8 \<le> unat a)"

lemma store_dword_outside:
  assumes "unat x < unat a \<or> unat a + 4 \<le> unat x" "unat a + 4 \<le> 4294967296"
  shows "store_dword m a v x = m x"
  unfolding store_dword_def
proof (rule store_bytes_outside)
  show "length (le32 v) \<le> unat (x - a)"
    using assms unat_u32_lt [of x] unat_sub_if' [of x a] by (auto simp: word_le_nat_alt)
qed

lemma load_dword_cong: "(\<And>k. k < 4 \<Longrightarrow> m' (b + of_nat k) = m (b + of_nat k)) \<Longrightarrow> load_dword m' b = load_dword m b"
  unfolding load_dword_def
proof -
  assume "\<And>k. k < 4 \<Longrightarrow> m' (b + of_nat k) = m (b + of_nat k)"
  from this [of 0] this [of 1] this [of 2] this [of 3]
  show "u32_be (m' (b + 3)) (m' (b + 2)) (m' (b + 1)) (m' b) = u32_be (m (b + 3)) (m (b + 2)) (m (b + 1)) (m b)" by simp
qed

lemma dword_same: "load_dword (store_dword m a v) a = v"
  unfolding load_dword_def store_dword_def by (rule stored_le32 [OF stored_store]) simp

lemma dword_other:
  assumes "unat a + 4 \<le> unat b \<or> unat b + 4 \<le> unat a" "unat a + 4 \<le> 4294967296" "unat b + 4 \<le> 4294967296"
  shows "load_dword (store_dword m a v) b = load_dword m b"
proof (rule load_dword_cong)
  fix k :: nat assume k: "k < 4"
  then have "unat (b + of_nat k) = unat b + k" using assms(3) unat_add_no_wrap [of b "of_nat k"] by (simp add: unat_of_nat_u32)
  then show "store_dword m a v (b + of_nat k) = m (b + of_nat k)" using assms k by (intro store_dword_outside) auto
qed

lemma next_address: "header_ok a \<Longrightarrow> unat (a + 4) = unat a + 4"
  by (simp add: header_ok_def unat_add_no_wrap)

named_theorems header_simps

lemma header_own [header_simps]:
  "header_ok a \<Longrightarrow> block_size (set_size m a v) a = v"
  "header_ok a \<Longrightarrow> block_next (set_size m a v) a = block_next m a"
  "header_ok a \<Longrightarrow> block_size (set_next m a v) a = block_size m a"
  "header_ok a \<Longrightarrow> block_next (set_next m a v) a = v"
  using next_address [of a] unfolding block_size_def block_next_def set_size_def set_next_def
  by (auto simp: dword_same header_ok_def intro!: dword_other)

lemma header_other [header_simps]:
  assumes "hd_apart a b"
  shows "block_size (set_size m a v) b = block_size m b" "block_next (set_size m a v) b = block_next m b"
    "block_size (set_next m a v) b = block_size m b" "block_next (set_next m a v) b = block_next m b"
proof -
  have "unat (a + 4) = unat a + 4" "unat (b + 4) = unat b + 4" using assms next_address by (auto simp: hd_apart_def)
  then show "block_size (set_size m a v) b = block_size m b" "block_next (set_size m a v) b = block_next m b"
    "block_size (set_next m a v) b = block_size m b" "block_next (set_next m a v) b = block_next m b"
    using assms unfolding block_size_def block_next_def set_size_def set_next_def hd_apart_def header_ok_def
    by (auto intro!: dword_other)
qed

text \<open>What a store into a header leaves alone.\<close>

definition in_header :: "u32 \<Rightarrow> u32 \<Rightarrow> bool" where
  "in_header a x \<longleftrightarrow> unat a \<le> unat x \<and> unat x < unat a + 8"

lemma header_frame:
  assumes "header_ok a" "\<not> in_header a x"
  shows "set_size m a v x = m x" "set_next m a v x = m x"
  using assms next_address [OF assms(1)] unfolding set_size_def set_next_def in_header_def header_ok_def
  by (auto intro!: store_dword_outside)

subsection \<open>The list in memory\<close>

type_synonym block = "u32 \<times> u32"

definition lo :: "block \<Rightarrow> nat" where "lo b = unat (fst b)"

definition hi :: "block \<Rightarrow> nat" where "hi b = unat (fst b) + 8 + unat (snd b)"

definition block_ok :: "block \<Rightarrow> bool" where
  "block_ok b \<longleftrightarrow> header_ok (fst b) \<and> 4 dvd unat (snd b) \<and> snd b \<noteq> 0 \<and> hi b < 4294967296"

definition blocks_ok :: "block list \<Rightarrow> bool" where
  "blocks_ok bs \<longleftrightarrow> (\<forall>b \<in> set bs. block_ok b) \<and> sorted_wrt (\<lambda>b c. hi b \<le> lo c) bs"

definition separated :: "block list \<Rightarrow> bool" where
  "separated bs \<longleftrightarrow> sorted_wrt (\<lambda>b c. hi b < lo c) bs"

fun chain :: "memory \<Rightarrow> u32 \<Rightarrow> block list \<Rightarrow> u32 \<Rightarrow> bool" where
  "chain m p [] q \<longleftrightarrow> p = q"
| "chain m p ((a, s) # bs) q \<longleftrightarrow> p = a \<and> block_size m a = s \<and> chain m (block_next m a) bs q"

definition same_outside :: "block list \<Rightarrow> memory \<Rightarrow> memory \<Rightarrow> bool" where
  "same_outside bs m m' \<longleftrightarrow> (\<forall>x. (\<forall>b \<in> set bs. \<not> in_header (fst b) x) \<longrightarrow> m' x = m x)"

lemma block_okD: "block_ok (a, s) \<Longrightarrow> header_ok a" "block_ok (a, s) \<Longrightarrow> a \<noteq> 0"
  by (simp_all add: block_ok_def header_ok_def)

lemma blocks_ok_simps [simp]:
  "blocks_ok []"
  "blocks_ok (b # bs) \<longleftrightarrow> block_ok b \<and> (\<forall>c \<in> set bs. hi b \<le> lo c) \<and> blocks_ok bs"
  "blocks_ok (xs @ ys) \<longleftrightarrow> blocks_ok xs \<and> blocks_ok ys \<and> (\<forall>b \<in> set xs. \<forall>c \<in> set ys. hi b \<le> lo c)"
  by (auto simp: blocks_ok_def sorted_wrt_append)

lemma blocks_ok_member: "blocks_ok bs \<Longrightarrow> b \<in> set bs \<Longrightarrow> block_ok b"
  by (simp add: blocks_ok_def)

lemma separated_simps [simp]:
  "separated []"
  "separated (b # bs) \<longleftrightarrow> (\<forall>c \<in> set bs. hi b < lo c) \<and> separated bs"
  "separated (xs @ ys) \<longleftrightarrow> separated xs \<and> separated ys \<and> (\<forall>b \<in> set xs. \<forall>c \<in> set ys. hi b < lo c)"
  by (auto simp: separated_def sorted_wrt_append)

lemma blocks_apart:
  assumes "block_ok b" "block_ok c" "hi b \<le> lo c"
  shows "hd_apart (fst b) (fst c)" "hd_apart (fst c) (fst b)" "fst b < fst c"
  using assms by (auto simp: block_ok_def hd_apart_def hi_def lo_def word_less_nat_alt)

lemma chain_append: "chain m p (xs @ ys) q \<longleftrightarrow> (\<exists>r. chain m p xs r \<and> chain m r ys q)"
  by (induction xs arbitrary: p) auto

lemma chain_cong:
  "(\<And>b. b \<in> set bs \<Longrightarrow> block_size m' (fst b) = block_size m (fst b) \<and> block_next m' (fst b) = block_next m (fst b)) \<Longrightarrow>
    chain m' p bs q \<longleftrightarrow> chain m p bs q"
proof (induction bs arbitrary: p)
  case (Cons b bs)
  then show ?case using Cons.prems [of b] by (cases b) simp
qed simp

lemma chain_set_next:
  assumes "chain m p (xs @ [(a, s)]) q" "\<forall>b \<in> set xs. hd_apart a (fst b)" "header_ok a"
  shows "chain (set_next m a r) p (xs @ [(a, s)]) r"
proof -
  obtain t where t: "chain m p xs t" "t = a" "block_size m a = s" using assms(1) by (auto simp: chain_append)
  have "chain (set_next m a r) p xs t" using t(1) assms(2) chain_cong [of xs "set_next m a r" m p t] by (simp add: header_simps)
  then show ?thesis using t assms(3) by (auto simp: chain_append header_simps)
qed

lemma header_cong:
  assumes "header_ok a" "\<And>x. in_header a x \<Longrightarrow> m' x = m x"
  shows "block_size m' a = block_size m a" "block_next m' a = block_next m a"
proof -
  have "m' (a + of_nat k) = m (a + of_nat k)" if "k < 8" for k
    using assms(1) that unat_add_no_wrap [of a "of_nat k"] by (intro assms(2)) (simp add: header_ok_def in_header_def unat_of_nat_u32)
  note same = this
  show "block_size m' a = block_size m a" unfolding block_size_def by (rule load_dword_cong) (simp add: same)
  show "block_next m' a = block_next m a" unfolding block_next_def
  proof (rule load_dword_cong)
    fix k :: nat assume "k < 4"
    then show "m' (a + 4 + of_nat k) = m (a + 4 + of_nat k)" using same [of "4 + k"] by (simp add: add.assoc)
  qed
qed

lemma block_chain_frame:
  assumes "chain m p bs q" "\<forall>b \<in> set bs. header_ok (fst b)" "\<And>b x. b \<in> set bs \<Longrightarrow> in_header (fst b) x \<Longrightarrow> m' x = m x"
  shows "chain m' p bs q"
  using assms chain_cong [of bs m' m p q] header_cong [of _ m' m] by blast

lemma same_outside_refl: "same_outside bs m m"
  by (simp add: same_outside_def)

lemma same_outside_trans:
  "same_outside xs m m' \<Longrightarrow> same_outside ys m' m'' \<Longrightarrow> (\<And>b. b \<in> set xs \<union> set ys \<Longrightarrow> fst b \<in> fst ` set zs) \<Longrightarrow> same_outside zs m m''"
  unfolding same_outside_def by (metis (no_types, lifting) UnI1 UnI2 imageE)

lemma same_outside_set:
  assumes "header_ok a" "a \<in> fst ` set bs"
  shows "same_outside bs m (set_size m a v)" "same_outside bs m (set_next m a v)"
  using assms header_frame [OF assms(1)] by (auto simp: same_outside_def)

lemma relink:
  assumes "chain m freeList xs q" "chain m r zs 0" "blocks_ok (xs @ zs)"
  shows "\<exists>m' freeList'. (if xs = [] then (m, r) else (set_next m (fst (last xs)) r, freeList)) = (m', freeList') \<and>
    chain m' freeList' (xs @ zs) 0 \<and> same_outside xs m m'"
proof (cases xs rule: rev_cases)
  case (snoc ys b)
  obtain c t where b: "b = (c, t)" by (cases b)
  have ok: "block_ok (c, t)" "blocks_ok ys" "blocks_ok zs" "\<forall>d \<in> set ys. hi d \<le> lo (c, t)" "\<forall>d \<in> set zs. hi (c, t) \<le> lo d"
    using assms(3) snoc b by auto
  have ap: "\<forall>d \<in> set ys. hd_apart c (fst d)" "\<forall>d \<in> set zs. hd_apart c (fst d)"
    using ok blocks_apart(2) [of _ "(c, t)"] blocks_apart(1) [of "(c, t)"] blocks_ok_member by fastforce+
  have "chain (set_next m c r) freeList xs r" using chain_set_next [OF assms(1) [unfolded snoc b] ap(1)] block_okD(1) [OF ok(1)] snoc b by simp
  moreover have "chain (set_next m c r) r zs 0" using assms(2) ap(2) chain_cong [of zs "set_next m c r" m r 0] by (simp add: header_simps)
  ultimately show ?thesis using snoc b same_outside_set(2) [OF block_okD(1) [OF ok(1)], of xs] by (auto simp: chain_append)
qed (use assms in \<open>simp add: same_outside_refl\<close>)

subsection \<open>Insertion\<close>

lemma find_block_spec:
  assumes "chain m current xs r" "chain m r ys 0" "\<forall>b \<in> set xs. fst b \<noteq> 0 \<and> fst b \<le> a" "\<forall>b \<in> set ys. a < fst b"
  shows "find_block m a current previous = Some (if xs = [] then previous else fst (last xs))"
  using assms
proof (induction xs arbitrary: current previous)
  case Nil
  then show ?case by (subst find_block.simps) (cases ys; auto)
next
  case (Cons b xs)
  obtain c s where b: "b = (c, s)" by (cases b)
  have "find_block m a current previous = find_block m a (block_next m c) c"
    using Cons.prems(1,3) b by (subst find_block.simps) (auto simp: not_less [symmetric])
  with Cons.IH [of "block_next m c" c] Cons.prems b show ?case by auto
qed

lemma insert_block_spec:
  assumes ch: "chain m freeList (xs @ ys) 0" and ok: "blocks_ok (xs @ (a, s) # ys)" and size: "block_size m a = s"
  shows "\<exists>m' freeList'. insert_block m freeList a = Some (m', freeList') \<and> chain m' freeList' (xs @ (a, s) # ys) 0 \<and>
    same_outside (xs @ (a, s) # ys) m m'"
proof -
  obtain r where r: "chain m freeList xs r" "chain m r ys 0" using ch by (auto simp: chain_append)
  have a: "header_ok a" "a \<noteq> 0" using ok by (auto simp: block_ok_def header_ok_def)
  have xs: "hd_apart a (fst b)" "fst b < a" "fst b \<noteq> 0" "header_ok (fst b)" if "b \<in> set xs" for b
    using blocks_apart [of b "(a, s)"] ok that blocks_ok_member [OF _ that] by (auto simp: block_ok_def header_ok_def)
  have ys: "hd_apart a (fst b)" "a < fst b" "header_ok (fst b)" if "b \<in> set ys" for b
    using blocks_apart [of "(a, s)" b] ok that blocks_ok_member [OF _ that] by (auto simp: block_ok_def)
  have find: "find_block m a freeList 0 = Some (if xs = [] then 0 else fst (last xs))"
    by (rule find_block_spec [OF r]) (use xs ys in \<open>auto simp: less_imp_le\<close>)
  let ?m1 = "set_next m a r"
  have "chain ?m1 freeList xs r" "chain ?m1 r ys 0" "block_size ?m1 a = s" "block_next ?m1 a = r"
    using r xs ys a size chain_cong [of xs ?m1 m] chain_cong [of ys ?m1 m] by (simp_all add: header_simps)
  then obtain m' freeList' where m': "(if xs = [] then (?m1, a) else (set_next ?m1 (fst (last xs)) a, freeList)) = (m', freeList')"
    "chain m' freeList' (xs @ (a, s) # ys) 0" "same_outside xs ?m1 m'" using relink [of ?m1 freeList xs r a "(a, s) # ys"] ok by auto
  have last: "xs \<noteq> [] \<Longrightarrow> fst (last xs) \<noteq> 0 \<and> block_next m (fst (last xs)) = r"
    using r(1) xs(3) [of "last xs"] by (cases xs rule: rev_cases) (auto simp: chain_append)
  have "same_outside (xs @ (a, s) # ys) m m'"
    by (rule same_outside_trans [OF same_outside_set(2) [OF a(1), of "[(a, s)]"] m'(3)]) (auto simp: image_iff)
  moreover have "insert_block m freeList a = Some (m', freeList')"
    using find r(1) m'(1) last by (cases "xs = []") (auto simp: insert_block_def)
  ultimately show ?thesis using m'(2) by blast
qed

subsection \<open>Merging\<close>

fun merged :: "block list \<Rightarrow> block list" where
  "merged [] = []"
| "merged [b] = [b]"
| "merged ((a, s) # (b, t) # bs) = (if a + 8 + s = b then merged ((a, s + 8 + t) # bs) else (a, s) # merged ((b, t) # bs))"

definition covered :: "block list \<Rightarrow> nat set" where
  "covered bs = (\<Union>b \<in> set bs. {lo b..<hi b})"

lemma covered_Cons: "covered (b # bs) = {lo b..<hi b} \<union> covered bs" "covered (xs @ ys) = covered xs \<union> covered ys" "covered [] = {}"
  by (auto simp: covered_def)

lemma touching:
  assumes "block_ok (a, s)"
  shows "a + 8 + s = b \<longleftrightarrow> hi (a, s) = unat b"
proof -
  have "unat (a + 8 + s) = hi (a, s)"
    using assms unat_add_no_wrap [of a 8] unat_add_no_wrap [of "a + 8" s] by (simp add: block_ok_def hi_def)
  then show ?thesis by (auto simp: word_unat_eq_iff)
qed

lemma joined_block:
  assumes "block_ok (a, s)" "block_ok (b, t)" "hi (a, s) = unat b"
  shows "block_ok (a, s + 8 + t)" "lo (a, s + 8 + t) = lo (a, s)" "hi (a, s + 8 + t) = hi (b, t)"
proof -
  have h: "hi (b, t) = unat a + 8 + unat s + 8 + unat t" using assms(3) by (simp add: hi_def)
  have "unat s + 8 + unat t < 4294967296" using h assms(2) by (simp add: block_ok_def)
  then have u: "unat (s + 8 + t) = unat s + 8 + unat t"
    using unat_add_no_wrap [of s 8] unat_add_no_wrap [of "s + 8" t] by simp
  show "hi (a, s + 8 + t) = hi (b, t)" using h by (simp add: hi_def u)
  moreover have "4 dvd unat (s + 8 + t)" "s + 8 + t \<noteq> 0" unfolding word_unat_eq_iff u using assms(1,2) by (auto simp: block_ok_def)
  ultimately show "block_ok (a, s + 8 + t)" using assms(1,2) by (simp add: block_ok_def)
qed (simp add: lo_def)

lemma merged_facts:
  "blocks_ok bs \<Longrightarrow> blocks_ok (merged bs) \<and> separated (merged bs) \<and> covered (merged bs) = covered bs \<and> (\<forall>c \<in> set (merged bs). bs \<noteq> [] \<and> lo (hd bs) \<le> lo c) \<and>
    fst ` set (merged bs) \<subseteq> fst ` set bs"
proof (induction bs rule: merged.induct)
  case (3 a s b t bs)
  have ok: "block_ok (a, s)" "block_ok (b, t)" "hi (a, s) \<le> lo (b, t)" using 3(3) by simp_all
  show ?case
  proof (cases "a + 8 + s = b")
    case True
    then have h: "hi (a, s) = unat b" using touching [OF ok(1)] by simp
    note j = joined_block [OF ok(1,2) h]
    have "blocks_ok ((a, s + 8 + t) # bs)" using j 3(3) by simp
    note IH = 3(1) [OF True this]
    have "covered ((a, s + 8 + t) # bs) = covered ((a, s) # (b, t) # bs)"
    proof -
      have "lo (a, s) \<le> hi (a, s)" "unat b \<le> hi (b, t)" by (simp_all add: lo_def hi_def)
      then have "{lo (a, s)..<hi (b, t)} = {lo (a, s)..<hi (a, s)} \<union> {lo (b, t)..<hi (b, t)}" using h by (auto simp: lo_def [of "(b, t)"])
      then show ?thesis using j by (auto simp: covered_def)
    qed
    with IH True show ?thesis by (auto simp: lo_def)
  next
    case False
    then have "hi (a, s) < lo (b, t)" using touching [OF ok(1), of b] ok(3) by (auto simp: lo_def)
    moreover have le: "lo (a, s) \<le> hi (a, s)" by (simp add: lo_def hi_def)
    moreover have IH: "blocks_ok (merged ((b, t) # bs))" "separated (merged ((b, t) # bs))" "covered (merged ((b, t) # bs)) = covered ((b, t) # bs)"
      "\<forall>c \<in> set (merged ((b, t) # bs)). lo (b, t) \<le> lo c" "fst ` set (merged ((b, t) # bs)) \<subseteq> fst ` set ((b, t) # bs)"
      using 3(2) [OF False] 3(3) by simp_all
    ultimately have "\<forall>c \<in> set (merged ((b, t) # bs)). hi (a, s) < lo c \<and> lo (a, s) \<le> lo c" by fastforce
    with IH ok(1) False show ?thesis by (auto simp: covered_Cons less_imp_le)
  qed
qed auto

lemma same_outside_header:
  assumes "same_outside bs m m'" "\<forall>b \<in> set bs. hd_apart a (fst b)" "header_ok a"
  shows "block_size m' a = block_size m a" "block_next m' a = block_next m a"
proof -
  have "m' x = m x" if "in_header a x" for x
  proof -
    have "\<not> in_header (fst b) x" if "b \<in> set bs" for b
      using assms(2) that \<open>in_header a x\<close> by (force simp: in_header_def hd_apart_def)
    then show ?thesis using assms(1) by (simp add: same_outside_def)
  qed
  with header_cong [OF assms(3)] show "block_size m' a = block_size m a" "block_next m' a = block_next m a" by blast+
qed

lemma merge_spec:
  "chain m p bs 0 \<Longrightarrow> blocks_ok bs \<Longrightarrow> \<exists>m'. mergeFreeBlocks m p = Some m' \<and> chain m' p (merged bs) 0 \<and> same_outside bs m m'"
proof (induction bs arbitrary: m p rule: merged.induct)
  case (3 a s b t bs)
  have ok: "block_ok (a, s)" "block_ok (b, t)" "hi (a, s) \<le> lo (b, t)" using 3(4) by simp_all
  have ap: "hd_apart a b" and a: "header_ok a" "a \<noteq> 0" "b \<noteq> 0"
    using blocks_apart(1) [OF ok] block_okD ok by (auto simp del: header_ok_def)
  have c: "p = a" "block_size m a = s" "block_next m a = b" "block_size m b = t" "chain m (block_next m b) bs 0" using 3(3) by simp_all
  have rest: "\<forall>d \<in> set bs. hd_apart a (fst d)" using ok(1) 3(4) blocks_apart(1) [of "(a, s)"] blocks_ok_member [of bs] by auto
  show ?case
  proof (cases "a + 8 + s = b")
    case True
    then have h: "hi (a, s) = unat b" using touching [OF ok(1)] by simp
    let ?m1 = "set_size m a (s + (8 + t))"
    let ?m = "set_next ?m1 a (block_next m b)"
    have "chain ?m (block_next m b) bs 0" using c(5) rest chain_cong [of bs ?m m] by (simp add: header_simps)
    then have "chain ?m a ((a, s + 8 + t) # bs) 0" using a(1) by (simp add: header_simps add.assoc)
    moreover have "blocks_ok ((a, s + 8 + t) # bs)" using joined_block [OF ok(1,2) h] 3(4) by simp
    ultimately obtain m' where m': "mergeFreeBlocks ?m a = Some m'" "chain m' a (merged ((a, s + 8 + t) # bs)) 0"
      "same_outside ((a, s + 8 + t) # bs) ?m m'" using 3(1) [OF True] by blast
    have "same_outside [(a, s)] m ?m1" "same_outside [(a, s)] ?m1 ?m" using a(1) by (simp_all add: same_outside_set)
    then have "same_outside [(a, s)] m ?m" by (rule same_outside_trans) simp
    then have "same_outside ((a, s) # (b, t) # bs) m m'" by (rule same_outside_trans [OF _ m'(3)]) (auto simp: image_iff)
    moreover have "mergeFreeBlocks m p = mergeFreeBlocks ?m a"
      using c a True ap by (subst mergeFreeBlocks.simps) (simp add: Let_def header_simps)
    ultimately show ?thesis using m' True c(1) by simp
  next
    case False
    obtain m' where m': "mergeFreeBlocks m b = Some m'" "chain m' b (merged ((b, t) # bs)) 0" "same_outside ((b, t) # bs) m m'"
      using 3(2) [OF False, of m b] c 3(4) by auto
    have "block_size m' a = s" "block_next m' a = b" using same_outside_header [OF m'(3), of a] ap rest a c by auto
    moreover have "mergeFreeBlocks m p = mergeFreeBlocks m b" using c a False by (subst mergeFreeBlocks.simps) (simp add: Let_def)
    ultimately show ?thesis using m' False c(1) by (auto simp: same_outside_def)
  qed
next
  case (2 b)
  then show ?case by (cases b) (auto simp: mergeFreeBlocks.simps [of m] same_outside_refl Let_def)
qed (auto simp: mergeFreeBlocks.simps same_outside_refl)

end
