(* ===== verification/Heap_Properties.thy ===== *)
theory Heap_Properties
  imports Heap_Lists
begin

text \<open>
  The memory manager on the list of free blocks: what an allocation takes from it and what a release gives back.
\<close>

definition heap :: "memory \<Rightarrow> u32 \<Rightarrow> block list \<Rightarrow> bool" where
  "heap m freeList bs \<longleftrightarrow> chain m freeList bs 0 \<and> blocks_ok bs \<and> separated bs"

definition fits :: "nat \<Rightarrow> u32 \<Rightarrow> block \<Rightarrow> bool" where
  "fits k n b \<longleftrightarrow> padding k (unat (fst b) + 8) + unat n \<le> unat (snd b)"

definition roomy :: "nat \<Rightarrow> block list \<Rightarrow> bool" where
  "roomy k bs \<longleftrightarrow> (\<forall>b \<in> set bs. padding k (unat (fst b) + 8) \<le> unat (snd b))"

text \<open>What is left of a block after its first \<open>d\<close> bytes, and the size of the block that is taken.\<close>

definition rest_of :: "block \<Rightarrow> u32 \<Rightarrow> block list" where
  "rest_of b d = (if unat d + 8 < unat (snd b) then [(fst b + 8 + d, snd b - (d + 8))] else [])"

definition taken :: "block \<Rightarrow> u32 \<Rightarrow> u32" where
  "taken b d = (if unat d + 8 < unat (snd b) then d else snd b)"

subsection \<open>Cutting a block\<close>

lemma small_alignment:
  assumes "k \<le> 3" "blocks_ok bs"
  shows "roomy k bs"
proof -
  have pad: "padding k (4 * q) \<le> 4" for q
  proof -
    have "k = 0 \<or> k = 1 \<or> k = 2 \<or> k = 3" using assms(1) by auto
    then show ?thesis
    proof (elim disjE)
      assume k: "k = 3"
      have "4 * q mod 8 = 4 * (q mod 2)" using mult_mod_right [of 4 q 2] by simp
      then have "4 * q mod 8 = 0 \<or> 4 * q mod 8 = 4" by auto
      then show ?thesis unfolding k padding_def by auto
    next
      assume k: "k = 1"
      have "4 * q mod 2 = 0" by presburger
      then show ?thesis unfolding k padding_def by simp
    qed (simp_all add: padding_def)
  qed
  show ?thesis unfolding roomy_def
  proof
    fix b assume "b \<in> set bs"
    then have "block_ok b" by (rule blocks_ok_member [OF assms(2)])
    then obtain q r where "unat (fst b) = 4 * q" "unat (snd b) = 4 * r" "snd b \<noteq> 0" by (auto simp: block_ok_def header_ok_def dvd_def)
    moreover from this have "4 \<le> unat (snd b)" by (cases r) (auto simp: word_unat_eq_iff)
    ultimately show "padding k (unat (fst b) + 8) \<le> unat (snd b)" using pad [of "q + 2"] by (simp add: add.commute)
  qed
qed

lemma cut_block:
  fixes n :: u32
  assumes ok: "block_ok (a, s)" and p: "unat p = unat a + 8 + w" and n: "w + unat n \<le> unat s" "n \<noteq> 0"
  defines "nh \<equiv> (p + n + 3) AND 0xFFFFFFFC"
  defines "d \<equiv> nh - (a + 8)"
  shows "nh = a + 8 + d" "nh + 8 - (a + 8) = d + 8" "4 dvd unat d" "w + unat n \<le> unat d" "unat d \<le> unat s"
    "unat (d + 8) = unat d + 8" "d \<noteq> 0" "unat (a + 8 + d) = unat a + 8 + unat d"
proof -
  show "nh = a + 8 + d" "nh + 8 - (a + 8) = d + 8" by (simp_all add: d_def)
  have b: "hi (a, s) = unat a + 8 + unat s" "hi (a, s) < 4294967296" "4 dvd hi (a, s)" "4 dvd unat a"
    using ok by (auto simp: block_ok_def hi_def header_ok_def)
  define e where "e = unat p + unat n"
  have e: "e \<le> hi (a, s)" using n(1) b(1) p by (simp add: e_def)
  have top: "hi (a, s) + 3 < 4294967296" using b(2,3) by (auto simp: dvd_def)
  have "unat (p + n + 3) = e + 3"
    using e top unat_add_no_wrap [of p n] unat_add_no_wrap [of "p + n" 3] by (simp add: e_def)
  then have nh: "unat nh = e + 3 - (e + 3) mod 4" by (simp add: nh_def unat_round_down)
  have "4 * ((e + 3) div 4) = unat nh" unfolding nh by (rule minus_mod_eq_mult_div [symmetric])
  then have div: "4 dvd unat nh" by (metis dvd_triv_left)
  have ge: "e \<le> unat nh" unfolding nh using mod_less_divisor [of 4 "e + 3"] by linarith
  obtain q where q: "hi (a, s) = 4 * q" using b(3) by (auto simp: dvd_def)
  have "(e + 3) div 4 \<le> q" using e q by (simp add: less_mult_imp_div_less less_Suc_eq_le [symmetric])
  then have le: "unat nh \<le> hi (a, s)" using \<open>4 * ((e + 3) div 4) = unat nh\<close> q by linarith
  have a8: "unat (a + 8) = unat a + 8" using b unat_add_no_wrap [of a 8] by simp
  have "a + 8 \<le> nh" unfolding word_le_nat_alt a8 using ge p by (simp add: e_def)
  then have d: "unat d = unat nh - (unat a + 8)" by (simp add: d_def unat_sub_no_wrap a8 word_le_nat_alt)
  show "w + unat n \<le> unat d" "unat d \<le> unat s" using ge le p b(1) unfolding d by (simp_all add: e_def)
  then show "d \<noteq> 0" using n(2) by (auto simp: word_unat_eq_iff)
  show "4 dvd unat d" unfolding d using div b(4) by (intro dvd_diff_nat) simp_all
  show "unat (d + 8) = unat d + 8" using \<open>unat d \<le> unat s\<close> b unat_add_no_wrap [of d 8] by simp
  show "unat (a + 8 + d) = unat a + 8 + unat d" using \<open>unat d \<le> unat s\<close> b unat_add_no_wrap [of "a + 8" d] by (simp add: a8)
qed

lemma remainder_ok:
  assumes ok: "block_ok (a, s)" and d: "4 dvd unat d" "d \<noteq> 0" "unat d + 8 < unat s"
  shows "block_ok (a, d)" "block_ok (a + 8 + d, s - (d + 8))" "hi (a, d) = lo (a + 8 + d, s - (d + 8))"
    "hi (a + 8 + d, s - (d + 8)) = hi (a, s)" "hi (a, d) + 8 < hi (a, s)"
proof -
  have b: "unat a + 8 + unat s < 4294967296" "4 dvd unat s" "header_ok a" using ok by (auto simp: block_ok_def hi_def)
  have u: "unat (d + 8) = unat d + 8" "unat (a + 8 + d) = unat a + 8 + unat d"
    using d(3) b(1) unat_add_no_wrap [of d 8] unat_add_no_wrap [of a 8] unat_add_no_wrap [of "a + 8" d] by simp_all
  have r: "unat (s - (d + 8)) = unat s - (unat d + 8)" using d(3) unat_sub_no_wrap [of "d + 8" s] by (simp add: u)
  show "hi (a, d) = lo (a + 8 + d, s - (d + 8))" by (simp add: hi_def lo_def u)
  show h: "hi (a + 8 + d, s - (d + 8)) = hi (a, s)" using d(3) by (simp add: hi_def u r)
  show "hi (a, d) + 8 < hi (a, s)" using d(3) by (simp add: hi_def)
  show "block_ok (a, d)" using b d by (simp add: block_ok_def hi_def)
  have "header_ok (a + 8 + d)" using b d by (auto simp: header_ok_def u word_unat_eq_iff)
  moreover have "4 dvd unat (s - (d + 8))" unfolding r using b(2) d(1) by (intro dvd_diff_nat) simp_all
  moreover have "s - (d + 8) \<noteq> 0" using d(3) r by (auto simp: word_unat_eq_iff)
  ultimately show "block_ok (a + 8 + d, s - (d + 8))" using b(1) h by (simp add: block_ok_def hi_def [of "(a, s)"])
qed

subsection \<open>Taking a block\<close>

text \<open>The header of the taken block and the zeros between the header and the aligned address.\<close>

lemma finish_block:
  fixes m :: memory
  assumes a: "header_ok a" and p: "unat a + 8 \<le> unat p"
  defines "m' \<equiv> (if a + 8 < p then store_bytes (set_next m a 0) (a + 8) (replicate (unat (p - (a + 8))) 0) else set_next m a 0)"
  shows "block_size m' a = block_size m a" "block_next m' a = 0" "unat a + 8 \<le> unat x \<Longrightarrow> unat x < unat p \<Longrightarrow> m' x = 0"
    "unat x < unat a \<or> unat p \<le> unat x \<Longrightarrow> m' x = m x"
proof -
  have a8: "unat (a + 8) = unat a + 8" using a unat_add_no_wrap [of a 8] by (simp add: header_ok_def)
  have len: "unat (p - (a + 8)) = unat p - (unat a + 8)" using p unat_sub_no_wrap [of "a + 8" p] by (simp add: a8)
  have zero: "m' y = (if unat a + 8 \<le> unat y \<and> unat y < unat p then 0 else set_next m a 0 y)" for y
  proof (cases "unat a + 8 \<le> unat y \<and> unat y < unat p")
    case True
    then have "unat (y - (a + 8)) = unat y - (unat a + 8)" using unat_sub_no_wrap [of "a + 8" y] by (simp add: a8)
    then have "unat (y - (a + 8)) < unat (p - (a + 8))" "a + 8 < p" using True by (auto simp: len word_less_nat_alt a8 diff_less_mono)
    then show ?thesis using True by (simp add: m'_def store_bytes_def)
  next
    case False
    have "unat (y - (a + 8)) = (if unat a + 8 \<le> unat y then unat y - (unat a + 8) else unat y + 4294967296 - (unat a + 8))"
      using unat_sub_if' [of y "a + 8"] by (simp add: a8 word_le_nat_alt)
    then have "unat (p - (a + 8)) \<le> unat (y - (a + 8))" using False p len unat_u32_lt [of p] by presburger
    then have "m' y = set_next m a 0 y" by (simp add: m'_def store_bytes_def)
    then show ?thesis using False by (simp only: if_False)
  qed
  have "in_header a y \<Longrightarrow> m' y = set_next m a 0 y" for y by (simp add: zero in_header_def)
  from header_cong [OF a this] show "block_size m' a = block_size m a" "block_next m' a = 0" by (simp_all add: header_simps a)
  show "unat a + 8 \<le> unat x \<Longrightarrow> unat x < unat p \<Longrightarrow> m' x = 0" by (simp add: zero)
  show "unat x < unat a \<or> unat p \<le> unat x \<Longrightarrow> m' x = m x"
    using p header_frame(2) [OF a, of x m 0] by (auto simp: zero in_header_def)
qed

lemma covered_notin: "unat x \<notin> covered bs \<Longrightarrow> b \<in> set bs \<Longrightarrow> unat x < lo b \<or> hi b \<le> unat x"
  by (auto simp: covered_def)

lemma same_outside_covered:
  assumes "same_outside bs m m'" "unat x \<notin> covered bs"
  shows "m' x = m x"
proof -
  have "\<not> in_header (fst b) x" if "b \<in> set bs" for b
    using covered_notin [OF assms(2) that] by (auto simp: in_header_def lo_def hi_def)
  with assms(1) show ?thesis by (simp add: same_outside_def)
qed

lemma chain_beyond:
  assumes "chain m p bs q" "blocks_ok bs" "\<And>x. unat x \<in> covered bs \<Longrightarrow> m' x = m x"
  shows "chain m' p bs q"
  using assms(1)
proof (rule block_chain_frame)
  show "\<forall>b \<in> set bs. header_ok (fst b)" using blocks_ok_member [OF assms(2)] by (simp add: block_ok_def)
  show "m' x = m x" if "b \<in> set bs" "in_header (fst b) x" for b x
    using that by (intro assms(3)) (auto simp: covered_def in_header_def lo_def hi_def intro!: bexI [of _ b])
qed

lemma rest_of_facts:
  assumes ok: "block_ok b" and d: "4 dvd unat d" "d \<noteq> 0" "unat d \<le> unat (snd b)"
  shows "blocks_ok (rest_of b d)" "block_ok (fst b, taken b d)" "unat d \<le> unat (taken b d)"
    "\<forall>c \<in> set (rest_of b d). lo c = hi (fst b, taken b d) \<and> hi c = hi b" "hi (fst b, taken b d) \<le> hi b"
    "covered (rest_of b d) = {hi (fst b, taken b d)..<hi b}"
proof -
  obtain a s where b: "b = (a, s)" by (cases b)
  note r = remainder_ok [of a s d]
  show "blocks_ok (rest_of b d)" "block_ok (fst b, taken b d)" "unat d \<le> unat (taken b d)"
    "\<forall>c \<in> set (rest_of b d). lo c = hi (fst b, taken b d) \<and> hi c = hi b" "hi (fst b, taken b d) \<le> hi b"
    "covered (rest_of b d) = {hi (fst b, taken b d)..<hi b}"
    using ok d r unfolding b rest_of_def taken_def by (auto simp: covered_Cons)
qed

lemma cut_list:
  assumes ok: "blocks_ok (xs @ b # ys)" and d: "4 dvd unat d" "d \<noteq> 0" "unat d \<le> unat (snd b)"
  shows "blocks_ok (xs @ (fst b, taken b d) # rest_of b d @ ys)"
    "i \<in> covered (xs @ rest_of b d @ ys) \<Longrightarrow> i < lo b \<or> hi (fst b, taken b d) \<le> i"
    "covered (xs @ (fst b, taken b d) # rest_of b d @ ys) = covered (xs @ b # ys)"
proof -
  have b: "block_ok b" "blocks_ok xs" "blocks_ok ys" "\<forall>x \<in> set xs. hi x \<le> lo b" "\<forall>y \<in> set ys. hi b \<le> lo y"
    "\<forall>x \<in> set xs. \<forall>y \<in> set ys. hi x \<le> lo y" using ok by auto
  note rest = rest_of_facts [OF b(1) d]
  have le: "lo b \<le> hi (fst b, taken b d)" "lo (fst b, taken b d) = lo b" by (simp_all add: lo_def hi_def)
  have r: "lo b \<le> lo c" "hi (fst b, taken b d) = lo c" "hi c = hi b" if "c \<in> set (rest_of b d)" for c using rest(4) that le by auto
  show "blocks_ok (xs @ (fst b, taken b d) # rest_of b d @ ys)"
    using b rest(1,2,5) le r by (auto intro: order_trans)
  show "i < lo b \<or> hi (fst b, taken b d) \<le> i" if "i \<in> covered (xs @ rest_of b d @ ys)"
    using that b(4,5) rest(5) r(2) by (fastforce simp: covered_def)
  have "{lo b..<hi (fst b, taken b d)} \<union> {hi (fst b, taken b d)..<hi b} = {lo b..<hi b}"
    using le(1) rest(5) by (intro ivl_disj_un_two(3))
  then show "covered (xs @ (fst b, taken b d) # rest_of b d @ ys) = covered (xs @ b # ys)" by (auto simp: covered_Cons le(2) rest(6))
qed

lemma take_block_spec:
  fixes n :: u32
  assumes ch: "chain m freeList (xs @ (a, s) # ys) 0" and ok: "blocks_ok (xs @ (a, s) # ys)"
    and p: "unat p = unat a + 8 + w" and n: "w + unat n \<le> unat s" "n \<noteq> 0"
  shows "\<exists>d m' freeList'. take_block n m freeList a (if xs = [] then 0 else fst (last xs)) p = (p, m', freeList') \<and>
    4 dvd unat d \<and> w + unat n \<le> unat d \<and> unat d \<le> unat s \<and> d \<noteq> 0 \<and>
    chain m' freeList' (xs @ rest_of (a, s) d @ ys) 0 \<and> block_size m' a = taken (a, s) d \<and> block_next m' a = 0 \<and>
    (\<forall>x. unat a + 8 \<le> unat x \<and> unat x < unat p \<longrightarrow> m' x = 0) \<and> (\<forall>x. unat x \<notin> covered (xs @ (a, s) # ys) \<longrightarrow> m' x = m x)"
proof -
  define d where "d = ((p + n + 3) AND 0xFFFFFFFC) - (a + 8)"
  have b: "block_ok (a, s)" "blocks_ok xs" "blocks_ok ys" using ok by simp_all
  note cut = cut_block [OF b(1) p n, folded d_def]
  note rest = rest_of_facts [OF b(1), of d, simplified, OF cut(3,7,5)]
  have a: "header_ok a" by (rule block_okD(1) [OF b(1)])
  obtain r where r: "chain m freeList xs a" "block_size m a = s" "block_next m a = r" "chain m r ys 0" using ch by (auto simp: chain_append)
  note list = cut_list [OF ok, of d, simplified, OF cut(3,7,5)]
  then have okz: "blocks_ok (xs @ rest_of (a, s) d @ ys)" by auto
  have prev: "xs \<noteq> [] \<Longrightarrow> fst (last xs) \<noteq> 0" using blocks_ok_member [OF b(2), of "last xs"] by (auto simp: block_ok_def header_ok_def)
  let ?nh = "a + 8 + d" and ?t = "s - (d + 8)"
  define m1 where "m1 = (if unat d + 8 < unat s then set_next (set_size m ?nh ?t) ?nh r else m)"
  define r1 where "r1 = (if unat d + 8 < unat s then ?nh else r)"
  have m1: "chain m1 freeList xs a \<and> chain m1 r1 (rest_of (a, s) d @ ys) 0 \<and> (\<forall>x. unat x < unat ?nh \<or> hi (a, s) \<le> unat x \<longrightarrow> m1 x = m x) \<and>
    block_size m1 a = s"
  proof (cases "unat d + 8 < unat s")
    case True
    note rem = remainder_ok [OF b(1) cut(3,7) True]
    have nh: "header_ok ?nh" "rest_of (a, s) d = [(?nh, ?t)]" using rem(2) True by (simp_all add: block_ok_def rest_of_def)
    have out: "m1 x = m x" if "unat x < unat ?nh \<or> hi (a, s) \<le> unat x" for x
      using that True header_frame [OF nh(1), of x] rem(4) by (auto simp: m1_def in_header_def hi_def)
    have "chain m1 freeList xs a"
      by (rule chain_beyond [OF r(1) b(2)]) (use ok cut(8) in \<open>force simp: covered_def lo_def hi_def intro!: out\<close>)
    moreover have "chain m1 r ys 0"
      by (rule chain_beyond [OF r(4) b(3)]) (use ok in \<open>force simp: covered_def intro!: out\<close>)
    moreover have "block_size m1 a = s" using header_cong(1) [OF a, of m1 m] out cut(8) r(2) by (simp add: in_header_def)
    ultimately show ?thesis using True nh out by (simp add: m1_def r1_def header_simps)
  qed (use r in \<open>simp add: m1_def r1_def rest_of_def\<close>)
  then obtain m2 freeList2 where m2: "(if xs = [] then (m1, r1) else (set_next m1 (fst (last xs)) r1, freeList)) = (m2, freeList2)"
    "chain m2 freeList2 (xs @ rest_of (a, s) d @ ys) 0" "same_outside xs m1 m2" using relink [OF _ _ okz] by blast
  define m3 where "m3 = (if unat d + 8 < unat s then set_size m2 a d else m2)"
  define m4 where "m4 = (if a + 8 < p then store_bytes (set_next m3 a 0) (a + 8) (replicate (unat (p - (a + 8))) 0) else set_next m3 a 0)"
  have pd: "unat a + 8 \<le> unat p" "unat p < unat ?nh" using p cut(4,8) n(2) by (auto simp: word_unat_eq_iff [of n])
  note fin = finish_block [OF a pd(1), where m = m3, folded m4_def]
  have m3: "block_size m3 a = taken (a, s) d" "\<And>x. \<not> in_header a x \<Longrightarrow> m3 x = m2 x"
  proof -
    have "\<forall>c \<in> set xs. hd_apart a (fst c)" using ok blocks_apart(2) [of _ "(a, s)"] blocks_ok_member [OF b(2)] by auto
    then have "block_size m2 a = s" using same_outside_header(1) [OF m2(3) _ a] m1 by simp
    then show "block_size m3 a = taken (a, s) d" using a by (simp add: m3_def taken_def header_simps)
    show "m3 x = m2 x" if "\<not> in_header a x" for x using header_frame(1) [OF a that] by (simp add: m3_def)
  qed
  have m4: "m4 x = m2 x" if "unat x < unat a \<or> unat p \<le> unat x" for x :: u32
    using that fin(4) m3(2) [of x] pd(1) by (auto simp: in_header_def)
  have "chain m4 freeList2 (xs @ rest_of (a, s) d @ ys) 0"
  proof (rule chain_beyond [OF m2(2) okz])
    fix x :: u32 assume "unat x \<in> covered (xs @ rest_of (a, s) d @ ys)"
    then have "unat x < unat a \<or> hi (a, taken (a, s) d) \<le> unat x"
      using list(2) by (simp add: lo_def)
    moreover have "unat p \<le> hi (a, taken (a, s) d)" using pd(2) cut(8) rest(3) by (simp add: hi_def)
    ultimately show "m4 x = m2 x" by (intro m4) auto
  qed
  moreover have "m4 x = m x" if "unat x \<notin> covered (xs @ (a, s) # ys)" for x :: u32
  proof -
    have x: "unat x < unat a \<or> hi (a, s) \<le> unat x" "unat x \<notin> covered xs" using that by (auto simp: covered_Cons lo_def)
    have "unat ?nh \<le> hi (a, s)" using cut(5,8) by (simp add: hi_def)
    then show ?thesis using m4 [of x] same_outside_covered [OF m2(3) x(2)] m1 x(1) pd by auto
  qed
  moreover have "take_block n m freeList a (if xs = [] then 0 else fst (last xs)) p = (p, m4, freeList2)"
  proof -
    have lt: "d + 8 < s \<longleftrightarrow> unat d + 8 < unat s" by (simp add: word_less_nat_alt cut(6))
    have "block_next (set_size m ?nh ?t) a = r" if "unat d + 8 < unat s"
      using r(3) remainder_ok [OF b(1) cut(3,7) that] blocks_apart(2) [of "(a, d)" "(?nh, ?t)"] by (simp add: header_simps)
    moreover have off: "?nh + 8 - (a + 8) = d + 8" "?nh - (a + 8) = d" by simp_all
    ultimately show ?thesis using m2(1) prev r(2,3) unfolding take_block_def Let_def cut(1) off
      by (cases "xs = []") (auto simp: lt m1_def r1_def m3_def m4_def)
  qed
  ultimately show ?thesis using cut(3-5,7) m3(1) fin(1-3) by (intro exI [of _ d] exI [of _ m4] exI [of _ freeList2]) auto
qed

subsection \<open>Allocation\<close>

lemma aligned_start:
  assumes "block_ok (a, s)" "k < 32" "padding k (unat a + 8) \<le> unat s"
  shows "unat (aligned_address (2 ^ k) (a + 8)) = unat a + 8 + padding k (unat a + 8)"
proof -
  have "unat (a + 8) = unat a + 8" "unat a + 8 + unat s < 4294967296"
    using assms(1) unat_add_no_wrap [of a 8] by (auto simp: block_ok_def hi_def)
  then show ?thesis using aligned_address_spec [OF assms(2), of "a + 8"] assms(3) by simp
qed

lemma allocate_step:
  assumes ok: "block_ok (a, s)" and k: "k < 32" "padding k (unat a + 8) \<le> unat s" and m: "block_size m a = s"
  shows "allocate_loop (2 ^ k) n m freeList a previous =
    (if fits k n (a, s) then Some (take_block n m freeList a previous (aligned_address (2 ^ k) (a + 8)))
     else allocate_loop (2 ^ k) n m freeList (block_next m a) a)"
proof -
  let ?p = "aligned_address (2 ^ k) (a + 8)"
  have a8: "unat (a + 8) = unat a + 8" using ok unat_add_no_wrap [of a 8] by (auto simp: block_ok_def hi_def)
  have "unat (?p - (a + 8)) = padding k (unat a + 8)"
    using aligned_start [OF ok k] unat_sub_no_wrap [of "a + 8" ?p] by (simp add: a8)
  moreover from this have "unat (s - (?p - (a + 8))) = unat s - padding k (unat a + 8)"
    using k(2) unat_sub_no_wrap [of "?p - (a + 8)" s] by simp
  ultimately have "n \<le> s - (?p - (a + 8)) \<longleftrightarrow> fits k n (a, s)" using k(2) by (auto simp: word_le_nat_alt fits_def)
  then show ?thesis using block_okD(2) [OF ok] m by (subst allocate_loop.simps) (simp add: Let_def)
qed

lemma allocate_none:
  "chain m current ys 0 \<Longrightarrow> blocks_ok ys \<Longrightarrow> roomy k ys \<Longrightarrow> k < 32 \<Longrightarrow> \<forall>b \<in> set ys. \<not> fits k n b \<Longrightarrow>
    allocate_loop (2 ^ k) n m freeList current previous = Some (0, m, freeList)"
proof (induction ys arbitrary: current previous)
  case Nil
  then show ?case by (subst allocate_loop.simps) simp
next
  case (Cons b ys)
  obtain a s where b: "b = (a, s)" by (cases b)
  with Cons.prems allocate_step [of a s k m n freeList previous] Cons.IH [of "block_next m a" a] show ?case by (auto simp: roomy_def)
qed

lemma allocate_first:
  assumes "chain m current (us @ b # vs) 0" "blocks_ok (us @ b # vs)" "roomy k (us @ b # vs)" "k < 32" "\<forall>u \<in> set us. \<not> fits k n u" "fits k n b"
  shows "allocate_loop (2 ^ k) n m freeList current previous =
    Some (take_block n m freeList (fst b) (if us = [] then previous else fst (last us)) (aligned_address (2 ^ k) (fst b + 8)))"
  using assms
proof (induction us arbitrary: current previous)
  case Nil
  obtain a s where b: "b = (a, s)" by (cases b)
  with Nil allocate_step [of a s k m n freeList previous] show ?case by (auto simp: roomy_def)
next
  case (Cons u us)
  obtain a s where u: "u = (a, s)" by (cases u)
  with Cons.prems allocate_step [of a s k m n freeList previous] Cons.IH [of "block_next m a" a] show ?case by (auto simp: roomy_def)
qed

definition held :: "memory \<Rightarrow> block \<Rightarrow> u32 \<Rightarrow> bool" where
  "held m b p \<longleftrightarrow> block_ok b \<and> block_size m (fst b) = snd b \<and> block_next m (fst b) = 0 \<and>
     unat (fst b) + 8 \<le> unat p \<and> unat p < hi b \<and> (\<forall>x. unat (fst b) + 8 \<le> unat x \<and> unat x < unat p \<longrightarrow> m x = 0)"

lemma power_of_two: "(2 ^ k :: u32) AND (2 ^ k - 1) = 0"
proof -
  have "(2 ^ k :: u32) AND mask k = 0" by (rule bit_word_eqI) (auto simp: bit_simps)
  then show ?thesis by (simp add: mask_eq_exp_minus_1)
qed

lemma allocate_fits:
  assumes h: "heap m freeList bs" and k: "k < 32" "roomy k bs" and n: "n \<noteq> 0"
    and bs: "bs = xs @ b # ys" "\<forall>u \<in> set xs. \<not> fits k n u" "fits k n b"
  shows "\<exists>d p m' freeList'. allocate (2 ^ k) n m freeList = Some (p, m', freeList') \<and> 4 dvd unat d \<and> d \<noteq> 0 \<and> unat d \<le> unat (snd b) \<and>
    2 ^ k dvd unat p \<and> unat p = unat (fst b) + 8 + padding k (unat (fst b) + 8) \<and> unat p + unat n \<le> hi (fst b, d) \<and>
    heap m' freeList' (xs @ rest_of b d @ ys) \<and> held m' (fst b, taken b d) p \<and> (\<forall>x. unat x \<notin> covered bs \<longrightarrow> m' x = m x)"
proof -
  obtain a s where b: "b = (a, s)" by (cases b)
  have ok: "chain m freeList (xs @ (a, s) # ys) 0" "blocks_ok (xs @ (a, s) # ys)" "separated (xs @ (a, s) # ys)"
    using h bs b by (simp_all add: heap_def)
  have s: "block_ok (a, s)" "padding k (unat a + 8) \<le> unat s" "padding k (unat a + 8) + unat n \<le> unat s"
    using ok(2) k(2) bs(1,3) b by (simp_all add: roomy_def fits_def)
  let ?p = "aligned_address (2 ^ k) (a + 8)"
  note p = aligned_start [OF s(1) k(1) s(2)]
  have run: "allocate (2 ^ k) n m freeList = Some (take_block n m freeList a (if xs = [] then 0 else fst (last xs)) ?p)"
    using allocate_first [OF ok(1,2) _ k(1), of n freeList 0] k bs b n power_of_two by (simp add: allocate_def)
  obtain d m' freeList' where t: "take_block n m freeList a (if xs = [] then 0 else fst (last xs)) ?p = (?p, m', freeList')"
    "4 dvd unat d" "padding k (unat a + 8) + unat n \<le> unat d" "unat d \<le> unat s" "d \<noteq> 0" "chain m' freeList' (xs @ rest_of (a, s) d @ ys) 0"
    "block_size m' a = taken (a, s) d" "block_next m' a = 0" "\<forall>x. unat a + 8 \<le> unat x \<and> unat x < unat ?p \<longrightarrow> m' x = 0"
    "\<forall>x. unat x \<notin> covered (xs @ (a, s) # ys) \<longrightarrow> m' x = m x" using take_block_spec [OF ok(1,2) p s(3) n] by blast
  note rest = rest_of_facts [OF s(1), of d, simplified, OF t(2,5,4)]
  have "blocks_ok (xs @ rest_of (a, s) d @ ys)" using cut_list(1) [OF ok(2), of d] t(2,4,5) by simp
  moreover have "separated (xs @ rest_of (a, s) d @ ys)"
  proof -
    have "lo (a, s) \<le> hi (a, taken (a, s) d)" "separated (rest_of (a, s) d)" by (simp_all add: lo_def hi_def rest_of_def)
    then show ?thesis using ok(3) rest(4) by fastforce
  qed
  moreover have "2 ^ k dvd unat ?p" unfolding p by (rule padding_facts(1))
  moreover have "unat n > 0" using n by (simp add: word_unat_eq_iff [of n])
  then have "held m' (a, taken (a, s) d) ?p" using rest(2,3) t(3,7-9) p by (auto simp: held_def hi_def)
  ultimately show ?thesis using run t p b bs(1)
    by (intro exI [of _ d] exI [of _ ?p] exI [of _ m'] exI [of _ freeList']) (auto simp: heap_def hi_def)
qed

subsection \<open>Release\<close>

lemma header_found:
  assumes a: "header_ok a" and z: "\<And>x. unat a + 4 \<le> unat x \<Longrightarrow> unat x \<le> unat q \<Longrightarrow> m x = 0"
    and nz: "j < 4" "m (a + of_nat j) \<noteq> 0" "unat a + j \<le> unat q"
  shows "header_before m q = Some a"
  using z nz(3)
proof (induction "unat q" arbitrary: q rule: less_induct)
  case less
  have u: "unat (a + of_nat i) = unat a + i" if "i < 4" for i
    using a that unat_add_no_wrap [of a "of_nat i"] by (simp add: header_ok_def unat_of_nat_u32)
  show ?case
  proof (cases "m q = 0")
    case True
    have "q \<noteq> a + of_nat j" using nz(2) True by auto
    then have lt: "unat a + j < unat q" using less.prems(2) u [OF nz(1)] by (auto simp: word_unat_eq_iff)
    then have "unat (q - 1) = unat q - 1" using unat_sub_no_wrap [of 1 q] by simp
    with less.hyps [of "q - 1"] lt less.prems(1) have "header_before m (q - 1) = Some a" by auto
    then show ?thesis using True by (subst header_before.simps) simp
  next
    case False
    then have "unat q < unat a + 4" using less.prems(1) [of q] by force
    define i where "i = unat q - unat a"
    have i: "unat q = unat a + i" "i < 4" using \<open>unat q < unat a + 4\<close> less.prems(2) by (simp_all add: i_def)
    have "(unat a + i) mod 4 = i" using a i(2) by (auto simp: header_ok_def dvd_def)
    then have "q AND 0xFFFFFFFC = a" unfolding word_unat_eq_iff unat_round_down i(1) by simp
    then show ?thesis using False by (subst header_before.simps) simp
  qed
qed

lemma nonzero_byte:
  assumes "load_dword m a \<noteq> 0"
  shows "\<exists>j < 4. m (a + of_nat j) \<noteq> 0"
proof (rule ccontr)
  assume "\<not> ?thesis"
  then have "\<forall>j < 4. m (a + of_nat j) = 0" by blast
  from this [rule_format, of 0] this [rule_format, of 1] this [rule_format, of 2] this [rule_format, of 3]
  have "load_dword m a = 0" by (simp add: load_dword_def u32_be_def)
  with assms show False ..
qed

lemma zero_bytes:
  assumes "load_dword m a = 0" "j < 4"
  shows "m (a + of_nat j) = 0"
proof -
  have "unat (load_dword m a) = 0" using assms(1) by simp
  then have "m a = 0 \<and> m (a + 1) = 0 \<and> m (a + 2) = 0 \<and> m (a + 3) = 0"
    unfolding load_dword_def unat_u32_be by (simp add: unat_eq_zero)
  moreover have "j = 0 \<or> j = 1 \<or> j = 2 \<or> j = 3" using assms(2) by auto
  ultimately show ?thesis by auto
qed

lemma held_header:
  assumes "held m b p"
  shows "header_before m (p - 1) = Some (fst b)"
proof -
  obtain a s where b: "b = (a, s)" by (cases b)
  have h: "block_ok (a, s)" "block_size m a = s" "block_next m a = 0" "unat a + 8 \<le> unat p" "\<forall>x. unat a + 8 \<le> unat x \<and> unat x < unat p \<longrightarrow> m x = 0"
    using assms b by (simp_all add: held_def)
  have a: "header_ok a" by (rule block_okD(1) [OF h(1)])
  have q: "unat (p - 1) = unat p - 1" using h(4) unat_sub_no_wrap [of 1 p] by simp
  obtain j where j: "j < 4" "m (a + of_nat j) \<noteq> 0" using nonzero_byte [of m a] h(1,2) by (auto simp: block_size_def block_ok_def)
  have "m x = 0" if x: "unat a + 4 \<le> unat x" "unat x \<le> unat (p - 1)" for x
  proof (cases "unat x < unat a + 8")
    case True
    define i where "i = unat x - (unat a + 4)"
    have i: "unat x = unat a + 4 + i" "i < 4" using True x(1) by (simp_all add: i_def)
    then have "x = a + 4 + of_nat i" using next_address [OF a] a unat_add_no_wrap [of "a + 4" "of_nat i"]
      by (simp add: word_unat_eq_iff header_ok_def unat_of_nat_u32)
    then show ?thesis using zero_bytes [of m "a + 4" i] h(3) i(2) by (simp add: block_next_def)
  next
    case False
    then show ?thesis using h(4,5) x(2) q by simp
  qed
  then have "header_before m (p - 1) = Some a" using header_found [OF a, where m = m, OF _ j, of "p - 1"] h(4) q j(1) by simp
  then show ?thesis by (simp add: b)
qed

lemma release_at:
  assumes ch: "chain m freeList (xs @ ys) 0" and ok: "blocks_ok (xs @ b # ys)" and h: "held m b p"
  shows "\<exists>m' freeList'. free_memory p m freeList = Some (m', freeList') \<and> heap m' freeList' (merged (xs @ b # ys)) \<and> same_outside (xs @ b # ys) m m'"
proof -
  obtain a s where b: "b = (a, s)" by (cases b)
  have "block_size m a = s" "p \<noteq> 0" using h b by (auto simp: held_def word_unat_eq_iff)
  then obtain m1 f1 where i: "insert_block m freeList a = Some (m1, f1)" "chain m1 f1 (xs @ b # ys) 0" "same_outside (xs @ b # ys) m m1"
    using insert_block_spec [OF ch, of a s] ok b by blast
  obtain m2 where g: "mergeFreeBlocks m1 f1 = Some m2" "chain m2 f1 (merged (xs @ b # ys)) 0" "same_outside (xs @ b # ys) m1 m2"
    using merge_spec [OF i(2) ok] by blast
  have "same_outside (xs @ b # ys) m m2" by (rule same_outside_trans [OF i(3) g(3)]) (auto simp: image_iff)
  then show ?thesis using held_header [OF h] i(1) g(1,2) \<open>p \<noteq> 0\<close> merged_facts [OF ok] b by (simp add: free_memory_def heap_def)
qed

lemma place_block:
  assumes "blocks_ok bs" "block_ok b" "covered bs \<inter> {lo b..<hi b} = {}"
  obtains xs ys where "bs = xs @ ys" "blocks_ok (xs @ b # ys)"
proof -
  have "\<exists>xs ys. bs = xs @ ys \<and> blocks_ok (xs @ b # ys)"
    using assms
  proof (induction bs)
    case (Cons c bs)
    have order: "hi c \<le> lo b \<or> hi b \<le> lo c"
    proof (rule ccontr)
      assume "\<not> ?thesis"
      moreover have "lo b < hi b" "lo c < hi c" by (simp_all add: lo_def hi_def)
      ultimately have "max (lo b) (lo c) \<in> covered (c # bs) \<inter> {lo b..<hi b}" by (auto simp: covered_Cons)
      with Cons.prems(3) show False by blast
    qed
    show ?case
    proof (cases "hi c \<le> lo b")
      case True
      have "covered bs \<inter> {lo b..<hi b} = {}" using Cons.prems(3) unfolding covered_Cons by blast
      with Cons.IH Cons.prems(1,2) obtain xs ys where "bs = xs @ ys" "blocks_ok (xs @ b # ys)" by auto
      with True Cons.prems(1) show ?thesis by (intro exI [of _ "c # xs"] exI [of _ ys]) auto
    next
      case False
      with order have "hi b \<le> lo c" "lo c \<le> hi c" by (auto simp: lo_def hi_def)
      with Cons.prems show ?thesis by (intro exI [of _ "[]"] exI [of _ "c # bs"]) fastforce
    qed
  qed (auto intro: exI [of _ "[]"])
  with that show ?thesis by blast
qed

subsection \<open>Allocation undone\<close>

lemma merged_prefix:
  "(\<forall>x \<in> set xs. block_ok x) \<Longrightarrow> separated (xs @ [b]) \<Longrightarrow> merged (xs @ b # bs) = xs @ merged (b # bs)"
proof (induction xs)
  case (Cons x xs)
  obtain a s where x: "x = (a, s)" by (cases x)
  obtain c cs where c: "xs @ b # bs = c # cs" "hi x < lo c" using Cons.prems(2) by (cases xs) auto
  have "\<not> a + 8 + s = fst c" using touching [of a s "fst c"] Cons.prems(1) c(2) x by (auto simp: lo_def)
  then have "merged (x # c # cs) = x # merged (c # cs)" using x by (cases c) simp
  with c(1) Cons show ?case by simp
qed simp

lemma merged_separated: "blocks_ok bs \<Longrightarrow> separated bs \<Longrightarrow> merged bs = bs"
proof (cases bs rule: rev_cases)
  case (snoc xs b)
  assume "blocks_ok bs" "separated bs"
  with snoc merged_prefix [of xs b "[]"] blocks_ok_member [of bs] show ?thesis by auto
qed simp

lemma merged_undo:
  assumes ok: "blocks_ok (xs @ (a, s) # ys)" "separated (xs @ (a, s) # ys)" and d: "4 dvd unat d" "d \<noteq> 0" "unat d \<le> unat s"
  shows "merged (xs @ (a, taken (a, s) d) # rest_of (a, s) d @ ys) = xs @ (a, s) # ys"
proof -
  have sep: "\<forall>x \<in> set xs. block_ok x" "separated (xs @ [(a, t)])" for t
    using ok blocks_ok_member [of xs] by (auto simp: lo_def)
  have tail: "merged ((a, s) # ys) = (a, s) # ys" using merged_separated [of "(a, s) # ys"] ok by simp
  show ?thesis
  proof (cases "unat d + 8 < unat s")
    case True
    then have "merged ((a, taken (a, s) d) # rest_of (a, s) d @ ys) = merged ((a, d + 8 + (s - (d + 8))) # ys)"
      by (simp add: taken_def rest_of_def)
    then show ?thesis using merged_prefix [OF sep] tail by simp
  next
    case False
    then show ?thesis using merged_prefix [OF sep] tail by (simp add: taken_def rest_of_def)
  qed
qed

lemma held_cong:
  assumes "held m b p" "\<And>x. lo b \<le> unat x \<Longrightarrow> unat x < unat p \<Longrightarrow> m' x = m x"
  shows "held m' b p"
proof -
  have p: "unat (fst b) + 8 \<le> unat p" "header_ok (fst b)" using assms(1) by (auto simp: held_def block_ok_def)
  have "in_header (fst b) x \<Longrightarrow> m' x = m x" for x using p(1) by (intro assms(2)) (auto simp: in_header_def lo_def)
  from header_cong [OF p(2) this] show ?thesis using assms by (simp add: held_def lo_def)
qed

lemma chain_head: "chain m p bs q \<Longrightarrow> bs \<noteq> [] \<Longrightarrow> p = fst (hd bs)"
  by (cases bs) auto

lemma first_block:
  assumes "\<exists>b \<in> set bs. P b"
  obtains xs b ys where "bs = xs @ b # ys" "P b" "\<forall>u \<in> set xs. \<not> P u"
  using assms split_list_first_prop by metis

text \<open>C14. \<open>allocate\<close> for an alignment of 1, 2, 4 or 8 returns, and takes the first free block that has room for the aligned bytes: the
  address it returns is aligned and the bytes lie inside that block, behind its header; what is left of the block stays free when it
  can hold a header, every other free block stays as it is, and only free memory is written. When no block has room, it returns \<open>nullptr\<close> and
  changes nothing.\<close>

theorem memory_allocate:
  assumes h: "heap m freeList bs" and k: "k \<le> 3" and n: "n \<noteq> 0"
  shows "\<exists>p m' freeList'. allocate (2 ^ k) n m freeList = Some (p, m', freeList') \<and>
    (\<forall>x. unat x \<notin> covered bs \<longrightarrow> m' x = m x) \<and>
    (if \<exists>b \<in> set bs. fits k n b
     then \<exists>xs b ys d. bs = xs @ b # ys \<and> (\<forall>u \<in> set xs. \<not> fits k n u) \<and> fits k n b \<and> heap m' freeList' (xs @ rest_of b d @ ys) \<and>
       2 ^ k dvd unat p \<and> lo b + 8 \<le> unat p \<and> unat p + unat n \<le> hi (fst b, taken b d) \<and> hi (fst b, taken b d) \<le> hi b \<and> held m' (fst b, taken b d) p
     else p = 0 \<and> m' = m \<and> freeList' = freeList)"
proof (cases "\<exists>b \<in> set bs. fits k n b")
  case False
  have "blocks_ok bs" "chain m freeList bs 0" using h by (simp_all add: heap_def)
  with allocate_none [of m freeList bs k n freeList 0] small_alignment [OF k] False k n show ?thesis
    by (simp add: allocate_def power_of_two)
next
  case True
  obtain xs b ys where b: "bs = xs @ b # ys" "fits k n b" "\<forall>u \<in> set xs. \<not> fits k n u" by (rule first_block [OF True])
  have ok: "blocks_ok bs" "block_ok b" using h b(1) by (simp_all add: heap_def)
  have "k < 32" using k by simp
  from allocate_fits [OF h this small_alignment [OF k ok(1)] n b(1,3,2)] obtain d p m' freeList' where
    r: "allocate (2 ^ k) n m freeList = Some (p, m', freeList')" "4 dvd unat d" "d \<noteq> 0" "unat d \<le> unat (snd b)" "2 ^ k dvd unat p"
    "unat p = unat (fst b) + 8 + padding k (unat (fst b) + 8)" "unat p + unat n \<le> hi (fst b, d)"
    "heap m' freeList' (xs @ rest_of b d @ ys)" "held m' (fst b, taken b d) p" "\<forall>x. unat x \<notin> covered bs \<longrightarrow> m' x = m x" by blast
  note rest = rest_of_facts [OF ok(2) r(2-4)]
  have "unat p + unat n \<le> hi (fst b, taken b d)" using r(7) rest(3) by (simp add: hi_def)
  with b r(5,6,8,9) rest(5) have "bs = xs @ b # ys \<and> (\<forall>u \<in> set xs. \<not> fits k n u) \<and> fits k n b \<and> heap m' freeList' (xs @ rest_of b d @ ys) \<and>
     2 ^ k dvd unat p \<and> lo b + 8 \<le> unat p \<and> unat p + unat n \<le> hi (fst b, taken b d) \<and> hi (fst b, taken b d) \<le> hi b \<and> held m' (fst b, taken b d) p"
    by (simp add: lo_def)
  with r(1,10) show ?thesis unfolding if_P [OF True] by blast
qed

text \<open>C16. Freeing what was allocated undoes the allocation: whatever was written into the allocated bytes in between, \<open>free\<close> finds the
  header of the block, and the list of free blocks is the same as before the allocation.\<close>

theorem memory_roundtrip:
  assumes h: "heap m freeList bs" and k: "k \<le> 3" and run: "allocate (2 ^ k) n m freeList = Some (p, m', freeList')" "p \<noteq> 0"
    and user: "\<forall>x. unat p \<le> unat x \<and> unat x < unat p + unat n \<or> m1 x = m' x"
  shows "\<exists>m2. free_memory p m1 freeList' = Some (m2, freeList) \<and> heap m2 freeList bs \<and> (\<forall>x. unat x \<notin> covered bs \<longrightarrow> m2 x = m1 x)"
proof -
  have n: "n \<noteq> 0" using run by (auto simp: allocate_def)
  have ok: "blocks_ok bs" "chain m freeList bs 0" "separated bs" using h by (simp_all add: heap_def)
  have k32: "k < 32" using k by simp
  have "\<exists>b \<in> set bs. fits k n b"
    using allocate_none [OF ok(2,1) small_alignment [OF k ok(1)] k32, of n freeList 0] run n k32 by (auto simp: allocate_def power_of_two)
  then obtain xs b ys where b: "bs = xs @ b # ys" "fits k n b" "\<forall>u \<in> set xs. \<not> fits k n u" by (rule first_block)
  from allocate_fits [OF h k32 small_alignment [OF k ok(1)] n b(1,3,2)] run obtain d where
    d: "4 dvd unat d" "d \<noteq> 0" "unat d \<le> unat (snd b)" "unat p + unat n \<le> hi (fst b, d)"
    "heap m' freeList' (xs @ rest_of b d @ ys)" "held m' (fst b, taken b d) p" by auto
  obtain a s where as: "b = (a, s)" by (cases b)
  have ok_b: "block_ok (a, s)" using ok(1) b(1) as by simp
  note rest = rest_of_facts [OF ok_b, simplified, OF d(1-3) [unfolded as snd_conv]]
  note list = cut_list [OF ok(1) [unfolded b(1)] d(1-3), unfolded as fst_conv]
  let ?zs = "xs @ rest_of (a, s) d @ ys"
  have hold: "held m1 (a, taken (a, s) d) p"
    by (rule held_cong [OF d(6) [unfolded as fst_conv]]) (use user in \<open>auto simp: not_le [symmetric]\<close>)
  have ch: "chain m1 freeList' ?zs 0"
  proof (rule chain_beyond)
    show "chain m' freeList' ?zs 0" "blocks_ok ?zs" using d(5) as by (simp_all add: heap_def)
    fix x :: u32 assume "unat x \<in> covered ?zs"
    then have "unat x < lo (a, s) \<or> hi (a, taken (a, s) d) \<le> unat x" using list(2) by simp
    moreover have "unat p + unat n \<le> hi (a, taken (a, s) d)" using d(4) rest(3) as by (simp add: hi_def)
    moreover have "lo (a, s) \<le> unat p" using hold by (simp add: held_def lo_def)
    ultimately show "m1 x = m' x" using user [rule_format, of x] by auto
  qed
  from release_at [OF ch list(1) hold] obtain m2 f2 where m2: "free_memory p m1 freeList' = Some (m2, f2)"
    "heap m2 f2 (merged (xs @ (a, taken (a, s) d) # rest_of (a, s) d @ ys))"
    "same_outside (xs @ (a, taken (a, s) d) # rest_of (a, s) d @ ys) m1 m2" by blast
  have "merged (xs @ (a, taken (a, s) d) # rest_of (a, s) d @ ys) = bs"
    using merged_undo [of xs a s ys d] ok b(1) d(1-3) as by simp
  moreover note list(3)
  ultimately have "heap m2 f2 bs" "\<forall>x. unat x \<notin> covered bs \<longrightarrow> m2 x = m1 x"
    using m2(2) same_outside_covered [OF m2(3)] b(1) as by auto
  moreover have "f2 = freeList" using chain_head [of m2 f2 bs 0] chain_head [OF ok(2)] \<open>heap m2 f2 bs\<close> b(1) by (simp add: heap_def)
  ultimately show ?thesis using m2(1) by blast
qed

subsection \<open>An example\<close>

text \<open>A region of 0x108 bytes at 0x100000.\<close>

definition small_heap :: memory where
  "small_heap = set_next (set_size (\<lambda>_. 0) 0x100000 0x100) 0x100000 0"

lemma small_heap: "heap small_heap 0x100000 [(0x100000, 0x100)]"
  by (simp add: heap_def small_heap_def block_ok_def header_ok_def hi_def header_simps)

text \<open>Six bytes, aligned to eight.\<close>

theorem memory_allocate_witness:
  "\<exists>p m' freeList' d. allocate 8 6 small_heap 0x100000 = Some (p, m', freeList') \<and> heap m' freeList' (rest_of (0x100000, 0x100) d) \<and>
    8 dvd unat p \<and> unat p + 6 \<le> hi (0x100000, taken (0x100000, 0x100) d)"
proof -
  have "\<exists>b \<in> set [(0x100000, 0x100)]. fits 3 6 b" by (simp add: fits_def padding_def)
  then show ?thesis using memory_allocate [OF small_heap, of 3 6] by (auto simp: Cons_eq_append_conv)
qed

theorem memory_roundtrip_witness:
  "\<exists>p m' freeList' m2. allocate 8 6 small_heap 0x100000 = Some (p, m', freeList') \<and>
    free_memory p m' freeList' = Some (m2, 0x100000) \<and> heap m2 0x100000 [(0x100000, 0x100)]"
proof -
  have f: "fits 3 6 (0x100000, 0x100)" "roomy 3 [(0x100000, 0x100)]" by (simp_all add: fits_def roomy_def padding_def)
  from allocate_fits [OF small_heap _ f(2), of 6 "[]" "(0x100000, 0x100)" "[]"] f(1) obtain p m' freeList' where
    r: "allocate (2 ^ 3) 6 small_heap 0x100000 = Some (p, m', freeList')" and p: "0x100008 \<le> unat p" by auto
  have "p \<noteq> 0" using p by auto
  from memory_roundtrip [OF small_heap _ r this, of m'] r show ?thesis by auto
qed

end
