(* ===== verification/Heap_Live.thy ===== *)
theory Heap_Live
  imports Heap_Properties
begin

text \<open>
  The memory manager in use: allocations, releases and writes into allocated memory in any order, from one region on. The live
  allocations and the free blocks always share the region without overlap.
\<close>

inductive heap_reach :: "u32 \<Rightarrow> u32 \<Rightarrow> memory \<Rightarrow> u32 \<Rightarrow> (u32 \<times> u32) list \<Rightarrow> bool" for region regionSize where
  reach_start: "addContiguousMemoryRegion region regionSize m 0 = Some (m', freeList) \<Longrightarrow> heap_reach region regionSize m' freeList []"
| reach_alloc: "heap_reach region regionSize m freeList live \<Longrightarrow> k \<le> 3 \<Longrightarrow> allocate (2 ^ k) n m freeList = Some (p, m', freeList') \<Longrightarrow>
    heap_reach region regionSize m' freeList' (if p = 0 then live else (p, n) # live)"
| reach_free: "heap_reach region regionSize m freeList (us @ (p, n) # vs) \<Longrightarrow> free_memory p m freeList = Some (m', freeList') \<Longrightarrow>
    heap_reach region regionSize m' freeList' (us @ vs)"
| reach_write: "heap_reach region regionSize m freeList live \<Longrightarrow> (p, n) \<in> set live \<Longrightarrow> unat p \<le> unat x \<Longrightarrow> unat x < unat p + unat n \<Longrightarrow>
    heap_reach region regionSize (m(x := v)) freeList live"

definition extent :: "block \<Rightarrow> nat set" where
  "extent b = {lo b..<hi b}"

definition owns :: "memory \<Rightarrow> u32 \<times> u32 \<Rightarrow> block \<Rightarrow> bool" where
  "owns m l b \<longleftrightarrow> held m b (fst l) \<and> unat (fst l) + unat (snd l) \<le> hi b"

definition shared :: "nat set \<Rightarrow> memory \<Rightarrow> u32 \<Rightarrow> (u32 \<times> u32) list \<Rightarrow> block list \<Rightarrow> block list \<Rightarrow> bool" where
  "shared R m freeList live bs hs \<longleftrightarrow> heap m freeList bs \<and> list_all2 (owns m) live hs \<and>
     sorted_wrt (\<lambda>b c. extent b \<inter> extent c = {}) hs \<and> covered bs \<inter> covered hs = {} \<and> covered bs \<union> covered hs = R"

lemma covered_extent: "covered bs = (\<Union>b \<in> set bs. extent b)"
  by (simp add: covered_def extent_def)

lemma extents_apart: "extent b \<inter> extent c = {} \<Longrightarrow> hi b \<le> lo c \<or> hi c \<le> lo b"
  by (rule ccontr, drule equals0D [where a = "max (lo b) (lo c)"]) (auto simp: extent_def lo_def hi_def)

lemma owns_cong:
  assumes "owns m l b" "\<And>x. unat x \<in> extent b \<Longrightarrow> unat x < unat (fst l) \<Longrightarrow> m' x = m x"
  shows "owns m' l b"
proof -
  have "held m b (fst l)" using assms(1) by (simp add: owns_def)
  moreover from this have "unat (fst l) < hi b" by (simp add: held_def)
  ultimately have "held m' b (fst l)" using assms(2) held_cong [of m b "fst l" m'] by (simp add: extent_def)
  then show ?thesis using assms(1) by (simp add: owns_def)
qed

lemma owns_all_cong:
  assumes "list_all2 (owns m) live hs" "\<And>x. unat x \<in> covered hs \<Longrightarrow> m' x = m x"
  shows "list_all2 (owns m') live hs"
proof (rule list.rel_mono_strong [OF assms(1)])
  fix l b assume "b \<in> set hs" "owns m l b"
  moreover from this have "unat x \<in> extent b \<Longrightarrow> m' x = m x" for x by (intro assms(2)) (auto simp: covered_extent)
  ultimately show "owns m' l b" using owns_cong by blast
qed

lemma owner: "list_all2 (owns m) live hs \<Longrightarrow> l \<in> set live \<Longrightarrow> \<exists>b \<in> set hs. owns m l b"
  by (induction rule: list_all2_induct) auto

lemma owners_apart:
  "list_all2 (owns m) live hs \<Longrightarrow> sorted_wrt (\<lambda>b c. extent b \<inter> extent c = {}) hs \<Longrightarrow>
    sorted_wrt (\<lambda>(p, n) (q, k). unat p + unat n \<le> unat q \<or> unat q + unat k \<le> unat p) live"
proof (induction rule: list_all2_induct)
  case (Cons l live b hs)
  have "unat (fst l) + unat (snd l) \<le> unat (fst l') \<or> unat (fst l') + unat (snd l') \<le> unat (fst l)" if l': "l' \<in> set live" for l'
  proof -
    obtain c where c: "c \<in> set hs" "owns m l' c" using owner [OF Cons.hyps(2) l'] by blast
    have "hi b \<le> lo c \<or> hi c \<le> lo b" using Cons.prems c(1) by (intro extents_apart) auto
    then show ?thesis using Cons.hyps(1) c(2) by (auto simp: owns_def held_def lo_def)
  qed
  then show ?case using Cons by fastforce
qed simp

lemma allocate_returns:
  assumes h: "heap m freeList bs" and k: "k \<le> 3"
  shows "allocate (2 ^ k) n m freeList \<noteq> None"
proof (cases "n = 0 \<or> (\<forall>b \<in> set bs. \<not> fits k n b)")
  case True
  have "chain m freeList bs 0" "blocks_ok bs" using h by (simp_all add: heap_def)
  then show ?thesis using True allocate_none [of m freeList bs k n freeList 0] small_alignment [OF k] k by (auto simp: allocate_def)
next
  case False
  then obtain xs b ys where b: "bs = xs @ b # ys" "fits k n b" "\<forall>u \<in> set xs. \<not> fits k n u" using first_block [of bs "fits k n"] by blast
  have "blocks_ok bs" "k < 32" using h k by (simp_all add: heap_def)
  then show ?thesis using allocate_fits [OF h _ small_alignment [OF k] _ b(1,3,2)] False by auto
qed

lemma add_region:
  assumes r: "region \<noteq> 0" "4 dvd unat region" "4 dvd unat regionSize" "8 < unat regionSize" "unat region + unat regionSize < 4294967296"
  shows "\<exists>m' freeList. addContiguousMemoryRegion region regionSize m 0 = Some (m', freeList) \<and>
    shared {unat region..<unat region + unat regionSize} m' freeList [] [(region, regionSize - 8)] []"
proof -
  let ?b = "(region, regionSize - 8)" and ?m = "set_size m region (regionSize - 8)"
  have u: "unat (regionSize - 8) = unat regionSize - 8" using r(4) unat_sub_no_wrap [of 8 regionSize] by simp
  then have hi: "hi ?b = unat region + unat regionSize" using r(4) by (simp add: hi_def)
  have ok: "block_ok ?b" using r hi u by (auto simp: block_ok_def header_ok_def word_unat_eq_iff)
  have "block_size ?m region = regionSize - 8" using block_okD(1) [OF ok] by (simp add: header_simps)
  then obtain m1 f1 where i: "insert_block ?m 0 region = Some (m1, f1)" "chain m1 f1 [?b] 0"
    using insert_block_spec [of ?m 0 "[]" "[]" region "regionSize - 8"] ok by auto
  obtain m2 where g: "mergeFreeBlocks m1 f1 = Some m2" "chain m2 f1 (merged [?b]) 0" using merge_spec [OF i(2)] ok by auto
  have "region mod 4 = 0" "regionSize mod 4 = 0" using r(2,3) by (simp_all add: word_unat_eq_iff unat_mod)
  moreover have "\<not> regionSize \<le> 8" using r(4) by (simp add: word_le_nat_alt)
  ultimately have "addContiguousMemoryRegion region regionSize m 0 = Some (m2, f1)" using i(1) g(1) by (simp add: addContiguousMemoryRegion_def)
  then show ?thesis using g(2) ok hi by (simp add: shared_def heap_def covered_def lo_def)
qed

lemma shared_alloc:
  assumes s: "shared R m freeList live bs hs" and k: "k \<le> 3" and run: "allocate (2 ^ k) n m freeList = Some (p, m', freeList')" "p \<noteq> 0"
  shows "\<exists>bs' b. shared R m' freeList' ((p, n) # live) bs' (b # hs)"
proof -
  have h: "heap m freeList bs" "blocks_ok bs" "chain m freeList bs 0" using s by (simp_all add: shared_def heap_def)
  have n: "n \<noteq> 0" and k32: "k < 32" using run k by (auto simp: allocate_def)
  have "\<exists>b \<in> set bs. fits k n b"
    using allocate_none [OF h(3,2) small_alignment [OF k h(2)] k32, of n freeList 0] run n k32 by (auto simp: allocate_def power_of_two)
  then obtain xs b ys where b: "bs = xs @ b # ys" "fits k n b" "\<forall>u \<in> set xs. \<not> fits k n u" by (rule first_block)
  from allocate_fits [OF h(1) k32 small_alignment [OF k h(2)] n b(1,3,2)] run obtain d where
    d: "4 dvd unat d" "d \<noteq> 0" "unat d \<le> unat (snd b)" "unat p + unat n \<le> hi (fst b, d)"
    "heap m' freeList' (xs @ rest_of b d @ ys)" "held m' (fst b, taken b d) p" "\<forall>x. unat x \<notin> covered bs \<longrightarrow> m' x = m x" by auto
  have ok: "blocks_ok (xs @ b # ys)" "block_ok b" using h(2) b(1) by simp_all
  let ?b = "(fst b, taken b d)" and ?zs = "xs @ rest_of b d @ ys"
  have "covered ?zs \<inter> extent ?b = {}" using cut_list(2) [OF ok(1) d(1-3)] by (force simp: extent_def lo_def)
  moreover have cov: "covered ?zs \<union> extent ?b = covered bs" using cut_list(3) [OF ok(1) d(1-3)] b(1) by (auto simp: covered_Cons extent_def)
  moreover have "unat p + unat n \<le> hi ?b" using d(4) rest_of_facts(3) [OF ok(2) d(1-3)] by (simp add: hi_def)
  moreover have "list_all2 (owns m') live hs"
    using owns_all_cong [of m live hs m'] s d(7) unfolding shared_def by blast
  moreover have "covered (?b # hs) = extent ?b \<union> covered hs" by (auto simp: covered_extent)
  moreover have "extent ?b \<inter> extent c = {}" if "c \<in> set hs" for c
  proof -
    have "extent c \<subseteq> covered hs" using that by (auto simp: covered_extent)
    then show ?thesis using cov s unfolding shared_def by blast
  qed
  ultimately have "shared R m' freeList' ((p, n) # live) ?zs (?b # hs)"
    using s d(5,6) unfolding shared_def by (auto simp: owns_def)
  then show ?thesis by blast
qed

lemma shared_alloc_failed:
  assumes s: "shared R m freeList live bs hs" and k: "k \<le> 3" and run: "allocate (2 ^ k) n m freeList = Some (0, m', freeList')"
  shows "m' = m \<and> freeList' = freeList"
proof (cases "n = 0 \<or> (\<forall>b \<in> set bs. \<not> fits k n b)")
  case True
  have h: "chain m freeList bs 0" "blocks_ok bs" using s by (simp_all add: shared_def heap_def)
  show ?thesis using True allocate_none [OF h small_alignment [OF k h(2)], of n freeList 0] run k by (auto simp: allocate_def power_of_two split: if_splits)
next
  case False
  then obtain xs b ys where b: "bs = xs @ b # ys" "fits k n b" "\<forall>u \<in> set xs. \<not> fits k n u" using first_block [of bs "fits k n"] by blast
  have h: "heap m freeList bs" "blocks_ok bs" "k < 32" using s k by (simp_all add: shared_def heap_def)
  from allocate_fits [OF h(1,3) small_alignment [OF k h(2)] _ b(1,3,2)] run False show ?thesis by auto
qed

lemma shared_free:
  assumes s: "shared R m freeList (us @ (p, n) # vs) bs hs" and run: "free_memory p m freeList = Some (m', freeList')"
  shows "\<exists>bs' hs'. shared R m' freeList' (us @ vs) bs' hs'"
proof -
  have h: "chain m freeList bs 0" "blocks_ok bs" "covered bs \<inter> covered hs = {}" "covered bs \<union> covered hs = R"
    "sorted_wrt (\<lambda>b c. extent b \<inter> extent c = {}) hs" using s by (simp_all add: shared_def heap_def)
  have "list_all2 (owns m) (us @ (p, n) # vs) hs" using s by (simp add: shared_def)
  then obtain hu b hv where hs: "hs = hu @ b # hv" "list_all2 (owns m) us hu" "owns m (p, n) b" "list_all2 (owns m) vs hv"
    unfolding list_all2_append1 list_all2_Cons1 by blast
  have held: "held m b p" "block_ok b" using hs(3) by (simp_all add: owns_def held_def)
  have cov: "covered hs = extent b \<union> covered (hu @ hv)" using hs(1) by (auto simp: covered_extent)
  have apart: "extent b \<inter> covered (hu @ hv) = {}" using h(5) hs(1) by (auto simp: covered_extent sorted_wrt_append)
  have "covered bs \<inter> {lo b..<hi b} = {}" using h(3) cov unfolding extent_def [symmetric] by blast
  then obtain xs ys where xy: "bs = xs @ ys" "blocks_ok (xs @ b # ys)" by (rule place_block [OF h(2) held(2)])
  have new: "covered (xs @ b # ys) = covered bs \<union> extent b" using xy(1) by (auto simp: covered_extent)
  obtain g: "heap m' freeList' (merged (xs @ b # ys))" "same_outside (xs @ b # ys) m m'"
    using release_at [of m freeList xs ys b p] h(1) xy held(1) run by auto
  have "list_all2 (owns m') (us @ vs) (hu @ hv)"
  proof (rule owns_all_cong)
    show "list_all2 (owns m) (us @ vs) (hu @ hv)" using hs by (auto intro: list_all2_appendI)
    show "m' x = m x" if "unat x \<in> covered (hu @ hv)" for x
      using same_outside_covered [OF g(2), of x] that new cov apart h(3) by blast
  qed
  moreover have "covered (merged (xs @ b # ys)) = covered bs \<union> extent b" using merged_facts [OF xy(2)] new by simp
  moreover have "sorted_wrt (\<lambda>b c. extent b \<inter> extent c = {}) (hu @ hv)" using h(5) hs(1) by (simp add: sorted_wrt_append)
  ultimately have "shared R m' freeList' (us @ vs) (merged (xs @ b # ys)) (hu @ hv)"
    using g(1) h(3,4) cov apart unfolding shared_def by blast
  then show ?thesis by blast
qed

lemma shared_write:
  assumes s: "shared R m freeList live bs hs" and l: "(p, n) \<in> set live" "unat p \<le> unat x" "unat x < unat p + unat n"
  shows "shared R (m(x := v)) freeList live bs hs"
proof -
  let ?m = "m(x := v)"
  have h: "chain m freeList bs 0" "blocks_ok bs" "separated bs" "covered bs \<inter> covered hs = {}" "list_all2 (owns m) live hs"
    "sorted_wrt (\<lambda>b c. extent b \<inter> extent c = {}) hs" using s by (simp_all add: shared_def heap_def)
  obtain us vs where live: "live = us @ (p, n) # vs" using l(1) by (auto simp: in_set_conv_decomp)
  obtain hu b hv where hs: "hs = hu @ b # hv" "list_all2 (owns m) us hu" "owns m (p, n) b" "list_all2 (owns m) vs hv"
    using h(5) unfolding live list_all2_append1 list_all2_Cons1 by blast
  have x: "unat x \<in> extent b" using hs(3) l(2,3) by (auto simp: owns_def held_def extent_def lo_def)
  have "chain ?m freeList bs 0"
    by (rule chain_beyond [OF h(1,2)]) (use x h(4) hs(1) in \<open>auto simp: covered_extent\<close>)
  moreover have "list_all2 (owns ?m) us hu" "list_all2 (owns ?m) vs hv"
  proof -
    have "unat x \<notin> covered hu" "unat x \<notin> covered hv" using h(6) x hs(1) by (auto simp: covered_extent sorted_wrt_append)
    then show "list_all2 (owns ?m) us hu" "list_all2 (owns ?m) vs hv"
      by (auto intro!: owns_all_cong [OF hs(2)] owns_all_cong [OF hs(4)])
  qed
  moreover have "owns ?m (p, n) b" by (rule owns_cong [OF hs(3)]) (use l(2) in auto)
  ultimately have "heap ?m freeList bs" "list_all2 (owns ?m) live hs" using h(2,3) hs(1) live by (auto simp: heap_def intro: list_all2_appendI)
  with s show ?thesis by (simp add: shared_def)
qed

lemma reach_shared:
  assumes r: "region \<noteq> 0" "4 dvd unat region" "4 dvd unat regionSize" "8 < unat regionSize" "unat region + unat regionSize < 4294967296"
    and "heap_reach region regionSize m freeList live"
  shows "\<exists>bs hs. shared {unat region..<unat region + unat regionSize} m freeList live bs hs"
  using assms(6)
proof (induction rule: heap_reach.induct)
  case (reach_start m m' freeList)
  then show ?case using add_region [OF r, of m] by auto
next
  case (reach_alloc m freeList live k n p m' freeList')
  then obtain bs hs where s: "shared {unat region..<unat region + unat regionSize} m freeList live bs hs" by blast
  show ?case
  proof (cases "p = 0")
    case True
    then have "m' = m \<and> freeList' = freeList" using shared_alloc_failed [OF s reach_alloc(2)] reach_alloc(3) by blast
    with s True show ?thesis by auto
  next
    case False
    then show ?thesis using shared_alloc [OF s reach_alloc(2,3)] by auto
  qed
next
  case (reach_free m freeList us p n vs m' freeList')
  then show ?case using shared_free by blast
next
  case (reach_write m freeList live p n x v)
  then show ?case using shared_write by blast
qed

text \<open>C15. However allocations with an alignment up to 8, releases and writes into allocated memory follow each other on a region, the live
  allocations lie inside the region and never overlap, and no later call of \<open>allocate\<close>, or of \<open>free\<close> for a live allocation, runs forever.\<close>

theorem memory_live:
  assumes r: "region \<noteq> 0" "4 dvd unat region" "4 dvd unat regionSize" "8 < unat regionSize" "unat region + unat regionSize < 4294967296"
    and reach: "heap_reach region regionSize m freeList live"
  shows "(\<forall>(p, n) \<in> set live. unat region + 8 \<le> unat p \<and> unat p + unat n \<le> unat region + unat regionSize) \<and>
    sorted_wrt (\<lambda>(p, n) (q, k). unat p + unat n \<le> unat q \<or> unat q + unat k \<le> unat p) live \<and>
    (\<forall>k \<le> 3. \<forall>n. allocate (2 ^ k) n m freeList \<noteq> None) \<and> (\<forall>(p, n) \<in> set live. free_memory p m freeList \<noteq> None)"
proof -
  let ?R = "{unat region..<unat region + unat regionSize}"
  obtain bs hs where s: "shared ?R m freeList live bs hs" using reach_shared [OF r reach] by blast
  have own: "list_all2 (owns m) live hs" and dis: "sorted_wrt (\<lambda>b c. extent b \<inter> extent c = {}) hs"
    and cov: "covered bs \<inter> covered hs = {}" "covered hs \<subseteq> ?R" and h: "heap m freeList bs" using s by (auto simp: shared_def)
  have "unat region + 8 \<le> unat p \<and> unat p + unat n \<le> unat region + unat regionSize \<and> free_memory p m freeList \<noteq> None"
    if l: "(p, n) \<in> set live" for p n
  proof -
    obtain b where b: "b \<in> set hs" "owns m (p, n) b" using owner [OF own l] by blast
    have "extent b \<subseteq> covered hs" using b(1) by (auto simp: covered_extent)
    then have "extent b \<subseteq> ?R" "covered bs \<inter> {lo b..<hi b} = {}" using cov unfolding extent_def [symmetric] by blast+
    moreover have held: "held m b p" "unat p + unat n \<le> hi b" "block_ok b" using b(2) by (simp_all add: owns_def held_def)
    moreover have "blocks_ok bs" using h by (simp add: heap_def)
    ultimately obtain xs ys where "bs = xs @ ys" "blocks_ok (xs @ b # ys)" using place_block by blast
    then have "free_memory p m freeList \<noteq> None" using release_at [of m freeList xs ys b p] h held(1) by (auto simp: heap_def)
    moreover have "lo b < hi b" by (simp add: lo_def hi_def)
    ultimately show ?thesis using \<open>extent b \<subseteq> ?R\<close> held(1,2) by (auto simp: extent_def held_def lo_def)
  qed
  moreover have "sorted_wrt (\<lambda>(p, n) (q, k). unat p + unat n \<le> unat q \<or> unat q + unat k \<le> unat p) live"
    by (rule owners_apart [OF own dis])
  moreover have "allocate (2 ^ k) n m freeList \<noteq> None" if "k \<le> 3" for k n
    by (rule allocate_returns [OF h that])
  ultimately show ?thesis by blast
qed

text \<open>One allocation on a region of 0x108 bytes.\<close>

theorem memory_live_witness:
  "\<exists>m freeList p. heap_reach 0x100000 0x108 m freeList [(p, 6)] \<and> 0x100008 \<le> unat p \<and> unat p + 6 \<le> 0x100108 \<and> free_memory p m freeList \<noteq> None"
proof -
  have r: "(0x100000 :: u32) \<noteq> 0" "4 dvd unat (0x100000 :: u32)" "4 dvd unat (0x108 :: u32)" "8 < unat (0x108 :: u32)"
    "unat (0x100000 :: u32) + unat (0x108 :: u32) < 4294967296" by simp_all
  obtain m0 f0 where add: "addContiguousMemoryRegion 0x100000 0x108 (\<lambda>_. 0) 0 = Some (m0, f0)" and "shared {0x100000..<0x100108} m0 f0 [] [(0x100000, 0x100)] []"
    using add_region [OF r, of "\<lambda>_. 0"] by auto
  then have h: "heap m0 f0 [(0x100000, 0x100)]" by (simp add: shared_def)
  have start: "heap_reach 0x100000 0x108 m0 f0 []" using add by (rule reach_start)
  have f: "fits 3 6 (0x100000, 0x100)" "roomy 3 [(0x100000, 0x100)]" by (simp_all add: fits_def roomy_def padding_def)
  from allocate_fits [OF h _ f(2), of 6 "[]" "(0x100000, 0x100)" "[]"] f(1) obtain p m' freeList' where
    run: "allocate (2 ^ 3) 6 m0 f0 = Some (p, m', freeList')" and p: "0x100008 \<le> unat p" by auto
  have "p \<noteq> 0" using p by auto
  then have reach: "heap_reach 0x100000 0x108 m' freeList' [(p, 6)]" using reach_alloc [OF start _ run] by simp
  from memory_live [OF r reach] reach show ?thesis by (intro exI [of _ m'] exI [of _ freeList'] exI [of _ p]) auto
qed

text \<open>With an alignment of 16 a block can be smaller than the padding: the size that is left wraps around, and the address that is
  returned lies behind the block, which ends at 0x10000C.\<close>

lemma allocate_outside_block:
  "\<exists>m' freeList'. allocate 16 4 (set_next (set_size (\<lambda>_. 0) 0x100000 4) 0x100000 0) 0x100000 = Some (0x100010, m', freeList') \<and>
    heap (set_next (set_size (\<lambda>_. 0) 0x100000 4) 0x100000 0) 0x100000 [(0x100000, 4)] \<and> hi (0x100000, 4) = 0x10000C"
proof -
  let ?m = "set_next (set_size (\<lambda>_. 0) 0x100000 4) 0x100000 0"
  have ok: "header_ok 0x100000" by (simp add: header_ok_def)
  have m: "block_size ?m 0x100000 = 4" "block_next ?m 0x100000 = 0" using ok by (simp_all add: header_simps)
  have a: "aligned_address 16 0x100008 = 0x100010" by (simp add: aligned_address_def)
  have "allocate 16 4 ?m 0x100000 = Some (take_block 4 ?m 0x100000 0x100000 0 0x100010)"
    by (subst allocate_def, subst allocate_loop.simps) (simp add: Let_def m a)
  moreover have "fst (take_block 4 ?m 0x100000 0x100000 0 0x100010) = 0x100010" by (simp add: take_block_def Let_def case_prod_beta)
  ultimately have "\<exists>m' freeList'. allocate 16 4 ?m 0x100000 = Some (0x100010, m', freeList')" by (metis prod.collapse)
  moreover have "heap ?m 0x100000 [(0x100000, 4)]" using m ok by (simp add: heap_def block_ok_def hi_def)
  ultimately show ?thesis by (simp add: hi_def)
qed

end
