(* ===== verification/Boot.thy ===== *)
theory Boot
  imports Page_Properties Cpp_Lib
begin

text \<open>
  The memory map at boot (\<open>global_resources/bios_map.cpp\<close> and the part of \<open>main/main.cpp\<close> that sets up the page allocator): the kernel's own
  pages, the regions the BIOS reports as not usable and the registers of the network card are marked as allocated before any
  task asks for memory.
\<close>

type_synonym u64 = "64 word"

record BIOSMapEntry =
  regionAddr :: u64
  regionLength :: u64
  regionType :: u32
  extendedAttributes :: u32

abbreviation (input) BIOS_MAP_ADDR :: u32 where "BIOS_MAP_ADDR \<equiv> 0x800"
abbreviation (input) LAST_ACCESSIBLE_ADDRESS :: u64 where "LAST_ACCESSIBLE_ADDRESS \<equiv> 0xFFBFFFFF"

definition load_qword :: "memory \<Rightarrow> u32 \<Rightarrow> u64" where
  "load_qword m a = ucast (load_dword m (a + 4)) * 0x100000000 + ucast (load_dword m a)"

definition getBIOSMapSize :: "memory \<Rightarrow> u32" where
  "getBIOSMapSize m = load_dword m BIOS_MAP_ADDR"

definition getBIOSMapEntry :: "memory \<Rightarrow> u32 \<Rightarrow> BIOSMapEntry" where
  "getBIOSMapEntry m index =
     (if index \<ge> getBIOSMapSize m then \<lparr>regionAddr = 0, regionLength = 0, regionType = 0, extendedAttributes = 0\<rparr>
      else
        let a = BIOS_MAP_ADDR + 4 + 3 * 8 * index in
        \<lparr>regionAddr = load_qword m a, regionLength = load_qword m (a + 8),
         regionType = load_dword m (a + 16), extendedAttributes = load_dword m (a + 20)\<rparr>)"

text \<open>The body of the loop over the map; \<open>None\<close> is \<open>continue\<close>.\<close>

definition reserved_range :: "BIOSMapEntry \<Rightarrow> (u32 \<times> u32) option" where
  "reserved_range e =
     (if extendedAttributes e AND 1 = 0 then None
      else if regionType e = 1 \<or> regionType e = 3 then None
      else if regionLength e = 0 then None
      else if regionAddr e > LAST_ACCESSIBLE_ADDRESS then None
      else Some (ucast (regionAddr e) div 4096,
        if regionAddr e + regionLength e - 1 > LAST_ACCESSIBLE_ADDRESS then 1024 * 1023 - 1
        else ucast (regionAddr e + regionLength e - 1) div 4096))"

definition reserve_entry :: "BIOSMapEntry \<Rightarrow> PagingStructures \<Rightarrow> PagingStructures option" where
  "reserve_entry e st = (case reserved_range e of None \<Rightarrow> Some st | Some (first, final) \<Rightarrow> allocatePageRange st first final)"

text \<open>\<open>base\<close> is the address of the paging structures and \<open>mmio\<close> the base of the card's registers, if it maps them into memory.\<close>

definition boot_pages :: "memory \<Rightarrow> u32 option \<Rightarrow> u32 \<Rightarrow> PagingStructures option" where
  "boot_pages m mmio base = do {
     st \<leftarrow> allocatePageRange (PageAllocator_new (PagingStructures_new base)) 0 (8 * 1024 - 1);
     st \<leftarrow> for_each (\<lambda>i. reserve_entry (getBIOSMapEntry m (of_nat i))) [0..<unat (getBIOSMapSize m)] st;
     case mmio of None \<Rightarrow> Some st | Some ioBase \<Rightarrow> allocatePageRange st (ioBase div 0x1000) (ioBase div 0x1000) }"

subsection \<open>What is reserved\<close>

text \<open>The pages below the window of the page tables that hold a byte of a region that is valid and neither usable nor reclaimable.\<close>

definition occupied :: "BIOSMapEntry \<Rightarrow> nat set" where
  "occupied e = (if extendedAttributes e AND 1 = 0 \<or> regionType e = 1 \<or> regionType e = 3 then {}
     else {p. p < NUM_PAGES \<and> (\<exists>x. x div 4096 = p \<and> unat (regionAddr e) \<le> x \<and> x < unat (regionAddr e) + unat (regionLength e))})"

lemma pages_between:
  fixes a b :: nat
  assumes "a \<le> b"
  shows "(\<exists>x. x div 4096 = p \<and> a \<le> x \<and> x \<le> b) \<longleftrightarrow> a div 4096 \<le> p \<and> p \<le> b div 4096"
proof
  assume "a div 4096 \<le> p \<and> p \<le> b div 4096"
  then have "max a (4096 * p) div 4096 = p \<and> a \<le> max a (4096 * p) \<and> max a (4096 * p) \<le> b"
    using assms by (auto simp: max_def)
  then show "\<exists>x. x div 4096 = p \<and> a \<le> x \<and> x \<le> b" by blast
qed (auto intro: div_le_mono)

lemma range_allocated:
  assumes "pa_inv st" "unat f \<le> unat l" "unat l < NUM_PAGES"
  obtains st' where "allocatePageRange st f l = Some st'" "pa_inv st'" "allocated st' = allocated st \<union> {unat f..unat l}"
proof -
  obtain st' where st': "allocatePageRange st f l = Some st'" "pa_inv st'"
    "\<And>p. p < NUM_PAGES \<Longrightarrow> page_code st' p = (if unat f \<le> p \<and> p \<le> unat l then page_code st p OR 1 else page_code st p)"
    by (rule allocatePageRange_spec [OF assms]) metis
  have "allocated st' = allocated st \<union> {unat f..unat l}" using st'(3) assms(3) or_nonzero [of 1] by (auto simp: allocated_def split: if_splits)
  with st' that show ?thesis by blast
qed

lemma reserved_range_pages:
  assumes fit: "unat (regionAddr e) + unat (regionLength e) \<le> 18446744073709551616"
  shows "case reserved_range e of None \<Rightarrow> occupied e = {}
    | Some (f, l) \<Rightarrow> unat f \<le> unat l \<and> unat l < NUM_PAGES \<and> occupied e = {unat f..unat l}"
proof -
  let ?A = "unat (regionAddr e)" and ?L = "unat (regionLength e)"
  consider (skip) "extendedAttributes e AND 1 = 0 \<or> regionType e = 1 \<or> regionType e = 3 \<or> regionLength e = 0" |
    (high) "\<not> (extendedAttributes e AND 1 = 0 \<or> regionType e = 1 \<or> regionType e = 3 \<or> regionLength e = 0)" "regionAddr e > LAST_ACCESSIBLE_ADDRESS" |
    (low) "\<not> (extendedAttributes e AND 1 = 0 \<or> regionType e = 1 \<or> regionType e = 3 \<or> regionLength e = 0)" "\<not> regionAddr e > LAST_ACCESSIBLE_ADDRESS"
    by blast
  then show ?thesis
  proof cases
    case skip
    then show ?thesis by (auto simp: reserved_range_def occupied_def)
  next
    case high
    then have "0xFFBFFFFF < ?A" by (simp add: word_less_nat_alt)
    then have "\<not> x div 4096 < NUM_PAGES" if "?A \<le> x" for x using that by (simp add: div_less_iff_less_mult)
    then have "occupied e = {}" by (auto simp: occupied_def)
    then show ?thesis using high by (simp add: reserved_range_def)
  next
    case low
    define E where "E = ?A + ?L - 1"
    have A: "?A \<le> 0xFFBFFFFF" and L: "0 < ?L" using low by (auto simp: word_less_nat_alt unat_eq_zero intro: ccontr)
    have last: "unat (regionLength e - 1) = ?L - 1" using low by (intro unat_minus_one) auto
    have sum: "regionAddr e + regionLength e - 1 = regionAddr e + (regionLength e - 1)" by simp
    have "?A + (?L - 1) < 18446744073709551616" using fit L by linarith
    then have "unat (regionAddr e + (regionLength e - 1)) = ?A + (?L - 1)"
      using unat_add_lem [of "regionAddr e" "regionLength e - 1"] by (simp add: last)
    then have E: "unat (regionAddr e + regionLength e - 1) = E" unfolding sum using L by (simp add: E_def)
    have f: "unat (ucast (regionAddr e) div 4096 :: u32) = ?A div 4096"
      using A by (simp add: unat_div unsigned_ucast_eq take_bit_nat_eq_self)
    have le: "?A \<le> E" using L by (simp add: E_def)
    have occ: "occupied e = {p. p < NUM_PAGES \<and> ?A div 4096 \<le> p \<and> p \<le> E div 4096}"
    proof -
      have "(x < ?A + ?L) = (x \<le> E)" for x using L by (auto simp: E_def)
      then show ?thesis using low(1) pages_between [OF le] by (simp add: occupied_def)
    qed
    have fl: "?A div 4096 \<le> E div 4096" using le by (rule div_le_mono)
    show ?thesis
    proof (cases "E > 0xFFBFFFFF")
      case True
      then have "NUM_PAGES \<le> E div 4096" by (simp add: less_eq_div_iff_mult_less_eq)
      moreover have "?A div 4096 < NUM_PAGES" using A by (simp add: div_less_iff_less_mult)
      moreover have "reserved_range e = Some (ucast (regionAddr e) div 4096, 1047551)"
        using low True E by (simp add: reserved_range_def word_less_nat_alt)
      ultimately show ?thesis unfolding occ by (auto simp: f)
    next
      case False
      have l: "unat (ucast (regionAddr e + regionLength e - 1) div 4096 :: u32) = E div 4096"
        using False E by (simp add: unat_div unsigned_ucast_eq take_bit_nat_eq_self)
      have "E div 4096 < NUM_PAGES" using False by (simp add: div_less_iff_less_mult)
      moreover have "reserved_range e = Some (ucast (regionAddr e) div 4096, ucast (regionAddr e + regionLength e - 1) div 4096)"
        using low False E by (simp add: reserved_range_def word_less_nat_alt)
      ultimately show ?thesis unfolding occ using fl by (auto simp: f l)
    qed
  qed
qed

lemma entry_reserved:
  assumes "pa_inv st" "unat (regionAddr e) + unat (regionLength e) \<le> 18446744073709551616"
  obtains st' where "reserve_entry e st = Some st'" "pa_inv st'" "allocated st' = allocated st \<union> occupied e"
proof (cases "reserved_range e")
  case None
  then show ?thesis using that [of st] reserved_range_pages [OF assms(2)] assms(1) by (simp add: reserve_entry_def)
next
  case (Some r)
  obtain f l where r: "r = (f, l)" by (cases r)
  then have fl: "unat f \<le> unat l" "unat l < NUM_PAGES" "occupied e = {unat f..unat l}" using reserved_range_pages [OF assms(2)] Some by simp_all
  obtain st' where "allocatePageRange st f l = Some st'" "pa_inv st'" "allocated st' = allocated st \<union> {unat f..unat l}"
    by (rule range_allocated [OF assms(1) fl(1,2)])
  then show ?thesis using that [of st'] Some r fl(3) by (simp add: reserve_entry_def)
qed

lemma map_reserved:
  assumes "pa_inv st" "\<forall>i \<in> set is. unat (regionAddr (e i)) + unat (regionLength (e i)) \<le> 18446744073709551616"
  shows "\<exists>st'. for_each (\<lambda>i. reserve_entry (e i)) is st = Some st' \<and> pa_inv st' \<and> allocated st' = allocated st \<union> (\<Union>i \<in> set is. occupied (e i))"
  using assms
proof (induction "is" arbitrary: st)
  case (Cons i js)
  obtain st1 where st1: "reserve_entry (e i) st = Some st1" "pa_inv st1" "allocated st1 = allocated st \<union> occupied (e i)"
    using entry_reserved [OF Cons.prems(1), of "e i"] Cons.prems(2) by auto
  with Cons.IH [of st1] Cons.prems(2) show ?case by auto
qed simp

lemma boot_pages_spec:
  assumes map: "\<forall>i < unat (getBIOSMapSize m). unat (regionAddr (getBIOSMapEntry m (of_nat i))) + unat (regionLength (getBIOSMapEntry m (of_nat i))) \<le> 18446744073709551616"
    and mmio: "\<forall>ioBase. mmio = Some ioBase \<longrightarrow> unat ioBase < 0xFFC00000" and base: "take_bit 12 base = 0"
  obtains st where "boot_pages m mmio base = Some st" "pa_inv st"
    "allocated st = {..<8192} \<union> (\<Union>i < unat (getBIOSMapSize m). occupied (getBIOSMapEntry m (of_nat i))) \<union> (\<lambda>a. unat a div 4096) ` set_option mmio"
proof -
  let ?occ = "\<Union>i < unat (getBIOSMapSize m). occupied (getBIOSMapEntry m (of_nat i))"
  note new = PageAllocator_new_inv [OF PagingStructures_new_shape [OF base]]
  obtain st1 where st1: "allocatePageRange (PageAllocator_new (PagingStructures_new base)) 0 (8 * 1024 - 1) = Some st1" "pa_inv st1"
    "allocated st1 = {..8191}" using range_allocated [OF new(1), of 0 "8 * 1024 - 1"] new(2) by (auto simp: atLeast0AtMost)
  obtain st2 where st2: "for_each (\<lambda>i. reserve_entry (getBIOSMapEntry m (of_nat i))) [0..<unat (getBIOSMapSize m)] st1 = Some st2" "pa_inv st2"
    "allocated st2 = {..8191} \<union> ?occ"
    using map_reserved [OF st1(2), of "[0..<unat (getBIOSMapSize m)]" "\<lambda>i. getBIOSMapEntry m (of_nat i)"] map st1(3) by (auto simp: atLeast0LessThan)
  have "\<exists>st. (case mmio of None \<Rightarrow> Some st2 | Some ioBase \<Rightarrow> allocatePageRange st2 (ioBase div 0x1000) (ioBase div 0x1000)) = Some st \<and> pa_inv st \<and>
    allocated st = allocated st2 \<union> (\<lambda>a. unat a div 4096) ` set_option mmio"
  proof (cases mmio)
    case (Some a)
    have "unat (a div 0x1000) = unat a div 4096" by (simp add: unat_div)
    moreover have "unat a div 4096 < NUM_PAGES" using mmio Some by (simp add: div_less_iff_less_mult)
    ultimately show ?thesis using range_allocated [OF st2(2), of "a div 0x1000" "a div 0x1000"] Some by auto
  qed (use st2 in simp)
  then obtain st where st: "boot_pages m mmio base = Some st" "pa_inv st"
    "allocated st = allocated st2 \<union> (\<lambda>a. unat a div 4096) ` set_option mmio" using st1(1) st2(1) by (auto simp: boot_pages_def)
  moreover have "{..8191} = {..<8192 :: nat}" by auto
  ultimately show ?thesis using that [of st] st2(3) by (simp only:)
qed

text \<open>C17. Before the first task asks for memory, exactly the pages of the kernel below 0x2000000, every page that holds a byte of a
  region of the BIOS map that is not usable, and the page of the card's registers are marked as allocated; and no region that the
  allocator hands out later, in whatever order regions are allocated and freed, contains one of these pages.\<close>

theorem boot_reserves:
  assumes map: "\<forall>i < unat (getBIOSMapSize m). unat (regionAddr (getBIOSMapEntry m (of_nat i))) + unat (regionLength (getBIOSMapEntry m (of_nat i))) \<le> 18446744073709551616"
    and mmio: "\<forall>ioBase. mmio = Some ioBase \<longrightarrow> unat ioBase < 0xFFC00000" and base: "take_bit 12 base = 0"
  shows "\<exists>st. boot_pages m mmio base = Some st \<and> pa_inv st \<and>
    allocated st = {..<8192} \<union> (\<Union>i < unat (getBIOSMapSize m). occupied (getBIOSMapEntry m (of_nat i))) \<union> (\<lambda>a. unat a div 4096) ` set_option mmio \<and>
    (\<forall>st' L. pages_reachable st st' L \<longrightarrow> (\<forall>r \<in> L. pages_of r \<inter> allocated st = {}))"
proof -
  obtain st where st: "boot_pages m mmio base = Some st" "pa_inv st"
    "allocated st = {..<8192} \<union> (\<Union>i < unat (getBIOSMapSize m). occupied (getBIOSMapEntry m (of_nat i))) \<union> (\<lambda>a. unat a div 4096) ` set_option mmio"
    by (rule boot_pages_spec [OF assms])
  have "pages_of r \<inter> allocated st = {}" if "pages_reachable st st' L" "r \<in> L" for st' L r
    using pages_reachable_owns [OF that(1) st(2)] that(2) unfolding kernel_pages.owns_def by blast
  with st show ?thesis by (intro exI [of _ st]) simp
qed

text \<open>A map with one reserved page, at 0x3000000.\<close>

definition demo_map :: memory where
  "demo_map = store_bytes (\<lambda>_. 0) 0x800 (le32 1 @ le32 0x3000000 @ le32 0 @ le32 0x1000 @ le32 0 @ le32 2 @ le32 1)"

lemma demo_map:
  "getBIOSMapSize demo_map = 1"
  "getBIOSMapEntry demo_map 0 = \<lparr>regionAddr = 0x3000000, regionLength = 0x1000, regionType = 2, extendedAttributes = 1\<rparr>"
proof -
  have "stored demo_map 0x800 (le32 1 @ le32 0x3000000 @ le32 0 @ le32 0x1000 @ le32 0 @ le32 2 @ le32 1)"
    unfolding demo_map_def by (rule stored_store) simp
  then have "stored demo_map 0x800 (le32 1)" "stored demo_map 0x804 (le32 0x3000000)" "stored demo_map 0x808 (le32 0)"
    "stored demo_map 0x80C (le32 0x1000)" "stored demo_map 0x810 (le32 0)" "stored demo_map 0x814 (le32 2)" "stored demo_map 0x818 (le32 1)"
    unfolding stored_append by simp_all
  from this [THEN stored_le32] have d: "load_dword demo_map 0x800 = 1" "load_dword demo_map 0x804 = 0x3000000" "load_dword demo_map 0x808 = 0"
    "load_dword demo_map 0x80C = 0x1000" "load_dword demo_map 0x810 = 0" "load_dword demo_map 0x814 = 2" "load_dword demo_map 0x818 = 1"
    by (simp_all add: load_dword_def)
  then show size: "getBIOSMapSize demo_map = 1" by (simp add: getBIOSMapSize_def)
  show "getBIOSMapEntry demo_map 0 = \<lparr>regionAddr = 0x3000000, regionLength = 0x1000, regionType = 2, extendedAttributes = 1\<rparr>"
    using d by (simp add: getBIOSMapEntry_def size load_qword_def)
qed

lemma demo_occupied: "(\<Union>i < unat (getBIOSMapSize demo_map). occupied (getBIOSMapEntry demo_map (of_nat i))) = {0x3000}"
proof -
  have "occupied (getBIOSMapEntry demo_map 0) = {0x3000}"
    using reserved_range_pages [of "getBIOSMapEntry demo_map 0"] by (simp add: demo_map reserved_range_def word_less_nat_alt)
  moreover have "{..<unat (getBIOSMapSize demo_map)} = {0}" by (auto simp: demo_map)
  ultimately show ?thesis by simp
qed

theorem boot_reserves_witness:
  "\<exists>st. boot_pages demo_map (Some 0xFEB00000) 0x200000 = Some st \<and> pa_inv st \<and> 0x3000 \<in> allocated st \<and> 0xFEB00 \<in> allocated st \<and> 0x3001 \<notin> allocated st"
proof -
  have "take_bit 12 (0x200000 :: u32) = 0" by (rule aligned_example)
  from boot_reserves [of demo_map "Some 0xFEB00000" "0x200000", OF _ _ this] obtain st where
    "boot_pages demo_map (Some 0xFEB00000) 0x200000 = Some st" "pa_inv st" "allocated st = {..<8192} \<union> {0x3000} \<union> {0xFEB00}"
    unfolding demo_occupied by (auto simp: demo_map)
  then show ?thesis by auto
qed

subsection \<open>Address translation\<close>

lemma range_kernel_map:
  "kernel_map base st \<Longrightarrow> allocatePageRange st f l = Some st' \<Longrightarrow> kernel_map base st'"
  using mapping_allocatePageRange [of st f l st'] by (simp add: kernel_map_def)

lemma entry_kernel_map:
  "kernel_map base st \<Longrightarrow> reserve_entry e st = Some st' \<Longrightarrow> kernel_map base st'"
  by (auto simp: reserve_entry_def intro: range_kernel_map split: option.splits)

lemma map_kernel_map:
  "kernel_map base st \<Longrightarrow> for_each (\<lambda>i. reserve_entry (e i)) is st = Some st' \<Longrightarrow> kernel_map base st'"
  by (induction "is" arbitrary: st) (auto simp: Option.bind_eq_Some_conv intro: entry_kernel_map)

lemma boot_kernel_map:
  assumes "boot_pages m mmio base = Some st"
  shows "kernel_map base st"
proof -
  have "kernel_map base (PageAllocator_new (PagingStructures_new base))" by (simp add: kernel_map_def mapping_new)
  then show ?thesis using assms
    by (auto simp: boot_pages_def Option.bind_eq_Some_conv split: option.splits intro: range_kernel_map [OF map_kernel_map [OF range_kernel_map]] map_kernel_map [OF range_kernel_map])
qed

text \<open>C21. After the set-up of the page allocator at boot, with the kernel's pages, the regions of the BIOS map and the registers of the card
  reserved, and in every state the allocator reaches from there by allocating and freeing regions, the kernel's page directory, placed at a page
  boundary, maps every address below \<open>0xFFC00000\<close> to itself: the allocator's codes inside the entries never change what the processor reads.\<close>

theorem kernel_identity_mapping:
  assumes "boot_pages m mmio base = Some st0" "pages_reachable st0 st L" "structures_at pm base st" "take_bit 12 base = 0" "unat va < 0xFFC00000"
  shows "mmu_walk pm base va = Some va"
proof -
  from kernel_map_reachable [OF assms(2) boot_kernel_map [OF assms(1)]] have "kernel_memory pm base st"
    using assms(3,4) by (simp add: kernel_memory_def)
  then show ?thesis by (rule kernel_walk) (use assms(5) in simp)
qed

text \<open>The boot with \<open>demo_map\<close> and one region of 16 pages allocated afterwards.\<close>

theorem kernel_identity_mapping_witness:
  "\<exists>st0 st s. boot_pages demo_map (Some 0xFEB00000) 0x200000 = Some st0 \<and> allocateContiguousPages st0 16 = Some (page_address s, st) \<and>
    region st s 16 \<and> mmu_walk (memory_of st 0x200000) 0x200000 0xFEB00010 = Some 0xFEB00010"
proof -
  have base: "take_bit 12 (0x200000 :: u32) = 0" and served: "served_size 16" by (rule aligned_example) (simp add: served_size_def)
  obtain st0 where st0: "boot_pages demo_map (Some 0xFEB00000) 0x200000 = Some st0" "pa_inv st0" "allocated st0 = {..<8192} \<union> {0x3000} \<union> {0xFEB00}"
    by (rule boot_pages_spec [of demo_map "Some 0xFEB00000", OF _ _ base, unfolded demo_occupied]) (auto simp: demo_map)
  obtain a st where r: "allocateContiguousPages st0 16 = Some (a, st)" using kernel_pages.alloc_total [OF st0(2) served] by blast
  have "{16384..<16384 + 16} \<inter> allocated st0 = {}" unfolding st0(3) by auto
  then have "a \<noteq> 0xFFC00000" using kernel_pages.alloc_complete [OF st0(2) served _ _ r, of 16384] by simp
  then obtain s where s: "a = page_address s" "region st s 16" using kernel_pages.alloc_fresh [OF st0(2) served r] by auto
  have "s < 1047552" using s(2) by (simp add: region_def)
  then have reach: "pages_reachable st0 st {(s, 16)}"
    using pages_reachable.allocate [OF pages_reachable.start served, of st0 s st] r s(1) by simp
  have "structures_at (memory_of st 0x200000) 0x200000 st"
    by (rule memory_of_holds [OF kernel_map_reachable [OF reach boot_kernel_map [OF st0(1)]] base])
  from kernel_identity_mapping [OF st0(1) reach this base, of "0xFEB00010"] show ?thesis using st0(1) r s by auto
qed

end
