(* ===== verification/Screen.thy ===== *)
theory Screen
  imports Cpp_Lib
begin

text \<open>
  \<open>global_resources/screen.cpp\<close>: text output. The screen is the video buffer at 0xB8000, two bytes for each of 25 rows of 80 cells, and the
  position of the cursor in the two registers of the controller.
\<close>

abbreviation (input) VIDEO_BUFFER_ADDRESS :: u32 where "VIDEO_BUFFER_ADDRESS \<equiv> 0xB8000"
abbreviation (input) MAX_ROWS :: nat where "MAX_ROWS \<equiv> 25"
abbreviation (input) MAX_COLS :: nat where "MAX_COLS \<equiv> 80"

record Screen =
  videoMemory :: memory
  cursorHigh :: u8
  cursorLow :: u8

definition video :: "nat \<Rightarrow> u32" where
  "video offset = VIDEO_BUFFER_ADDRESS + of_nat offset"

definition getCursorOffset :: "Screen \<Rightarrow> nat" where
  "getCursorOffset s = 2 * (unat (cursorHigh s) * 256 + unat (cursorLow s))"

definition setCursorOffset :: "nat \<Rightarrow> Screen \<Rightarrow> Screen" where
  "setCursorOffset offset s = (let offset = offset div 2 in s\<lparr>cursorHigh := of_nat (offset div 256), cursorLow := of_nat (offset mod 256)\<rparr>)"

definition printChar :: "nat \<Rightarrow> u8 \<Rightarrow> Screen \<Rightarrow> nat \<times> Screen" where
  "printChar offset c s =
     (let m = videoMemory s;
          (offset, m) =
            (if c = 0x0A then (2 * (offset div (2 * MAX_COLS) + 1) * MAX_COLS, m)
             else (offset + 2, m(video offset := c, video (offset + 1) := 0x0F)));
          (offset, m) =
            (if offset \<ge> 2 * MAX_ROWS * MAX_COLS then
               let m = memCopy m (video (2 * MAX_COLS)) (video 0) (2 * (MAX_ROWS - 1) * MAX_COLS);
                   m = memClear m (video (2 * (MAX_ROWS - 1) * MAX_COLS)) (2 * MAX_COLS)
               in (offset - 2 * MAX_COLS, m)
             else (offset, m));
          s = setCursorOffset offset (s\<lparr>videoMemory := m\<rparr>)
      in (offset, s\<lparr>videoMemory := (videoMemory s)(video (offset + 1) := 0x0F)\<rparr>))"

definition Screen_new :: "Screen \<Rightarrow> Screen" where
  "Screen_new s = s\<lparr>videoMemory := (memClear (videoMemory s) VIDEO_BUFFER_ADDRESS (2 * MAX_COLS * MAX_ROWS))(VIDEO_BUFFER_ADDRESS + 1 := 0x0F),
     cursorHigh := 0, cursorLow := 0\<rparr>"

definition clearScreen :: "Screen \<Rightarrow> Screen" where
  "clearScreen s =
     (let s = setCursorOffset 0 (s\<lparr>videoMemory := memClear (videoMemory s) (video 0) (2 * MAX_COLS * MAX_ROWS)\<rparr>)
      in s\<lparr>videoMemory := (videoMemory s)(video 1 := 0x0F)\<rparr>)"

text \<open>The loop of \<open>printk\<close>, with the characters of the string.\<close>

fun print_loop :: "u8 list \<Rightarrow> nat \<Rightarrow> Screen \<Rightarrow> nat \<times> Screen" where
  "print_loop [] offset s = (offset, s)"
| "print_loop (c # cs) offset s = (let (offset, s) = printChar offset c s in print_loop cs offset s)"

definition printk :: "u8 list \<Rightarrow> Screen \<Rightarrow> Screen" where
  "printk message s = snd (print_loop message (getCursorOffset s) s)"

definition characters :: "string \<Rightarrow> u8 list" where
  "characters s = map of_char s"

definition printk_int :: "int \<Rightarrow> Screen \<Rightarrow> Screen" where
  "printk_int a s = printk (characters (intToDecimalString a)) s"

definition printkHex :: "u32 \<Rightarrow> Screen \<Rightarrow> Screen" where
  "printkHex a s = printk (characters (intToHexadecimalString a)) s"

definition printkHex64 :: "64 word \<Rightarrow> Screen \<Rightarrow> Screen" where
  "printkHex64 a s =
     (let lowerA = ucast (a AND 0xFFFFFFFF) :: u32; upperA = ucast (drop_bit 32 a AND 0xFFFFFFFF) :: u32;
          lowerString = intToHexadecimalString lowerA;
          s = (if upperA > 0 then
                 let s = printk (characters (intToHexadecimalString upperA)) s
                 in snd (print_loop (replicate (8 - length lowerString) 0x30) (getCursorOffset s) s)
               else s)
      in printk (characters lowerString) s)"

subsection \<open>Scrolling\<close>

lemma copyDwords_down:
  "unat to + 160 + 4 * d \<le> 4294967296 \<Longrightarrow> copyDwords d m (to + 160) to = store_bytes m to (load_bytes m (to + 160) (4 * d))"
proof (induction d arbitrary: m to)
  case 0
  then show ?case by (simp add: load_bytes_def)
next
  case (Suc d)
  let ?m = "store_bytes m to (load_bytes m (to + 160) 4)"
  have to: "unat (to + 4) = unat to + 4" using Suc.prems unat_add_no_wrap [of to 4] by simp
  have same: "load_bytes ?m (to + 160 + 4) (4 * d) = load_bytes m (to + 160 + 4) (4 * d)"
  proof (rule nth_equalityI)
    fix i assume "i < length (load_bytes ?m (to + 160 + 4) (4 * d))"
    then have i: "i < 4 * d" by simp
    have "to + 160 + 4 + of_nat i - to = of_nat (164 + i)" by simp
    moreover have "unat (of_nat (164 + i) :: u32) = 164 + i" by (rule unat_of_nat_u32) (use i Suc.prems in simp)
    ultimately have "4 \<le> unat (to + 160 + 4 + of_nat i - to)" by (simp del: of_nat_add)
    then have "?m (to + 160 + 4 + of_nat i) = m (to + 160 + 4 + of_nat i)" by (intro store_bytes_outside) simp
    then show "load_bytes ?m (to + 160 + 4) (4 * d) ! i = load_bytes m (to + 160 + 4) (4 * d) ! i" using i by simp
  qed simp
  have swap: "to + 4 + 160 = to + 160 + 4" by simp
  have "copyDwords (Suc d) m (to + 160) to = store_bytes ?m (to + 4) (load_bytes ?m (to + 160 + 4) (4 * d))"
    using Suc.IH [of "to + 4" ?m] Suc.prems to unfolding swap by simp
  also have "\<dots> = store_bytes m to (load_bytes m (to + 160) 4 @ load_bytes m (to + 160 + 4) (4 * d))"
    unfolding same using store_bytes_append [of "load_bytes m (to + 160) 4" "load_bytes m (to + 160 + 4) (4 * d)" m to] Suc.prems by simp
  also have "load_bytes m (to + 160) 4 @ load_bytes m (to + 160 + 4) (4 * d) = load_bytes m (to + 160) (4 * Suc d)"
    using load_split [of 4 "4 * Suc d" m "to + 160"] append_take_drop_id [of 4 "load_bytes m (to + 160) (4 * Suc d)"] by simp
  finally show ?case .
qed

lemma memCopy_down:
  assumes "unat to mod 4 = 0" "n mod 4 = 0" "unat to + 160 + n \<le> 4294967296"
  shows "memCopy m (to + 160) to n = store_bytes m to (load_bytes m (to + 160) n)"
proof (cases n)
  case 0
  then show ?thesis by (simp add: memCopy_def load_bytes_def)
next
  case (Suc k)
  obtain d where d: "n = 4 * d" using assms(2) by (auto simp: mod_eq_0_iff_dvd dvd_def)
  have "unat (to + 160) = unat to + 160" using assms(3) Suc unat_add_no_wrap [of to 160] by simp
  then have "unat (to + 160) mod 4 = 0" using assms(1) by (simp add: mod_add_eq [symmetric])
  then have "copy_head m (to + 160) to n = (m, to + 160, to, n)" using Suc by simp
  moreover have "n \<noteq> 0" using Suc by simp
  moreover have "n div 4 = d" "[n div 4 * 4..<n] = []" unfolding d by simp_all
  ultimately show ?thesis using copyDwords_down [of to d m] assms(3) unfolding memCopy_def d [symmetric] by (simp add: Let_def)
qed

lemma unat_video: "i \<le> 4000 \<Longrightarrow> unat (video i) = 0xB8000 + i"
  using unat_add_no_wrap [of VIDEO_BUFFER_ADDRESS "of_nat i"] by (simp add: video_def unat_of_nat_u32)

lemma video_inj: "i \<le> 4000 \<Longrightarrow> j \<le> 4000 \<Longrightarrow> video i = video j \<longleftrightarrow> i = j"
  using unat_video [of i] unat_video [of j] by (auto simp: word_unat_eq_iff)

lemma video_diff:
  assumes "i \<le> j" "j \<le> 4000"
  shows "unat (video j - video i) = j - i"
proof -
  have "video j - video i = of_nat (j - i)" using assms by (simp add: video_def of_nat_diff)
  moreover have "unat (of_nat (j - i) :: u32) = j - i" by (rule unat_of_nat_u32) (use assms in simp)
  ultimately show ?thesis by simp
qed

definition scrolled :: "memory \<Rightarrow> memory" where
  "scrolled m = memClear (memCopy m (video 160) (video 0) 3840) (video 3840) 160"

definition outside_video :: "u32 \<Rightarrow> bool" where
  "outside_video x \<longleftrightarrow> unat x < 0xB8000 \<or> 0xB8000 + 4000 \<le> unat x"

lemma store_outside_video:
  assumes "outside_video x" "i + length bs \<le> 4000"
  shows "store_bytes m (video i) bs x = m x"
proof (rule store_bytes_outside)
  have v: "unat (video i) = 0xB8000 + i" using assms(2) by (intro unat_video) simp
  show "length bs \<le> unat (x - video i)"
    using assms unat_sub_if' [of x "video i"] unat_u32_lt [of x] unfolding v by (auto simp: outside_video_def word_le_nat_alt v)
qed

lemma scrolled_bytes:
  "i < 3840 \<Longrightarrow> scrolled m (video i) = m (video (i + 160))"
  "3840 \<le> i \<Longrightarrow> i < 4000 \<Longrightarrow> scrolled m (video i) = 0"
  "outside_video x \<Longrightarrow> scrolled m x = m x"
proof -
  let ?c = "store_bytes m (video 0) (load_bytes m (video 0 + 160) 3840)"
  have up: "video 0 + 160 = video 160" "unat (video 0) = 0xB8000" using unat_video [of 0] by (simp_all add: video_def)
  have "memCopy m (video 0 + 160) (video 0) 3840 = ?c" by (rule memCopy_down) (simp_all add: up)
  then have s: "scrolled m = store_bytes ?c (video 3840) (replicate 160 0)" using memClear_spec [of 160] by (simp add: scrolled_def up)
  show "scrolled m (video i) = m (video (i + 160))" if i: "i < 3840"
  proof -
    have "unat (video i - video 3840) = 4294967296 + i - 3840"
      using unat_sub_if' [of "video i" "video 3840"] unat_video [of i] unat_video [of 3840] i by (simp add: word_le_nat_alt)
    then have "scrolled m (video i) = ?c (video i)" unfolding s using i by (intro store_bytes_outside) simp
    also have "\<dots> = load_bytes m (video 0 + 160) 3840 ! i" using i video_diff [of 0 i] by (simp add: store_bytes_def)
    finally show ?thesis using i by (simp add: video_def add.commute)
  qed
  show "scrolled m (video i) = 0" if i: "3840 \<le> i" "i < 4000"
  proof -
    have "i - 3840 < 160" using i by linarith
    then show ?thesis unfolding s using i video_diff [of 3840 i] by (simp add: store_bytes_def)
  qed
  show "scrolled m x = m x" if "outside_video x" unfolding s using store_outside_video [OF that] by simp
qed

subsection \<open>The screen as a terminal\<close>

text \<open>The characters of the 2000 cells, and what a character does to them and to the position.\<close>

definition cells :: "Screen \<Rightarrow> u8 list" where
  "cells s = map (\<lambda>p. videoMemory s (video (2 * p))) [0..<2000]"

definition type_char :: "u8 \<Rightarrow> nat \<times> u8 list \<Rightarrow> nat \<times> u8 list" where
  "type_char c = (\<lambda>(p, cs).
     let (p, cs) = (if c = 0x0A then ((p div 80 + 1) * 80, cs) else (p + 1, cs[p := c]))
     in if p \<ge> 2000 then (p - 80, drop 80 cs @ replicate 80 0) else (p, cs))"

lemma cursor_round: "n < 131072 \<Longrightarrow> even n \<Longrightarrow> getCursorOffset (setCursorOffset n s) = n"
  by (auto simp: getCursorOffset_def setCursorOffset_def Let_def unat_of_nat elim!: evenE)

lemma printChar_refines:
  assumes p: "p < 2000" and t: "type_char c (p, cells s) = (p', cs')"
  shows "\<exists>s'. printChar (2 * p) c s = (2 * p', s') \<and> cells s' = cs' \<and> getCursorOffset s' = 2 * p' \<and> p' < 2000 \<and>
    (\<forall>x. outside_video x \<longrightarrow> videoMemory s' x = videoMemory s x)"
proof -
  define m1 where "m1 = (if c = 0x0A then videoMemory s else (videoMemory s)(video (2 * p) := c, video (2 * p + 1) := 0x0F))"
  define q where "q = (if c = 0x0A then (p div 80 + 1) * 80 else p + 1)"
  define m2 where "m2 = (if q \<ge> 2000 then scrolled m1 else m1)"
  define r where "r = (if q \<ge> 2000 then q - 80 else q)"
  define s' where "s' = (setCursorOffset (2 * r) (s\<lparr>videoMemory := m2\<rparr>))\<lparr>videoMemory := m2(video (2 * r + 1) := 0x0F)\<rparr>"
  have "p div 80 < 25" using p by (simp add: div_less_iff_less_mult)
  then have q: "q \<le> 2000" and r: "r < 2000" using p by (auto simp: q_def r_def)
  have half: "2 * p div 160 = p div 80" using div_mult_mult1 [of 2 p 80] by simp
  have o1: "(if c = 0x0A then (2 * (2 * p div (2 * MAX_COLS) + 1) * MAX_COLS, videoMemory s)
      else (2 * p + 2, (videoMemory s)(video (2 * p) := c, video (2 * p + 1) := 0x0F))) = (2 * q, m1)"
    by (simp add: q_def m1_def half)
  have o2: "(if 2 * q \<ge> 2 * MAX_ROWS * MAX_COLS then (2 * q - 2 * MAX_COLS,
        memClear (memCopy m1 (video (2 * MAX_COLS)) (video 0) (2 * (MAX_ROWS - 1) * MAX_COLS)) (video (2 * (MAX_ROWS - 1) * MAX_COLS)) (2 * MAX_COLS))
      else (2 * q, m1)) = (2 * r, m2)"
    by (simp add: r_def m2_def scrolled_def diff_mult_distrib2)
  have run: "printChar (2 * p) c s = (2 * r, s')"
    unfolding printChar_def Let_def o1 prod.case o2 by (simp add: s'_def setCursorOffset_def Let_def)
  have m1: "map (\<lambda>i. m1 (video (2 * i))) [0..<2000] = (if c = 0x0A then cells s else (cells s)[p := c])"
    using p by (auto simp: m1_def cells_def video_inj nth_list_update intro!: nth_equalityI simp del: upt_rec_numeral)
  have cs': "cs' = (if q \<ge> 2000 then drop 80 (map (\<lambda>i. m1 (video (2 * i))) [0..<2000]) @ replicate 80 0 else map (\<lambda>i. m1 (video (2 * i))) [0..<2000])"
    unfolding m1 using t by (auto simp: type_char_def q_def split: if_splits)
  have m2: "map (\<lambda>i. m2 (video (2 * i))) [0..<2000] = cs'"
  proof (cases "q \<ge> 2000")
    case True
    have "scrolled m1 (video (2 * i)) = (if i < 1920 then m1 (video (2 * (i + 80))) else 0)" if "i < 2000" for i
      using that scrolled_bytes(1) [of "2 * i" m1] scrolled_bytes(2) [of "2 * i" m1] by (simp add: add.commute)
    then show ?thesis using True unfolding cs'
      by (intro nth_equalityI) (auto simp: m2_def nth_append add.commute simp del: upt_rec_numeral)
  qed (simp add: cs' m2_def del: upt_rec_numeral)
  have "2 * i \<noteq> Suc (2 * r)" for i by presburger
  then have "cells s' = cs'"
    using m2 r by (auto simp: s'_def cells_def video_inj setCursorOffset_def Let_def simp del: upt_rec_numeral)
  moreover have "getCursorOffset s' = 2 * r" using cursor_round [of "2 * r" "s\<lparr>videoMemory := m2\<rparr>"] r by (simp add: s'_def getCursorOffset_def)
  moreover have "p' = r" using t by (auto simp: type_char_def q_def r_def split: if_splits)
  moreover have "videoMemory s' x = videoMemory s x" if "outside_video x" for x
  proof -
    have "x \<noteq> video i" if "i < 4000" for i using \<open>outside_video x\<close> unat_video [of i] that by (auto simp: outside_video_def)
    then show ?thesis using p r that by (simp add: s'_def m2_def m1_def scrolled_bytes(3))
  qed
  ultimately show ?thesis using run r by blast
qed

lemma print_loop_refines:
  assumes "p < 2000" "fold type_char msg (p, cells s) = (p', cs')"
  shows "\<exists>s'. print_loop msg (2 * p) s = (2 * p', s') \<and> cells s' = cs' \<and> p' < 2000 \<and> (msg = [] \<or> getCursorOffset s' = 2 * p') \<and>
    (\<forall>x. outside_video x \<longrightarrow> videoMemory s' x = videoMemory s x)"
  using assms
proof (induction msg arbitrary: p s)
  case (Cons c msg)
  obtain q cs where t: "type_char c (p, cells s) = (q, cs)" by (cases "type_char c (p, cells s)")
  obtain s1 where s1: "printChar (2 * p) c s = (2 * q, s1)" "cells s1 = cs" "getCursorOffset s1 = 2 * q" "q < 2000"
    "\<forall>x. outside_video x \<longrightarrow> videoMemory s1 x = videoMemory s x" using printChar_refines [OF Cons.prems(1) t] by blast
  have "fold type_char msg (q, cells s1) = (p', cs')" using Cons.prems(2) t s1(2) by simp
  from Cons.IH [OF s1(4) this] s1 show ?case by (cases msg) auto
qed simp

text \<open>C38. \<open>printk\<close> is a terminal of 25 rows of 80 columns: each character goes into the cell at the cursor, a newline moves to the next
  row, and when the last row is full the rows move up by one and the last one becomes empty; the cursor registers hold the new position, which stays on the
  screen, and no byte outside of the video buffer changes.\<close>

theorem screen_terminal:
  assumes "getCursorOffset s = 2 * p" "p < 2000" "fold type_char msg (p, cells s) = (p', cs')"
  shows "cells (printk msg s) = cs' \<and> getCursorOffset (printk msg s) = 2 * p' \<and> p' < 2000 \<and>
    (\<forall>x. outside_video x \<longrightarrow> videoMemory (printk msg s) x = videoMemory s x)"
  using print_loop_refines [OF assms(2,3)] assms by (cases msg) (auto simp: printk_def)

text \<open>A line on an empty screen.\<close>

theorem screen_terminal_witness:
  "\<forall>m. getCursorOffset (printk [0x48, 0x69, 0x0A] (clearScreen \<lparr>videoMemory = m, cursorHigh = 7, cursorLow = 7\<rparr>)) = 160 \<and>
    cells (printk [0x48, 0x69, 0x0A] (clearScreen \<lparr>videoMemory = m, cursorHigh = 7, cursorLow = 7\<rparr>)) = [0x48, 0x69] @ replicate 1998 0"
proof
  fix m
  let ?s = "clearScreen \<lparr>videoMemory = m, cursorHigh = 7, cursorLow = 7\<rparr>"
  have "cells ?s ! i = 0" if "i < 2000" for i
    using that memClear_spec [of 4000 m "video 0"] video_diff [of 0 "2 * i"] video_inj [of "2 * i" 1]
    by (simp add: cells_def clearScreen_def setCursorOffset_def Let_def store_bytes_def del: upt_rec_numeral)
  then have "cells ?s = replicate 2000 0" by (intro nth_equalityI) (simp_all add: cells_def del: upt_rec_numeral)
  moreover have "fold type_char [0x48, 0x69, 0x0A] (0, replicate 2000 0) = (80, [0x48, 0x69] @ replicate 1998 0)"
  proof -
    have "replicate 2000 (0 :: u8) = [0, 0] @ replicate 1998 0" using replicate_add [of 2 1998 "0 :: u8"] by (simp add: numeral_2_eq_2)
    then show ?thesis by (simp only:) (simp add: type_char_def)
  qed
  moreover have "getCursorOffset ?s = 2 * 0" by (simp add: getCursorOffset_def clearScreen_def setCursorOffset_def Let_def)
  ultimately show "getCursorOffset (printk [0x48, 0x69, 0x0A] ?s) = 160 \<and> cells (printk [0x48, 0x69, 0x0A] ?s) = [0x48, 0x69] @ replicate 1998 0"
    using screen_terminal [of ?s 0 "[0x48, 0x69, 0x0A]"] by simp
qed

end
