(* ===== verification/Timers.thy ===== *)
theory Timers
  imports Interrupts
begin

text \<open>
  The two timers: the interval timer that switches tasks (\<open>cpu_core/timer.cpp\<close>) and the real time clock that drives the timeouts of the
  network stack (\<open>global_resources/rtc_timer.cpp\<close>).

  A callback is a value of any type, and \<open>run\<close> says what it does. \<open>None\<close> is the endless loop that stops the kernel when the core has not been
  set up; \<open>core\<close> is the handler table of the core, if it has.
\<close>

subsection \<open>The interval timer\<close>

record 'r Timer =
  timer_frequency :: u32
  timer_callback :: "'r option"

definition Timer_new :: "u32 \<Rightarrow> 'r Timer" where
  "Timer_new f = \<lparr>timer_frequency = if f = 0 \<or> f > 1193182 then 1 else f, timer_callback = None\<rparr>"

definition timer_divider :: "u32 \<Rightarrow> u16" where
  "timer_divider f = (let dividerInt = 1193182 div f in if dividerInt > 0xFFFF then 0xFFFF else ucast (dividerInt AND 0xFFFF))"

text \<open>The bytes written to the ports of the timer, and the new handler table.\<close>

definition Timer_bind ::
  "u32 \<Rightarrow> 'h \<Rightarrow> 'h InterruptHandlerManager option \<Rightarrow> 'r Timer \<Rightarrow> ((u16 \<times> u8) list \<times> 'h InterruptHandlerManager) option" where
  "Timer_bind self handler core tmr = do {
     let divider = timer_divider (timer_frequency tmr);
     let out = [(0x43, 0x36), (0x40, ucast (divider AND 0xFF)), (0x40, ucast (drop_bit 8 divider AND 0xFF))];
     mgr \<leftarrow> core;
     mgr \<leftarrow> setInterruptHandlerParam 32 self mgr;
     mgr \<leftarrow> setInterruptHandler 32 handler mgr;
     Some (out, mgr) }"

definition Timer_setTimerCallback :: "'r option \<Rightarrow> 'r Timer \<Rightarrow> 'r Timer" where
  "Timer_setTimerCallback pNewRunnable tmr = tmr\<lparr>timer_callback := pNewRunnable\<rparr>"

definition timerHandler :: "('r \<Rightarrow> 's \<Rightarrow> 's) \<Rightarrow> 'r Timer \<Rightarrow> 's \<Rightarrow> 's" where
  "timerHandler run tmr st = (case timer_callback tmr of None \<Rightarrow> st | Some r \<Rightarrow> run r st)"

text \<open>The divider of a constructed timer is never 0, which the chip would read as 65536; from 19 Hz on it is the quotient itself, below that the
  largest one.\<close>

lemma timer_divider_value:
  assumes g_def: "g = timer_frequency (Timer_new f)"
  shows   "unat (timer_divider g) = min 65535 (1193182 div unat g)"
  "0 < unat (timer_divider g)"
proof -
  define q where "q = 1193182 div g"
  have f: "0 < unat g" "unat g \<le> 1193182"
    by (auto simp: g_def Timer_new_def word_less_nat_alt unat_gt_0)
  have q: "unat q = 1193182 div unat g" by (simp add: q_def unat_div)
  have "unat (timer_divider g) = min 65535 (unat q)"
  proof (cases "q > 0xFFFF")
    case True
    then show ?thesis by (simp add: timer_divider_def q_def [symmetric] word_less_nat_alt)
  next
    case False
    then have "unat q \<le> 65535" by (simp add: word_less_nat_alt)
    moreover have "q AND 0xFFFF = take_bit 16 q" by (simp add: take_bit_eq_mask mask_eq_exp_minus_1)
    ultimately show ?thesis using False
      by (simp add: timer_divider_def q_def [symmetric] unsigned_ucast_eq take_bit_nat_eq_self unsigned_take_bit_eq min_def)
  qed
  then show "unat (timer_divider g) = min 65535 (1193182 div unat g)" by (simp add: q)
  then show "0 < unat (timer_divider g)" using f by (simp add: div_greater_zero_iff)
qed

text \<open>The processor finds the handler of the timer in the table after the binding; the other entries stay.\<close>

lemma Timer_bind_registers:
  assumes "length (interruptHandlers mgr) = 257"
  shows "\<exists>out mgr'. Timer_bind self handler (Some mgr) tmr = Some (out, mgr') \<and> idt mgr' = idt mgr \<and>
    interruptHandlers mgr' = (interruptHandlers mgr)[32 := (self, handler)]"
  using assms by (simp add: Timer_bind_def setInterruptHandler_def setInterruptHandlerParam_def Let_def)

subsection \<open>The real time clock\<close>

text \<open>The chip is its registers, of which the driver selects one by writing its number (bit 7 of which masks the non-maskable interrupt) to
  one port and accesses it through another. Reading register C clears it; as long as it holds a cause, the chip raises no further interrupt.\<close>

record 'r RTCTimer =
  interruptsEnabled :: bool
  pRunnable :: "'r option"
  cmos :: "u8 \<Rightarrow> u8"

definition cmos_read :: "u8 \<Rightarrow> 'r RTCTimer \<Rightarrow> u8" where
  "cmos_read select rtc = cmos rtc (select AND 0x7F)"

definition cmos_write :: "u8 \<Rightarrow> u8 \<Rightarrow> 'r RTCTimer \<Rightarrow> 'r RTCTimer" where
  "cmos_write select v rtc = rtc\<lparr>cmos := (cmos rtc)(select AND 0x7F := v)\<rparr>"

definition RTCTimer_new :: "'r RTCTimer \<Rightarrow> 'r RTCTimer" where
  "RTCTimer_new raw =
     (let rtc = raw\<lparr>interruptsEnabled := False, pRunnable := None\<rparr>
      in cmos_write 0x8B (cmos_read 0x8B rtc OR 0x40) rtc)"

text \<open>The loop that looks for the highest bit of the frequency.\<close>

fun rate_loop :: "u32 \<Rightarrow> nat \<Rightarrow> nat \<Rightarrow> nat" where
  "rate_loop frequency i iPower =
     (if i \<ge> 2 then if frequency AND of_nat i \<noteq> 0 then 16 - iPower else rate_loop frequency (i div 2) (iPower - 1) else 0)"

declare rate_loop.simps [simp del]

definition change_rate :: "nat \<Rightarrow> 'r RTCTimer \<Rightarrow> 'r RTCTimer" where
  "change_rate rate rtc = cmos_write 0x8A ((cmos_read 0x8A rtc AND 0xF0) OR of_nat rate) rtc"

definition setTimerFrequency :: "bool \<Rightarrow> u32 \<Rightarrow> 'r RTCTimer \<Rightarrow> 'r RTCTimer option" where
  "setTimerFrequency core frequency rtc =
     (if frequency > 8192 then Some rtc
      else if frequency < 2 then Some rtc
      else let rate = rate_loop frequency 8192 13 in if \<not> core then None else Some (change_rate rate rtc))"

definition allowNextInterrupt :: "'r RTCTimer \<Rightarrow> 'r RTCTimer" where
  "allowNextInterrupt rtc = cmos_write 0x0C 0 rtc"

text \<open>\<open>self\<close> is the address of the timer, \<open>handler\<close> the function \<open>rtcTimerInterruptHandler\<close> in the table of handlers.\<close>

definition rtc_setTimerCallback ::
  "u32 \<Rightarrow> 'h \<Rightarrow> 'r \<Rightarrow> 'h InterruptHandlerManager option \<Rightarrow> 'r RTCTimer \<Rightarrow> ('h InterruptHandlerManager option \<times> 'r RTCTimer) option" where
  "rtc_setTimerCallback self handler pNewRunnable core rtc =
     (let rtc = rtc\<lparr>pRunnable := Some pNewRunnable\<rparr> in
      if interruptsEnabled rtc then Some (core, rtc)
      else do {
        mgr \<leftarrow> core;
        mgr \<leftarrow> setInterruptHandlerParam 40 self mgr;
        mgr \<leftarrow> setInterruptHandler 40 handler mgr;
        Some (Some mgr, allowNextInterrupt (rtc\<lparr>interruptsEnabled := True\<rparr>)) })"

definition rtcTimerInterruptHandler :: "('r \<Rightarrow> 's \<Rightarrow> 's) \<Rightarrow> 'r RTCTimer \<Rightarrow> 's \<Rightarrow> 'r RTCTimer \<times> 's" where
  "rtcTimerInterruptHandler run rtc st =
     (let st = (case pRunnable rtc of None \<Rightarrow> st | Some r \<Rightarrow> run r st) in (allowNextInterrupt rtc, st))"

subsection \<open>The rate\<close>

lemma top_bit:
  fixes f :: u32
  assumes "unat f < 2 * 2 ^ p" "p < 32"
  shows "f AND of_nat (2 ^ p) \<noteq> 0 \<longleftrightarrow> 2 ^ p \<le> unat f"
proof -
  have "f AND of_nat (2 ^ p) \<noteq> 0 \<longleftrightarrow> bit f p" by (simp add: and_exp_eq_0_iff_not_bit)
  also have "\<dots> \<longleftrightarrow> bit (unat f) p" by (simp add: bit_simps assms(2))
  also have "\<dots> \<longleftrightarrow> odd (unat f div 2 ^ p)" by (rule bit_iff_odd)
  also have "\<dots> \<longleftrightarrow> 2 ^ p \<le> unat f"
  proof -
    have "unat f div 2 ^ p < 2" using assms(1) by (simp add: div_less_iff_less_mult)
    moreover have "unat f div 2 ^ p = 0 \<longleftrightarrow> unat f < 2 ^ p" by (simp add: div_eq_0_iff)
    ultimately show ?thesis by (cases "unat f div 2 ^ p" rule: nat.exhaust) auto
  qed
  finally show ?thesis .
qed

lemma rate_loop_log:
  assumes "unat f < 2 * 2 ^ p" "2 \<le> unat f" "p \<le> 13"
  obtains k where "rate_loop f (2 ^ p) p = 16 - k" "1 \<le> k" "k \<le> p" "2 ^ k \<le> unat f" "unat f < 2 * 2 ^ k"
  using assms
proof (induction p arbitrary: thesis)
  case 0
  then show ?case by simp
next
  case (Suc p)
  have two: "2 \<le> (2::nat) ^ Suc p" by simp
  show ?case
  proof (cases "2 ^ Suc p \<le> unat f")
    case True
    then have "rate_loop f (2 ^ Suc p) (Suc p) = 16 - Suc p"
      using two top_bit [of f "Suc p"] Suc.prems by (subst rate_loop.simps) (simp del: of_nat_power power_Suc)
    then show ?thesis using True Suc.prems(1) [of "Suc p"] Suc.prems(2-4) by simp
  next
    case False
    then have "rate_loop f (2 ^ Suc p) (Suc p) = rate_loop f (2 ^ Suc p div 2) p"
      using two top_bit [of f "Suc p"] Suc.prems by (subst rate_loop.simps) (simp del: of_nat_power power_Suc)
    also have "2 ^ Suc p div 2 = (2::nat) ^ p" by simp
    finally have eq: "rate_loop f (2 ^ Suc p) (Suc p) = rate_loop f (2 ^ p) p" .
    have "unat f < 2 * 2 ^ p" using False by simp
    then obtain k where "rate_loop f (2 ^ p) p = 16 - k" "1 \<le> k" "k \<le> p" "2 ^ k \<le> unat f" "unat f < 2 * 2 ^ k"
      using Suc.IH Suc.prems by (metis Suc_leD)
    then show ?thesis using Suc.prems(1) [of k] eq by simp
  qed
qed

text \<open>A frequency between 2 and 8192 is rounded down to a power of two: the rate \<open>r\<close> written to the low half of register A, for which the
  chip divides 32768 Hz by \<open>2 ^ (r - 1)\<close>, selects the highest power that is not above the frequency. The other half and the other registers stay,
  and every other frequency is ignored.\<close>

lemma rtc_rate:
  "(2 \<le> unat f \<and> unat f \<le> 8192 \<longrightarrow>
     (\<exists>r \<in> {3..15}. setTimerFrequency True f rtc = Some (change_rate r rtc) \<and>
        cmos (change_rate r rtc) 0x0A AND 0x0F = of_nat r \<and> cmos (change_rate r rtc) 0x0A AND 0xF0 = cmos rtc 0x0A AND 0xF0 \<and>
        (\<forall>x. x \<noteq> 0x0A \<longrightarrow> cmos (change_rate r rtc) x = cmos rtc x) \<and>
        32768 div 2 ^ (r - 1) \<le> unat f \<and> unat f < 2 * (32768 div 2 ^ (r - 1)))) \<and>
   (unat f < 2 \<or> 8192 < unat f \<longrightarrow> setTimerFrequency core f rtc = Some rtc)"
proof (intro conjI impI)
  assume f: "2 \<le> unat f \<and> unat f \<le> 8192"
  then have "unat f < 2 * 2 ^ 13" "2 \<le> unat f" by simp_all
  then obtain k where k: "rate_loop f (2 ^ 13) 13 = 16 - k" "1 \<le> k" "k \<le> 13" "2 ^ k \<le> unat f" "unat f < 2 * 2 ^ k"
    by (rule rate_loop_log) simp_all
  define r where "r = 16 - k"
  have r: "r \<in> {3..15}" using k by (auto simp: r_def)
  have "setTimerFrequency True f rtc = Some (change_rate r rtc)"
    using f k(1) by (simp add: setTimerFrequency_def word_less_nat_alt r_def)
  moreover have "cmos (change_rate r rtc) 0x0A = (cmos rtc 0x0A AND 0xF0) OR of_nat r"
    by (simp add: change_rate_def cmos_write_def cmos_read_def)
  moreover have "((v AND 0xF0) OR of_nat r) AND 0x0F = (of_nat r :: u8)" "((v AND 0xF0) OR of_nat r) AND 0xF0 = v AND (0xF0 :: u8)" for v
  proof -
    have split: "r \<in> {3, 4, 5, 6, 7, 8, 9, 10, 11, 12, 13, 14, 15}" using r by (simp add: numeral_eq_Suc) presburger
    then have low: "(of_nat r :: u8) AND 0x0F = of_nat r" "(of_nat r :: u8) AND 0xF0 = 0" by auto
    show "((v AND 0xF0) OR of_nat r) AND 0x0F = (of_nat r :: u8)" by (simp add: bit.conj_disj_distrib2 and.assoc low)
    show "((v AND 0xF0) OR of_nat r) AND 0xF0 = v AND (0xF0 :: u8)" by (simp add: bit.conj_disj_distrib2 and.assoc low)
  qed
  moreover have "cmos (change_rate r rtc) x = cmos rtc x" if "x \<noteq> 0x0A" for x using that by (simp add: change_rate_def cmos_write_def)
  moreover have "32768 div 2 ^ (r - 1) = (2::nat) ^ k"
  proof -
    have "(32768::nat) = 2 ^ (r - 1) * 2 ^ k" using k(2,3) by (simp add: r_def flip: power_add)
    then show ?thesis by (metis nonzero_mult_div_cancel_left power_not_zero zero_neq_numeral)
  qed
  ultimately show "\<exists>r \<in> {3..15}. setTimerFrequency True f rtc = Some (change_rate r rtc) \<and>
        cmos (change_rate r rtc) 0x0A AND 0x0F = of_nat r \<and> cmos (change_rate r rtc) 0x0A AND 0xF0 = cmos rtc 0x0A AND 0xF0 \<and>
        (\<forall>x. x \<noteq> 0x0A \<longrightarrow> cmos (change_rate r rtc) x = cmos rtc x) \<and>
        32768 div 2 ^ (r - 1) \<le> unat f \<and> unat f < 2 * (32768 div 2 ^ (r - 1))"
    using r k(4,5) by (intro bexI [of _ r]) auto
next
  assume "unat f < 2 \<or> 8192 < unat f"
  then show "setTimerFrequency core f rtc = Some rtc" by (auto simp: setTimerFrequency_def word_less_nat_alt)
qed

text \<open>The two interrupts per second that the network task asks for.\<close>

lemma rtc_two_hertz: "setTimerFrequency True 2 rtc = Some (change_rate 15 rtc)"
  by (simp add: setTimerFrequency_def rate_loop.simps)

subsection \<open>Ticks\<close>

text \<open>What the chip and the timer do at each interrupt: a cause stands in register C, and the handler runs.\<close>

definition rtc_tick :: "('r \<Rightarrow> 's \<Rightarrow> 's) \<Rightarrow> 'r RTCTimer \<times> 's \<Rightarrow> 'r RTCTimer \<times> 's" where
  "rtc_tick run = (\<lambda>(rtc, st). if cmos rtc 0x0C \<noteq> 0 then (rtc, st) else rtcTimerInterruptHandler run (cmos_write 0x0C 0xC0 rtc) st)"

lemma rtc_tick_step:
  "cmos rtc 0x0C = 0 \<Longrightarrow> pRunnable rtc = Some r \<Longrightarrow>
   \<exists>rtc'. rtc_tick run (rtc, st) = (rtc', run r st) \<and> cmos rtc' 0x0C = 0 \<and> pRunnable rtc' = Some r"
  by (auto simp: rtc_tick_def rtcTimerInterruptHandler_def allowNextInterrupt_def cmos_write_def Let_def)

text \<open>Once a callback is set, every tick runs it exactly once: the handler never leaves the chip waiting.\<close>

lemma rtc_ticks:
  assumes "rtc_setTimerCallback self handler r (Some mgr) rtc = Some (core, rtc0)" "\<not> interruptsEnabled rtc"
  shows "\<exists>rtc'. (rtc_tick run ^^ n) (rtc0, st) = (rtc', (run r ^^ n) st) \<and> cmos rtc' 0x0C = 0 \<and> pRunnable rtc' = Some r"
proof (induction n)
  case 0
  show ?case using assms
    by (auto simp: rtc_setTimerCallback_def allowNextInterrupt_def cmos_write_def split: Option.bind_splits)
next
  case (Suc n)
  then show ?case using rtc_tick_step by fastforce
qed

end
