(* ===== verification/Spec2Isabelle.thy ===== *)
theory Spec2Isabelle
  imports Isolation Interface_Properties Coap_Overflow Management Heap_Live Boot Screen Timers
begin

text \<open>
  A verification of the kernel of the CPU scheduler service: a 32-bit x86 kernel that runs user tasks which are uploaded,
  started and removed over CoAP, and gives them UDP sockets. The sources are C++ under \<open>src/operating_system\<close> and
  \<open>src/cpp_lib\<close>; the development models the build without \<open>E2E_TESTING\<close>.

  \<^bold>\<open>The program.\<close>
  \<open>main\<close> marks the pages that are in use as allocated, constructs the objects below and starts two kernel tasks. The
  timer interrupt switches between the active tasks in turn. The \<^emph>\<open>management task\<close> runs a CoAP server whose handlers create,
  fill, start and remove user tasks. The \<^emph>\<open>network task\<close> moves packets between the sockets and the two network interfaces,
  through a network stack handler for each interface. User tasks call the kernel by interrupts 49 to 55; the kernel checks the addresses they pass
  and installs their buffers in the socket manager. Memory comes from the page allocator (tasks) and the memory manager (kernel objects).

  \<^bold>\<open>Conventions\<close> (\<open>Prelude\<close>, \<open>Kernel_Types\<close>, \<open>Linked_Lists\<close>, \<open>Free_Lists\<close>).
  Machine integers are words of their width, so that arithmetic wraps around as in the code; \<open>int\<close> values that stay small are \<open>int\<close> or \<open>nat\<close>.
  A class is a record of its members, an operation a function from the state to an optional state: \<open>None\<close> is an access outside an array or
  through a null pointer, so that a theorem with \<open>Some\<close> also says that no such access happens. Memory is a function
  from 32-bit addresses to bytes. The linked lists of the code are threaded through arrays: a pointer is the optional index of an element.
  \<open>Linked_Lists\<close> and \<open>Free_Lists\<close> relate such arrays to HOL lists; the locale \<open>threaded_array\<close> of \<open>Free_Lists\<close> holds what the registered
  paths of the CoAP server and the tasks of the task manager have in common and is interpreted for both.

  \<^bold>\<open>Components, theories and sources.\<close>

  \<^item> \<^emph>\<open>Library functions\<close>: \<open>Cpp_Lib\<close> (\<open>cpp_lib/mem.cpp\<close>, \<open>string.cpp\<close>). The routines that work on four bytes at a time agree with
    byte-wise ones at every alignment; numbers are printed in decimal and hexadecimal.

  \<^item> \<^emph>\<open>Memory manager\<close>: \<open>Memory_Manager\<close> (\<open>cpp_lib/memory_manager.cpp\<close>), a first-fit allocator whose free list lies in the memory it
    manages. \<open>Heap_Lists\<close> abstracts it to a list of blocks, \<open>Heap_Properties\<close> specifies \<open>allocate\<close> and \<open>free\<close>, and
    \<open>Heap_Live\<close> has the step relation \<open>heap_reach\<close> of allocations, releases and writes in any order, with the invariant that live allocations never overlap.

  \<^item> \<^emph>\<open>Paging\<close>: \<open>Paging\<close> (\<open>paging/paging.cpp\<close>, \<open>paging_structures.cpp\<close>, \<open>cpu_core/current_paging_structure.cpp\<close>) with the walk of the
    processor over the tables, \<open>Page_Allocator\<close> (\<open>paging/page_allocator.cpp\<close>). \<open>Page_Completeness\<close> shows that the search misses no free run,
    \<open>Page_Regions\<close> states the contract as the locale \<open>region_allocator\<close> and interprets it, \<open>Kernel_Mapping\<close> shows that the codes the
    allocator keeps in the entries do not change the mapping, and \<open>Page_Properties\<close> has the results. \<open>Boot\<close> (\<open>global_resources/bios_map.cpp\<close>,
    \<open>main/main.cpp\<close>) is the reservation of the memory that is in use before the first task; from there on the kernel's addresses are mapped
    to themselves.

  \<^item> \<^emph>\<open>Tasks\<close>: \<open>Cpu_Core\<close> (task list, task switch, life cycle), \<open>User_Task\<close> (address space of a user task), \<open>Syscalls\<close> (system calls, address checks,
    first stack), all of \<open>cpu_core/cpu_core.cpp\<close>, and \<open>Interrupts\<close> (\<open>interrupt_handler_manager.cpp\<close> with its assembly routines, \<open>tss.cpp\<close>).
    \<open>Task_Lifecycle\<close> splits the operations on the task list into their stores and lets task switches happen between any two of them
    (\<open>kernel_step\<close>). \<open>Task_Properties\<close> and \<open>Isolation\<close> have the results. \<open>Timers\<close> (\<open>cpu_core/timer.cpp\<close>, \<open>global_resources/rtc_timer.cpp\<close>)
    has the divider of the task timer and the rate and the ticks of the real time clock.

  \<^item> \<^emph>\<open>Sockets\<close>: \<open>Socket_Manager\<close> (\<open>network_management_task/socket_manager.cpp\<close>), with \<open>Socket_Delivery\<close> for received packets,
    \<open>Socket_Transmission\<close> for the list of transmission requests and the send buffers, and the results in \<open>Socket_Properties\<close>. \<open>Socket_Steps\<close> has the step relation \<open>socket_step\<close> of all operations in any order,
    under which a receive buffer only ever shrinks until another one is installed.

  \<^item> \<^emph>\<open>Network stack\<close>: \<open>Network_Stack\<close> (\<open>network_stack_handler.h\<close>: Ethernet, ARP, IPv4). \<open>Network_Pool\<close> says where each packet element is,
    \<open>Network_Reassembly\<close> and \<open>Network_Invariant\<close> what a frame does to the lists, \<open>Network_Queue\<close> that the readable datagrams are a queue,
    \<open>Network_Fragments\<close> that reassembly does not depend on the order of the frames, \<open>Network_Send\<close> and \<open>Fragmentation\<close> which frames are sent for a datagram.
    \<open>Network_Properties\<close> states the interface to the network task as the locale \<open>datagram_queue\<close>, which is interpreted for
    the handler there and, for UDP datagrams, in \<open>Reception\<close>.

  \<^item> \<^emph>\<open>Interfaces\<close>: \<open>Loopback\<close>, \<open>Loopback_Checksum\<close>, \<open>Loopback_Ring\<close> (\<open>loopback_network_interface.cpp\<close>) and
    \<open>Physical_Interface\<close>, \<open>Physical_Rings\<close> (\<open>global_resources/physical_network_interface.cpp\<close>); results in \<open>Interface_Properties\<close>.

  \<^item> \<^emph>\<open>Network task\<close>: \<open>Network_Task\<close> (\<open>network_management_task.cpp\<close>): set-up, transmission and reception over the components above;
    \<open>Reception\<close> takes the datagrams from the stack handler to the sockets.

  \<^item> \<^emph>\<open>CoAP server\<close>: \<open>Coap_Server\<close> (\<open>cpp_lib/coap_server.cpp\<close>). \<open>Coap_Matching\<close> (which registered paths fit), \<open>Coap_Registry\<close> (the registered paths
    as a list), \<open>Coap_Requests\<close> and \<open>Coap_Responses\<close> (reading and answering a request), \<open>Coap_Properties\<close> (no access outside a buffer),
    \<open>Coap_Dispatch\<close> (requests as a client encodes them reach the right handler), \<open>Coap_Receive\<close> (a whole receive buffer),
    \<open>Coap_Overflow\<close> (paths that do not fit the local array).

  \<^item> \<^emph>\<open>Management task\<close>: \<open>Task_Manager\<close> and \<open>Api_Handlers\<close> (\<open>os_management_task/task_manager.cpp\<close>, \<open>api_handlers.cpp\<close>, \<open>os_management_task.cpp\<close>).
    \<open>Task_Table\<close> refines the manager to a table from identifiers to tasks, \<open>Api_Properties\<close> the handlers to operations on the table
    with the responses of the protocol, and \<open>Management\<close> composes them with the server.

  \<^item> \<^emph>\<open>Screen\<close>: \<open>Screen\<close> (\<open>global_resources/screen.cpp\<close>), a refinement of a scrolling terminal.

  \<^bold>\<open>What is shown.\<close>
  Packets are delivered byte for byte to the owner of the port and nowhere else; every interleaving of allocations and releases keeps live memory disjoint, for
  pages and for the kernel heap; a user task reaches its own region, and besides at most what the uninitialised entries of two of its pages name; buffers it installs, if their
  end does not wrap around, confine what the kernel writes for it; timer interrupts run the tasks in turn, also while tasks are started or ended; datagrams survive fragmentation in any order of the
  frames; the interrupt handlers of both interfaces end; requests that a client encodes have the effect on the tasks, and the response,
  that a table of tasks prescribes; malformed requests with a path of at most 100 characters touch nothing outside the buffers. Where the code does something else than it means to,
  the behaviour is a lemma or a hypothesis excludes it by name: \<open>packet_port_out_of_range\<close>, \<open>access_check_wraps\<close>, \<open>failed_allocation_used\<close>,
  \<open>full_frames_never_last\<close>, \<open>allocate_outside_block\<close>, \<open>smallest_int_string\<close>, the theorem of \<open>Coap_Overflow\<close> on longer
  paths, and the cases of \<open>user_isolation\<close>, \<open>upload_data\<close> and \<open>interrupt_table\<close> for uninitialised entries, sums that wrap around and gates that are never set.

  \<^bold>\<open>Loops.\<close>
  Most loops are structural or have a termination proof. Loops over pointers take a bound on the number of rounds, \<open>None\<close> when it is
  exceeded; that it never is, is part of the theorems that give a result. The bounds: \<open>Suc (length es)\<close> for a walk over a list threaded through the
  array \<open>es\<close> (it visits each element at most once), \<open>Suc (length p)\<close> for the options of a packet \<open>p\<close> and for the datagrams of a buffer (each round consumes
  a byte at least), 33 for the receive ring (32 descriptors), 46 for one transmission (a datagram has fewer than 65536 bytes, and a round that goes on sends 1480), 120 levels
  for the interrupt of the loopback interface, which nests when it answers an ARP request (\<open>rank\<close> decreases). The loops of the
  memory manager are partial functions, and the theorems of \<open>Heap_Properties\<close> and \<open>Heap_Live\<close> show that they return.

  \<^bold>\<open>Not modelled.\<close>
  The boot loader, port and PCI instructions, the cache of address translations and the C++ runtime: machine state outside the C++ code.
  The rest of \<open>main\<close>, which calls the constructors, and the kernel's endless loop. The serial log and everything under
  \<open>E2E_TESTING\<close>, tests, example tasks and the deployment scripts. Task switches are modelled between the stores of the task list operations and
  between whole operations elsewhere. Interrupts of the
  network card in the middle of an operation of the network task are not modelled. The set-up of the two kernel tasks is modelled for the case that its
  allocations succeed; the code stops otherwise. The theorems about \<open>allocate\<close> ask for room for the padding in each free block (\<open>roomy\<close>), which alignments of up to
  8 always have; \<open>allocate_outside_block\<close> shows what happens without it.
  The card adds no frames while its interrupt handler empties the ring. What uninitialised memory and the registers of the processor give (\<open>mc_raw\<close>, \<open>mc_vread\<close>)
  is arbitrary but the same throughout a run. The stores of the four values of a task descriptor, which is not linked yet, count as one. A task's memory is
  read and written by the kernel at its kernel addresses (\<open>task_view\<close>); the last pages of 4MB blocks, where the task itself may see another page, are covered by \<open>user_isolation\<close>.
\<close>

subsection \<open>The clock of the network stack\<close>

text \<open>The network task sets the real time clock to two interrupts per second and registers the callback that counts them in both network
  stack handlers, by which they tell stale fragments and ARP entries. The counters count modulo \<open>2 ^ 31\<close>.\<close>

definition ticked :: "nat \<Rightarrow> NetworkStackHandler \<Rightarrow> NetworkStackHandler" where
  "ticked n st = st\<lparr>ns_timerCounter := (ns_timerCounter st + int n) mod 2147483648\<rparr>"

lemma increment_n: "ns_timerCounter st \<in> {0..<2147483648} \<Longrightarrow> (incrementTimerCounter ^^ n) st = ticked n st"
proof (induction n)
  case 0
  then show ?case by (simp add: ticked_def)
next
  case (Suc n)
  define a where "a = (ns_timerCounter st + int n) mod 2147483648"
  have a: "0 \<le> a" "a < 2147483648" by (simp_all add: a_def)
  have "(ns_timerCounter st + int (Suc n)) mod 2147483648 = (a + 1) mod 2147483648"
    unfolding a_def by (simp add: mod_add_left_eq mod_add_right_eq ac_simps)
  also have "\<dots> = (if a + 1 = 2147483648 then 0 else a + 1)" using a by simp
  finally have "ticked (Suc n) st = st\<lparr>ns_timerCounter := if a + 1 = 2147483648 then 0 else a + 1\<rparr>" by (simp only: ticked_def)
  moreover have "(incrementTimerCounter ^^ Suc n) st = incrementTimerCounter (st\<lparr>ns_timerCounter := a\<rparr>)"
    using Suc by (simp add: ticked_def a_def)
  moreover have "incrementTimerCounter (st\<lparr>ns_timerCounter := a\<rparr>) = st\<lparr>ns_timerCounter := if a + 1 = 2147483648 then 0 else a + 1\<rparr>"
    using a by (simp add: incrementTimerCounter_def Let_def)
  ultimately show ?case by (simp only:)
qed

lemma callback_n:
  "(RTCTimerCallback_run ^^ n) nt =
   nt\<lparr>nt_ph_stack := (incrementTimerCounter ^^ n) (nt_ph_stack nt), nt_lo_stack := (incrementTimerCounter ^^ n) (nt_lo_stack nt)\<rparr>"
  by (induction n) (simp_all add: RTCTimerCallback_run_def)

text \<open>The time since a reading of the counter that is \<open>n\<close> ticks old is computed as \<open>n\<close>, also when the counter has started again at 0 in between.\<close>

lemma passed_ticks:
  assumes "ns_timerCounter st \<in> {0..<2147483648}" "n < 2147483648"
  shows "passedTimeSince (ticked n st) (ns_timerCounter st) = of_nat n"
proof (cases "ns_timerCounter st + int n < 2147483648")
  case True
  then show ?thesis using assms by (simp add: passedTimeSince_def ticked_def)
next
  case False
  then have "(ns_timerCounter st + int n) mod 2147483648 = ns_timerCounter st + int n - 2147483648"
    using assms by (intro mod_pos_pos_trivial [of "ns_timerCounter st + int n - 2147483648" 2147483648, simplified]) auto
  then show ?thesis using assms by (simp add: passedTimeSince_def ticked_def)
qed

text \<open>From the registration of the callback on, \<open>n\<close> interrupts of the clock advance both handlers by \<open>n\<close>, and the clock is ready for the next one.\<close>

lemma network_clock:
  assumes "rtc_setTimerCallback self handler () (Some mgr) rtc = Some (core, rtc0)" "\<not> interruptsEnabled rtc"
    and "ns_timerCounter (nt_ph_stack nt) \<in> {0..<2147483648}" "ns_timerCounter (nt_lo_stack nt) \<in> {0..<2147483648}"
  shows "\<exists>rtc'. (rtc_tick (\<lambda>_. RTCTimerCallback_run) ^^ n) (rtc0, nt) =
    (rtc', nt\<lparr>nt_ph_stack := ticked n (nt_ph_stack nt), nt_lo_stack := ticked n (nt_lo_stack nt)\<rparr>) \<and> cmos rtc' 0x0C = 0"
  using rtc_ticks [OF assms(1,2), where run = "\<lambda>_. RTCTimerCallback_run" and n = n and st = nt] assms(3,4) by (auto simp: callback_n increment_n)

end
